(* ===== verification/Prelude.thy ===== *)
theory Prelude
  imports Main "HOL-Library.Word"
begin

unbundle bit_operations_syntax

text \<open>
  Shared vocabulary of the development: the machine types of
  \<^verbatim>\<open>libgpos/include/gpos/types.h\<close>, the collections of simplification
  rules the components add to, and generic facts on lists and bits that more than
  one component uses.
\<close>

section \<open>Machine types\<close>

text \<open>
  \<open>ULONG\<close> is \<open>uint32_t\<close> and \<open>ULLONG\<close> is \<open>uint64_t\<close>.  Words whose
  bits matter (units of bit vectors, hashes) are \<open>word\<close>s; indices, sizes and counters are
  natural numbers, with the reduction modulo \<open>2 ^ 32\<close> written out where the code can wrap.
\<close>

type_synonym ulong_w = "32 word"
type_synonym ullong = "64 word"
type_synonym byte = "8 word"

abbreviation ULONG_MOD :: nat where
  "ULONG_MOD \<equiv> 4294967296"

definition ULONG_MAX :: nat where
  "ULONG_MAX = 4294967295"

definition ul_add :: "nat \<Rightarrow> nat \<Rightarrow> nat" where
  "ul_add a b = (a + b) mod ULONG_MOD"

definition ul_sub :: "nat \<Rightarrow> nat \<Rightarrow> nat" where
  "ul_sub a b = (a + (ULONG_MOD - b mod ULONG_MOD)) mod ULONG_MOD"

lemma ul_add_exact: "a + b < ULONG_MOD \<Longrightarrow> ul_add a b = a + b"
  by (simp add: ul_add_def)

lemma ul_add_mod: "ul_add (a mod ULONG_MOD) b = (a + b) mod ULONG_MOD"
  by (simp add: ul_add_def mod_add_left_eq)

lemma ul_add_mod_both: "ul_add (a mod ULONG_MOD) (b mod ULONG_MOD) = (a + b) mod ULONG_MOD"
  by (simp add: ul_add_def mod_add_eq)

lemma ul_add_lt: "ul_add a b < ULONG_MOD"
  by (simp add: ul_add_def)

lemma ul_sub_lt: "ul_sub a b < ULONG_MOD"
  by (simp add: ul_sub_def)

lemma ul_sub_one_mod: "0 < a \<Longrightarrow> ul_sub (a mod ULONG_MOD) 1 = (a - 1) mod ULONG_MOD"
proof -
  assume "0 < a"
  then have "a + (ULONG_MOD - 1) = a - 1 + ULONG_MOD"
    by simp
  then have "(a mod ULONG_MOD + (ULONG_MOD - 1)) mod ULONG_MOD = (a - 1 + ULONG_MOD) mod ULONG_MOD"
    by (simp only: mod_add_left_eq)
  then show ?thesis by (simp add: ul_sub_def)
qed

section \<open>Collections of rules\<close>

named_theorems bv_simps "rewrite rules for bit vectors"
named_theorems bs_simps "rewrite rules for bit sets"
named_theorems range_simps "rewrite rules for ranges and their bounds"

section \<open>Lists\<close>

text \<open>The first element, if any.\<close>

definition hd_opt :: "'a list \<Rightarrow> 'a option" where
  "hd_opt xs = (case xs of [] \<Rightarrow> None | x # _ \<Rightarrow> Some x)"

lemma hd_opt_simps [simp]: "hd_opt [] = None" "hd_opt (x # xs) = Some x"
  by (simp_all add: hd_opt_def)

lemma sorted_wrt_less_distinct: "sorted_wrt (<) (xs :: 'a :: linorder list) \<Longrightarrow> distinct xs"
  by (induction xs) auto

lemma sum_list_ul_add:
  "foldl (\<lambda>c x. ul_add c (f x)) (c0 mod ULONG_MOD) xs = (c0 + sum_list (map f xs)) mod ULONG_MOD"
proof (induction xs arbitrary: c0)
  case Nil
  then show ?case by simp
next
  case (Cons x xs)
  have "foldl (\<lambda>c x. ul_add c (f x)) (c0 mod ULONG_MOD) (x # xs)
      = foldl (\<lambda>c x. ul_add c (f x)) ((c0 + f x) mod ULONG_MOD) xs"
    by (simp add: ul_add_mod)
  also have "\<dots> = (c0 + f x + sum_list (map f xs)) mod ULONG_MOD"
    by (rule Cons.IH)
  finally show ?case by (simp add: add.assoc)
qed

end
