(* ===== verification/BitVector.thy ===== *)
theory BitVector
  imports Prelude
begin

text \<open>
  The static bit vector \<^verbatim>\<open>CBitVector\<close> of
  \<^verbatim>\<open>libgpos/src/common/CBitVector.cpp\<close> and the byte-array hash of
  \<^verbatim>\<open>libgpos/src/utils.cpp\<close> it uses.
\<close>

unbundle bit_operations_syntax

section \<open>Hash functions of utils.cpp\<close>

text \<open>\<open>(h << 5) XOR (h >> 27) XOR b\<close> over the bytes, starting with the size.\<close>

fun hash_bytes :: "ulong_w \<Rightarrow> byte list \<Rightarrow> ulong_w" where
  "hash_bytes ulHash [] = ulHash"
| "hash_bytes ulHash (b # bs) =
     hash_bytes ((push_bit 5 ulHash XOR drop_bit 27 ulHash) XOR ucast b) bs"

definition UlHashByteArray :: "byte list \<Rightarrow> ulong_w" where
  "UlHashByteArray pb = hash_bytes (of_nat (length pb)) pb"

text \<open>The bytes of a word in memory, least significant first (the x86 targets of the README).\<close>

definition bytes_of_ulong :: "ulong_w \<Rightarrow> byte list" where
  "bytes_of_ulong w = map (\<lambda>i. ucast (drop_bit (8 * i) w)) [0..<4]"

definition bytes_of_ullong :: "ullong \<Rightarrow> byte list" where
  "bytes_of_ullong w = map (\<lambda>i. ucast (drop_bit (8 * i) w)) [0..<8]"

definition UlCombineHashes :: "ulong_w \<Rightarrow> ulong_w \<Rightarrow> ulong_w" where
  "UlCombineHashes ul0 ul1 = UlHashByteArray (bytes_of_ulong ul0 @ bytes_of_ulong ul1)"

section \<open>The vector\<close>

abbreviation BITS_PER_UNIT :: nat where
  "BITS_PER_UNIT \<equiv> 64"

record bitvector =
  m_cBits :: nat
  m_cUnits :: nat
  m_rgull :: "ullong list"

definition bv_Clear :: "bitvector \<Rightarrow> bitvector" where
  "bv_Clear bv = bv\<lparr>m_rgull := replicate (m_cUnits bv) 0\<rparr>"

definition bv_new :: "nat \<Rightarrow> bitvector" where
  "bv_new cBits =
     (let units = cBits div BITS_PER_UNIT;
          units' = (if units * BITS_PER_UNIT < cBits then units + 1 else units)
      in bv_Clear \<lparr>m_cBits = cBits, m_cUnits = units', m_rgull = []\<rparr>)"

definition bv_copy :: "bitvector \<Rightarrow> bitvector" where
  "bv_copy bv = \<lparr>m_cBits = m_cBits bv, m_cUnits = m_cUnits bv,
                 m_rgull = take (m_cUnits bv) (m_rgull bv)\<rparr>"

text \<open>The mask of a bit: \<open>((ULLONG)1) << (ulBit % BITS_PER_UNIT)\<close>.\<close>

definition unit_mask :: "nat \<Rightarrow> ullong" where
  "unit_mask ulBit = push_bit (ulBit mod BITS_PER_UNIT) 1"

definition bv_FBit :: "bitvector \<Rightarrow> nat \<Rightarrow> bool" where
  "bv_FBit bv ulBit = (m_rgull bv ! (ulBit div BITS_PER_UNIT) AND unit_mask ulBit \<noteq> 0)"

definition bv_FExchangeSet :: "bitvector \<Rightarrow> nat \<Rightarrow> bool \<times> bitvector" where
  "bv_FExchangeSet bv ulBit =
     (let fSet = bv_FBit bv ulBit; cUnit = ulBit div BITS_PER_UNIT
      in (fSet, bv\<lparr>m_rgull := (m_rgull bv)[cUnit := m_rgull bv ! cUnit OR unit_mask ulBit]\<rparr>))"

definition bv_FExchangeClear :: "bitvector \<Rightarrow> nat \<Rightarrow> bool \<times> bitvector" where
  "bv_FExchangeClear bv ulBit =
     (let fSet = bv_FBit bv ulBit; cUnit = ulBit div BITS_PER_UNIT
      in (fSet, bv\<lparr>m_rgull := (m_rgull bv)[cUnit := m_rgull bv ! cUnit AND NOT (unit_mask ulBit)]\<rparr>))"

text \<open>The loops over the units, from unit \<open>i\<close> on, in place.\<close>

function bv_unite_from :: "nat \<Rightarrow> bitvector \<Rightarrow> bitvector \<Rightarrow> bitvector" where
  "bv_unite_from i bv pbv =
     (if i < m_cUnits bv
      then bv_unite_from (i + 1)
             (bv\<lparr>m_rgull := (m_rgull bv)[i := m_rgull bv ! i OR m_rgull pbv ! i]\<rparr>) pbv
      else bv)"
  by pat_completeness auto
termination
  by (relation "measure (\<lambda>(i, bv, pbv). m_cUnits bv - i)") auto

definition bv_Union :: "bitvector \<Rightarrow> bitvector \<Rightarrow> bitvector" where
  "bv_Union bv pbv = bv_unite_from 0 bv pbv"

function bv_intersect_from :: "nat \<Rightarrow> bitvector \<Rightarrow> bitvector \<Rightarrow> bitvector" where
  "bv_intersect_from i bv pbv =
     (if i < m_cUnits bv
      then bv_intersect_from (i + 1)
             (bv\<lparr>m_rgull := (m_rgull bv)[i := m_rgull bv ! i AND m_rgull pbv ! i]\<rparr>) pbv
      else bv)"
  by pat_completeness auto
termination
  by (relation "measure (\<lambda>(i, bv, pbv). m_cUnits bv - i)") auto

definition bv_Intersection :: "bitvector \<Rightarrow> bitvector \<Rightarrow> bitvector" where
  "bv_Intersection bv pbv = bv_intersect_from 0 bv pbv"

text \<open>The tests: each loop returns false at the first unit that fails.\<close>

definition bv_FSubset :: "bitvector \<Rightarrow> bitvector \<Rightarrow> bool" where
  "bv_FSubset bv pbv =
     list_all (\<lambda>i. m_rgull bv ! i AND m_rgull pbv ! i = m_rgull pbv ! i) [0..<m_cUnits bv]"

definition bv_FDisjoint :: "bitvector \<Rightarrow> bitvector \<Rightarrow> bool" where
  "bv_FDisjoint bv pbv =
     list_all (\<lambda>i. m_rgull bv ! i AND m_rgull pbv ! i = 0) [0..<m_cUnits bv]"

definition bv_FEqual :: "bitvector \<Rightarrow> bitvector \<Rightarrow> bool" where
  "bv_FEqual bv pbv =
     (concat (map bytes_of_ullong (take (m_cUnits bv) (m_rgull bv)))
      = concat (map bytes_of_ullong (take (m_cUnits bv) (m_rgull pbv))))"

definition bv_FEmpty :: "bitvector \<Rightarrow> bool" where
  "bv_FEmpty bv = list_all (\<lambda>i. m_rgull bv ! i = 0) [0..<m_cUnits bv]"

text \<open>
  \<open>FNextBit\<close>: the inner loop shifts zeros out, the outer loop moves to the next unit with
  offset 0.  The out-parameter is written only when true is returned, so the result is an option.
\<close>

function skip_zeros :: "ullong \<Rightarrow> nat \<Rightarrow> ullong \<times> nat" where
  "skip_zeros ull ulBit =
     (if ull \<noteq> 0 \<and> ull AND 1 = 0 then skip_zeros (drop_bit 1 ull) (ulBit + 1) else (ull, ulBit))"
  by pat_completeness auto

lemma unat_drop_bit_1: "unat (drop_bit 1 (w :: ullong)) = unat w div 2"
  by (simp add: unat_div drop_bit_eq_div)

termination skip_zeros
  by (relation "measure (\<lambda>(ull, b). unat ull)")
    (auto simp del: One_nat_def simp: unat_drop_bit_1 unat_gt_0 intro!: div_less_dividend)

function next_bit_from :: "bitvector \<Rightarrow> nat \<Rightarrow> nat \<Rightarrow> nat option" where
  "next_bit_from bv cUnit ulOffset =
     (if cUnit < m_cUnits bv
      then let (ull, ulBit) = skip_zeros (drop_bit ulOffset (m_rgull bv ! cUnit)) ulOffset
           in if ull \<noteq> 0 then Some (ulBit + cUnit * BITS_PER_UNIT)
              else next_bit_from bv (cUnit + 1) 0
      else None)"
  by pat_completeness auto
termination
  by (relation "measure (\<lambda>(bv, cUnit, ulOffset). m_cUnits bv - cUnit)") auto

definition bv_FNextBit :: "bitvector \<Rightarrow> nat \<Rightarrow> nat option" where
  "bv_FNextBit bv ulStart =
     next_bit_from bv (ulStart div BITS_PER_UNIT) (ulStart mod BITS_PER_UNIT)"

text \<open>\<open>CElements\<close>: the inner loop clears the lowest set bit until the unit is zero.\<close>

lemma and_minus_one_less: "(w :: ullong) \<noteq> 0 \<Longrightarrow> unat (w AND (w - 1)) < unat w"
proof -
  assume "w \<noteq> 0"
  then have "unat (w - 1) < unat w"
    by (simp add: unat_minus_one unat_gt_0)
  moreover have "unat (w AND (w - 1)) \<le> unat (w - 1)"
    by (metis word_and_le1 word_le_nat_alt)
  ultimately show ?thesis by simp
qed

function clear_lowest_count :: "ullong \<Rightarrow> nat \<Rightarrow> nat" where
  "clear_lowest_count ull j =
     (if ull \<noteq> 0 then clear_lowest_count (ull AND (ull - 1)) (j + 1) else j)"
  by pat_completeness auto
termination
  by (relation "measure (\<lambda>(ull, j). unat ull)") (auto simp: and_minus_one_less)

definition bv_CElements :: "bitvector \<Rightarrow> nat" where
  "bv_CElements bv =
     foldl (\<lambda>cBits i. ul_add cBits (clear_lowest_count (m_rgull bv ! i) 0)) 0 [0..<m_cUnits bv]"

definition bv_UlHash :: "bitvector \<Rightarrow> ulong_w" where
  "bv_UlHash bv = UlHashByteArray (concat (map bytes_of_ullong (take (m_cUnits bv) (m_rgull bv))))"

section \<open>The abstract value: a set of positions\<close>

definition bv_set :: "bitvector \<Rightarrow> nat set" where
  "bv_set bv = {n. n < BITS_PER_UNIT * m_cUnits bv
                 \<and> bit (m_rgull bv ! (n div BITS_PER_UNIT)) (n mod BITS_PER_UNIT)}"

definition bv_wf :: "bitvector \<Rightarrow> bool" where
  "bv_wf bv \<longleftrightarrow> length (m_rgull bv) = m_cUnits bv
     \<and> m_cUnits bv = (m_cBits bv + 63) div BITS_PER_UNIT
     \<and> bv_set bv \<subseteq> {..<m_cBits bv}"

text \<open>Two vectors are compatible (the assertion of every binary operation) when of one size.\<close>

definition bv_same_size :: "bitvector \<Rightarrow> bitvector \<Rightarrow> bool" where
  "bv_same_size bv pbv \<longleftrightarrow> m_cBits bv = m_cBits pbv \<and> m_cUnits bv = m_cUnits pbv"

lemma bv_wf_unit: "bv_wf bv \<Longrightarrow> n < m_cBits bv \<Longrightarrow> n div BITS_PER_UNIT < m_cUnits bv"
  unfolding bv_wf_def by linarith

lemma bv_wf_units: "bv_wf bv \<Longrightarrow> n < m_cBits bv \<Longrightarrow> n < BITS_PER_UNIT * m_cUnits bv"
  unfolding bv_wf_def by linarith

lemma bv_wf_length [bv_simps]: "bv_wf bv \<Longrightarrow> length (m_rgull bv) = m_cUnits bv"
  by (simp add: bv_wf_def)

lemma bv_set_bound: "bv_wf bv \<Longrightarrow> n \<in> bv_set bv \<Longrightarrow> n < m_cBits bv"
  by (auto simp: bv_wf_def)

lemma finite_bv_set [simp]: "finite (bv_set bv)"
  by (rule finite_subset [of _ "{..<BITS_PER_UNIT * m_cUnits bv}"]) (auto simp: bv_set_def)

lemma bv_same_sizeD:
  assumes "bv_wf bv" "bv_wf pbv" "m_cBits bv = m_cBits pbv"
  shows "m_cUnits bv = m_cUnits pbv"
  using assms by (simp add: bv_wf_def)

text \<open>Positions, split in unit and offset.\<close>

lemma bv_set_iff:
  "i < m_cUnits bv \<Longrightarrow> k < BITS_PER_UNIT \<Longrightarrow>
     BITS_PER_UNIT * i + k \<in> bv_set bv \<longleftrightarrow> bit (m_rgull bv ! i) k"
  by (auto simp: bv_set_def)

lemma bv_setE:
  assumes "n \<in> bv_set bv"
  obtains i k where "n = BITS_PER_UNIT * i + k" "i < m_cUnits bv" "k < BITS_PER_UNIT"
    "bit (m_rgull bv ! i) k"
proof
  show "n = BITS_PER_UNIT * (n div BITS_PER_UNIT) + n mod BITS_PER_UNIT"
    by simp
  show "n div BITS_PER_UNIT < m_cUnits bv"
    using assms by (auto simp: bv_set_def less_mult_imp_div_less mult.commute)
qed (use assms in \<open>auto simp: bv_set_def\<close>)

lemma bit_unit_mask: "bit (unit_mask n) k \<longleftrightarrow> k = n mod BITS_PER_UNIT"
  by (auto simp: unit_mask_def bit_exp_iff)

lemma and_unit_mask: "w AND unit_mask n \<noteq> 0 \<longleftrightarrow> bit w (n mod BITS_PER_UNIT)"
  by (simp add: unit_mask_def bit_iff_and_push_bit_not_eq_0)

lemma bv_FBit_set [bv_simps]:
  assumes "bv_wf bv" "n < m_cBits bv"
  shows "bv_FBit bv n \<longleftrightarrow> n \<in> bv_set bv"
  using bv_wf_units [OF assms] by (simp add: bv_FBit_def and_unit_mask bv_set_def)

lemma bv_set_new [bv_simps]: "bv_set (bv_new c) = {}"
  by (auto simp: bv_set_def bv_new_def bv_Clear_def Let_def less_mult_imp_div_less mult.commute
      split: if_splits)

lemma bv_new_size [bv_simps]:
  "m_cBits (bv_new c) = c" "m_cUnits (bv_new c) = (c + 63) div BITS_PER_UNIT"
  unfolding bv_new_def bv_Clear_def Let_def by auto

lemma bv_wf_new [bv_simps]: "bv_wf (bv_new c)"
proof -
  have "length (m_rgull (bv_new c)) = m_cUnits (bv_new c)"
    by (simp add: bv_new_def bv_Clear_def Let_def)
  then show ?thesis
    by (simp add: bv_wf_def bv_simps)
qed

lemma bv_copy_id [bv_simps]: "bv_wf bv \<Longrightarrow> bv_copy bv = bv"
  by (cases bv) (simp add: bv_copy_def bv_wf_def)

subsection \<open>Setting and clearing one bit\<close>

lemma bv_update_unit:
  assumes "bv_wf bv" "i < m_cUnits bv"
  shows "bv_set (bv\<lparr>m_rgull := (m_rgull bv)[i := w]\<rparr>)
       = {n \<in> bv_set bv. n div BITS_PER_UNIT \<noteq> i} \<union> {BITS_PER_UNIT * i + k |k. k < BITS_PER_UNIT \<and> bit w k}"
    (is "?l = ?r")
proof (intro equalityI subsetI)
  fix n assume n: "n \<in> ?l"
  show "n \<in> ?r"
  proof (cases "n div BITS_PER_UNIT = i")
    case True
    then have "n = BITS_PER_UNIT * i + n mod BITS_PER_UNIT" by auto
    moreover from n True assms have "bit w (n mod BITS_PER_UNIT)"
      by (auto simp: bv_set_def bv_simps)
    ultimately show ?thesis by auto
  next
    case False
    with n show ?thesis by (auto simp: bv_set_def)
  qed
next
  fix n assume "n \<in> ?r"
  with assms show "n \<in> ?l"
    by (auto simp: bv_set_def bv_simps)
qed

text \<open>A unit that differs from the old one in the bit of \<open>n\<close> only.\<close>

lemma bv_update_bit:
  assumes "bv_wf bv" "n < m_cBits bv"
    and w: "\<And>k. k < BITS_PER_UNIT \<Longrightarrow>
      bit w k \<longleftrightarrow> (if k = n mod BITS_PER_UNIT then b else bit (m_rgull bv ! (n div BITS_PER_UNIT)) k)"
  shows "bv_set (bv\<lparr>m_rgull := (m_rgull bv)[n div BITS_PER_UNIT := w]\<rparr>)
       = (if b then insert n (bv_set bv) else bv_set bv - {n})" (is "_ = ?r")
proof -
  let ?i = "n div BITS_PER_UNIT"
  have i: "?i < m_cUnits bv" using assms(1,2) by (rule bv_wf_unit)
  have "m \<in> {n \<in> bv_set bv. n div BITS_PER_UNIT \<noteq> ?i} \<union> {BITS_PER_UNIT * ?i + k |k. k < BITS_PER_UNIT \<and> bit w k}
      \<longleftrightarrow> m \<in> ?r" for m
  proof (cases "m div BITS_PER_UNIT = ?i")
    case True
    then have m: "m = BITS_PER_UNIT * ?i + m mod BITS_PER_UNIT"
      by (metis mult_div_mod_eq)
    have "m \<in> bv_set bv \<longleftrightarrow> bit (m_rgull bv ! ?i) (m mod BITS_PER_UNIT)"
      using i True by (subst m, subst bv_set_iff) auto
    moreover have "m = n \<longleftrightarrow> m mod BITS_PER_UNIT = n mod BITS_PER_UNIT"
      using True by (metis mult_div_mod_eq)
    ultimately show ?thesis
      using True by (subst m) (auto simp: w)
  next
    case False
    then show ?thesis by auto
  qed
  then show ?thesis
    unfolding bv_update_unit [OF assms(1) i] by blast
qed

lemma bv_set_set [bv_simps]:
  assumes "bv_wf bv" "n < m_cBits bv"
  shows "bv_set (snd (bv_FExchangeSet bv n)) = insert n (bv_set bv)"
  unfolding bv_FExchangeSet_def Let_def snd_conv
  by (subst bv_update_bit [OF assms, where b = True]) (auto simp: bit_or_iff bit_unit_mask)

lemma bv_set_clear [bv_simps]:
  assumes "bv_wf bv" "n < m_cBits bv"
  shows "bv_set (snd (bv_FExchangeClear bv n)) = bv_set bv - {n}"
  unfolding bv_FExchangeClear_def Let_def snd_conv
  by (subst bv_update_bit [OF assms, where b = False])
    (auto simp: bit_and_iff bit_not_iff bit_unit_mask)

lemma bv_exchange_fst [bv_simps]:
  "fst (bv_FExchangeSet bv n) = bv_FBit bv n" "fst (bv_FExchangeClear bv n) = bv_FBit bv n"
  by (simp_all add: bv_FExchangeSet_def bv_FExchangeClear_def Let_def)

lemma bv_exchange_size [bv_simps]:
  "m_cBits (snd (bv_FExchangeSet bv n)) = m_cBits bv"
  "m_cUnits (snd (bv_FExchangeSet bv n)) = m_cUnits bv"
  "m_cBits (snd (bv_FExchangeClear bv n)) = m_cBits bv"
  "m_cUnits (snd (bv_FExchangeClear bv n)) = m_cUnits bv"
  "length (m_rgull (snd (bv_FExchangeSet bv n))) = length (m_rgull bv)"
  "length (m_rgull (snd (bv_FExchangeClear bv n))) = length (m_rgull bv)"
  by (simp_all add: bv_FExchangeSet_def bv_FExchangeClear_def Let_def)

lemma bv_wf_exchange [bv_simps]:
  assumes "bv_wf bv" "n < m_cBits bv"
  shows "bv_wf (snd (bv_FExchangeSet bv n))" "bv_wf (snd (bv_FExchangeClear bv n))"
  using assms by (auto simp: bv_wf_def bv_simps bv_set_set [OF assms] bv_set_clear [OF assms])

subsection \<open>Union, intersection and the tests\<close>

declare bv_unite_from.simps [simp del] bv_intersect_from.simps [simp del]

lemma bv_unite_from_units:
  assumes "length (m_rgull bv) = m_cUnits bv"
  shows "m_cBits (bv_unite_from i bv pbv) = m_cBits bv \<and> m_cUnits (bv_unite_from i bv pbv) = m_cUnits bv
    \<and> length (m_rgull (bv_unite_from i bv pbv)) = m_cUnits bv
    \<and> (\<forall>k < m_cUnits bv. m_rgull (bv_unite_from i bv pbv) ! k
          = (if i \<le> k then m_rgull bv ! k OR m_rgull pbv ! k else m_rgull bv ! k))"
  using assms
proof (induction i bv pbv rule: bv_unite_from.induct)
  case (1 i bv pbv)
  show ?case
  proof (cases "i < m_cUnits bv")
    case True
    then show ?thesis
      using "1.IH" "1.prems" by (subst (1 2 3 4) bv_unite_from.simps) (auto simp: nth_list_update Suc_le_eq not_less dest: le_antisym)
  next
    case False
    then show ?thesis
      using "1.prems" by (subst (1 2 3 4) bv_unite_from.simps) auto
  qed
qed

lemma bv_intersect_from_units:
  assumes "length (m_rgull bv) = m_cUnits bv"
  shows "m_cBits (bv_intersect_from i bv pbv) = m_cBits bv \<and> m_cUnits (bv_intersect_from i bv pbv) = m_cUnits bv
    \<and> length (m_rgull (bv_intersect_from i bv pbv)) = m_cUnits bv
    \<and> (\<forall>k < m_cUnits bv. m_rgull (bv_intersect_from i bv pbv) ! k
          = (if i \<le> k then m_rgull bv ! k AND m_rgull pbv ! k else m_rgull bv ! k))"
  using assms
proof (induction i bv pbv rule: bv_intersect_from.induct)
  case (1 i bv pbv)
  show ?case
  proof (cases "i < m_cUnits bv")
    case True
    then show ?thesis
      using "1.IH" "1.prems" by (subst (1 2 3 4) bv_intersect_from.simps) (auto simp: nth_list_update Suc_le_eq not_less dest: le_antisym)
  next
    case False
    then show ?thesis
      using "1.prems" by (subst (1 2 3 4) bv_intersect_from.simps) auto
  qed
qed

lemma bv_binop_size [bv_simps]:
  assumes "bv_wf bv"
  shows "m_cBits (bv_Union bv pbv) = m_cBits bv" "m_cUnits (bv_Union bv pbv) = m_cUnits bv"
    "m_cBits (bv_Intersection bv pbv) = m_cBits bv" "m_cUnits (bv_Intersection bv pbv) = m_cUnits bv"
    "length (m_rgull (bv_Union bv pbv)) = m_cUnits bv"
    "length (m_rgull (bv_Intersection bv pbv)) = m_cUnits bv"
  using assms bv_unite_from_units [of bv 0 pbv] bv_intersect_from_units [of bv 0 pbv]
  by (simp_all add: bv_wf_length bv_Union_def bv_Intersection_def)

lemma bv_binop_unit:
  assumes "bv_wf bv" "k < m_cUnits bv"
  shows "m_rgull (bv_Union bv pbv) ! k = m_rgull bv ! k OR m_rgull pbv ! k"
    "m_rgull (bv_Intersection bv pbv) ! k = m_rgull bv ! k AND m_rgull pbv ! k"
  using assms bv_unite_from_units [of bv 0 pbv] bv_intersect_from_units [of bv 0 pbv]
  by (simp_all add: bv_wf_length bv_Union_def bv_Intersection_def)

lemma div_unit_less: "n < BITS_PER_UNIT * u \<Longrightarrow> n div BITS_PER_UNIT < u"
  by (simp add: less_mult_imp_div_less mult.commute)

lemma bv_set_Union [bv_simps]:
  assumes "bv_wf bv" "m_cUnits bv = m_cUnits pbv"
  shows "bv_set (bv_Union bv pbv) = bv_set bv \<union> bv_set pbv"
  using assms unfolding bv_set_def
  by (auto simp: bv_binop_size bv_binop_unit div_unit_less bit_or_iff)

lemma bv_set_Intersection [bv_simps]:
  assumes "bv_wf bv" "m_cUnits bv = m_cUnits pbv"
  shows "bv_set (bv_Intersection bv pbv) = bv_set bv \<inter> bv_set pbv"
  using assms unfolding bv_set_def
  by (auto simp: bv_binop_size bv_binop_unit div_unit_less bit_and_iff)

lemma bv_wf_binop [bv_simps]:
  assumes "bv_wf bv" "bv_wf pbv" "m_cBits bv = m_cBits pbv"
  shows "bv_wf (bv_Union bv pbv)" "bv_wf (bv_Intersection bv pbv)"
  using assms bv_same_sizeD [OF assms] unfolding bv_wf_def [of "bv_Union bv pbv"] bv_wf_def [of "bv_Intersection bv pbv"]
  by (auto simp: bv_simps dest: bv_set_bound) (auto simp: bv_wf_def)

lemma bv_set_lt: "n \<in> bv_set bv \<Longrightarrow> n < BITS_PER_UNIT * m_cUnits bv"
  by (simp add: bv_set_def)

lemma bv_set_binop:
  assumes "bv_wf bv" "bv_wf pbv" "m_cBits bv = m_cBits pbv"
  shows "bv_set (bv_Union bv pbv) = bv_set bv \<union> bv_set pbv"
    "bv_set (bv_Intersection bv pbv) = bv_set bv \<inter> bv_set pbv"
  using assms bv_same_sizeD [OF assms] by (simp_all add: bv_set_Union bv_set_Intersection)

text \<open>A property of all units is a property of all positions.\<close>

lemma bv_all_units:
  "(\<forall>i < m_cUnits bv. \<forall>k < BITS_PER_UNIT. P (BITS_PER_UNIT * i + k)) \<longleftrightarrow> (\<forall>n < BITS_PER_UNIT * m_cUnits bv. P n)"
proof
  assume a: "\<forall>i < m_cUnits bv. \<forall>k < BITS_PER_UNIT. P (BITS_PER_UNIT * i + k)"
  show "\<forall>n < BITS_PER_UNIT * m_cUnits bv. P n"
  proof (intro allI impI)
    fix n assume "n < BITS_PER_UNIT * m_cUnits bv"
    then show "P n"
      using a [rule_format, of "n div BITS_PER_UNIT" "n mod BITS_PER_UNIT"] by (simp add: div_unit_less)
  qed
qed auto

lemma word_eq_bits64: "(a :: ullong) = b \<longleftrightarrow> (\<forall>k < BITS_PER_UNIT. bit a k = bit b k)"
  by (auto simp: bit_word_eqI bit_eq_iff dest: bit_imp_le_length)

lemma bv_FSubset_set [bv_simps]:
  assumes "bv_wf bv" "bv_wf pbv" "m_cBits bv = m_cBits pbv"
  shows "bv_FSubset bv pbv \<longleftrightarrow> bv_set pbv \<subseteq> bv_set bv"
proof -
  note u = bv_same_sizeD [OF assms]
  have "bv_FSubset bv pbv \<longleftrightarrow> (\<forall>i < m_cUnits bv. \<forall>k < BITS_PER_UNIT.
      BITS_PER_UNIT * i + k \<in> bv_set pbv \<longrightarrow> BITS_PER_UNIT * i + k \<in> bv_set bv)"
    using u by (auto simp: bv_FSubset_def list_all_iff word_eq_bits64 bv_set_iff bit_and_iff)
  also have "\<dots> \<longleftrightarrow> bv_set pbv \<subseteq> bv_set bv"
    using u by (subst bv_all_units [where P = "\<lambda>n. n \<in> bv_set pbv \<longrightarrow> n \<in> bv_set bv"])
      (auto dest: bv_set_lt)
  finally show ?thesis .
qed

lemma bv_FDisjoint_set [bv_simps]:
  assumes "bv_wf bv" "bv_wf pbv" "m_cBits bv = m_cBits pbv"
  shows "bv_FDisjoint bv pbv \<longleftrightarrow> bv_set bv \<inter> bv_set pbv = {}"
proof -
  note u = bv_same_sizeD [OF assms]
  have "bv_FDisjoint bv pbv \<longleftrightarrow> (\<forall>i < m_cUnits bv. \<forall>k < BITS_PER_UNIT.
      \<not> (BITS_PER_UNIT * i + k \<in> bv_set bv \<and> BITS_PER_UNIT * i + k \<in> bv_set pbv))"
    using u by (auto simp: bv_FDisjoint_def list_all_iff word_eq_bits64 bv_set_iff bit_and_iff)
  also have "\<dots> \<longleftrightarrow> bv_set bv \<inter> bv_set pbv = {}"
    by (subst bv_all_units [where P = "\<lambda>n. \<not> (n \<in> bv_set bv \<and> n \<in> bv_set pbv)"])
      (auto dest: bv_set_lt)
  finally show ?thesis .
qed

lemma bv_FEmpty_set [bv_simps]:
  assumes "bv_wf bv"
  shows "bv_FEmpty bv \<longleftrightarrow> bv_set bv = {}"
proof -
  have "bv_FEmpty bv \<longleftrightarrow> (\<forall>i < m_cUnits bv. \<forall>k < BITS_PER_UNIT. BITS_PER_UNIT * i + k \<notin> bv_set bv)"
    by (auto simp: bv_FEmpty_def list_all_iff word_eq_bits64 bv_set_iff)
  also have "\<dots> \<longleftrightarrow> bv_set bv = {}"
    by (subst bv_all_units [where P = "\<lambda>n. n \<notin> bv_set bv"]) (auto dest: bv_set_lt)
  finally show ?thesis .
qed

text \<open>Vectors of one size are determined by their sets.\<close>

lemma bv_eqI:
  assumes "bv_wf bv" "bv_wf pbv" "m_cBits bv = m_cBits pbv" "bv_set bv = bv_set pbv"
  shows "m_rgull bv = m_rgull pbv"
proof (rule nth_equalityI)
  note u = bv_same_sizeD [OF assms(1-3)]
  show "length (m_rgull bv) = length (m_rgull pbv)"
    using assms u by (simp add: bv_simps)
  fix i assume "i < length (m_rgull bv)"
  then have i: "i < m_cUnits bv" "i < m_cUnits pbv" using assms u by (simp_all add: bv_simps)
  then show "m_rgull bv ! i = m_rgull pbv ! i"
    using assms(4) by (auto simp: word_eq_bits64 bv_set_iff [symmetric])
qed

subsection \<open>Equality and hash\<close>

lemma nth_bytes_of_ullong: "i < 8 \<Longrightarrow> bytes_of_ullong w ! i = ucast (drop_bit (8 * i) w)"
  by (simp add: bytes_of_ullong_def del: upt_Suc)

lemma length_bytes_of_ullong [simp]: "length (bytes_of_ullong w) = 8"
  by (simp add: bytes_of_ullong_def)

lemma bytes_of_ullong_inj:
  assumes "bytes_of_ullong v = bytes_of_ullong w"
  shows "v = w"
proof -
  have b: "bit (bytes_of_ullong u ! (k div 8)) (k mod 8) \<longleftrightarrow> bit u k" if "k < BITS_PER_UNIT" for u k
  proof -
    from that have "k div 8 < 8" by simp
    then show ?thesis
      by (simp add: nth_bytes_of_ullong bit_unsigned_iff bit_drop_bit_eq)
  qed
  show ?thesis
    unfolding word_eq_bits64 using b [of _ v] b [of _ w] assms by auto
qed

lemma units_bytes_inj:
  assumes "length xs = length ys"
  shows "concat (map bytes_of_ullong xs) = concat (map bytes_of_ullong ys) \<longleftrightarrow> xs = ys"
proof
  assume c: "concat (map bytes_of_ullong xs) = concat (map bytes_of_ullong ys)"
  have "map bytes_of_ullong xs = map bytes_of_ullong ys"
    using assms by (intro concat_injective [OF c]) (auto simp: in_set_zip)
  then show "xs = ys"
    using inj_onI [of UNIV bytes_of_ullong] bytes_of_ullong_inj inj_map_eq_map by blast
qed simp

lemma bv_FEqual_set [bv_simps]:
  assumes "bv_wf bv" "bv_wf pbv" "m_cBits bv = m_cBits pbv"
  shows "bv_FEqual bv pbv \<longleftrightarrow> bv_set bv = bv_set pbv"
proof -
  note u = bv_same_sizeD [OF assms]
  have "bv_FEqual bv pbv \<longleftrightarrow> m_rgull bv = m_rgull pbv"
    using assms u by (simp add: bv_FEqual_def units_bytes_inj bv_wf_length)
  moreover have "m_rgull bv = m_rgull pbv \<Longrightarrow> bv_set bv = bv_set pbv"
    using u by (simp add: bv_set_def)
  ultimately show ?thesis
    using bv_eqI [OF assms] by blast
qed

lemma bv_UlHash_cong:
  assumes "bv_wf bv" "bv_wf pbv" "m_cBits bv = m_cBits pbv" "bv_set bv = bv_set pbv"
  shows "bv_UlHash bv = bv_UlHash pbv"
  using bv_eqI [OF assms] bv_same_sizeD [OF assms(1-3)] by (simp add: bv_UlHash_def)

subsection \<open>The next set bit\<close>

declare skip_zeros.simps [simp del] next_bit_from.simps [simp del]

lemma and_one_bit_0: "(w :: ullong) AND 1 = 0 \<longleftrightarrow> \<not> bit w 0"
  by (simp add: and_one_eq bit_0 mod2_eq_if)

lemma drop_bit_1_eq_0:
  assumes "\<not> bit (w :: ullong) 0"
  shows "drop_bit 1 w = 0 \<longleftrightarrow> w = 0"
proof
  assume "drop_bit 1 w = 0"
  then have "\<not> bit (drop_bit 1 w) k" for k by (simp only: bit_0_eq bot_apply bot_bool_def not_False_eq_True)
  then have "\<not> bit w (Suc k)" for k by (simp only: bit_drop_bit_eq o_apply plus_1_eq_Suc not_False_eq_True)
  then have "\<not> bit w k" for k
    using assms by (cases k) auto
  then show "w = 0" by (auto simp: bit_eq_iff)
qed simp

lemma skip_zeros_spec:
  "skip_zeros ull b = (ull', b') \<Longrightarrow>
     b \<le> b' \<and> (ull' = 0 \<longleftrightarrow> ull = 0) \<and> (\<forall>j < b' - b. \<not> bit ull j) \<and> (ull \<noteq> 0 \<longrightarrow> bit ull (b' - b))"
proof (induction ull b rule: skip_zeros.induct)
  case (1 ull b)
  show ?case
  proof (cases "ull \<noteq> 0 \<and> ull AND 1 = 0")
    case True
    then have "skip_zeros (drop_bit 1 ull) (b + 1) = (ull', b')"
      using "1.prems" by (subst (asm) skip_zeros.simps) simp
    then have IH: "b + 1 \<le> b'" "(ull' = 0) = (drop_bit 1 ull = 0)"
      "\<forall>j < b' - (b + 1). \<not> bit (drop_bit 1 ull) j"
      "drop_bit 1 ull \<noteq> 0 \<longrightarrow> bit (drop_bit 1 ull) (b' - (b + 1))"
      using "1.IH" [OF True] by blast+
    have n0: "\<not> bit ull 0" using True by (simp add: and_one_bit_0)
    have "\<not> bit ull j" if "j < b' - b" for j
    proof (cases j)
      case 0
      then show ?thesis using n0 by simp
    next
      case (Suc k)
      with that have "k < b' - (b + 1)" by simp
      then show ?thesis using IH(3) Suc by (auto simp: bit_drop_bit_eq)
    qed
    moreover have "bit ull (b' - b)"
      using IH(1,4) True drop_bit_1_eq_0 [OF n0] by (auto simp: bit_drop_bit_eq Suc_diff_Suc)
    ultimately show ?thesis
      using IH True drop_bit_1_eq_0 [OF n0] by auto
  next
    case False
    then show ?thesis
      using "1.prems" by (subst (asm) skip_zeros.simps) (auto simp: and_one_bit_0)
  qed
qed

lemma next_bit_from_spec:
  assumes "ulOffset < BITS_PER_UNIT"
  shows "case next_bit_from bv cUnit ulOffset of
      None \<Rightarrow> \<forall>m \<in> bv_set bv. m < BITS_PER_UNIT * cUnit + ulOffset
    | Some n \<Rightarrow> n \<in> bv_set bv \<and> BITS_PER_UNIT * cUnit + ulOffset \<le> n
        \<and> (\<forall>m \<in> bv_set bv. BITS_PER_UNIT * cUnit + ulOffset \<le> m \<longrightarrow> n \<le> m)"
  using assms
proof (induction bv cUnit ulOffset rule: next_bit_from.induct)
  case (1 bv c k)
  show ?case
  proof (cases "c < m_cUnits bv")
    case False
    have "m < BITS_PER_UNIT * c + k" if "m \<in> bv_set bv" for m
      using bv_set_lt [OF that] False by (auto simp: not_less dest!: mult_le_mono2 [of _ _ 64])
    with False show ?thesis by (subst next_bit_from.simps) simp
  next
    case True
    let ?w = "drop_bit k (m_rgull bv ! c)"
    obtain u b where ub: "skip_zeros ?w k = (u, b)" by fastforce
    note sp = skip_zeros_spec [OF ub]
    have inunit: "bit (m_rgull bv ! c) i \<longleftrightarrow> BITS_PER_UNIT * c + i \<in> bv_set bv" if "i < BITS_PER_UNIT" for i
      using bv_set_iff [OF True that] by simp
    show ?thesis
    proof (cases "u = 0")
      case False
      then have bk: "bit (m_rgull bv ! c) b" "k \<le> b" "\<forall>j < b - k. \<not> bit (m_rgull bv ! c) (k + j)"
        using sp by (auto simp: bit_drop_bit_eq)
      have b64: "b < BITS_PER_UNIT" using bit_imp_le_length [OF bk(1)] by simp
      have "BITS_PER_UNIT * c + b \<le> m" if m: "m \<in> bv_set bv" "BITS_PER_UNIT * c + k \<le> m" for m
      proof (rule ccontr)
        assume "\<not> ?thesis"
        then have "m = BITS_PER_UNIT * c + (k + (m - BITS_PER_UNIT * c - k))" "m - BITS_PER_UNIT * c - k < b - k"
          using m(2) by auto
        then show False
          using bk(3) m(1) inunit [of "k + (m - BITS_PER_UNIT * c - k)"] b64 by auto
      qed
      with bk b64 inunit [OF b64] False True ub show ?thesis
        by (subst next_bit_from.simps) (auto simp: ac_simps)
    next
      case u0: True
      then have w0: "?w = 0" using sp by simp
      have none: "\<not> bit (m_rgull bv ! c) i" if "k \<le> i" for i
      proof -
        have "\<not> bit ?w (i - k)" using w0 by simp
        then show ?thesis using that by (simp add: bit_drop_bit_eq)
      qed
      have skip: "BITS_PER_UNIT * (c + 1) \<le> m" if m: "m \<in> bv_set bv" "BITS_PER_UNIT * c + k \<le> m" for m
      proof (rule ccontr)
        assume "\<not> ?thesis"
        then have "m - BITS_PER_UNIT * c < BITS_PER_UNIT" "m = BITS_PER_UNIT * c + (m - BITS_PER_UNIT * c)"
          "k \<le> m - BITS_PER_UNIT * c"
          using m(2) by auto
        then show False using inunit none m(1) by metis
      qed
      have eq: "next_bit_from bv c k = next_bit_from bv (c + 1) 0"
        using True ub u0 by (subst next_bit_from.simps) simp
      have "case next_bit_from bv (c + 1) 0 of
          None \<Rightarrow> \<forall>m \<in> bv_set bv. m < BITS_PER_UNIT * (c + 1) + 0
        | Some n \<Rightarrow> n \<in> bv_set bv \<and> BITS_PER_UNIT * (c + 1) + 0 \<le> n
            \<and> (\<forall>m \<in> bv_set bv. BITS_PER_UNIT * (c + 1) + 0 \<le> m \<longrightarrow> n \<le> m)"
        using "1.IH" [OF True ub [symmetric] refl] u0 by simp
      then show ?thesis
        unfolding eq using skip "1.prems" by (fastforce split: option.splits)
    qed
  qed
qed

lemma bv_FNextBit_Some:
  "bv_FNextBit bv s = Some n \<Longrightarrow> n \<in> bv_set bv \<and> s \<le> n \<and> (\<forall>m \<in> bv_set bv. s \<le> m \<longrightarrow> n \<le> m)"
  using next_bit_from_spec [of "s mod BITS_PER_UNIT" bv "s div BITS_PER_UNIT"]
  by (simp add: bv_FNextBit_def)

lemma bv_FNextBit_None: "bv_FNextBit bv s = None \<longleftrightarrow> (\<forall>m \<in> bv_set bv. m < s)"
proof
  assume "bv_FNextBit bv s = None"
  then show "\<forall>m \<in> bv_set bv. m < s"
    using next_bit_from_spec [of "s mod BITS_PER_UNIT" bv "s div BITS_PER_UNIT"]
    by (simp add: bv_FNextBit_def)
next
  assume "\<forall>m \<in> bv_set bv. m < s"
  then show "bv_FNextBit bv s = None"
    using bv_FNextBit_Some [of bv s] by (cases "bv_FNextBit bv s") force+
qed

subsection \<open>Counting\<close>

definition nat_bits :: "nat \<Rightarrow> nat set" where
  "nat_bits n = {k. bit n k}"

lemma nat_bits_double: "nat_bits (2 * n) = Suc ` nat_bits n"
proof -
  have "bit (2 * n) k \<longleftrightarrow> k \<in> Suc ` {k. bit n k}" for k
    by (cases k) (auto simp: bit_0 bit_Suc)
  then show ?thesis by (auto simp: nat_bits_def)
qed

lemma nat_bits_double_plus: "nat_bits (2 * n + 1) = insert 0 (nat_bits (2 * n))"
proof -
  have "bit (2 * n + 1) k \<longleftrightarrow> k = 0 \<or> bit (2 * n) k" for k
    by (cases k) (auto simp: bit_0 bit_Suc)
  then show ?thesis by (auto simp: nat_bits_def)
qed

lemma zero_nat_bits_double: "0 \<notin> nat_bits (2 * n)"
  by (simp add: nat_bits_double)

lemma finite_nat_bits: "finite (nat_bits n)"
proof (induction n rule: nat_bit_induct)
  case zero
  then show ?case by (simp add: nat_bits_def)
next
  case (even n)
  then show ?case by (simp add: nat_bits_double)
next
  case (odd n)
  then show ?case using nat_bits_double_plus [of n] by (simp add: nat_bits_double)
qed

lemma and_pred_double:
  assumes "0 < m"
  shows "(2 * m) AND (2 * m - 1) = 2 * (m AND (m - 1 :: nat))"
proof -
  have "2 * m - 1 = 1 + 2 * (m - 1)" using assms by simp
  moreover have "(2 * m) AND (1 + 2 * (m - 1)) = 2 * (m AND (m - 1))"
    by (subst and_nat_rec) simp
  ultimately show ?thesis by simp
qed

lemma and_pred_double_plus: "(2 * m + 1) AND (2 * m) = 2 * (m :: nat)"
  by (subst and_nat_rec) simp

text \<open>Kernighan's step removes exactly one bit.\<close>

lemma card_nat_bits_and_pred: "0 < n \<Longrightarrow> card (nat_bits n) = Suc (card (nat_bits (n AND (n - 1))))"
proof (induction n rule: nat_bit_induct)
  case zero
  then show ?case by simp
next
  case (even n)
  then show ?case
    by (simp only: and_pred_double nat_bits_double) (simp add: card_image)
next
  case (odd n)
  have "card (nat_bits (2 * n + 1)) = Suc (card (nat_bits (2 * n)))"
    unfolding nat_bits_double_plus by (rule card_insert_disjoint [OF finite_nat_bits zero_nat_bits_double])
  then show ?case using and_pred_double_plus [of n] by simp
qed

definition word_bits :: "ullong \<Rightarrow> nat set" where
  "word_bits w = {k. bit w k}"

lemma word_bits_nat: "word_bits w = nat_bits (unat w)"
  by (auto simp: word_bits_def nat_bits_def bit_unsigned_iff dest: bit_imp_le_length)

lemma word_bits_lt: "word_bits w \<subseteq> {..<BITS_PER_UNIT}"
  using bit_imp_le_length [of w] by (auto simp: word_bits_def)

declare clear_lowest_count.simps [simp del]

lemma clear_lowest_count_card: "clear_lowest_count ull j = j + card (word_bits ull)"
proof (induction ull j rule: clear_lowest_count.induct)
  case (1 ull j)
  show ?case
  proof (cases "ull = 0")
    case True
    then show ?thesis by (subst clear_lowest_count.simps) (simp add: word_bits_def)
  next
    case False
    then have "card (word_bits ull) = Suc (card (word_bits (ull AND (ull - 1))))"
      by (simp add: word_bits_nat unsigned_and_eq unat_minus_one card_nat_bits_and_pred unat_gt_0)
    with False "1.IH" show ?thesis
      by (subst clear_lowest_count.simps) simp
  qed
qed

lemma bv_set_UN: "bv_set bv = (\<Union>i < m_cUnits bv. (\<lambda>k. BITS_PER_UNIT * i + k) ` word_bits (m_rgull bv ! i))"
proof -
  have "n \<in> bv_set bv \<longleftrightarrow> (\<exists>i < m_cUnits bv. \<exists>k. n = BITS_PER_UNIT * i + k \<and> bit (m_rgull bv ! i) k)" for n
  proof
    assume "n \<in> bv_set bv"
    then show "\<exists>i < m_cUnits bv. \<exists>k. n = BITS_PER_UNIT * i + k \<and> bit (m_rgull bv ! i) k"
      by (blast elim: bv_setE)
  next
    assume "\<exists>i < m_cUnits bv. \<exists>k. n = BITS_PER_UNIT * i + k \<and> bit (m_rgull bv ! i) k"
    then show "n \<in> bv_set bv"
      using bv_set_iff bit_imp_le_length by fastforce
  qed
  then show ?thesis unfolding word_bits_def by blast
qed

lemma card_bv_set: "card (bv_set bv) = (\<Sum>i < m_cUnits bv. card (word_bits (m_rgull bv ! i)))"
proof -
  have "card (bv_set bv) = (\<Sum>i < m_cUnits bv. card ((\<lambda>k. BITS_PER_UNIT * i + k) ` word_bits (m_rgull bv ! i)))"
    unfolding bv_set_UN
  proof (rule card_UN_disjoint)
    show "\<forall>i \<in> {..<m_cUnits bv}. finite ((\<lambda>k. BITS_PER_UNIT * i + k) ` word_bits (m_rgull bv ! i))"
      using word_bits_lt finite_subset by blast
    show "\<forall>i \<in> {..<m_cUnits bv}. \<forall>j \<in> {..<m_cUnits bv}. i \<noteq> j \<longrightarrow>
        (\<lambda>k. BITS_PER_UNIT * i + k) ` word_bits (m_rgull bv ! i)
      \<inter> (\<lambda>k. BITS_PER_UNIT * j + k) ` word_bits (m_rgull bv ! j) = {}"
    proof (intro ballI impI equals0I)
      fix i j n
      assume ij: "i \<noteq> j" and n: "n \<in> (\<lambda>k. BITS_PER_UNIT * i + k) ` word_bits (m_rgull bv ! i)
        \<inter> (\<lambda>k. BITS_PER_UNIT * j + k) ` word_bits (m_rgull bv ! j)"
      then have "n div BITS_PER_UNIT = i" "n div BITS_PER_UNIT = j"
        using word_bits_lt [of "m_rgull bv ! i"] word_bits_lt [of "m_rgull bv ! j"] by auto
      with ij show False by simp
    qed
  qed simp
  then show ?thesis by (simp add: card_image)
qed

lemma bv_CElements_card_mod: "bv_CElements bv = card (bv_set bv) mod ULONG_MOD"
  using sum_list_ul_add [of "\<lambda>i. clear_lowest_count (m_rgull bv ! i) 0" 0 "[0..<m_cUnits bv]"]
  by (simp add: bv_CElements_def clear_lowest_count_card card_bv_set interv_sum_list_conv_sum_set_nat
      atLeast0LessThan)

lemma card_bv_set_le: "bv_wf bv \<Longrightarrow> card (bv_set bv) \<le> m_cBits bv"
  using card_mono [of "{..<m_cBits bv}" "bv_set bv"] by (simp add: bv_wf_def)

lemma bv_CElements_card [bv_simps]:
  "bv_wf bv \<Longrightarrow> m_cBits bv < ULONG_MOD \<Longrightarrow> bv_CElements bv = card (bv_set bv)"
  using card_bv_set_le [of bv] by (simp add: bv_CElements_card_mod)

section \<open>Properties\<close>

text \<open>C36 The word-level operations of a bit vector are the set operations: union, intersection, subset
  (of the argument in this vector), disjointness, emptiness and equality, for vectors of one
  size.\<close>

theorem bitvector_refines_sets:
  assumes "bv_wf bv" "bv_wf pbv" "m_cBits bv = m_cBits pbv"
  shows "bv_wf (bv_Union bv pbv) \<and> bv_set (bv_Union bv pbv) = bv_set bv \<union> bv_set pbv
    \<and> bv_wf (bv_Intersection bv pbv) \<and> bv_set (bv_Intersection bv pbv) = bv_set bv \<inter> bv_set pbv
    \<and> (bv_FSubset bv pbv \<longleftrightarrow> bv_set pbv \<subseteq> bv_set bv)
    \<and> (bv_FDisjoint bv pbv \<longleftrightarrow> bv_set bv \<inter> bv_set pbv = {})
    \<and> (bv_FEmpty bv \<longleftrightarrow> bv_set bv = {}) \<and> (bv_FEqual bv pbv \<longleftrightarrow> bv_set bv = bv_set pbv)"
  using bv_wf_binop [OF assms] bv_set_binop [OF assms] bv_FSubset_set [OF assms] bv_FDisjoint_set [OF assms]
    bv_FEmpty_set [OF assms(1)] bv_FEqual_set [OF assms] by blast

theorem bitvector_refines_sets_witness:
  "bv_set (bv_Union (bv_new 100) (snd (bv_FExchangeSet (bv_new 100) 70))) = {70}"
  using bitvector_refines_sets [of "bv_new 100" "snd (bv_FExchangeSet (bv_new 100) 70)"]
  by (simp add: bv_simps)

text \<open>\<open>CBitVector::FNextBit\<close>, which skips empty words and then zero bits, finds the least element from the
  given position on, and reports none exactly if there is none.\<close>

theorem bv_FNextBit_least:
  "case bv_FNextBit bv ulStart of
      Some n \<Rightarrow> n \<in> bv_set bv \<and> ulStart \<le> n \<and> (\<nexists>m. m \<in> bv_set bv \<and> ulStart \<le> m \<and> m < n)
    | None \<Rightarrow> \<nexists>m. m \<in> bv_set bv \<and> ulStart \<le> m"
  using bv_FNextBit_Some [of bv ulStart] bv_FNextBit_None [of bv ulStart]
  by (auto split: option.split simp: leD linorder_not_le)

text \<open>\<open>CBitVector::CElements\<close>, which clears the lowest bit of each word until none is left, counts the
  elements, when the size fits the counter.\<close>

theorem bv_CElements_counts:
  assumes "bv_wf bv" "m_cBits bv < ULONG_MOD"
  shows "bv_CElements bv = card (bv_set bv)"
  by (rule bv_CElements_card [OF assms])

theorem bv_CElements_counts_witness:
  "bv_CElements (snd (bv_FExchangeSet (bv_new 100) 70)) = 1"
  using bv_CElements_counts [of "snd (bv_FExchangeSet (bv_new 100) 70)"] by (simp add: bv_simps)

end
