(* ===== verification/BitSet.thy ===== *)
theory BitSet
  imports BitVector
begin

text \<open>
  The sparse bit set \<^verbatim>\<open>CBitSet\<close> of \<^verbatim>\<open>libgpos/src/common/CBitSet.cpp\<close>
  and its iterator \<^verbatim>\<open>CBitSetIter\<close>: a list of links in increasing offset order,
  each with a bit vector of \<open>m_cSizeBits\<close> bits.  A link pointer is an index into the list,
  \<open>NULL\<close> is \<open>None\<close>.
\<close>

section \<open>Links and the set\<close>

record bslink =
  m_ulOffset :: nat
  m_pbv :: bitvector

record bitset =
  m_bsllist :: "bslink list"
  m_cSizeBits :: nat
  m_cElements :: nat

definition bsl_new :: "nat \<Rightarrow> nat \<Rightarrow> bslink" where
  "bsl_new ulOffset cSizeBits = \<lparr>m_ulOffset = ulOffset, m_pbv = bv_new cSizeBits\<rparr>"

definition bsl_copy :: "bslink \<Rightarrow> bslink" where
  "bsl_copy bsl = \<lparr>m_ulOffset = m_ulOffset bsl, m_pbv = bv_copy (m_pbv bsl)\<rparr>"

text \<open>The list operations of \<^verbatim>\<open>CList\<close>, relative to a position.\<close>

definition list_insert_after :: "nat \<Rightarrow> 'a \<Rightarrow> 'a list \<Rightarrow> 'a list" where
  "list_insert_after k x xs = take (k + 1) xs @ x # drop (k + 1) xs"

definition list_remove_at :: "nat \<Rightarrow> 'a list \<Rightarrow> 'a list" where
  "list_remove_at k xs = take k xs @ drop (k + 1) xs"

section \<open>Locating a link\<close>

function locate_from :: "bslink list \<Rightarrow> nat \<Rightarrow> nat option \<Rightarrow> nat \<Rightarrow> nat option" where
  "locate_from xs cursor found ulOffset =
     (if cursor < length xs \<and> \<not> m_ulOffset (xs ! cursor) > ulOffset
      then locate_from xs (cursor + 1) (Some cursor) ulOffset
      else found)"
  by pat_completeness auto
termination
  by (relation "measure (\<lambda>(xs, c, f, u). length xs - c)") auto

definition PbslLocate :: "bslink list \<Rightarrow> nat \<Rightarrow> nat option \<Rightarrow> nat option" where
  "PbslLocate xs ulOffset pbsl =
     (case pbsl of
        None \<Rightarrow> locate_from xs 0 None ulOffset
      | Some i \<Rightarrow> locate_from xs i (Some i) ulOffset)"

text \<open>The test \<open>NULL != pbsl && pbsl->UlOffset() == ulOffset\<close>.\<close>

definition bsl_match :: "bslink list \<Rightarrow> nat option \<Rightarrow> nat \<Rightarrow> bool" where
  "bsl_match xs pbsl ulOffset =
     (case pbsl of None \<Rightarrow> False | Some k \<Rightarrow> m_ulOffset (xs ! k) = ulOffset)"

definition bs_RecomputeSize :: "bitset \<Rightarrow> bitset" where
  "bs_RecomputeSize bs =
     bs\<lparr>m_cElements := foldl (\<lambda>c bsl. ul_add c (bv_CElements (m_pbv bsl))) 0 (m_bsllist bs)\<rparr>"

text \<open>\<open>Clear\<close> removes the head until the list is empty.\<close>

fun remove_all_links :: "bslink list \<Rightarrow> bslink list" where
  "remove_all_links [] = []"
| "remove_all_links (bsl # rest) = remove_all_links rest"

definition bs_Clear :: "bitset \<Rightarrow> bitset" where
  "bs_Clear bs = bs_RecomputeSize (bs\<lparr>m_bsllist := remove_all_links (m_bsllist bs)\<rparr>)"

definition bs_UlOffset :: "bitset \<Rightarrow> nat \<Rightarrow> nat" where
  "bs_UlOffset bs ul = (ul div m_cSizeBits bs) * m_cSizeBits bs"

definition bs_new :: "nat \<Rightarrow> bitset" where
  "bs_new cSizeBits = \<lparr>m_bsllist = [], m_cSizeBits = cSizeBits, m_cElements = 0\<rparr>"

section \<open>Single elements\<close>

definition bs_FBit :: "bitset \<Rightarrow> nat \<Rightarrow> bool" where
  "bs_FBit bs ulBit =
     (let ulOffset = bs_UlOffset bs ulBit;
          pbsl = PbslLocate (m_bsllist bs) ulOffset None
      in if bsl_match (m_bsllist bs) pbsl ulOffset
         then bv_FBit (m_pbv (m_bsllist bs ! the pbsl)) (ulBit - ulOffset)
         else False)"

text \<open>The link of an offset, allocated after the located one (or first) if it is missing.\<close>

definition bs_ensure_link :: "bitset \<Rightarrow> nat \<Rightarrow> bslink list \<times> nat" where
  "bs_ensure_link bs ulOffset =
     (let pbsl = PbslLocate (m_bsllist bs) ulOffset None
      in if bsl_match (m_bsllist bs) pbsl ulOffset then (m_bsllist bs, the pbsl)
         else case pbsl of
             None \<Rightarrow> (bsl_new ulOffset (m_cSizeBits bs) # m_bsllist bs, 0)
           | Some p \<Rightarrow>
               (list_insert_after p (bsl_new ulOffset (m_cSizeBits bs)) (m_bsllist bs), p + 1))"

definition bs_FExchangeSet :: "bitset \<Rightarrow> nat \<Rightarrow> bool \<times> bitset" where
  "bs_FExchangeSet bs ulBit =
     (let ulOffset = bs_UlOffset bs ulBit;
          (xs, k) = bs_ensure_link bs ulOffset;
          (fBit, bv) = bv_FExchangeSet (m_pbv (xs ! k)) (ulBit - ulOffset)
      in (fBit, bs\<lparr>m_bsllist := xs[k := (xs ! k)\<lparr>m_pbv := bv\<rparr>],
                   m_cElements := (if \<not> fBit then ul_add (m_cElements bs) 1 else m_cElements bs)\<rparr>))"

definition bs_FExchangeClear :: "bitset \<Rightarrow> nat \<Rightarrow> bool \<times> bitset" where
  "bs_FExchangeClear bs ulBit =
     (let ulOffset = bs_UlOffset bs ulBit;
          xs = m_bsllist bs;
          pbsl = PbslLocate xs ulOffset None
      in if bsl_match xs pbsl ulOffset
         then let k = the pbsl;
                  (fBit, bv) = bv_FExchangeClear (m_pbv (xs ! k)) (ulBit - ulOffset);
                  xs' = xs[k := (xs ! k)\<lparr>m_pbv := bv\<rparr>]
              in (fBit, bs\<lparr>m_bsllist := (if bv_FEmpty bv then list_remove_at k xs' else xs'),
                           m_cElements := (if fBit then ul_sub (m_cElements bs) 1 else m_cElements bs)\<rparr>)
         else (False, bs))"

section \<open>Set operations\<close>

text \<open>The three passes of \<open>Union\<close>.\<close>

fun missing_links :: "bslink list \<Rightarrow> nat option \<Rightarrow> bslink list \<Rightarrow> bslink list" where
  "missing_links xs pbsl [] = []"
| "missing_links xs pbsl (other # rest) =
     (let pbsl' = PbslLocate xs (m_ulOffset other) pbsl
      in if \<not> bsl_match xs pbsl' (m_ulOffset other)
         then bsl_copy other # missing_links xs pbsl' rest
         else missing_links xs pbsl' rest)"

fun insert_links :: "bslink list \<Rightarrow> nat option \<Rightarrow> bslink list \<Rightarrow> bslink list" where
  "insert_links xs pbsl [] = xs"
| "insert_links xs pbsl (new # rest) =
     (let pbsl' = PbslLocate xs (m_ulOffset new) pbsl
      in case pbsl' of
           None \<Rightarrow> insert_links (new # xs) pbsl' rest
         | Some k \<Rightarrow> insert_links (list_insert_after k new xs) pbsl' rest)"

fun unite_links :: "bslink list \<Rightarrow> nat option \<Rightarrow> bslink list \<Rightarrow> bslink list" where
  "unite_links others pbslOther [] = []"
| "unite_links others pbslOther (bsl # rest) =
     (let o' = PbslLocate others (m_ulOffset bsl) pbslOther
      in (if bsl_match others o' (m_ulOffset bsl)
          then bsl\<lparr>m_pbv := bv_Union (m_pbv bsl) (m_pbv (others ! the o'))\<rparr> else bsl)
         # unite_links others o' rest)"

definition bs_Union :: "bitset \<Rightarrow> bitset \<Rightarrow> bitset" where
  "bs_Union bs other =
     (let new = missing_links (m_bsllist bs) None (m_bsllist other);
          xs = insert_links (m_bsllist bs) None new;
          xs' = unite_links (m_bsllist other) None xs
      in bs_RecomputeSize (bs\<lparr>m_bsllist := xs'\<rparr>))"

definition bs_copy :: "bitset \<Rightarrow> bitset" where
  "bs_copy bs = bs_Union (bs_new (m_cSizeBits bs)) bs"

fun intersect_links :: "bslink list \<Rightarrow> nat option \<Rightarrow> bslink list \<Rightarrow> bslink list" where
  "intersect_links others pbslOther [] = []"
| "intersect_links others pbslOther (bsl # rest) =
     (let o' = PbslLocate others (m_ulOffset bsl) pbslOther
      in if bsl_match others o' (m_ulOffset bsl)
         then bsl\<lparr>m_pbv := bv_Intersection (m_pbv bsl) (m_pbv (others ! the o'))\<rparr>
              # intersect_links others o' rest
         else intersect_links others o' rest)"

definition bs_Intersection :: "bitset \<Rightarrow> bitset \<Rightarrow> bitset" where
  "bs_Intersection bs other =
     bs_RecomputeSize (bs\<lparr>m_bsllist := intersect_links (m_bsllist other) None (m_bsllist bs)\<rparr>)"

fun subset_links :: "bslink list \<Rightarrow> nat option \<Rightarrow> bslink list \<Rightarrow> bool" where
  "subset_links xs pbsl [] = True"
| "subset_links xs pbsl (other # rest) =
     (let pbsl' = PbslLocate xs (m_ulOffset other) pbsl
      in if \<not> bsl_match xs pbsl' (m_ulOffset other)
            \<or> \<not> bv_FSubset (m_pbv (xs ! the pbsl')) (m_pbv other)
         then False else subset_links xs pbsl' rest)"

definition bs_FSubset :: "bitset \<Rightarrow> bitset \<Rightarrow> bool" where
  "bs_FSubset bs other =
     (if m_cElements bs < m_cElements other then False
      else subset_links (m_bsllist bs) None (m_bsllist other))"

text \<open>\<open>fSamePtr\<close> is the pointer comparison \<open>this == pbsOther\<close>.\<close>

fun equal_links :: "bslink list \<Rightarrow> bslink list \<Rightarrow> bool" where
  "equal_links [] others = (others = [])"
| "equal_links (bsl # rest) [] = False"
| "equal_links (bsl # rest) (other # others) =
     (if m_ulOffset bsl \<noteq> m_ulOffset other \<or> \<not> bv_FEqual (m_pbv bsl) (m_pbv other) then False
      else equal_links rest others)"

definition bs_FEqual :: "bool \<Rightarrow> bitset \<Rightarrow> bitset \<Rightarrow> bool" where
  "bs_FEqual fSamePtr bs other =
     (if fSamePtr then True
      else if m_cElements bs \<noteq> m_cElements other then False
      else equal_links (m_bsllist bs) (m_bsllist other))"

fun disjoint_links :: "bslink list \<Rightarrow> nat option \<Rightarrow> bslink list \<Rightarrow> bool" where
  "disjoint_links xs pbsl [] = True"
| "disjoint_links xs pbsl (other # rest) =
     (let pbsl' = PbslLocate xs (m_ulOffset other) pbsl
      in if bsl_match xs pbsl' (m_ulOffset other)
            \<and> \<not> bv_FDisjoint (m_pbv (xs ! the pbsl')) (m_pbv other)
         then False else disjoint_links xs pbsl' rest)"

definition bs_FDisjoint :: "bitset \<Rightarrow> bitset \<Rightarrow> bool" where
  "bs_FDisjoint bs other = disjoint_links (m_bsllist bs) None (m_bsllist other)"

definition bs_UlHash :: "bitset \<Rightarrow> ulong_w" where
  "bs_UlHash bs = foldl (\<lambda>h bsl. UlCombineHashes h (bv_UlHash (m_pbv bsl))) 0 (m_bsllist bs)"

section \<open>The iterator\<close>

record bsiter =
  m_ulCursor :: nat
  m_pbsl :: "nat option"
  m_fActive :: bool

definition bsi_new :: bsiter where
  "bsi_new = \<lparr>m_ulCursor = ULONG_MAX, m_pbsl = None, m_fActive = True\<rparr>"

text \<open>The \<open>while\<close> loop of \<open>FAdvance\<close> over the links; \<open>PtNext\<close> of the last link is \<open>NULL\<close>.\<close>

definition link_index :: "bslink list \<Rightarrow> nat \<Rightarrow> nat option" where
  "link_index xs k = (if k < length xs then Some k else None)"

function advance_from :: "bitset \<Rightarrow> nat \<Rightarrow> nat option \<Rightarrow> nat \<times> nat option" where
  "advance_from bs cursor pbsl =
     (case pbsl of
        None \<Rightarrow> (cursor, None)
      | Some k \<Rightarrow>
          if k < length (m_bsllist bs)
          then (case (if ul_add cursor 1 \<le> m_cSizeBits bs
                      then bv_FNextBit (m_pbv (m_bsllist bs ! k)) (ul_add cursor 1) else None) of
                  Some n \<Rightarrow> (n, Some k)
                | None \<Rightarrow> advance_from bs ULONG_MAX (link_index (m_bsllist bs) (k + 1)))
          else (cursor, None))"
  by pat_completeness auto
termination
  by (relation "measure (\<lambda>(bs, c, p). case p of None \<Rightarrow> 0 | Some k \<Rightarrow> length (m_bsllist bs) - k)")
    (auto simp: link_index_def split: option.splits if_splits)

definition bsi_FAdvance :: "bitset \<Rightarrow> bsiter \<Rightarrow> bool \<times> bsiter" where
  "bsi_FAdvance bs it =
     (let pbsl = (case m_pbsl it of None \<Rightarrow> link_index (m_bsllist bs) 0 | Some k \<Rightarrow> Some k);
          (cursor, pbsl') = advance_from bs (m_ulCursor it) pbsl;
          fActive = (pbsl' \<noteq> None)
      in (fActive, \<lparr>m_ulCursor = cursor, m_pbsl = pbsl', m_fActive = fActive\<rparr>))"

definition bsi_UlBit :: "bitset \<Rightarrow> bsiter \<Rightarrow> nat" where
  "bsi_UlBit bs it = ul_add (m_ulOffset (m_bsllist bs ! the (m_pbsl it))) (m_ulCursor it)"

text \<open>
  \<open>Difference\<close>: \<open>while (bsiter.FAdvance()) FExchangeClear(bsiter.UlBit())\<close>; \<open>None\<close> would
  mean that the loop does not end.
\<close>

partial_function (option) difference_loop :: "bitset \<Rightarrow> bsiter \<Rightarrow> bitset \<Rightarrow> bitset option" where
  "difference_loop other it bs =
     (let (fMore, it') = bsi_FAdvance other it
      in if fMore then difference_loop other it' (snd (bs_FExchangeClear bs (bsi_UlBit other it')))
         else Some bs)"

definition bs_Difference :: "bitset \<Rightarrow> bitset \<Rightarrow> bitset option" where
  "bs_Difference bs other =
     (if bs_FDisjoint bs other then Some bs else difference_loop other bsi_new bs)"

section \<open>Sorted link lists\<close>

abbreviation offsets :: "bslink list \<Rightarrow> nat list" where
  "offsets xs \<equiv> map m_ulOffset xs"

definition links_sorted :: "bslink list \<Rightarrow> bool" where
  "links_sorted xs \<longleftrightarrow> sorted_wrt (<) (offsets xs)"

text \<open>The finite map a sorted link list stands for.\<close>

definition link_map :: "bslink list \<Rightarrow> nat \<Rightarrow> bitvector option" where
  "link_map xs = map_of (map (\<lambda>l. (m_ulOffset l, m_pbv l)) xs)"

lemma links_sorted_Nil [simp]: "links_sorted []"
  by (simp add: links_sorted_def)

lemma links_sorted_Cons [simp]:
  "links_sorted (l # xs) \<longleftrightarrow> (\<forall>x \<in> set xs. m_ulOffset l < m_ulOffset x) \<and> links_sorted xs"
  by (auto simp: links_sorted_def)

lemma links_sorted_append [simp]:
  "links_sorted (xs @ ys) \<longleftrightarrow> links_sorted xs \<and> links_sorted ys
     \<and> (\<forall>x \<in> set xs. \<forall>y \<in> set ys. m_ulOffset x < m_ulOffset y)"
  by (auto simp: links_sorted_def sorted_wrt_append)

lemma links_sorted_nth_less:
  "links_sorted xs \<Longrightarrow> i < j \<Longrightarrow> j < length xs \<Longrightarrow> m_ulOffset (xs ! i) < m_ulOffset (xs ! j)"
  unfolding links_sorted_def using sorted_wrt_nth_less [of "(<)" "offsets xs" i j] by simp

lemma links_sorted_distinct: "links_sorted xs \<Longrightarrow> distinct (offsets xs)"
  unfolding links_sorted_def by (rule sorted_wrt_less_distinct)

lemma link_map_Nil [simp]: "link_map [] = Map.empty"
  by (simp add: link_map_def)

lemma link_map_Cons [simp]: "link_map (l # xs) = (link_map xs)(m_ulOffset l \<mapsto> m_pbv l)"
  by (simp add: link_map_def)

lemma link_map_append: "link_map (xs @ ys) = link_map ys ++ link_map xs"
  by (simp add: link_map_def)

lemma dom_link_map: "dom (link_map xs) = set (offsets xs)"
  by (simp add: link_map_def dom_map_of_conv_image_fst image_image)

lemma link_map_None: "link_map xs off = None \<longleftrightarrow> off \<notin> set (offsets xs)"
  using dom_link_map [of xs] by (auto simp: domIff)

lemma link_map_Some:
  "links_sorted xs \<Longrightarrow> link_map xs off = Some bv \<longleftrightarrow> (\<exists>l \<in> set xs. m_ulOffset l = off \<and> m_pbv l = bv)"
  using links_sorted_distinct [of xs] by (force simp: link_map_def map_of_eq_Some_iff o_def)

lemma link_map_mem: "links_sorted xs \<Longrightarrow> l \<in> set xs \<Longrightarrow> link_map xs (m_ulOffset l) = Some (m_pbv l)"
  by (auto simp: link_map_Some)

lemma link_map_nth:
  "links_sorted xs \<Longrightarrow> k < length xs \<Longrightarrow> link_map xs (m_ulOffset (xs ! k)) = Some (m_pbv (xs ! k))"
  by (auto simp: link_map_Some)

subsection \<open>Locating\<close>

declare locate_from.simps [simp del]

text \<open>\<open>r\<close> is the last link whose offset is at most \<open>off\<close>.\<close>

definition located :: "bslink list \<Rightarrow> nat \<Rightarrow> nat option \<Rightarrow> bool" where
  "located xs off r \<longleftrightarrow>
     (case r of None \<Rightarrow> \<forall>l \<in> set xs. off < m_ulOffset l
      | Some k \<Rightarrow> k < length xs \<and> m_ulOffset (xs ! k) \<le> off
          \<and> (\<forall>i < length xs. k < i \<longrightarrow> off < m_ulOffset (xs ! i)))"

text \<open>A cursor may start a search for \<open>off\<close> if it is \<open>NULL\<close> or not beyond \<open>off\<close>.\<close>

definition start_ok :: "bslink list \<Rightarrow> nat option \<Rightarrow> nat \<Rightarrow> bool" where
  "start_ok xs c off \<longleftrightarrow> (case c of None \<Rightarrow> True | Some k \<Rightarrow> k < length xs \<and> m_ulOffset (xs ! k) \<le> off)"

lemma locate_from_located:
  assumes "links_sorted xs" "c \<le> length xs" "\<forall>i < c. m_ulOffset (xs ! i) \<le> off"
    "found = (if c = 0 then None else Some (c - 1))"
  shows "located xs off (locate_from xs c found off)"
  using assms
proof (induction xs c found off rule: locate_from.induct)
  case (1 xs c found off)
  show ?case
  proof (cases "c < length xs \<and> \<not> m_ulOffset (xs ! c) > off")
    case True
    then have "located xs off (locate_from xs (c + 1) (Some c) off)"
      using "1.prems" by (intro "1.IH") (auto simp: less_Suc_eq)
    with True show ?thesis by (subst locate_from.simps) simp
  next
    case False
    have later: "off < m_ulOffset (xs ! i)" if "c \<le> i" "i < length xs" for i
    proof (cases "i = c")
      case True
      with that False show ?thesis by simp
    next
      case False
      with that have "m_ulOffset (xs ! c) < m_ulOffset (xs ! i)"
        using "1.prems"(1) by (simp add: links_sorted_nth_less)
      then show ?thesis using that \<open>\<not> (c < length xs \<and> \<not> off < m_ulOffset (xs ! c))\<close> by simp
    qed
    show ?thesis
      using False "1.prems" later
      by (subst locate_from.simps) (auto simp: located_def in_set_conv_nth)
  qed
qed

lemma PbslLocate_located:
  assumes "links_sorted xs" "start_ok xs c off"
  shows "located xs off (PbslLocate xs off c)"
proof (cases c)
  case None
  then show ?thesis using assms by (simp add: PbslLocate_def locate_from_located)
next
  case (Some k)
  then have k: "k < length xs" "m_ulOffset (xs ! k) \<le> off"
    using assms by (simp_all add: start_ok_def)
  have "m_ulOffset (xs ! i) \<le> off" if "i < k + 1" for i
    using that k links_sorted_nth_less [OF assms(1), of i k] by (cases "i = k") auto
  then have "located xs off (locate_from xs (k + 1) (Some k) off)"
    using k assms(1) by (intro locate_from_located) auto
  moreover have "PbslLocate xs off c = locate_from xs (k + 1) (Some k) off"
    using Some k by (subst PbslLocate_def) (simp add: locate_from.simps [of xs k])
  ultimately show ?thesis by simp
qed

lemma located_match:
  assumes "links_sorted xs" "located xs off r"
  shows "bsl_match xs r off \<longleftrightarrow> off \<in> dom (link_map xs)"
proof -
  have "off \<in> set (offsets xs) \<longleftrightarrow> (\<exists>i < length xs. m_ulOffset (xs ! i) = off)"
    by (metis in_set_conv_nth length_map nth_map)
  also have "\<dots> \<longleftrightarrow> bsl_match xs r off"
  proof (cases r)
    case None
    then show ?thesis using assms by (force simp: located_def bsl_match_def)
  next
    case (Some k)
    then have k: "k < length xs" "m_ulOffset (xs ! k) \<le> off"
      "\<And>i. i < length xs \<Longrightarrow> k < i \<Longrightarrow> off < m_ulOffset (xs ! i)"
      using assms by (auto simp: located_def)
    have "i = k" if "i < length xs" "m_ulOffset (xs ! i) = off" for i
      using that k links_sorted_nth_less [OF assms(1), of i k] by (metis less_irrefl linorder_neqE_nat not_le)
    then show ?thesis using Some k by (auto simp: bsl_match_def)
  qed
  finally show ?thesis by (simp add: dom_link_map)
qed

lemma match_the:
  assumes "links_sorted xs" "located xs off r" "bsl_match xs r off"
  shows "\<exists>k. r = Some k \<and> k < length xs \<and> m_ulOffset (xs ! k) = off \<and> link_map xs off = Some (m_pbv (xs ! k))"
  using assms link_map_nth [OF assms(1)] by (auto simp: bsl_match_def located_def split: option.splits)

text \<open>A located cursor may start the search for any later offset.\<close>

lemma located_start_ok: "located xs off r \<Longrightarrow> off \<le> off' \<Longrightarrow> start_ok xs r off'"
  by (auto simp: located_def start_ok_def split: option.splits)

lemma start_ok_None [simp]: "start_ok xs None off"
  by (simp add: start_ok_def)

lemma start_ok_mono: "start_ok xs c off \<Longrightarrow> off \<le> off' \<Longrightarrow> start_ok xs c off'"
  by (auto simp: start_ok_def split: option.splits)

subsection \<open>Inserting, replacing and removing a link\<close>

lemma located_split:
  assumes "links_sorted xs" "located xs off (Some k)" "off \<notin> set (offsets xs)"
  shows "\<forall>x \<in> set (take (k + 1) xs). m_ulOffset x < off" "\<forall>x \<in> set (drop (k + 1) xs). off < m_ulOffset x"
proof -
  have k: "k < length xs" "m_ulOffset (xs ! k) \<le> off"
    "\<And>i. i < length xs \<Longrightarrow> k < i \<Longrightarrow> off < m_ulOffset (xs ! i)"
    using assms(2) by (auto simp: located_def)
  have "m_ulOffset (xs ! k) < off"
    using assms(3) k by (metis le_neq_implies_less length_map nth_map nth_mem)
  then have "m_ulOffset (xs ! i) < off" if "i < k + 1" for i
    using that k links_sorted_nth_less [OF assms(1), of i k] by (cases "i = k") auto
  then show "\<forall>x \<in> set (take (k + 1) xs). m_ulOffset x < off"
    using k by (auto simp: in_set_conv_nth)
  show "\<forall>x \<in> set (drop (k + 1) xs). off < m_ulOffset x"
    using k by (auto simp: in_set_conv_nth)
qed

lemma insert_after_links:
  assumes "links_sorted xs" "located xs (m_ulOffset l) (Some k)" "m_ulOffset l \<notin> set (offsets xs)"
  shows "links_sorted (list_insert_after k l xs)"
    "link_map (list_insert_after k l xs) = (link_map xs)(m_ulOffset l \<mapsto> m_pbv l)"
proof -
  note s = located_split [OF assms]
  have "links_sorted (take (k + 1) xs @ drop (k + 1) xs)" using assms(1) by simp
  then show "links_sorted (list_insert_after k l xs)"
    using s unfolding links_sorted_append list_insert_after_def by auto
  have "link_map xs = link_map (drop (k + 1) xs) ++ link_map (take (k + 1) xs)"
    by (metis append_take_drop_id link_map_append)
  moreover have "m_ulOffset l \<notin> dom (link_map (take (k + 1) xs))"
    using s(1) by (auto simp: dom_link_map)
  ultimately show "link_map (list_insert_after k l xs) = (link_map xs)(m_ulOffset l \<mapsto> m_pbv l)"
    unfolding list_insert_after_def link_map_append link_map_Cons
    by (simp add: map_add_upd_left)
qed

lemma update_link:
  assumes "links_sorted xs" "k < length xs"
  shows "links_sorted (xs[k := (xs ! k)\<lparr>m_pbv := bv\<rparr>])"
    "link_map (xs[k := (xs ! k)\<lparr>m_pbv := bv\<rparr>]) = (link_map xs)(m_ulOffset (xs ! k) \<mapsto> bv)"
proof -
  have "offsets (xs[k := (xs ! k)\<lparr>m_pbv := bv\<rparr>]) = offsets xs"
    using map_update [of m_ulOffset xs k "(xs ! k)\<lparr>m_pbv := bv\<rparr>"] list_update_id [of "offsets xs" k] assms(2)
    by simp
  then show s: "links_sorted (xs[k := (xs ! k)\<lparr>m_pbv := bv\<rparr>])"
    using assms by (simp add: links_sorted_def)
  have x: "xs = take k xs @ xs ! k # drop (Suc k) xs" by (rule id_take_nth_drop [OF assms(2)])
  then have "links_sorted (take k xs @ xs ! k # drop (Suc k) xs)" using assms(1) by metis
  then have notin: "m_ulOffset (xs ! k) \<notin> dom (link_map (take k xs))"
    by (auto simp: dom_link_map)
  note x
  moreover have "xs[k := (xs ! k)\<lparr>m_pbv := bv\<rparr>] = take k xs @ (xs ! k)\<lparr>m_pbv := bv\<rparr> # drop (Suc k) xs"
    by (rule upd_conv_take_nth_drop [OF assms(2)])
  moreover note notin
  ultimately show "link_map (xs[k := (xs ! k)\<lparr>m_pbv := bv\<rparr>]) = (link_map xs)(m_ulOffset (xs ! k) \<mapsto> bv)"
    by (metis (no_types, lifting) bslink.ext_inject bslink.surjective bslink.update_convs(2) link_map_Cons
        link_map_append map_add_upd_left fun_upd_upd)
qed

lemma remove_link:
  assumes "links_sorted xs" "k < length xs"
  shows "links_sorted (list_remove_at k xs)"
    "link_map (list_remove_at k xs) = (link_map xs)(m_ulOffset (xs ! k) := None)"
proof -
  have x: "xs = take k xs @ xs ! k # drop (Suc k) xs" by (rule id_take_nth_drop [OF assms(2)])
  then have s: "links_sorted (take k xs @ xs ! k # drop (Suc k) xs)" using assms by metis
  then show "links_sorted (list_remove_at k xs)" by (simp add: list_remove_at_def)
  have "link_map xs = (link_map (drop (Suc k) xs))(m_ulOffset (xs ! k) \<mapsto> m_pbv (xs ! k)) ++ link_map (take k xs)"
    by (metis x link_map_append link_map_Cons)
  moreover have "m_ulOffset (xs ! k) \<notin> dom (link_map (take k xs))" "m_ulOffset (xs ! k) \<notin> dom (link_map (drop (Suc k) xs))"
    using s by (auto simp: dom_link_map)
  ultimately show "link_map (list_remove_at k xs) = (link_map xs)(m_ulOffset (xs ! k) := None)"
    unfolding list_remove_at_def link_map_append
    by (auto simp: fun_eq_iff map_add_def domIff split: option.splits)
qed

section \<open>The abstract value\<close>

definition map_set :: "nat \<Rightarrow> (nat \<Rightarrow> bitvector option) \<Rightarrow> nat set" where
  "map_set s m = {n. \<exists>bv. m (n div s * s) = Some bv \<and> n mod s \<in> bv_set bv}"

definition map_ok :: "nat \<Rightarrow> (nat \<Rightarrow> bitvector option) \<Rightarrow> bool" where
  "map_ok s m \<longleftrightarrow> (\<forall>off bv. m off = Some bv \<longrightarrow> bv_wf bv \<and> m_cBits bv = s \<and> s dvd off)"

definition bs_set :: "bitset \<Rightarrow> nat set" where
  "bs_set bs = map_set (m_cSizeBits bs) (link_map (m_bsllist bs))"

definition links_ok :: "nat \<Rightarrow> bslink list \<Rightarrow> bool" where
  "links_ok s xs \<longleftrightarrow> 0 < s \<and> s < ULONG_MOD \<and> links_sorted xs \<and> map_ok s (link_map xs)
     \<and> map_set s (link_map xs) \<subseteq> {..<ULONG_MOD}"

definition bs_wf :: "bitset \<Rightarrow> bool" where
  "bs_wf bs \<longleftrightarrow> links_ok (m_cSizeBits bs) (m_bsllist bs)
     \<and> m_cElements bs = card (bs_set bs) mod ULONG_MOD"

text \<open>No link with an empty vector: what single-element updates maintain.\<close>

definition bs_normal :: "bitset \<Rightarrow> bool" where
  "bs_normal bs \<longleftrightarrow> (\<forall>l \<in> set (m_bsllist bs). bv_set (m_pbv l) \<noteq> {})"

lemma map_okD: "map_ok s m \<Longrightarrow> m off = Some bv \<Longrightarrow> bv_wf bv \<and> m_cBits bv = s \<and> s dvd off"
  by (simp add: map_ok_def)

lemma map_ok_upd: "map_ok s m \<Longrightarrow> bv_wf bv \<Longrightarrow> m_cBits bv = s \<Longrightarrow> s dvd off \<Longrightarrow> map_ok s (m(off \<mapsto> bv))"
  by (auto simp: map_ok_def)

lemma map_ok_del: "map_ok s m \<Longrightarrow> map_ok s (m(off := None))"
  by (auto simp: map_ok_def)

lemma map_set_empty [simp]: "map_set s Map.empty = {}"
  by (simp add: map_set_def)

lemma map_set_mem: "m (n div s * s) = Some bv \<Longrightarrow> n \<in> map_set s m \<longleftrightarrow> n mod s \<in> bv_set bv"
  by (simp add: map_set_def)

lemma map_set_shift:
  assumes "map_ok s m" "m off = Some bv" "k \<in> bv_set bv"
  shows "off + k \<in> map_set s m"
proof -
  have "k < s" "s dvd off" using assms map_okD bv_set_bound by metis+
  then have "(off + k) div s * s = off" "(off + k) mod s = k"
    by (auto elim!: dvdE)
  then show ?thesis using assms by (simp add: map_set_def)
qed

lemma map_setE:
  assumes "n \<in> map_set s m"
  obtains off bv k where "m off = Some bv" "k \<in> bv_set bv" "n = off + k"
  using assms by (fastforce simp: map_set_def)

lemma finite_bs_set: "bs_wf bs \<Longrightarrow> finite (bs_set bs)"
  unfolding bs_wf_def links_ok_def bs_set_def using finite_subset by blast

lemma bs_set_lt: "bs_wf bs \<Longrightarrow> n \<in> bs_set bs \<Longrightarrow> n < ULONG_MOD"
  unfolding bs_wf_def links_ok_def bs_set_def by auto

lemma bs_wfD:
  assumes "bs_wf bs"
  shows "0 < m_cSizeBits bs" "m_cSizeBits bs < ULONG_MOD" "links_sorted (m_bsllist bs)"
    "map_ok (m_cSizeBits bs) (link_map (m_bsllist bs))"
    "m_cElements bs = card (bs_set bs) mod ULONG_MOD" "links_ok (m_cSizeBits bs) (m_bsllist bs)"
  using assms by (auto simp: bs_wf_def links_ok_def)

text \<open>The position inside the link of an element.\<close>

lemma bs_offset: "ulBit - bs_UlOffset bs ulBit = ulBit mod m_cSizeBits bs"
  by (simp add: bs_UlOffset_def minus_div_mult_eq_mod)

subsection \<open>Counting the elements of the links\<close>

lemma card_map_set:
  assumes "0 < s" "links_sorted xs" "map_ok s (link_map xs)"
  shows "finite (map_set s (link_map xs))
    \<and> card (map_set s (link_map xs)) = sum_list (map (\<lambda>l. card (bv_set (m_pbv l))) xs)"
  using assms(2,3)
proof (induction xs)
  case Nil
  then show ?case by simp
next
  case (Cons l xs)
  have notin: "m_ulOffset l \<notin> dom (link_map xs)" using Cons.prems(1) by (auto simp: dom_link_map)
  have ok: "map_ok s (link_map xs)"
    using Cons.prems(2) notin unfolding map_ok_def by (metis domI fun_upd_other link_map_Cons)
  have l: "bv_wf (m_pbv l)" "m_cBits (m_pbv l) = s" "s dvd m_ulOffset l"
    using map_okD [OF Cons.prems(2), of "m_ulOffset l"] by simp_all
  have eq: "map_set s (link_map (l # xs)) = map_set s (link_map xs) \<union> (\<lambda>k. m_ulOffset l + k) ` bv_set (m_pbv l)"
  proof (intro equalityI subsetI)
    fix n assume "n \<in> map_set s (link_map (l # xs))"
    then obtain bv where bv: "link_map (l # xs) (n div s * s) = Some bv" "n mod s \<in> bv_set bv"
      by (auto simp: map_set_def)
    show "n \<in> map_set s (link_map xs) \<union> (\<lambda>k. m_ulOffset l + k) ` bv_set (m_pbv l)"
    proof (cases "n div s * s = m_ulOffset l")
      case True
      then have "n = m_ulOffset l + n mod s" by (metis div_mult_mod_eq)
      moreover have "bv = m_pbv l" using bv(1) True by simp
      ultimately show ?thesis using bv(2) by blast
    next
      case False
      then show ?thesis using bv by (simp add: map_set_def)
    qed
  next
    fix n assume "n \<in> map_set s (link_map xs) \<union> (\<lambda>k. m_ulOffset l + k) ` bv_set (m_pbv l)"
    then show "n \<in> map_set s (link_map (l # xs))"
    proof
      assume "n \<in> map_set s (link_map xs)"
      then show ?thesis using notin by (auto simp: map_set_def domIff)
    next
      assume "n \<in> (\<lambda>k. m_ulOffset l + k) ` bv_set (m_pbv l)"
      moreover have "link_map (l # xs) (m_ulOffset l) = Some (m_pbv l)" by simp
      ultimately show ?thesis using map_set_shift [OF Cons.prems(2)] by blast
    qed
  qed
  have disj: "map_set s (link_map xs) \<inter> (\<lambda>k. m_ulOffset l + k) ` bv_set (m_pbv l) = {}"
  proof (rule ccontr)
    assume "\<not> ?thesis"
    then obtain k where k: "k \<in> bv_set (m_pbv l)" "m_ulOffset l + k \<in> map_set s (link_map xs)" by auto
    then have "k < s" using l bv_set_bound by metis
    then have "(m_ulOffset l + k) div s * s = m_ulOffset l" using l(3) by (auto elim!: dvdE)
    then show False using k(2) notin by (auto simp: map_set_def domIff)
  qed
  show ?case
    using Cons.IH Cons.prems(1) ok disj unfolding eq
    by (simp add: card_Un_disjoint card_image)
qed

lemma recompute_size_eq:
  assumes "0 < s" "s < ULONG_MOD" "links_sorted xs" "map_ok s (link_map xs)"
  shows "foldl (\<lambda>c bsl. ul_add c (bv_CElements (m_pbv bsl))) 0 xs
       = card (map_set s (link_map xs)) mod ULONG_MOD"
proof -
  have "bv_CElements (m_pbv l) = card (bv_set (m_pbv l))" if "l \<in> set xs" for l
    using map_okD [OF assms(4) link_map_mem [OF assms(3) that]] assms(2) by (simp add: bv_CElements_card)
  then have "sum_list (map (\<lambda>l. bv_CElements (m_pbv l)) xs) = card (map_set s (link_map xs))"
    using card_map_set [OF assms(1,3,4)] by (simp cong: map_cong)
  then show ?thesis
    using sum_list_ul_add [of "\<lambda>l. bv_CElements (m_pbv l)" 0 xs] by simp
qed

lemma bs_wf_recompute:
  assumes "links_ok (m_cSizeBits bs) xs"
  shows "bs_wf (bs_RecomputeSize (bs\<lparr>m_bsllist := xs\<rparr>))"
    "bs_set (bs_RecomputeSize (bs\<lparr>m_bsllist := xs\<rparr>)) = map_set (m_cSizeBits bs) (link_map xs)"
    "m_cSizeBits (bs_RecomputeSize (bs\<lparr>m_bsllist := xs\<rparr>)) = m_cSizeBits bs"
  using assms by (auto simp: bs_wf_def bs_RecomputeSize_def bs_set_def links_ok_def recompute_size_eq)

subsection \<open>Construction and clearing\<close>

lemma bs_set_new [bs_simps]: "bs_set (bs_new s) = {}"
  by (simp add: bs_set_def bs_new_def)

lemma bs_wf_new [bs_simps]: "0 < s \<Longrightarrow> s < ULONG_MOD \<Longrightarrow> bs_wf (bs_new s)"
  using bs_set_new [of s] by (simp add: bs_wf_def links_ok_def bs_new_def map_ok_def)

lemma bs_size_new [bs_simps]: "m_cSizeBits (bs_new s) = s"
  by (simp add: bs_new_def)

lemma remove_all_links_Nil [simp]: "remove_all_links xs = []"
  by (induction xs) auto

lemma bs_Clear_empty [bs_simps]: "bs_wf bs \<Longrightarrow> bs_wf (bs_Clear bs) \<and> bs_set (bs_Clear bs) = {}"
  using bs_wf_recompute [of bs "[]"]
  by (simp add: bs_Clear_def bs_wf_def links_ok_def map_ok_def)

subsection \<open>Single elements\<close>

lemma bs_locate:
  assumes "bs_wf bs"
  shows "located (m_bsllist bs) off (PbslLocate (m_bsllist bs) off None)"
  using assms by (intro PbslLocate_located) (simp_all add: bs_wfD)

text \<open>The two outcomes of the search of every single-element operation.\<close>

lemma bs_locate_cases [consumes 1, case_names hit miss]:
  fixes n :: nat
  assumes "bs_wf bs"
  defines "off \<equiv> bs_UlOffset bs n" and "p \<equiv> PbslLocate (m_bsllist bs) (bs_UlOffset bs n) None"
  obtains (hit) k where "bsl_match (m_bsllist bs) p off" "p = Some k" "k < length (m_bsllist bs)"
      "m_ulOffset (m_bsllist bs ! k) = off" "link_map (m_bsllist bs) off = Some (m_pbv (m_bsllist bs ! k))"
      "bv_wf (m_pbv (m_bsllist bs ! k))" "m_cBits (m_pbv (m_bsllist bs ! k)) = m_cSizeBits bs"
      "n \<in> bs_set bs \<longleftrightarrow> n mod m_cSizeBits bs \<in> bv_set (m_pbv (m_bsllist bs ! k))"
  | (miss) "\<not> bsl_match (m_bsllist bs) p off" "link_map (m_bsllist bs) off = None" "n \<notin> bs_set bs"
proof (cases "bsl_match (m_bsllist bs) p off")
  case True
  have loc: "located (m_bsllist bs) off p" unfolding off_def p_def using bs_locate [OF assms(1)] .
  then obtain k where k: "p = Some k" "k < length (m_bsllist bs)"
    "m_ulOffset (m_bsllist bs ! k) = off" "link_map (m_bsllist bs) off = Some (m_pbv (m_bsllist bs ! k))"
    using match_the [OF bs_wfD(3) [OF assms(1)] loc True] by blast
  then show ?thesis
    using hit True map_okD [OF bs_wfD(4) [OF assms(1)] k(4)] k(4)
    by (simp add: bs_set_def map_set_mem off_def bs_UlOffset_def)
next
  case False
  have "located (m_bsllist bs) off p" unfolding off_def p_def using bs_locate [OF assms(1)] .
  then have "link_map (m_bsllist bs) off = None"
    using located_match [OF bs_wfD(3) [OF assms(1)]] False by (auto simp: domIff)
  then show ?thesis
    using miss False by (simp add: bs_set_def map_set_def off_def bs_UlOffset_def)
qed

lemma bs_FBit_set [bs_simps]:
  assumes "bs_wf bs"
  shows "bs_FBit bs n \<longleftrightarrow> n \<in> bs_set bs"
  using assms
proof (cases rule: bs_locate_cases [where n = n])
  case (hit k)
  then show ?thesis
    using bs_wfD(1) [OF assms] by (simp add: bs_FBit_def Let_def bs_offset bv_FBit_set)
next
  case miss
  then show ?thesis by (simp add: bs_FBit_def Let_def)
qed

lemma map_set_upd:
  "map_set s (m(n div s * s \<mapsto> bv)) = {x \<in> map_set s m. x div s \<noteq> n div s} \<union> {x. x div s = n div s \<and> x mod s \<in> bv_set bv}"
  if "0 < s"
  using that by (auto simp: map_set_def)

lemma map_set_del:
  "map_set s (m(n div s * s := None)) = {x \<in> map_set s m. x div s \<noteq> n div s}" if "0 < s"
  using that by (auto simp: map_set_def)

lemma same_div_mod: "x div s = n div s \<Longrightarrow> x mod s = n mod s \<longleftrightarrow> x = (n :: nat)"
  by (metis div_mult_mod_eq)

text \<open>Replacing the vector of the link of \<open>n\<close> by one that differs from it at \<open>n\<close> only.\<close>

lemma map_set_insert:
  assumes "0 < s" "m (n div s * s) = Some bv" "bv_set bv' = insert (n mod s) (bv_set bv)"
  shows "map_set s (m(n div s * s \<mapsto> bv')) = insert n (map_set s m)"
  unfolding map_set_upd [OF assms(1)] using assms same_div_mod [of _ s n]
  by (auto simp: map_set_def)

lemma map_set_insert_new:
  assumes "0 < s" "m (n div s * s) = None" "bv_set bv' = {n mod s}"
  shows "map_set s (m(n div s * s \<mapsto> bv')) = insert n (map_set s m)"
  unfolding map_set_upd [OF assms(1)] using assms same_div_mod [of _ s n]
  by (auto simp: map_set_def)

lemma map_set_delete:
  assumes "0 < s" "m (n div s * s) = Some bv" "bv_set bv' = bv_set bv - {n mod s}"
  shows "map_set s (m(n div s * s \<mapsto> bv')) = map_set s m - {n}"
  unfolding map_set_upd [OF assms(1)] using assms same_div_mod [of _ s n]
  by (auto simp: map_set_def)

lemma map_set_delete_link:
  assumes "0 < s" "m (n div s * s) = Some bv" "bv_set bv - {n mod s} = {}"
  shows "map_set s (m(n div s * s := None)) = map_set s m - {n}"
  unfolding map_set_del [OF assms(1)] using assms same_div_mod [of _ s n]
  by (auto simp: map_set_def)

text \<open>Assembling the invariant of an updated set from its list and its set.\<close>

lemma bs_wf_update:
  assumes "bs_wf bs" "links_sorted xs" "map_ok (m_cSizeBits bs) (link_map xs)"
    and "map_set (m_cSizeBits bs) (link_map xs) = S" "S \<subseteq> {..<ULONG_MOD}" "c = card S mod ULONG_MOD"
  shows "bs_wf (bs\<lparr>m_bsllist := xs, m_cElements := c\<rparr>) \<and> bs_set (bs\<lparr>m_bsllist := xs, m_cElements := c\<rparr>) = S"
  using assms bs_wfD(1,2) [OF assms(1)] by (simp add: bs_wf_def links_ok_def bs_set_def)

lemma card_insert_count:
  assumes "bs_wf bs"
  shows "(if n \<notin> bs_set bs then ul_add (m_cElements bs) 1 else m_cElements bs)
       = card (insert n (bs_set bs)) mod ULONG_MOD"
  using bs_wfD(5) [OF assms] finite_bs_set [OF assms]
  by (simp add: ul_add_mod insert_absorb)

lemma card_delete_count:
  assumes "bs_wf bs"
  shows "(if n \<in> bs_set bs then ul_sub (m_cElements bs) 1 else m_cElements bs)
       = card (bs_set bs - {n}) mod ULONG_MOD"
proof (cases "n \<in> bs_set bs")
  case True
  then have "0 < card (bs_set bs)" using finite_bs_set [OF assms] by (auto simp: card_gt_0_iff)
  then show ?thesis
    using True bs_wfD(5) [OF assms] finite_bs_set [OF assms] by (simp add: ul_sub_one_mod del: One_nat_def)
next
  case False
  then show ?thesis using bs_wfD(5) [OF assms] by simp
qed

text \<open>An allocated link is empty, so the value of the set does not change.\<close>

lemma map_set_new_link:
  assumes "0 < s" "m (n div s * s) = None"
  shows "map_set s (m(n div s * s \<mapsto> bv_new c)) = map_set s m"
  unfolding map_set_upd [OF assms(1)] using assms by (auto simp: map_set_def bv_simps)

lemma bs_ensure_link:
  assumes wf: "bs_wf bs" and e: "bs_ensure_link bs (bs_UlOffset bs n) = (xs, k)"
  shows "links_sorted xs \<and> k < length xs \<and> m_ulOffset (xs ! k) = bs_UlOffset bs n
    \<and> map_ok (m_cSizeBits bs) (link_map xs) \<and> map_set (m_cSizeBits bs) (link_map xs) = bs_set bs
    \<and> (\<forall>i < length xs. i \<noteq> k \<longrightarrow> xs ! i \<in> set (m_bsllist bs))"
proof -
  let ?s = "m_cSizeBits bs" and ?off = "bs_UlOffset bs n"
  let ?p = "PbslLocate (m_bsllist bs) (bs_UlOffset bs n) None" and ?new = "bsl_new (bs_UlOffset bs n) (m_cSizeBits bs)"
  note w = bs_wfD [OF wf]
  from wf show ?thesis
  proof (cases rule: bs_locate_cases [where n = n])
    case (hit j)
    then show ?thesis using e w by (auto simp: bs_ensure_link_def bs_set_def)
  next
    case miss
    have loc: "located (m_bsllist bs) ?off ?p" by (rule bs_locate [OF wf])
    have notin: "?off \<notin> set (offsets (m_bsllist bs))" using miss(2) by (simp add: link_map_None)
    have ok: "map_ok ?s ((link_map (m_bsllist bs))(?off \<mapsto> bv_new ?s))"
      using w by (intro map_ok_upd) (simp_all add: bv_simps bs_UlOffset_def)
    have val: "map_set ?s ((link_map (m_bsllist bs))(?off \<mapsto> bv_new ?s)) = bs_set bs"
      using miss(2) w(1) by (simp add: bs_UlOffset_def map_set_new_link bs_set_def)
    show ?thesis
    proof (cases ?p)
      case None
      then have "xs = ?new # m_bsllist bs" "k = 0"
        using e miss(1) by (simp_all add: bs_ensure_link_def bsl_match_def)
      then show ?thesis
        using None loc w ok val by (auto simp: located_def bsl_new_def nth_Cons split: nat.splits)
    next
      case (Some j)
      then have x: "xs = list_insert_after j ?new (m_bsllist bs)" "k = j + 1" "j < length (m_bsllist bs)"
        using e miss(1) loc by (simp_all add: bs_ensure_link_def located_def)
      have "xs ! i \<in> set (m_bsllist bs)" if "i < length xs" "i \<noteq> k" for i
        using that x by (auto simp: list_insert_after_def nth_append nth_Cons min_def split: nat.splits)
      then show ?thesis
        using x Some insert_after_links [OF w(3), of ?new j] loc notin ok val
        by (auto simp: bsl_new_def list_insert_after_def nth_append min_def)
    qed
  qed
qed

lemma bs_FExchangeSet_full:
  assumes wf: "bs_wf bs" and n: "n < ULONG_MOD"
  shows "fst (bs_FExchangeSet bs n) = (n \<in> bs_set bs)
    \<and> bs_wf (snd (bs_FExchangeSet bs n)) \<and> bs_set (snd (bs_FExchangeSet bs n)) = insert n (bs_set bs)
    \<and> m_cSizeBits (snd (bs_FExchangeSet bs n)) = m_cSizeBits bs
    \<and> (bs_normal bs \<longrightarrow> bs_normal (snd (bs_FExchangeSet bs n)))"
proof -
  let ?s = "m_cSizeBits bs" and ?off = "bs_UlOffset bs n"
  note w = bs_wfD [OF wf]
  have sub: "insert n (bs_set bs) \<subseteq> {..<ULONG_MOD}" using n bs_set_lt [OF wf] by auto
  have off: "?off = n div ?s * ?s" by (simp add: bs_UlOffset_def)
  have mods: "n mod ?s < ?s" using w(1) by simp
  obtain xs k where e: "bs_ensure_link bs ?off = (xs, k)" by fastforce
  have l: "links_sorted xs" "k < length xs" "m_ulOffset (xs ! k) = ?off" "map_ok ?s (link_map xs)"
    "map_set ?s (link_map xs) = bs_set bs" "\<forall>i < length xs. i \<noteq> k \<longrightarrow> xs ! i \<in> set (m_bsllist bs)"
    using bs_ensure_link [OF wf e] by blast+
  have at: "link_map xs (n div ?s * ?s) = Some (m_pbv (xs ! k))"
    using link_map_nth [OF l(1,2)] l(3) off by simp
  then have bv0: "bv_wf (m_pbv (xs ! k))" "m_cBits (m_pbv (xs ! k)) = ?s"
    using map_okD [OF l(4)] by blast+
  let ?bv = "snd (bv_FExchangeSet (m_pbv (xs ! k)) (n mod ?s))"
  let ?ys = "xs[k := (xs ! k)\<lparr>m_pbv := ?bv\<rparr>]"
  have bv: "bv_set ?bv = insert (n mod ?s) (bv_set (m_pbv (xs ! k)))" "bv_wf ?bv" "m_cBits ?bv = ?s"
    using bv0 mods by (simp_all add: bv_simps)
  have old: "bv_FBit (m_pbv (xs ! k)) (n mod ?s) \<longleftrightarrow> n \<in> bs_set bs"
    using bv0 mods map_set_mem [of "link_map xs" n ?s] at l(5) by (simp add: bv_FBit_set)
  have eq: "bs_FExchangeSet bs n = (n \<in> bs_set bs, bs\<lparr>m_bsllist := ?ys,
      m_cElements := (if n \<notin> bs_set bs then ul_add (m_cElements bs) 1 else m_cElements bs)\<rparr>)"
    using e old by (simp add: bs_FExchangeSet_def Let_def bs_offset split_beta bv_exchange_fst)
  have m: "links_sorted ?ys" "link_map ?ys = (link_map xs)(n div ?s * ?s \<mapsto> ?bv)"
    using update_link [OF l(1,2)] l(3) off by simp_all
  have ok: "map_ok ?s (link_map ?ys)" unfolding m using l(4) bv by (intro map_ok_upd) simp_all
  have val: "map_set ?s (link_map ?ys) = insert n (bs_set bs)"
    unfolding m using map_set_insert [of ?s "link_map xs" n, OF w(1) at] bv(1) l(5) by blast
  have "bv_set (m_pbv x) \<noteq> {}" if nrm: "bs_normal bs" and x: "x \<in> set ?ys" for x
  proof -
    obtain i where i: "i < length xs" "x = ?ys ! i" using x by (auto simp: in_set_conv_nth)
    show ?thesis using i l(6) nrm bv(1) by (cases "i = k") (auto simp: bs_normal_def)
  qed
  then show ?thesis
    unfolding eq using bs_wf_update [OF wf m(1) ok val sub card_insert_count [OF wf]]
    by (auto simp: bs_normal_def)
qed

lemma bs_FExchangeClear_full:
  assumes wf: "bs_wf bs"
  shows "fst (bs_FExchangeClear bs n) = (n \<in> bs_set bs)
    \<and> bs_wf (snd (bs_FExchangeClear bs n)) \<and> bs_set (snd (bs_FExchangeClear bs n)) = bs_set bs - {n}
    \<and> m_cSizeBits (snd (bs_FExchangeClear bs n)) = m_cSizeBits bs
    \<and> (bs_normal bs \<longrightarrow> bs_normal (snd (bs_FExchangeClear bs n)))"
  using wf
proof (cases rule: bs_locate_cases [where n = n])
  case miss
  then show ?thesis using wf by (simp add: bs_FExchangeClear_def Let_def)
next
  case (hit k)
  let ?s = "m_cSizeBits bs" and ?off = "bs_UlOffset bs n" and ?xs = "m_bsllist bs"
  let ?bv = "snd (bv_FExchangeClear (m_pbv (m_bsllist bs ! k)) (n mod m_cSizeBits bs))"
  let ?ys = "?xs[k := (?xs ! k)\<lparr>m_pbv := ?bv\<rparr>]"
  let ?zs = "if bv_FEmpty ?bv then list_remove_at k ?ys else ?ys"
  note w = bs_wfD [OF wf]
  have off: "?off = n div ?s * ?s" by (simp add: bs_UlOffset_def)
  have mods: "n mod ?s < ?s" using w(1) by simp
  have sub: "bs_set bs - {n} \<subseteq> {..<ULONG_MOD}" using bs_set_lt [OF wf] by auto
  have bv: "bv_set ?bv = bv_set (m_pbv (?xs ! k)) - {n mod ?s}" "bv_wf ?bv" "m_cBits ?bv = ?s"
    using hit mods by (simp_all add: bv_simps)
  have empty: "bv_FEmpty ?bv \<longleftrightarrow> bv_set ?bv = {}" using bv(2) by (rule bv_FEmpty_set)
  have old: "bv_FBit (m_pbv (?xs ! k)) (n mod ?s) \<longleftrightarrow> n \<in> bs_set bs"
    using hit mods by (simp add: bv_FBit_set)
  have eq: "bs_FExchangeClear bs n = (n \<in> bs_set bs, bs\<lparr>m_bsllist := ?zs,
      m_cElements := (if n \<in> bs_set bs then ul_sub (m_cElements bs) 1 else m_cElements bs)\<rparr>)"
    using hit(1,2) old by (simp add: bs_FExchangeClear_def Let_def bs_offset split_beta bv_exchange_fst)
  have m: "links_sorted ?ys" "link_map ?ys = (link_map ?xs)(n div ?s * ?s \<mapsto> ?bv)"
    using update_link [OF w(3) hit(3)] hit(4) off by simp_all
  have r: "links_sorted (list_remove_at k ?ys)"
    "link_map (list_remove_at k ?ys) = (link_map ?xs)(n div ?s * ?s := None)"
    using remove_link [OF m(1), of k] hit(3,4) m(2) off by simp_all
  have zs: "links_sorted ?zs" "map_ok ?s (link_map ?zs)" "map_set ?s (link_map ?zs) = bs_set bs - {n}"
    using m r w hit(5) bv off empty
    by (auto simp: map_ok_upd map_ok_del map_set_delete map_set_delete_link bs_set_def)
  have "bv_set (m_pbv x) \<noteq> {}" if nrm: "bs_normal bs" and x: "x \<in> set ?zs" for x
  proof (cases "bv_FEmpty ?bv")
    case False
    then obtain i where i: "i < length ?xs" "x = ?ys ! i" using x by (auto simp: in_set_conv_nth)
    show ?thesis using i nrm False empty by (cases "i = k") (auto simp: bs_normal_def)
  next
    case True
    then have "x \<in> set ?xs" using x
      by (auto simp: list_remove_at_def dest: in_set_takeD in_set_dropD)
    then show ?thesis using nrm by (simp add: bs_normal_def)
  qed
  then show ?thesis
    unfolding eq using bs_wf_update [OF wf zs sub card_delete_count [OF wf]]
    by (auto simp: bs_normal_def)
qed

lemma bs_exchange [bs_simps]:
  assumes "bs_wf bs"
  shows "n < ULONG_MOD \<Longrightarrow> bs_wf (snd (bs_FExchangeSet bs n))"
    "n < ULONG_MOD \<Longrightarrow> bs_set (snd (bs_FExchangeSet bs n)) = insert n (bs_set bs)"
    "bs_wf (snd (bs_FExchangeClear bs n))" "bs_set (snd (bs_FExchangeClear bs n)) = bs_set bs - {n}"
    "n < ULONG_MOD \<Longrightarrow> m_cSizeBits (snd (bs_FExchangeSet bs n)) = m_cSizeBits bs"
    "m_cSizeBits (snd (bs_FExchangeClear bs n)) = m_cSizeBits bs"
  using bs_FExchangeSet_full [OF assms] bs_FExchangeClear_full [OF assms] by blast+

subsection \<open>The passes over two link lists\<close>

text \<open>
  Every pass locates the links of one list in the other, keeping the cursor.  As the offsets
  increase, the cursor found for one link may start the search for all later ones.
\<close>

definition starts :: "bslink list \<Rightarrow> nat option \<Rightarrow> bslink list \<Rightarrow> bool" where
  "starts xs c ls \<longleftrightarrow> (\<forall>l \<in> set ls. start_ok xs c (m_ulOffset l))"

lemma starts_None [simp]: "starts xs None ls"
  by (simp add: starts_def)

lemma starts_step:
  assumes "links_sorted xs" "links_sorted (l # ls)" "starts xs c (l # ls)"
  shows "located xs (m_ulOffset l) (PbslLocate xs (m_ulOffset l) c)"
    "starts xs (PbslLocate xs (m_ulOffset l) c) ls"
proof -
  show loc: "located xs (m_ulOffset l) (PbslLocate xs (m_ulOffset l) c)"
    using assms by (intro PbslLocate_located) (simp_all add: starts_def)
  then show "starts xs (PbslLocate xs (m_ulOffset l) c) ls"
    using assms(2) by (auto simp: starts_def intro: located_start_ok order.strict_implies_order)
qed

lemma pass_match:
  assumes "links_sorted xs" "links_sorted (l # ls)" "starts xs c (l # ls)"
  shows "bsl_match xs (PbslLocate xs (m_ulOffset l) c) (m_ulOffset l) \<longleftrightarrow> m_ulOffset l \<in> dom (link_map xs)"
    "m_ulOffset l \<in> dom (link_map xs) \<Longrightarrow>
       link_map xs (m_ulOffset l) = Some (m_pbv (xs ! the (PbslLocate xs (m_ulOffset l) c)))"
proof -
  note loc = starts_step(1) [OF assms]
  show m: "bsl_match xs (PbslLocate xs (m_ulOffset l) c) (m_ulOffset l) \<longleftrightarrow> m_ulOffset l \<in> dom (link_map xs)"
    by (rule located_match [OF assms(1) loc])
  show "m_ulOffset l \<in> dom (link_map xs) \<Longrightarrow>
       link_map xs (m_ulOffset l) = Some (m_pbv (xs ! the (PbslLocate xs (m_ulOffset l) c)))"
    using match_the [OF assms(1) loc] m by fastforce
qed

lemma missing_links_filter:
  assumes "links_sorted xs" "links_sorted others" "starts xs c others"
  shows "missing_links xs c others = map bsl_copy (filter (\<lambda>l. m_ulOffset l \<notin> dom (link_map xs)) others)"
  using assms
proof (induction others arbitrary: c)
  case (Cons l ls)
  then show ?case
    using pass_match(1) [OF Cons.prems] starts_step(2) [OF Cons.prems] by (simp add: Let_def)
qed simp

lemma unite_links_map:
  assumes "links_sorted others" "links_sorted xs" "starts others c xs"
  shows "unite_links others c xs
       = map (\<lambda>l. l\<lparr>m_pbv := (case link_map others (m_ulOffset l) of None \<Rightarrow> m_pbv l
                                | Some b \<Rightarrow> bv_Union (m_pbv l) b)\<rparr>) xs"
  using assms
proof (induction xs arbitrary: c)
  case (Cons l ls)
  then show ?case
    using pass_match [OF Cons.prems] starts_step(2) [OF Cons.prems]
    by (auto simp: Let_def domIff split: option.splits)
qed simp

lemma intersect_links_map:
  assumes "links_sorted others" "links_sorted xs" "starts others c xs"
  shows "intersect_links others c xs
       = map (\<lambda>l. l\<lparr>m_pbv := bv_Intersection (m_pbv l) (the (link_map others (m_ulOffset l)))\<rparr>)
           (filter (\<lambda>l. m_ulOffset l \<in> dom (link_map others)) xs)"
  using assms
proof (induction xs arbitrary: c)
  case (Cons l ls)
  then show ?case
    using pass_match [OF Cons.prems] starts_step(2) [OF Cons.prems] by (auto simp: Let_def)
qed simp

lemma subset_links_iff:
  assumes "links_sorted xs" "links_sorted others" "starts xs c others"
  shows "subset_links xs c others
     \<longleftrightarrow> (\<forall>l \<in> set others. \<exists>b. link_map xs (m_ulOffset l) = Some b \<and> bv_FSubset b (m_pbv l))"
  using assms
proof (induction others arbitrary: c)
  case (Cons l ls)
  then show ?case
    using pass_match [OF Cons.prems] starts_step(2) [OF Cons.prems]
    by (cases "m_ulOffset l \<in> dom (link_map xs)") (simp_all add: Let_def domIff)
qed simp

lemma disjoint_links_iff:
  assumes "links_sorted xs" "links_sorted others" "starts xs c others"
  shows "disjoint_links xs c others
     \<longleftrightarrow> (\<forall>l \<in> set others. \<forall>b. link_map xs (m_ulOffset l) = Some b \<longrightarrow> bv_FDisjoint b (m_pbv l))"
  using assms
proof (induction others arbitrary: c)
  case (Cons l ls)
  then show ?case
    using pass_match [OF Cons.prems] starts_step(2) [OF Cons.prems]
    by (cases "m_ulOffset l \<in> dom (link_map xs)") (simp_all add: Let_def domIff)
qed simp

text \<open>Inserting the missing links: the cursor stays valid under insertion after it.\<close>

lemma insert_links_spec:
  assumes "links_sorted xs" "links_sorted new" "starts xs c new"
    "\<forall>l \<in> set new. m_ulOffset l \<notin> dom (link_map xs)"
  shows "links_sorted (insert_links xs c new) \<and> link_map (insert_links xs c new) = link_map xs ++ link_map new"
  using assms
proof (induction new arbitrary: xs c)
  case Nil
  then show ?case by simp
next
  case (Cons l ls)
  let ?r = "PbslLocate xs (m_ulOffset l) c"
  let ?xs = "case ?r of None \<Rightarrow> l # xs | Some k \<Rightarrow> list_insert_after k l xs"
  note loc = starts_step [OF Cons.prems(1-3)]
  have notin: "m_ulOffset l \<notin> set (offsets xs)" using Cons.prems(4) by (simp add: dom_link_map)
  have ys: "links_sorted ?xs \<and> link_map ?xs = (link_map xs)(m_ulOffset l \<mapsto> m_pbv l) \<and> starts ?xs ?r ls"
  proof (cases ?r)
    case None
    then show ?thesis using loc Cons.prems(1) by (simp add: located_def)
  next
    case (Some k)
    then have "starts (list_insert_after k l xs) (Some k) ls"
      using loc(2) by (auto simp: starts_def start_ok_def list_insert_after_def nth_append)
    then show ?thesis
      using Some loc(1) notin insert_after_links [OF Cons.prems(1), of l k] by simp
  qed
  have eq: "insert_links xs c (l # ls) = insert_links ?xs ?r ls"
    by (simp add: Let_def split: option.splits)
  have "\<forall>x \<in> set ls. m_ulOffset x \<notin> dom (link_map ?xs)"
    using ys Cons.prems(2,4) by auto
  then have IH: "links_sorted (insert_links ?xs ?r ls) \<and> link_map (insert_links ?xs ?r ls) = link_map ?xs ++ link_map ls"
    using Cons.IH ys Cons.prems(2) by (meson links_sorted_Cons)
  have "m_ulOffset l \<notin> dom (link_map ls)" using Cons.prems(2) by (auto simp: dom_link_map)
  then have "(link_map xs)(m_ulOffset l \<mapsto> m_pbv l) ++ link_map ls = link_map xs ++ link_map (l # ls)"
    by (metis link_map_Cons map_add_upd map_add_upd_left)
  then show ?case
    unfolding eq using IH ys by metis
qed

text \<open>Lists of links whose vectors are mapped, and filtered by offset.\<close>

lemma links_map_upd:
  "links_sorted (map (\<lambda>l. l\<lparr>m_pbv := g (m_ulOffset l) (m_pbv l)\<rparr>) xs) \<longleftrightarrow> links_sorted xs"
  by (induction xs) auto

lemma link_map_map_upd:
  "link_map (map (\<lambda>l. l\<lparr>m_pbv := g (m_ulOffset l) (m_pbv l)\<rparr>) xs) off = map_option (g off) (link_map xs off)"
  by (induction xs) auto

lemma links_sorted_filter: "links_sorted xs \<Longrightarrow> links_sorted (filter P xs)"
  by (induction xs) auto

lemma link_map_filter:
  "link_map (filter (\<lambda>l. P (m_ulOffset l)) xs) off = (if P off then link_map xs off else None)"
  by (induction xs) auto

lemma map_bsl_copy:
  assumes "\<forall>l \<in> set xs. bv_wf (m_pbv l)"
  shows "map bsl_copy xs = xs"
  using assms by (induction xs) (auto simp: bsl_copy_def bv_copy_id)

lemma link_wf:
  assumes "links_ok s xs" "l \<in> set xs"
  shows "bv_wf (m_pbv l)" "m_cBits (m_pbv l) = s" "s dvd m_ulOffset l"
    "link_map xs (m_ulOffset l) = Some (m_pbv l)"
proof -
  show m: "link_map xs (m_ulOffset l) = Some (m_pbv l)"
    using assms by (simp add: links_ok_def link_map_mem)
  show "bv_wf (m_pbv l)" "m_cBits (m_pbv l) = s" "s dvd m_ulOffset l"
    using assms(1) map_okD [of s "link_map xs" "m_ulOffset l"] m by (auto simp: links_ok_def)
qed

subsection \<open>Set operations\<close>

text \<open>Two bit sets are compatible when their links have one size.\<close>

definition bs_compat :: "bitset \<Rightarrow> bitset \<Rightarrow> bool" where
  "bs_compat bs other \<longleftrightarrow> bs_wf bs \<and> bs_wf other \<and> m_cSizeBits bs = m_cSizeBits other"

lemma bs_compatD:
  assumes "bs_compat bs other"
  shows "bs_wf bs" "bs_wf other" "m_cSizeBits other = m_cSizeBits bs"
    "links_ok (m_cSizeBits bs) (m_bsllist bs)" "links_ok (m_cSizeBits bs) (m_bsllist other)"
    "links_sorted (m_bsllist bs)" "links_sorted (m_bsllist other)"
  using assms bs_wfD(3,6) [of bs] bs_wfD(3,6) [of other] by (simp_all add: bs_compat_def)

lemma bs_mem: "n \<in> bs_set bs \<longleftrightarrow>
    (\<exists>bv. link_map (m_bsllist bs) (n div m_cSizeBits bs * m_cSizeBits bs) = Some bv \<and> n mod m_cSizeBits bs \<in> bv_set bv)"
  by (simp add: bs_set_def map_set_def)

lemma union_links_map:
  assumes "bs_compat bs other"
  defines "xs \<equiv> unite_links (m_bsllist other) None
     (insert_links (m_bsllist bs) None (missing_links (m_bsllist bs) None (m_bsllist other)))"
  shows "links_sorted xs \<and> link_map xs off = (case link_map (m_bsllist bs) off of
      Some a \<Rightarrow> (case link_map (m_bsllist other) off of None \<Rightarrow> Some a | Some b \<Rightarrow> Some (bv_Union a b))
    | None \<Rightarrow> (case link_map (m_bsllist other) off of None \<Rightarrow> None | Some b \<Rightarrow> Some (bv_Union b b)))"
proof -
  let ?as = "m_bsllist bs" and ?bs = "m_bsllist other"
  note c = bs_compatD [OF assms(1)]
  let ?new = "filter (\<lambda>l. m_ulOffset l \<notin> dom (link_map ?as)) ?bs"
  have new: "missing_links ?as None ?bs = ?new"
    using c link_wf(1) [OF c(5)] by (simp add: missing_links_filter map_bsl_copy)
  have ins: "links_sorted (insert_links ?as None ?new) \<and> link_map (insert_links ?as None ?new) = link_map ?as ++ link_map ?new"
    using c by (intro insert_links_spec) (auto simp: links_sorted_filter)
  have xs: "xs = map (\<lambda>l. l\<lparr>m_pbv := (case link_map ?bs (m_ulOffset l) of None \<Rightarrow> m_pbv l
                                | Some b \<Rightarrow> bv_Union (m_pbv l) b)\<rparr>) (insert_links ?as None ?new)"
    unfolding xs_def new using ins c(7) by (intro unite_links_map) auto
  have "links_sorted xs" unfolding xs
    using ins links_map_upd [of "\<lambda>off a. case link_map ?bs off of None \<Rightarrow> a | Some b \<Rightarrow> bv_Union a b"] by blast
  moreover have "link_map xs off = map_option (\<lambda>a. case link_map ?bs off of None \<Rightarrow> a | Some b \<Rightarrow> bv_Union a b)
      ((link_map ?as ++ link_map ?new) off)"
    unfolding xs link_map_map_upd [of "\<lambda>off a. case link_map ?bs off of None \<Rightarrow> a | Some b \<Rightarrow> bv_Union a b"]
    using ins by simp
  moreover have "link_map ?new off = (if off \<notin> dom (link_map ?as) then link_map ?bs off else None)"
    by (rule link_map_filter)
  ultimately show ?thesis
    by (auto simp: map_add_def domIff simp del: not_None_eq split: option.splits)
qed

lemma bs_Union_full:
  assumes "bs_compat bs other"
  shows "bs_wf (bs_Union bs other) \<and> bs_set (bs_Union bs other) = bs_set bs \<union> bs_set other
    \<and> m_cSizeBits (bs_Union bs other) = m_cSizeBits bs"
proof -
  let ?s = "m_cSizeBits bs"
  define xs where "xs = unite_links (m_bsllist other) None
     (insert_links (m_bsllist bs) None (missing_links (m_bsllist bs) None (m_bsllist other)))"
  note c = bs_compatD [OF assms] and m = union_links_map [OF assms, folded xs_def]
  have a: "map_ok ?s (link_map (m_bsllist bs))" and b: "map_ok ?s (link_map (m_bsllist other))"
    using c(4,5) by (simp_all add: links_ok_def)
  have ok: "map_ok ?s (link_map xs)"
    unfolding map_ok_def using map_okD [OF a] map_okD [OF b] m
    by (auto simp: bv_simps split: option.splits)
  have val: "map_set ?s (link_map xs) = bs_set bs \<union> bs_set other"
  proof (intro set_eqI)
    fix n
    have sz: "m_cSizeBits other = ?s" using c(3) .
    show "n \<in> map_set ?s (link_map xs) \<longleftrightarrow> n \<in> bs_set bs \<union> bs_set other"
    proof (cases "link_map (m_bsllist bs) (n div ?s * ?s)")
      case None
      then show ?thesis
        using m [of "n div ?s * ?s"] map_okD [OF b, of "n div ?s * ?s"]
        by (cases "link_map (m_bsllist other) (n div ?s * ?s)")
          (simp_all add: bs_mem sz map_set_def bv_set_binop)
    next
      case (Some p)
      then show ?thesis
        using m [of "n div ?s * ?s"] map_okD [OF a, of "n div ?s * ?s" p] map_okD [OF b, of "n div ?s * ?s"]
        by (cases "link_map (m_bsllist other) (n div ?s * ?s)")
          (simp_all add: bs_mem sz map_set_def bv_set_binop)
    qed
  qed
  have "bs_set bs \<union> bs_set other \<subseteq> {..<ULONG_MOD}"
    using bs_set_lt [OF c(1)] bs_set_lt [OF c(2)] by blast
  then have "links_ok ?s xs"
    using conjunct1 [OF m] ok val c(4) by (simp add: links_ok_def)
  then show ?thesis
    using bs_wf_recompute [of bs xs] val by (simp add: bs_Union_def Let_def xs_def)
qed

lemma bs_Intersection_full:
  assumes "bs_compat bs other"
  shows "bs_wf (bs_Intersection bs other) \<and> bs_set (bs_Intersection bs other) = bs_set bs \<inter> bs_set other
    \<and> m_cSizeBits (bs_Intersection bs other) = m_cSizeBits bs"
proof -
  let ?s = "m_cSizeBits bs" and ?g = "\<lambda>off a. bv_Intersection a (the (link_map (m_bsllist other) off))"
  let ?ys = "filter (\<lambda>l. m_ulOffset l \<in> dom (link_map (m_bsllist other))) (m_bsllist bs)"
  define xs where "xs = intersect_links (m_bsllist other) None (m_bsllist bs)"
  note c = bs_compatD [OF assms]
  have a: "map_ok ?s (link_map (m_bsllist bs))" and b: "map_ok ?s (link_map (m_bsllist other))"
    using c(4,5) by (simp_all add: links_ok_def)
  have xs: "xs = map (\<lambda>l. l\<lparr>m_pbv := ?g (m_ulOffset l) (m_pbv l)\<rparr>) ?ys"
    unfolding xs_def using c by (intro intersect_links_map) auto
  have sorted: "links_sorted xs"
    unfolding xs links_map_upd [of ?g] using c(6) by (rule links_sorted_filter)
  have m: "link_map xs off = (case link_map (m_bsllist bs) off of None \<Rightarrow> None
      | Some p \<Rightarrow> map_option (bv_Intersection p) (link_map (m_bsllist other) off))" for off
    unfolding xs link_map_map_upd [of ?g] link_map_filter [of "\<lambda>off. off \<in> dom (link_map (m_bsllist other))"]
    by (auto simp: domIff split: option.splits)
  have ok: "map_ok ?s (link_map xs)"
    unfolding map_ok_def using map_okD [OF a] map_okD [OF b] m
    by (auto simp: bv_simps split: option.splits)
  have val: "map_set ?s (link_map xs) = bs_set bs \<inter> bs_set other"
  proof (intro set_eqI)
    fix n
    show "n \<in> map_set ?s (link_map xs) \<longleftrightarrow> n \<in> bs_set bs \<inter> bs_set other"
      using m [of "n div ?s * ?s"] map_okD [OF a, of "n div ?s * ?s"] map_okD [OF b, of "n div ?s * ?s"]
      unfolding Int_iff bs_mem c(3) map_set_def
      by (auto simp: bv_set_binop split: option.splits)
  qed
  have "bs_set bs \<inter> bs_set other \<subseteq> {..<ULONG_MOD}"
    using bs_set_lt [OF c(1)] by blast
  then have "links_ok ?s xs"
    using sorted ok val c(4) by (simp add: links_ok_def)
  then show ?thesis
    using bs_wf_recompute [of bs xs] val by (simp add: bs_Intersection_def xs_def)
qed

subsection \<open>The tests\<close>

lemma bs_mem_link:
  "bs_wf bs \<Longrightarrow> n \<in> bs_set bs \<longleftrightarrow> (\<exists>l \<in> set (m_bsllist bs). \<exists>k \<in> bv_set (m_pbv l). n = m_ulOffset l + k)"
proof
  assume wf: "bs_wf bs" and "n \<in> bs_set bs"
  then obtain bv where bv: "link_map (m_bsllist bs) (n div m_cSizeBits bs * m_cSizeBits bs) = Some bv"
    "n mod m_cSizeBits bs \<in> bv_set bv" by (auto simp: bs_mem)
  moreover have "n = n div m_cSizeBits bs * m_cSizeBits bs + n mod m_cSizeBits bs" by simp
  ultimately show "\<exists>l \<in> set (m_bsllist bs). \<exists>k \<in> bv_set (m_pbv l). n = m_ulOffset l + k"
    using link_map_Some [OF bs_wfD(3) [OF wf]] by metis
next
  assume wf: "bs_wf bs" and "\<exists>l \<in> set (m_bsllist bs). \<exists>k \<in> bv_set (m_pbv l). n = m_ulOffset l + k"
  then obtain l k where l: "l \<in> set (m_bsllist bs)" "k \<in> bv_set (m_pbv l)" "n = m_ulOffset l + k" by blast
  then show "n \<in> bs_set bs"
    unfolding bs_set_def l(3)
    using map_set_shift [OF bs_wfD(4) [OF wf] link_wf(4) [OF bs_wfD(6) [OF wf] l(1)]] by blast
qed

text \<open>What a link of \<open>other\<close> says about the sets, link by link.\<close>

lemma link_elements:
  assumes "bs_compat bs other" "l \<in> set (m_bsllist other)" "k \<in> bv_set (m_pbv l)"
  shows "m_ulOffset l + k \<in> bs_set bs
     \<longleftrightarrow> (\<exists>b. link_map (m_bsllist bs) (m_ulOffset l) = Some b \<and> k \<in> bv_set b)"
proof -
  note c = bs_compatD [OF assms(1)]
  have "k < m_cSizeBits bs" using link_wf [OF c(5) assms(2)] bv_set_bound assms(3) by metis
  then have "(m_ulOffset l + k) div m_cSizeBits bs * m_cSizeBits bs = m_ulOffset l"
    "(m_ulOffset l + k) mod m_cSizeBits bs = k"
    using link_wf(3) [OF c(5) assms(2)] by (auto elim!: dvdE)
  then show ?thesis by (simp add: bs_mem)
qed

lemma link_pair:
  assumes "bs_compat bs other" "l \<in> set (m_bsllist other)" "link_map (m_bsllist bs) (m_ulOffset l) = Some b"
  shows "bv_wf b" "bv_wf (m_pbv l)" "m_cBits b = m_cBits (m_pbv l)"
  using bs_compatD(4,5) [OF assms(1)] link_wf(1,2) [of "m_cSizeBits bs", OF _ assms(2)]
    map_okD [of "m_cSizeBits bs" "link_map (m_bsllist bs)" "m_ulOffset l" b] assms(3)
  by (simp_all add: links_ok_def)

lemma subset_links_sound:
  assumes "bs_compat bs other" "subset_links (m_bsllist bs) None (m_bsllist other)"
  shows "bs_set other \<subseteq> bs_set bs"
proof
  note c = bs_compatD [OF assms(1)]
  fix n assume "n \<in> bs_set other"
  then obtain l k where l: "l \<in> set (m_bsllist other)" "k \<in> bv_set (m_pbv l)" "n = m_ulOffset l + k"
    unfolding bs_mem_link [OF c(2)] by blast
  obtain b where b: "link_map (m_bsllist bs) (m_ulOffset l) = Some b" "bv_FSubset b (m_pbv l)"
    using assms(2) l(1) c by (auto simp: subset_links_iff)
  then show "n \<in> bs_set bs"
    using l link_elements [OF assms(1) l(1,2)] link_pair [OF assms(1) l(1)] bv_FSubset_set by blast
qed

lemma subset_links_complete:
  assumes "bs_compat bs other" "bs_normal other" "bs_set other \<subseteq> bs_set bs"
  shows "subset_links (m_bsllist bs) None (m_bsllist other)"
proof -
  note c = bs_compatD [OF assms(1)]
  have "\<exists>b. link_map (m_bsllist bs) (m_ulOffset l) = Some b \<and> bv_FSubset b (m_pbv l)"
    if l: "l \<in> set (m_bsllist other)" for l
  proof -
    have in_bs: "m_ulOffset l + k \<in> bs_set bs" if "k \<in> bv_set (m_pbv l)" for k
      using that l assms(3) bs_mem_link [OF c(2)] by blast
    obtain k where k: "k \<in> bv_set (m_pbv l)" using assms(2) l by (auto simp: bs_normal_def)
    then obtain b where b: "link_map (m_bsllist bs) (m_ulOffset l) = Some b"
      using link_elements [OF assms(1) l k] in_bs by blast
    have "bv_set (m_pbv l) \<subseteq> bv_set b"
      using link_elements [OF assms(1) l] in_bs b by fastforce
    then show ?thesis using b bv_FSubset_set [OF link_pair [OF assms(1) l b]] by blast
  qed
  then show ?thesis using c by (simp add: subset_links_iff)
qed

lemma bs_FSubset_sound:
  "bs_compat bs other \<Longrightarrow> bs_FSubset bs other \<Longrightarrow> bs_set other \<subseteq> bs_set bs"
  using subset_links_sound by (simp add: bs_FSubset_def split: if_splits)

lemma bs_FSubset_complete:
  assumes "bs_compat bs other" "bs_normal other" "bs_set other \<subseteq> bs_set bs" "card (bs_set bs) < ULONG_MOD"
  shows "bs_FSubset bs other"
proof -
  note c = bs_compatD [OF assms(1)]
  have "card (bs_set other) \<le> card (bs_set bs)"
    using assms(3) finite_bs_set [OF c(1)] by (simp add: card_mono)
  then have "\<not> m_cElements bs < m_cElements other"
    using assms(4) bs_wfD(5) [OF c(1)] bs_wfD(5) [OF c(2)] by simp
  then show ?thesis
    using subset_links_complete [OF assms(1-3)] by (simp add: bs_FSubset_def)
qed

lemma bs_FDisjoint_set [bs_simps]:
  assumes "bs_compat bs other"
  shows "bs_FDisjoint bs other \<longleftrightarrow> bs_set bs \<inter> bs_set other = {}"
proof -
  note c = bs_compatD [OF assms]
  have eq: "bv_FDisjoint b (m_pbv l) \<longleftrightarrow> bv_set b \<inter> bv_set (m_pbv l) = {}"
    if "l \<in> set (m_bsllist other)" "link_map (m_bsllist bs) (m_ulOffset l) = Some b" for l b
    by (rule bv_FDisjoint_set [OF link_pair [OF assms that]])
  have "bs_FDisjoint bs other \<longleftrightarrow>
      (\<forall>l \<in> set (m_bsllist other). \<forall>b. link_map (m_bsllist bs) (m_ulOffset l) = Some b \<longrightarrow> bv_FDisjoint b (m_pbv l))"
    using c by (simp add: bs_FDisjoint_def disjoint_links_iff)
  also have "\<dots> \<longleftrightarrow>
      (\<forall>l \<in> set (m_bsllist other). \<forall>b. link_map (m_bsllist bs) (m_ulOffset l) = Some b \<longrightarrow> bv_set b \<inter> bv_set (m_pbv l) = {})"
    using eq by blast
  also have "\<dots> \<longleftrightarrow> (\<forall>l \<in> set (m_bsllist other). \<forall>k \<in> bv_set (m_pbv l). m_ulOffset l + k \<notin> bs_set bs)"
    using link_elements [OF assms] by blast
  also have "\<dots> \<longleftrightarrow> bs_set bs \<inter> bs_set other = {}"
    unfolding disjoint_iff bs_mem_link [OF c(2)] by blast
  finally show ?thesis .
qed

subsection \<open>Equality and hash\<close>

lemma equal_links_sound: "equal_links xs ys \<Longrightarrow> offsets xs = offsets ys
    \<and> list_all2 (\<lambda>x y. bv_FEqual (m_pbv x) (m_pbv y)) xs ys"
  by (induction xs ys rule: equal_links.induct) (auto split: if_splits)

lemma equal_links_refl: "\<forall>l \<in> set xs. bv_wf (m_pbv l) \<Longrightarrow> equal_links xs xs"
  by (induction xs) (auto simp: bv_FEqual_set)

lemma bs_FEqual_sound:
  assumes "bs_compat bs other" "bs_FEqual False bs other"
  shows "bs_set bs = bs_set other"
proof -
  note c = bs_compatD [OF assms(1)]
  have e: "offsets (m_bsllist bs) = offsets (m_bsllist other)"
    "list_all2 (\<lambda>x y. bv_FEqual (m_pbv x) (m_pbv y)) (m_bsllist bs) (m_bsllist other)"
    using assms(2) equal_links_sound by (auto simp: bs_FEqual_def split: if_splits)
  have pair: "m_ulOffset (m_bsllist bs ! i) = m_ulOffset (m_bsllist other ! i)
      \<and> bv_set (m_pbv (m_bsllist bs ! i)) = bv_set (m_pbv (m_bsllist other ! i))"
    if "i < length (m_bsllist bs)" for i
  proof -
    have i: "i < length (m_bsllist other)" using that e(1) by (metis length_map)
    have o: "m_ulOffset (m_bsllist bs ! i) = m_ulOffset (m_bsllist other ! i)"
      using e(1) that i by (metis nth_map)
    have "bv_FEqual (m_pbv (m_bsllist bs ! i)) (m_pbv (m_bsllist other ! i))"
      using e(2) that by (simp add: list_all2_conv_all_nth)
    then show ?thesis
      using o bv_FEqual_set link_wf(1,2) [OF c(4) nth_mem [OF that]] link_wf(1,2) [OF c(5) nth_mem [OF i]] by metis
  qed
  have len: "length (m_bsllist bs) = length (m_bsllist other)" using e(1) by (metis length_map)
  have nth: "n \<in> bs_set x \<longleftrightarrow> (\<exists>i < length (m_bsllist x). \<exists>k \<in> bv_set (m_pbv (m_bsllist x ! i)).
      n = m_ulOffset (m_bsllist x ! i) + k)" if "bs_wf x" for x n
    unfolding bs_mem_link [OF that] by (metis in_set_conv_nth)
  show ?thesis
    using nth [OF c(1)] nth [OF c(2)] pair len by (intro set_eqI) (metis (no_types, lifting))
qed

text \<open>Normal sets with the same elements have the same links.\<close>

lemma normal_dom:
  assumes "bs_wf bs" "bs_normal bs"
  shows "off \<in> set (offsets (m_bsllist bs)) \<longleftrightarrow> (\<exists>n \<in> bs_set bs. n div m_cSizeBits bs * m_cSizeBits bs = off)"
proof
  assume "off \<in> set (offsets (m_bsllist bs))"
  then obtain l where l: "l \<in> set (m_bsllist bs)" "m_ulOffset l = off" by auto
  then obtain k where k: "k \<in> bv_set (m_pbv l)" using assms(2) by (auto simp: bs_normal_def)
  note lw = link_wf [OF bs_wfD(6) [OF assms(1)] l(1)]
  have "k < m_cSizeBits bs" using lw bv_set_bound k by metis
  then have "(off + k) div m_cSizeBits bs * m_cSizeBits bs = off" using lw(3) l(2) by (auto elim!: dvdE)
  moreover have "off + k \<in> bs_set bs" using bs_mem_link [OF assms(1)] l k by blast
  ultimately show "\<exists>n \<in> bs_set bs. n div m_cSizeBits bs * m_cSizeBits bs = off" by blast
next
  assume "\<exists>n \<in> bs_set bs. n div m_cSizeBits bs * m_cSizeBits bs = off"
  then show "off \<in> set (offsets (m_bsllist bs))"
    unfolding dom_link_map [symmetric] by (auto simp: bs_mem)
qed

lemma normal_unique:
  assumes "bs_compat bs other" "bs_normal bs" "bs_normal other" "bs_set bs = bs_set other"
  shows "m_bsllist bs = m_bsllist other"
proof -
  note c = bs_compatD [OF assms(1)]
  have "off \<in> set (offsets (m_bsllist bs)) \<longleftrightarrow> off \<in> set (offsets (m_bsllist other))" for off
    unfolding normal_dom [OF c(1) assms(2)] normal_dom [OF c(2) assms(3)] assms(4) c(3) ..
  then have "set (offsets (m_bsllist bs)) = set (offsets (m_bsllist other))" by blast
  then have offs: "offsets (m_bsllist bs) = offsets (m_bsllist other)"
    using c(6,7) strict_sorted_equal unfolding links_sorted_def by blast
  show ?thesis
  proof (rule nth_equalityI)
    show "length (m_bsllist bs) = length (m_bsllist other)" using offs by (metis length_map)
    fix i assume i: "i < length (m_bsllist bs)"
    then have j: "i < length (m_bsllist other)" using offs by (metis length_map)
    let ?x = "m_bsllist bs ! i" and ?y = "m_bsllist other ! i"
    have o: "m_ulOffset ?x = m_ulOffset ?y" using offs i j by (metis nth_map)
    note x = link_wf [OF c(4) nth_mem [OF i]] and y = link_wf [OF c(5) nth_mem [OF j]]
    have comp': "bs_compat other bs" using assms(1) by (auto simp: bs_compat_def)
    have "k \<in> bv_set (m_pbv ?x)" if k: "k \<in> bv_set (m_pbv ?y)" for k
    proof -
      have "m_ulOffset ?y + k \<in> bs_set bs"
        using assms(4) bs_mem_link [OF c(2)] nth_mem [OF j] k by blast
      then show ?thesis using link_elements [OF assms(1) nth_mem [OF j] k] x(4) o by auto
    qed
    moreover have "k \<in> bv_set (m_pbv ?y)" if k: "k \<in> bv_set (m_pbv ?x)" for k
    proof -
      have "m_ulOffset ?x + k \<in> bs_set other"
        using assms(4) bs_mem_link [OF c(1)] nth_mem [OF i] k by blast
      then show ?thesis using link_elements [OF comp' nth_mem [OF i] k] y(4) o by auto
    qed
    ultimately have "bv_set (m_pbv ?x) = bv_set (m_pbv ?y)" by blast
    then have "m_rgull (m_pbv ?x) = m_rgull (m_pbv ?y)" "m_cUnits (m_pbv ?x) = m_cUnits (m_pbv ?y)"
      using bv_eqI [OF x(1) y(1)] bv_same_sizeD [OF x(1) y(1)] x(2) y(2) by simp_all
    then have "m_pbv ?x = m_pbv ?y" using x(2) y(2) by simp
    then show "?x = ?y" using o by simp
  qed
qed

lemma bs_FEqual_complete:
  assumes "bs_compat bs other" "bs_normal bs" "bs_normal other" "bs_set bs = bs_set other"
  shows "bs_FEqual fSame bs other"
proof -
  note c = bs_compatD [OF assms(1)]
  have "equal_links (m_bsllist bs) (m_bsllist other)"
    using normal_unique [OF assms] equal_links_refl link_wf(1) [OF c(5)] by metis
  then show ?thesis
    using assms(4) bs_wfD(5) [OF c(1)] bs_wfD(5) [OF c(2)] by (simp add: bs_FEqual_def)
qed

lemma bs_UlHash_cong:
  "bs_compat bs other \<Longrightarrow> bs_normal bs \<Longrightarrow> bs_normal other \<Longrightarrow> bs_set bs = bs_set other
   \<Longrightarrow> bs_UlHash bs = bs_UlHash other"
  by (simp add: bs_UlHash_def normal_unique)

subsection \<open>The iterator enumerates the set in increasing order\<close>

declare advance_from.simps [simp del]

text \<open>Between two links there are no elements.\<close>

lemma links_gap:
  assumes "bs_wf bs" "i < j" "j < length (m_bsllist bs)" "k \<in> bv_set (m_pbv (m_bsllist bs ! i))"
  shows "m_ulOffset (m_bsllist bs ! i) + k < m_ulOffset (m_bsllist bs ! j)"
proof -
  let ?s = "m_cSizeBits bs" and ?a = "m_ulOffset (m_bsllist bs ! i)" and ?b = "m_ulOffset (m_bsllist bs ! j)"
  have i: "i < length (m_bsllist bs)" using assms by simp
  note li = link_wf [OF bs_wfD(6) [OF assms(1)] nth_mem [OF i]]
    and lj = link_wf [OF bs_wfD(6) [OF assms(1)] nth_mem [OF assms(3)]]
  have "k < ?s" using li bv_set_bound assms(4) by metis
  moreover have "?a < ?b" using links_sorted_nth_less [OF bs_wfD(3) [OF assms(1)] assms(2,3)] .
  moreover have "?s dvd ?b - ?a" using li(3) lj(3) by (rule dvd_diff_nat [rotated])
  ultimately show ?thesis using dvd_imp_le [of ?s "?b - ?a"] by simp
qed

lemma bs_mem_nth:
  "bs_wf bs \<Longrightarrow> n \<in> bs_set bs \<longleftrightarrow>
     (\<exists>i < length (m_bsllist bs). \<exists>k \<in> bv_set (m_pbv (m_bsllist bs ! i)). n = m_ulOffset (m_bsllist bs ! i) + k)"
  unfolding bs_mem_link by (metis in_set_conv_nth)

text \<open>\<open>lb\<close> is a lower bound of what is still to come; the first result is the least such element.\<close>

definition first_from :: "bitset \<Rightarrow> nat \<Rightarrow> nat \<times> nat option \<Rightarrow> bool" where
  "first_from bs lb r \<longleftrightarrow> (case r of
      (n, Some k) \<Rightarrow> k < length (m_bsllist bs) \<and> n \<in> bv_set (m_pbv (m_bsllist bs ! k))
         \<and> lb \<le> m_ulOffset (m_bsllist bs ! k) + n
         \<and> (\<forall>m \<in> bs_set bs. lb \<le> m \<longrightarrow> m_ulOffset (m_bsllist bs ! k) + n \<le> m)
    | (n, None) \<Rightarrow> \<forall>m \<in> bs_set bs. m < lb)"

lemma first_from_mono:
  assumes "first_from bs lb' r" "lb \<le> lb'" "\<forall>m \<in> bs_set bs. lb \<le> m \<longrightarrow> lb' \<le> m"
  shows "first_from bs lb r"
  using assms unfolding first_from_def by (cases r) (fastforce split: option.splits)

lemma next_link_bound:
  assumes wf: "bs_wf bs" and k: "k < length (m_bsllist bs)"
    and none: "\<forall>n \<in> bv_set (m_pbv (m_bsllist bs ! k)). n < st" and m: "m \<in> bs_set bs"
    and ge: "m_ulOffset (m_bsllist bs ! k) + st \<le> m"
  obtains j i where "k < j" "j < length (m_bsllist bs)" "i \<in> bv_set (m_pbv (m_bsllist bs ! j))"
    "m = m_ulOffset (m_bsllist bs ! j) + i"
proof -
  obtain j i where j: "j < length (m_bsllist bs)" "i \<in> bv_set (m_pbv (m_bsllist bs ! j))"
    "m = m_ulOffset (m_bsllist bs ! j) + i"
    using m unfolding bs_mem_nth [OF wf] by blast
  have "\<not> j < k" using links_gap [OF wf _ k j(2)] ge j(3) by fastforce
  moreover have "j \<noteq> k" using none ge j by fastforce
  ultimately have "k < j" by simp
  then show ?thesis using that j by blast
qed

lemma advance_from_first:
  assumes wf: "bs_wf bs" and "k < length (m_bsllist bs)" and "ul_add cursor 1 \<le> m_cSizeBits bs"
  shows "first_from bs (m_ulOffset (m_bsllist bs ! k) + ul_add cursor 1) (advance_from bs cursor (Some k))"
  using assms(2,3)
proof (induction "length (m_bsllist bs) - k" arbitrary: k cursor rule: less_induct)
  case less
  let ?xs = "m_bsllist bs" and ?st = "ul_add cursor 1"
  show ?case
  proof (cases "bv_FNextBit (m_pbv (?xs ! k)) ?st")
    case (Some n)
    note nx = bv_FNextBit_Some [OF Some]
    have "m_ulOffset (?xs ! k) + n \<le> m" if m: "m \<in> bs_set bs" "m_ulOffset (?xs ! k) + ?st \<le> m" for m
    proof -
      obtain j i where j: "j < length ?xs" "i \<in> bv_set (m_pbv (?xs ! j))" "m = m_ulOffset (?xs ! j) + i"
        using m(1) unfolding bs_mem_nth [OF wf] by blast
      consider "j < k" | "j = k" | "k < j" by linarith
      then show ?thesis
      proof cases
        case 1
        then show ?thesis using links_gap [OF wf _ less.prems(1) j(2)] m(2) j(3) by fastforce
      next
        case 2
        then show ?thesis using nx j m(2) by auto
      next
        case 3
        then show ?thesis using links_gap [OF wf 3 j(1), of n] nx j(3) by simp
      qed
    qed
    then show ?thesis
      using Some less.prems nx by (simp add: first_from_def advance_from.simps [of bs cursor])
  next
    case None
    then have none: "\<forall>n \<in> bv_set (m_pbv (?xs ! k)). n < ?st" by (simp add: bv_FNextBit_None)
    have eq: "advance_from bs cursor (Some k) = advance_from bs ULONG_MAX (link_index ?xs (k + 1))"
      using None less.prems by (simp add: advance_from.simps [of bs cursor])
    show ?thesis
    proof (cases "k + 1 < length ?xs")
      case True
      have z: "ul_add ULONG_MAX 1 = 0" by (simp add: ul_add_def ULONG_MAX_def)
      have "first_from bs (m_ulOffset (?xs ! (k + 1)) + ul_add ULONG_MAX 1) (advance_from bs ULONG_MAX (Some (k + 1)))"
        using less.hyps [of "k + 1" ULONG_MAX] True z less.prems(1) by simp
      then have f: "first_from bs (m_ulOffset (?xs ! (k + 1))) (advance_from bs cursor (Some k))"
        using True unfolding eq z by (simp add: link_index_def)
      have up: "m_ulOffset (?xs ! (k + 1)) \<le> m" if m: "m \<in> bs_set bs" "m_ulOffset (?xs ! k) + ?st \<le> m" for m
      proof -
        obtain j i where j: "k < j" "j < length ?xs" "m = m_ulOffset (?xs ! j) + i"
          using next_link_bound [OF wf less.prems(1) none m] by blast
        then show ?thesis
          using links_sorted_nth_less [OF bs_wfD(3) [OF wf], of "k + 1" j] by (cases "j = k + 1") auto
      qed
      have "m_ulOffset (?xs ! k) + ?st \<le> m_ulOffset (?xs ! (k + 1))"
      proof -
        have "m_ulOffset (?xs ! k) < m_ulOffset (?xs ! (k + 1))"
          using links_sorted_nth_less [OF bs_wfD(3) [OF wf] _ True] by simp
        moreover have "m_cSizeBits bs dvd m_ulOffset (?xs ! (k + 1)) - m_ulOffset (?xs ! k)"
          using link_wf(3) [OF bs_wfD(6) [OF wf] nth_mem [OF True]] link_wf(3) [OF bs_wfD(6) [OF wf] nth_mem [OF less.prems(1)]]
          by (rule dvd_diff_nat)
        ultimately show ?thesis
          using dvd_imp_le [of "m_cSizeBits bs" "m_ulOffset (?xs ! (k + 1)) - m_ulOffset (?xs ! k)"] less.prems(2)
          by simp
      qed
      then show ?thesis using first_from_mono [OF f] up by blast
    next
      case False
      have "m < m_ulOffset (?xs ! k) + ?st" if "m \<in> bs_set bs" for m
        using next_link_bound [OF wf less.prems(1) none that] False by (metis Suc_eq_plus1 Suc_leI not_le le_less_trans)
      then show ?thesis
        unfolding eq using False by (simp add: link_index_def first_from_def advance_from.simps)
    qed
  qed
qed

text \<open>An iterator is before the first element or on an element; what it has still to visit.\<close>

definition bsi_ok :: "bitset \<Rightarrow> bsiter \<Rightarrow> bool" where
  "bsi_ok bs it \<longleftrightarrow> (case m_pbsl it of None \<Rightarrow> m_ulCursor it = ULONG_MAX
     | Some k \<Rightarrow> k < length (m_bsllist bs) \<and> m_ulCursor it \<in> bv_set (m_pbv (m_bsllist bs ! k)))"

definition bsi_rest :: "bitset \<Rightarrow> bsiter \<Rightarrow> nat set" where
  "bsi_rest bs it = {n \<in> bs_set bs. case m_pbsl it of None \<Rightarrow> True
     | Some k \<Rightarrow> m_ulOffset (m_bsllist bs ! k) + m_ulCursor it < n}"

lemma bsi_new_ok [simp]: "bsi_ok bs bsi_new" "bsi_rest bs bsi_new = bs_set bs"
  by (simp_all add: bsi_ok_def bsi_new_def bsi_rest_def)

lemma finite_bsi_rest: "bs_wf bs \<Longrightarrow> finite (bsi_rest bs it)"
  using finite_bs_set finite_subset unfolding bsi_rest_def by (metis (no_types, lifting) mem_Collect_eq subsetI)

lemma bsi_cursor:
  assumes "bs_wf bs" "k < length (m_bsllist bs)" "n \<in> bv_set (m_pbv (m_bsllist bs ! k))"
  shows "ul_add n 1 = n + 1" "n + 1 \<le> m_cSizeBits bs"
    "ul_add (m_ulOffset (m_bsllist bs ! k)) n = m_ulOffset (m_bsllist bs ! k) + n"
proof -
  have "n < m_cSizeBits bs"
    using link_wf(1,2) [OF bs_wfD(6) [OF assms(1)] nth_mem [OF assms(2)]] bv_set_bound assms(3) by metis
  then show "n + 1 \<le> m_cSizeBits bs" "ul_add n 1 = n + 1"
    using bs_wfD(2) [OF assms(1)] by (simp_all add: ul_add_exact)
  have "m_ulOffset (m_bsllist bs ! k) + n \<in> bs_set bs"
    using assms by (auto simp: bs_mem_nth)
  then show "ul_add (m_ulOffset (m_bsllist bs ! k)) n = m_ulOffset (m_bsllist bs ! k) + n"
    using bs_set_lt [OF assms(1)] by (simp add: ul_add_exact)
qed

lemma first_from_step:
  assumes wf: "bs_wf bs" and f: "first_from bs lb (n, p)" and lb: "bsi_rest bs it = {m \<in> bs_set bs. lb \<le> m}"
  defines "it' \<equiv> \<lparr>m_ulCursor = n, m_pbsl = p, m_fActive = (p \<noteq> None)\<rparr>"
  shows "if p \<noteq> None then bsi_ok bs it' \<and> bsi_UlBit bs it' \<in> bsi_rest bs it
       \<and> (\<forall>m \<in> bsi_rest bs it. bsi_UlBit bs it' \<le> m) \<and> bsi_rest bs it' = bsi_rest bs it - {bsi_UlBit bs it'}
     else bsi_rest bs it = {}"
proof (cases p)
  case None
  then show ?thesis using f lb by (auto simp: first_from_def)
next
  case (Some k)
  then have k: "k < length (m_bsllist bs)" "n \<in> bv_set (m_pbv (m_bsllist bs ! k))"
    "lb \<le> m_ulOffset (m_bsllist bs ! k) + n" "\<forall>m \<in> bs_set bs. lb \<le> m \<longrightarrow> m_ulOffset (m_bsllist bs ! k) + n \<le> m"
    using f by (simp_all add: first_from_def)
  have u: "bsi_UlBit bs it' = m_ulOffset (m_bsllist bs ! k) + n"
    using bsi_cursor(3) [OF wf k(1,2)] Some by (simp add: bsi_UlBit_def it'_def)
  have "m_ulOffset (m_bsllist bs ! k) + n \<in> bs_set bs" using k by (auto simp: bs_mem_nth [OF wf])
  moreover have "bsi_rest bs it' = {m \<in> bs_set bs. m_ulOffset (m_bsllist bs ! k) + n < m}"
    using Some by (simp add: bsi_rest_def it'_def)
  moreover have "bsi_ok bs it'" using Some k by (simp add: bsi_ok_def it'_def)
  ultimately show ?thesis unfolding u lb using Some k(3,4) by fastforce
qed

lemma bsi_FAdvance_spec:
  assumes wf: "bs_wf bs" and ok: "bsi_ok bs it" and adv: "bsi_FAdvance bs it = (fMore, it')"
  shows "if fMore then bsi_ok bs it' \<and> bsi_UlBit bs it' \<in> bsi_rest bs it
       \<and> (\<forall>m \<in> bsi_rest bs it. bsi_UlBit bs it' \<le> m) \<and> bsi_rest bs it' = bsi_rest bs it - {bsi_UlBit bs it'}
     else bsi_rest bs it = {}"
proof -
  let ?xs = "m_bsllist bs"
  define p where "p = (case m_pbsl it of None \<Rightarrow> link_index ?xs 0 | Some k \<Rightarrow> Some k)"
  obtain n q where nq: "advance_from bs (m_ulCursor it) p = (n, q)" by fastforce
  have res: "fMore = (q \<noteq> None)" "it' = \<lparr>m_ulCursor = n, m_pbsl = q, m_fActive = (q \<noteq> None)\<rparr>"
    using adv nq by (auto simp: bsi_FAdvance_def p_def [symmetric] Let_def)
  obtain lb where lb: "first_from bs lb (n, q)" "bsi_rest bs it = {m \<in> bs_set bs. lb \<le> m}"
  proof (cases "m_pbsl it")
    case (Some k)
    then have k: "k < length ?xs" "m_ulCursor it \<in> bv_set (m_pbv (?xs ! k))"
      using ok by (simp_all add: bsi_ok_def)
    note c = bsi_cursor [OF wf k]
    have "first_from bs (m_ulOffset (?xs ! k) + ul_add (m_ulCursor it) 1) (n, q)"
      using advance_from_first [OF wf k(1), of "m_ulCursor it"] c(1,2) nq Some by (simp add: p_def)
    then show ?thesis using that c(1) Some by (simp add: bsi_rest_def Suc_le_eq)
  next
    case None
    then have cur: "m_ulCursor it = ULONG_MAX" using ok by (simp add: bsi_ok_def)
    show ?thesis
    proof (cases "?xs = []")
      case True
      then have "bs_set bs = {}" using bs_mem_nth [OF wf] by auto
      then show ?thesis
        using that [of 0] nq None True by (simp add: p_def link_index_def advance_from.simps first_from_def bsi_rest_def)
    next
      case False
      have z: "ul_add ULONG_MAX 1 = 0" by (simp add: ul_add_def ULONG_MAX_def)
      have "first_from bs (m_ulOffset (?xs ! 0)) (n, q)"
        using advance_from_first [OF wf, of 0 ULONG_MAX] False nq None cur z by (simp add: p_def link_index_def)
      moreover have "m_ulOffset (?xs ! 0) \<le> m" if m: "m \<in> bs_set bs" for m
      proof -
        obtain i k where "i < length ?xs" "m = m_ulOffset (?xs ! i) + k" using m unfolding bs_mem_nth [OF wf] by blast
        then show ?thesis using links_sorted_nth_less [OF bs_wfD(3) [OF wf], of 0 i] by (cases "i = 0") auto
      qed
      ultimately show ?thesis using that [of "m_ulOffset (?xs ! 0)"] None by (auto simp: bsi_rest_def)
    qed
  qed
  show ?thesis unfolding res using first_from_step [OF wf lb] .
qed

text \<open>One step of an iterator: the least remaining element.\<close>

lemma iter_step_sorted:
  assumes "bs_wf bs" "bsi_ok bs it" "bsi_FAdvance bs it = (fMore, it')"
  shows "if fMore then bsi_ok bs it' \<and> finite (bsi_rest bs it) \<and> bsi_UlBit bs it' \<in> bsi_rest bs it
       \<and> card (bsi_rest bs it') < card (bsi_rest bs it)
       \<and> sorted_list_of_set (bsi_rest bs it) = bsi_UlBit bs it' # sorted_list_of_set (bsi_rest bs it')
     else bsi_rest bs it = {}"
proof (cases fMore)
  case True
  note sp = bsi_FAdvance_spec [OF assms] and fin = finite_bsi_rest [OF assms(1), of it]
  let ?b = "bsi_UlBit bs it'"
  have s: "bsi_ok bs it'" "?b \<in> bsi_rest bs it" "\<forall>m \<in> bsi_rest bs it. ?b \<le> m" "bsi_rest bs it' = bsi_rest bs it - {?b}"
    using sp True by simp_all
  have "Min (bsi_rest bs it) = ?b" using fin s by (intro Min_eqI) auto
  then have "sorted_list_of_set (bsi_rest bs it) = ?b # sorted_list_of_set (bsi_rest bs it - {?b})"
    using sorted_list_of_set_nonempty [OF fin] s(2) by auto
  then show ?thesis using s True fin card_Diff1_less [OF fin s(2)] by simp
qed (use bsi_FAdvance_spec [OF assms] in simp)

text \<open>A loop \<open>while (it.FAdvance()) visit(it.UlBit())\<close>, collecting what it visits.\<close>

partial_function (option) bsi_collect :: "bitset \<Rightarrow> bsiter \<Rightarrow> nat list \<Rightarrow> nat list option" where
  "bsi_collect bs it acc =
     (let (fMore, it') = bsi_FAdvance bs it
      in if fMore then bsi_collect bs it' (acc @ [bsi_UlBit bs it']) else Some acc)"

lemma bsi_collect_rest:
  assumes "bs_wf bs" "bsi_ok bs it"
  shows "bsi_collect bs it acc = Some (acc @ sorted_list_of_set (bsi_rest bs it))"
  using assms(2)
proof (induction "card (bsi_rest bs it)" arbitrary: it acc rule: less_induct)
  case less
  obtain fMore it' where adv: "bsi_FAdvance bs it = (fMore, it')" by fastforce
  note st = iter_step_sorted [OF assms(1) less.prems adv]
  show ?case
    using less.hyps [of it' "acc @ [bsi_UlBit bs it']"] st adv
    by (cases fMore) (simp_all add: bsi_collect.simps [of bs it])
qed

subsection \<open>Difference\<close>

lemma difference_loop_rest:
  assumes "bs_wf other" "bsi_ok other it" "bs_wf bs"
  shows "\<exists>bs'. difference_loop other it bs = Some bs' \<and> bs_wf bs' \<and> bs_set bs' = bs_set bs - bsi_rest other it
    \<and> m_cSizeBits bs' = m_cSizeBits bs \<and> (bs_normal bs \<longrightarrow> bs_normal bs')"
  using assms(2,3)
proof (induction "card (bsi_rest other it)" arbitrary: it bs rule: less_induct)
  case less
  obtain fMore it' where adv: "bsi_FAdvance other it = (fMore, it')" by fastforce
  note sp = bsi_FAdvance_spec [OF assms(1) less.prems(1) adv]
  show ?case
  proof (cases fMore)
    case False
    then show ?thesis using sp adv less.prems by (simp add: difference_loop.simps [of other it])
  next
    case True
    let ?b = "bsi_UlBit other it'"
    let ?bs = "snd (bs_FExchangeClear bs ?b)"
    have sp: "bsi_ok other it'" "?b \<in> bsi_rest other it" "bsi_rest other it' = bsi_rest other it - {?b}"
      using sp True by simp_all
    note cl = bs_FExchangeClear_full [OF less.prems(2), of ?b]
    have lt: "card (bsi_rest other it') < card (bsi_rest other it)"
      using sp finite_bsi_rest [OF assms(1), of it] by (metis card_Diff1_less)
    have wf: "bs_wf ?bs" using cl by simp
    obtain bs' where bs': "difference_loop other it' ?bs = Some bs'" "bs_wf bs'"
      "bs_set bs' = bs_set ?bs - bsi_rest other it'" "m_cSizeBits bs' = m_cSizeBits ?bs" "bs_normal ?bs \<longrightarrow> bs_normal bs'"
      using less.hyps [OF lt sp(1) wf] by (elim exE conjE)
    have "difference_loop other it bs = Some bs'"
      using adv True bs'(1) by (simp add: difference_loop.simps [of other it])
    moreover have "bs_set bs' = bs_set bs - bsi_rest other it"
      using bs'(3) cl sp(2,3) by blast
    ultimately show ?thesis using bs'(2,4,5) cl by metis
  qed
qed

lemma bs_Difference_full:
  assumes "bs_compat bs other"
  shows "\<exists>bs'. bs_Difference bs other = Some bs' \<and> bs_wf bs' \<and> bs_set bs' = bs_set bs - bs_set other
    \<and> m_cSizeBits bs' = m_cSizeBits bs \<and> (bs_normal bs \<longrightarrow> bs_normal bs')"
proof (cases "bs_FDisjoint bs other")
  case True
  then show ?thesis
    using bs_FDisjoint_set [OF assms] bs_compatD(1) [OF assms] by (auto simp: bs_Difference_def)
next
  case False
  then show ?thesis
    using difference_loop_rest [OF bs_compatD(2) [OF assms] _ bs_compatD(1) [OF assms], of bsi_new]
    by (simp add: bs_Difference_def)
qed

section \<open>Properties\<close>

text \<open>The sets of the examples, of size 256.\<close>

definition sample_bs :: "nat list \<Rightarrow> bitset" where
  "sample_bs ns = foldl (\<lambda>bs n. snd (bs_FExchangeSet bs n)) (bs_new 256) ns"

lemma sample_bs_ok:
  assumes "list_all (\<lambda>n. n < ULONG_MOD) ns"
  shows "bs_wf (sample_bs ns) \<and> bs_set (sample_bs ns) = set ns \<and> m_cSizeBits (sample_bs ns) = 256
    \<and> bs_normal (sample_bs ns)"
proof -
  have "bs_wf bs \<Longrightarrow> bs_normal bs \<Longrightarrow> m_cSizeBits bs = 256 \<Longrightarrow>
      (let r = foldl (\<lambda>bs n. snd (bs_FExchangeSet bs n)) bs ns
       in bs_wf r \<and> bs_set r = bs_set bs \<union> set ns \<and> m_cSizeBits r = 256 \<and> bs_normal r)" for bs
    using assms
  proof (induction ns arbitrary: bs)
    case (Cons n ns)
    show ?case
      using Cons.IH [of "snd (bs_FExchangeSet bs n)"] bs_FExchangeSet_full [OF Cons.prems(1), of n] Cons.prems
      by (simp add: Let_def)
  qed simp
  moreover have "bs_wf (bs_new 256)" "bs_normal (bs_new 256)"
    by (simp_all add: bs_wf_new) (simp add: bs_normal_def bs_new_def)
  ultimately show ?thesis
    using bs_set_new [of 256] bs_size_new [of 256] by (simp add: sample_bs_def Let_def)
qed

text \<open>C26 Setting a bit returns whether it was set, adds exactly this element, keeps the sorted list of
  links well formed with its element count, and leaves no empty link behind.\<close>

theorem bs_FExchangeSet_correct:
  assumes "bs_wf bs" "n < ULONG_MOD"
  shows "case bs_FExchangeSet bs n of (fBit, bs') \<Rightarrow>
    fBit = (n \<in> bs_set bs) \<and> bs_wf bs' \<and> bs_set bs' = insert n (bs_set bs) \<and> (bs_normal bs \<longrightarrow> bs_normal bs')"
  using bs_FExchangeSet_full [OF assms] by (simp add: case_prod_unfold)

theorem bs_FExchangeSet_correct_witness:
  "bs_set (snd (bs_FExchangeSet (bs_new 256) 300)) = {300}"
  using bs_FExchangeSet_correct [of "bs_new 256" 300] by (simp add: bs_simps case_prod_unfold)

text \<open>C27 Clearing a bit returns whether it was set, removes exactly this element and drops a link that
  became empty.\<close>

theorem bs_FExchangeClear_correct:
  assumes "bs_wf bs"
  shows "case bs_FExchangeClear bs n of (fBit, bs') \<Rightarrow>
    fBit = (n \<in> bs_set bs) \<and> bs_wf bs' \<and> bs_set bs' = bs_set bs - {n} \<and> (bs_normal bs \<longrightarrow> bs_normal bs')"
  using bs_FExchangeClear_full [OF assms] by (simp add: case_prod_unfold)

theorem bs_FExchangeClear_correct_witness:
  "bs_set (snd (bs_FExchangeClear (sample_bs [1, 300]) 300)) = {1}"
  using bs_FExchangeClear_correct [of "sample_bs [1, 300]" 300] sample_bs_ok [of "[1, 300]"]
  by (auto simp: case_prod_unfold)

text \<open>C28 Union, intersection and difference of sparse sets of one link size are those of the sets, and keep
  the list of links well formed; the difference loop, which removes while it iterates, ends.\<close>

theorem bs_set_operations:
  assumes "bs_compat bs other"
  shows "bs_wf (bs_Union bs other) \<and> bs_set (bs_Union bs other) = bs_set bs \<union> bs_set other
    \<and> bs_wf (bs_Intersection bs other) \<and> bs_set (bs_Intersection bs other) = bs_set bs \<inter> bs_set other
    \<and> (\<exists>bs'. bs_Difference bs other = Some bs' \<and> bs_wf bs' \<and> bs_set bs' = bs_set bs - bs_set other)"
  using bs_Union_full [OF assms] bs_Intersection_full [OF assms] bs_Difference_full [OF assms] by blast

lemma sample_bs_compat:
  assumes "list_all (\<lambda>n. n < ULONG_MOD) ms" "list_all (\<lambda>n. n < ULONG_MOD) ns"
  shows "bs_compat (sample_bs ms) (sample_bs ns)"
  using sample_bs_ok [OF assms(1)] sample_bs_ok [OF assms(2)] by (simp add: bs_compat_def)

theorem bs_set_operations_witness:
  "bs_set (bs_Union (sample_bs [1, 300]) (sample_bs [2, 300])) = {1, 2, 300}
   \<and> bs_set (bs_Intersection (sample_bs [1, 300]) (sample_bs [2, 300])) = {300}"
  using bs_set_operations [OF sample_bs_compat, of "[1, 300]" "[2, 300]"]
    sample_bs_ok [of "[1, 300]"] sample_bs_ok [of "[2, 300]"] by auto

text \<open>The tests: membership and disjointness are exact; \<open>FSubset\<close> and \<open>FEqual\<close> never accept wrongly, and
  are exact when neither set has an empty link and the element count has not wrapped.\<close>

theorem bs_set_tests:
  assumes "bs_compat bs other"
  shows "(bs_FBit bs n \<longleftrightarrow> n \<in> bs_set bs) \<and> (bs_FDisjoint bs other \<longleftrightarrow> bs_set bs \<inter> bs_set other = {})
    \<and> (bs_FSubset bs other \<longrightarrow> bs_set other \<subseteq> bs_set bs) \<and> (bs_FEqual False bs other \<longrightarrow> bs_set bs = bs_set other)
    \<and> (bs_normal other \<and> card (bs_set bs) < ULONG_MOD \<longrightarrow> bs_FSubset bs other = (bs_set other \<subseteq> bs_set bs))
    \<and> (bs_normal bs \<and> bs_normal other \<longrightarrow> bs_FEqual False bs other = (bs_set bs = bs_set other))"
  using bs_FBit_set [OF bs_compatD(1) [OF assms]] bs_FDisjoint_set [OF assms] bs_FSubset_sound [OF assms]
    bs_FEqual_sound [OF assms] bs_FSubset_complete [OF assms] bs_FEqual_complete [OF assms] by blast

theorem bs_set_tests_witness:
  "bs_FSubset (sample_bs [1, 2, 300]) (sample_bs [300, 2]) \<and> \<not> bs_FEqual False (sample_bs [1, 2, 300]) (sample_bs [300, 2])"
  using bs_set_tests [OF sample_bs_compat, of "[1, 2, 300]" "[300, 2]" 0]
    sample_bs_ok [of "[1, 2, 300]"] sample_bs_ok [of "[300, 2]"] by (auto simp: insert_eq_iff)

text \<open>The iterator \<open>CBitSetIter\<close> visits every element once, in increasing order, and ends.\<close>

theorem bsi_collect_sorted:
  assumes "bs_wf bs"
  shows "bsi_collect bs bsi_new [] = Some (sorted_list_of_set (bs_set bs))"
  using bsi_collect_rest [OF assms bsi_new_ok(1), of "[]"] by simp

theorem bsi_collect_sorted_witness:
  "bsi_collect (sample_bs [300, 1]) bsi_new [] = Some [1, 300]"
  using bsi_collect_sorted [of "sample_bs [300, 1]"] sample_bs_ok [of "[300, 1]"] by simp

text \<open>Equal sets without empty links have one representation, so they hash equally.\<close>

theorem bs_UlHash_respects_equality:
  assumes "bs_compat bs other" "bs_normal bs" "bs_normal other" "bs_set bs = bs_set other"
  shows "m_bsllist bs = m_bsllist other \<and> bs_UlHash bs = bs_UlHash other"
  using normal_unique [OF assms] bs_UlHash_cong [OF assms] by blast

theorem bs_UlHash_respects_equality_witness:
  "bs_UlHash (sample_bs [300, 1]) = bs_UlHash (sample_bs [1, 300])"
  using bs_UlHash_respects_equality [OF sample_bs_compat, of "[300, 1]" "[1, 300]"]
    sample_bs_ok [of "[300, 1]"] sample_bs_ok [of "[1, 300]"] by (simp add: insert_commute)

lemma intersection_offsets:
  assumes "bs_compat bs other" "off \<in> set (offsets (m_bsllist bs))" "off \<in> set (offsets (m_bsllist other))"
  shows "off \<in> set (offsets (m_bsllist (bs_Intersection bs other)))"
proof -
  have "m_bsllist (bs_Intersection bs other) = intersect_links (m_bsllist other) None (m_bsllist bs)"
    by (simp add: bs_Intersection_def bs_RecomputeSize_def)
  also have "\<dots> = map (\<lambda>l. l\<lparr>m_pbv := bv_Intersection (m_pbv l) (the (link_map (m_bsllist other) (m_ulOffset l)))\<rparr>)
      (filter (\<lambda>l. m_ulOffset l \<in> dom (link_map (m_bsllist other))) (m_bsllist bs))"
    using bs_compatD [OF assms(1)] by (intro intersect_links_map) auto
  finally show ?thesis using assms(2,3) by (force simp: dom_link_map)
qed

text \<open>An emptied link of the intersection makes the comparisons with a set without it fail.\<close>

lemma intersection_empty_link:
  assumes "bs_compat bs other" "bs_compat ys (bs_Intersection bs other)" "off \<in> set (offsets (m_bsllist bs))"
    "off \<in> set (offsets (m_bsllist other))" "off \<notin> set (offsets (m_bsllist ys))"
  shows "\<not> bs_FEqual False (bs_Intersection bs other) ys \<and> \<not> bs_FSubset ys (bs_Intersection bs other)"
proof -
  have off: "off \<in> set (offsets (m_bsllist (bs_Intersection bs other)))"
    by (rule intersection_offsets [OF assms(1,3,4)])
  then obtain l where "l \<in> set (m_bsllist (bs_Intersection bs other))" "m_ulOffset l = off" by auto
  moreover have "link_map (m_bsllist ys) off = None" using assms(5) by (simp add: link_map_None)
  ultimately have "\<not> subset_links (m_bsllist ys) None (m_bsllist (bs_Intersection bs other))"
    using subset_links_iff [OF bs_compatD(6,7) [OF assms(2)], of None] by auto
  moreover have "\<not> equal_links (m_bsllist (bs_Intersection bs other)) (m_bsllist ys)"
    using equal_links_sound [of "m_bsllist (bs_Intersection bs other)" "m_bsllist ys"] off assms(5) by metis
  ultimately show ?thesis by (simp add: bs_FEqual_def bs_FSubset_def)
qed

text \<open>\<open>CBitSet::Intersection\<close> keeps links that it emptied: \<open>{1, 300} \<inter> {2, 300}\<close> holds just 300, but
  \<open>FEqual\<close> tells it from the set \<open>{300}\<close>, and \<open>FSubset\<close> denies that it is a subset of it.\<close>

theorem bs_Intersection_breaks_equality:
  "bs_set (bs_Intersection (sample_bs [1, 300]) (sample_bs [2, 300])) = bs_set (sample_bs [300])
   \<and> \<not> bs_FEqual False (bs_Intersection (sample_bs [1, 300]) (sample_bs [2, 300])) (sample_bs [300])
   \<and> \<not> bs_FSubset (sample_bs [300]) (bs_Intersection (sample_bs [1, 300]) (sample_bs [2, 300]))"
proof -
  let ?a = "sample_bs [1, 300]"
  let ?b = "sample_bs [2, 300]"
  let ?c = "sample_bs [300]"
  have ok: "bs_wf ?a" "bs_set ?a = {1, 300}" "bs_normal ?a" "m_cSizeBits ?a = 256"
    "bs_wf ?b" "bs_set ?b = {2, 300}" "bs_normal ?b"
    "bs_wf ?c" "bs_set ?c = {300}" "bs_normal ?c" "m_cSizeBits ?b = 256" "m_cSizeBits ?c = 256"
    using sample_bs_ok [of "[1, 300]"] sample_bs_ok [of "[2, 300]"] sample_bs_ok [of "[300]"] by simp_all
  have ab: "bs_compat ?a ?b" by (rule sample_bs_compat) simp_all
  have i: "bs_wf (bs_Intersection ?a ?b)" "bs_set (bs_Intersection ?a ?b) = {300}"
    "m_cSizeBits (bs_Intersection ?a ?b) = 256"
    using bs_Intersection_full [OF ab] ok by auto
  have "0 \<in> set (offsets (m_bsllist ?a))" "0 \<in> set (offsets (m_bsllist ?b))" "0 \<notin> set (offsets (m_bsllist ?c))"
    using normal_dom [OF ok(1,3)] normal_dom [OF ok(5,7)] normal_dom [OF ok(8,10)] ok by simp_all
  moreover have "bs_compat ?c (bs_Intersection ?a ?b)" using i ok by (simp add: bs_compat_def)
  ultimately show ?thesis using intersection_empty_link [OF ab] i(2) ok(9) by blast
qed

end
