(* ===== verification/StateMachine.thy ===== *)
theory StateMachine
  imports BitSet
begin

text \<open>
  The finite state machines of the optimizer
  (\<^verbatim>\<open>libgpopt/include/gpopt/base/CStateMachine.h\<close>): a table of transitions between
  the states \<open>0, \<dots>, n - 1\<close>, the first one initial and the last one final, with the history ring
  buffer and the walks over the diagram of a debug build.  States are the ordinals of their
  enumeration; \<open>n\<close> is the template argument \<open>tenumstateSentinel\<close>.  An entry of the table is
  \<open>None\<close> for \<open>tenumeventSentinel\<close>, no transition.
\<close>

section \<open>Enumeration sets\<close>

text \<open>
  \<^verbatim>\<open>CEnumSet\<close> is a \<^verbatim>\<open>CBitSet\<close> whose size is the number of values; its iterator is
  the one of the bit set.  The loop \<open>while (it.FAdvance()) \<dots> it.TBit() \<dots>\<close> stops with \<open>None\<close> when
  its body does.
\<close>

definition es_new :: "nat \<Rightarrow> bitset" where
  "es_new sentinel = bs_new sentinel"

definition es_FExchangeSet :: "bitset \<Rightarrow> nat \<Rightarrow> bool \<times> bitset" where
  "es_FExchangeSet es t = bs_FExchangeSet es t"

definition es_FExchangeClear :: "bitset \<Rightarrow> nat \<Rightarrow> bool \<times> bitset" where
  "es_FExchangeClear es t = bs_FExchangeClear es t"

definition esi_TBit :: "bitset \<Rightarrow> bsiter \<Rightarrow> nat" where
  "esi_TBit es it = bsi_UlBit es it"

partial_function (option) es_loop :: "bitset \<Rightarrow> (nat \<Rightarrow> 'a \<Rightarrow> 'a option) \<Rightarrow> bsiter \<Rightarrow> 'a \<Rightarrow> 'a option" where
  "es_loop es f it a =
     (let (fMore, it') = bsi_FAdvance es it
      in if fMore then (case f (esi_TBit es it') a of None \<Rightarrow> None | Some a' \<Rightarrow> es_loop es f it' a')
         else Some a)"

section \<open>The machine\<close>

record 'e state_machine =
  m_tenumstate :: nat
  m_fInit :: bool
  m_rgrgtenumeventTransitions :: "'e option list list"
  m_ulHistory :: nat
  m_tenumstateHistory :: "nat list"
  m_tenumeventHistory :: "'e option list"

definition GPOPT_FSM_HISTORY :: nat where
  "GPOPT_FSM_HISTORY = 25"

definition TesInitial :: nat where
  "TesInitial = 0"

definition TesFinal :: "nat \<Rightarrow> nat" where
  "TesFinal n = n - 1"

text \<open>The constructor; the arrays it leaves uninitialised hold no event.\<close>

definition sm_new :: "nat \<Rightarrow> 'e state_machine" where
  "sm_new n = \<lparr>m_tenumstate = TesInitial, m_fInit = False,
     m_rgrgtenumeventTransitions = replicate n (replicate n None), m_ulHistory = 0,
     m_tenumstateHistory = replicate GPOPT_FSM_HISTORY 0,
     m_tenumeventHistory = replicate GPOPT_FSM_HISTORY None\<rparr>"

definition sm_Init :: "nat \<Rightarrow> 'e option list list \<Rightarrow> 'e state_machine \<Rightarrow> 'e state_machine" where
  "sm_Init n tbl sm = sm\<lparr>
     m_rgrgtenumeventTransitions :=
       map (\<lambda>ulOuter. map (\<lambda>ulInner. tbl ! ulOuter ! ulInner) [0..<n]) [0..<n],
     m_tenumstate := TesInitial, m_fInit := True\<rparr>"

definition sm_Reset :: "'e state_machine \<Rightarrow> 'e state_machine" where
  "sm_Reset sm = sm\<lparr>m_tenumstate := TesInitial, m_fInit := False\<rparr>"

text \<open>The search of the row of the current state for the event: the first column wins.\<close>

definition FAttemptTransition :: "nat \<Rightarrow> 'e state_machine \<Rightarrow> nat \<Rightarrow> 'e \<Rightarrow> nat option" where
  "FAttemptTransition n sm tenumstateOld tenumevent =
     List.find (\<lambda>ulOuter. m_rgrgtenumeventTransitions sm ! tenumstateOld ! ulOuter = Some tenumevent) [0..<n]"

definition RecordHistory :: "'e \<Rightarrow> nat \<Rightarrow> 'e state_machine \<Rightarrow> 'e state_machine" where
  "RecordHistory tenumevent tenumstate sm =
     (let ulHistory = m_ulHistory sm mod GPOPT_FSM_HISTORY
      in sm\<lparr>m_tenumeventHistory := (m_tenumeventHistory sm)[ulHistory := Some tenumevent],
            m_tenumstateHistory := (m_tenumstateHistory sm)[ulHistory := tenumstate],
            m_ulHistory := ul_add (m_ulHistory sm) 1\<rparr>)"

definition FTransition :: "nat \<Rightarrow> 'e \<Rightarrow> 'e state_machine \<Rightarrow> bool \<times> 'e state_machine" where
  "FTransition n tenumevent sm =
     (case FAttemptTransition n sm (m_tenumstate sm) tenumevent of
        Some tenumstateNew \<Rightarrow> (True, RecordHistory tenumevent tenumstateNew (sm\<lparr>m_tenumstate := tenumstateNew\<rparr>))
      | None \<Rightarrow> (False, sm))"

definition sm_Transition :: "nat \<Rightarrow> 'e \<Rightarrow> 'e state_machine \<Rightarrow> 'e state_machine" where
  "sm_Transition n tenumevent sm = snd (FTransition n tenumevent sm)"

text \<open>\<open>OsHistory\<close>: the lines it prints, each with its number, an event and a state.\<close>

definition OsHistory :: "'e state_machine \<Rightarrow> (nat \<times> 'e option \<times> nat) list" where
  "OsHistory sm =
     (let ulElems = min (m_ulHistory sm) GPOPT_FSM_HISTORY;
          ulStart = (if m_ulHistory sm < GPOPT_FSM_HISTORY then 0 else ul_add (m_ulHistory sm) 1)
      in map (\<lambda>ul. let ulPos = ul_add ulStart ul mod GPOPT_FSM_HISTORY
                   in (ul, m_tenumeventHistory sm ! ulPos, m_tenumstateHistory sm ! ulPos)) [0..<ulElems])"

section \<open>Walks over the diagram\<close>

definition States :: "nat \<Rightarrow> bitset \<Rightarrow> bitset" where
  "States n peset = foldl (\<lambda>es ul. snd (es_FExchangeSet es ul)) peset [0..<n]"

text \<open>The set of the events that lead from a state to another has one element at most.\<close>

definition Transitions :: "'e state_machine \<Rightarrow> nat \<Rightarrow> nat \<Rightarrow> 'e list" where
  "Transitions sm tenumstateOld tenumstateNew =
     (case m_rgrgtenumeventTransitions sm ! tenumstateOld ! tenumstateNew of None \<Rightarrow> [] | Some e \<Rightarrow> [e])"

type_synonym ('e, 'c) walker = "nat \<Rightarrow> nat \<Rightarrow> 'e \<Rightarrow> 'c \<Rightarrow> 'c"

definition Walk :: "nat \<Rightarrow> 'e state_machine \<Rightarrow> ('e, 'c) walker \<Rightarrow> 'c \<Rightarrow> 'c option" where
  "Walk n sm Pfpv pvContext =
     (let pesetStates = States n (es_new n)
      in es_loop pesetStates (\<lambda>tenumstateSink ctx.
           es_loop pesetStates (\<lambda>tenumstateSource ctx.
             Some (foldl (\<lambda>ctx tenumevent. Pfpv tenumstateSource tenumstateSink tenumevent ctx) ctx
                     (Transitions sm tenumstateSource tenumstateSink)))
           bsi_new ctx) bsi_new pvContext)"

definition Unreachable_walker :: "('e, bitset) walker" where
  "Unreachable_walker tenumstateSource tenumstateSink tenumevent eset =
     (if tenumstateSource \<noteq> tenumstateSink then snd (es_FExchangeClear eset tenumstateSink) else eset)"

definition Diagram_walker :: "('e, (nat \<times> nat \<times> 'e) list) walker" where
  "Diagram_walker tenumstateSource tenumstateSink tenumevent os =
     os @ [(tenumstateSource, tenumstateSink, tenumevent)]"

text \<open>
  \<open>Unreachable\<close>: the states that stay in the set, in the first places of an array filled with the
  sentinel, and their number.
\<close>

definition Unreachable :: "nat \<Rightarrow> 'e state_machine \<Rightarrow> (nat list \<times> nat) option" where
  "Unreachable n sm =
     (case Walk n sm Unreachable_walker (States n (es_new n)) of
        None \<Rightarrow> None
      | Some peset \<Rightarrow> es_loop peset (\<lambda>t (pestate, ul). Some (pestate[ul := t], ul + 1)) bsi_new (replicate n n, 0))"

definition FReachable :: "nat \<Rightarrow> 'e state_machine \<Rightarrow> bool option" where
  "FReachable n sm = map_option (\<lambda>(pestate, ulSize). ulSize = 0) (Unreachable n sm)"

text \<open>The lines of a diagram: the initial state, a box per unreachable state, the edges.\<close>

definition OsDiagramToGraphviz :: "nat \<Rightarrow> 'e state_machine \<Rightarrow> (nat \<times> nat list \<times> (nat \<times> nat \<times> 'e) list) option" where
  "OsDiagramToGraphviz n sm =
     (case Walk n sm Unreachable_walker (States n (es_new n)) of
        None \<Rightarrow> None
      | Some peset \<Rightarrow>
          (case es_loop peset (\<lambda>t os. Some (os @ [t])) bsi_new [] of
             None \<Rightarrow> None
           | Some boxes \<Rightarrow> map_option (\<lambda>edges. (TesInitial, boxes, edges)) (Walk n sm Diagram_walker [])))"

section \<open>Loops over enumeration sets and walks\<close>

lemma es_loop_rest:
  assumes wf: "bs_wf es" and ok: "bsi_ok es it" and f: "\<And>t a. t \<in> bs_set es \<Longrightarrow> f t a = Some (g t a)"
  shows "es_loop es f it a = Some (fold g (sorted_list_of_set (bsi_rest es it)) a)"
  using ok
proof (induction "card (bsi_rest es it)" arbitrary: it a rule: less_induct)
  case less
  obtain fMore it' where adv: "bsi_FAdvance es it = (fMore, it')" by force
  note st = iter_step_sorted [OF wf less.prems adv]
  show ?case
  proof (cases fMore)
    case True
    then have "f (esi_TBit es it') a = Some (g (esi_TBit es it') a)"
      using st by (intro f) (auto simp: esi_TBit_def bsi_rest_def)
    then show ?thesis
      using less.hyps [of it' "g (esi_TBit es it') a"] True st adv
      by (subst es_loop.simps) (simp add: esi_TBit_def)
  qed (use st adv in \<open>simp add: es_loop.simps [of es f it]\<close>)
qed

lemma es_loop_all:
  assumes "bs_wf es" "\<And>t a. t \<in> bs_set es \<Longrightarrow> f t a = Some (g t a)"
  shows "es_loop es f bsi_new a = Some (fold g (sorted_list_of_set (bs_set es)) a)"
  using es_loop_rest [of es bsi_new f g a] assms by simp

lemma es_set_all:
  "bs_wf es \<Longrightarrow> \<forall>t \<in> set ts. t < ULONG_MOD \<Longrightarrow>
     bs_wf (foldl (\<lambda>es t. snd (es_FExchangeSet es t)) es ts)
   \<and> bs_set (foldl (\<lambda>es t. snd (es_FExchangeSet es t)) es ts) = bs_set es \<union> set ts"
  by (induction ts arbitrary: es) (auto simp: es_FExchangeSet_def bs_exchange)

lemma States_all:
  assumes "0 < n" "n < ULONG_MOD"
  shows "bs_wf (States n (es_new n)) \<and> bs_set (States n (es_new n)) = {0..<n}"
  using es_set_all [of "es_new n" "[0..<n]"] bs_wf_new [OF assms] assms
  by (auto simp: States_def es_new_def bs_set_new)

text \<open>The edges of a diagram, sink by sink; a walk applies its function to them in this order.\<close>

definition edges_into :: "nat \<Rightarrow> 'e state_machine \<Rightarrow> nat \<Rightarrow> (nat \<times> nat \<times> 'e) list" where
  "edges_into n sm t = concat (map (\<lambda>s. map (\<lambda>e. (s, t, e)) (Transitions sm s t)) [0..<n])"

definition edges :: "nat \<Rightarrow> 'e state_machine \<Rightarrow> (nat \<times> nat \<times> 'e) list" where
  "edges n sm = concat (map (edges_into n sm) [0..<n])"

definition has_edge :: "nat \<Rightarrow> 'e state_machine \<Rightarrow> nat \<Rightarrow> nat \<Rightarrow> bool" where
  "has_edge n sm s t \<longleftrightarrow> s < n \<and> t < n \<and> m_rgrgtenumeventTransitions sm ! s ! t \<noteq> None"

lemma in_edges: "(s, t, e) \<in> set (edges n sm) \<longleftrightarrow> s < n \<and> t < n \<and> m_rgrgtenumeventTransitions sm ! s ! t = Some e"
  by (force simp: edges_def edges_into_def Transitions_def split: option.splits)

lemma fold_concat: "fold f (concat xss) = fold (\<lambda>xs. fold f xs) xss"
  by (induction xss) auto

lemma Walk_edges:
  assumes "0 < n" "n < ULONG_MOD"
  shows "Walk n sm Pfpv c = Some (fold (\<lambda>(s, t, e). Pfpv s t e) (edges n sm) c)"
proof -
  let ?es = "States n (es_new n)"
  let ?visit = "\<lambda>t s ctx. foldl (\<lambda>ctx e. Pfpv s t e ctx) ctx (Transitions sm s t)"
  note S = States_all [OF assms]
  have "es_loop ?es (\<lambda>s ctx. Some (?visit t s ctx)) bsi_new ctx = Some (fold (?visit t) [0..<n] ctx)" for t ctx
    using S by (simp add: es_loop_all sorted_list_of_set_range)
  then have "Walk n sm Pfpv c = Some (fold (\<lambda>t. fold (?visit t) [0..<n]) [0..<n] c)"
    using S by (simp add: Walk_def Let_def es_loop_all sorted_list_of_set_range)
  also have "?visit t s ctx = fold (\<lambda>(s, t, e). Pfpv s t e) (map (\<lambda>e. (s, t, e)) (Transitions sm s t)) ctx" for t s ctx
    by (simp add: fold_map foldl_conv_fold comp_def)
  ultimately show ?thesis
    by (simp add: edges_def edges_into_def fold_concat fold_map comp_def)
qed

lemma fold_unreachable:
  "bs_wf es \<Longrightarrow>
     bs_wf (fold (\<lambda>(s, t, e). Unreachable_walker s t e) E es)
   \<and> bs_set (fold (\<lambda>(s, t, e). Unreachable_walker s t e) E es)
     = bs_set es - {t. \<exists>s e. (s, t, e) \<in> set E \<and> s \<noteq> t}"
proof (induction E arbitrary: es)
  case (Cons x E)
  obtain s t e where x: "x = (s, t, e)" by (cases x)
  have "bs_wf (Unreachable_walker s t e es)
    \<and> bs_set (Unreachable_walker s t e es) = (if s = t then bs_set es else bs_set es - {t})"
    using Cons.prems by (simp add: Unreachable_walker_def es_FExchangeClear_def bs_exchange)
  then show ?case using Cons.IH [of "Unreachable_walker s t e es"] by (auto simp: x)
qed simp

text \<open>The states without an edge from another state.\<close>

definition sources_only :: "nat \<Rightarrow> 'e state_machine \<Rightarrow> nat list" where
  "sources_only n sm = filter (\<lambda>t. \<forall>s < n. has_edge n sm s t \<longrightarrow> s = t) [0..<n]"

lemma unreachable_set:
  assumes "0 < n" "n < ULONG_MOD"
  obtains es where "Walk n sm Unreachable_walker (States n (es_new n)) = Some es" "bs_wf es"
    "sorted_list_of_set (bs_set es) = sources_only n sm"
proof -
  let ?es = "fold (\<lambda>(s, t, e). Unreachable_walker s t e) (edges n sm) (States n (es_new n))"
  note S = States_all [OF assms] and F = fold_unreachable [of "States n (es_new n)" "edges n sm"]
  have "bs_set ?es = {t. t < n \<and> (\<forall>s < n. has_edge n sm s t \<longrightarrow> s = t)}"
    using S F by (auto simp: in_edges has_edge_def)
  then have "bs_set ?es = set (sources_only n sm)" by (auto simp: sources_only_def)
  moreover have "sorted (sources_only n sm)" "distinct (sources_only n sm)"
    by (simp_all add: sources_only_def sorted_wrt_filter)
  ultimately have "sorted_list_of_set (bs_set ?es) = sources_only n sm"
    by (simp add: sorted_list_of_set.idem_if_sorted_distinct)
  then show thesis using that S F Walk_edges [OF assms] by metis
qed

lemma fold_fill:
  "length ts \<le> length xs - k \<Longrightarrow>
     fold (\<lambda>t (xs, k). (xs[k := t], Suc k)) ts (xs, k)
   = (take k xs @ ts @ drop (k + length ts) xs, k + length ts)"
proof (induction ts arbitrary: xs k)
  case (Cons t ts)
  then have "k < length xs" by (cases "k < length xs") auto
  then have "take k xs @ t # drop (Suc k) xs = xs[k := t]" by (simp add: upd_conv_take_nth_drop)
  then show ?case
    using Cons.IH [of "xs[k := t]" "Suc k"] Cons.prems \<open>k < length xs\<close>
    by (simp add: take_Suc_conv_app_nth)
qed simp

lemma Unreachable_eq:
  assumes "0 < n" "n < ULONG_MOD"
  shows "Unreachable n sm = Some (sources_only n sm @ replicate (n - length (sources_only n sm)) n,
           length (sources_only n sm))"
proof -
  obtain es where es: "Walk n sm Unreachable_walker (States n (es_new n)) = Some es" "bs_wf es"
    "sorted_list_of_set (bs_set es) = sources_only n sm"
    using unreachable_set [OF assms] by metis
  have "length (sources_only n sm) \<le> n" by (simp add: sources_only_def le_trans [OF length_filter_le])
  moreover have "es_loop es (\<lambda>t (xs, k). Some (xs[k := t], Suc k)) bsi_new (replicate n n, 0)
      = Some (fold (\<lambda>t (xs, k). (xs[k := t], Suc k)) (sources_only n sm) (replicate n n, 0))"
    using es by (subst es_loop_all) auto
  ultimately show ?thesis using es(1) by (simp add: Unreachable_def fold_fill)
qed

section \<open>Reachability\<close>

inductive sm_reach :: "nat \<Rightarrow> 'e state_machine \<Rightarrow> nat \<Rightarrow> bool" for n sm where
  initial: "sm_reach n sm TesInitial"
| edge: "sm_reach n sm s \<Longrightarrow> has_edge n sm s t \<Longrightarrow> sm_reach n sm t"

lemma sm_reach_incoming:
  "sm_reach n sm t \<Longrightarrow> t \<noteq> TesInitial \<Longrightarrow> \<exists>s. has_edge n sm s t \<and> s \<noteq> t"
  by (induction rule: sm_reach.induct) auto

lemma forward_reach:
  assumes forward: "\<And>s t. has_edge n sm s t \<Longrightarrow> s \<le> t"
    and into: "\<And>t. 0 < t \<Longrightarrow> t < n \<Longrightarrow> \<exists>s. has_edge n sm s t \<and> s \<noteq> t"
  shows "t < n \<Longrightarrow> sm_reach n sm t"
proof (induction t rule: less_induct)
  case (less t)
  show ?case
  proof (cases "t = 0")
    case False
    then obtain s where s: "has_edge n sm s t" "s \<noteq> t" using into [of t] less.prems by auto
    then have "s < t" using forward by fastforce
    then show ?thesis using less.IH [of s] less.prems s(1) sm_reach.edge by fastforce
  qed (use sm_reach.initial [of n sm] in \<open>simp add: TesInitial_def\<close>)
qed

section \<open>The history\<close>

text \<open>The events a machine accepts, each with the state it leads to, in their order.\<close>

fun fire_all :: "nat \<Rightarrow> 'e list \<Rightarrow> 'e state_machine \<Rightarrow> 'e state_machine \<times> ('e \<times> nat) list" where
  "fire_all n [] sm = (sm, [])"
| "fire_all n (e # es) sm =
     (let (fSucceeded, sm') = FTransition n e sm;
          (sm'', tr) = fire_all n es sm'
      in (sm'', (if fSucceeded then [(e, m_tenumstate sm')] else []) @ tr))"

text \<open>The ring buffer holds the last events of a trace.\<close>

definition history_of :: "'e state_machine \<Rightarrow> ('e \<times> nat) list \<Rightarrow> bool" where
  "history_of sm tr \<longleftrightarrow> m_ulHistory sm = length tr mod ULONG_MOD
     \<and> length (m_tenumeventHistory sm) = GPOPT_FSM_HISTORY \<and> length (m_tenumstateHistory sm) = GPOPT_FSM_HISTORY
     \<and> (\<forall>i < length tr. length tr \<le> i + GPOPT_FSM_HISTORY \<longrightarrow>
          m_tenumeventHistory sm ! (i mod GPOPT_FSM_HISTORY) = Some (fst (tr ! i))
        \<and> m_tenumstateHistory sm ! (i mod GPOPT_FSM_HISTORY) = snd (tr ! i))"

lemma mod_window:
  "i < k \<Longrightarrow> k < i + (m :: nat) \<Longrightarrow> i mod m \<noteq> k mod m"
  by (metis add.commute diff_add_inverse2 dvd_minus_mod le_add_diff_inverse less_diff_conv2
      less_imp_le_nat mod_eq_dvd_iff_nat nat_dvd_not_less zero_less_diff)

lemma RecordHistory_history:
  assumes "history_of sm tr" "Suc (length tr) < ULONG_MOD"
  shows "history_of (RecordHistory e t sm) (tr @ [(e, t)])"
proof -
  let ?H = GPOPT_FSM_HISTORY
  have len: "m_ulHistory sm = length tr" using assms by (simp add: history_of_def)
  have pos: "0 < ?H" by (simp add: GPOPT_FSM_HISTORY_def)
  have ne: "length tr mod ?H \<noteq> i mod ?H" if "i < length tr" "Suc (length tr) \<le> i + ?H" for i
    using mod_window [of i "length tr" ?H] that by simp
  show ?thesis
    using assms len pos
    by (auto simp: ne history_of_def RecordHistory_def Let_def ul_add_exact nth_append nth_list_update less_Suc_eq)
qed

lemma fire_all_history:
  "history_of sm tr \<Longrightarrow> fire_all n es sm = (sm', tr') \<Longrightarrow> length (tr @ tr') < ULONG_MOD \<Longrightarrow>
     history_of sm' (tr @ tr')"
proof (induction es arbitrary: sm tr tr')
  case (Cons e es)
  show ?case
  proof (cases "FAttemptTransition n sm (m_tenumstate sm) e")
    case None
    then show ?thesis using Cons by (auto simp: FTransition_def split: prod.splits)
  next
    case (Some t)
    let ?sm = "RecordHistory e t (sm\<lparr>m_tenumstate := t\<rparr>)"
    obtain tr'' where tr'': "fire_all n es ?sm = (sm', tr'')" "tr' = (e, t) # tr''"
      using Cons.prems(2) Some by (auto simp: FTransition_def RecordHistory_def Let_def split: prod.splits)
    have "history_of (sm\<lparr>m_tenumstate := t\<rparr>) tr" using Cons.prems(1) by (simp add: history_of_def)
    then have "history_of ?sm (tr @ [(e, t)])" using RecordHistory_history Cons.prems(3) tr''(2) by force
    then show ?thesis using Cons.IH tr'' Cons.prems(3) by force
  qed
qed auto

lemma sm_Init_history: "history_of (sm_Init n tbl (sm_new n)) []"
  by (simp add: history_of_def sm_Init_def sm_new_def)

lemma history_nth:
  assumes "history_of sm tr" "length tr < ULONG_MOD" "i < length tr" "length tr \<le> i + GPOPT_FSM_HISTORY"
  shows "m_tenumeventHistory sm ! (i mod GPOPT_FSM_HISTORY) = Some (fst (tr ! i))"
    "m_tenumstateHistory sm ! (i mod GPOPT_FSM_HISTORY) = snd (tr ! i)"
  using assms by (auto simp: history_of_def)

lemma OsHistory_short:
  assumes "history_of sm tr" "length tr < GPOPT_FSM_HISTORY"
  shows "OsHistory sm = map (\<lambda>i. (i, Some (fst (tr ! i)), snd (tr ! i))) [0..<length tr]"
proof -
  have "m_ulHistory sm = length tr" using assms by (simp add: history_of_def GPOPT_FSM_HISTORY_def)
  moreover have "ul_add 0 i = i" if "i < length tr" for i
    using that assms(2) by (intro trans [OF ul_add_exact]) (simp_all add: GPOPT_FSM_HISTORY_def)
  ultimately show ?thesis
    using assms(2) history_nth [OF assms(1)] by (auto simp: OsHistory_def Let_def GPOPT_FSM_HISTORY_def)
qed

lemma OsHistory_long:
  assumes h: "history_of sm tr" and k: "GPOPT_FSM_HISTORY \<le> length tr" "length tr + GPOPT_FSM_HISTORY < ULONG_MOD"
  defines "w \<equiv> drop (length tr - GPOPT_FSM_HISTORY) tr"
  shows "OsHistory sm = map (\<lambda>i. (i, Some (fst ((tl w @ [hd w]) ! i)), snd ((tl w @ [hd w]) ! i))) [0..<GPOPT_FSM_HISTORY]"
proof -
  let ?k = "length tr"
  have H: "GPOPT_FSM_HISTORY = 25" by (rule GPOPT_FSM_HISTORY_def)
  have len: "m_ulHistory sm = ?k" using h k(2) by (simp add: history_of_def)
  have w: "length w = 25" "w \<noteq> []" using k H by (auto simp: w_def)
  have "m_tenumeventHistory sm ! (ul_add (ul_add ?k 1) i mod 25) = Some (fst ((tl w @ [hd w]) ! i))
      \<and> m_tenumstateHistory sm ! (ul_add (ul_add ?k 1) i mod 25) = snd ((tl w @ [hd w]) ! i)" if i: "i < 25" for i
  proof -
    define j where "j = (if i < 24 then ?k - 24 + i else ?k - 25)"
    have "ul_add (ul_add ?k 1) i = ?k + 1 + i" using i k H by (simp add: ul_add_exact)
    also have "(?k + 1 + i) mod 25 = j mod 25"
    proof (cases "i < 24")
      case True
      then have "?k + 1 + i = j + 25" using k H by (simp add: j_def)
      then show ?thesis by simp
    next
      case False
      then have "?k + 1 + i = j + 25 * 2" using k H i by (simp add: j_def)
      then show ?thesis by (simp only: mod_mult_self2)
    qed
    finally have p: "ul_add (ul_add ?k 1) i mod 25 = j mod 25" .
    have j: "j < ?k" "?k \<le> j + 25" using k H i by (auto simp: j_def)
    have "Suc (?k - 25 + i) = ?k - 24 + i" using k H by simp
    then have "(tl w @ [hd w]) ! i = tr ! j"
      using w(1) i k unfolding j_def w_def H by (auto simp: nth_append nth_tl hd_drop_conv_nth less_Suc_eq)
    then show ?thesis using history_nth [OF h _ j(1)] j k H p by simp
  qed
  then show ?thesis using k(1) by (simp add: OsHistory_def Let_def len H)
qed

section \<open>Properties\<close>

text \<open>The lines \<open>OsHistory\<close> prints after a machine has accepted the events of a trace: up to 24
  events, all of them in their order; from the 25th event on the last 25 events, but turned by
  one place: the oldest of them is printed last, after the newest.\<close>

theorem OsHistory_lines:
  assumes "fire_all n es (sm_Init n tbl (sm_new n)) = (sm, tr)" "length tr + GPOPT_FSM_HISTORY < ULONG_MOD"
  shows "OsHistory sm =
     (let w = drop (length tr - GPOPT_FSM_HISTORY) tr;
          lines = (if length tr < GPOPT_FSM_HISTORY then tr else tl w @ [hd w])
      in map (\<lambda>i. (i, Some (fst (lines ! i)), snd (lines ! i))) [0..<length lines])"
proof -
  have h: "history_of sm tr"
    using fire_all_history [OF sm_Init_history assms(1)] assms(2) by simp
  show ?thesis
  proof (cases "length tr < GPOPT_FSM_HISTORY")
    case True
    then show ?thesis using OsHistory_short [OF h] by simp
  next
    case False
    let ?w = "drop (length tr - GPOPT_FSM_HISTORY) tr"
    have "length (tl ?w @ [hd ?w]) = GPOPT_FSM_HISTORY"
      using False by (simp add: GPOPT_FSM_HISTORY_def)
    then show ?thesis using OsHistory_long [OF h _ assms(2)] False by (simp only: Let_def if_False)
  qed
qed

text \<open>A machine with two states that goes to the first on \<open>True\<close> and to the second on \<open>False\<close>.\<close>

definition two_states :: "bool option list list" where
  "two_states = [[Some True, Some False], [Some True, Some False]]"

definition two_run :: "bool state_machine \<times> (bool \<times> nat) list" where
  "two_run = fire_all 2 (False # replicate 24 True) (sm_Init 2 two_states (sm_new 2))"

lemma table_Init:
  "m_rgrgtenumeventTransitions (sm_Init 2 [[a, b], [c, d]] sm) = [[a, b], [c, d]]"
  by (simp add: sm_Init_def numeral_2_eq_2)

lemma two_fire:
  "m_rgrgtenumeventTransitions sm = two_states \<Longrightarrow> m_tenumstate sm < 2 \<Longrightarrow>
     snd (fire_all 2 es sm) = map (\<lambda>e. (e, if e then 0 else 1)) es"
proof (induction es arbitrary: sm)
  case (Cons e es)
  let ?t = "if e then 0 else 1"
  have "FAttemptTransition 2 sm (m_tenumstate sm) e = Some ?t"
    using Cons.prems by (auto simp: FAttemptTransition_def two_states_def numeral_2_eq_2 less_Suc_eq)
  moreover have "snd (fire_all 2 es (RecordHistory e ?t (sm\<lparr>m_tenumstate := ?t\<rparr>)))
      = map (\<lambda>e. (e, if e then 0 else 1)) es"
    using Cons.prems by (intro Cons.IH) (simp_all add: RecordHistory_def Let_def)
  ultimately show ?case
    by (simp add: FTransition_def case_prod_beta Let_def) (simp add: RecordHistory_def Let_def)
qed simp

lemma two_run_trace: "snd two_run = (False, 1) # replicate 24 (True, 0)"
  unfolding two_run_def
  by (subst two_fire) (simp_all add: two_states_def table_Init map_replicate_const, simp add: sm_Init_def TesInitial_def)

theorem OsHistory_lines_witness:
  "length (snd two_run) = 25 \<and> hd (snd two_run) = (False, 1)
   \<and> OsHistory (fst two_run) ! 24 = (24, Some False, 1)"
proof -
  have "OsHistory (fst two_run) =
     (let w = drop (length (snd two_run) - GPOPT_FSM_HISTORY) (snd two_run);
          lines = (if length (snd two_run) < GPOPT_FSM_HISTORY then snd two_run else tl w @ [hd w])
      in map (\<lambda>i. (i, Some (fst (lines ! i)), snd (lines ! i))) [0..<length lines])"
    by (rule OsHistory_lines [where n = 2 and es = "False # replicate 24 True" and tbl = two_states])
      (simp_all only: two_run_def [symmetric] prod.collapse, simp add: two_run_trace GPOPT_FSM_HISTORY_def)
  then show ?thesis by (simp add: two_run_trace GPOPT_FSM_HISTORY_def nth_append Let_def)
qed

text \<open>\<open>Unreachable\<close> returns the states without an edge from another state, in order and followed
  by the sentinel.  Of these every state but the initial one is out of reach; and when the edges
  never lead to a smaller state and the initial state is the only one returned, every state can be
  reached.  \<open>FReachable\<close> still answers no when no other state leads back to the initial one.\<close>

theorem Unreachable_correct:
  assumes "0 < n" "n < ULONG_MOD"
  shows "\<exists>ts. Unreachable n sm = Some (ts @ replicate (n - length ts) n, length ts)
    \<and> sorted ts \<and> distinct ts
    \<and> set ts = {t. t < n \<and> (\<forall>s. has_edge n sm s t \<longrightarrow> s = t)}
    \<and> (\<forall>t \<in> set ts. t \<noteq> TesInitial \<longrightarrow> \<not> sm_reach n sm t)
    \<and> ((\<forall>s t. has_edge n sm s t \<longrightarrow> s \<le> t) \<and> ts = [TesInitial] \<longrightarrow> (\<forall>t < n. sm_reach n sm t))
    \<and> ((\<forall>s. has_edge n sm s TesInitial \<longrightarrow> s = TesInitial) \<longrightarrow> FReachable n sm = Some False)"
proof -
  let ?ts = "sources_only n sm"
  have set: "set ?ts = {t. t < n \<and> (\<forall>s. has_edge n sm s t \<longrightarrow> s = t)}"
    by (auto simp: sources_only_def has_edge_def)
  have "\<exists>s. has_edge n sm s t \<and> s \<noteq> t" if "?ts = [TesInitial]" "0 < t" "t < n" for t
  proof -
    have "t \<notin> set ?ts" using that by (simp add: TesInitial_def)
    then show ?thesis using that(3) unfolding set by blast
  qed
  then have all: "(\<forall>s t. has_edge n sm s t \<longrightarrow> s \<le> t) \<and> ?ts = [TesInitial] \<longrightarrow> (\<forall>t < n. sm_reach n sm t)"
    using forward_reach [of n sm] by blast
  have none: "\<forall>t \<in> set ?ts. t \<noteq> TesInitial \<longrightarrow> \<not> sm_reach n sm t"
    unfolding set using sm_reach_incoming by fastforce
  have init: "(\<forall>s. has_edge n sm s TesInitial \<longrightarrow> s = TesInitial) \<longrightarrow> FReachable n sm = Some False"
  proof
    assume "\<forall>s. has_edge n sm s TesInitial \<longrightarrow> s = TesInitial"
    then have "TesInitial \<in> set ?ts" unfolding set using assms(1) by (simp add: TesInitial_def)
    then show "FReachable n sm = Some False" by (auto simp: FReachable_def Unreachable_eq [OF assms])
  qed
  have "sorted ?ts" "distinct ?ts" by (simp_all add: sources_only_def sorted_wrt_filter)
  then show ?thesis using Unreachable_eq [OF assms] set none all init by (intro exI [of _ ?ts] conjI)
qed

lemma one_edge: "has_edge 2 (sm_Init 2 [[None, Some ()], [None, None]] (sm_new 2)) s t \<longleftrightarrow> s = 0 \<and> t = 1"
  unfolding has_edge_def table_Init by (auto simp: less_2_cases_iff)

theorem Unreachable_correct_witness:
  "Unreachable 2 (sm_Init 2 [[None, Some ()], [None, None]] (sm_new 2)) = Some ([0, 2], 1)"
proof -
  let ?sm = "sm_Init 2 [[None, Some ()], [None, None]] (sm_new 2)"
  obtain ts where ts: "Unreachable 2 ?sm = Some (ts @ replicate (2 - length ts) 2, length ts)"
    "sorted ts" "distinct ts" "set ts = {t. t < 2 \<and> (\<forall>s. has_edge 2 ?sm s t \<longrightarrow> s = t)}"
    using Unreachable_correct [of 2 ?sm] by auto
  have "set ts = set [0]" unfolding ts(4) by (auto simp: one_edge)
  then have "ts = [0]" using ts(2,3) by (intro sorted_distinct_set_unique) auto
  then show ?thesis using ts(1) by simp
qed

end
