(* ===== verification/JobStateMachine.thy ===== *)
theory JobStateMachine
  imports StateMachine
begin

text \<open>
  The state machine of an optimization job
  (\<^verbatim>\<open>libgpopt/include/gpopt/search/CJobStateMachine.h\<close>): a state machine with an action
  per state.  A run calls the action of the current state and makes the transition of the event
  the action returns, until the state stays the same, the last state is reached or the search
  stage has timed out.  The type \<open>'s\<close> is what the actions read and change: the job's own fields
  and the structures shared with other jobs.  An action is \<open>None\<close> when a loop of it does not end.
\<close>

section \<open>The machine\<close>

type_synonym ('e, 's) job_action = "'s \<Rightarrow> ('e \<times> 's) option"

record ('e, 's) job_state_machine =
  m_rgPfuncAction :: "('e, 's) job_action option list"
  m_sm :: "'e state_machine"

definition jsm_new :: "nat \<Rightarrow> ('e, 's) job_state_machine" where
  "jsm_new n = \<lparr>m_rgPfuncAction = replicate n None, m_sm = sm_new n\<rparr>"

definition jsm_Reset :: "nat \<Rightarrow> ('e, 's) job_state_machine \<Rightarrow> ('e, 's) job_state_machine" where
  "jsm_Reset n jsm = jsm\<lparr>m_sm := sm_Reset (m_sm jsm), m_rgPfuncAction := replicate n None\<rparr>"

definition jsm_Init :: "nat \<Rightarrow> 'e option list list \<Rightarrow> ('e, 's) job_state_machine \<Rightarrow> ('e, 's) job_state_machine" where
  "jsm_Init n tbl jsm =
     (let jsm' = jsm_Reset n jsm in jsm'\<lparr>m_sm := sm_Init n tbl (m_sm jsm')\<rparr>)"

definition SetAction :: "nat \<Rightarrow> ('e, 's) job_action \<Rightarrow> ('e, 's) job_state_machine \<Rightarrow> ('e, 's) job_state_machine" where
  "SetAction est pfAction jsm = jsm\<lparr>m_rgPfuncAction := (m_rgPfuncAction jsm)[est := Some pfAction]\<rparr>"

text \<open>
  A run; it may not end (\<open>None\<close>) and it may call a null function pointer.  \<open>timed_out\<close> is
  \<open>psc->Peng()->PssCurrent()->FTimedOut()\<close>, \<open>cleanup\<close> is \<open>pjOwner->Cleanup()\<close>.
\<close>

datatype jsm_fault = NullAction

partial_function (option) FRun ::
    "('s \<Rightarrow> bool) \<Rightarrow> ('s \<Rightarrow> 's) \<Rightarrow> nat \<Rightarrow> ('e, 's) job_state_machine \<Rightarrow> 's
     \<Rightarrow> (jsm_fault + bool \<times> ('e, 's) job_state_machine \<times> 's) option" where
  "FRun timed_out cleanup n jsm st =
     (if timed_out st then Some (Inr (True, jsm, cleanup st))
      else (let estCurrent = m_tenumstate (m_sm jsm)
            in case m_rgPfuncAction jsm ! estCurrent of
                 None \<Rightarrow> Some (Inl NullAction)
               | Some pfunc \<Rightarrow>
                   (case pfunc st of
                      None \<Rightarrow> None
                    | Some (eev, st') \<Rightarrow>
                        (let sm' = snd (FTransition n eev (m_sm jsm));
                             estNext = m_tenumstate sm';
                             jsm' = jsm\<lparr>m_sm := sm'\<rparr>
                         in if estNext \<noteq> estCurrent \<and> estNext \<noteq> TesFinal n
                            then FRun timed_out cleanup n jsm' st'
                            else Some (Inr (estNext = TesFinal n, jsm', st'))))))"

lemma FTransition_state:
  "m_tenumstate (snd (FTransition n e sm)) =
     (case FAttemptTransition n sm (m_tenumstate sm) e of None \<Rightarrow> m_tenumstate sm | Some t \<Rightarrow> t)"
  "m_rgrgtenumeventTransitions (snd (FTransition n e sm)) = m_rgrgtenumeventTransitions sm"
  by (simp_all add: FTransition_def RecordHistory_def Let_def split: option.splits)

text \<open>The column of a row that holds an event.\<close>

definition row_find :: "'e option list \<Rightarrow> 'e \<Rightarrow> nat option" where
  "row_find row e = List.find (\<lambda>t. row ! t = Some e) [0..<length row]"

text \<open>A machine that has been initialised with a table and a list of actions.\<close>

definition jsm_loaded :: "'e option list list \<Rightarrow> ('e, 's) job_action list \<Rightarrow> ('e, 's) job_state_machine \<Rightarrow> bool" where
  "jsm_loaded tbl acts jsm \<longleftrightarrow> m_rgrgtenumeventTransitions (m_sm jsm) = tbl
     \<and> m_rgPfuncAction jsm = map Some acts @ [None] \<and> m_tenumstate (m_sm jsm) \<le> length acts"

section \<open>Rows and initialisation\<close>

lemma find_map: "List.find P (map f xs) = map_option f (List.find (\<lambda>x. P (f x)) xs)"
  by (induction xs) auto

lemma row_find_simps [simp]:
  "row_find [] e = None"
  "row_find (x # xs) e = (if x = Some e then Some 0 else map_option Suc (row_find xs e))"
proof -
  have "[0..<length (x # xs)] = 0 # map Suc [0..<length xs]"
    by (simp add: upt_conv_Cons map_Suc_upt del: upt_Suc)
  then show "row_find (x # xs) e = (if x = Some e then Some 0 else map_option Suc (row_find xs e))"
    by (simp add: row_find_def find_map)
qed (simp add: row_find_def)

lemma SetAction_simps [simp]:
  "m_sm (SetAction est f jsm) = m_sm jsm"
  "m_rgPfuncAction (SetAction est f jsm) = (m_rgPfuncAction jsm)[est := Some f]"
  by (simp_all add: SetAction_def)

text \<open>Initialising a machine of \<open>n\<close> states with a table of this size.\<close>

lemma jsm_Init_simps:
  assumes "length tbl = n" "list_all (\<lambda>row. length row = n) tbl"
  shows "m_rgrgtenumeventTransitions (m_sm (jsm_Init n tbl jsm)) = tbl"
    "m_rgPfuncAction (jsm_Init n tbl jsm) = replicate n None" "m_tenumstate (m_sm (jsm_Init n tbl jsm)) = 0"
proof -
  have "map (\<lambda>j. tbl ! i ! j) [0..<n] = tbl ! i" if "i < n" for i
  proof -
    have "length (tbl ! i) = n" using assms that by (simp add: list_all_length)
    then show ?thesis using map_nth [of "tbl ! i"] by simp
  qed
  then have "map (\<lambda>i. map (\<lambda>j. tbl ! i ! j) [0..<n]) [0..<n] = tbl"
    by (intro nth_equalityI) (simp_all add: assms(1))
  then show "m_rgrgtenumeventTransitions (m_sm (jsm_Init n tbl jsm)) = tbl"
    by (simp add: jsm_Init_def sm_Init_def Let_def)
qed (simp_all add: jsm_Init_def sm_Init_def jsm_Reset_def Let_def TesInitial_def)

section \<open>The contract of the actions\<close>

text \<open>
  What the run of a job needs from its table and its actions.  \<open>good est st\<close> is what holds of a
  job in a state; \<open>log\<close> is the list of the child jobs that have been scheduled.  An action
  returns an event the table accepts; when the event leads to another state, the action has
  scheduled no child and the rank of the job has become smaller.
\<close>

locale job_actions =
  fixes timed_out :: "'s \<Rightarrow> bool" and cleanup :: "'s \<Rightarrow> 's"
    and tbl :: "'e option list list" and acts :: "('e, 's) job_action list"
    and good :: "nat \<Rightarrow> 's \<Rightarrow> bool" and rank :: "nat \<Rightarrow> 's \<Rightarrow> nat" and log :: "'s \<Rightarrow> 'x list"
  assumes square: "length tbl = Suc (length acts)" "est \<le> length acts \<Longrightarrow> length (tbl ! est) = Suc (length acts)"
    and action: "good est st \<Longrightarrow> est < length acts \<Longrightarrow> \<not> timed_out st \<Longrightarrow>
      \<exists>e st' t. (acts ! est) st = Some (e, st') \<and> row_find (tbl ! est) e = Some t \<and> good t st' \<and>
          (t = est \<or> (log st' = log st \<and> (t = length acts \<or> rank t st' < rank est st)))"
    and cleanup_log: "log (cleanup st) = log st"
begin

abbreviation n :: nat where
  "n \<equiv> Suc (length acts)"

lemma row_find_lt: "est \<le> length acts \<Longrightarrow> row_find (tbl ! est) e = Some t \<Longrightarrow> t \<le> length acts"
  using square(2) [of est] by (auto simp: row_find_def find_Some_iff simp del: upt_Suc)

lemma attempt:
  "jsm_loaded tbl acts jsm \<Longrightarrow>
     FAttemptTransition n (m_sm jsm) (m_tenumstate (m_sm jsm)) e = row_find (tbl ! m_tenumstate (m_sm jsm)) e"
  using square(2) by (auto simp: FAttemptTransition_def row_find_def jsm_loaded_def)

text \<open>
  A run returns.  It answers that the job has completed in the last state or after a timeout, and
  then it has scheduled no child; otherwise the job stays in a state that is not the last.
\<close>

lemma run:
  assumes "jsm_loaded tbl acts jsm" "good (m_tenumstate (m_sm jsm)) st" "m_tenumstate (m_sm jsm) < length acts"
  shows "\<exists>b jsm' st'. FRun timed_out cleanup n jsm st = Some (Inr (b, jsm', st'))
    \<and> jsm_loaded tbl acts jsm'
    \<and> (b \<longrightarrow> log st' = log st)
    \<and> (b \<longrightarrow> (m_tenumstate (m_sm jsm') = length acts \<and> good (length acts) st')
          \<or> (\<exists>est st0. est < length acts \<and> good est st0 \<and> timed_out st0 \<and> st' = cleanup st0))
    \<and> (\<not> b \<longrightarrow> m_tenumstate (m_sm jsm') < length acts \<and> good (m_tenumstate (m_sm jsm')) st')"
  using assms
proof (induction "rank (m_tenumstate (m_sm jsm)) st" arbitrary: jsm st rule: less_induct)
  case less
  let ?est = "m_tenumstate (m_sm jsm)"
  show ?case
  proof (cases "timed_out st")
    case True
    then have "FRun timed_out cleanup n jsm st = Some (Inr (True, jsm, cleanup st))"
      by (simp add: FRun.simps [of timed_out])
    then show ?thesis using less.prems True cleanup_log by blast
  next
    case False
    obtain e st' t where a: "(acts ! ?est) st = Some (e, st')" and t: "row_find (tbl ! ?est) e = Some t" "good t st'"
      "t = ?est \<or> (log st' = log st \<and> (t = length acts \<or> rank t st' < rank ?est st))"
      using action [OF less.prems(2,3) False] by blast
    define jsm' where "jsm' = jsm\<lparr>m_sm := snd (FTransition n e (m_sm jsm))\<rparr>"
    have le: "t \<le> length acts" using row_find_lt [OF _ t(1)] less.prems(3) by simp
    have st: "m_tenumstate (m_sm jsm') = t"
      by (simp add: jsm'_def FTransition_state attempt [OF less.prems(1)] t(1))
    have ld: "jsm_loaded tbl acts jsm'"
      using less.prems(1) st le by (simp add: jsm_loaded_def jsm'_def FTransition_state(2))
    have "m_rgPfuncAction jsm ! ?est = Some (acts ! ?est)"
      using less.prems(1,3) by (simp add: jsm_loaded_def nth_append)
    then have step: "FRun timed_out cleanup n jsm st =
        (if t \<noteq> ?est \<and> t \<noteq> length acts then FRun timed_out cleanup n jsm' st'
         else Some (Inr (t = length acts, jsm', st')))"
      using False a st by (simp add: FRun.simps [of timed_out cleanup n jsm] Let_def jsm'_def TesFinal_def)
    show ?thesis
    proof (cases "t \<noteq> ?est \<and> t \<noteq> length acts")
      case True
      then have r: "log st' = log st" "rank (m_tenumstate (m_sm jsm')) st' < rank ?est st" "t < length acts"
        using t(3) st le by auto
      show ?thesis
        using less.hyps [of jsm' st'] ld st t(2) r step True by simp
    next
      case False
      then show ?thesis using step ld st t(2,3) less.prems(3) by auto
    qed
  qed
qed

end

end
