(* ===== verification/SearchJobs.thy ===== *)
theory SearchJobs
  imports JobStateMachine "HOL-Library.Monad_Syntax"
begin

text \<open>
  The exploration, implementation and transformation jobs of the search
  (\<^verbatim>\<open>libgpopt/src/search/CJobGroup*.cpp\<close>,
  \<^verbatim>\<open>CJobTransformation.cpp\<close>): their tables and actions over the part of the memo they
  read and change, and the child jobs they schedule.  Groups, group expressions, optimization
  contexts and transformations are named by numbers.
\<close>

section \<open>The memo\<close>

datatype group_state = g_estUnexplored | g_estExploring | g_estExplored | g_estImplementing
  | g_estImplemented | g_estOptimizing | g_estOptimized

datatype gexpr_state = ge_estUnexplored | ge_estExploring | ge_estExplored | ge_estImplementing | ge_estImplemented

datatype poc_state = poc_estUnoptimized | poc_estOptimizing | poc_estOptimized

datatype eol = EolLow | EolHigh | EolSentinel

primrec group_state_ord :: "group_state \<Rightarrow> nat" where
  "group_state_ord g_estUnexplored = 0"
| "group_state_ord g_estExploring = 1"
| "group_state_ord g_estExplored = 2"
| "group_state_ord g_estImplementing = 3"
| "group_state_ord g_estImplemented = 4"
| "group_state_ord g_estOptimizing = 5"
| "group_state_ord g_estOptimized = 6"

primrec gexpr_state_ord :: "gexpr_state \<Rightarrow> nat" where
  "gexpr_state_ord ge_estUnexplored = 0"
| "gexpr_state_ord ge_estExploring = 1"
| "gexpr_state_ord ge_estExplored = 2"
| "gexpr_state_ord ge_estImplementing = 3"
| "gexpr_state_ord ge_estImplemented = 4"

text \<open>Enumerations are compared by the order of their values.\<close>

instantiation group_state :: linorder
begin

definition less_eq_group_state :: "group_state \<Rightarrow> group_state \<Rightarrow> bool" where
  "x \<le> y \<longleftrightarrow> group_state_ord x \<le> group_state_ord y"

definition less_group_state :: "group_state \<Rightarrow> group_state \<Rightarrow> bool" where
  "x < y \<longleftrightarrow> group_state_ord x < group_state_ord y"

instance
proof
  fix x y :: group_state
  show "x \<le> y \<Longrightarrow> y \<le> x \<Longrightarrow> x = y"
    by (cases x; cases y) (simp_all add: less_eq_group_state_def)
qed (auto simp: less_eq_group_state_def less_group_state_def)

end

instantiation gexpr_state :: linorder
begin

definition less_eq_gexpr_state :: "gexpr_state \<Rightarrow> gexpr_state \<Rightarrow> bool" where
  "x \<le> y \<longleftrightarrow> gexpr_state_ord x \<le> gexpr_state_ord y"

definition less_gexpr_state :: "gexpr_state \<Rightarrow> gexpr_state \<Rightarrow> bool" where
  "x < y \<longleftrightarrow> gexpr_state_ord x < gexpr_state_ord y"

instance
proof
  fix x y :: gexpr_state
  show "x \<le> y \<Longrightarrow> y \<le> x \<Longrightarrow> x = y"
    by (cases x; cases y) (simp_all add: less_eq_gexpr_state_def)
qed (auto simp: less_eq_gexpr_state_def less_gexpr_state_def)

end

record memo =
  g_estate :: "nat \<Rightarrow> group_state"
  g_listGExprs :: "nat \<Rightarrow> nat list"
  g_eolMax :: "nat \<Rightarrow> eol"
  ge_estate :: "nat \<Rightarrow> gexpr_state"
  ge_FLogical :: "nat \<Rightarrow> bool"
  ge_pdrgpgroup :: "nat \<Rightarrow> nat list"
  poc_estate :: "nat \<Rightarrow> poc_state"
  pgroupRoot :: nat

definition g_SetState :: "nat \<Rightarrow> group_state \<Rightarrow> memo \<Rightarrow> memo" where
  "g_SetState pgroup estNewState m = m\<lparr>g_estate := (g_estate m)(pgroup := estNewState)\<rparr>"

definition ge_SetState :: "nat \<Rightarrow> gexpr_state \<Rightarrow> memo \<Rightarrow> memo" where
  "ge_SetState pgexpr estNewState m = m\<lparr>ge_estate := (ge_estate m)(pgexpr := estNewState)\<rparr>"

definition g_FExplored :: "memo \<Rightarrow> nat \<Rightarrow> bool" where
  "g_FExplored m pgroup = (g_estExplored \<le> g_estate m pgroup)"

definition g_FImplemented :: "memo \<Rightarrow> nat \<Rightarrow> bool" where
  "g_FImplemented m pgroup = (g_estImplemented \<le> g_estate m pgroup)"

definition ge_FExplored :: "memo \<Rightarrow> nat \<Rightarrow> bool" where
  "ge_FExplored m pgexpr = (ge_estExplored \<le> ge_estate m pgexpr)"

definition ge_FImplemented :: "memo \<Rightarrow> nat \<Rightarrow> bool" where
  "ge_FImplemented m pgexpr = (ge_estImplemented = ge_estate m pgexpr)"

definition ge_FTransitioned :: "memo \<Rightarrow> nat \<Rightarrow> gexpr_state \<Rightarrow> bool" where
  "ge_FTransitioned m pgexpr estate =
     (\<not> ge_FLogical m pgexpr
      \<or> (estate = ge_estExplored \<and> ge_FExplored m pgexpr)
      \<or> (estate = ge_estImplemented \<and> ge_FImplemented m pgexpr))"

definition FRoot :: "memo \<Rightarrow> nat \<Rightarrow> bool" where
  "FRoot m pgroup = (pgroupRoot m = pgroup)"

section \<open>The expressions of a group\<close>

text \<open>The successor of an element of a list, the null pointer after the last one.\<close>

fun list_next :: "'a list \<Rightarrow> 'a \<Rightarrow> 'a option" where
  "list_next (x # y # xs) e = (if x = e then Some y else list_next (y # xs) e)"
| "list_next xs e = None"

definition PgexprFirst :: "memo \<Rightarrow> nat \<Rightarrow> nat option" where
  "PgexprFirst m pgroup = (case g_listGExprs m pgroup of [] \<Rightarrow> None | e # es \<Rightarrow> Some e)"

definition PgexprNext :: "memo \<Rightarrow> nat \<Rightarrow> nat \<Rightarrow> nat option" where
  "PgexprNext m pgroup pgexpr = list_next (g_listGExprs m pgroup) pgexpr"

text \<open>Loops along a list; they are \<open>None\<close> when they do not end.\<close>

partial_function (option) PgexprSkip :: "memo \<Rightarrow> nat \<Rightarrow> nat option \<Rightarrow> bool \<Rightarrow> nat option option" where
  "PgexprSkip m pgroup pgexpr fSkipLogical =
     (case pgexpr of
        None \<Rightarrow> Some None
      | Some e \<Rightarrow> if fSkipLogical = ge_FLogical m e
                  then PgexprSkip m pgroup (PgexprNext m pgroup e) fSkipLogical
                  else Some (Some e))"

definition PgexprSkipLogical :: "memo \<Rightarrow> nat \<Rightarrow> nat option \<Rightarrow> nat option option" where
  "PgexprSkipLogical m pgroup pgexpr =
     (case pgexpr of
        None \<Rightarrow> PgexprSkip m pgroup (PgexprFirst m pgroup) True
      | Some e \<Rightarrow> PgexprSkip m pgroup (PgexprNext m pgroup e) True)"

definition PgexprNextLogical :: "memo \<Rightarrow> nat \<Rightarrow> nat option \<Rightarrow> nat option option" where
  "PgexprNextLogical m pgroup pgexpr =
     (case pgexpr of
        None \<Rightarrow> PgexprSkip m pgroup (PgexprFirst m pgroup) False
      | Some e \<Rightarrow> PgexprSkip m pgroup (PgexprNext m pgroup e) False)"

section \<open>Jobs\<close>

datatype job_type = EjtTest | EjtGroupOptimization | EjtGroupImplementation | EjtGroupExploration
  | EjtGroupExpressionOptimization | EjtGroupExpressionImplementation | EjtGroupExpressionExploration
  | EjtTransformation

text \<open>A child job as the \<open>ScheduleJob\<close> functions create and initialise it.\<close>

datatype child =
    GroupExploration nat
  | GroupImplementation nat
  | GroupOptimization nat "nat option" nat
  | GroupExpressionExploration nat
  | GroupExpressionImplementation nat
  | GroupExpressionOptimization nat nat nat "nat option"
  | Transformation nat nat

text \<open>
  What the actions of a job read and change: the fields of the job, the memo, the list of the
  children scheduled so far, and the pools of the job factory that have been truncated.
\<close>

record 'j job_run =
  rs_job :: 'j
  rs_memo :: memo
  rs_children :: "child list"
  rs_truncated :: "job_type list"

definition schedule :: "child \<Rightarrow> 'j job_run \<Rightarrow> 'j job_run" where
  "schedule c st = st\<lparr>rs_children := rs_children st @ [c]\<rparr>"

text \<open>The \<open>ScheduleJob\<close> functions of the jobs.\<close>

definition jge_ScheduleJob :: "nat \<Rightarrow> 'j job_run \<Rightarrow> 'j job_run" where
  "jge_ScheduleJob pgroup st = schedule (GroupExploration pgroup) st"

definition jgi_ScheduleJob :: "nat \<Rightarrow> 'j job_run \<Rightarrow> 'j job_run" where
  "jgi_ScheduleJob pgroup st = schedule (GroupImplementation pgroup) st"

definition jxe_ScheduleJob :: "nat \<Rightarrow> 'j job_run \<Rightarrow> 'j job_run" where
  "jxe_ScheduleJob pgexpr st = schedule (GroupExpressionExploration pgexpr) st"

definition jxi_ScheduleJob :: "nat \<Rightarrow> 'j job_run \<Rightarrow> 'j job_run" where
  "jxi_ScheduleJob pgexpr st = schedule (GroupExpressionImplementation pgexpr) st"

definition jt_ScheduleJob :: "nat \<Rightarrow> nat \<Rightarrow> 'j job_run \<Rightarrow> 'j job_run" where
  "jt_ScheduleJob pgexpr pxform st = schedule (Transformation pgexpr pxform) st"

definition truncate_pool :: "job_type \<Rightarrow> 'j job_run \<Rightarrow> 'j job_run" where
  "truncate_pool ejt st = st\<lparr>rs_truncated := rs_truncated st @ [ejt]\<rparr>"

definition on_memo :: "(memo \<Rightarrow> memo) \<Rightarrow> 'j job_run \<Rightarrow> 'j job_run" where
  "on_memo f st = st\<lparr>rs_memo := f (rs_memo st)\<rparr>"

definition on_job :: "('j \<Rightarrow> 'j) \<Rightarrow> 'j job_run \<Rightarrow> 'j job_run" where
  "on_job f st = st\<lparr>rs_job := f (rs_job st)\<rparr>"

lemmas run_defs = schedule_def truncate_pool_def on_memo_def on_job_def

section \<open>Group jobs\<close>

record job_group =
  m_pgroup :: nat
  m_pgexprLastScheduled :: "nat option"

definition jg_Init :: "nat \<Rightarrow> job_group" where
  "jg_Init pgroup = \<lparr>m_pgroup = pgroup, m_pgexprLastScheduled = None\<rparr>"

definition PgexprFirstUnschedLogical :: "memo \<Rightarrow> ('a) job_group_scheme \<Rightarrow> nat option" where
  "PgexprFirstUnschedLogical m pj =
     (case m_pgexprLastScheduled pj of
        None \<Rightarrow> PgexprFirst m (m_pgroup pj)
      | Some e \<Rightarrow> PgexprNext m (m_pgroup pj) e)"

definition PgexprFirstUnschedNonLogical :: "memo \<Rightarrow> ('a) job_group_scheme \<Rightarrow> nat option option" where
  "PgexprFirstUnschedNonLogical m pj =
     (case m_pgexprLastScheduled pj of
        None \<Rightarrow> PgexprSkipLogical m (m_pgroup pj) None
      | Some e \<Rightarrow> PgexprSkipLogical m (m_pgroup pj) (Some e))"

text \<open>
  The loop of \<open>FScheduleGroupExpressions\<close> of the exploration and of the implementation job: a
  child for every expression that has not made the transition to the target state.
\<close>

partial_function (option) schedule_loop ::
    "memo \<Rightarrow> nat \<Rightarrow> gexpr_state \<Rightarrow> (nat \<Rightarrow> 'j job_run \<Rightarrow> 'j job_run) \<Rightarrow> nat option \<Rightarrow> nat option \<Rightarrow> 'j job_run \<Rightarrow> (nat option \<times> 'j job_run) option" where
  "schedule_loop m pgroup estate job pgexpr pgexprLast st =
     (case pgexpr of
        None \<Rightarrow> Some (pgexprLast, st)
      | Some e \<Rightarrow>
          if \<not> ge_FTransitioned m e estate
          then schedule_loop m pgroup estate job (PgexprNext m pgroup e) (Some e) (job e st)
          else schedule_loop m pgroup estate job (PgexprNext m pgroup e) pgexprLast st)"

definition schedule_group_expressions ::
    "gexpr_state \<Rightarrow> (nat \<Rightarrow> job_group job_run \<Rightarrow> job_group job_run) \<Rightarrow> job_group job_run \<Rightarrow> (bool \<times> job_group job_run) option" where
  "schedule_group_expressions estate job st = do {
     let m = rs_memo st;
     let pj = rs_job st;
     (pgexprLast, st') \<leftarrow> schedule_loop m (m_pgroup pj) estate job (PgexprFirstUnschedLogical m pj)
                           (m_pgexprLastScheduled pj) st;
     Some (m_pgexprLastScheduled pj \<noteq> pgexprLast, on_job (\<lambda>pj. pj\<lparr>m_pgexprLastScheduled := pgexprLast\<rparr>) st')
   }"

subsection \<open>Group exploration\<close>

datatype jge_event = jge_eevStartedExploration | jge_eevNewChildren | jge_eevExplored

definition jge_rgeev :: "jge_event option list list" where
  "jge_rgeev =
     [[None, Some jge_eevStartedExploration, None],
      [None, Some jge_eevNewChildren, Some jge_eevExplored],
      [None, None, None]]"

definition jge_FScheduleGroupExpressions :: "job_group job_run \<Rightarrow> (bool \<times> job_group job_run) option" where
  "jge_FScheduleGroupExpressions st = schedule_group_expressions ge_estExplored jxe_ScheduleJob st"

definition jge_EevtStartExploration :: "(jge_event, job_group job_run) job_action" where
  "jge_EevtStartExploration st =
     Some (jge_eevStartedExploration, on_memo (g_SetState (m_pgroup (rs_job st)) g_estExploring) st)"

text \<open>\<open>finalize\<close> is \<open>CEngine::FinalizeExploration\<close>.\<close>

definition jge_EevtExploreChildren :: "(memo \<Rightarrow> memo) \<Rightarrow> (jge_event, job_group job_run) job_action" where
  "jge_EevtExploreChildren finalize st = do {
     (fNewJobs, st') \<leftarrow> jge_FScheduleGroupExpressions st;
     if fNewJobs then Some (jge_eevNewChildren, st')
     else (let pgroup = m_pgroup (rs_job st');
               st'' = on_memo (g_SetState pgroup g_estExplored) st'
           in Some (jge_eevExplored, if FRoot (rs_memo st'') pgroup then on_memo finalize st'' else st''))
   }"

definition jge_acts :: "(memo \<Rightarrow> memo) \<Rightarrow> (jge_event, job_group job_run) job_action list" where
  "jge_acts finalize = [jge_EevtStartExploration, jge_EevtExploreChildren finalize]"

definition jge_Init ::
    "(memo \<Rightarrow> memo) \<Rightarrow> nat \<Rightarrow> (jge_event, job_group job_run) job_state_machine
     \<Rightarrow> job_group \<times> (jge_event, job_group job_run) job_state_machine" where
  "jge_Init finalize pgroup jsm =
     (jg_Init pgroup,
      SetAction 1 (jge_EevtExploreChildren finalize)
        (SetAction 0 jge_EevtStartExploration (jsm_Init 3 jge_rgeev jsm)))"

definition jge_FExecute where
  "jge_FExecute timed_out jsm st = FRun timed_out (\<lambda>st. st) 3 jsm st"

subsection \<open>Group implementation\<close>

datatype jgi_event = jgi_eevExploring | jgi_eevExplored | jgi_eevImplementing | jgi_eevImplemented

definition jgi_rgeev :: "jgi_event option list list" where
  "jgi_rgeev =
     [[Some jgi_eevExploring, Some jgi_eevExplored, None],
      [None, Some jgi_eevImplementing, Some jgi_eevImplemented],
      [None, None, None]]"

definition jgi_FScheduleGroupExpressions :: "job_group job_run \<Rightarrow> (bool \<times> job_group job_run) option" where
  "jgi_FScheduleGroupExpressions st = schedule_group_expressions ge_estImplemented jxi_ScheduleJob st"

definition jgi_EevtStartImplementation :: "(jgi_event, job_group job_run) job_action" where
  "jgi_EevtStartImplementation st =
     (let pgroup = m_pgroup (rs_job st)
      in if \<not> g_FExplored (rs_memo st) pgroup
         then Some (jgi_eevExploring, jge_ScheduleJob pgroup st)
         else (let st' = on_memo (g_SetState pgroup g_estImplementing) st
               in Some (jgi_eevExplored,
                    if FRoot (rs_memo st') pgroup
                    then truncate_pool EjtGroupExpressionExploration (truncate_pool EjtGroupExploration st')
                    else st')))"

text \<open>\<open>finalize\<close> is \<open>CEngine::FinalizeImplementation\<close>.\<close>

definition jgi_EevtImplementChildren :: "(memo \<Rightarrow> memo) \<Rightarrow> (jgi_event, job_group job_run) job_action" where
  "jgi_EevtImplementChildren finalize st = do {
     (fNewJobs, st') \<leftarrow> jgi_FScheduleGroupExpressions st;
     if fNewJobs then Some (jgi_eevImplementing, st')
     else (let pgroup = m_pgroup (rs_job st');
               st'' = on_memo (g_SetState pgroup g_estImplemented) st'
           in Some (jgi_eevImplemented, if FRoot (rs_memo st'') pgroup then on_memo finalize st'' else st''))
   }"

definition jgi_acts :: "(memo \<Rightarrow> memo) \<Rightarrow> (jgi_event, job_group job_run) job_action list" where
  "jgi_acts finalize = [jgi_EevtStartImplementation, jgi_EevtImplementChildren finalize]"

definition jgi_Init ::
    "(memo \<Rightarrow> memo) \<Rightarrow> nat \<Rightarrow> (jgi_event, job_group job_run) job_state_machine
     \<Rightarrow> job_group \<times> (jgi_event, job_group job_run) job_state_machine" where
  "jgi_Init finalize pgroup jsm =
     (jg_Init pgroup,
      SetAction 1 (jgi_EevtImplementChildren finalize)
        (SetAction 0 jgi_EevtStartImplementation (jsm_Init 3 jgi_rgeev jsm)))"

definition jgi_FExecute where
  "jgi_FExecute timed_out jsm st = FRun timed_out (\<lambda>st. st) 3 jsm st"

section \<open>Group expression jobs\<close>

record job_gexpr =
  m_fChildrenScheduled :: bool
  m_fXformsScheduled :: bool
  m_pgexpr :: nat

definition jx_Init :: "nat \<Rightarrow> job_gexpr" where
  "jx_Init pgexpr = \<lparr>m_fChildrenScheduled = False, m_fXformsScheduled = False, m_pgexpr = pgexpr\<rparr>"

definition ScheduleTransformations :: "bitset \<Rightarrow> job_gexpr job_run \<Rightarrow> job_gexpr job_run option" where
  "ScheduleTransformations pxfs st =
     es_loop pxfs (\<lambda>xf st. Some (jt_ScheduleJob (m_pgexpr (rs_job st)) xf st)) bsi_new st"

text \<open>
  The xform sets: \<open>PxfsCandidates\<close> of the operator of a group expression, and those of the xform
  factory and of the current search stage.
\<close>

record xform_sets =
  PxfsCandidates :: "nat \<Rightarrow> bitset"
  PxfsExploration :: bitset
  PxfsImplementation :: bitset
  PxfsCurrentStage :: bitset

definition schedule_applicable :: "bitset \<Rightarrow> xform_sets \<Rightarrow> job_gexpr job_run \<Rightarrow> job_gexpr job_run option" where
  "schedule_applicable pxfsPhase xs st = do {
     let pxfs = PxfsCandidates xs (m_pgexpr (rs_job st));
     let pxfs = bs_Intersection pxfs pxfsPhase;
     let pxfs = bs_Intersection pxfs (PxfsCurrentStage xs);
     st' \<leftarrow> ScheduleTransformations pxfs st;
     Some (on_job (\<lambda>pj. pj\<lparr>m_fXformsScheduled := True\<rparr>) st')
   }"

text \<open>A job for each child group, in the order of the children.\<close>

definition schedule_children :: "(nat \<Rightarrow> job_gexpr job_run \<Rightarrow> job_gexpr job_run) \<Rightarrow> job_gexpr job_run \<Rightarrow> job_gexpr job_run" where
  "schedule_children job st =
     (let pdrgpgroup = ge_pdrgpgroup (rs_memo st) (m_pgexpr (rs_job st))
      in on_job (\<lambda>pj. pj\<lparr>m_fChildrenScheduled := True\<rparr>)
           (foldl (\<lambda>st i. job (pdrgpgroup ! i) st) st [0..<length pdrgpgroup]))"

subsection \<open>Group expression exploration\<close>

datatype jxe_event = jxe_eevExploringChildren | jxe_eevChildrenExplored | jxe_eevExploringSelf
  | jxe_eevSelfExplored | jxe_eevFinalized

definition jxe_rgeev :: "jxe_event option list list" where
  "jxe_rgeev =
     [[Some jxe_eevExploringChildren, Some jxe_eevChildrenExplored, None, None],
      [None, Some jxe_eevExploringSelf, Some jxe_eevSelfExplored, None],
      [None, None, None, Some jxe_eevFinalized],
      [None, None, None, None]]"

definition jxe_ScheduleApplicableTransformations :: "xform_sets \<Rightarrow> job_gexpr job_run \<Rightarrow> job_gexpr job_run option" where
  "jxe_ScheduleApplicableTransformations xs st = schedule_applicable (PxfsExploration xs) xs st"

definition jxe_ScheduleChildGroupsJobs :: "job_gexpr job_run \<Rightarrow> job_gexpr job_run" where
  "jxe_ScheduleChildGroupsJobs st = schedule_children jge_ScheduleJob st"

definition jxe_EevtExploreChildren :: "(jxe_event, job_gexpr job_run) job_action" where
  "jxe_EevtExploreChildren st =
     (if \<not> m_fChildrenScheduled (rs_job st)
      then Some (jxe_eevExploringChildren,
             jxe_ScheduleChildGroupsJobs (on_memo (ge_SetState (m_pgexpr (rs_job st)) ge_estExploring) st))
      else Some (jxe_eevChildrenExplored, st))"

definition jxe_EevtExploreSelf :: "xform_sets \<Rightarrow> (jxe_event, job_gexpr job_run) job_action" where
  "jxe_EevtExploreSelf xs st =
     (if \<not> m_fXformsScheduled (rs_job st)
      then map_option (\<lambda>st'. (jxe_eevExploringSelf, st')) (jxe_ScheduleApplicableTransformations xs st)
      else Some (jxe_eevSelfExplored, st))"

definition jxe_EevtFinalize :: "(jxe_event, job_gexpr job_run) job_action" where
  "jxe_EevtFinalize st =
     Some (jxe_eevFinalized, on_memo (ge_SetState (m_pgexpr (rs_job st)) ge_estExplored) st)"

definition jxe_acts :: "xform_sets \<Rightarrow> (jxe_event, job_gexpr job_run) job_action list" where
  "jxe_acts xs = [jxe_EevtExploreChildren, jxe_EevtExploreSelf xs, jxe_EevtFinalize]"

definition jxe_Init ::
    "xform_sets \<Rightarrow> nat \<Rightarrow> (jxe_event, job_gexpr job_run) job_state_machine
     \<Rightarrow> job_gexpr \<times> (jxe_event, job_gexpr job_run) job_state_machine" where
  "jxe_Init xs pgexpr jsm =
     (jx_Init pgexpr,
      SetAction 2 jxe_EevtFinalize (SetAction 1 (jxe_EevtExploreSelf xs)
        (SetAction 0 jxe_EevtExploreChildren (jsm_Init 4 jxe_rgeev jsm))))"

definition jxe_FExecute where
  "jxe_FExecute timed_out jsm st = FRun timed_out (\<lambda>st. st) 4 jsm st"

subsection \<open>Group expression implementation\<close>

datatype jxi_event = jxi_eevImplementingChildren | jxi_eevChildrenImplemented | jxi_eevImplementingSelf
  | jxi_eevSelfImplemented | jxi_eevFinalized

definition jxi_rgeev :: "jxi_event option list list" where
  "jxi_rgeev =
     [[Some jxi_eevImplementingChildren, Some jxi_eevChildrenImplemented, None, None],
      [None, Some jxi_eevImplementingSelf, Some jxi_eevSelfImplemented, None],
      [None, None, None, Some jxi_eevFinalized],
      [None, None, None, None]]"

definition jxi_ScheduleApplicableTransformations :: "xform_sets \<Rightarrow> job_gexpr job_run \<Rightarrow> job_gexpr job_run option" where
  "jxi_ScheduleApplicableTransformations xs st = schedule_applicable (PxfsImplementation xs) xs st"

definition jxi_ScheduleChildGroupsJobs :: "job_gexpr job_run \<Rightarrow> job_gexpr job_run" where
  "jxi_ScheduleChildGroupsJobs st = schedule_children jgi_ScheduleJob st"

definition jxi_EevtImplementChildren :: "(jxi_event, job_gexpr job_run) job_action" where
  "jxi_EevtImplementChildren st =
     (if \<not> m_fChildrenScheduled (rs_job st)
      then Some (jxi_eevImplementingChildren,
             jxi_ScheduleChildGroupsJobs (on_memo (ge_SetState (m_pgexpr (rs_job st)) ge_estImplementing) st))
      else Some (jxi_eevChildrenImplemented, st))"

definition jxi_EevtImplementSelf :: "xform_sets \<Rightarrow> (jxi_event, job_gexpr job_run) job_action" where
  "jxi_EevtImplementSelf xs st =
     (if \<not> m_fXformsScheduled (rs_job st)
      then map_option (\<lambda>st'. (jxi_eevImplementingSelf, st')) (jxi_ScheduleApplicableTransformations xs st)
      else Some (jxi_eevSelfImplemented, st))"

definition jxi_EevtFinalize :: "(jxi_event, job_gexpr job_run) job_action" where
  "jxi_EevtFinalize st =
     Some (jxi_eevFinalized, on_memo (ge_SetState (m_pgexpr (rs_job st)) ge_estImplemented) st)"

definition jxi_acts :: "xform_sets \<Rightarrow> (jxi_event, job_gexpr job_run) job_action list" where
  "jxi_acts xs = [jxi_EevtImplementChildren, jxi_EevtImplementSelf xs, jxi_EevtFinalize]"

definition jxi_Init ::
    "xform_sets \<Rightarrow> nat \<Rightarrow> (jxi_event, job_gexpr job_run) job_state_machine
     \<Rightarrow> job_gexpr \<times> (jxi_event, job_gexpr job_run) job_state_machine" where
  "jxi_Init xs pgexpr jsm =
     (jx_Init pgexpr,
      SetAction 2 jxi_EevtFinalize (SetAction 1 (jxi_EevtImplementSelf xs)
        (SetAction 0 jxi_EevtImplementChildren (jsm_Init 4 jxi_rgeev jsm))))"

definition jxi_FExecute where
  "jxi_FExecute timed_out jsm st = FRun timed_out (\<lambda>st. st) 4 jsm st"

section \<open>Transformation jobs\<close>

datatype jt_event = jt_eevCompleted

record job_transformation =
  jt_pgexpr :: nat
  jt_pxform :: nat

definition jt_rgeev :: "jt_event option list list" where
  "jt_rgeev = [[None, Some jt_eevCompleted], [None, None]]"

text \<open>\<open>transform\<close> applies a transformation to an expression and inserts the results into the memo
  (\<open>CGroupExpression::Transform\<close> and \<open>CEngine::InsertXformResult\<close>).\<close>

definition jt_EevtTransform :: "(nat \<Rightarrow> nat \<Rightarrow> memo \<Rightarrow> memo) \<Rightarrow> (jt_event, job_transformation job_run) job_action" where
  "jt_EevtTransform transform st =
     Some (jt_eevCompleted, on_memo (transform (jt_pgexpr (rs_job st)) (jt_pxform (rs_job st))) st)"

definition jt_acts :: "(nat \<Rightarrow> nat \<Rightarrow> memo \<Rightarrow> memo) \<Rightarrow> (jt_event, job_transformation job_run) job_action list" where
  "jt_acts transform = [jt_EevtTransform transform]"

definition jt_Init ::
    "(nat \<Rightarrow> nat \<Rightarrow> memo \<Rightarrow> memo) \<Rightarrow> nat \<Rightarrow> nat \<Rightarrow> (jt_event, job_transformation job_run) job_state_machine
     \<Rightarrow> job_transformation \<times> (jt_event, job_transformation job_run) job_state_machine" where
  "jt_Init transform pgexpr pxform jsm =
     (\<lparr>jt_pgexpr = pgexpr, jt_pxform = pxform\<rparr>, SetAction 0 (jt_EevtTransform transform) (jsm_Init 2 jt_rgeev jsm))"

definition jt_FExecute where
  "jt_FExecute timed_out jsm st = FRun timed_out (\<lambda>st. st) 2 jsm st"

section \<open>Loops along the expressions of a group\<close>

lemmas schedule_job_defs = jge_ScheduleJob_def jgi_ScheduleJob_def jxe_ScheduleJob_def jxi_ScheduleJob_def
  jt_ScheduleJob_def

lemma list_next_split: "distinct (pre @ e # suf) \<Longrightarrow> list_next (pre @ e # suf) e = hd_opt suf"
proof (induction pre)
  case Nil
  then show ?case by (cases suf) simp_all
next
  case (Cons x pre)
  then show ?case by (cases "pre @ e # suf") (auto simp: append_eq_Cons_conv)
qed

lemma PgexprNext_split:
  "g_listGExprs m g = pre @ e # suf \<Longrightarrow> distinct (pre @ e # suf) \<Longrightarrow> PgexprNext m g e = hd_opt suf"
  by (simp add: PgexprNext_def list_next_split)

lemma PgexprSkip_suffix:
  "g_listGExprs m g = pre @ suf \<Longrightarrow> distinct (pre @ suf) \<Longrightarrow>
     PgexprSkip m g (hd_opt suf) b = Some (hd_opt (dropWhile (\<lambda>e. ge_FLogical m e = b) suf))"
proof (induction suf arbitrary: pre)
  case (Cons e suf)
  then show ?case
    using Cons.IH [of "pre @ [e]"] PgexprNext_split [of m g pre e suf]
    by (auto simp: PgexprSkip.simps [of m g "Some e"])
qed (simp add: PgexprSkip.simps)

text \<open>What a job schedules for a list of expressions.\<close>

definition add_children :: "child list \<Rightarrow> 'j job_run \<Rightarrow> 'j job_run" where
  "add_children cs st = st\<lparr>rs_children := rs_children st @ cs\<rparr>"

lemma add_children_simps [simp]:
  "rs_children (add_children cs st) = rs_children st @ cs" "rs_memo (add_children cs st) = rs_memo st"
  "rs_job (add_children cs st) = rs_job st" "add_children [] st = st"
  "add_children ds (add_children cs st) = add_children (cs @ ds) st"
  by (simp_all add: add_children_def)

lemma schedule_add: "schedule c st = add_children [c] st"
  by (simp add: schedule_def add_children_def)

lemma schedule_loop_suffix:
  fixes st :: "'j job_run"
  shows "g_listGExprs m g = pre @ suf \<Longrightarrow> distinct (pre @ suf) \<Longrightarrow>
     schedule_loop m g estate (\<lambda>e. schedule (c e)) (hd_opt suf) l st =
       (let todo = filter (\<lambda>e. \<not> ge_FTransitioned m e estate) suf
        in Some (if todo = [] then l else Some (last todo), add_children (map c todo) st))"
proof (induction suf arbitrary: pre l st)
  case (Cons e suf)
  have IH: "schedule_loop m g estate (\<lambda>e. schedule (c e)) (hd_opt suf) l st =
       (let todo = filter (\<lambda>e. \<not> ge_FTransitioned m e estate) suf
        in Some (if todo = [] then l else Some (last todo), add_children (map c todo) st))" for l and st :: "'j job_run"
    using Cons.IH [of "pre @ [e]"] Cons.prems by simp
  have "PgexprNext m g e = hd_opt suf" using PgexprNext_split Cons.prems by blast
  then show ?case by (subst schedule_loop.simps) (simp add: IH Let_def, simp add: schedule_add)
qed (simp add: schedule_loop.simps Let_def)

text \<open>
  The expressions of a group up to the last one scheduled have made the transition or have a child
  job; this is what a group job keeps of its group.
\<close>

definition jg_seen :: "gexpr_state \<Rightarrow> (nat \<Rightarrow> child) \<Rightarrow> memo \<Rightarrow> job_group \<Rightarrow> child list \<Rightarrow> bool" where
  "jg_seen estate c m pj cs \<longleftrightarrow> distinct (g_listGExprs m (m_pgroup pj))
     \<and> (case m_pgexprLastScheduled pj of None \<Rightarrow> True
        | Some e \<Rightarrow> \<exists>pre suf. g_listGExprs m (m_pgroup pj) = pre @ e # suf
            \<and> (\<forall>x \<in> set (pre @ [e]). ge_FTransitioned m x estate \<or> c x \<in> set cs))"

definition jg_done :: "gexpr_state \<Rightarrow> (nat \<Rightarrow> child) \<Rightarrow> memo \<Rightarrow> nat \<Rightarrow> child list \<Rightarrow> bool" where
  "jg_done estate c m g cs \<longleftrightarrow> (\<forall>x \<in> set (g_listGExprs m g). ge_FTransitioned m x estate \<or> c x \<in> set cs)"

lemma jg_seenI:
  assumes "distinct (g_listGExprs m (m_pgroup pj))" "m_pgexprLastScheduled pj = Some e"
    "g_listGExprs m (m_pgroup pj) = pre @ e # suf"
    "\<And>x. x \<in> set (pre @ [e]) \<Longrightarrow> ge_FTransitioned m x estate \<or> c x \<in> set cs"
  shows "jg_seen estate c m pj cs"
  unfolding jg_seen_def using assms by auto

lemma jg_seen_start: "distinct (g_listGExprs m g) \<Longrightarrow> jg_seen estate c m (jg_Init g) cs"
  by (simp add: jg_seen_def jg_Init_def)

text \<open>Other jobs append expressions to the group and advance the states of expressions.\<close>

lemma jg_seen_env:
  assumes "jg_seen estate c m pj cs" "g_listGExprs m' (m_pgroup pj) = g_listGExprs m (m_pgroup pj) @ new"
    "distinct (g_listGExprs m' (m_pgroup pj))"
    "\<And>x. ge_FTransitioned m x estate \<Longrightarrow> ge_FTransitioned m' x estate" "set cs \<subseteq> set cs'"
  shows "jg_seen estate c m' pj cs'"
proof (cases "m_pgexprLastScheduled pj")
  case (Some e)
  then obtain pre suf where
    ps: "g_listGExprs m (m_pgroup pj) = pre @ e # suf"
      "\<forall>x \<in> set (pre @ [e]). ge_FTransitioned m x estate \<or> c x \<in> set cs"
    using assms(1) by (auto simp: jg_seen_def)
  have "g_listGExprs m' (m_pgroup pj) = pre @ e # (suf @ new)" using ps(1) assms(2) by simp
  then show ?thesis using ps(2) assms(3-5) Some by (auto simp: jg_seen_def)
qed (use assms(3) in \<open>simp add: jg_seen_def\<close>)

text \<open>The scheduling loop of a group job.\<close>

lemma schedule_group_expressions:
  assumes seen: "jg_seen estate c (rs_memo st) (rs_job st) (rs_children st)"
    and job: "job = (\<lambda>e. schedule (c e))"
  obtains fNew st' where "schedule_group_expressions estate job st = Some (fNew, st')"
    "rs_memo st' = rs_memo st" "m_pgroup (rs_job st') = m_pgroup (rs_job st)"
    "jg_seen estate c (rs_memo st) (rs_job st') (rs_children st')"
    "fNew \<or> (rs_children st' = rs_children st \<and> jg_done estate c (rs_memo st) (m_pgroup (rs_job st)) (rs_children st))"
proof -
  let ?m = "rs_memo st" and ?pj = "rs_job st"
  let ?xs = "g_listGExprs ?m (m_pgroup ?pj)"
  let ?l = "m_pgexprLastScheduled ?pj"
  obtain pre suf where ps: "?xs = pre @ suf" "PgexprFirstUnschedLogical ?m ?pj = hd_opt suf"
    "\<forall>x \<in> set pre. ge_FTransitioned ?m x estate \<or> c x \<in> set (rs_children st)"
    "\<forall>e. ?l = Some e \<longrightarrow> e \<in> set pre"
  proof (cases ?l)
    case None
    then show ?thesis using that [of "[]" ?xs]
      by (simp add: PgexprFirstUnschedLogical_def PgexprFirst_def hd_opt_def)
  next
    case (Some e)
    obtain pre suf where p: "?xs = pre @ e # suf" "distinct (pre @ e # suf)"
      "\<forall>x \<in> set (pre @ [e]). ge_FTransitioned ?m x estate \<or> c x \<in> set (rs_children st)"
      using seen Some by (auto simp: jg_seen_def)
    show ?thesis
      using that [of "pre @ [e]" suf] p PgexprNext_split [OF p(1,2)] Some
      by (simp add: PgexprFirstUnschedLogical_def)
  qed
  have d: "distinct (pre @ suf)" using seen ps(1) by (simp add: jg_seen_def)
  let ?todo = "filter (\<lambda>e. \<not> ge_FTransitioned ?m e estate) suf"
  let ?l' = "if ?todo = [] then ?l else Some (last ?todo)"
  let ?st' = "on_job (\<lambda>pj. pj\<lparr>m_pgexprLastScheduled := ?l'\<rparr>) (add_children (map c ?todo) st)"
  have run: "schedule_group_expressions estate job st = Some (?l \<noteq> ?l', ?st')"
    by (simp add: schedule_group_expressions_def job Let_def ps(2) schedule_loop_suffix [OF ps(1) d])
  have flds: "rs_memo ?st' = ?m" "m_pgroup (rs_job ?st') = m_pgroup ?pj" "m_pgexprLastScheduled (rs_job ?st') = ?l'"
    "rs_children ?st' = rs_children st @ map c ?todo"
    by (simp_all add: on_job_def)
  show thesis
  proof (cases "?todo = []")
    case True
    then have "jg_done estate c ?m (m_pgroup ?pj) (rs_children st)"
      using ps(1,3) by (auto simp: jg_done_def filter_empty_conv)
    moreover have same: "rs_children ?st' = rs_children st" "m_pgexprLastScheduled (rs_job ?st') = ?l"
      by (simp_all add: on_job_def True)
    moreover have "jg_seen estate c ?m (rs_job ?st') (rs_children ?st')"
      using seen unfolding jg_seen_def same flds(2) .
    ultimately show thesis using that [OF run flds(1,2)] flds(4) True by simp
  next
    case False
    let ?e = "last ?todo"
    have e: "?e \<in> set suf" using last_in_set [OF False] by auto
    then have new: "?l \<noteq> ?l'" using ps(4) d False by auto
    obtain p' s' where s: "suf = p' @ ?e # s'" using e by (meson split_list)
    have "ge_FTransitioned ?m x estate \<or> c x \<in> set (rs_children ?st')" if "x \<in> set ((pre @ p') @ [?e])" for x
    proof -
      have "set p' \<subseteq> set suf" using s by (metis Un_upper1 set_append)
      then have "x \<in> set pre \<or> x \<in> set suf" using that e by auto
      then show ?thesis using ps(3) unfolding flds by auto
    qed
    moreover have "?xs = (pre @ p') @ ?e # s'" using ps(1) s by (metis append.assoc)
    moreover have "m_pgexprLastScheduled (rs_job ?st') = Some ?e" by (simp add: on_job_def False)
    ultimately have "jg_seen estate c ?m (rs_job ?st') (rs_children ?st')"
      using jg_seenI [of ?m "rs_job ?st'" ?e "pre @ p'" s'] ps(1) d flds(2) by metis
    then show thesis using that [OF run flds(1,2)] new by blast
  qed
qed

section \<open>The jobs keep the contract\<close>

lemma est_cases: "est < 2 \<Longrightarrow> est = 0 \<or> est = (1 :: nat)" "est < 3 \<Longrightarrow> est = 0 \<or> est = 1 \<or> est = (2 :: nat)"
  by auto

lemma jg_seen_weaken:
  "jg_seen estate c m pj cs \<Longrightarrow> set cs \<subseteq> set cs' \<Longrightarrow> jg_seen estate c m pj cs'"
  using jg_seen_env [of estate c m pj cs m "[]" cs'] by (auto simp: jg_seen_def)

lemma jg_seen_SetState [simp]:
  "jg_seen estate c (g_SetState g s m) pj cs = jg_seen estate c m pj cs"
  by (simp add: jg_seen_def g_SetState_def ge_FTransitioned_def ge_FExplored_def ge_FImplemented_def
      split: option.split)

subsection \<open>Groups\<close>

text \<open>What a group job leaves as it is in the memo, but for the calls of the engine.\<close>

definition memo_frame :: "memo \<Rightarrow> memo \<Rightarrow> bool" where
  "memo_frame m0 m \<longleftrightarrow> g_listGExprs m = g_listGExprs m0 \<and> ge_estate m = ge_estate m0
     \<and> ge_FLogical m = ge_FLogical m0 \<and> pgroupRoot m = pgroupRoot m0"

lemma memo_frame_simps [simp]: "memo_frame m m" "memo_frame m0 (g_SetState g s m) = memo_frame m0 m"
  by (simp_all add: memo_frame_def g_SetState_def)

lemma frame_seen: "memo_frame m0 m \<Longrightarrow> jg_seen estate c m pj cs = jg_seen estate c m0 pj cs"
  by (simp add: memo_frame_def jg_seen_def ge_FTransitioned_def ge_FExplored_def ge_FImplemented_def
      split: option.split)

lemma frame_done: "memo_frame m0 m \<Longrightarrow> jg_done estate c m g cs = jg_done estate c m0 g cs"
  by (simp add: memo_frame_def jg_done_def ge_FTransitioned_def ge_FExplored_def ge_FImplemented_def)

text \<open>
  A group job before its last state has seen a part of its group; in the last state it has seen all
  of it, has set the state of the group and, for the root, called the engine.
\<close>

definition jg_good ::
    "gexpr_state \<Rightarrow> (nat \<Rightarrow> child) \<Rightarrow> group_state \<Rightarrow> (memo \<Rightarrow> memo) \<Rightarrow> memo \<Rightarrow> nat \<Rightarrow> nat \<Rightarrow> job_group job_run \<Rightarrow> bool" where
  "jg_good estate c gstate finalize m0 g est st \<longleftrightarrow> m_pgroup (rs_job st) = g
     \<and> (if est < 2 then memo_frame m0 (rs_memo st) \<and> jg_seen estate c m0 (rs_job st) (rs_children st)
        else jg_done estate c m0 g (rs_children st)
           \<and> (\<exists>m. memo_frame m0 m \<and> g_estate m g = gstate
                \<and> rs_memo st = (if FRoot m g then finalize m else m)))"

lemma g_SetState_state [simp]: "g_estate (g_SetState g s m) g = s"
  by (simp add: g_SetState_def)

lemma jxe_job: "jxe_ScheduleJob = (\<lambda>e. schedule (GroupExpressionExploration e))"
  by (simp add: fun_eq_iff jxe_ScheduleJob_def)

lemma jxi_job: "jxi_ScheduleJob = (\<lambda>e. schedule (GroupExpressionImplementation e))"
  by (simp add: fun_eq_iff jxi_ScheduleJob_def)

lemma job_run_simps [simp]:
  "rs_memo (on_memo f st) = f (rs_memo st)" "rs_job (on_memo f st) = rs_job st"
  "rs_children (on_memo f st) = rs_children st" "rs_truncated (on_memo f st) = rs_truncated st"
  "rs_memo (on_job g st) = rs_memo st" "rs_job (on_job g st) = g (rs_job st)" "rs_children (on_job g st) = rs_children st"
  "rs_memo (truncate_pool t st) = rs_memo st" "rs_job (truncate_pool t st) = rs_job st"
  "rs_children (truncate_pool t st) = rs_children st"
  "rs_memo (schedule c st) = rs_memo st" "rs_job (schedule c st) = rs_job st"
  "rs_children (schedule c st) = rs_children st @ [c]"
  by (simp_all add: run_defs)

lemma jge_action:
  assumes good: "jg_good ge_estExplored GroupExpressionExploration g_estExplored finalize m0 g est st" and est: "est < 2"
  shows "\<exists>e st' t. (jge_acts finalize ! est) st = Some (e, st') \<and> row_find (jge_rgeev ! est) e = Some t
    \<and> jg_good ge_estExplored GroupExpressionExploration g_estExplored finalize m0 g t st'
    \<and> (t = est \<or> (rs_children st' = rs_children st \<and> (t = 2 \<or> 2 - t < 2 - est)))"
proof -
  have fr: "memo_frame m0 (rs_memo st)" and g: "m_pgroup (rs_job st) = g"
    and seen: "jg_seen ge_estExplored GroupExpressionExploration (rs_memo st) (rs_job st) (rs_children st)"
    using good est frame_seen by (auto simp: jg_good_def)
  consider "est = 0" | "est = 1" using est by linarith
  then show ?thesis
  proof cases
    case 1
    then show ?thesis using seen fr g frame_seen [OF fr]
      by (simp add: jge_acts_def jge_rgeev_def jge_EevtStartExploration_def jg_good_def)
  next
    case 2
    obtain fNew st' where run: "jge_FScheduleGroupExpressions st = Some (fNew, st')"
      and m: "rs_memo st' = rs_memo st" "m_pgroup (rs_job st') = m_pgroup (rs_job st)"
      and s: "jg_seen ge_estExplored GroupExpressionExploration (rs_memo st) (rs_job st') (rs_children st')"
      and d: "fNew \<or> (rs_children st' = rs_children st
        \<and> jg_done ge_estExplored GroupExpressionExploration (rs_memo st) (m_pgroup (rs_job st)) (rs_children st))"
      using schedule_group_expressions [OF seen jxe_job] unfolding jge_FScheduleGroupExpressions_def by metis
    show ?thesis
    proof (cases fNew)
      case True
      then show ?thesis using 2 run m s fr g frame_seen [OF fr]
        by (simp add: jge_acts_def jge_rgeev_def jge_EevtExploreChildren_def jg_good_def)
    next
      case False
      then show ?thesis using 2 run m d fr g frame_done [OF fr]
        by (auto simp: jge_acts_def jge_rgeev_def jge_EevtExploreChildren_def jg_good_def Let_def
            intro: exI [of _ "g_SetState g s (rs_memo st)" for s])
    qed
  qed
qed

lemma jge_table:
  "length (jge_acts finalize) = 2" "length jge_rgeev = 3" "est \<le> 2 \<Longrightarrow> length (jge_rgeev ! est) = 3"
  by (auto simp: jge_acts_def jge_rgeev_def le_Suc_eq numeral_2_eq_2)

interpretation jge: job_actions timed_out "\<lambda>st. st" jge_rgeev "jge_acts finalize"
  "jg_good ge_estExplored GroupExpressionExploration g_estExplored finalize m0 g" "\<lambda>est st. 2 - est" rs_children
  for timed_out finalize m0 g
  by (unfold_locales, unfold jge_table(1,2)) (erule (1) jge_action | simp add: jge_table)+

lemma jgi_action:
  assumes good: "jg_good ge_estImplemented GroupExpressionImplementation g_estImplemented finalize m0 g est st" and est: "est < 2"
  shows "\<exists>e st' t. (jgi_acts finalize ! est) st = Some (e, st') \<and> row_find (jgi_rgeev ! est) e = Some t
    \<and> jg_good ge_estImplemented GroupExpressionImplementation g_estImplemented finalize m0 g t st'
    \<and> (t = est \<or> (rs_children st' = rs_children st \<and> (t = 2 \<or> 2 - t < 2 - est)))"
proof -
  have fr: "memo_frame m0 (rs_memo st)" and g: "m_pgroup (rs_job st) = g"
    and seen: "jg_seen ge_estImplemented GroupExpressionImplementation (rs_memo st) (rs_job st) (rs_children st)"
    using good est frame_seen by (auto simp: jg_good_def)
  consider "est = 0" "g_FExplored (rs_memo st) (m_pgroup (rs_job st))"
    | "est = 0" "\<not> g_FExplored (rs_memo st) (m_pgroup (rs_job st))" | "est = 1"
    using est by linarith
  then show ?thesis
  proof cases
    case 1
    then show ?thesis using seen fr g frame_seen [OF fr]
      by (simp add: jgi_acts_def jgi_rgeev_def jgi_EevtStartImplementation_def jg_good_def Let_def)
  next
    case 2
    then show ?thesis using jg_seen_weaken [OF seen] fr g frame_seen [OF fr]
      by (simp add: jgi_acts_def jgi_rgeev_def jgi_EevtStartImplementation_def jg_good_def jge_ScheduleJob_def subset_insertI)
  next
    case 3
    obtain fNew st' where run: "jgi_FScheduleGroupExpressions st = Some (fNew, st')"
      and m: "rs_memo st' = rs_memo st" "m_pgroup (rs_job st') = m_pgroup (rs_job st)"
      and s: "jg_seen ge_estImplemented GroupExpressionImplementation (rs_memo st) (rs_job st') (rs_children st')"
      and d: "fNew \<or> (rs_children st' = rs_children st
        \<and> jg_done ge_estImplemented GroupExpressionImplementation (rs_memo st) (m_pgroup (rs_job st)) (rs_children st))"
      using schedule_group_expressions [OF seen jxi_job] unfolding jgi_FScheduleGroupExpressions_def by metis
    show ?thesis
    proof (cases fNew)
      case True
      then show ?thesis using 3 run m s fr g frame_seen [OF fr]
        by (simp add: jgi_acts_def jgi_rgeev_def jgi_EevtImplementChildren_def jg_good_def)
    next
      case False
      then show ?thesis using 3 run m d fr g frame_done [OF fr]
        by (auto simp: jgi_acts_def jgi_rgeev_def jgi_EevtImplementChildren_def jg_good_def Let_def
            intro: exI [of _ "g_SetState g s (rs_memo st)" for s])
    qed
  qed
qed

lemma jgi_table:
  "length (jgi_acts finalize) = 2" "length jgi_rgeev = 3" "est \<le> 2 \<Longrightarrow> length (jgi_rgeev ! est) = 3"
  by (auto simp: jgi_acts_def jgi_rgeev_def le_Suc_eq numeral_2_eq_2)

interpretation jgi: job_actions timed_out "\<lambda>st. st" jgi_rgeev "jgi_acts finalize"
  "jg_good ge_estImplemented GroupExpressionImplementation g_estImplemented finalize m0 g" "\<lambda>est st. 2 - est" rs_children
  for timed_out finalize m0 g
  by (unfold_locales, unfold jgi_table(1,2)) (erule (1) jgi_action | simp add: jgi_table)+

subsection \<open>Group expressions\<close>

definition applicable :: "xform_sets \<Rightarrow> bitset \<Rightarrow> nat \<Rightarrow> nat set" where
  "applicable xs pxfsPhase e = bs_set (PxfsCandidates xs e) \<inter> bs_set pxfsPhase \<inter> bs_set (PxfsCurrentStage xs)"

definition xforms_ok :: "xform_sets \<Rightarrow> bitset \<Rightarrow> nat \<Rightarrow> bool" where
  "xforms_ok xs pxfsPhase e \<longleftrightarrow> bs_compat (PxfsCandidates xs e) pxfsPhase \<and> bs_compat (PxfsCandidates xs e) (PxfsCurrentStage xs)"

lemma ScheduleTransformations_all:
  assumes "bs_wf pxfs"
  shows "ScheduleTransformations pxfs st =
    Some (add_children (map (Transformation (m_pgexpr (rs_job st))) (sorted_list_of_set (bs_set pxfs))) st)"
proof -
  have f: "fold (\<lambda>xf s. schedule (Transformation (m_pgexpr (rs_job s)) xf) s) ts s
      = add_children (map (Transformation (m_pgexpr (rs_job s))) ts) s"
    for ts and s :: "job_gexpr job_run"
    by (induction ts arbitrary: s) (simp_all add: schedule_add)
  let ?g = "\<lambda>xf (s :: job_gexpr job_run). schedule (Transformation (m_pgexpr (rs_job s)) xf) s"
  show ?thesis
    using es_loop_all [OF assms, of "\<lambda>xf s. Some (?g xf s)" ?g st] f [of "sorted_list_of_set (bs_set pxfs)" st]
    unfolding ScheduleTransformations_def jt_ScheduleJob_def by simp
qed

lemma schedule_applicable_all:
  assumes "xforms_ok xs pxfsPhase (m_pgexpr (rs_job st))"
  shows "schedule_applicable pxfsPhase xs st = Some (on_job (\<lambda>pj. pj\<lparr>m_fXformsScheduled := True\<rparr>)
     (add_children (map (Transformation (m_pgexpr (rs_job st)))
        (sorted_list_of_set (applicable xs pxfsPhase (m_pgexpr (rs_job st))))) st))"
proof -
  let ?c = "PxfsCandidates xs (m_pgexpr (rs_job st))"
  have c: "bs_compat ?c pxfsPhase" "bs_compat ?c (PxfsCurrentStage xs)" using assms by (simp_all add: xforms_ok_def)
  note i = bs_Intersection_full [OF c(1)]
  have "bs_compat (bs_Intersection ?c pxfsPhase) (PxfsCurrentStage xs)"
    using c(2) i by (simp add: bs_compat_def)
  note j = bs_Intersection_full [OF this]
  show ?thesis
    using i j by (simp add: schedule_applicable_def ScheduleTransformations_all applicable_def)
qed

lemma schedule_children_all:
  assumes "job = (\<lambda>g. schedule (c g))"
  shows "schedule_children job st = on_job (\<lambda>pj. pj\<lparr>m_fChildrenScheduled := True\<rparr>)
     (add_children (map c (ge_pdrgpgroup (rs_memo st) (m_pgexpr (rs_job st)))) st)"
proof -
  have "foldl (\<lambda>s i. schedule (c (gs ! i)) s) st [0..<k] = add_children (map c (take k gs)) st"
    if "k \<le> length gs" for k and gs :: "nat list"
    using that by (induction k) (simp_all add: take_Suc_conv_app_nth schedule_add)
  from this [OF order_refl] show ?thesis by (simp add: schedule_children_def assms Let_def)
qed

text \<open>
  A group expression job knows that its children and its transformations have been scheduled when
  its flags say so; it leaves its first state only with the first flag and the second one only with
  both.
\<close>

definition jx_good ::
    "(nat \<Rightarrow> child) \<Rightarrow> gexpr_state \<Rightarrow> bitset \<Rightarrow> xform_sets \<Rightarrow> nat \<Rightarrow> nat list \<Rightarrow> nat \<Rightarrow> job_gexpr job_run \<Rightarrow> bool" where
  "jx_good c gstate pxfsPhase xs e gs est st \<longleftrightarrow>
     (let pj = rs_job st; m = rs_memo st; cs = set (rs_children st)
      in xforms_ok xs pxfsPhase e \<and> m_pgexpr pj = e \<and> ge_pdrgpgroup m e = gs
       \<and> (m_fChildrenScheduled pj \<longrightarrow> c ` set gs \<subseteq> cs)
       \<and> (m_fXformsScheduled pj \<longrightarrow> Transformation e ` applicable xs pxfsPhase e \<subseteq> cs)
       \<and> (1 \<le> est \<longrightarrow> m_fChildrenScheduled pj) \<and> (2 \<le> est \<longrightarrow> m_fXformsScheduled pj)
       \<and> (est = 3 \<longrightarrow> ge_estate m e = gstate))"

lemma ge_SetState_simps [simp]:
  "ge_pdrgpgroup (ge_SetState e s m) = ge_pdrgpgroup m" "ge_estate (ge_SetState e s m) e = s"
  by (simp_all add: ge_SetState_def)

lemma finite_applicable: "xforms_ok xs pxfsPhase e \<Longrightarrow> finite (applicable xs pxfsPhase e)"
  by (simp add: xforms_ok_def applicable_def bs_compat_def finite_bs_set)

lemma jxe_action:
  assumes good: "jx_good GroupExploration ge_estExplored (PxfsExploration xs) xs x gs est st" and est: "est < 3"
  shows "\<exists>e st' t. (jxe_acts xs ! est) st = Some (e, st') \<and> row_find (jxe_rgeev ! est) e = Some t
    \<and> jx_good GroupExploration ge_estExplored (PxfsExploration xs) xs x gs t st'
    \<and> (t = est \<or> (rs_children st' = rs_children st \<and> (t = 3 \<or> 3 - t < 3 - est)))"
proof -
  have ok: "xforms_ok xs (PxfsExploration xs) (m_pgexpr (rs_job st))" using good by (auto simp add: jx_good_def Let_def)
  have job: "jge_ScheduleJob = (\<lambda>g. schedule (GroupExploration g))" by (simp add: fun_eq_iff jge_ScheduleJob_def)
  consider "est = 0" | "est = 1" | "est = 2" using est by linarith
  then show ?thesis
  proof cases
    case 1
    then show ?thesis using good
      by (cases "m_fChildrenScheduled (rs_job st)")
        (auto simp: jxe_acts_def jxe_rgeev_def jxe_EevtExploreChildren_def jxe_ScheduleChildGroupsJobs_def
          schedule_children_all [OF job] jx_good_def Let_def)
  next
    case 2
    then show ?thesis using good finite_applicable [OF ok]
      by (cases "m_fXformsScheduled (rs_job st)")
        (auto simp: jxe_acts_def jxe_rgeev_def jxe_EevtExploreSelf_def jxe_ScheduleApplicableTransformations_def
          schedule_applicable_all [OF ok] jx_good_def Let_def)
  next
    case 3
    then show ?thesis using good
      by (simp add: jxe_acts_def jxe_rgeev_def jxe_EevtFinalize_def jx_good_def Let_def numeral_2_eq_2)
  qed
qed

lemma jxe_table:
  "length (jxe_acts xs) = 3" "length jxe_rgeev = 4" "est \<le> 3 \<Longrightarrow> length (jxe_rgeev ! est) = 4"
  by (auto simp: jxe_acts_def jxe_rgeev_def le_Suc_eq numeral_3_eq_3)

interpretation jxe: job_actions timed_out "\<lambda>st. st" jxe_rgeev "jxe_acts xs"
  "jx_good GroupExploration ge_estExplored (PxfsExploration xs) xs x gs" "\<lambda>est st. 3 - est" rs_children
  for timed_out xs x gs
  by (unfold_locales, unfold jxe_table(1,2)) (erule (1) jxe_action | simp add: jxe_table)+

lemma jxi_action:
  assumes good: "jx_good GroupImplementation ge_estImplemented (PxfsImplementation xs) xs x gs est st" and est: "est < 3"
  shows "\<exists>e st' t. (jxi_acts xs ! est) st = Some (e, st') \<and> row_find (jxi_rgeev ! est) e = Some t
    \<and> jx_good GroupImplementation ge_estImplemented (PxfsImplementation xs) xs x gs t st'
    \<and> (t = est \<or> (rs_children st' = rs_children st \<and> (t = 3 \<or> 3 - t < 3 - est)))"
proof -
  have ok: "xforms_ok xs (PxfsImplementation xs) (m_pgexpr (rs_job st))" using good by (auto simp add: jx_good_def Let_def)
  have job: "jgi_ScheduleJob = (\<lambda>g. schedule (GroupImplementation g))" by (simp add: fun_eq_iff jgi_ScheduleJob_def)
  consider "est = 0" | "est = 1" | "est = 2" using est by linarith
  then show ?thesis
  proof cases
    case 1
    then show ?thesis using good
      by (cases "m_fChildrenScheduled (rs_job st)")
        (auto simp: jxi_acts_def jxi_rgeev_def jxi_EevtImplementChildren_def jxi_ScheduleChildGroupsJobs_def
          schedule_children_all [OF job] jx_good_def Let_def)
  next
    case 2
    then show ?thesis using good finite_applicable [OF ok]
      by (cases "m_fXformsScheduled (rs_job st)")
        (auto simp: jxi_acts_def jxi_rgeev_def jxi_EevtImplementSelf_def jxi_ScheduleApplicableTransformations_def
          schedule_applicable_all [OF ok] jx_good_def Let_def)
  next
    case 3
    then show ?thesis using good
      by (simp add: jxi_acts_def jxi_rgeev_def jxi_EevtFinalize_def jx_good_def Let_def numeral_2_eq_2)
  qed
qed

lemma jxi_table:
  "length (jxi_acts xs) = 3" "length jxi_rgeev = 4" "est \<le> 3 \<Longrightarrow> length (jxi_rgeev ! est) = 4"
  by (auto simp: jxi_acts_def jxi_rgeev_def le_Suc_eq numeral_3_eq_3)

interpretation jxi: job_actions timed_out "\<lambda>st. st" jxi_rgeev "jxi_acts xs"
  "jx_good GroupImplementation ge_estImplemented (PxfsImplementation xs) xs x gs" "\<lambda>est st. 3 - est" rs_children
  for timed_out xs x gs
  by (unfold_locales, unfold jxi_table(1,2)) (erule (1) jxi_action | simp add: jxi_table)+

subsection \<open>Transformations\<close>

lemma jt_table:
  "length (jt_acts transform) = 1" "length jt_rgeev = 2" "est \<le> 1 \<Longrightarrow> length (jt_rgeev ! est) = 2"
  by (auto simp: jt_acts_def jt_rgeev_def le_Suc_eq)

interpretation jt: job_actions timed_out "\<lambda>st. st" jt_rgeev "jt_acts transform"
  "\<lambda>est st. True" "\<lambda>est st. 1 - est" rs_children
  for timed_out transform
  by (unfold_locales, unfold jt_table(1,2)) (simp_all add: jt_table, simp_all add: jt_acts_def jt_EevtTransform_def jt_rgeev_def)

section \<open>Properties\<close>

text \<open>The invariant of a group job between its runs.\<close>

definition jge_ok :: "(memo \<Rightarrow> memo) \<Rightarrow> (jge_event, job_group job_run) job_state_machine \<Rightarrow> job_group job_run \<Rightarrow> bool" where
  "jge_ok finalize jsm st \<longleftrightarrow> jsm_loaded jge_rgeev (jge_acts finalize) jsm \<and> m_tenumstate (m_sm jsm) < 2
     \<and> jg_seen ge_estExplored GroupExpressionExploration (rs_memo st) (rs_job st) (rs_children st)"

definition jgi_ok :: "(memo \<Rightarrow> memo) \<Rightarrow> (jgi_event, job_group job_run) job_state_machine \<Rightarrow> job_group job_run \<Rightarrow> bool" where
  "jgi_ok finalize jsm st \<longleftrightarrow> jsm_loaded jgi_rgeev (jgi_acts finalize) jsm \<and> m_tenumstate (m_sm jsm) < 2
     \<and> jg_seen ge_estImplemented GroupExpressionImplementation (rs_memo st) (rs_job st) (rs_children st)"

text \<open>Initialising a job establishes its invariant.\<close>

lemma jge_Init_ok:
  assumes "distinct (g_listGExprs m g)"
  shows "jge_ok finalize (snd (jge_Init finalize g jsm))
    \<lparr>rs_job = fst (jge_Init finalize g jsm), rs_memo = m, rs_children = cs, rs_truncated = ts\<rparr>"
proof -
  have "jsm_loaded jge_rgeev (jge_acts finalize) (snd (jge_Init finalize g jsm))"
    "m_tenumstate (m_sm (snd (jge_Init finalize g jsm))) = 0"
    by (simp_all add: jsm_loaded_def jge_Init_def jsm_Init_simps jge_rgeev_def jge_acts_def numeral_3_eq_3)
  then show ?thesis using jg_seen_start [OF assms] by (simp add: jge_ok_def) (simp add: jge_Init_def)
qed

lemma jgi_Init_ok:
  assumes "distinct (g_listGExprs m g)"
  shows "jgi_ok finalize (snd (jgi_Init finalize g jsm))
    \<lparr>rs_job = fst (jgi_Init finalize g jsm), rs_memo = m, rs_children = cs, rs_truncated = ts\<rparr>"
proof -
  have "jsm_loaded jgi_rgeev (jgi_acts finalize) (snd (jgi_Init finalize g jsm))"
    "m_tenumstate (m_sm (snd (jgi_Init finalize g jsm))) = 0"
    by (simp_all add: jsm_loaded_def jgi_Init_def jsm_Init_simps jgi_rgeev_def jgi_acts_def numeral_3_eq_3)
  then show ?thesis using jg_seen_start [OF assms] by (simp add: jgi_ok_def) (simp add: jgi_Init_def)
qed

text \<open>A run of a group exploration job returns.  Either the job is not completed and keeps its
  invariant, so that it can run again; or it is completed and has scheduled no child in this run,
  and then it has timed out, or every expression of the group is explored or was given to a child
  job, and the group is set explored before the engine is called for the root.\<close>

theorem GroupExploration_run:
  assumes "jge_ok finalize jsm st"
  shows "\<exists>b jsm' st'. jge_FExecute timed_out jsm st = Some (Inr (b, jsm', st'))
    \<and> (\<not> b \<longrightarrow> jge_ok finalize jsm' st')
    \<and> (b \<longrightarrow> rs_children st' = rs_children st \<and> (timed_out st'
         \<or> (\<forall>x \<in> set (g_listGExprs (rs_memo st) (m_pgroup (rs_job st))).
               ge_FTransitioned (rs_memo st) x ge_estExplored \<or> GroupExpressionExploration x \<in> set (rs_children st))
           \<and> (\<exists>m. memo_frame (rs_memo st) m \<and> g_estate m (m_pgroup (rs_job st)) = g_estExplored
                \<and> rs_memo st' = (if FRoot m (m_pgroup (rs_job st)) then finalize m else m))))"
proof -
  let ?m = "rs_memo st" and ?g = "m_pgroup (rs_job st)"
  have ld: "jsm_loaded jge_rgeev (jge_acts finalize) jsm"
    and lt: "m_tenumstate (m_sm jsm) < length (jge_acts finalize)"
    and good: "jg_good ge_estExplored GroupExpressionExploration g_estExplored finalize ?m ?g (m_tenumstate (m_sm jsm)) st"
    using assms by (simp_all add: jge_ok_def jge_table jg_good_def)
  obtain b jsm' st' where run: "jge_FExecute timed_out jsm st = Some (Inr (b, jsm', st'))"
    "jsm_loaded jge_rgeev (jge_acts finalize) jsm'" "b \<longrightarrow> rs_children st' = rs_children st"
    "b \<longrightarrow> jg_good ge_estExplored GroupExpressionExploration g_estExplored finalize ?m ?g 2 st' \<or> timed_out st'"
    "\<not> b \<longrightarrow> m_tenumstate (m_sm jsm') < 2
      \<and> jg_good ge_estExplored GroupExpressionExploration g_estExplored finalize ?m ?g (m_tenumstate (m_sm jsm')) st'"
    using jge.run [OF ld good lt, of timed_out] unfolding jge_table(1) jge_FExecute_def
    by (auto simp: numeral_3_eq_3)
  have "\<not> b \<longrightarrow> jge_ok finalize jsm' st'"
    using run(2,5) frame_seen by (auto simp: jge_ok_def jg_good_def)
  moreover have "b \<longrightarrow> timed_out st' \<or> (jg_done ge_estExplored GroupExpressionExploration ?m ?g (rs_children st)
      \<and> (\<exists>m. memo_frame ?m m \<and> g_estate m ?g = g_estExplored \<and> rs_memo st' = (if FRoot m ?g then finalize m else m)))"
    using run(3,4) by (auto simp: jg_good_def)
  ultimately show ?thesis using run(1,3) unfolding jg_done_def by blast
qed

text \<open>A group with two logical expressions, the first of them explored.\<close>

definition memo0 :: memo where
  "memo0 = \<lparr>g_estate = (\<lambda>_. g_estExploring), g_listGExprs = (\<lambda>_. [10, 11]), g_eolMax = (\<lambda>_. EolHigh),
     ge_estate = (\<lambda>x. if x = 10 then ge_estExplored else ge_estUnexplored), ge_FLogical = (\<lambda>_. True),
     ge_pdrgpgroup = (\<lambda>_. []), poc_estate = (\<lambda>_. poc_estUnoptimized), pgroupRoot = 0\<rparr>"

definition run0 :: "'j \<Rightarrow> 'j job_run" where
  "run0 pj = \<lparr>rs_job = pj, rs_memo = memo0, rs_children = [], rs_truncated = []\<rparr>"

theorem GroupExploration_run_witness:
  "\<exists>jsm' st'. jge_FExecute (\<lambda>_. False) (snd (jge_Init id 5 (jsm_new 3))) (run0 (fst (jge_Init id 5 (jsm_new 3))))
     = Some (Inr (False, jsm', st'))"
proof -
  let ?j = "jge_Init id 5 (jsm_new 3)"
  have "jge_ok id (snd ?j) (run0 (fst ?j))" unfolding run0_def by (rule jge_Init_ok) (simp add: memo0_def)
  from GroupExploration_run [OF this, of "\<lambda>_. False"]
  obtain b jsm' st' where r: "jge_FExecute (\<lambda>_. False) (snd ?j) (run0 (fst ?j)) = Some (Inr (b, jsm', st'))"
    "b \<longrightarrow> (\<forall>x \<in> set (g_listGExprs memo0 5). ge_FTransitioned memo0 x ge_estExplored)"
    by (auto simp: run0_def jge_Init_def jg_Init_def)
  have "\<not> ge_FTransitioned memo0 11 ge_estExplored"
    by (simp add: memo0_def ge_FTransitioned_def ge_FExplored_def less_eq_gexpr_state_def)
  then have "\<not> b" using r(2) by (auto simp: memo0_def)
  then show ?thesis using r(1) by auto
qed

text \<open>The same of a group implementation job.\<close>

lemma GroupImplementation_run:
  assumes "jgi_ok finalize jsm st"
  shows "\<exists>b jsm' st'. jgi_FExecute timed_out jsm st = Some (Inr (b, jsm', st'))
    \<and> (\<not> b \<longrightarrow> jgi_ok finalize jsm' st')
    \<and> (b \<longrightarrow> rs_children st' = rs_children st \<and> (timed_out st'
         \<or> (\<forall>x \<in> set (g_listGExprs (rs_memo st) (m_pgroup (rs_job st))).
               ge_FTransitioned (rs_memo st) x ge_estImplemented \<or> GroupExpressionImplementation x \<in> set (rs_children st))
           \<and> (\<exists>m. memo_frame (rs_memo st) m \<and> g_estate m (m_pgroup (rs_job st)) = g_estImplemented
                \<and> rs_memo st' = (if FRoot m (m_pgroup (rs_job st)) then finalize m else m))))"
proof -
  let ?m = "rs_memo st" and ?g = "m_pgroup (rs_job st)"
  have ld: "jsm_loaded jgi_rgeev (jgi_acts finalize) jsm"
    and lt: "m_tenumstate (m_sm jsm) < length (jgi_acts finalize)"
    and good: "jg_good ge_estImplemented GroupExpressionImplementation g_estImplemented finalize ?m ?g (m_tenumstate (m_sm jsm)) st"
    using assms by (simp_all add: jgi_ok_def jgi_table jg_good_def)
  obtain b jsm' st' where run: "jgi_FExecute timed_out jsm st = Some (Inr (b, jsm', st'))"
    "jsm_loaded jgi_rgeev (jgi_acts finalize) jsm'" "b \<longrightarrow> rs_children st' = rs_children st"
    "b \<longrightarrow> jg_good ge_estImplemented GroupExpressionImplementation g_estImplemented finalize ?m ?g 2 st' \<or> timed_out st'"
    "\<not> b \<longrightarrow> m_tenumstate (m_sm jsm') < 2
      \<and> jg_good ge_estImplemented GroupExpressionImplementation g_estImplemented finalize ?m ?g (m_tenumstate (m_sm jsm')) st'"
    using jgi.run [OF ld good lt, of timed_out] unfolding jgi_table(1) jgi_FExecute_def
    by (auto simp: numeral_3_eq_3)
  have "\<not> b \<longrightarrow> jgi_ok finalize jsm' st'"
    using run(2,5) frame_seen by (auto simp: jgi_ok_def jg_good_def)
  moreover have "b \<longrightarrow> timed_out st' \<or> (jg_done ge_estImplemented GroupExpressionImplementation ?m ?g (rs_children st)
      \<and> (\<exists>m. memo_frame ?m m \<and> g_estate m ?g = g_estImplemented \<and> rs_memo st' = (if FRoot m ?g then finalize m else m)))"
    using run(3,4) by (auto simp: jg_good_def)
  ultimately show ?thesis using run(1,3) unfolding jg_done_def by blast
qed

text \<open>The invariant of a group expression job between its runs.\<close>

definition jxe_ok :: "xform_sets \<Rightarrow> (jxe_event, job_gexpr job_run) job_state_machine \<Rightarrow> job_gexpr job_run \<Rightarrow> bool" where
  "jxe_ok xs jsm st \<longleftrightarrow> jsm_loaded jxe_rgeev (jxe_acts xs) jsm \<and> m_tenumstate (m_sm jsm) < 3
     \<and> jx_good GroupExploration ge_estExplored (PxfsExploration xs) xs (m_pgexpr (rs_job st))
         (ge_pdrgpgroup (rs_memo st) (m_pgexpr (rs_job st))) (m_tenumstate (m_sm jsm)) st"

definition jxi_ok :: "xform_sets \<Rightarrow> (jxi_event, job_gexpr job_run) job_state_machine \<Rightarrow> job_gexpr job_run \<Rightarrow> bool" where
  "jxi_ok xs jsm st \<longleftrightarrow> jsm_loaded jxi_rgeev (jxi_acts xs) jsm \<and> m_tenumstate (m_sm jsm) < 3
     \<and> jx_good GroupImplementation ge_estImplemented (PxfsImplementation xs) xs (m_pgexpr (rs_job st))
         (ge_pdrgpgroup (rs_memo st) (m_pgexpr (rs_job st))) (m_tenumstate (m_sm jsm)) st"

lemma jxe_Init_ok:
  assumes "xforms_ok xs (PxfsExploration xs) x"
  shows "jxe_ok xs (snd (jxe_Init xs x jsm))
    \<lparr>rs_job = fst (jxe_Init xs x jsm), rs_memo = m, rs_children = cs, rs_truncated = ts\<rparr>"
proof -
  have "jsm_loaded jxe_rgeev (jxe_acts xs) (snd (jxe_Init xs x jsm))"
    "m_tenumstate (m_sm (snd (jxe_Init xs x jsm))) = 0"
    by (simp_all add: jsm_loaded_def jxe_Init_def jsm_Init_simps jxe_rgeev_def jxe_acts_def eval_nat_numeral)
  then show ?thesis using assms by (simp add: jxe_ok_def jx_good_def Let_def) (simp add: jxe_Init_def jx_Init_def)
qed

lemma jxi_Init_ok:
  assumes "xforms_ok xs (PxfsImplementation xs) x"
  shows "jxi_ok xs (snd (jxi_Init xs x jsm))
    \<lparr>rs_job = fst (jxi_Init xs x jsm), rs_memo = m, rs_children = cs, rs_truncated = ts\<rparr>"
proof -
  have "jsm_loaded jxi_rgeev (jxi_acts xs) (snd (jxi_Init xs x jsm))"
    "m_tenumstate (m_sm (snd (jxi_Init xs x jsm))) = 0"
    by (simp_all add: jsm_loaded_def jxi_Init_def jsm_Init_simps jxi_rgeev_def jxi_acts_def eval_nat_numeral)
  then show ?thesis using assms by (simp add: jxi_ok_def jx_good_def Let_def) (simp add: jxi_Init_def jx_Init_def)
qed

text \<open>C17 A run of a group expression exploration job returns.  Either it keeps its invariant, or it
  is completed, has scheduled no child in this run, and unless it has timed out every child group
  has been given an exploration job, every applicable xform (a candidate of the operator that is an
  exploration xform of the current search stage) a transformation job, and the expression is
  set explored.\<close>

theorem GroupExpressionExploration_run:
  assumes "jxe_ok xs jsm st"
  shows "\<exists>b jsm' st'. jxe_FExecute timed_out jsm st = Some (Inr (b, jsm', st'))
    \<and> (\<not> b \<longrightarrow> jxe_ok xs jsm' st')
    \<and> (b \<longrightarrow> rs_children st' = rs_children st \<and> (timed_out st'
         \<or> (let e = m_pgexpr (rs_job st)
            in (\<forall>g \<in> set (ge_pdrgpgroup (rs_memo st) e). GroupExploration g \<in> set (rs_children st))
             \<and> (\<forall>xf \<in> bs_set (PxfsCandidates xs e) \<inter> bs_set (PxfsExploration xs) \<inter> bs_set (PxfsCurrentStage xs).
                   Transformation e xf \<in> set (rs_children st))
             \<and> ge_estate (rs_memo st') e = ge_estExplored)))"
proof -
  let ?e = "m_pgexpr (rs_job st)"
  let ?gs = "ge_pdrgpgroup (rs_memo st) ?e"
  have ld: "jsm_loaded jxe_rgeev (jxe_acts xs) jsm"
    and lt: "m_tenumstate (m_sm jsm) < length (jxe_acts xs)"
    and good: "jx_good GroupExploration ge_estExplored (PxfsExploration xs) xs ?e ?gs (m_tenumstate (m_sm jsm)) st"
    using assms by (simp_all add: jxe_ok_def jxe_table)
  obtain b jsm' st' where run: "jxe_FExecute timed_out jsm st = Some (Inr (b, jsm', st'))"
    "jsm_loaded jxe_rgeev (jxe_acts xs) jsm'" "b \<longrightarrow> rs_children st' = rs_children st"
    "b \<longrightarrow> jx_good GroupExploration ge_estExplored (PxfsExploration xs) xs ?e ?gs 3 st' \<or> timed_out st'"
    "\<not> b \<longrightarrow> m_tenumstate (m_sm jsm') < 3
      \<and> jx_good GroupExploration ge_estExplored (PxfsExploration xs) xs ?e ?gs (m_tenumstate (m_sm jsm')) st'"
    using jxe.run [OF ld good lt, of timed_out] unfolding jxe_table(1) jxe_FExecute_def
    by (auto simp: eval_nat_numeral)
  have "\<not> b \<longrightarrow> jxe_ok xs jsm' st'"
    using run(2,5) by (auto simp: jxe_ok_def jx_good_def Let_def)
  moreover have "b \<longrightarrow> timed_out st' \<or> (GroupExploration ` set ?gs \<subseteq> set (rs_children st)
      \<and> Transformation ?e ` applicable xs (PxfsExploration xs) ?e \<subseteq> set (rs_children st)
      \<and> ge_estate (rs_memo st') ?e = ge_estExplored)"
    using run(3,4) by (auto simp: jx_good_def Let_def)
  ultimately show ?thesis using run(3) by (simp add: run(1) image_subset_iff applicable_def Let_def)
qed

definition xforms0 :: xform_sets where
  "xforms0 = \<lparr>PxfsCandidates = (\<lambda>_. sample_bs [3, 7]), PxfsExploration = sample_bs [3],
     PxfsImplementation = sample_bs [7], PxfsCurrentStage = sample_bs [3, 7]\<rparr>"

lemma xforms0_ok: "xforms_ok xforms0 (PxfsExploration xforms0) x"
  using sample_bs_ok [of "[3, 7]"] sample_bs_ok [of "[3]"] by (simp add: xforms0_def xforms_ok_def bs_compat_def)

theorem GroupExpressionExploration_run_witness:
  "\<exists>jsm' st'. jxe_FExecute (\<lambda>_. False) (snd (jxe_Init xforms0 11 (jsm_new 4)))
     (run0 (fst (jxe_Init xforms0 11 (jsm_new 4)))) = Some (Inr (False, jsm', st'))"
proof -
  let ?j = "jxe_Init xforms0 11 (jsm_new 4)"
  have "jxe_ok xforms0 (snd ?j) (run0 (fst ?j))" unfolding run0_def by (rule jxe_Init_ok [OF xforms0_ok])
  from GroupExpressionExploration_run [OF this, of "\<lambda>_. False"]
  obtain b jsm' st' where r: "jxe_FExecute (\<lambda>_. False) (snd ?j) (run0 (fst ?j)) = Some (Inr (b, jsm', st'))"
    "b \<longrightarrow> bs_set (sample_bs [3, 7]) \<inter> bs_set (sample_bs [3]) \<inter> bs_set (sample_bs [3, 7]) = {}"
    by (auto simp: run0_def Let_def xforms0_def)
  then have "\<not> b" using sample_bs_ok [of "[3, 7]"] sample_bs_ok [of "[3]"] by auto
  then show ?thesis using r(1) by auto
qed

text \<open>The same of a group expression implementation job.\<close>

lemma GroupExpressionImplementation_run:
  assumes "jxi_ok xs jsm st"
  shows "\<exists>b jsm' st'. jxi_FExecute timed_out jsm st = Some (Inr (b, jsm', st'))
    \<and> (\<not> b \<longrightarrow> jxi_ok xs jsm' st')
    \<and> (b \<longrightarrow> rs_children st' = rs_children st \<and> (timed_out st'
         \<or> (let e = m_pgexpr (rs_job st)
            in (\<forall>g \<in> set (ge_pdrgpgroup (rs_memo st) e). GroupImplementation g \<in> set (rs_children st))
             \<and> (\<forall>xf \<in> bs_set (PxfsCandidates xs e) \<inter> bs_set (PxfsImplementation xs) \<inter> bs_set (PxfsCurrentStage xs).
                   Transformation e xf \<in> set (rs_children st))
             \<and> ge_estate (rs_memo st') e = ge_estImplemented)))"
proof -
  let ?e = "m_pgexpr (rs_job st)"
  let ?gs = "ge_pdrgpgroup (rs_memo st) ?e"
  have ld: "jsm_loaded jxi_rgeev (jxi_acts xs) jsm"
    and lt: "m_tenumstate (m_sm jsm) < length (jxi_acts xs)"
    and good: "jx_good GroupImplementation ge_estImplemented (PxfsImplementation xs) xs ?e ?gs (m_tenumstate (m_sm jsm)) st"
    using assms by (simp_all add: jxi_ok_def jxi_table)
  obtain b jsm' st' where run: "jxi_FExecute timed_out jsm st = Some (Inr (b, jsm', st'))"
    "jsm_loaded jxi_rgeev (jxi_acts xs) jsm'" "b \<longrightarrow> rs_children st' = rs_children st"
    "b \<longrightarrow> jx_good GroupImplementation ge_estImplemented (PxfsImplementation xs) xs ?e ?gs 3 st' \<or> timed_out st'"
    "\<not> b \<longrightarrow> m_tenumstate (m_sm jsm') < 3
      \<and> jx_good GroupImplementation ge_estImplemented (PxfsImplementation xs) xs ?e ?gs (m_tenumstate (m_sm jsm')) st'"
    using jxi.run [OF ld good lt, of timed_out] unfolding jxi_table(1) jxi_FExecute_def
    by (auto simp: eval_nat_numeral)
  have "\<not> b \<longrightarrow> jxi_ok xs jsm' st'"
    using run(2,5) by (auto simp: jxi_ok_def jx_good_def Let_def)
  moreover have "b \<longrightarrow> timed_out st' \<or> (GroupImplementation ` set ?gs \<subseteq> set (rs_children st)
      \<and> Transformation ?e ` applicable xs (PxfsImplementation xs) ?e \<subseteq> set (rs_children st)
      \<and> ge_estate (rs_memo st') ?e = ge_estImplemented)"
    using run(3,4) by (auto simp: jx_good_def Let_def)
  ultimately show ?thesis using run(3) by (simp add: run(1) image_subset_iff applicable_def Let_def)
qed

text \<open>A transformation job is completed by its first run, which applies its xform unless the stage
  has timed out.\<close>

lemma Transformation_run:
  "jt_FExecute timed_out (snd (jt_Init transform e xf jsm)) st =
     Some (Inr (True, if timed_out st then snd (jt_Init transform e xf jsm)
                      else (snd (jt_Init transform e xf jsm))\<lparr>m_sm :=
                        sm_Transition 2 jt_eevCompleted (m_sm (snd (jt_Init transform e xf jsm)))\<rparr>,
       if timed_out st then st else on_memo (transform (jt_pgexpr (rs_job st)) (jt_pxform (rs_job st))) st))"
proof -
  let ?j = "snd (jt_Init transform e xf jsm)"
  have i: "m_rgrgtenumeventTransitions (m_sm ?j) = jt_rgeev" "m_tenumstate (m_sm ?j) = 0"
    "m_rgPfuncAction ?j ! 0 = Some (jt_EevtTransform transform)"
    by (simp_all add: jt_Init_def jsm_Init_simps jt_rgeev_def eval_nat_numeral)
  have "FAttemptTransition 2 (m_sm ?j) 0 jt_eevCompleted = Some 1"
    by (simp add: FAttemptTransition_def i jt_rgeev_def eval_nat_numeral)
  then have "m_tenumstate (snd (FTransition 2 jt_eevCompleted (m_sm ?j))) = 1"
    by (simp add: FTransition_state i)
  then show ?thesis
    by (simp add: jt_FExecute_def FRun.simps [of timed_out _ 2 ?j] i jt_EevtTransform_def Let_def TesFinal_def
        sm_Transition_def)
qed

end
