(* ===== verification/OptimizationJobs.thy ===== *)
theory OptimizationJobs
  imports SearchJobs
begin

text \<open>
  The optimization jobs of the search: of a group
  (\<^verbatim>\<open>libgpopt/src/search/CJobGroupOptimization.cpp\<close>), which works through the optimization
  levels of its expressions, and of a group expression
  (\<^verbatim>\<open>CJobGroupExpressionOptimization.cpp\<close>), which has its children optimized one after the
  other (the order is that of \<^verbatim>\<open>CExpressionHandle\<close>) before it computes its own cost.
\<close>

section \<open>Group optimization\<close>

text \<open>
  What the job asks of the expressions and of the engine: the level of an expression, its operator,
  the number of its optimization requests and \<open>COptimizationContext::FOptimize\<close>.
\<close>

record opt_env =
  ge_Eol :: "nat \<Rightarrow> eol"
  FPhysicalSort :: "nat \<Rightarrow> bool"
  FPhysicalMotionGather :: "nat \<Rightarrow> bool"
  FOrderPreserving :: "nat \<Rightarrow> bool"
  UlOptRequests :: "nat \<Rightarrow> nat"
  poc_FOptimize :: "nat option \<Rightarrow> nat \<Rightarrow> nat \<Rightarrow> bool"

definition EolDamp :: "eol \<Rightarrow> eol" where
  "EolDamp e = (if e = EolHigh then EolLow else EolSentinel)"

definition FOptimizeChild :: "opt_env \<Rightarrow> nat option \<Rightarrow> nat \<Rightarrow> nat \<Rightarrow> eol \<Rightarrow> bool" where
  "FOptimizeChild env pgexprParent pgexprChild pocChild eolCurrent =
     (if pgexprParent = Some pgexprChild then False
      else if ge_Eol env pgexprChild \<noteq> eolCurrent then False
      else if (case pgexprParent of None \<Rightarrow> False | Some p \<Rightarrow> FPhysicalSort env p) \<and> FPhysicalMotionGather env pgexprChild
      then \<not> FOrderPreserving env pgexprChild
      else poc_FOptimize env pgexprParent pgexprChild pocChild)"

record job_group_opt = job_group +
  m_pgexprOrigin :: "nat option"
  m_poc :: nat
  m_eolCurrent :: eol

datatype jgo_event = jgo_eevImplementing | jgo_eevImplemented | jgo_eevOptimizing
  | jgo_eevOptimizedCurrentLevel | jgo_eevOptimized

definition jgo_rgeev :: "jgo_event option list list" where
  "jgo_rgeev =
     [[Some jgo_eevImplementing, Some jgo_eevImplemented, None, Some jgo_eevOptimized],
      [None, Some jgo_eevOptimizing, Some jgo_eevOptimizedCurrentLevel, None],
      [None, Some jgo_eevOptimizing, None, Some jgo_eevOptimized],
      [None, None, None, None]]"

definition jxo_ScheduleJob :: "nat \<Rightarrow> nat \<Rightarrow> nat \<Rightarrow> 'j job_run \<Rightarrow> 'j job_run" where
  "jxo_ScheduleJob pgexpr poc ulOptReq st = schedule (GroupExpressionOptimization pgexpr poc ulOptReq None) st"

definition jgo_ScheduleJob :: "nat \<Rightarrow> nat option \<Rightarrow> nat \<Rightarrow> 'j job_run \<Rightarrow> 'j job_run" where
  "jgo_ScheduleJob pgroup pgexprOrigin poc st = schedule (GroupOptimization pgroup pgexprOrigin poc) st"

partial_function (option) jgo_loop ::
    "opt_env \<Rightarrow> job_group_opt \<Rightarrow> nat option \<Rightarrow> nat option \<Rightarrow> job_group_opt job_run \<Rightarrow> (nat option \<times> job_group_opt job_run) option" where
  "jgo_loop env pj pgexpr pgexprLast st =
     (case pgexpr of
        None \<Rightarrow> Some (pgexprLast, st)
      | Some e \<Rightarrow>
          (let st' = (if FOptimizeChild env (m_pgexprOrigin pj) e (m_poc pj) (m_eolCurrent pj)
                      then foldl (\<lambda>st ul. jxo_ScheduleJob e (m_poc pj) ul st) st [0..<UlOptRequests env e]
                      else st)
           in case PgexprSkipLogical (rs_memo st) (m_pgroup pj) (Some e) of
                None \<Rightarrow> None
              | Some pgexpr' \<Rightarrow> jgo_loop env pj pgexpr' (Some e) st'))"

definition jgo_FScheduleGroupExpressions :: "opt_env \<Rightarrow> job_group_opt job_run \<Rightarrow> (bool \<times> job_group_opt job_run) option" where
  "jgo_FScheduleGroupExpressions env st = do {
     let pj = rs_job st;
     pgexpr \<leftarrow> PgexprFirstUnschedNonLogical (rs_memo st) pj;
     (pgexprLast, st') \<leftarrow> jgo_loop env pj pgexpr (m_pgexprLastScheduled pj) st;
     Some (m_pgexprLastScheduled pj \<noteq> pgexprLast, on_job (\<lambda>pj. pj\<lparr>m_pgexprLastScheduled := pgexprLast\<rparr>) st')
   }"

definition poc_SetState :: "nat \<Rightarrow> poc_state \<Rightarrow> memo \<Rightarrow> memo" where
  "poc_SetState poc s m = m\<lparr>poc_estate := (poc_estate m)(poc := s)\<rparr>"

definition jgo_EevtStartOptimization :: "(jgo_event, job_group_opt job_run) job_action" where
  "jgo_EevtStartOptimization st =
     (let pgroup = m_pgroup (rs_job st)
      in if \<not> g_FImplemented (rs_memo st) pgroup
         then Some (jgo_eevImplementing, jgi_ScheduleJob pgroup st)
         else (let st1 = on_memo (poc_SetState (m_poc (rs_job st)) poc_estOptimizing) st;
                   st2 = (if FRoot (rs_memo st1) pgroup
                          then truncate_pool EjtGroupExpressionImplementation (truncate_pool EjtGroupImplementation st1)
                          else st1)
               in Some (jgo_eevImplemented,
                    on_job (\<lambda>pj. pj\<lparr>m_eolCurrent := g_eolMax (rs_memo st2) pgroup\<rparr>) st2)))"

definition jgo_EevtOptimizeChildren :: "opt_env \<Rightarrow> (jgo_event, job_group_opt job_run) job_action" where
  "jgo_EevtOptimizeChildren env st = do {
     (fNewJobs, st') \<leftarrow> jgo_FScheduleGroupExpressions env st;
     Some (if fNewJobs then jgo_eevOptimizing else jgo_eevOptimizedCurrentLevel, st')
   }"

definition DampOptimizationLevel :: "job_group_opt \<Rightarrow> job_group_opt" where
  "DampOptimizationLevel pj = pj\<lparr>m_eolCurrent := EolDamp (m_eolCurrent pj)\<rparr>"

definition jgo_EevtCompleteOptimization :: "(jgo_event, job_group_opt job_run) job_action" where
  "jgo_EevtCompleteOptimization st =
     (let st' = on_job DampOptimizationLevel st
      in if m_eolCurrent (rs_job st') \<noteq> EolSentinel
         then Some (jgo_eevOptimizing, on_job (\<lambda>pj. pj\<lparr>m_pgexprLastScheduled := None\<rparr>) st')
         else Some (jgo_eevOptimized, on_memo (poc_SetState (m_poc (rs_job st')) poc_estOptimized) st'))"

definition jgo_acts :: "opt_env \<Rightarrow> (jgo_event, job_group_opt job_run) job_action list" where
  "jgo_acts env = [jgo_EevtStartOptimization, jgo_EevtOptimizeChildren env, jgo_EevtCompleteOptimization]"

text \<open>\<open>pocInsert\<close> is the context that \<open>CGroup::PocInsert\<close> returns for the given one.\<close>

definition jgo_Init ::
    "opt_env \<Rightarrow> nat \<Rightarrow> nat option \<Rightarrow> nat \<Rightarrow> (jgo_event, job_group_opt job_run) job_state_machine
     \<Rightarrow> job_group_opt \<times> (jgo_event, job_group_opt job_run) job_state_machine" where
  "jgo_Init env pgroup pgexprOrigin pocInsert jsm =
     (\<lparr>m_pgroup = pgroup, m_pgexprLastScheduled = None, m_pgexprOrigin = pgexprOrigin, m_poc = pocInsert,
       m_eolCurrent = EolLow\<rparr>,
      SetAction 2 jgo_EevtCompleteOptimization (SetAction 1 (jgo_EevtOptimizeChildren env)
        (SetAction 0 jgo_EevtStartOptimization (jsm_Init 4 jgo_rgeev jsm))))"

definition jgo_FExecute where
  "jgo_FExecute timed_out jsm st = FRun timed_out (\<lambda>st. st) 4 jsm st"

section \<open>The order of the children\<close>

text \<open>
  \<^verbatim>\<open>CExpressionHandle.cpp\<close>: the children of an expression are optimized from left to
  right or from right to left; \<open>ULONG_MAX\<close> stands for no child.
\<close>

definition UlFirstOptimizedChildIndex :: "bool \<Rightarrow> nat \<Rightarrow> nat" where
  "UlFirstOptimizedChildIndex fRightToLeft ulArity = (if fRightToLeft then ulArity - 1 else 0)"

definition UlLastOptimizedChildIndex :: "bool \<Rightarrow> nat \<Rightarrow> nat" where
  "UlLastOptimizedChildIndex fRightToLeft ulArity = (if fRightToLeft then 0 else ulArity - 1)"

definition UlNextOptimizedChildIndex :: "bool \<Rightarrow> nat \<Rightarrow> nat \<Rightarrow> nat" where
  "UlNextOptimizedChildIndex fRightToLeft ulArity ulChildIndex =
     (if fRightToLeft then (if 0 < ulChildIndex then ulChildIndex - 1 else ULONG_MAX)
      else (if ulChildIndex < ul_sub ulArity 1 then ulChildIndex + 1 else ULONG_MAX))"

definition UlPreviousOptimizedChildIndex :: "bool \<Rightarrow> nat \<Rightarrow> nat \<Rightarrow> nat" where
  "UlPreviousOptimizedChildIndex fRightToLeft ulArity ulChildIndex =
     (if fRightToLeft then (if ulChildIndex < ul_sub ulArity 1 then ulChildIndex + 1 else ULONG_MAX)
      else (if 0 < ulChildIndex then ulChildIndex - 1 else ULONG_MAX))"

definition FNextChildIndex :: "bool \<Rightarrow> nat \<Rightarrow> nat \<Rightarrow> nat option" where
  "FNextChildIndex fRightToLeft ulArity ulChildIndex =
     (if ulArity = 0 then None
      else (let ulNext = UlNextOptimizedChildIndex fRightToLeft ulArity ulChildIndex
            in if ulNext = ULONG_MAX then None else Some ulNext))"

section \<open>Group expression optimization\<close>

text \<open>
  The references a job may hold: the arrays and handles it allocates and the properties required
  of a CTE producer.
\<close>

datatype resource = RsPdrgpoc | RsStats | RsPdrgpdp | RsHdlPlan | RsHdlRel | RsCTEProducer

text \<open>The plan properties required of a child.\<close>

datatype requirement = ReqdFromCTEProducer nat | ReqdComputed "nat list" nat

text \<open>
  \<open>m_refs\<close> counts for every resource the references that have been taken and not released; it is
  the state of the reference counts, not a field of the class.  A field that points to a resource
  is \<open>None\<close> when it is null.
\<close>

record job_gexpr_opt = job_gexpr +
  jxo_m_poc :: nat
  m_ulOptReq :: nat
  m_pdrgpoc :: "nat list option"
  m_pdrgpstatCurrentCtxt :: "nat list option"
  m_pdrgpdp :: "nat list option"
  m_fRightToLeft :: bool
  m_ulChildIndex :: nat
  m_ulArity :: nat
  m_fChildOptimizationFailed :: bool
  m_fOptimizeCTESequence :: bool
  m_prppCTEProducer :: "nat option"
  m_fScheduledCTEOptimization :: bool
  m_pexprhdlPlan :: "(nat \<times> requirement) list option"
  m_pexprhdlRel :: "nat option option"
  m_refs :: "resource \<Rightarrow> int"

text \<open>
  What the job asks of other objects, named after the functions that answer.  An answer may depend
  on the memo; a function that changes the memo returns the changed one.
\<close>

record jxo_env =
  env_FRightToLeft :: "nat \<Rightarrow> bool"
  env_FSequenceWithCTEProducer :: "memo \<Rightarrow> nat \<Rightarrow> bool"
  env_FScalar :: "nat \<Rightarrow> bool"
  env_FCheckReqdProps :: "memo \<Rightarrow> nat \<Rightarrow> nat \<Rightarrow> nat \<Rightarrow> bool"
  env_FSafeToPrune :: "memo \<Rightarrow> nat \<Rightarrow> nat \<Rightarrow> nat option \<Rightarrow> nat \<Rightarrow> bool"
  env_ComputePrunedCost :: "nat \<Rightarrow> nat \<Rightarrow> nat \<Rightarrow> memo \<Rightarrow> memo"
  env_PgexprBestPromise :: "memo \<Rightarrow> nat \<Rightarrow> nat option"
  env_Pdrgpstat :: "nat \<Rightarrow> nat list"
  env_PccBest :: "memo \<Rightarrow> nat \<Rightarrow> requirement option \<Rightarrow> nat option"
  env_PocChild :: "memo \<Rightarrow> nat \<Rightarrow> requirement option \<Rightarrow> nat list \<Rightarrow> nat"
  env_FSameContext :: "memo \<Rightarrow> nat \<Rightarrow> nat \<Rightarrow> nat \<Rightarrow> nat \<Rightarrow> bool"
  env_PdrgpocChildren :: "memo \<Rightarrow> (nat \<times> requirement) list \<Rightarrow> nat list"
  env_FCheckEnfdProps :: "nat \<Rightarrow> nat \<Rightarrow> nat \<Rightarrow> nat list \<Rightarrow> memo \<Rightarrow> bool \<times> memo"
  env_PccComputeCost :: "nat \<Rightarrow> nat \<Rightarrow> nat \<Rightarrow> nat list \<Rightarrow> memo \<Rightarrow> nat option \<times> memo"
  env_UpdateBestCost :: "nat \<Rightarrow> nat \<Rightarrow> memo \<Rightarrow> memo"
  env_FDisablePushingCTE :: bool
  env_PrppCTEProducer :: "memo \<Rightarrow> nat \<Rightarrow> nat option"

datatype jxo_event = jxo_eevOptimizingChildren | jxo_eevChildrenOptimized | jxo_eevCheckingEnfdProps
  | jxo_eevOptimizingSelf | jxo_eevSelfOptimized | jxo_eevFinalized

definition jxo_rgeev :: "jxo_event option list list" where
  "jxo_rgeev =
     [[None, Some jxo_eevOptimizingChildren, None, None, None, Some jxo_eevFinalized],
      [None, Some jxo_eevOptimizingChildren, Some jxo_eevChildrenOptimized, None, None, Some jxo_eevFinalized],
      [None, None, None, Some jxo_eevOptimizingSelf, None, Some jxo_eevFinalized],
      [None, None, None, Some jxo_eevOptimizingSelf, Some jxo_eevSelfOptimized, Some jxo_eevFinalized],
      [None, None, None, None, None, Some jxo_eevFinalized],
      [None, None, None, None, None, None]]"

type_synonym jxo_run = "job_gexpr_opt job_run"

definition acquire :: "resource \<Rightarrow> job_gexpr_opt \<Rightarrow> job_gexpr_opt" where
  "acquire r pj = pj\<lparr>m_refs := (m_refs pj)(r := m_refs pj r + 1)\<rparr>"

definition SafeRelease :: "bool \<Rightarrow> resource \<Rightarrow> job_gexpr_opt \<Rightarrow> job_gexpr_opt" where
  "SafeRelease fNonNull r pj = (if fNonNull then pj\<lparr>m_refs := (m_refs pj)(r := m_refs pj r - 1)\<rparr> else pj)"

text \<open>The fields are not set to null.\<close>

definition jxo_Cleanup :: "job_gexpr_opt \<Rightarrow> job_gexpr_opt" where
  "jxo_Cleanup pj =
     SafeRelease (m_pexprhdlRel pj \<noteq> None) RsHdlRel
       (SafeRelease (m_pexprhdlPlan pj \<noteq> None) RsHdlPlan
         (SafeRelease (m_prppCTEProducer pj \<noteq> None) RsCTEProducer
           (SafeRelease (m_pdrgpdp pj \<noteq> None) RsPdrgpdp
             (SafeRelease (m_pdrgpstatCurrentCtxt pj \<noteq> None) RsStats
               (SafeRelease (m_pdrgpoc pj \<noteq> None) RsPdrgpoc pj)))))"

definition jxo_new_job :: "jxo_env \<Rightarrow> memo \<Rightarrow> nat \<Rightarrow> nat \<Rightarrow> nat \<Rightarrow> nat option \<Rightarrow> job_gexpr_opt" where
  "jxo_new_job env m pgexpr poc ulOptReq prppCTEProducer =
     (let pj = \<lparr>m_fChildrenScheduled = False, m_fXformsScheduled = False, m_pgexpr = pgexpr,
            jxo_m_poc = poc, m_ulOptReq = ulOptReq, m_pdrgpoc = None, m_pdrgpstatCurrentCtxt = None,
            m_pdrgpdp = None, m_fRightToLeft = env_FRightToLeft env pgexpr, m_ulChildIndex = ULONG_MAX,
            m_ulArity = length (ge_pdrgpgroup m pgexpr), m_fChildOptimizationFailed = False,
            m_fOptimizeCTESequence = env_FSequenceWithCTEProducer env m pgexpr,
            m_prppCTEProducer = prppCTEProducer, m_fScheduledCTEOptimization = False,
            m_pexprhdlPlan = None, m_pexprhdlRel = None, m_refs = (\<lambda>_. 0)\<rparr>
      in if prppCTEProducer \<noteq> None then acquire RsCTEProducer pj else pj)"

definition InitChildGroupsOptimization :: "jxo_env \<Rightarrow> jxo_run \<Rightarrow> jxo_run" where
  "InitChildGroupsOptimization env st = on_job (\<lambda>pj.
     let pj = acquire RsHdlPlan (pj\<lparr>m_pexprhdlPlan := Some []\<rparr>);
         pj = (if 0 < m_ulArity pj
               then pj\<lparr>m_ulChildIndex := UlFirstOptimizedChildIndex (m_fRightToLeft pj) (m_ulArity pj)\<rparr> else pj);
         pj = acquire RsHdlRel (pj\<lparr>m_pexprhdlRel := Some (env_PgexprBestPromise env (rs_memo st) (m_pgexpr pj))\<rparr>);
         pj = acquire RsPdrgpdp (pj\<lparr>m_pdrgpdp := Some []\<rparr>)
     in acquire RsStats (pj\<lparr>m_pdrgpstatCurrentCtxt := Some (env_Pdrgpstat env (jxo_m_poc pj))\<rparr>)) st"

definition jxo_EevtInitialize :: "jxo_env \<Rightarrow> (jxo_event, job_gexpr_opt job_run) job_action" where
  "jxo_EevtInitialize env st =
     (let pj = rs_job st; m = rs_memo st
      in if \<not> env_FCheckReqdProps env m (m_pgexpr pj) (jxo_m_poc pj) (m_ulOptReq pj)
         then Some (jxo_eevFinalized, st)
         else if env_FSafeToPrune env m (m_pgexpr pj) (jxo_m_poc pj) None ULONG_MAX
         then Some (jxo_eevFinalized, on_memo (env_ComputePrunedCost env (m_pgexpr pj) (jxo_m_poc pj) (m_ulOptReq pj)) st)
         else Some (jxo_eevOptimizingChildren, InitChildGroupsOptimization env st))"

text \<open>The requirement that the plan handle holds for a child.\<close>

definition hdl_Prpp :: "job_gexpr_opt \<Rightarrow> nat \<Rightarrow> requirement option" where
  "hdl_Prpp pj ul = (case m_pexprhdlPlan pj of None \<Rightarrow> None | Some rs \<Rightarrow> map_of rs ul)"

definition child_failed :: "job_gexpr_opt \<Rightarrow> job_gexpr_opt" where
  "child_failed pj = pj\<lparr>m_fChildOptimizationFailed := True\<rparr>"

definition DerivePrevChildProps :: "jxo_env \<Rightarrow> jxo_run \<Rightarrow> jxo_run" where
  "DerivePrevChildProps env st =
     (let pj = rs_job st; m = rs_memo st;
          ulPrevChildIndex = UlPreviousOptimizedChildIndex (m_fRightToLeft pj) (m_ulArity pj) (m_ulChildIndex pj);
          pgroupChild = ge_pdrgpgroup m (m_pgexpr pj) ! ulPrevChildIndex
      in if env_FScalar env pgroupChild then st
         else (case env_PccBest env m pgroupChild (hdl_Prpp pj ulPrevChildIndex) of
                 None \<Rightarrow> on_job child_failed st
               | Some pccChildBest \<Rightarrow>
                   if env_FSafeToPrune env m (m_pgexpr pj) (jxo_m_poc pj) (Some pccChildBest) ulPrevChildIndex
                   then on_job child_failed
                          (on_memo (env_ComputePrunedCost env (m_pgexpr pj) (jxo_m_poc pj) (m_ulOptReq pj)) st)
                   else on_job (\<lambda>pj. pj\<lparr>m_pdrgpdp := map_option (\<lambda>xs. xs @ [pccChildBest]) (m_pdrgpdp pj),
                          m_pdrgpstatCurrentCtxt :=
                            map_option (\<lambda>xs. xs @ [pccChildBest]) (m_pdrgpstatCurrentCtxt pj)\<rparr>) st))"

definition set_Prpp :: "nat \<Rightarrow> requirement \<Rightarrow> job_gexpr_opt \<Rightarrow> job_gexpr_opt" where
  "set_Prpp ul r pj = pj\<lparr>m_pexprhdlPlan := map_option (\<lambda>rs. (ul, r) # rs) (m_pexprhdlPlan pj)\<rparr>"

definition ComputeCurrentChildRequirements :: "jxo_env \<Rightarrow> jxo_run \<Rightarrow> jxo_run" where
  "ComputeCurrentChildRequirements env st =
     (let st' = (if m_ulChildIndex (rs_job st) \<noteq>
                    UlFirstOptimizedChildIndex (m_fRightToLeft (rs_job st)) (m_ulArity (rs_job st))
                 then DerivePrevChildProps env st else st)
      in if m_fChildOptimizationFailed (rs_job st') then st'
         else on_job (\<lambda>pj. set_Prpp (m_ulChildIndex pj)
                (case m_prppCTEProducer pj of
                   Some prpp \<Rightarrow> if m_ulChildIndex pj = 0 then ReqdFromCTEProducer prpp
                                else ReqdComputed (case m_pdrgpdp pj of None \<Rightarrow> [] | Some xs \<Rightarrow> xs) (m_ulOptReq pj)
                 | None \<Rightarrow> ReqdComputed (case m_pdrgpdp pj of None \<Rightarrow> [] | Some xs \<Rightarrow> xs) (m_ulOptReq pj)) pj) st')"

text \<open>Advance to the next child, or note that the children are complete.\<close>

definition next_child :: "job_gexpr_opt \<Rightarrow> job_gexpr_opt" where
  "next_child pj =
     (case FNextChildIndex (m_fRightToLeft pj) (m_ulArity pj) (m_ulChildIndex pj) of
        None \<Rightarrow> pj\<lparr>m_fChildrenScheduled := True\<rparr>
      | Some ul \<Rightarrow> pj\<lparr>m_ulChildIndex := ul\<rparr>)"

definition jxo_ScheduleChildGroupsJobs :: "jxo_env \<Rightarrow> jxo_run \<Rightarrow> jxo_run" where
  "jxo_ScheduleChildGroupsJobs env st =
     (let pgroupChild = ge_pdrgpgroup (rs_memo st) (m_pgexpr (rs_job st)) ! m_ulChildIndex (rs_job st)
      in if env_FScalar env pgroupChild then on_job next_child st
         else (let st1 = ComputeCurrentChildRequirements env st; pj = rs_job st1; m = rs_memo st1
               in if m_fChildOptimizationFailed pj then st1
                  else (let pocChild = env_PocChild env m pgroupChild (hdl_Prpp pj (m_ulChildIndex pj))
                              (case m_pdrgpstatCurrentCtxt pj of None \<Rightarrow> [] | Some xs \<Rightarrow> xs)
                        in if env_FSameContext env m pgroupChild (m_pgexpr pj) pocChild (jxo_m_poc pj)
                           then on_job child_failed st1
                           else on_job next_child (jgo_ScheduleJob pgroupChild (Some (m_pgexpr pj)) pocChild st1))))"

definition jxo_EevtOptimizeChildren :: "jxo_env \<Rightarrow> (jxo_event, job_gexpr_opt job_run) job_action" where
  "jxo_EevtOptimizeChildren env st =
     (if 0 < m_ulArity (rs_job st) \<and> \<not> m_fChildrenScheduled (rs_job st)
      then (let st' = jxo_ScheduleChildGroupsJobs env st
            in if m_fChildOptimizationFailed (rs_job st')
               then Some (jxo_eevFinalized, on_job jxo_Cleanup st')
               else Some (jxo_eevOptimizingChildren, st'))
      else Some (jxo_eevChildrenOptimized, st))"

definition jxo_EevtAddEnforcers :: "jxo_env \<Rightarrow> (jxo_event, job_gexpr_opt job_run) job_action" where
  "jxo_EevtAddEnforcers env st =
     (let pdrgpoc = env_PdrgpocChildren env (rs_memo st) (case m_pexprhdlPlan (rs_job st) of None \<Rightarrow> [] | Some rs \<Rightarrow> rs);
          st1 = on_job (\<lambda>pj. acquire RsPdrgpoc (pj\<lparr>m_pdrgpoc := Some pdrgpoc\<rparr>)) st;
          (fCheckEnfdProps, m') = env_FCheckEnfdProps env (m_pgexpr (rs_job st1)) (jxo_m_poc (rs_job st1))
             (m_ulOptReq (rs_job st1)) pdrgpoc (rs_memo st1);
          st2 = on_memo (\<lambda>_. m') st1
      in if fCheckEnfdProps then Some (jxo_eevOptimizingSelf, st2)
         else Some (jxo_eevFinalized, on_job jxo_Cleanup st2))"

text \<open>It returns whether a job for the CTE producer has been scheduled.\<close>

definition FScheduleCTEOptimization :: "jxo_env \<Rightarrow> nat \<Rightarrow> nat \<Rightarrow> nat \<Rightarrow> jxo_run \<Rightarrow> bool \<times> jxo_run" where
  "FScheduleCTEOptimization env pgexpr poc ulOptReq st =
     (if env_FDisablePushingCTE env then (False, st)
      else if \<not> m_fOptimizeCTESequence (rs_job st) then (False, st)
      else if m_prppCTEProducer (rs_job st) \<noteq> None then (False, st)
      else (case env_PrppCTEProducer env (rs_memo st) poc of
              None \<Rightarrow> (False, st)
            | Some prpp \<Rightarrow> (True, schedule (GroupExpressionOptimization pgexpr poc ulOptReq (Some prpp)) st)))"

definition jxo_EevtOptimizeSelf :: "jxo_env \<Rightarrow> (jxo_event, job_gexpr_opt job_run) job_action" where
  "jxo_EevtOptimizeSelf env st =
     (if m_fScheduledCTEOptimization (rs_job st) then Some (jxo_eevSelfOptimized, st)
      else (let poc = jxo_m_poc (rs_job st); pgexpr = m_pgexpr (rs_job st); ulOptReq = m_ulOptReq (rs_job st);
                (pcc, m') = env_PccComputeCost env pgexpr poc ulOptReq
                  (case m_pdrgpoc (rs_job st) of None \<Rightarrow> [] | Some xs \<Rightarrow> xs) (rs_memo st);
                st1 = on_memo (\<lambda>_. m') st
            in case pcc of
                 None \<Rightarrow> Some (jxo_eevFinalized, on_job jxo_Cleanup st1)
               | Some pcc \<Rightarrow>
                   (let st2 = on_memo (env_UpdateBestCost env poc pcc) st1;
                        (fScheduled, st3) = FScheduleCTEOptimization env pgexpr poc ulOptReq st2
                    in if fScheduled
                       then Some (jxo_eevOptimizingSelf, on_job (\<lambda>pj. pj\<lparr>m_fScheduledCTEOptimization := True\<rparr>) st3)
                       else Some (jxo_eevSelfOptimized, st3))))"

definition jxo_EevtFinalize :: "(jxo_event, job_gexpr_opt job_run) job_action" where
  "jxo_EevtFinalize st = Some (jxo_eevFinalized, on_job jxo_Cleanup st)"

definition jxo_acts :: "jxo_env \<Rightarrow> (jxo_event, job_gexpr_opt job_run) job_action list" where
  "jxo_acts env = [jxo_EevtInitialize env, jxo_EevtOptimizeChildren env, jxo_EevtAddEnforcers env,
     jxo_EevtOptimizeSelf env, jxo_EevtFinalize]"

definition jxo_Init ::
    "jxo_env \<Rightarrow> memo \<Rightarrow> nat \<Rightarrow> nat \<Rightarrow> nat \<Rightarrow> nat option \<Rightarrow> (jxo_event, job_gexpr_opt job_run) job_state_machine
     \<Rightarrow> job_gexpr_opt \<times> (jxo_event, job_gexpr_opt job_run) job_state_machine" where
  "jxo_Init env m pgexpr poc ulOptReq prppCTEProducer jsm =
     (jxo_new_job env m pgexpr poc ulOptReq prppCTEProducer,
      SetAction 4 jxo_EevtFinalize (SetAction 3 (jxo_EevtOptimizeSelf env) (SetAction 2 (jxo_EevtAddEnforcers env)
        (SetAction 1 (jxo_EevtOptimizeChildren env) (SetAction 0 (jxo_EevtInitialize env) (jsm_Init 6 jxo_rgeev jsm))))))"

definition jxo_FExecute where
  "jxo_FExecute timed_out jsm st = FRun timed_out (on_job jxo_Cleanup) 6 jsm st"

section \<open>Group optimization keeps the contract\<close>

definition opt_requests :: "opt_env \<Rightarrow> nat \<Rightarrow> nat \<Rightarrow> child list" where
  "opt_requests env poc e = map (\<lambda>ul. GroupExpressionOptimization e poc ul None) [0..<UlOptRequests env e]"

text \<open>An expression has been dealt with: if it may be optimized at its own level, a job has been
  scheduled for each of its optimization requests.\<close>

definition jgo_done :: "opt_env \<Rightarrow> memo \<Rightarrow> nat option \<Rightarrow> nat \<Rightarrow> child list \<Rightarrow> nat \<Rightarrow> bool" where
  "jgo_done env m origin poc cs x \<longleftrightarrow>
     (\<not> ge_FLogical m x \<and> FOptimizeChild env origin x poc (ge_Eol env x) \<longrightarrow> set (opt_requests env poc x) \<subseteq> set cs)"

lemma jgo_done_mono: "jgo_done env m origin poc cs x \<Longrightarrow> set cs \<subseteq> set cs' \<Longrightarrow> jgo_done env m origin poc cs' x"
  by (auto simp: jgo_done_def)

lemma schedule_requests:
  "foldl (\<lambda>st ul. jxo_ScheduleJob e poc ul st) st [0..<k]
     = add_children (map (\<lambda>ul. GroupExpressionOptimization e poc ul None) [0..<k]) st"
  by (induction k) (simp_all add: jxo_ScheduleJob_def schedule_add)

text \<open>The physical expressions of a part of the group.\<close>

definition physical :: "memo \<Rightarrow> nat list \<Rightarrow> nat list" where
  "physical m xs = filter (\<lambda>e. \<not> ge_FLogical m e) xs"

definition level_children :: "opt_env \<Rightarrow> memo \<Rightarrow> job_group_opt \<Rightarrow> nat list \<Rightarrow> child list" where
  "level_children env m pj xs = concat (map (opt_requests env (m_poc pj))
     (filter (\<lambda>e. FOptimizeChild env (m_pgexprOrigin pj) e (m_poc pj) (m_eolCurrent pj)) (physical m xs)))"

lemma first_physical:
  assumes "g_listGExprs m g = pre @ suf" "distinct (pre @ suf)"
  shows "PgexprSkip m g (hd_opt suf) True = Some (hd_opt (dropWhile (ge_FLogical m) suf))"
  using PgexprSkip_suffix [OF assms, of True] by simp

lemma jgo_loop_suffix:
  fixes st :: "job_group_opt job_run"
  assumes "g_listGExprs (rs_memo st) (m_pgroup pj) = pre @ suf" "distinct (pre @ suf)"
  shows "jgo_loop env pj (hd_opt (dropWhile (ge_FLogical (rs_memo st)) suf)) l st =
     (let es = physical (rs_memo st) suf
      in Some (if es = [] then l else Some (last es), add_children (level_children env (rs_memo st) pj suf) st))"
  using assms
proof (induction suf arbitrary: pre l st)
  case Nil
  then show ?case by (simp add: jgo_loop.simps physical_def level_children_def)
next
  case (Cons e suf)
  let ?m = "rs_memo st"
  have IH: "jgo_loop env pj (hd_opt (dropWhile (ge_FLogical ?m) suf)) l st' =
     (let es = physical ?m suf
      in Some (if es = [] then l else Some (last es), add_children (level_children env ?m pj suf) st'))"
    if "rs_memo st' = ?m" for l and st' :: "job_group_opt job_run"
    using Cons.IH [of st' "pre @ [e]" l] Cons.prems that by simp
  have xs: "g_listGExprs ?m (m_pgroup pj) = (pre @ [e]) @ suf" "distinct ((pre @ [e]) @ suf)" using Cons.prems by simp_all
  have nx: "PgexprNext ?m (m_pgroup pj) e = hd_opt suf" using PgexprNext_split Cons.prems by blast
  have "PgexprSkipLogical ?m (m_pgroup pj) (Some e) = Some (hd_opt (dropWhile (ge_FLogical ?m) suf))"
    using first_physical [OF xs] nx by (simp add: PgexprSkipLogical_def)
  then have step: "jgo_loop env pj (Some e) l st = jgo_loop env pj (hd_opt (dropWhile (ge_FLogical ?m) suf)) (Some e)
      (add_children (if FOptimizeChild env (m_pgexprOrigin pj) e (m_poc pj) (m_eolCurrent pj)
         then opt_requests env (m_poc pj) e else []) st)"
    by (simp add: jgo_loop.simps [of env pj "Some e"] schedule_requests opt_requests_def)
  show ?case
    by (cases "ge_FLogical ?m e") (simp_all add: step IH physical_def level_children_def Let_def)
qed

text \<open>
  Levels of a group: no expression is above the greatest level of the group; the job works on one
  level after the other, the high one first.
\<close>

definition levels_ok :: "opt_env \<Rightarrow> memo \<Rightarrow> nat \<Rightarrow> bool" where
  "levels_ok env m g \<longleftrightarrow> g_eolMax m g \<noteq> EolSentinel \<and> (\<forall>x \<in> set (g_listGExprs m g). \<not> ge_FLogical m x \<longrightarrow>
     ge_Eol env x \<noteq> EolSentinel \<and> (ge_Eol env x = EolHigh \<longrightarrow> g_eolMax m g = EolHigh))"

text \<open>All expressions above the current level are dealt with, and those of the current level up to
  the last one scheduled.\<close>

definition above_done :: "opt_env \<Rightarrow> memo \<Rightarrow> job_group_opt \<Rightarrow> child list \<Rightarrow> bool" where
  "above_done env m pj cs \<longleftrightarrow> m_eolCurrent pj \<noteq> EolSentinel \<and> (m_eolCurrent pj = EolLow \<longrightarrow>
     (\<forall>x \<in> set (g_listGExprs m (m_pgroup pj)). ge_Eol env x = EolHigh \<longrightarrow> jgo_done env m (m_pgexprOrigin pj) (m_poc pj) cs x))"

definition level_done :: "opt_env \<Rightarrow> memo \<Rightarrow> job_group_opt \<Rightarrow> child list \<Rightarrow> nat set \<Rightarrow> bool" where
  "level_done env m pj cs xs \<longleftrightarrow>
     (\<forall>x \<in> xs. ge_Eol env x = m_eolCurrent pj \<longrightarrow> jgo_done env m (m_pgexprOrigin pj) (m_poc pj) cs x)"

definition upto_done :: "opt_env \<Rightarrow> memo \<Rightarrow> job_group_opt \<Rightarrow> child list \<Rightarrow> bool" where
  "upto_done env m pj cs \<longleftrightarrow> (case m_pgexprLastScheduled pj of None \<Rightarrow> True
     | Some e \<Rightarrow> \<exists>pre suf. g_listGExprs m (m_pgroup pj) = pre @ e # suf \<and> level_done env m pj cs (set (pre @ [e])))"

lemma upto_doneI:
  assumes "m_pgexprLastScheduled pj = Some e" "g_listGExprs m (m_pgroup pj) = pre @ e # suf"
    "level_done env m pj cs (set (pre @ [e]))"
  shows "upto_done env m pj cs"
  unfolding upto_done_def using assms by auto

lemma level_done_mono: "level_done env m pj cs xs \<Longrightarrow> set cs \<subseteq> set cs' \<Longrightarrow> level_done env m pj cs' xs"
  using jgo_done_mono by (fastforce simp: level_done_def)

lemma above_done_mono: "above_done env m pj cs \<Longrightarrow> set cs \<subseteq> set cs' \<Longrightarrow> above_done env m pj cs'"
  using jgo_done_mono by (fastforce simp: above_done_def)

lemma level_children_done:
  "level_done env m pj (cs @ level_children env m pj xs) (set xs)"
  unfolding level_done_def jgo_done_def level_children_def physical_def by (auto split: if_splits)

lemma jgo_schedule:
  assumes d: "distinct (g_listGExprs (rs_memo st) (m_pgroup (rs_job st)))"
    and up: "upto_done env (rs_memo st) (rs_job st) (rs_children st)"
  obtains fNew st' cs where "jgo_FScheduleGroupExpressions env st = Some (fNew, st')"
    "rs_memo st' = rs_memo st" "rs_children st' = rs_children st @ cs"
    "\<exists>l. rs_job st' = rs_job st\<lparr>m_pgexprLastScheduled := l\<rparr>"
    "upto_done env (rs_memo st) (rs_job st') (rs_children st')"
    "fNew \<or> (cs = [] \<and> level_done env (rs_memo st) (rs_job st) (rs_children st)
        (set (g_listGExprs (rs_memo st) (m_pgroup (rs_job st)))))"
proof -
  let ?m = "rs_memo st" and ?pj = "rs_job st"
  let ?xs = "g_listGExprs ?m (m_pgroup ?pj)"
  let ?l = "m_pgexprLastScheduled ?pj"
  obtain pre suf where ps: "?xs = pre @ suf" "level_done env ?m ?pj (rs_children st) (set pre)"
    "PgexprFirstUnschedNonLogical ?m ?pj = Some (hd_opt (dropWhile (ge_FLogical ?m) suf))"
    "\<forall>e. ?l = Some e \<longrightarrow> e \<in> set pre"
  proof (cases ?l)
    case None
    have "PgexprFirst ?m (m_pgroup ?pj) = hd_opt ?xs" by (simp add: PgexprFirst_def hd_opt_def)
    then show ?thesis using that [of "[]" ?xs] None d first_physical [of ?m "m_pgroup ?pj" "[]" ?xs]
      by (simp add: PgexprFirstUnschedNonLogical_def PgexprSkipLogical_def level_done_def)
  next
    case (Some e)
    then obtain pre suf where p: "?xs = pre @ e # suf" "level_done env ?m ?pj (rs_children st) (set (pre @ [e]))"
      using up by (auto simp: upto_done_def)
    have q: "?xs = (pre @ [e]) @ suf" "distinct ((pre @ [e]) @ suf)" using p(1) d by simp_all
    have "PgexprNext ?m (m_pgroup ?pj) e = hd_opt suf" using PgexprNext_split p(1) d by metis
    then show ?thesis using that [of "pre @ [e]" suf] q(1) p(2) Some first_physical [OF q]
      by (simp add: PgexprFirstUnschedNonLogical_def PgexprSkipLogical_def)
  qed
  have d': "distinct (pre @ suf)" using d ps(1) by simp
  let ?es = "physical ?m suf" and ?cs = "level_children env ?m ?pj suf"
  let ?l' = "if ?es = [] then ?l else Some (last ?es)"
  let ?st' = "on_job (\<lambda>pj. pj\<lparr>m_pgexprLastScheduled := ?l'\<rparr>) (add_children ?cs st)"
  have run: "jgo_FScheduleGroupExpressions env st = Some (?l \<noteq> ?l', ?st')"
    by (simp add: jgo_FScheduleGroupExpressions_def Let_def ps(3) jgo_loop_suffix [OF ps(1) d'])
  have flds: "rs_memo ?st' = ?m" "rs_children ?st' = rs_children st @ ?cs"
    "rs_job ?st' = ?pj\<lparr>m_pgexprLastScheduled := ?l'\<rparr>"
    by (simp_all add: on_job_def)
  have upd: "level_done env ?m (rs_job ?st') cs ys = level_done env ?m ?pj cs ys" for cs ys
    by (simp add: flds level_done_def)
  have all: "level_done env ?m ?pj (rs_children ?st') (set ?xs)"
  proof -
    have "level_done env ?m ?pj (rs_children ?st') (set pre)"
      by (rule level_done_mono [OF ps(2)]) (simp add: flds)
    moreover have "level_done env ?m ?pj (rs_children ?st') (set suf)"
      unfolding flds by (rule level_children_done)
    ultimately show ?thesis by (auto simp: ps(1) level_done_def)
  qed
  show thesis
  proof (cases "?es = []")
    case True
    then have cs: "?cs = []" by (simp add: level_children_def)
    have "upto_done env ?m (rs_job ?st') (rs_children ?st')"
      using up True cs by (simp add: on_job_def)
    then show thesis using that [OF run flds(1,2)] flds(3) all cs by auto
  next
    case False
    let ?e = "last ?es"
    have e: "?e \<in> set suf" using last_in_set [OF False] by (auto simp: physical_def)
    then have new: "?l \<noteq> ?l'" using ps(4) d' False by auto
    obtain p' s' where s: "suf = p' @ ?e # s'" using e by (meson split_list)
    have x: "?xs = (pre @ p') @ ?e # s'" using ps(1) s by (metis append.assoc)
    have "level_done env ?m (rs_job ?st') (rs_children ?st') (set ((pre @ p') @ [?e]))"
      using all unfolding upd x by (auto simp: level_done_def)
    moreover have "m_pgexprLastScheduled (rs_job ?st') = Some ?e" "m_pgroup (rs_job ?st') = m_pgroup ?pj"
      by (simp_all add: on_job_def False)
    ultimately have "upto_done env ?m (rs_job ?st') (rs_children ?st')" using upto_doneI x by metis
    then show thesis using that [OF run flds(1,2)] flds(3) new by blast
  qed
qed

definition jgo_good :: "opt_env \<Rightarrow> memo \<Rightarrow> nat \<Rightarrow> nat option \<Rightarrow> nat \<Rightarrow> nat \<Rightarrow> job_group_opt job_run \<Rightarrow> bool" where
  "jgo_good env m0 g origin poc est st \<longleftrightarrow>
     (let pj = rs_job st; m = rs_memo st; cs = rs_children st; xs = g_listGExprs m0 g
      in m_pgroup pj = g \<and> m_pgexprOrigin pj = origin \<and> m_poc pj = poc
       \<and> g_listGExprs m = g_listGExprs m0 \<and> ge_FLogical m = ge_FLogical m0 \<and> g_eolMax m = g_eolMax m0
       \<and> distinct xs \<and> levels_ok env m0 g
       \<and> (est = 0 \<longrightarrow> m_pgexprLastScheduled pj = None)
       \<and> (est = 1 \<or> est = 2 \<longrightarrow> above_done env m0 pj cs)
       \<and> (est = 1 \<longrightarrow> upto_done env m0 pj cs)
       \<and> (est = 2 \<longrightarrow> level_done env m0 pj cs (set xs))
       \<and> (est = 3 \<longrightarrow> (\<forall>x \<in> set xs. jgo_done env m0 origin poc cs x) \<and> poc_estate m poc = poc_estOptimized))"

definition jgo_rank :: "nat \<Rightarrow> job_group_opt job_run \<Rightarrow> nat" where
  "jgo_rank est st = (if est = 0 then 5
     else (if m_eolCurrent (rs_job st) = EolHigh then 2 else 0) + (if est = 1 then 2 else 1))"

lemma jgo_frame:
  assumes "g_listGExprs m = g_listGExprs m0" "ge_FLogical m = ge_FLogical m0"
  shows "jgo_done env m = jgo_done env m0" "above_done env m = above_done env m0"
    "level_done env m = level_done env m0" "upto_done env m = upto_done env m0"
proof -
  show j: "jgo_done env m = jgo_done env m0" using assms by (simp add: jgo_done_def fun_eq_iff)
  show l: "level_done env m = level_done env m0" by (simp add: level_done_def fun_eq_iff j)
  show "above_done env m = above_done env m0" using assms by (simp add: above_done_def fun_eq_iff j)
  show "upto_done env m = upto_done env m0" using assms by (simp add: upto_done_def fun_eq_iff l split: option.split)
qed

lemma eol_cases: "e \<noteq> EolSentinel \<Longrightarrow> e = EolLow \<or> e = EolHigh"
  by (cases e) auto

lemma jgo_start:
  assumes "jgo_good env m0 g origin poc 0 st"
  shows "\<exists>e st' t. jgo_EevtStartOptimization st = Some (e, st') \<and> row_find (jgo_rgeev ! 0) e = Some t
    \<and> jgo_good env m0 g origin poc t st'
    \<and> (t = 0 \<or> (rs_children st' = rs_children st \<and> (t = 3 \<or> jgo_rank t st' < jgo_rank 0 st)))"
proof (cases "g_FImplemented (rs_memo st) (m_pgroup (rs_job st))")
  case False
  then show ?thesis using assms
    by (auto simp: jgo_EevtStartOptimization_def jgo_rgeev_def jgo_good_def Let_def jgi_ScheduleJob_def)
next
  case True
  have l: "levels_ok env m0 g" using assms by (simp add: jgo_good_def Let_def)
  then have "\<forall>x \<in> set (g_listGExprs m0 g). \<not> (\<not> ge_FLogical m0 x \<and> g_eolMax m0 g = EolLow \<and> ge_Eol env x = EolHigh)"
    by (auto simp: levels_ok_def)
  then have "above_done env m0 ((rs_job st)\<lparr>m_eolCurrent := g_eolMax m0 g\<rparr>) (rs_children st)"
    using assms l by (auto simp: above_done_def jgo_done_def levels_ok_def jgo_good_def Let_def)
  then show ?thesis using assms True
    by (auto simp: jgo_EevtStartOptimization_def jgo_rgeev_def jgo_good_def Let_def poc_SetState_def
        upto_done_def jgo_rank_def)
qed

lemma jgo_children:
  assumes "jgo_good env m0 g origin poc 1 st"
  shows "\<exists>e st' t. jgo_EevtOptimizeChildren env st = Some (e, st') \<and> row_find (jgo_rgeev ! 1) e = Some t
    \<and> jgo_good env m0 g origin poc t st'
    \<and> (t = 1 \<or> (rs_children st' = rs_children st \<and> (t = 3 \<or> jgo_rank t st' < jgo_rank 1 st)))"
proof -
  let ?m = "rs_memo st"
  have fr: "g_listGExprs ?m = g_listGExprs m0" "ge_FLogical ?m = ge_FLogical m0" "m_pgroup (rs_job st) = g"
    using assms by (simp_all add: jgo_good_def Let_def)
  have d: "distinct (g_listGExprs ?m (m_pgroup (rs_job st)))"
    and up: "upto_done env ?m (rs_job st) (rs_children st)"
    using assms fr by (simp_all add: jgo_frame [OF fr(1,2)] jgo_good_def Let_def)
  obtain fNew st' cs l where s: "jgo_FScheduleGroupExpressions env st = Some (fNew, st')"
    "rs_memo st' = ?m" "rs_children st' = rs_children st @ cs"
    "rs_job st' = rs_job st\<lparr>m_pgexprLastScheduled := l\<rparr>"
    "upto_done env ?m (rs_job st') (rs_children st')"
    "fNew \<or> (cs = [] \<and> level_done env ?m (rs_job st) (rs_children st) (set (g_listGExprs ?m (m_pgroup (rs_job st)))))"
    using jgo_schedule [OF d up] by metis
  have ab: "above_done env m0 (rs_job st') (rs_children st')"
  proof -
    have "above_done env m0 (rs_job st) (rs_children st)" using assms by (simp add: jgo_good_def Let_def)
    then have "above_done env m0 (rs_job st) (rs_children st')" by (rule above_done_mono) (simp add: s)
    then show ?thesis by (simp add: above_done_def s(4))
  qed
  show ?thesis
  proof (cases fNew)
    case True
    then show ?thesis using assms s ab jgo_frame [OF fr(1,2)]
      by (auto simp: jgo_EevtOptimizeChildren_def jgo_rgeev_def jgo_good_def Let_def)
  next
    case False
    then have "level_done env m0 (rs_job st') (rs_children st') (set (g_listGExprs m0 g))"
      using s jgo_frame [OF fr(1,2)] fr by (simp add: level_done_def)
    then show ?thesis using assms s ab False
      by (auto simp: jgo_EevtOptimizeChildren_def jgo_rgeev_def jgo_good_def Let_def jgo_rank_def)
  qed
qed

lemma jgo_complete:
  assumes "jgo_good env m0 g origin poc 2 st"
  shows "\<exists>e st' t. jgo_EevtCompleteOptimization st = Some (e, st') \<and> row_find (jgo_rgeev ! 2) e = Some t
    \<and> jgo_good env m0 g origin poc t st'
    \<and> (t = 2 \<or> (rs_children st' = rs_children st \<and> (t = 3 \<or> jgo_rank t st' < jgo_rank 2 st)))"
proof -
  let ?pj = "rs_job st" and ?cs = "rs_children st"
  have ab: "above_done env m0 ?pj ?cs" and ld: "level_done env m0 ?pj ?cs (set (g_listGExprs m0 g))"
    and pj: "m_pgroup ?pj = g" "m_pgexprOrigin ?pj = origin" "m_poc ?pj = poc" and l: "levels_ok env m0 g"
    using assms by (simp_all add: jgo_good_def Let_def)
  consider "m_eolCurrent ?pj = EolHigh" | "m_eolCurrent ?pj = EolLow"
    using ab eol_cases by (auto simp: above_done_def)
  then show ?thesis
  proof cases
    case 1
    have "above_done env m0 (?pj\<lparr>m_eolCurrent := EolLow, m_pgexprLastScheduled := None\<rparr>) ?cs"
      using ld 1 pj by (simp add: above_done_def level_done_def)
    then show ?thesis using assms 1
      by (auto simp: jgo_EevtCompleteOptimization_def jgo_rgeev_def jgo_good_def Let_def DampOptimizationLevel_def
          EolDamp_def upto_done_def jgo_rank_def)
  next
    case 2
    have "jgo_done env m0 origin poc ?cs x" if x: "x \<in> set (g_listGExprs m0 g)" for x
    proof (cases "ge_Eol env x")
      case EolSentinel
      then have "ge_FLogical m0 x" using l x by (auto simp: levels_ok_def)
      then show ?thesis by (simp add: jgo_done_def)
    qed (use ld ab pj 2 x in \<open>auto simp: level_done_def above_done_def\<close>)
    then show ?thesis using assms 2
      by (auto simp: jgo_EevtCompleteOptimization_def jgo_rgeev_def jgo_good_def Let_def DampOptimizationLevel_def
          EolDamp_def poc_SetState_def)
  qed
qed

lemma jgo_table:
  "length (jgo_acts env) = 3" "length jgo_rgeev = 4" "est \<le> 3 \<Longrightarrow> length (jgo_rgeev ! est) = 4"
  by (auto simp: jgo_acts_def jgo_rgeev_def le_Suc_eq numeral_3_eq_3)

lemma jgo_action:
  assumes "jgo_good env m0 g origin poc est st" "est < 3"
  shows "\<exists>e st' t. (jgo_acts env ! est) st = Some (e, st') \<and> row_find (jgo_rgeev ! est) e = Some t
    \<and> jgo_good env m0 g origin poc t st'
    \<and> (t = est \<or> (rs_children st' = rs_children st \<and> (t = 3 \<or> jgo_rank t st' < jgo_rank est st)))"
proof -
  consider "est = 0" | "est = 1" | "est = 2" using assms(2) by linarith
  then show ?thesis
  proof cases
    case 1
    then show ?thesis using jgo_start [of env m0 g origin poc st] assms(1) unfolding jgo_acts_def by simp
  next
    case 2
    then show ?thesis using jgo_children [of env m0 g origin poc st] assms(1) unfolding jgo_acts_def by simp
  next
    case 3
    then show ?thesis using jgo_complete [of env m0 g origin poc st] assms(1) unfolding jgo_acts_def by simp
  qed
qed

interpretation jgo: job_actions timed_out "\<lambda>st. st" jgo_rgeev "jgo_acts env"
  "jgo_good env m0 g origin poc" jgo_rank rs_children
  for timed_out env m0 g origin poc
  by (unfold_locales, unfold jgo_table(1,2)) (erule (1) jgo_action | simp add: jgo_table)+

section \<open>Group expression optimization keeps the contract\<close>

text \<open>The child that is optimized in the place \<open>k\<close>.\<close>

definition child_at :: "bool \<Rightarrow> nat \<Rightarrow> nat \<Rightarrow> nat" where
  "child_at fRightToLeft n k = (if fRightToLeft then n - 1 - k else k)"

lemma child_at_lt: "k < n \<Longrightarrow> child_at rtl n k < n"
  by (simp add: child_at_def)

lemma child_at_all: "i < n \<Longrightarrow> \<exists>k < n. child_at rtl n k = i"
  by (rule exI [of _ "child_at rtl n i"]) (auto simp: child_at_def)

lemma ul_sub_arity: "0 < n \<Longrightarrow> n \<le> ULONG_MAX \<Longrightarrow> ul_sub n 1 = n - 1"
  using ul_sub_one_mod [of n] by (simp add: ULONG_MAX_def)

lemma child_order:
  assumes "k < n" "n \<le> ULONG_MAX"
  shows "UlFirstOptimizedChildIndex rtl n = child_at rtl n 0"
    "UlLastOptimizedChildIndex rtl n = child_at rtl n (n - 1)"
    "FNextChildIndex rtl n (child_at rtl n k) = (if Suc k < n then Some (child_at rtl n (Suc k)) else None)"
    "UlPreviousOptimizedChildIndex rtl n (child_at rtl n k) = (if k = 0 then ULONG_MAX else child_at rtl n (k - 1))"
proof -
  have s: "ul_sub n (Suc 0) = n - Suc 0" using ul_sub_arity [of n] assms by simp
  have u: "Suc k \<noteq> ULONG_MAX \<or> Suc k = n" "n - Suc k \<noteq> ULONG_MAX" using assms by (auto simp: ULONG_MAX_def)
  show "UlFirstOptimizedChildIndex rtl n = child_at rtl n 0" "UlLastOptimizedChildIndex rtl n = child_at rtl n (n - 1)"
    using assms by (simp_all add: UlFirstOptimizedChildIndex_def UlLastOptimizedChildIndex_def child_at_def)
  show "FNextChildIndex rtl n (child_at rtl n k) = (if Suc k < n then Some (child_at rtl n (Suc k)) else None)"
    using assms u by (auto simp: FNextChildIndex_def UlNextOptimizedChildIndex_def child_at_def s Let_def)
  show "UlPreviousOptimizedChildIndex rtl n (child_at rtl n k) = (if k = 0 then ULONG_MAX else child_at rtl n (k - 1))"
    using assms u by (auto simp: UlPreviousOptimizedChildIndex_def child_at_def s)
qed

text \<open>The references a job holds are those of its fields.\<close>

primrec held :: "job_gexpr_opt \<Rightarrow> resource \<Rightarrow> bool" where
  "held pj RsPdrgpoc = (m_pdrgpoc pj \<noteq> None)"
| "held pj RsStats = (m_pdrgpstatCurrentCtxt pj \<noteq> None)"
| "held pj RsPdrgpdp = (m_pdrgpdp pj \<noteq> None)"
| "held pj RsHdlPlan = (m_pexprhdlPlan pj \<noteq> None)"
| "held pj RsHdlRel = (m_pexprhdlRel pj \<noteq> None)"
| "held pj RsCTEProducer = (m_prppCTEProducer pj \<noteq> None)"

definition refs_ok :: "job_gexpr_opt \<Rightarrow> bool" where
  "refs_ok pj \<longleftrightarrow> (\<forall>r. m_refs pj r = (if held pj r then 1 else 0))"

lemma Cleanup_refs: "refs_ok pj \<Longrightarrow> m_refs (jxo_Cleanup pj) r = 0"
  by (cases r) (auto simp: refs_ok_def jxo_Cleanup_def SafeRelease_def)

lemma new_job_refs: "refs_ok (jxo_new_job env m x poc req prpp)"
  unfolding refs_ok_def
proof
  fix r show "m_refs (jxo_new_job env m x poc req prpp) r
      = (if held (jxo_new_job env m x poc req prpp) r then 1 else 0)"
    by (cases r) (auto simp: jxo_new_job_def acquire_def Let_def)
qed

text \<open>What the operations on the children leave as it is.\<close>

definition same_job :: "job_gexpr_opt \<Rightarrow> job_gexpr_opt \<Rightarrow> bool" where
  "same_job pj pj' \<longleftrightarrow> m_refs pj' = m_refs pj \<and> held pj' = held pj \<and> m_pgexpr pj' = m_pgexpr pj
     \<and> m_ulArity pj' = m_ulArity pj \<and> m_fRightToLeft pj' = m_fRightToLeft pj"

lemma same_job_refs: "same_job pj pj' \<Longrightarrow> refs_ok pj \<Longrightarrow> refs_ok pj'"
  by (simp add: same_job_def refs_ok_def)

lemma same_job_trans: "same_job a b \<Longrightarrow> same_job b c \<Longrightarrow> same_job a c"
  by (simp add: same_job_def)

lemma held_eq:
  "(m_pdrgpoc pj' = None) = (m_pdrgpoc pj = None) \<Longrightarrow>
   (m_pdrgpstatCurrentCtxt pj' = None) = (m_pdrgpstatCurrentCtxt pj = None) \<Longrightarrow>
   (m_pdrgpdp pj' = None) = (m_pdrgpdp pj = None) \<Longrightarrow> (m_pexprhdlPlan pj' = None) = (m_pexprhdlPlan pj = None) \<Longrightarrow>
   (m_pexprhdlRel pj' = None) = (m_pexprhdlRel pj = None) \<Longrightarrow>
   (m_prppCTEProducer pj' = None) = (m_prppCTEProducer pj = None) \<Longrightarrow> held pj' = held pj"
proof
  fix r
  assume "(m_pdrgpoc pj' = None) = (m_pdrgpoc pj = None)"
    "(m_pdrgpstatCurrentCtxt pj' = None) = (m_pdrgpstatCurrentCtxt pj = None)"
    "(m_pdrgpdp pj' = None) = (m_pdrgpdp pj = None)" "(m_pexprhdlPlan pj' = None) = (m_pexprhdlPlan pj = None)"
    "(m_pexprhdlRel pj' = None) = (m_pexprhdlRel pj = None)"
    "(m_prppCTEProducer pj' = None) = (m_prppCTEProducer pj = None)"
  then show "held pj' r = held pj r" by (cases r) simp_all
qed

lemma same_job_updates:
  "same_job pj (child_failed pj)" "same_job pj (next_child pj)" "same_job pj (set_Prpp ul r pj)"
  "same_job pj (pj\<lparr>m_pdrgpdp := map_option f (m_pdrgpdp pj), m_pdrgpstatCurrentCtxt := map_option g (m_pdrgpstatCurrentCtxt pj)\<rparr>)"
  by (auto simp: same_job_def child_failed_def next_child_def set_Prpp_def split: option.split intro!: held_eq)

text \<open>Deriving properties and computing requirements schedule nothing and do not move the index;
  they change the memo only when they fail.\<close>

lemma DerivePrevChildProps_frame:
  "same_job (rs_job st) (rs_job (DerivePrevChildProps env st))
   \<and> rs_children (DerivePrevChildProps env st) = rs_children st
   \<and> m_ulChildIndex (rs_job (DerivePrevChildProps env st)) = m_ulChildIndex (rs_job st)
   \<and> m_fChildrenScheduled (rs_job (DerivePrevChildProps env st)) = m_fChildrenScheduled (rs_job st)
   \<and> m_pdrgpoc (rs_job (DerivePrevChildProps env st)) = m_pdrgpoc (rs_job st)
   \<and> (m_fChildOptimizationFailed (rs_job (DerivePrevChildProps env st)) \<or> rs_memo (DerivePrevChildProps env st) = rs_memo st)"
  by (auto simp: DerivePrevChildProps_def Let_def same_job_updates child_failed_def same_job_def
      split: option.split intro!: held_eq)

lemma ComputeCurrentChildRequirements_frame:
  "same_job (rs_job st) (rs_job (ComputeCurrentChildRequirements env st))
   \<and> rs_children (ComputeCurrentChildRequirements env st) = rs_children st
   \<and> m_ulChildIndex (rs_job (ComputeCurrentChildRequirements env st)) = m_ulChildIndex (rs_job st)
   \<and> m_fChildrenScheduled (rs_job (ComputeCurrentChildRequirements env st)) = m_fChildrenScheduled (rs_job st)
   \<and> m_pdrgpoc (rs_job (ComputeCurrentChildRequirements env st)) = m_pdrgpoc (rs_job st)
   \<and> (m_fChildOptimizationFailed (rs_job (ComputeCurrentChildRequirements env st))
      \<or> rs_memo (ComputeCurrentChildRequirements env st) = rs_memo st)"
proof -
  define st' where "st' = (if m_ulChildIndex (rs_job st) \<noteq>
      UlFirstOptimizedChildIndex (m_fRightToLeft (rs_job st)) (m_ulArity (rs_job st))
    then DerivePrevChildProps env st else st)"
  have f: "same_job (rs_job st) (rs_job st') \<and> rs_children st' = rs_children st
     \<and> m_ulChildIndex (rs_job st') = m_ulChildIndex (rs_job st)
     \<and> m_fChildrenScheduled (rs_job st') = m_fChildrenScheduled (rs_job st)
     \<and> m_pdrgpoc (rs_job st') = m_pdrgpoc (rs_job st)
     \<and> (m_fChildOptimizationFailed (rs_job st') \<or> rs_memo st' = rs_memo st)"
    using DerivePrevChildProps_frame [of st env] by (simp add: st'_def same_job_def)
  have u: "m_ulChildIndex (set_Prpp ul r pj) = m_ulChildIndex pj" "m_pdrgpoc (set_Prpp ul r pj) = m_pdrgpoc pj"
    "m_fChildrenScheduled (set_Prpp ul r pj) = m_fChildrenScheduled pj" for ul r pj
    by (simp_all add: set_Prpp_def)
  show ?thesis
    using f same_job_trans [OF _ same_job_updates(3)]
    unfolding ComputeCurrentChildRequirements_def Let_def st'_def [symmetric]
    by (cases "m_fChildOptimizationFailed (rs_job st')") (auto simp: u)
qed

text \<open>The first \<open>k\<close> children in the order have been given a job, unless they are scalar.\<close>

definition children_upto :: "jxo_env \<Rightarrow> nat \<Rightarrow> nat list \<Rightarrow> bool \<Rightarrow> child list \<Rightarrow> nat \<Rightarrow> bool" where
  "children_upto env x gs rtl cs k \<longleftrightarrow> (\<forall>j < k. \<not> env_FScalar env (gs ! child_at rtl (length gs) j) \<longrightarrow>
     (\<exists>poc. GroupOptimization (gs ! child_at rtl (length gs) j) (Some x) poc \<in> set cs))"

text \<open>In the second state the index is that of the next child, or all children are complete.\<close>

definition index_ok :: "jxo_env \<Rightarrow> nat \<Rightarrow> nat list \<Rightarrow> job_gexpr_opt \<Rightarrow> child list \<Rightarrow> bool" where
  "index_ok env x gs pj cs \<longleftrightarrow>
     (if gs = [] \<or> m_fChildrenScheduled pj then children_upto env x gs (m_fRightToLeft pj) cs (length gs)
      else \<exists>k < length gs. m_ulChildIndex pj = child_at (m_fRightToLeft pj) (length gs) k
             \<and> children_upto env x gs (m_fRightToLeft pj) cs k)"

definition jxo_good :: "jxo_env \<Rightarrow> nat \<Rightarrow> nat list \<Rightarrow> nat \<Rightarrow> job_gexpr_opt job_run \<Rightarrow> bool" where
  "jxo_good env x gs est st \<longleftrightarrow>
     (let pj = rs_job st; cs = rs_children st
      in m_pgexpr pj = x \<and> m_ulArity pj = length gs \<and> length gs \<le> ULONG_MAX
       \<and> (est < 5 \<longrightarrow> refs_ok pj)
       \<and> (est = 0 \<longrightarrow> \<not> m_fChildrenScheduled pj \<and> (\<forall>r. r \<noteq> RsCTEProducer \<longrightarrow> \<not> held pj r))
       \<and> (est \<le> 1 \<longrightarrow> ge_pdrgpgroup (rs_memo st) x = gs)
       \<and> (est \<le> 2 \<longrightarrow> m_pdrgpoc pj = None)
       \<and> (est = 1 \<longrightarrow> index_ok env x gs pj cs)
       \<and> (1 \<le> est \<and> est < 5 \<longrightarrow> m_pexprhdlPlan pj \<noteq> None)
       \<and> (2 \<le> est \<and> est < 5 \<longrightarrow> children_upto env x gs (m_fRightToLeft pj) cs (length gs))
       \<and> (est = 5 \<longrightarrow> m_pdrgpoc pj \<noteq> None \<longrightarrow> children_upto env x gs (m_fRightToLeft pj) cs (length gs))
       \<and> (est = 5 \<longrightarrow> (\<forall>r. m_refs pj r = 0)
            \<or> (m_pexprhdlPlan pj = None \<and> refs_ok pj \<and> (\<forall>r. r \<noteq> RsCTEProducer \<longrightarrow> \<not> held pj r))))"

lemma Cleanup_fields [simp]:
  "m_pgexpr (jxo_Cleanup pj) = m_pgexpr pj" "m_ulArity (jxo_Cleanup pj) = m_ulArity pj"
  "m_fRightToLeft (jxo_Cleanup pj) = m_fRightToLeft pj" "m_pdrgpoc (jxo_Cleanup pj) = m_pdrgpoc pj"
  "m_prppCTEProducer (jxo_Cleanup pj) = m_prppCTEProducer pj"
  by (simp_all add: jxo_Cleanup_def SafeRelease_def)

lemma next_child_index:
  assumes "\<not> m_fChildrenScheduled pj" "k < length gs" "length gs \<le> ULONG_MAX" "m_ulArity pj = length gs"
    "m_ulChildIndex pj = child_at (m_fRightToLeft pj) (length gs) k"
    "children_upto env x gs (m_fRightToLeft pj) cs (Suc k)"
  shows "index_ok env x gs (next_child pj) cs"
proof (cases "Suc k < length gs")
  case False
  then have "Suc k = length gs" using assms(2) by simp
  then show ?thesis using assms child_order(3) [OF assms(2,3)] by (simp add: next_child_def index_ok_def)
next
  case True
  then show ?thesis using assms child_order(3) [OF assms(2,3)] by (auto simp: next_child_def index_ok_def)
qed

lemma children_upto_Suc:
  assumes "children_upto env x gs rtl cs k" "set cs \<subseteq> set cs'"
    "\<not> env_FScalar env (gs ! child_at rtl (length gs) k) \<Longrightarrow>
       \<exists>poc. GroupOptimization (gs ! child_at rtl (length gs) k) (Some x) poc \<in> set cs'"
  shows "children_upto env x gs rtl cs' (Suc k)"
  using assms unfolding children_upto_def less_Suc_eq by blast

lemma ScheduleChildGroupsJobs_ok:
  assumes good: "jxo_good env x gs 1 st" and open_: "gs \<noteq> []" "\<not> m_fChildrenScheduled (rs_job st)"
  defines "st' \<equiv> jxo_ScheduleChildGroupsJobs env st"
  shows "same_job (rs_job st) (rs_job st') \<and> m_pdrgpoc (rs_job st') = m_pdrgpoc (rs_job st)
    \<and> (if m_fChildOptimizationFailed (rs_job st') \<and> rs_children st' = rs_children st then True
       else rs_memo st' = rs_memo st \<and> index_ok env x gs (rs_job st') (rs_children st')
          \<and> (m_fChildOptimizationFailed (rs_job st') \<longrightarrow> rs_children st' = rs_children st))"
proof -
  let ?pj = "rs_job st" and ?rtl = "m_fRightToLeft (rs_job st)"
  have g: "m_pgexpr ?pj = x" "m_ulArity ?pj = length gs" "length gs \<le> ULONG_MAX" "ge_pdrgpgroup (rs_memo st) x = gs"
    and io: "index_ok env x gs ?pj (rs_children st)"
    using good by (simp_all add: jxo_good_def Let_def)
  obtain k where k: "k < length gs" "m_ulChildIndex ?pj = child_at ?rtl (length gs) k"
    "children_upto env x gs ?rtl (rs_children st) k"
    using io open_ by (auto simp: index_ok_def)
  let ?g = "gs ! child_at ?rtl (length gs) k"
  show ?thesis
  proof (cases "env_FScalar env ?g")
    case True
    then have st': "st' = on_job next_child st"
      by (simp add: st'_def jxo_ScheduleChildGroupsJobs_def g k(2) Let_def)
    have "children_upto env x gs ?rtl (rs_children st) (Suc k)"
      using children_upto_Suc [OF k(3)] True by blast
    from next_child_index [OF open_(2) k(1) g(3,2) k(2) this]
    show ?thesis unfolding st' by (simp add: same_job_updates) (simp add: next_child_def split: option.split)
  next
    case False
    let ?st1 = "ComputeCurrentChildRequirements env st"
    note f = ComputeCurrentChildRequirements_frame [of st env]
    let ?pj1 = "rs_job ?st1"
    let ?poc = "env_PocChild env (rs_memo ?st1) ?g (hdl_Prpp ?pj1 (m_ulChildIndex ?pj1))
      (case m_pdrgpstatCurrentCtxt ?pj1 of None \<Rightarrow> [] | Some xs \<Rightarrow> xs)"
    have st': "st' = (if m_fChildOptimizationFailed ?pj1 then ?st1
       else if env_FSameContext env (rs_memo ?st1) ?g (m_pgexpr ?pj1) ?poc (jxo_m_poc ?pj1) then on_job child_failed ?st1
       else on_job next_child (jgo_ScheduleJob ?g (Some (m_pgexpr ?pj1)) ?poc ?st1))"
      using False by (simp add: st'_def jxo_ScheduleChildGroupsJobs_def g k(2) Let_def)
    consider "m_fChildOptimizationFailed ?pj1"
      | "\<not> m_fChildOptimizationFailed ?pj1" "st' = on_job child_failed ?st1"
      | "\<not> m_fChildOptimizationFailed ?pj1" "st' = on_job next_child (jgo_ScheduleJob ?g (Some (m_pgexpr ?pj1)) ?poc ?st1)"
      using st' by (auto split: if_splits)
    then show ?thesis
    proof cases
      case 1
      then show ?thesis using st' f by simp
    next
      case 2
      then show ?thesis using f same_job_trans [OF _ same_job_updates(1)]
        by (simp add: child_failed_def)
    next
      case 3
      have s: "same_job ?pj ?pj1" and fl: "m_fRightToLeft ?pj1 = ?rtl" "m_ulArity ?pj1 = length gs" "m_pgexpr ?pj1 = x"
        and i: "m_ulChildIndex ?pj1 = child_at (m_fRightToLeft ?pj1) (length gs) k" "\<not> m_fChildrenScheduled ?pj1"
        using f g k(2) open_(2) by (simp_all add: same_job_def)
      have cs: "rs_children st' = rs_children st @ [GroupOptimization ?g (Some x) ?poc]"
        using 3(2) f fl(3) by (simp add: jgo_ScheduleJob_def)
      have "children_upto env x gs (m_fRightToLeft ?pj1) (rs_children st') (Suc k)"
        unfolding fl(1) by (rule children_upto_Suc [OF k(3)]) (auto simp: cs)
      from next_child_index [OF i(2) k(1) g(3) fl(2) i(1) this]
      have "index_ok env x gs (rs_job st') (rs_children st')" using 3(2) by (simp add: jgo_ScheduleJob_def)
      moreover have "same_job ?pj (rs_job st')" "m_pdrgpoc (rs_job st') = m_pdrgpoc ?pj"
        "\<not> m_fChildOptimizationFailed (rs_job st')" "rs_memo st' = rs_memo st"
        using 3 f same_job_trans [OF s same_job_updates(2)]
        by (auto simp: jgo_ScheduleJob_def next_child_def split: option.split)
      ultimately show ?thesis by simp
    qed
  qed
qed

text \<open>The actions of the states, one after the other.\<close>

definition jxo_step_ok ::
    "jxo_env \<Rightarrow> nat \<Rightarrow> nat list \<Rightarrow> nat \<Rightarrow> job_gexpr_opt job_run \<Rightarrow> (jxo_event \<times> job_gexpr_opt job_run) option \<Rightarrow> bool" where
  "jxo_step_ok env x gs est st r \<longleftrightarrow> (\<exists>e st' t. r = Some (e, st') \<and> row_find (jxo_rgeev ! est) e = Some t
     \<and> jxo_good env x gs t st'
     \<and> (t = est \<or> (rs_children st' = rs_children st \<and> (t = 5 \<or> 5 - t < 5 - est))))"

lemma jxo_step_okI:
  assumes "row_find (jxo_rgeev ! est) e = Some t" "jxo_good env x gs t st'"
    "t = est \<or> (rs_children st' = rs_children st \<and> (t = 5 \<or> 5 - t < 5 - est))"
  shows "jxo_step_ok env x gs est st (Some (e, st'))"
  using assms by (auto simp: jxo_step_ok_def)

lemma jxo_rows:
  "row_find (jxo_rgeev ! 0) jxo_eevOptimizingChildren = Some 1" "row_find (jxo_rgeev ! 0) jxo_eevFinalized = Some 5"
  "row_find (jxo_rgeev ! 1) jxo_eevOptimizingChildren = Some 1" "row_find (jxo_rgeev ! 1) jxo_eevChildrenOptimized = Some 2"
  "row_find (jxo_rgeev ! 1) jxo_eevFinalized = Some 5"
  "row_find (jxo_rgeev ! 2) jxo_eevOptimizingSelf = Some 3" "row_find (jxo_rgeev ! 2) jxo_eevFinalized = Some 5"
  "row_find (jxo_rgeev ! 3) jxo_eevOptimizingSelf = Some 3" "row_find (jxo_rgeev ! 3) jxo_eevSelfOptimized = Some 4"
  "row_find (jxo_rgeev ! 3) jxo_eevFinalized = Some 5" "row_find (jxo_rgeev ! 4) jxo_eevFinalized = Some 5"
  by (simp_all add: jxo_rgeev_def)

text \<open>Finalizing with a cleanup.\<close>

lemma jxo_finalize:
  assumes "m_pgexpr pj = x" "m_ulArity pj = length gs" "length gs \<le> ULONG_MAX" "refs_ok pj"
    "rs_job st' = jxo_Cleanup pj"
    "m_pdrgpoc pj \<noteq> None \<Longrightarrow> children_upto env x gs (m_fRightToLeft pj) (rs_children st') (length gs)"
  shows "jxo_good env x gs 5 st'"
  using assms by (simp add: jxo_good_def Let_def Cleanup_refs)

lemma jxo_step_0:
  assumes good: "jxo_good env x gs 0 st"
  shows "jxo_step_ok env x gs 0 st (jxo_EevtInitialize env st)"
proof -
  let ?pj = "rs_job st"
  have g: "m_pgexpr ?pj = x" "m_ulArity ?pj = length gs" "length gs \<le> ULONG_MAX" "refs_ok ?pj"
    "\<not> m_fChildrenScheduled ?pj" "\<And>r. r \<noteq> RsCTEProducer \<Longrightarrow> \<not> held ?pj r" "m_pdrgpoc ?pj = None"
    "ge_pdrgpgroup (rs_memo st) x = gs"
    using good by (simp_all add: jxo_good_def Let_def)
  have plan: "m_pexprhdlPlan ?pj = None" using g(6) [of RsHdlPlan] by simp
  have fin: "jxo_good env x gs 5 (on_memo f st)" for f
    using g plan by (simp add: jxo_good_def Let_def)
  have fin': "jxo_good env x gs 5 st" using g plan by (simp add: jxo_good_def Let_def)
  let ?st' = "InitChildGroupsOptimization env st"
  have "refs_ok (rs_job ?st')"
    unfolding refs_ok_def
  proof
    fix r
    have "m_refs ?pj r = (if held ?pj r then 1 else 0)" using g(4) by (simp add: refs_ok_def)
    moreover have "r \<noteq> RsCTEProducer \<Longrightarrow> \<not> held ?pj r" by (rule g(6))
    ultimately show "m_refs (rs_job ?st') r = (if held (rs_job ?st') r then 1 else 0)"
      by (cases r) (simp_all add: InitChildGroupsOptimization_def acquire_def Let_def)
  qed
  moreover have "index_ok env x gs (rs_job ?st') (rs_children st)"
    using g(2,5) child_order(1) [OF _ g(3)]
    by (cases gs) (auto simp: index_ok_def children_upto_def InitChildGroupsOptimization_def acquire_def Let_def
        intro!: exI [of _ 0])
  ultimately have "jxo_good env x gs 1 ?st'"
    using g by (simp add: jxo_good_def Let_def) (simp add: InitChildGroupsOptimization_def acquire_def Let_def)
  then have init: "jxo_step_ok env x gs 0 st (Some (jxo_eevOptimizingChildren, ?st'))"
    by (rule jxo_step_okI [OF jxo_rows(1)]) (simp add: InitChildGroupsOptimization_def)
  show ?thesis
    using init jxo_step_okI [OF jxo_rows(2) fin', where st = st] jxo_step_okI [OF jxo_rows(2) fin, where st = st]
    by (simp add: jxo_EevtInitialize_def Let_def)
qed

lemma jxo_step_1:
  assumes good: "jxo_good env x gs 1 st"
  shows "jxo_step_ok env x gs 1 st (jxo_EevtOptimizeChildren env st)"
proof -
  let ?pj = "rs_job st"
  have g: "m_pgexpr ?pj = x" "m_ulArity ?pj = length gs" "length gs \<le> ULONG_MAX" "refs_ok ?pj"
    "m_pdrgpoc ?pj = None" "ge_pdrgpgroup (rs_memo st) x = gs" "m_pexprhdlPlan ?pj \<noteq> None"
    "index_ok env x gs ?pj (rs_children st)"
    using good by (simp_all add: jxo_good_def Let_def)
  show ?thesis
  proof (cases "gs \<noteq> [] \<and> \<not> m_fChildrenScheduled ?pj")
    case False
    then have "jxo_good env x gs 2 st" using g by (auto simp: jxo_good_def Let_def index_ok_def)
    then have "jxo_step_ok env x gs 1 st (Some (jxo_eevChildrenOptimized, st))"
      by (rule jxo_step_okI [OF jxo_rows(4)]) simp
    then show ?thesis using False g(2) by (auto simp: jxo_EevtOptimizeChildren_def)
  next
    case True
    let ?st' = "jxo_ScheduleChildGroupsJobs env st"
    have s: "same_job ?pj (rs_job ?st')" "m_pdrgpoc (rs_job ?st') = None"
      "m_fChildOptimizationFailed (rs_job ?st') \<Longrightarrow> rs_children ?st' = rs_children st"
      "\<not> m_fChildOptimizationFailed (rs_job ?st') \<Longrightarrow>
         rs_memo ?st' = rs_memo st \<and> index_ok env x gs (rs_job ?st') (rs_children ?st')"
      using ScheduleChildGroupsJobs_ok [OF good] True g(5) by (auto split: if_splits)
    have j: "m_pgexpr (rs_job ?st') = x" "m_ulArity (rs_job ?st') = length gs" "refs_ok (rs_job ?st')"
      using s(1) g(1,2) same_job_refs [OF s(1) g(4)] by (simp_all add: same_job_def)
    have plan: "m_pexprhdlPlan (rs_job ?st') \<noteq> None"
    proof -
      have "held (rs_job ?st') RsHdlPlan = held ?pj RsHdlPlan" using s(1) by (simp add: same_job_def)
      then show ?thesis using g(7) by simp
    qed
    have "jxo_good env x gs 5 (on_job jxo_Cleanup ?st')"
      by (rule jxo_finalize [OF j(1,2) g(3) j(3)]) (simp_all add: s(2))
    then have fail: "m_fChildOptimizationFailed (rs_job ?st') \<Longrightarrow>
        jxo_step_ok env x gs 1 st (Some (jxo_eevFinalized, on_job jxo_Cleanup ?st'))"
      using s(3) by (intro jxo_step_okI [OF jxo_rows(5)]) simp_all
    have ok: "\<not> m_fChildOptimizationFailed (rs_job ?st') \<Longrightarrow>
        jxo_step_ok env x gs 1 st (Some (jxo_eevOptimizingChildren, ?st'))"
      using s(2,4) j plan g(3,6) by (intro jxo_step_okI [OF jxo_rows(3)]) (simp_all add: jxo_good_def Let_def)
    show ?thesis
      using True g(2) fail ok by (cases "m_fChildOptimizationFailed (rs_job ?st')")
        (simp_all add: jxo_EevtOptimizeChildren_def Let_def)
  qed
qed

lemma jxo_step_2:
  assumes good: "jxo_good env x gs 2 st"
  shows "jxo_step_ok env x gs 2 st (jxo_EevtAddEnforcers env st)"
proof -
  let ?pj = "rs_job st"
  have g: "m_pgexpr ?pj = x" "m_ulArity ?pj = length gs" "length gs \<le> ULONG_MAX" "refs_ok ?pj"
    "m_pdrgpoc ?pj = None" "m_pexprhdlPlan ?pj \<noteq> None"
    "children_upto env x gs (m_fRightToLeft ?pj) (rs_children st) (length gs)"
    using good by (simp_all add: jxo_good_def Let_def)
  define pj' where "pj' xs = acquire RsPdrgpoc (?pj\<lparr>m_pdrgpoc := Some xs\<rparr>)" for xs
  have f: "m_pgexpr (pj' xs) = x" "m_ulArity (pj' xs) = length gs" "m_pexprhdlPlan (pj' xs) \<noteq> None"
    "m_fRightToLeft (pj' xs) = m_fRightToLeft ?pj" for xs
    using g by (simp_all add: pj'_def acquire_def)
  have r: "refs_ok (pj' xs)" for xs
    unfolding refs_ok_def
  proof
    fix r
    have "m_refs ?pj r = (if held ?pj r then 1 else 0)" using g(4) by (simp add: refs_ok_def)
    then show "m_refs (pj' xs) r = (if held (pj' xs) r then 1 else 0)"
      using g(5) by (cases r) (simp_all add: pj'_def acquire_def)
  qed
  have self: "jxo_step_ok env x gs 2 st (Some (jxo_eevOptimizingSelf, on_memo h (on_job (\<lambda>_. pj' xs) st)))" for h xs
    using g f r by (intro jxo_step_okI [OF jxo_rows(6)]) (simp_all add: jxo_good_def Let_def)
  have "jxo_good env x gs 5 (on_job jxo_Cleanup (on_memo h (on_job (\<lambda>_. pj' xs) st)))" for h xs
    by (rule jxo_finalize [OF f(1,2) g(3) r]) (simp_all add: f(4) g(7))
  then have fin: "jxo_step_ok env x gs 2 st
      (Some (jxo_eevFinalized, on_job jxo_Cleanup (on_memo h (on_job (\<lambda>_. pj' xs) st))))" for h xs
    by (rule jxo_step_okI [OF jxo_rows(7)]) simp
  have "on_job (\<lambda>pj. acquire RsPdrgpoc (pj\<lparr>m_pdrgpoc := Some xs\<rparr>)) st = on_job (\<lambda>_. pj' xs) st" for xs
    by (simp add: on_job_def pj'_def)
  then show ?thesis using self fin by (simp add: jxo_EevtAddEnforcers_def Let_def case_prod_beta)
qed

lemma FScheduleCTEOptimization_frame:
  "FScheduleCTEOptimization env e poc ul st = (b, st') \<Longrightarrow>
     rs_job st' = rs_job st \<and> set (rs_children st) \<subseteq> set (rs_children st') \<and> (\<not> b \<longrightarrow> st' = st)"
  by (auto simp: FScheduleCTEOptimization_def split: if_splits option.splits)

lemma children_upto_mono:
  "children_upto env x gs rtl cs k \<Longrightarrow> set cs \<subseteq> set cs' \<Longrightarrow> children_upto env x gs rtl cs' k"
  unfolding children_upto_def by blast

lemma jxo_good_34:
  assumes "jxo_good env x gs 3 st" "rs_job st' = rs_job st \<or> rs_job st' = rs_job st\<lparr>m_fScheduledCTEOptimization := True\<rparr>"
    "set (rs_children st) \<subseteq> set (rs_children st')" "t = 3 \<or> t = 4"
  shows "jxo_good env x gs t st'"
proof -
  have "same_job (rs_job st) (rs_job st')" using assms(2) by (auto simp: same_job_def intro!: held_eq)
  from same_job_refs [OF this] show ?thesis
    using assms children_upto_mono by (auto simp: jxo_good_def Let_def)
qed

lemma jxo_step_3:
  assumes good: "jxo_good env x gs 3 st"
  shows "jxo_step_ok env x gs 3 st (jxo_EevtOptimizeSelf env st)"
proof (cases "m_fScheduledCTEOptimization (rs_job st)")
  case True
  have "jxo_step_ok env x gs 3 st (Some (jxo_eevSelfOptimized, st))"
    by (rule jxo_step_okI [OF jxo_rows(9) jxo_good_34 [OF good]]) simp_all
  then show ?thesis using True by (simp add: jxo_EevtOptimizeSelf_def)
next
  case False
  let ?pj = "rs_job st"
  obtain pcc m' where cost: "env_PccComputeCost env (m_pgexpr ?pj) (jxo_m_poc ?pj) (m_ulOptReq ?pj)
      (case m_pdrgpoc ?pj of None \<Rightarrow> [] | Some xs \<Rightarrow> xs) (rs_memo st) = (pcc, m')"
    by (metis prod.exhaust)
  show ?thesis
  proof (cases pcc)
    case None
    have "jxo_good env x gs 5 (on_job jxo_Cleanup (on_memo (\<lambda>_. m') st))"
      using good by (intro jxo_finalize [where pj = ?pj]) (simp_all add: jxo_good_def Let_def)
    then have "jxo_step_ok env x gs 3 st (Some (jxo_eevFinalized, on_job jxo_Cleanup (on_memo (\<lambda>_. m') st)))"
      by (rule jxo_step_okI [OF jxo_rows(10)]) simp
    then show ?thesis using False None cost by (simp add: jxo_EevtOptimizeSelf_def Let_def)
  next
    case (Some c)
    let ?st2 = "on_memo (env_UpdateBestCost env (jxo_m_poc ?pj) c) (on_memo (\<lambda>_. m') st)"
    obtain b st3 where s: "FScheduleCTEOptimization env (m_pgexpr ?pj) (jxo_m_poc ?pj) (m_ulOptReq ?pj) ?st2 = (b, st3)"
      by (metis prod.exhaust)
    note f = FScheduleCTEOptimization_frame [OF s]
    have "jxo_step_ok env x gs 3 st
        (Some (jxo_eevOptimizingSelf, on_job (\<lambda>pj. pj\<lparr>m_fScheduledCTEOptimization := True\<rparr>) st3))"
      by (rule jxo_step_okI [OF jxo_rows(8) jxo_good_34 [OF good]]) (use f in simp_all)
    moreover have "\<not> b \<Longrightarrow> jxo_step_ok env x gs 3 st (Some (jxo_eevSelfOptimized, st3))"
      by (rule jxo_step_okI [OF jxo_rows(9) jxo_good_34 [OF good]]) (use f in simp_all)
    ultimately show ?thesis using False Some cost s by (simp add: jxo_EevtOptimizeSelf_def Let_def)
  qed
qed

lemma jxo_step_4:
  assumes good: "jxo_good env x gs 4 st"
  shows "jxo_step_ok env x gs 4 st (jxo_EevtFinalize st)"
proof -
  have "jxo_good env x gs 5 (on_job jxo_Cleanup st)"
    using good by (intro jxo_finalize [where pj = "rs_job st"]) (simp_all add: jxo_good_def Let_def)
  then show ?thesis unfolding jxo_EevtFinalize_def by (rule jxo_step_okI [OF jxo_rows(11)]) simp
qed

lemma jxo_table:
  "length (jxo_acts env) = 5" "length jxo_rgeev = 6" "est \<le> 5 \<Longrightarrow> length (jxo_rgeev ! est) = 6"
  by (auto simp: jxo_acts_def jxo_rgeev_def le_Suc_eq eval_nat_numeral)

lemma jxo_action:
  assumes "jxo_good env x gs est st" "est < 5"
  shows "\<exists>e st' t. (jxo_acts env ! est) st = Some (e, st') \<and> row_find (jxo_rgeev ! est) e = Some t
    \<and> jxo_good env x gs t st' \<and> (t = est \<or> (rs_children st' = rs_children st \<and> (t = 5 \<or> 5 - t < 5 - est)))"
proof -
  consider "est = 0" | "est = 1" | "est = 2" | "est = 3" | "est = 4" using assms(2) by linarith
  then have "jxo_step_ok env x gs est st ((jxo_acts env ! est) st)"
    using assms(1) by cases (simp_all add: jxo_acts_def jxo_step_0 jxo_step_1 [unfolded One_nat_def] jxo_step_2 jxo_step_3 jxo_step_4)
  then show ?thesis unfolding jxo_step_ok_def .
qed

interpretation jxo: job_actions timed_out "on_job jxo_Cleanup" jxo_rgeev "jxo_acts env"
  "jxo_good env x gs" "\<lambda>est st. 5 - est" rs_children
  for timed_out env x gs
  by (unfold_locales, unfold jxo_table(1,2)) (erule (1) jxo_action | simp add: jxo_table)+

section \<open>The runs of the jobs\<close>

text \<open>The invariant of a group optimization job between its runs.\<close>

definition jgo_ok :: "opt_env \<Rightarrow> (jgo_event, job_group_opt job_run) job_state_machine \<Rightarrow> job_group_opt job_run \<Rightarrow> bool" where
  "jgo_ok env jsm st \<longleftrightarrow> jsm_loaded jgo_rgeev (jgo_acts env) jsm \<and> m_tenumstate (m_sm jsm) < 3
     \<and> jgo_good env (rs_memo st) (m_pgroup (rs_job st)) (m_pgexprOrigin (rs_job st)) (m_poc (rs_job st))
         (m_tenumstate (m_sm jsm)) st"

lemma jgo_good_frame:
  assumes "jgo_good env m0 g origin poc est st"
  shows "jgo_good env (rs_memo st) g origin poc est st"
proof -
  have f: "g_listGExprs (rs_memo st) = g_listGExprs m0" "ge_FLogical (rs_memo st) = ge_FLogical m0"
    "g_eolMax (rs_memo st) = g_eolMax m0"
    using assms by (simp_all add: jgo_good_def Let_def)
  have "levels_ok env (rs_memo st) = levels_ok env m0" using f by (simp add: levels_ok_def fun_eq_iff)
  then show ?thesis using assms by (simp add: jgo_good_def Let_def jgo_frame [OF f(1,2)] f)
qed

lemma jgo_Init_ok:
  assumes "distinct (g_listGExprs m g)" "levels_ok env m g"
  shows "jgo_ok env (snd (jgo_Init env g origin poc jsm))
    \<lparr>rs_job = fst (jgo_Init env g origin poc jsm), rs_memo = m, rs_children = cs, rs_truncated = ts\<rparr>"
proof -
  let ?j = "snd (jgo_Init env g origin poc jsm)"
  have "jsm_loaded jgo_rgeev (jgo_acts env) ?j" "m_tenumstate (m_sm ?j) = 0"
    by (simp_all add: jsm_loaded_def jgo_Init_def jsm_Init_simps jgo_rgeev_def jgo_acts_def eval_nat_numeral)
  then show ?thesis using assms by (simp add: jgo_ok_def jgo_good_def Let_def) (simp add: jgo_Init_def)
qed

text \<open>C8 A run of a group optimization job returns.  Either it keeps its invariant, or it is
  completed, has scheduled no child in this run, and unless it has timed out every physical
  expression of the group that may be optimized at its own level has been given a job for each of
  its optimization requests, over the levels from the highest to the lowest, and the context is set
  optimized.\<close>

theorem GroupOptimization_run:
  assumes "jgo_ok env jsm st"
  shows "\<exists>b jsm' st'. jgo_FExecute timed_out jsm st = Some (Inr (b, jsm', st'))
    \<and> (\<not> b \<longrightarrow> jgo_ok env jsm' st')
    \<and> (b \<longrightarrow> rs_children st' = rs_children st \<and> (timed_out st'
         \<or> (let pj = rs_job st; m = rs_memo st
            in (\<forall>x \<in> set (g_listGExprs m (m_pgroup pj)).
                  \<not> ge_FLogical m x \<and> FOptimizeChild env (m_pgexprOrigin pj) x (m_poc pj) (ge_Eol env x) \<longrightarrow>
                  (\<forall>ul < UlOptRequests env x. GroupExpressionOptimization x (m_poc pj) ul None \<in> set (rs_children st)))
             \<and> poc_estate (rs_memo st') (m_poc pj) = poc_estOptimized)))"
proof -
  let ?pj = "rs_job st" and ?m = "rs_memo st"
  let ?good = "jgo_good env ?m (m_pgroup ?pj) (m_pgexprOrigin ?pj) (m_poc ?pj)"
  have ld: "jsm_loaded jgo_rgeev (jgo_acts env) jsm"
    and lt: "m_tenumstate (m_sm jsm) < length (jgo_acts env)" and good: "?good (m_tenumstate (m_sm jsm)) st"
    using assms by (simp_all add: jgo_ok_def jgo_table)
  obtain b jsm' st' where run: "jgo_FExecute timed_out jsm st = Some (Inr (b, jsm', st'))"
    "jsm_loaded jgo_rgeev (jgo_acts env) jsm'" "b \<longrightarrow> rs_children st' = rs_children st"
    "b \<longrightarrow> ?good 3 st' \<or> timed_out st'"
    "\<not> b \<longrightarrow> m_tenumstate (m_sm jsm') < 3 \<and> ?good (m_tenumstate (m_sm jsm')) st'"
    using jgo.run [OF ld good lt, of timed_out] unfolding jgo_table(1) jgo_FExecute_def
    by (auto simp: eval_nat_numeral)
  have "\<not> b \<Longrightarrow> jgo_ok env jsm' st'"
  proof -
    assume nb: "\<not> b"
    then have g: "?good (m_tenumstate (m_sm jsm')) st'" using run(5) by simp
    then have "m_pgroup (rs_job st') = m_pgroup ?pj"
      "m_pgexprOrigin (rs_job st') = m_pgexprOrigin ?pj" "m_poc (rs_job st') = m_poc ?pj"
      by (simp_all add: jgo_good_def Let_def)
    then show "jgo_ok env jsm' st'" using run(2,5) nb jgo_good_frame [OF g] by (simp add: jgo_ok_def)
  qed
  moreover have "timed_out st' \<or> ((\<forall>x \<in> set (g_listGExprs ?m (m_pgroup ?pj)).
        jgo_done env ?m (m_pgexprOrigin ?pj) (m_poc ?pj) (rs_children st) x)
      \<and> poc_estate (rs_memo st') (m_poc ?pj) = poc_estOptimized)" if b
    using run(3,4) that by (simp add: jgo_good_def Let_def) blast
  ultimately show ?thesis using run(1,3) by (auto simp: jgo_done_def opt_requests_def image_subset_iff Let_def)
qed

text \<open>A group with a physical expression of two optimization requests, which is not implemented yet.\<close>

definition opt_env0 :: opt_env where
  "opt_env0 = \<lparr>ge_Eol = (\<lambda>_. EolHigh), FPhysicalSort = (\<lambda>_. False), FPhysicalMotionGather = (\<lambda>_. False),
     FOrderPreserving = (\<lambda>_. False), UlOptRequests = (\<lambda>_. 2), poc_FOptimize = (\<lambda>_ _ _. True)\<rparr>"

theorem GroupOptimization_run_witness:
  "\<exists>jsm' st'. jgo_FExecute (\<lambda>_. False) (snd (jgo_Init opt_env0 5 None 1 (jsm_new 4)))
     (run0 (fst (jgo_Init opt_env0 5 None 1 (jsm_new 4))) \<lparr>rs_memo := memo0\<lparr>ge_FLogical := (\<lambda>_. False)\<rparr>\<rparr>)
     = Some (Inr (False, jsm', st'))"
proof -
  let ?j = "jgo_Init opt_env0 5 None 1 (jsm_new 4)" and ?m = "memo0\<lparr>ge_FLogical := (\<lambda>_. False)\<rparr>"
  let ?st = "run0 (fst ?j) \<lparr>rs_memo := ?m\<rparr>"
  have st: "?st = \<lparr>rs_job = fst ?j, rs_memo = ?m, rs_children = [], rs_truncated = []\<rparr>" by (simp add: run0_def)
  have "jgo_ok opt_env0 (snd ?j) ?st"
    unfolding st by (rule jgo_Init_ok) (simp_all add: memo0_def levels_ok_def opt_env0_def)
  from GroupOptimization_run [OF this, of "\<lambda>_. False"]
  obtain b jsm' st' where r: "jgo_FExecute (\<lambda>_. False) (snd ?j) ?st = Some (Inr (b, jsm', st'))"
    "b \<longrightarrow> (\<forall>ul < 2. GroupExpressionOptimization 10 1 ul None \<in> set ([] :: child list))"
    by (simp add: Let_def run0_def jgo_Init_def memo0_def opt_env0_def FOptimizeChild_def) blast
  moreover have "0 < (2::nat)" by simp
  ultimately have "\<not> b" by (metis empty_iff list.set(1))
  then show ?thesis using r(1) by auto
qed

text \<open>The invariant of a group expression optimization job between its runs; \<open>gs\<close> are the groups of
  its children.\<close>

definition jxo_ok ::
    "jxo_env \<Rightarrow> nat list \<Rightarrow> (jxo_event, job_gexpr_opt job_run) job_state_machine \<Rightarrow> job_gexpr_opt job_run \<Rightarrow> bool" where
  "jxo_ok env gs jsm st \<longleftrightarrow> jsm_loaded jxo_rgeev (jxo_acts env) jsm \<and> m_tenumstate (m_sm jsm) < 5
     \<and> jxo_good env (m_pgexpr (rs_job st)) gs (m_tenumstate (m_sm jsm)) st"

lemma jxo_new_job_simps [simp]:
  "m_pgexpr (jxo_new_job env m x poc ul prpp) = x" "m_pdrgpoc (jxo_new_job env m x poc ul prpp) = None"
  "jxo_m_poc (jxo_new_job env m x poc ul prpp) = poc" "m_ulOptReq (jxo_new_job env m x poc ul prpp) = ul"
  "m_ulArity (jxo_new_job env m x poc ul prpp) = length (ge_pdrgpgroup m x)"
  "\<not> m_fChildrenScheduled (jxo_new_job env m x poc ul prpp)"
  "m_prppCTEProducer (jxo_new_job env m x poc ul prpp) = prpp"
  "m_pexprhdlPlan (jxo_new_job env m x poc ul prpp) = None"
  by (simp_all add: jxo_new_job_def acquire_def Let_def)

lemma new_job_held: "r \<noteq> RsCTEProducer \<Longrightarrow> \<not> held (jxo_new_job env m x poc ul prpp) r"
  by (cases r) (simp_all add: jxo_new_job_def acquire_def Let_def)

lemma jxo_loaded:
  "jsm_loaded jxo_rgeev (jxo_acts env) (snd (jxo_Init env m x poc ul prpp jsm))"
  "m_tenumstate (m_sm (snd (jxo_Init env m x poc ul prpp jsm))) = 0"
  "fst (jxo_Init env m x poc ul prpp jsm) = jxo_new_job env m x poc ul prpp"
  by (simp_all add: jsm_loaded_def jxo_Init_def jsm_Init_simps jxo_rgeev_def jxo_acts_def eval_nat_numeral)

lemma jxo_Init_ok:
  assumes "length (ge_pdrgpgroup m x) \<le> ULONG_MAX"
  shows "jxo_ok env (ge_pdrgpgroup m x) (snd (jxo_Init env m x poc ul prpp jsm))
    \<lparr>rs_job = fst (jxo_Init env m x poc ul prpp jsm), rs_memo = m, rs_children = cs, rs_truncated = ts\<rparr>"
  using assms by (simp add: jxo_ok_def jxo_good_def Let_def jxo_loaded new_job_refs new_job_held)

lemma jxo_good_final:
  "jxo_good env x gs 5 st \<Longrightarrow> (\<forall>r. m_refs (rs_job st) r = 0)
     \<or> (m_pexprhdlPlan (rs_job st) = None \<and> refs_ok (rs_job st) \<and> (\<forall>r. r \<noteq> RsCTEProducer \<longrightarrow> \<not> held (rs_job st) r))"
  by (simp add: jxo_good_def Let_def)

lemma Suc_five: "Suc 5 = 6"
  by simp

text \<open>C9 A run of a group expression optimization job returns.  Either it keeps its invariant, or it
  is completed and has scheduled no child in this run.  A job that got so far as to collect the
  contexts of its children has given every child group that is not scalar an optimization job.  A
  completed job has released everything it took, unless it was finalized before it looked at its
  children; then a reference to the properties required of a CTE producer is kept.\<close>

theorem GroupExpressionOptimization_run:
  assumes "jxo_ok env gs jsm st"
  shows "\<exists>b jsm' st'. jxo_FExecute timed_out jsm st = Some (Inr (b, jsm', st'))
    \<and> (\<not> b \<longrightarrow> jxo_ok env gs jsm' st')
    \<and> (b \<longrightarrow> rs_children st' = rs_children st)
    \<and> (m_pdrgpoc (rs_job st') \<noteq> None \<longrightarrow> (\<forall>g \<in> set gs. \<not> env_FScalar env g \<longrightarrow>
          (\<exists>poc. GroupOptimization g (Some (m_pgexpr (rs_job st))) poc \<in> set (rs_children st'))))
    \<and> (b \<longrightarrow> (\<forall>r. m_refs (rs_job st') r = 0)
          \<or> (m_pexprhdlPlan (rs_job st') = None \<and> (\<forall>r. m_refs (rs_job st') r =
                (if r = RsCTEProducer \<and> m_prppCTEProducer (rs_job st') \<noteq> None then 1 else 0))))"
proof -
  let ?x = "m_pgexpr (rs_job st)"
  have ld: "jsm_loaded jxo_rgeev (jxo_acts env) jsm"
    and lt: "m_tenumstate (m_sm jsm) < length (jxo_acts env)"
    and good: "jxo_good env ?x gs (m_tenumstate (m_sm jsm)) st"
    using assms by (simp_all add: jxo_ok_def jxo_table)
  obtain b jsm' st' where run: "jxo_FExecute timed_out jsm st = Some (Inr (b, jsm', st'))"
    "jsm_loaded jxo_rgeev (jxo_acts env) jsm'" "b \<longrightarrow> rs_children st' = rs_children st"
    "b \<longrightarrow> jxo_good env ?x gs 5 st' \<or> (\<exists>est st0. est < 5 \<and> jxo_good env ?x gs est st0 \<and> st' = on_job jxo_Cleanup st0)"
    "\<not> b \<longrightarrow> m_tenumstate (m_sm jsm') < 5 \<and> jxo_good env ?x gs (m_tenumstate (m_sm jsm')) st'"
    using jxo.run [OF ld good lt, of timed_out] unfolding jxo_table(1) jxo_FExecute_def Suc_five by blast
  have done_all: "\<forall>g \<in> set gs. \<not> env_FScalar env g \<longrightarrow> (\<exists>poc. GroupOptimization g (Some ?x) poc \<in> set (rs_children s))"
    if "jxo_good env ?x gs est s" "est \<le> 5" "m_pdrgpoc (rs_job s) \<noteq> None" for est s
  proof -
    have "children_upto env ?x gs (m_fRightToLeft (rs_job s)) (rs_children s) (length gs)"
      using that by (cases "est \<le> 2"; cases "est = 5") (auto simp: jxo_good_def Let_def)
    then show ?thesis
      unfolding children_upto_def by (metis child_at_all in_set_conv_nth)
  qed
  have clean: "(\<forall>r. m_refs (rs_job st') r = 0) \<and> (m_pdrgpoc (rs_job st') \<noteq> None \<longrightarrow>
      (\<forall>g \<in> set gs. \<not> env_FScalar env g \<longrightarrow> (\<exists>poc. GroupOptimization g (Some ?x) poc \<in> set (rs_children st'))))"
    if "est < 5" "jxo_good env ?x gs est st0" "st' = on_job jxo_Cleanup st0" for est st0
  proof -
    have "refs_ok (rs_job st0)" using that by (simp add: jxo_good_def Let_def)
    then show ?thesis using done_all [OF that(2)] that(1,3) Cleanup_refs by simp
  qed
  have "(\<exists>est \<le> 5. jxo_good env ?x gs est st') \<or>
      (\<exists>est st0. est < 5 \<and> jxo_good env ?x gs est st0 \<and> st' = on_job jxo_Cleanup st0)"
    using run(4,5) less_imp_le by blast
  then have "m_pdrgpoc (rs_job st') \<noteq> None \<longrightarrow> (\<forall>g \<in> set gs. \<not> env_FScalar env g \<longrightarrow>
      (\<exists>poc. GroupOptimization g (Some ?x) poc \<in> set (rs_children st')))"
    using done_all clean by metis
  moreover have "(\<forall>r. m_refs (rs_job st') r = 0) \<or> (m_pexprhdlPlan (rs_job st') = None
      \<and> (\<forall>r. m_refs (rs_job st') r = (if r = RsCTEProducer \<and> m_prppCTEProducer (rs_job st') \<noteq> None then 1 else 0)))" if bt: b
  proof -
    consider est st0 where "est < 5" "jxo_good env ?x gs est st0" "st' = on_job jxo_Cleanup st0"
      | "jxo_good env ?x gs 5 st'"
      using run(4) bt by blast
    then show ?thesis
    proof cases
      case 1
      then show ?thesis using clean by blast
    next
      case 2
      have "m_refs (rs_job st') r = (if r = RsCTEProducer \<and> m_prppCTEProducer (rs_job st') \<noteq> None then 1 else 0)"
        if "refs_ok (rs_job st')" "\<forall>r. r \<noteq> RsCTEProducer \<longrightarrow> \<not> held (rs_job st') r" for r
        using that by (cases "r = RsCTEProducer") (simp_all add: refs_ok_def)
      then show ?thesis using jxo_good_final [OF 2] by blast
    qed
  qed
  moreover have "\<not> b \<longrightarrow> jxo_ok env gs jsm' st'"
    using run(2,5) by (auto simp: jxo_ok_def jxo_good_def Let_def)
  ultimately show ?thesis using run(1,3) by blast
qed

text \<open>An engine whose answers depend on nothing.\<close>

definition jxo_env0 :: jxo_env where
  "jxo_env0 = \<lparr>env_FRightToLeft = (\<lambda>_. True), env_FSequenceWithCTEProducer = (\<lambda>_ _. True),
     env_FScalar = (\<lambda>_. False), env_FCheckReqdProps = (\<lambda>_ _ _ _. True), env_FSafeToPrune = (\<lambda>_ _ _ _ _. True),
     env_ComputePrunedCost = (\<lambda>_ _ _ m. m), env_PgexprBestPromise = (\<lambda>_ _. None), env_Pdrgpstat = (\<lambda>_. []),
     env_PccBest = (\<lambda>_ _ _. None), env_PocChild = (\<lambda>_ _ _ _. 0), env_FSameContext = (\<lambda>_ _ _ _ _. False),
     env_PdrgpocChildren = (\<lambda>_ _. []), env_FCheckEnfdProps = (\<lambda>_ _ _ _ m. (True, m)),
     env_PccComputeCost = (\<lambda>_ _ _ _ m. (None, m)), env_UpdateBestCost = (\<lambda>_ _ m. m),
     env_FDisablePushingCTE = False, env_PrppCTEProducer = (\<lambda>_ _. None)\<rparr>"

theorem GroupExpressionOptimization_run_witness:
  "\<exists>b jsm' st'. jxo_FExecute (\<lambda>_. False) (snd (jxo_Init jxo_env0 memo0 10 1 0 None (jsm_new 6)))
     (run0 (fst (jxo_Init jxo_env0 memo0 10 1 0 None (jsm_new 6)))) = Some (Inr (b, jsm', st'))
     \<and> (b \<longrightarrow> rs_children st' = [])"
proof -
  let ?j = "jxo_Init jxo_env0 memo0 10 1 0 None (jsm_new 6)"
  have "jxo_ok jxo_env0 (ge_pdrgpgroup memo0 10) (snd ?j) (run0 (fst ?j))"
    unfolding run0_def by (rule jxo_Init_ok) (simp add: memo0_def)
  from GroupExpressionOptimization_run [OF this, of "\<lambda>_. False"]
  obtain b jsm' st' where r: "jxo_FExecute (\<lambda>_. False) (snd ?j) (run0 (fst ?j)) = Some (Inr (b, jsm', st'))"
    "b \<longrightarrow> rs_children st' = rs_children (run0 (fst ?j))"
    by blast
  moreover have "rs_children (run0 (fst ?j)) = []" by (simp add: run0_def)
  ultimately show ?thesis by auto
qed

text \<open>C19 The reference to the properties required of a CTE producer is leaked when a job that was
  given one is finalized by its first action, because its requirements cannot be met or it is
  pruned: the first run completes the job and the reference is not released.\<close>

theorem EevtInitialize_leaks_producer:
  assumes "\<not> timed_out st" "rs_job st = fst (jxo_Init env m x poc ulOptReq (Some prpp) jsm)"
    "\<not> env_FCheckReqdProps env (rs_memo st) x poc ulOptReq \<or> env_FSafeToPrune env (rs_memo st) x poc None ULONG_MAX"
  shows "\<exists>jsm' st'. jxo_FExecute timed_out (snd (jxo_Init env m x poc ulOptReq (Some prpp) jsm)) st
      = Some (Inr (True, jsm', st'))
    \<and> m_refs (rs_job st') RsCTEProducer = 1"
proof -
  let ?j = "snd (jxo_Init env m x poc ulOptReq (Some prpp) jsm)"
  note ld = jxo_loaded [of env m x poc ulOptReq "Some prpp" jsm]
  have act: "m_rgPfuncAction ?j ! 0 = Some (jxo_EevtInitialize env)"
    by (simp add: jxo_Init_def jsm_Init_simps jxo_rgeev_def eval_nat_numeral)
  have job: "rs_job st = jxo_new_job env m x poc ulOptReq (Some prpp)" using assms(2) ld(3) by simp
  obtain f where init: "jxo_EevtInitialize env st = Some (jxo_eevFinalized, on_memo f st)"
  proof (cases "env_FCheckReqdProps env (rs_memo st) x poc ulOptReq")
    case False
    have "on_memo id st = st" by (simp add: on_memo_def)
    then show ?thesis using that [of id] False job by (simp add: jxo_EevtInitialize_def Let_def)
  next
    case True
    then show ?thesis using that assms(3) job by (simp add: jxo_EevtInitialize_def Let_def)
  qed
  have "FAttemptTransition 6 (m_sm ?j) 0 jxo_eevFinalized = Some 5"
    using jxo.attempt [OF ld(1), of jxo_eevFinalized] ld(2) jxo_rows(2) by (simp add: jxo_table(1))
  then have "m_tenumstate (snd (FTransition 6 jxo_eevFinalized (m_sm ?j))) = 5"
    by (simp add: FTransition_state ld(2))
  then have "jxo_FExecute timed_out ?j st = Some (Inr (True, ?j\<lparr>m_sm := snd (FTransition 6 jxo_eevFinalized (m_sm ?j))\<rparr>, on_memo f st))"
    using assms(1) by (simp add: jxo_FExecute_def FRun.simps [of timed_out _ 6 ?j] ld(2) act init Let_def TesFinal_def)
  moreover have "m_refs (rs_job (on_memo f st)) RsCTEProducer = 1"
    by (simp add: job jxo_new_job_def acquire_def Let_def)
  ultimately show ?thesis by blast
qed

theorem EevtInitialize_leaks_producer_witness:
  "\<exists>jsm' st'. jxo_FExecute (\<lambda>_. False) (snd (jxo_Init jxo_env0 memo0 10 1 0 (Some 7) (jsm_new 6)))
      (run0 (fst (jxo_Init jxo_env0 memo0 10 1 0 (Some 7) (jsm_new 6)))) = Some (Inr (True, jsm', st'))
    \<and> m_refs (rs_job st') RsCTEProducer = 1"
  by (rule EevtInitialize_leaks_producer) (simp_all add: run0_def jxo_env0_def)

text \<open>The children of an expression are optimized one after the other, each once: from the
  first child, \<open>FNextChildIndex\<close> goes through all of them in the order of the expression and stops
  after the last, and the previous child is the one before.\<close>

theorem child_order_correct:
  assumes "0 < n" "n \<le> ULONG_MAX"
  shows "\<exists>cs. distinct cs \<and> set cs = {..<n} \<and> hd cs = UlFirstOptimizedChildIndex rtl n
    \<and> last cs = UlLastOptimizedChildIndex rtl n
    \<and> (\<forall>k < n. FNextChildIndex rtl n (cs ! k) = (if Suc k < n then Some (cs ! Suc k) else None)
          \<and> UlPreviousOptimizedChildIndex rtl n (cs ! k) = (if k = 0 then ULONG_MAX else cs ! (k - 1)))"
proof -
  let ?cs = "map (child_at rtl n) [0..<n]"
  have nth: "?cs ! k = child_at rtl n k" if "k < n" for k using that by simp
  have "inj_on (child_at rtl n) {0..<n}" by (auto simp: inj_on_def child_at_def)
  then have "distinct ?cs" by (simp add: distinct_map)
  moreover have "set ?cs = {..<n}" proof
    show "set ?cs \<subseteq> {..<n}" using child_at_lt by auto
    show "{..<n} \<subseteq> set ?cs"
    proof
      fix i assume "i \<in> {..<n}"
      then obtain k where "k < n" "child_at rtl n k = i" using child_at_all [of i n rtl] by auto
      then show "i \<in> set ?cs" by auto
    qed
  qed
  moreover have "hd ?cs = child_at rtl n 0" using assms(1) by (simp add: hd_map)
  moreover have "last ?cs = child_at rtl n (n - 1)" using assms(1) by (simp add: last_map)
  moreover have "\<forall>k < n. FNextChildIndex rtl n (?cs ! k) = (if Suc k < n then Some (?cs ! Suc k) else None)
      \<and> UlPreviousOptimizedChildIndex rtl n (?cs ! k) = (if k = 0 then ULONG_MAX else ?cs ! (k - 1))"
    using child_order(3,4) [OF _ assms(2)] by (auto simp: nth)
  ultimately show ?thesis using child_order(1,2) [OF assms] by (intro exI [of _ ?cs] conjI) simp_all
qed

theorem child_order_correct_witness:
  "UlFirstOptimizedChildIndex True 3 = 2 \<and> FNextChildIndex True 3 2 = Some 1"
proof -
  obtain cs where i: "distinct cs" "set cs = {..<3}" "hd cs = UlFirstOptimizedChildIndex True 3"
    "\<forall>k < 3. FNextChildIndex True 3 (cs ! k) = (if Suc k < 3 then Some (cs ! Suc k) else None)"
    using child_order_correct [of 3 True] by (auto simp: ULONG_MAX_def)
  have "length cs = 3" using i(1,2) distinct_card [of cs] by simp
  then have "hd cs = cs ! 0" by (cases cs) auto
  moreover have "FNextChildIndex True 3 (cs ! 0) \<noteq> None" using i(4) [rule_format, of 0] by simp
  ultimately have "FNextChildIndex True 3 (hd cs) \<noteq> None" by simp
  then show ?thesis using i(3)
    by (simp add: UlFirstOptimizedChildIndex_def FNextChildIndex_def UlNextOptimizedChildIndex_def ULONG_MAX_def Let_def)
qed

section \<open>The tables of the jobs\<close>

text \<open>
  What a table means for its machine: an event of a row leads to the state whose column holds it,
  the last state accepts no event, every state can be reached, and the check of a debug build
  reports the initial state alone.
\<close>

definition table_sound :: "nat \<Rightarrow> 'e option list list \<Rightarrow> bool" where
  "table_sound n tbl \<longleftrightarrow> (let sm = sm_Init n tbl (sm_new n)
     in (\<forall>s < n. \<forall>t < n. \<forall>e. tbl ! s ! t = Some e \<longrightarrow> FAttemptTransition n sm s e = Some t)
      \<and> (\<forall>e. FAttemptTransition n sm (TesFinal n) e = None)
      \<and> (\<forall>t < n. sm_reach n sm t)
      \<and> Unreachable n sm = Some (TesInitial # replicate (n - 1) n, 1))"

text \<open>The same as a check of the entries.\<close>

definition table_check :: "nat \<Rightarrow> 'e option list list \<Rightarrow> bool" where
  "table_check n tbl \<longleftrightarrow> 0 < n \<and> n < ULONG_MOD \<and> length tbl = n \<and> list_all (\<lambda>row. length row = n) tbl
     \<and> list_all (\<lambda>row. distinct (filter (\<lambda>e. e \<noteq> None) row)) tbl
     \<and> list_all (\<lambda>t. tbl ! (n - 1) ! t = None) [0..<n]
     \<and> list_all (\<lambda>s. tbl ! s ! 0 = None) [1..<n]
     \<and> list_all (\<lambda>t. list_ex (\<lambda>s. tbl ! s ! t \<noteq> None) [0..<t]) [1..<n]"

lemma distinct_filter_nth:
  "distinct (filter P xs) \<Longrightarrow> i < length xs \<Longrightarrow> j < length xs \<Longrightarrow> P (xs ! i) \<Longrightarrow> xs ! i = xs ! j \<Longrightarrow> i = j"
proof (induction xs arbitrary: i j)
  case (Cons x xs)
  have *: "xs ! k \<noteq> x" if "P x" "k < length xs" for k
    using Cons.prems(1) that nth_mem [of k xs] by auto
  show ?case using Cons * by (cases i; cases j) (auto split: if_splits)
qed simp

lemma table_check_sound:
  assumes "table_check n tbl"
  shows "table_sound n tbl"
proof -
  let ?sm = "sm_Init n tbl (sm_new n)"
  have n: "0 < n" "n < ULONG_MOD" and sq: "length tbl = n" "list_all (\<lambda>row. length row = n) tbl"
    using assms by (simp_all add: table_check_def)
  have tbl: "m_rgrgtenumeventTransitions ?sm ! s ! t = tbl ! s ! t" if "s < n" "t < n" for s t
    using that by (simp add: sm_Init_def)
  have he: "has_edge n ?sm s t \<longleftrightarrow> s < n \<and> t < n \<and> tbl ! s ! t \<noteq> None" for s t
    using tbl by (auto simp: has_edge_def)
  have no_event: "FAttemptTransition n ?sm (TesFinal n) e = None" for e
    using assms n tbl [of "n - 1"]
    by (auto simp: FAttemptTransition_def TesFinal_def find_None_iff table_check_def list_all_iff)
  have det: "FAttemptTransition n ?sm s e = Some t" if "s < n" "t < n" "tbl ! s ! t = Some e" for s t e
  proof -
    have len: "length (tbl ! s) = n" "distinct (filter (\<lambda>e. e \<noteq> None) (tbl ! s))"
      using assms that(1) by (auto simp: table_check_def list_all_length)
    have "k = t" if "k < n" "tbl ! s ! k = Some e" for k
      using distinct_filter_nth [OF len(2), of k t] that len(1) \<open>t < n\<close> \<open>tbl ! s ! t = Some e\<close> by simp
    note unique = this
    show ?thesis
    proof (cases "FAttemptTransition n ?sm s e")
      case None
      then show ?thesis using that tbl by (auto simp: FAttemptTransition_def find_None_iff)
    next
      case (Some k)
      then have "k < n" "tbl ! s ! k = Some e"
        using that(1) tbl by (auto simp: FAttemptTransition_def find_Some_iff)
      then show ?thesis using Some unique by simp
    qed
  qed
  have into: "\<exists>s < t. has_edge n ?sm s t" if "0 < t" "t < n" for t
  proof -
    have "list_ex (\<lambda>s. tbl ! s ! t \<noteq> None) [0..<t]"
      using assms that by (simp add: table_check_def list_all_iff)
    then obtain s where "s < t" "tbl ! s ! t \<noteq> None" by (auto simp: list_ex_iff)
    then show ?thesis using that(2) he by (intro exI [of _ s]) simp
  qed
  have reach: "sm_reach n ?sm t" if "t < n" for t
    using that
  proof (induction t rule: less_induct)
    case (less t)
    show ?case
    proof (cases "t = 0")
      case True
      then show ?thesis using sm_reach.initial [of n ?sm] by (simp add: TesInitial_def)
    next
      case False
      then obtain s where "s < t" "has_edge n ?sm s t" using into less.prems by auto
      then show ?thesis using less sm_reach.edge by fastforce
    qed
  qed
  have "sources_only n ?sm = [0]"
  proof (rule sorted_distinct_set_unique)
    have zero: "tbl ! s ! 0 = None" if "0 < s" "s < n" for s
      using assms that by (simp add: table_check_def list_all_iff)
    show "set (sources_only n ?sm) = set [0]"
    proof (intro set_eqI iffI)
      fix t assume "t \<in> set (sources_only n ?sm)"
      then have t: "t < n" "\<And>s. s < n \<Longrightarrow> has_edge n ?sm s t \<Longrightarrow> s = t" by (auto simp: sources_only_def)
      have "\<not> 0 < t"
      proof
        assume "0 < t"
        then obtain s where "s < t" "has_edge n ?sm s t" using into t(1) by blast
        then show False using t(1) t(2) [of s] by simp
      qed
      then show "t \<in> set [0]" by simp
    next
      fix t assume "t \<in> set [0 :: nat]"
      moreover have "s = 0" if "has_edge n ?sm s 0" for s
      proof (rule ccontr)
        assume "s \<noteq> 0"
        moreover have "s < n" using that by (simp add: has_edge_def)
        ultimately have "\<not> has_edge n ?sm s 0" using zero [of s] he [of s 0] by simp
        then show False using that by simp
      qed
      ultimately show "t \<in> set (sources_only n ?sm)" using n(1) by (simp add: sources_only_def)
    qed
  qed (simp_all add: sources_only_def sorted_wrt_filter)
  then have "Unreachable n ?sm = Some (TesInitial # replicate (n - 1) n, 1)"
    using Unreachable_eq [OF n, of ?sm] by (simp add: TesInitial_def)
  then show ?thesis using det no_event reach by (simp add: table_sound_def Let_def)
qed

text \<open>C18 The transition tables of the seven kinds of jobs are well formed.\<close>

theorem job_tables_sound:
  "table_sound 3 jge_rgeev \<and> table_sound 3 jgi_rgeev \<and> table_sound 4 jxe_rgeev \<and> table_sound 4 jxi_rgeev
   \<and> table_sound 2 jt_rgeev \<and> table_sound 4 jgo_rgeev \<and> table_sound 6 jxo_rgeev"
  by (intro conjI table_check_sound)
    (simp_all add: table_check_def upt_rec
      jge_rgeev_def jgi_rgeev_def jxe_rgeev_def jxi_rgeev_def jt_rgeev_def jgo_rgeev_def jxo_rgeev_def)

end
