(* ===== verification/SyncList.thy ===== *)
theory SyncList
  imports Prelude
begin

text \<open>
  The lock-free list of \<^verbatim>\<open>libgpos/include/gpos/common/CSyncList.h\<close>: a stack whose head is changed by
  compare and swap only.  The scheduler keeps its waiting jobs in it.  \<open>Push\<close> and \<open>Pop\<close> are
  modelled by the single reads and writes of shared memory they consist of, and a run interleaves
  those of any number of threads.  Sleeping after many attempts changes nothing and is left out.
\<close>

section \<open>The list and its operations\<close>

record 'a sync_list =
  m_ptHead :: "'a option"
  sl_pvNext :: "'a \<Rightarrow> 'a option"

text \<open>
  Where a thread is in an operation, with its local variables: before reading the head, before
  writing or reading the link of an element, before the compare and swap and, in \<open>Pop\<close>, before the
  link is reset.
\<close>

datatype 'a sl_pc = SlIdle
  | PushRead 'a | PushLink 'a "'a option" | PushSwap 'a "'a option"
  | PopRead | PopLink 'a | PopSwap 'a "'a option" | PopReset 'a

text \<open>The moment an operation takes effect is recorded with its argument or result.\<close>

datatype 'a sl_op = OpPush 'a | OpPop "'a option"

fun push_step :: "'a sl_pc \<Rightarrow> 'a sync_list \<Rightarrow> 'a sync_list \<times> 'a sl_pc \<times> 'a sl_op list" where
  "push_step (PushRead pt) l = (l, PushLink pt (m_ptHead l), [])"
| "push_step (PushLink pt ptHead) l = (l\<lparr>sl_pvNext := (sl_pvNext l)(pt := ptHead)\<rparr>, PushSwap pt ptHead, [])"
| "push_step (PushSwap pt ptHead) l =
     (if m_ptHead l = ptHead then (l\<lparr>m_ptHead := Some pt\<rparr>, SlIdle, [OpPush pt]) else (l, PushRead pt, []))"
| "push_step pc l = (l, pc, [])"

fun pop_step :: "'a sl_pc \<Rightarrow> 'a sync_list \<Rightarrow> 'a sync_list \<times> 'a sl_pc \<times> 'a sl_op list" where
  "pop_step PopRead l =
     (case m_ptHead l of None \<Rightarrow> (l, SlIdle, [OpPop None]) | Some pt \<Rightarrow> (l, PopLink pt, []))"
| "pop_step (PopLink pt) l = (l, PopSwap pt (sl_pvNext l pt), [])"
| "pop_step (PopSwap pt ptHeadNew) l =
     (if m_ptHead l = Some pt then (l\<lparr>m_ptHead := ptHeadNew\<rparr>, PopReset pt, [OpPop (Some pt)])
      else (l, PopRead, []))"
| "pop_step (PopReset pt) l = (l\<lparr>sl_pvNext := (sl_pvNext l)(pt := None)\<rparr>, SlIdle, [])"
| "pop_step pc l = (l, pc, [])"

text \<open>A configuration: the list, the threads, the operations that took effect, the last one first,
  and the elements that were ever given to \<open>Push\<close>.\<close>

record 'a sl_conf =
  cf_list :: "'a sync_list"
  cf_pc :: "nat \<Rightarrow> 'a sl_pc"
  cf_log :: "'a sl_op list"
  cf_pushed :: "'a set"

definition sl_start :: "'a sl_conf" where
  "sl_start = \<lparr>cf_list = \<lparr>m_ptHead = None, sl_pvNext = (\<lambda>_. None)\<rparr>, cf_pc = (\<lambda>_. SlIdle), cf_log = [], cf_pushed = {}\<rparr>"

definition start_push :: "nat \<Rightarrow> 'a \<Rightarrow> 'a sl_conf \<Rightarrow> 'a sl_conf" where
  "start_push t x c = c\<lparr>cf_pc := (cf_pc c)(t := PushRead x), cf_pushed := insert x (cf_pushed c)\<rparr>"

definition start_pop :: "nat \<Rightarrow> 'a sl_conf \<Rightarrow> 'a sl_conf" where
  "start_pop t c = c\<lparr>cf_pc := (cf_pc c)(t := PopRead)\<rparr>"

definition advance :: "('a sl_pc \<Rightarrow> 'a sync_list \<Rightarrow> 'a sync_list \<times> 'a sl_pc \<times> 'a sl_op list) \<Rightarrow> nat \<Rightarrow> 'a sl_conf \<Rightarrow> 'a sl_conf" where
  "advance step t c = (case step (cf_pc c t) (cf_list c) of
     (l, pc, ops) \<Rightarrow> c\<lparr>cf_list := l, cf_pc := (cf_pc c)(t := pc), cf_log := ops @ cf_log c\<rparr>)"

text \<open>The configurations that threads can reach when they push an element only if \<open>may\<close> allows it.\<close>

inductive sl_reach :: "('a sl_conf \<Rightarrow> 'a \<Rightarrow> bool) \<Rightarrow> 'a sl_conf \<Rightarrow> bool" for may where
  start: "sl_reach may sl_start"
| push: "sl_reach may c \<Longrightarrow> cf_pc c t = SlIdle \<Longrightarrow> may c x \<Longrightarrow> sl_reach may (start_push t x c)"
| pop: "sl_reach may c \<Longrightarrow> cf_pc c t = SlIdle \<Longrightarrow> sl_reach may (start_pop t c)"
| push_step: "sl_reach may c \<Longrightarrow> sl_reach may (advance push_step t c)"
| pop_step: "sl_reach may c \<Longrightarrow> sl_reach may (advance pop_step t c)"

section \<open>The stack\<close>

text \<open>The specification: the operations in the order they took effect are those of a stack.\<close>

fun stack_op :: "'a sl_op \<Rightarrow> 'a list \<Rightarrow> 'a list option" where
  "stack_op (OpPush x) xs = Some (x # xs)"
| "stack_op (OpPop r) xs =
     (case (r, xs) of (None, []) \<Rightarrow> Some [] | (Some x, y # ys) \<Rightarrow> if x = y then Some ys else None | _ \<Rightarrow> None)"

fun stack_run :: "'a sl_op list \<Rightarrow> 'a list option" where
  "stack_run [] = Some []"
| "stack_run (p # ps) = (case stack_run ps of None \<Rightarrow> None | Some xs \<Rightarrow> stack_op p xs)"

fun sl_chain :: "('a \<Rightarrow> 'a option) \<Rightarrow> 'a option \<Rightarrow> 'a list \<Rightarrow> bool" where
  "sl_chain nxt h [] = (h = None)"
| "sl_chain nxt h (x # xs) = (h = Some x \<and> sl_chain nxt (nxt x) xs)"

lemma sl_chain_upd [simp]: "x \<notin> set xs \<Longrightarrow> sl_chain (nxt(x := y)) h xs = sl_chain nxt h xs"
  by (induction xs arbitrary: h) auto

lemma sl_chain_None [simp]: "sl_chain nxt None xs = (xs = [])"
  by (cases xs) auto

section \<open>Disciplines of the clients\<close>

fun mentions :: "'a sl_pc \<Rightarrow> 'a set" where
  "mentions (PushRead x) = {x}"
| "mentions (PushLink x h) = {x}"
| "mentions (PushSwap x h) = {x}"
| "mentions (PopLink x) = {x}"
| "mentions (PopSwap x n) = {x}"
| "mentions (PopReset x) = {x}"
| "mentions pc = {}"

fun pushing :: "'a sl_pc \<Rightarrow> 'a set" where
  "pushing (PushRead x) = {x}"
| "pushing (PushLink x h) = {x}"
| "pushing (PushSwap x h) = {x}"
| "pushing pc = {}"

text \<open>
  The file asks that an element is inserted once.  It is enough that the element is not in the list
  and that no thread is in the middle of an operation on it.
\<close>

definition once :: "'a sl_conf \<Rightarrow> 'a \<Rightarrow> bool" where
  "once c x \<longleftrightarrow> x \<notin> cf_pushed c"

definition unheld :: "'a sl_conf \<Rightarrow> 'a \<Rightarrow> bool" where
  "unheld c x \<longleftrightarrow> (\<forall>xs. stack_run (cf_log c) = Some xs \<longrightarrow> x \<notin> set xs) \<and> (\<forall>t. x \<notin> mentions (cf_pc c t))"

text \<open>What an allocator that hands out recycled elements guarantees: as many pops as pushes of the
  element took effect and no thread pushes it or resets its link.\<close>

definition recycled :: "'a sl_conf \<Rightarrow> 'a \<Rightarrow> bool" where
  "recycled c x \<longleftrightarrow> count_list (cf_log c) (OpPush x) = count_list (cf_log c) (OpPop (Some x))
     \<and> (\<forall>t. x \<notin> pushing (cf_pc c t) \<and> cf_pc c t \<noteq> PopReset x)"

section \<open>The invariant\<close>

definition pc_ok :: "'a sync_list \<Rightarrow> 'a list \<Rightarrow> 'a sl_pc \<Rightarrow> bool" where
  "pc_ok l xs pc \<longleftrightarrow> (case pc of PushRead x \<Rightarrow> x \<notin> set xs | PushLink x h \<Rightarrow> x \<notin> set xs
     | PushSwap x h \<Rightarrow> x \<notin> set xs \<and> sl_pvNext l x = h
     | PopSwap x n \<Rightarrow> x \<in> set xs \<longrightarrow> sl_pvNext l x = n | PopReset x \<Rightarrow> x \<notin> set xs | _ \<Rightarrow> True)"

definition sl_ok :: "'a sl_conf \<Rightarrow> 'a list \<Rightarrow> bool" where
  "sl_ok c xs \<longleftrightarrow> sl_chain (sl_pvNext (cf_list c)) (m_ptHead (cf_list c)) xs \<and> distinct xs
     \<and> stack_run (cf_log c) = Some xs
     \<and> (\<forall>t. pc_ok (cf_list c) xs (cf_pc c t))
     \<and> (\<forall>t t'. t \<noteq> t' \<longrightarrow> pushing (cf_pc c t) \<inter> mentions (cf_pc c t') = {})"

lemma pushing_mentions: "pushing pc \<subseteq> mentions pc"
  by (cases pc) auto

lemma sl_okD:
  assumes "sl_ok c xs"
  shows "sl_chain (sl_pvNext (cf_list c)) (m_ptHead (cf_list c)) xs" "distinct xs" "stack_run (cf_log c) = Some xs"
    "pc_ok (cf_list c) xs (cf_pc c t)"
    "t \<noteq> t' \<Longrightarrow> pushing (cf_pc c t) \<inter> mentions (cf_pc c t') = {}"
  using assms by (simp_all add: sl_ok_def)

text \<open>A step of one thread: what is left to show about the others.\<close>

lemma sl_ok_step:
  assumes ok: "sl_ok c xs"
    and "sl_chain (sl_pvNext l) (m_ptHead l) ys" "distinct ys" "stack_run ops = Some ys" "pc_ok l ys pc"
    and others: "\<And>t'. t' \<noteq> t \<Longrightarrow> pc_ok (cf_list c) xs (cf_pc c t') \<Longrightarrow>
        pushing (cf_pc c t) \<inter> mentions (cf_pc c t') = {} \<Longrightarrow> pushing (cf_pc c t') \<inter> mentions (cf_pc c t) = {} \<Longrightarrow>
        pc_ok l ys (cf_pc c t') \<and> pushing pc \<inter> mentions (cf_pc c t') = {} \<and> pushing (cf_pc c t') \<inter> mentions pc = {}"
    and c': "cf_list c' = l" "cf_pc c' = (cf_pc c)(t := pc)" "cf_log c' = ops"
  shows "sl_ok c' ys"
proof -
  have o: "pc_ok l ys (cf_pc c t') \<and> pushing pc \<inter> mentions (cf_pc c t') = {} \<and> pushing (cf_pc c t') \<inter> mentions pc = {}"
    if "t' \<noteq> t" for t'
    by (rule others [OF that]) (use sl_okD(4,5) [OF ok] that in auto)
  then show ?thesis using assms sl_okD(5) [OF ok] by (simp add: sl_ok_def)
qed

lemma sl_ok_start_push:
  assumes ok: "sl_ok c xs" and "cf_pc c t = SlIdle" "unheld c x"
  shows "sl_ok (start_push t x c) xs"
proof (rule sl_ok_step [OF ok, where t = t and l = "cf_list c" and pc = "PushRead x" and ops = "cf_log c"])
  have u: "x \<notin> set xs" "\<And>t'. x \<notin> mentions (cf_pc c t')" using assms sl_okD(3) [OF ok] by (auto simp: unheld_def)
  then have "x \<notin> pushing (cf_pc c t')" for t' using pushing_mentions [of "cf_pc c t'"] by blast
  then show "pc_ok (cf_list c) xs (cf_pc c t') \<and> pushing (PushRead x) \<inter> mentions (cf_pc c t') = {}
      \<and> pushing (cf_pc c t') \<inter> mentions (PushRead x) = {}" if "pc_ok (cf_list c) xs (cf_pc c t')" for t'
    using u that by simp
  show "pc_ok (cf_list c) xs (PushRead x)" using u by (simp add: pc_ok_def)
qed (use sl_okD [OF ok] in \<open>simp_all add: start_push_def\<close>)

lemma sl_ok_start_pop:
  assumes ok: "sl_ok c xs" and "cf_pc c t = SlIdle"
  shows "sl_ok (start_pop t c) xs"
  by (rule sl_ok_step [OF ok, where t = t and l = "cf_list c" and pc = PopRead and ops = "cf_log c"])
    (use sl_okD [OF ok] in \<open>simp_all add: start_pop_def pc_ok_def\<close>)

lemma advance_eq:
  "step (cf_pc c t) (cf_list c) = (l, pc, ops) \<Longrightarrow>
     cf_list (advance step t c) = l \<and> cf_pc (advance step t c) = (cf_pc c)(t := pc) \<and> cf_log (advance step t c) = ops @ cf_log c"
  by (simp add: advance_def)

text \<open>A step that changes neither the list nor the log.\<close>

lemma sl_ok_local:
  assumes ok: "sl_ok c xs" and "step (cf_pc c t) (cf_list c) = (cf_list c, pc, [])"
    and "pc_ok (cf_list c) xs pc" "pushing pc \<subseteq> pushing (cf_pc c t)"
    "mentions pc \<subseteq> mentions (cf_pc c t) \<or> mentions pc \<subseteq> set xs"
  shows "sl_ok (advance step t c) xs"
proof (rule sl_ok_step [OF ok, where t = t and l = "cf_list c" and pc = pc and ops = "cf_log c"])
  fix t'
  assume o: "pc_ok (cf_list c) xs (cf_pc c t')" "pushing (cf_pc c t) \<inter> mentions (cf_pc c t') = {}"
    "pushing (cf_pc c t') \<inter> mentions (cf_pc c t) = {}"
  have "pushing (cf_pc c t') \<inter> set xs = {}" using o(1) by (cases "cf_pc c t'") (auto simp: pc_ok_def)
  then show "pc_ok (cf_list c) xs (cf_pc c t') \<and> pushing pc \<inter> mentions (cf_pc c t') = {}
      \<and> pushing (cf_pc c t') \<inter> mentions pc = {}"
    using o assms(4,5) by blast
qed (use assms sl_okD [OF ok] advance_eq [where step = step and c = c and t = t, OF assms(2)] in simp_all)

lemma sl_ok_push_step:
  assumes ok: "sl_ok c xs"
  shows "\<exists>ys. sl_ok (advance push_step t c) ys"
proof -
  let ?l = "cf_list c"
  note pc = sl_okD(4) [OF ok, of t]
  consider x where "cf_pc c t = PushRead x" | x h where "cf_pc c t = PushLink x h"
    | x h where "cf_pc c t = PushSwap x h" "m_ptHead ?l = h" | x h where "cf_pc c t = PushSwap x h" "m_ptHead ?l \<noteq> h"
    | "push_step (cf_pc c t) ?l = (?l, cf_pc c t, [])"
    by (cases "cf_pc c t") auto
  then show ?thesis
  proof cases
    case 1
    then show ?thesis using pc by (intro exI [of _ xs] sl_ok_local [OF ok]) (auto simp: pc_ok_def)
  next
    case (2 x h)
    let ?l' = "?l\<lparr>sl_pvNext := (sl_pvNext ?l)(x := h)\<rparr>"
    have x: "x \<notin> set xs" using pc 2 by (simp add: pc_ok_def)
    have "sl_ok (advance push_step t c) xs"
    proof (rule sl_ok_step [OF ok, where t = t and l = ?l' and pc = "PushSwap x h" and ops = "cf_log c"])
      fix t'
      assume "pc_ok ?l xs (cf_pc c t')" "pushing (cf_pc c t) \<inter> mentions (cf_pc c t') = {}"
        "pushing (cf_pc c t') \<inter> mentions (cf_pc c t) = {}"
      then show "pc_ok ?l' xs (cf_pc c t') \<and> pushing (PushSwap x h) \<inter> mentions (cf_pc c t') = {}
          \<and> pushing (cf_pc c t') \<inter> mentions (PushSwap x h) = {}"
        using x 2 by (cases "cf_pc c t'") (auto simp: pc_ok_def)
    qed (use 2 x sl_okD [OF ok] in \<open>simp_all add: advance_def pc_ok_def\<close>)
    then show ?thesis ..
  next
    case (3 x h)
    let ?l' = "?l\<lparr>m_ptHead := Some x\<rparr>"
    have x: "x \<notin> set xs" "sl_pvNext ?l x = h" using pc 3 by (simp_all add: pc_ok_def)
    have "sl_ok (advance push_step t c) (x # xs)"
    proof (rule sl_ok_step [OF ok, where t = t and l = ?l' and pc = SlIdle and ops = "OpPush x # cf_log c"])
      fix t'
      assume "pc_ok ?l xs (cf_pc c t')" "pushing (cf_pc c t) \<inter> mentions (cf_pc c t') = {}"
        "pushing (cf_pc c t') \<inter> mentions (cf_pc c t) = {}"
      then show "pc_ok ?l' (x # xs) (cf_pc c t') \<and> pushing SlIdle \<inter> mentions (cf_pc c t') = {}
          \<and> pushing (cf_pc c t') \<inter> mentions SlIdle = {}"
        using 3 by (cases "cf_pc c t'") (auto simp: pc_ok_def)
    qed (use 3 x sl_okD [OF ok] in \<open>simp_all add: advance_def pc_ok_def\<close>)
    then show ?thesis ..
  next
    case 4
    then show ?thesis using pc by (intro exI [of _ xs] sl_ok_local [OF ok]) (auto simp: pc_ok_def)
  next
    case 5
    then show ?thesis using pc by (intro exI [of _ xs] sl_ok_local [OF ok]) auto
  qed
qed

lemma sl_ok_pop_step:
  assumes ok: "sl_ok c xs"
  shows "\<exists>ys. sl_ok (advance pop_step t c) ys"
proof -
  let ?l = "cf_list c"
  note pc = sl_okD(4) [OF ok, of t] and ch = sl_okD(1) [OF ok]
  consider "cf_pc c t = PopRead" "m_ptHead ?l = None" | x where "cf_pc c t = PopRead" "m_ptHead ?l = Some x"
    | x where "cf_pc c t = PopLink x"
    | x n where "cf_pc c t = PopSwap x n" "m_ptHead ?l = Some x" | x n where "cf_pc c t = PopSwap x n" "m_ptHead ?l \<noteq> Some x"
    | x where "cf_pc c t = PopReset x" | "pop_step (cf_pc c t) ?l = (?l, cf_pc c t, [])"
    by (cases "cf_pc c t"; cases "m_ptHead ?l") auto
  then show ?thesis
  proof cases
    case 1
    then have "xs = []" using ch by simp
    then have "sl_ok (advance pop_step t c) []"
      using 1 ok sl_okD(3) [OF ok]
      by (intro sl_ok_step [OF ok, where t = t and l = ?l and pc = SlIdle and ops = "OpPop None # cf_log c"])
        (simp_all add: advance_def pc_ok_def)
    then show ?thesis ..
  next
    case (2 x)
    then have "x \<in> set xs" using ch by (cases xs) auto
    then show ?thesis using 2 by (intro exI [of _ xs] sl_ok_local [OF ok]) (auto simp: pc_ok_def)
  next
    case 3
    then show ?thesis using pc by (intro exI [of _ xs] sl_ok_local [OF ok]) (auto simp: pc_ok_def)
  next
    case (4 x n)
    let ?l' = "?l\<lparr>m_ptHead := n\<rparr>"
    obtain ys where xs: "xs = x # ys" "sl_chain (sl_pvNext ?l) (sl_pvNext ?l x) ys" using 4 ch by (cases xs) auto
    then have n: "sl_pvNext ?l x = n" using pc 4 by (simp add: pc_ok_def)
    have "sl_ok (advance pop_step t c) ys"
    proof (rule sl_ok_step [OF ok, where t = t and l = ?l' and pc = "PopReset x" and ops = "OpPop (Some x) # cf_log c"])
      fix t'
      assume "pc_ok ?l xs (cf_pc c t')" "pushing (cf_pc c t) \<inter> mentions (cf_pc c t') = {}"
        "pushing (cf_pc c t') \<inter> mentions (cf_pc c t) = {}"
      then show "pc_ok ?l' ys (cf_pc c t') \<and> pushing (PopReset x) \<inter> mentions (cf_pc c t') = {}
          \<and> pushing (cf_pc c t') \<inter> mentions (PopReset x) = {}"
        using 4 xs(1) by (cases "cf_pc c t'") (auto simp: pc_ok_def)
    qed (use 4 xs n sl_okD [OF ok] in \<open>simp_all add: advance_def pc_ok_def\<close>)
    then show ?thesis ..
  next
    case 5
    then show ?thesis using pc by (intro exI [of _ xs] sl_ok_local [OF ok]) (auto simp: pc_ok_def)
  next
    case (6 x)
    let ?l' = "?l\<lparr>sl_pvNext := (sl_pvNext ?l)(x := None)\<rparr>"
    have x: "x \<notin> set xs" using pc 6 by (simp add: pc_ok_def)
    have "sl_ok (advance pop_step t c) xs"
    proof (rule sl_ok_step [OF ok, where t = t and l = ?l' and pc = SlIdle and ops = "cf_log c"])
      fix t'
      assume "pc_ok ?l xs (cf_pc c t')" "pushing (cf_pc c t) \<inter> mentions (cf_pc c t') = {}"
        "pushing (cf_pc c t') \<inter> mentions (cf_pc c t) = {}"
      then show "pc_ok ?l' xs (cf_pc c t') \<and> pushing SlIdle \<inter> mentions (cf_pc c t') = {}
          \<and> pushing (cf_pc c t') \<inter> mentions SlIdle = {}"
        using x 6 by (cases "cf_pc c t'") (auto simp: pc_ok_def)
    qed (use 6 x sl_okD [OF ok] in \<open>simp_all add: advance_def pc_ok_def\<close>)
    then show ?thesis ..
  next
    case 7
    then show ?thesis using pc by (intro exI [of _ xs] sl_ok_local [OF ok]) auto
  qed
qed

lemma sl_reach_ok: "sl_reach unheld c \<Longrightarrow> \<exists>xs. sl_ok c xs"
proof (induction rule: sl_reach.induct)
  case start
  have "sl_ok sl_start []" by (simp add: sl_ok_def sl_start_def pc_ok_def)
  then show ?case ..
next
  case (push c t x)
  then obtain xs where "sl_ok c xs" by blast
  from sl_ok_start_push [OF this push(2,3)] show ?case ..
next
  case (pop c t)
  then obtain xs where "sl_ok c xs" by blast
  from sl_ok_start_pop [OF this pop(2)] show ?case ..
next
  case (push_step c t)
  then obtain xs where "sl_ok c xs" by blast
  then show ?case by (rule sl_ok_push_step)
next
  case (pop_step c t)
  then obtain xs where "sl_ok c xs" by blast
  then show ?case by (rule sl_ok_pop_step)
qed

section \<open>The documented discipline\<close>

text \<open>Whoever pushes every element once leaves no element held when it is pushed.\<close>

definition known :: "'a sl_conf \<Rightarrow> bool" where
  "known c \<longleftrightarrow> (\<forall>t. mentions (cf_pc c t) \<subseteq> cf_pushed c) \<and> (\<forall>xs. stack_run (cf_log c) = Some xs \<longrightarrow> set xs \<subseteq> cf_pushed c)"

lemma known_advance:
  assumes "known c" "sl_ok c xs" "step (cf_pc c t) (cf_list c) = (l, pc, ops)" "mentions pc \<subseteq> mentions (cf_pc c t) \<union> set xs"
    "\<And>p. p \<in> set ops \<Longrightarrow> (case p of OpPush x \<Rightarrow> x \<in> mentions (cf_pc c t) | OpPop r \<Rightarrow> True)" "length ops \<le> 1"
  shows "known (advance step t c)"
proof -
  have k: "\<And>t'. mentions (cf_pc c t') \<subseteq> cf_pushed c" "set xs \<subseteq> cf_pushed c"
    using assms(1) sl_okD(3) [OF assms(2)] by (auto simp: known_def)
  have "cf_pushed (advance step t c) = cf_pushed c" by (simp add: advance_def assms(3))
  moreover have "set ys \<subseteq> cf_pushed c" if "stack_run (ops @ cf_log c) = Some ys" for ys
  proof (cases ops)
    case Nil
    then show ?thesis using that assms(1) by (simp add: known_def)
  next
    case (Cons p ps)
    then have "stack_op p xs = Some ys" "case p of OpPush x \<Rightarrow> x \<in> mentions (cf_pc c t) | OpPop r \<Rightarrow> True"
      using that assms(5,6) sl_okD(3) [OF assms(2)] by auto
    then show ?thesis using k(2) subsetD [OF k(1) [of t]] by (cases p) (auto split: option.splits list.splits if_splits)
  qed
  moreover have "mentions pc \<subseteq> cf_pushed c" using k(1) [of t] k(2) assms(4) by blast
  ultimately show ?thesis
    using k(1) advance_eq [where step = step and c = c and t = t, OF assms(3)] by (auto simp: known_def)
qed

lemma once_unheld: "sl_reach once c \<Longrightarrow> sl_reach unheld c \<and> known c"
proof (induction rule: sl_reach.induct)
  case start
  have "known sl_start" by (simp add: known_def sl_start_def)
  then show ?case by (simp add: sl_reach.start)
next
  case (push c t x)
  have x: "x \<notin> cf_pushed c" using push.hyps by (simp add: once_def)
  have k: "mentions (cf_pc c t) \<subseteq> cf_pushed c" "stack_run (cf_log c) = Some xs \<Longrightarrow> set xs \<subseteq> cf_pushed c" for t xs
    using push.IH by (auto simp: known_def)
  have "unheld c x" unfolding unheld_def using x k by blast
  then have "sl_reach unheld (start_push t x c)"
    by (rule sl_reach.push [OF conjunct1 [OF push.IH] push.hyps(2)])
  moreover have "known (start_push t x c)" using k by (auto simp: known_def start_push_def)
  ultimately show ?case ..
next
  case (pop c t)
  then have "known (start_pop t c)" by (auto simp: known_def start_pop_def)
  moreover have "sl_reach unheld (start_pop t c)" by (rule sl_reach.pop [OF conjunct1 [OF pop.IH] pop.hyps(2)])
  ultimately show ?case by simp
next
  case (push_step c t)
  then obtain xs where ok: "sl_ok c xs" using sl_reach_ok by blast
  obtain l pc ops where s: "push_step (cf_pc c t) (cf_list c) = (l, pc, ops)" by (metis prod.exhaust)
  have "known (advance push_step t c)"
    by (rule known_advance [where step = push_step and c = c and t = t, OF _ ok s]) (use push_step s in \<open>cases "cf_pc c t"; auto split: if_splits\<close>)+
  then show ?case using push_step sl_reach.push_step [of unheld c t] by simp
next
  case (pop_step c t)
  then obtain xs where ok: "sl_ok c xs" using sl_reach_ok by blast
  obtain l pc ops where s: "pop_step (cf_pc c t) (cf_list c) = (l, pc, ops)" by (metis prod.exhaust)
  have h: "x \<in> set xs" if "m_ptHead (cf_list c) = Some x" for x using sl_okD(1) [OF ok] that by (cases xs) auto
  have "known (advance pop_step t c)"
    by (rule known_advance [where step = pop_step and c = c and t = t, OF _ ok s])
      (use pop_step s h in \<open>cases "cf_pc c t"; auto split: if_splits option.splits\<close>)+
  then show ?case using pop_step sl_reach.pop_step [of unheld c t] by simp
qed

text \<open>C10 Whatever the interleaving of the reads and writes of its threads, the list is a stack, as
  long as every element is pushed once, or is pushed again only when it is not in the list and no
  thread is in the middle of an operation on it: each operation takes effect at one moment, with
  the result it has on a stack, and the links hold the elements of the stack.\<close>

theorem sync_list_is_a_stack:
  assumes "sl_reach once c \<or> sl_reach unheld c"
  shows "\<exists>xs. stack_run (cf_log c) = Some xs
    \<and> sl_chain (sl_pvNext (cf_list c)) (m_ptHead (cf_list c)) xs \<and> distinct xs"
proof -
  have "sl_reach unheld c" using assms once_unheld by blast
  then obtain xs where "sl_ok c xs" using sl_reach_ok by blast
  then show ?thesis using sl_okD by blast
qed

text \<open>A run given as a list of actions.\<close>

datatype 'a sl_action = ActPush nat 'a | ActPop nat | ActPushStep nat | ActPopStep nat

fun sl_do :: "'a sl_action \<Rightarrow> 'a sl_conf \<Rightarrow> 'a sl_conf" where
  "sl_do (ActPush t x) c = start_push t x c"
| "sl_do (ActPop t) c = start_pop t c"
| "sl_do (ActPushStep t) c = advance push_step t c"
| "sl_do (ActPopStep t) c = advance pop_step t c"

fun sl_allowed :: "('a sl_conf \<Rightarrow> 'a \<Rightarrow> bool) \<Rightarrow> 'a sl_action list \<Rightarrow> 'a sl_conf \<Rightarrow> bool" where
  "sl_allowed may [] c = True"
| "sl_allowed may (a # acts) c =
     ((case a of ActPush t x \<Rightarrow> cf_pc c t = SlIdle \<and> may c x | ActPop t \<Rightarrow> cf_pc c t = SlIdle | _ \<Rightarrow> True)
      \<and> sl_allowed may acts (sl_do a c))"

lemma sl_allowed_reach: "sl_reach may c \<Longrightarrow> sl_allowed may acts c \<Longrightarrow> sl_reach may (fold sl_do acts c)"
proof (induction acts arbitrary: c)
  case (Cons a acts)
  then have "sl_reach may (sl_do a c)" by (cases a) (auto intro: sl_reach.intros)
  then show ?case using Cons by simp
qed simp

definition do_push :: "nat \<Rightarrow> 'a \<Rightarrow> 'a sl_action list" where
  "do_push t x = [ActPush t x, ActPushStep t, ActPushStep t, ActPushStep t]"

definition do_pop :: "nat \<Rightarrow> 'a sl_action list" where
  "do_pop t = [ActPop t, ActPopStep t, ActPopStep t, ActPopStep t, ActPopStep t]"

theorem sync_list_is_a_stack_witness:
  "stack_run (cf_log (fold sl_do (do_push 0 (20 :: nat) @ do_push 1 10 @ do_pop 0) sl_start)) \<noteq> None"
proof -
  let ?acts = "do_push 0 (20 :: nat) @ do_push 1 10 @ do_pop 0"
  have "sl_allowed once ?acts sl_start"
    by (simp add: do_push_def do_pop_def sl_start_def start_push_def start_pop_def advance_def once_def)
  then have "sl_reach once (fold sl_do ?acts sl_start)" by (rule sl_allowed_reach [OF sl_reach.start])
  then show ?thesis using sync_list_is_a_stack [of "fold sl_do ?acts sl_start"] by auto
qed

definition aba_run :: "nat sl_action list" where
  "aba_run = do_push 0 20 @ do_push 0 10 @ [ActPop 1, ActPopStep 1, ActPopStep 1]
     @ do_pop 0 @ do_pop 0 @ do_push 0 10 @ [ActPopStep 1, ActPopStep 1] @ do_pop 0"

text \<open>C11 An allocator that hands out elements again, as the scheduler's pool does with the links of its
  waiting jobs, breaks the list.  While one thread is between reading the link of the first element
  and its compare and swap, another pops this element and the next and pushes the first again; the
  compare and swap then succeeds and puts the second element back, which is popped twice although
  it was pushed once.
\<close>

theorem sync_list_aba:
  "\<exists>c. sl_reach recycled c \<and> stack_run (cf_log c) = None
     \<and> count_list (cf_log c) (OpPush 20) = 1 \<and> count_list (cf_log c) (OpPop (Some (20 :: nat))) = 2"
proof (intro exI conjI)
  let ?c = "fold sl_do aba_run sl_start"
  have ok: "sl_allowed recycled aba_run sl_start"
    by (simp add: aba_run_def do_push_def do_pop_def sl_start_def start_push_def start_pop_def advance_def recycled_def)
  show "sl_reach recycled ?c" by (rule sl_allowed_reach [OF sl_reach.start ok])
  have log: "cf_log ?c = [OpPop (Some 20), OpPop (Some 10), OpPush 10, OpPop (Some 20), OpPop (Some 10), OpPush 10, OpPush 20]"
    by (simp add: aba_run_def do_push_def do_pop_def sl_start_def start_push_def start_pop_def advance_def)
  show "stack_run (cf_log ?c) = None" "count_list (cf_log ?c) (OpPush 20) = 1"
    "count_list (cf_log ?c) (OpPop (Some 20)) = 2"
    by (simp_all add: log)
qed

end
