(* ===== verification/Scheduler.thy ===== *)
theory Scheduler
  imports SyncList
begin

text \<open>
  The scheduler of the search (\<^verbatim>\<open>libgpopt/src/search/CScheduler.cpp\<close>,
  \<^verbatim>\<open>CJob.cpp\<close>, \<^verbatim>\<open>CJobQueue.cpp\<close>): any number of workers take jobs from a shared list and run them.
  A job that has to wait for others is suspended by its reference counter, which counts the worker
  that runs it, the queue it is in and its children; whoever takes the last reference away runs the
  job again or completes it.  A job queue lets one of the jobs with the same task run it, the
  others wait.

  A step of a worker is what other workers see as one: a push or pop of the list of waiting jobs (a
  stack, by the theory \<open>SyncList\<close>), an exchange-and-add of a counter, an operation on a job queue
  under its spinlock, an unlocked test of a flag, a check under the mutex.  The counters of queued and
  active tasks only decide whether a sleeping worker is signalled; here a worker may wake up at any
  time.  The statistics are left out.
\<close>

section \<open>The state\<close>

text \<open>
  Jobs and job queues are numbers.  The fields of a job are functions of it (\<open>m_ulpRefs\<close>,
  \<open>m_pjParent\<close>, \<open>m_pjq\<close>), those of a queue are functions of the queue (\<open>m_pj\<close>, \<open>m_fCompleted\<close>,
  \<open>m_listjQueued\<close>).  Two sets are no fields of the code: the jobs that exist, and those that have not
  told their parent yet that they are completed.
\<close>

record sched =
  m_listjlWaiting :: "nat list"
  m_ulpTotal :: nat
  m_ulpRunning :: nat
  m_ulpRefs :: "nat \<Rightarrow> nat"
  m_pjParent :: "nat \<Rightarrow> nat option"
  m_pjq :: "nat \<Rightarrow> nat option"
  m_pj :: "nat \<Rightarrow> nat option"
  m_fCompleted :: "nat \<Rightarrow> bool"
  m_listjQueued :: "nat \<Rightarrow> nat list"
  jobs :: "nat set"
  attached :: "nat set"

definition IncRefs :: "nat \<Rightarrow> sched \<Rightarrow> sched" where
  "IncRefs pj s = s\<lparr>m_ulpRefs := (m_ulpRefs s)(pj := m_ulpRefs s pj + 1)\<rparr>"

definition UlpDecrRefs :: "nat \<Rightarrow> sched \<Rightarrow> nat \<times> sched" where
  "UlpDecrRefs pj s = (m_ulpRefs s pj, s\<lparr>m_ulpRefs := (m_ulpRefs s)(pj := m_ulpRefs s pj - 1)\<rparr>)"

definition Schedule :: "nat \<Rightarrow> sched \<Rightarrow> sched" where
  "Schedule pj s = s\<lparr>m_listjlWaiting := pj # m_listjlWaiting s\<rparr>"

text \<open>A new job, initialised with its queue, is added for a parent.  Until it is pushed no other worker
  knows it, and its parent is the job of this worker, so that this is one step.  Its counter is left as
  the factory made it (\<open>CJob::Reset\<close> and the constructor of \<open>CJob\<close> set it to 0).\<close>

definition Add :: "nat \<Rightarrow> nat option \<Rightarrow> nat option \<Rightarrow> sched \<Rightarrow> sched" where
  "Add pj pjParent pjq s =
     (let s = s\<lparr>m_pjq := (m_pjq s)(pj := pjq), jobs := insert pj (jobs s)\<rparr>;
          s = (case pjParent of None \<Rightarrow> s | Some p \<Rightarrow> (IncRefs p s)\<lparr>attached := insert pj (attached s)\<rparr>);
          s = s\<lparr>m_pjParent := (m_pjParent s)(pj := pjParent)\<rparr>;
          s = s\<lparr>m_ulpTotal := m_ulpTotal s + 1\<rparr>
      in Schedule pj s)"

datatype ejqr = EjqrMain | EjqrQueued | EjqrCompleted

text \<open>\<open>EjqrAdd\<close> tests the flag of the queue before it takes the spinlock (\<open>EjqrAdd_completed\<close>); this is
  the section under the lock, where the queue may have been completed since then.\<close>

definition EjqrAdd_completed :: "nat \<Rightarrow> sched \<Rightarrow> bool" where
  "EjqrAdd_completed pjq s = m_fCompleted s pjq"

definition EjqrAdd :: "nat \<Rightarrow> nat \<Rightarrow> sched \<Rightarrow> ejqr \<times> sched" where
  "EjqrAdd pjq pj s =
     (if m_pj s pjq = Some pj then (EjqrMain, IncRefs pj s)
      else if m_fCompleted s pjq then (EjqrCompleted, s)
      else (let s = s\<lparr>m_listjQueued := (m_listjQueued s)(pjq := m_listjQueued s pjq @ [pj])\<rparr>;
                fOwner = (hd (m_listjQueued s pjq) = pj);
                s = (if fOwner then s\<lparr>m_pj := (m_pj s)(pjq := Some pj)\<rparr> else s)
            in (if fOwner then EjqrMain else EjqrQueued, IncRefs pj s)))"

section \<open>The steps of a worker\<close>

text \<open>
  Where a worker is.  \<open>PreExecute\<close>, \<open>PreExecuteRefs\<close>: before the two increments of \<open>PreExecute\<close>;
  \<open>Enqueue pj\<close>: after the unlocked test of \<open>EjqrAdd\<close>, before its lock; \<open>Body pj fMain fAdded\<close>: in the function of the job, as the main job of its
  queue or without one, having added children in this run or not; \<open>Post pj fCompleted\<close>: before it takes
  the reference of the run away; \<open>PostRunning pj ejr\<close>: before it counts the run off; \<open>ResumeParent\<close>, \<open>ResumePush\<close>, \<open>CountDown\<close>: completing a job, before its
  parent is told, before the parent is scheduled, and before the job is counted off and released.
  A job completed by a notification returns to the loop of \<open>NotifyCompleted\<close>.
\<close>

datatype ret = ToLoop | ToNotify nat

datatype ejr = EjrCompleted | EjrRunnable | EjrSuspended

datatype wpc = Started | Loop | PreExecute nat | PreExecuteRefs nat | Execute nat | Enqueue nat
  | Body nat bool bool
  | MainSuspended nat | Notify nat | NotifyLoop nat | NotifyDecr nat nat | Post nat bool
  | PostRunning nat ejr
  | Resume nat | ResumeParent nat ret | ResumePush nat nat ret | CountDown nat ret
  | Inactive | Asleep | Exited

fun return_pc :: "ret \<Rightarrow> wpc" where
  "return_pc ToLoop = Loop"
| "return_pc (ToNotify pj) = NotifyLoop pj"

text \<open>The functions of the scheduler, of a job and of a queue that these steps consist of.  \<open>PjRetrieve\<close>
  pops the list; \<open>PreExecute_running\<close> and \<open>EjrPostExecute_running\<close> count the workers that run a job; \<open>FExecute\<close> goes on after the queue has answered; \<open>EjrPostExecute\<close> takes the reference
  of the run away; \<open>FResumeParent\<close> takes the reference of a child away; \<open>NotifyCompleted\<close> marks the
  queue as completed and then removes the jobs of its list one by one.\<close>

definition PjRetrieve :: "sched \<Rightarrow> nat option \<times> sched" where
  "PjRetrieve s = (case m_listjlWaiting s of [] \<Rightarrow> (None, s) | pj # pjs \<Rightarrow> (Some pj, s\<lparr>m_listjlWaiting := pjs\<rparr>))"

fun FExecute_next :: "ejqr \<Rightarrow> nat \<Rightarrow> wpc" where
  "FExecute_next EjqrMain pj = Body pj True False"
| "FExecute_next EjqrQueued pj = Post pj False"
| "FExecute_next EjqrCompleted pj = Post pj True"

definition EjrPostExecute :: "nat \<Rightarrow> bool \<Rightarrow> sched \<Rightarrow> ejr \<times> sched" where
  "EjrPostExecute pj fCompleted s =
     (let (ulRefs, s) = UlpDecrRefs pj s
      in (if fCompleted then EjrCompleted else if ulRefs = 1 then EjrRunnable else EjrSuspended, s))"

definition PreExecute_running :: "sched \<Rightarrow> sched" where
  "PreExecute_running s = s\<lparr>m_ulpRunning := m_ulpRunning s + 1\<rparr>"

definition EjrPostExecute_running :: "sched \<Rightarrow> sched" where
  "EjrPostExecute_running s = s\<lparr>m_ulpRunning := m_ulpRunning s - 1\<rparr>"

fun ExecuteJobs_next :: "ejr \<Rightarrow> nat \<Rightarrow> wpc" where
  "ExecuteJobs_next EjrCompleted pj = ResumeParent pj ToLoop"
| "ExecuteJobs_next EjrRunnable pj = Resume pj"
| "ExecuteJobs_next EjrSuspended pj = Loop"

definition FResumeParent :: "nat \<Rightarrow> nat \<Rightarrow> sched \<Rightarrow> bool \<times> sched" where
  "FResumeParent pjParent pj s =
     (let (ulpRefs, s) = UlpDecrRefs pjParent (s\<lparr>attached := attached s - {pj}\<rparr>) in (ulpRefs = 1, s))"

definition Complete :: "nat \<Rightarrow> sched \<Rightarrow> sched" where
  "Complete pj s = s\<lparr>m_ulpTotal := m_ulpTotal s - 1, jobs := jobs s - {pj}\<rparr>"

definition NotifyCompleted_mark :: "nat \<Rightarrow> sched \<Rightarrow> sched" where
  "NotifyCompleted_mark pjq s = s\<lparr>m_fCompleted := (m_fCompleted s)(pjq := True)\<rparr>"

definition NotifyCompleted_remove :: "nat \<Rightarrow> sched \<Rightarrow> nat option \<times> sched" where
  "NotifyCompleted_remove pjq s = (case m_listjQueued s pjq of [] \<Rightarrow> (None, s)
     | pj # pjs \<Rightarrow> (Some pj, s\<lparr>m_listjQueued := (m_listjQueued s)(pjq := pjs)\<rparr>))"

text \<open>The run of a job may add children and then returns; by the contract of the job state machines a
  run that returns \<open>true\<close> has added no child.\<close>

inductive wstep :: "wpc \<Rightarrow> sched \<Rightarrow> wpc \<Rightarrow> sched \<Rightarrow> bool" where
  started: "wstep Started s Loop s"
| retrieve_none: "PjRetrieve s = (None, s') \<Longrightarrow> wstep Loop s Inactive s'"
| retrieve: "PjRetrieve s = (Some pj, s') \<Longrightarrow> wstep Loop s (PreExecute pj) s'"
| pre_execute: "wstep (PreExecute pj) s (PreExecuteRefs pj) (PreExecute_running s)"
| pre_execute_refs: "wstep (PreExecuteRefs pj) s (Execute pj) (IncRefs pj s)"
| execute: "m_pjq s pj = None \<Longrightarrow> wstep (Execute pj) s (Body pj False False) s"
| execute_queue: "m_pjq s pj = Some pjq \<Longrightarrow>
    wstep (Execute pj) s (if EjqrAdd_completed pjq s then FExecute_next EjqrCompleted pj else Enqueue pj) s"
| enqueue: "m_pjq s pj = Some pjq \<Longrightarrow> EjqrAdd pjq pj s = (ejqr, s') \<Longrightarrow>
    wstep (Enqueue pj) s (FExecute_next ejqr pj) s'"
| body_add: "pjChild \<notin> jobs s \<Longrightarrow> wstep (Body pj fMain fAdded) s (Body pj fMain True) (Add pjChild (Some pj) pjq s)"
| body_suspended: "wstep (Body pj fMain fAdded) s (if fMain then MainSuspended pj else Post pj False) s"
| body_completed: "wstep (Body pj fMain False) s (if fMain then Notify pj else Post pj True) s"
| main_suspended: "wstep (MainSuspended pj) s (Post pj False) (snd (UlpDecrRefs pj s))"
| notify: "m_pjq s pj = Some pjq \<Longrightarrow> wstep (Notify pj) s (NotifyLoop pj) (NotifyCompleted_mark pjq s)"
| notify_end: "m_pjq s pj = Some pjq \<Longrightarrow> NotifyCompleted_remove pjq s = (None, s') \<Longrightarrow>
    wstep (NotifyLoop pj) s (Post pj True) s'"
| notify_next: "m_pjq s pj = Some pjq \<Longrightarrow> NotifyCompleted_remove pjq s = (Some pj', s') \<Longrightarrow>
    wstep (NotifyLoop pj) s (NotifyDecr pj pj') s'"
| notify_decr: "UlpDecrRefs pj' s = (ulpRefs, s') \<Longrightarrow>
    wstep (NotifyDecr pj pj') s (if ulpRefs = 1 then ResumeParent pj' (ToNotify pj) else NotifyLoop pj) s'"
| post: "EjrPostExecute pj fCompleted s = (ejr, s') \<Longrightarrow> wstep (Post pj fCompleted) s (PostRunning pj ejr) s'"
| post_running: "wstep (PostRunning pj ejr) s (ExecuteJobs_next ejr pj) (EjrPostExecute_running s)"
| resume: "wstep (Resume pj) s Loop (Schedule pj s)"
| resume_no_parent: "m_pjParent s pj = None \<Longrightarrow> wstep (ResumeParent pj ret) s (CountDown pj ret) s"
| resume_parent: "m_pjParent s pj = Some pjParent \<Longrightarrow> FResumeParent pjParent pj s = (fResume, s') \<Longrightarrow>
    wstep (ResumeParent pj ret) s (if fResume then ResumePush pjParent pj ret else CountDown pj ret) s'"
| resume_push: "wstep (ResumePush pjParent pj ret) s (CountDown pj ret) (Schedule pjParent s)"
| count_down: "wstep (CountDown pj ret) s (return_pc ret) (Complete pj s)"

text \<open>The system: \<open>n\<close> workers, of which an inactive one holds the mutex to check whether all jobs are
  completed; then it wakes up the others and exits, otherwise it waits for an event.\<close>

definition wake :: "wpc \<Rightarrow> wpc" where
  "wake pc = (if pc = Asleep then Started else pc)"

inductive sched_step :: "nat \<Rightarrow> (nat \<Rightarrow> wpc) \<times> sched \<Rightarrow> (nat \<Rightarrow> wpc) \<times> sched \<Rightarrow> bool" for n where
  work: "t < n \<Longrightarrow> wstep (pcs t) s pc s' \<Longrightarrow> sched_step n (pcs, s) (pcs(t := pc), s')"
| finish: "t < n \<Longrightarrow> pcs t = Inactive \<Longrightarrow> m_ulpTotal s = 0 \<Longrightarrow> sched_step n (pcs, s) ((wake \<circ> pcs)(t := Exited), s)"
| sleep: "t < n \<Longrightarrow> pcs t = Inactive \<Longrightarrow> m_ulpTotal s \<noteq> 0 \<Longrightarrow> sched_step n (pcs, s) (pcs(t := Asleep), s)"
| signal: "t < n \<Longrightarrow> pcs t = Asleep \<Longrightarrow> sched_step n (pcs, s) (pcs(t := Started), s)"

definition sched_new :: sched where
  "sched_new = \<lparr>m_listjlWaiting = [], m_ulpTotal = 0, m_ulpRunning = 0, m_ulpRefs = (\<lambda>_. 0), m_pjParent = (\<lambda>_. None), m_pjq = (\<lambda>_. None),
     m_pj = (\<lambda>_. None), m_fCompleted = (\<lambda>_. False), m_listjQueued = (\<lambda>_. []), jobs = {}, attached = {}\<rparr>"

text \<open>The engine adds the root job and starts the workers.\<close>

inductive sched_reach :: "nat \<Rightarrow> (nat \<Rightarrow> wpc) \<times> sched \<Rightarrow> bool" for n where
  start: "sched_reach n (\<lambda>_. Started, Add pj None pjq sched_new)"
| step: "sched_reach n c \<Longrightarrow> sched_step n c c' \<Longrightarrow> sched_reach n c'"

inductive_cases wstep_cases: "wstep pc s pc' s'"

section \<open>The ledger\<close>

text \<open>
  What the reference counter of a job consists of: the references of workers (\<open>holds\<close>), of the
  queue and of the children.  A job without references is in exactly one place (\<open>tokens\<close>, or in the
  list of waiting jobs) until it is released.  \<open>runs\<close> counts the workers that run a job, \<open>dead\<close>
  those that complete it and have told its parent.
\<close>

definition one :: "nat \<Rightarrow> nat \<Rightarrow> nat" where
  "one i j = (if i = j then 1 else 0)"

fun ret_job :: "ret \<Rightarrow> nat \<Rightarrow> nat" where
  "ret_job ToLoop j = 0"
| "ret_job (ToNotify pj) j = one pj j"

fun holds :: "wpc \<Rightarrow> nat \<Rightarrow> nat" where
  "holds (Execute pj) j = one pj j"
| "holds (Enqueue pj) j = one pj j"
| "holds (Body pj fMain a) j = (if fMain then 2 else 1) * one pj j"
| "holds (MainSuspended pj) j = 2 * one pj j"
| "holds (Notify pj) j = 2 * one pj j"
| "holds (NotifyLoop pj) j = one pj j"
| "holds (NotifyDecr pj pj') j = one pj j + one pj' j"
| "holds (Post pj r) j = one pj j"
| "holds (ResumeParent pj ret) j = ret_job ret j"
| "holds (ResumePush p pj ret) j = ret_job ret j"
| "holds (CountDown pj ret) j = ret_job ret j"
| "holds pc j = 0"

fun runs :: "wpc \<Rightarrow> nat \<Rightarrow> nat" where
  "runs (Execute pj) j = one pj j"
| "runs (Enqueue pj) j = one pj j"
| "runs (Body pj fMain a) j = one pj j"
| "runs (MainSuspended pj) j = one pj j"
| "runs (Notify pj) j = one pj j"
| "runs (NotifyLoop pj) j = one pj j"
| "runs (NotifyDecr pj pj') j = one pj j"
| "runs (Post pj r) j = one pj j"
| "runs (ResumeParent pj ret) j = ret_job ret j"
| "runs (ResumePush p pj ret) j = ret_job ret j"
| "runs (CountDown pj ret) j = ret_job ret j"
| "runs pc j = 0"

fun tokens :: "wpc \<Rightarrow> nat \<Rightarrow> nat" where
  "tokens (PreExecute pj) j = one pj j"
| "tokens (PreExecuteRefs pj) j = one pj j"
| "tokens (PostRunning pj ejr) j = (if ejr = EjrSuspended then 0 else one pj j)"
| "tokens (Resume pj) j = one pj j"
| "tokens (ResumeParent pj ret) j = one pj j"
| "tokens (ResumePush p pj ret) j = one p j + one pj j"
| "tokens (CountDown pj ret) j = one pj j"
| "tokens pc j = 0"

fun dead :: "wpc \<Rightarrow> nat \<Rightarrow> nat" where
  "dead (ResumePush p pj ret) j = one pj j"
| "dead (CountDown pj ret) j = one pj j"
| "dead pc j = 0"

definition queue_refs :: "sched \<Rightarrow> nat \<Rightarrow> nat" where
  "queue_refs s j = (case m_pjq s j of None \<Rightarrow> 0
     | Some q \<Rightarrow> count_list (if m_fCompleted s q then m_listjQueued s q else tl (m_listjQueued s q)) j)"

definition child_refs :: "sched \<Rightarrow> nat \<Rightarrow> nat" where
  "child_refs s j = card {i \<in> attached s. m_pjParent s i = Some j}"

definition waits :: "sched \<Rightarrow> nat \<Rightarrow> nat" where
  "waits s j = count_list (m_listjlWaiting s) j"

definition queue_ok :: "sched \<Rightarrow> nat \<Rightarrow> bool" where
  "queue_ok s q \<longleftrightarrow> distinct (m_listjQueued s q) \<and> (\<forall>i \<in> set (m_listjQueued s q). m_pjq s i = Some q)
     \<and> (\<not> m_fCompleted s q \<longrightarrow> m_pj s q = (if m_listjQueued s q = [] then None else Some (hd (m_listjQueued s q)))
          \<and> (m_listjQueued s q \<noteq> [] \<longrightarrow> hd (m_listjQueued s q) \<in> jobs s))"

definition queues_ok :: "sched \<Rightarrow> bool" where
  "queues_ok s \<longleftrightarrow> (\<forall>q. queue_ok s q)"

definition entry :: "nat \<Rightarrow> nat \<Rightarrow> nat \<Rightarrow> nat \<Rightarrow> sched \<Rightarrow> nat \<Rightarrow> bool" where
  "entry f w r d s j \<longleftrightarrow> m_ulpRefs s j = w + queue_refs s j + child_refs s j
     \<and> f + waits s j \<le> 1 \<and> (f + waits s j = 1 \<longrightarrow> m_ulpRefs s j = 0)
     \<and> (j \<in> jobs s \<longleftrightarrow> f + waits s j = 1 \<or> 0 < m_ulpRefs s j)
     \<and> r \<le> 1 \<and> (j \<in> attached s \<longleftrightarrow> j \<in> jobs s \<and> m_pjParent s j \<noteq> None \<and> d = 0)"

definition ledger :: "(nat \<Rightarrow> nat) \<Rightarrow> (nat \<Rightarrow> nat) \<Rightarrow> (nat \<Rightarrow> nat) \<Rightarrow> (nat \<Rightarrow> nat) \<Rightarrow> sched \<Rightarrow> bool" where
  "ledger F W R D s \<longleftrightarrow> (\<forall>j. entry (F j) (W j) (R j) (D j) s j)
     \<and> finite (jobs s) \<and> m_ulpTotal s = card (jobs s) \<and> queues_ok s"

text \<open>What is known at the places of a worker.\<close>

definition main_of :: "sched \<Rightarrow> nat \<Rightarrow> bool" where
  "main_of s j \<longleftrightarrow> (\<exists>q. m_pjq s j = Some q \<and> \<not> m_fCompleted s q \<and> m_listjQueued s q \<noteq> [] \<and> hd (m_listjQueued s q) = j)"

definition main_done :: "sched \<Rightarrow> nat \<Rightarrow> bool" where
  "main_done s j \<longleftrightarrow> (\<exists>q. m_pjq s j = Some q \<and> m_fCompleted s q \<and> m_pj s q = Some j)"

text \<open>A job that, if it is the main job of its queue, finds the queue not completed.\<close>

definition main_open :: "sched \<Rightarrow> nat \<Rightarrow> bool" where
  "main_open s j \<longleftrightarrow> (\<exists>q. m_pjq s j = Some q \<and> (m_pj s q = Some j \<longrightarrow> \<not> m_fCompleted s q))"

definition dying :: "sched \<Rightarrow> nat \<Rightarrow> bool" where
  "dying s j \<longleftrightarrow> (\<forall>q. m_pjq s j = Some q \<longrightarrow> m_fCompleted s q)"

definition quiet :: "sched \<Rightarrow> nat \<Rightarrow> bool" where
  "quiet s j \<longleftrightarrow> queue_refs s j = 0 \<and> child_refs s j = 0"

fun ret_ok :: "sched \<Rightarrow> ret \<Rightarrow> bool" where
  "ret_ok s ToLoop = True"
| "ret_ok s (ToNotify pj) = (child_refs s pj = 0 \<and> main_done s pj)"

fun pc_ok :: "sched \<Rightarrow> wpc \<Rightarrow> bool" where
  "pc_ok s (Execute j) = quiet s j"
| "pc_ok s (Enqueue j) = (quiet s j \<and> main_open s j)"
| "pc_ok s (Body j fMain a) = (queue_refs s j = 0 \<and> (a \<or> child_refs s j = 0) \<and> (if fMain then main_of s j else m_pjq s j = None))"
| "pc_ok s (MainSuspended j) = (queue_refs s j = 0 \<and> main_of s j)"
| "pc_ok s (Notify j) = (quiet s j \<and> main_of s j)"
| "pc_ok s (NotifyLoop j) = (child_refs s j = 0 \<and> main_done s j)"
| "pc_ok s (NotifyDecr j i) = (child_refs s j = 0 \<and> main_done s j \<and> dying s i)"
| "pc_ok s (Post j r) = (r \<longrightarrow> quiet s j \<and> dying s j)"
| "pc_ok s (PostRunning j ejr) = (ejr = EjrCompleted \<longrightarrow> dying s j)"
| "pc_ok s (ResumeParent i ret) = (dying s i \<and> ret_ok s ret)"
| "pc_ok s (ResumePush p i ret) = (dying s i \<and> ret_ok s ret)"
| "pc_ok s (CountDown i ret) = (dying s i \<and> ret_ok s ret)"
| "pc_ok s pc = True"

text \<open>The jobs of which no other worker may hold a reference.\<close>

fun solo :: "wpc \<Rightarrow> nat \<Rightarrow> bool" where
  "solo (Post pj r) j = (r \<and> pj = j)"
| "solo pc j = (runs pc j \<noteq> 0)"

text \<open>What a step of one worker, from \<open>p\<close> to \<open>p'\<close>, leaves for the others, who run the jobs \<open>j\<close> with
  \<open>0 < R j\<close>.\<close>

definition stable :: "wpc \<Rightarrow> sched \<Rightarrow> wpc \<Rightarrow> sched \<Rightarrow> nat \<Rightarrow> bool" where
  "stable p s p' s' j \<longleftrightarrow> (queue_refs s j = 0 \<longrightarrow> queue_refs s' j = 0) \<and> (child_refs s j = 0 \<longrightarrow> child_refs s' j = 0)
     \<and> (main_of s j \<longrightarrow> main_of s' j) \<and> (main_open s j \<longrightarrow> main_open s' j)
     \<and> (queue_refs s j = 0 \<or> main_done s j \<longrightarrow> holds p j = 0 \<longrightarrow> holds p' j = 0)"

definition others :: "(nat \<Rightarrow> nat) \<Rightarrow> wpc \<Rightarrow> sched \<Rightarrow> wpc \<Rightarrow> sched \<Rightarrow> bool" where
  "others R p s p' s' \<longleftrightarrow> (\<forall>j. 0 < R j \<longrightarrow> stable p s p' s' j) \<and> (\<forall>i \<in> jobs s. m_pjq s' i = m_pjq s i)
     \<and> (\<forall>q. m_fCompleted s q \<longrightarrow> m_fCompleted s' q \<and> m_pj s' q = m_pj s q)"

definition good :: "(nat \<Rightarrow> nat) \<Rightarrow> (nat \<Rightarrow> nat) \<Rightarrow> (nat \<Rightarrow> nat) \<Rightarrow> (nat \<Rightarrow> nat) \<Rightarrow> wpc \<Rightarrow> sched \<Rightarrow> bool" where
  "good F W R D p s \<longleftrightarrow> ledger (\<lambda>j. F j + tokens p j) (\<lambda>j. W j + holds p j) (\<lambda>j. R j + runs p j) (\<lambda>j. D j + dead p j) s
     \<and> pc_ok s p \<and> (\<forall>j. R j \<le> W j \<and> D j \<le> F j) \<and> (\<forall>j. solo p j \<longrightarrow> W j = 0)"

lemma one_simps [simp]: "one i i = 1" "i \<noteq> j \<Longrightarrow> one i j = 0" "one i j \<le> 1"
  by (simp_all add: one_def)

lemma refs_unfold:
  "queue_refs (s\<lparr>m_listjlWaiting := w\<rparr>) = queue_refs s" "queue_refs (s\<lparr>m_ulpRefs := r\<rparr>) = queue_refs s"
  "queue_refs (s\<lparr>m_ulpTotal := t\<rparr>) = queue_refs s" "queue_refs (s\<lparr>jobs := a\<rparr>) = queue_refs s"
  "queue_refs (s\<lparr>attached := a\<rparr>) = queue_refs s" "queue_refs (s\<lparr>m_pjParent := p\<rparr>) = queue_refs s"
  "child_refs (s\<lparr>m_listjlWaiting := w\<rparr>) = child_refs s" "child_refs (s\<lparr>m_ulpRefs := r\<rparr>) = child_refs s"
  "child_refs (s\<lparr>m_ulpTotal := t\<rparr>) = child_refs s" "child_refs (s\<lparr>jobs := a\<rparr>) = child_refs s"
  "child_refs (s\<lparr>m_pjq := c\<rparr>) = child_refs s" "child_refs (s\<lparr>m_fCompleted := d\<rparr>) = child_refs s"
  "child_refs (s\<lparr>m_listjQueued := e\<rparr>) = child_refs s" "child_refs (s\<lparr>m_pj := f\<rparr>) = child_refs s"
  "queue_refs (s\<lparr>m_pj := f\<rparr>) = queue_refs s"
  "queue_refs (s\<lparr>m_ulpRunning := g\<rparr>) = queue_refs s" "child_refs (s\<lparr>m_ulpRunning := g\<rparr>) = child_refs s"
  by (simp_all add: queue_refs_def child_refs_def fun_eq_iff split: option.split)

lemma waits_unfold:
  "waits (s\<lparr>m_ulpRefs := r\<rparr>) = waits s" "waits (s\<lparr>m_ulpTotal := t\<rparr>) = waits s" "waits (s\<lparr>jobs := a\<rparr>) = waits s"
  "waits (s\<lparr>attached := a\<rparr>) = waits s" "waits (s\<lparr>m_pjParent := p\<rparr>) = waits s" "waits (s\<lparr>m_pjq := c\<rparr>) = waits s"
  "waits (s\<lparr>m_fCompleted := d\<rparr>) = waits s" "waits (s\<lparr>m_listjQueued := e\<rparr>) = waits s" "waits (s\<lparr>m_pj := f\<rparr>) = waits s"
  "waits (s\<lparr>m_listjlWaiting := pj # w\<rparr>) j = one pj j + waits (s\<lparr>m_listjlWaiting := w\<rparr>) j"
  "waits (s\<lparr>m_listjlWaiting := m_listjlWaiting s\<rparr>) = waits s" "waits (s\<lparr>m_ulpRunning := g\<rparr>) = waits s"
  by (simp_all add: waits_def fun_eq_iff one_def)

lemma main_unfold:
  "main_of (s\<lparr>m_listjlWaiting := w\<rparr>) = main_of s" "main_of (s\<lparr>m_ulpRefs := r\<rparr>) = main_of s"
  "main_of (s\<lparr>m_ulpTotal := t\<rparr>) = main_of s" "main_of (s\<lparr>jobs := a\<rparr>) = main_of s"
  "main_of (s\<lparr>attached := a\<rparr>) = main_of s" "main_of (s\<lparr>m_ulpRunning := g\<rparr>) = main_of s"
  "main_done (s\<lparr>m_ulpRunning := g\<rparr>) = main_done s" "dying (s\<lparr>m_ulpRunning := g\<rparr>) = dying s"
  "main_open (s\<lparr>m_listjlWaiting := w\<rparr>) = main_open s" "main_open (s\<lparr>m_ulpRefs := r\<rparr>) = main_open s"
  "main_open (s\<lparr>m_ulpTotal := t\<rparr>) = main_open s" "main_open (s\<lparr>jobs := a\<rparr>) = main_open s"
  "main_open (s\<lparr>attached := a\<rparr>) = main_open s" "main_open (s\<lparr>m_listjQueued := e\<rparr>) = main_open s"
  "main_open (s\<lparr>m_ulpRunning := g\<rparr>) = main_open s"
  "main_done (s\<lparr>m_listjlWaiting := w\<rparr>) = main_done s" "main_done (s\<lparr>m_ulpRefs := r\<rparr>) = main_done s"
  "main_done (s\<lparr>m_ulpTotal := t\<rparr>) = main_done s" "main_done (s\<lparr>jobs := a\<rparr>) = main_done s"
  "main_done (s\<lparr>attached := a\<rparr>) = main_done s" "main_done (s\<lparr>m_listjQueued := e\<rparr>) = main_done s"
  "dying (s\<lparr>m_listjlWaiting := w\<rparr>) = dying s" "dying (s\<lparr>m_ulpRefs := r\<rparr>) = dying s"
  "dying (s\<lparr>m_ulpTotal := t\<rparr>) = dying s" "dying (s\<lparr>jobs := a\<rparr>) = dying s"
  "dying (s\<lparr>attached := a\<rparr>) = dying s" "dying (s\<lparr>m_listjQueued := e\<rparr>) = dying s"
  by (simp_all add: main_of_def main_done_def main_open_def dying_def fun_eq_iff)

lemma queues_unfold:
  "queues_ok (s\<lparr>m_listjlWaiting := w\<rparr>) = queues_ok s" "queues_ok (s\<lparr>m_ulpRefs := r\<rparr>) = queues_ok s"
  "queues_ok (s\<lparr>m_ulpTotal := t\<rparr>) = queues_ok s" "queues_ok (s\<lparr>attached := a\<rparr>) = queues_ok s"
  "queues_ok (s\<lparr>m_ulpRunning := g\<rparr>) = queues_ok s"
  by (simp_all add: queues_ok_def queue_ok_def)

lemma ret_ok_cong: "child_refs s' = child_refs s \<Longrightarrow> main_done s' = main_done s \<Longrightarrow> ret_ok s' = ret_ok s"
  by (rule ext, rename_tac x, case_tac x) simp_all

lemma ret_ok_unfold:
  "ret_ok (s\<lparr>m_listjlWaiting := w\<rparr>) = ret_ok s" "ret_ok (s\<lparr>m_ulpRefs := r\<rparr>) = ret_ok s"
  "ret_ok (s\<lparr>m_ulpTotal := t\<rparr>) = ret_ok s" "ret_ok (s\<lparr>jobs := a\<rparr>) = ret_ok s"
  "ret_ok (s\<lparr>m_ulpRunning := g\<rparr>) = ret_ok s"
  by (rule ret_ok_cong; simp add: refs_unfold main_unfold)+

lemmas sched_unfold = ret_ok_unfold refs_unfold waits_unfold main_unfold queues_unfold

lemma entryD:
  assumes "entry f w r d s j"
  shows "m_ulpRefs s j = w + queue_refs s j + child_refs s j" "f + waits s j \<le> 1"
    "0 < f + waits s j \<Longrightarrow> m_ulpRefs s j = 0" "j \<in> jobs s \<longleftrightarrow> f + waits s j = 1 \<or> 0 < m_ulpRefs s j" "r \<le> 1"
    "j \<in> attached s \<longleftrightarrow> j \<in> jobs s \<and> m_pjParent s j \<noteq> None \<and> d = 0"
  using assms by (auto simp: entry_def)

lemma goodD:
  assumes "good F W R D p s"
  shows "entry (F j + tokens p j) (W j + holds p j) (R j + runs p j) (D j + dead p j) s j"
    "pc_ok s p" "R j \<le> W j" "D j \<le> F j" "solo p j \<Longrightarrow> W j = 0" "finite (jobs s)" "m_ulpTotal s = card (jobs s)" "queues_ok s"
  using assms by (simp_all add: good_def ledger_def)

lemma goodI:
  assumes "\<And>j. entry (F j + tokens p j) (W j + holds p j) (R j + runs p j) (D j + dead p j) s j"
    "pc_ok s p" "\<And>j. R j \<le> W j" "\<And>j. D j \<le> F j" "\<And>j. solo p j \<Longrightarrow> W j = 0" "finite (jobs s)"
    "m_ulpTotal s = card (jobs s)" "queues_ok s"
  shows "good F W R D p s"
  using assms by (simp add: good_def ledger_def)

text \<open>A job that is in one of its places has no references at all.\<close>

lemma place_quiet:
  assumes "good F W R D p s" "0 < F j + tokens p j + waits s j"
  shows "m_ulpRefs s j = 0" "W j = 0" "holds p j = 0" "quiet s j" "j \<in> jobs s" "F j + tokens p j + waits s j = 1" "R j = 0"
proof -
  note e = entryD [OF goodD(1) [OF assms(1), of j]]
  show r: "m_ulpRefs s j = 0" using e(3) assms(2) by simp
  show "W j = 0" "holds p j = 0" "quiet s j" using e(1) r by (simp_all add: quiet_def)
  then show "R j = 0" using goodD(3) [OF assms(1), of j] by simp
  show "F j + tokens p j + waits s j = 1" using e(2) assms(2) by linarith
  then show "j \<in> jobs s" using e(4) by simp
qed

text \<open>A job of which this worker or another has a reference is alive.\<close>

lemma held_alive:
  assumes "good F W R D p s" "0 < W j + holds p j + queue_refs s j + child_refs s j"
  shows "0 < m_ulpRefs s j" "j \<in> jobs s" "F j = 0" "tokens p j = 0" "waits s j = 0"
proof -
  note e = entryD [OF goodD(1) [OF assms(1), of j]]
  show r: "0 < m_ulpRefs s j" using e(1) assms(2) by simp
  show "j \<in> jobs s" using e(4) r by simp
  have "F j + tokens p j + waits s j = 0" using e(3) r by fastforce
  then show "F j = 0" "tokens p j = 0" "waits s j = 0" by simp_all
qed

lemma runs_le_holds: "runs p j \<le> holds p j"
  by (cases p) simp_all

lemma dead_le_tokens: "dead p j \<le> tokens p j"
  by (cases p) simp_all

text \<open>A step that changes neither children nor queues, for the others.\<close>

lemma others_quiet:
  assumes "queue_refs s' = queue_refs s" "child_refs s' = child_refs s" "main_of s' = main_of s"
    "m_pjq s' = m_pjq s" "m_fCompleted s' = m_fCompleted s" "m_pj s' = m_pj s"
    "\<And>j. 0 < R j \<Longrightarrow> holds p j = 0 \<Longrightarrow> holds p' j = 0"
  shows "others R p s p' s'"
  using assms by (simp add: others_def stable_def main_open_def)

section \<open>The steps preserve the ledger\<close>

lemma step_retrieve:
  assumes g: "good F W R D Loop s" and w: "m_listjlWaiting s = pj # pjs"
  shows "good F W R D (PreExecute pj) (s\<lparr>m_listjlWaiting := pjs\<rparr>) \<and> others R Loop s (PreExecute pj) (s\<lparr>m_listjlWaiting := pjs\<rparr>)"
proof
  have w': "waits s j = one pj j + waits (s\<lparr>m_listjlWaiting := pjs\<rparr>) j" for j
    using w by (simp add: waits_def one_def)
  show "good F W R D (PreExecute pj) (s\<lparr>m_listjlWaiting := pjs\<rparr>)"
  proof (rule goodI)
    show "entry (F j + tokens (PreExecute pj) j) (W j + holds (PreExecute pj) j) (R j + runs (PreExecute pj) j)
      (D j + dead (PreExecute pj) j) (s\<lparr>m_listjlWaiting := pjs\<rparr>) j" for j
      using goodD(1) [OF g, of j] by (auto simp: entry_def sched_unfold w' ac_simps)
  qed (use goodD(3-8) [OF g] in \<open>simp_all add: sched_unfold\<close>)
qed (rule others_quiet; simp add: sched_unfold)

lemma step_pre_execute_refs:
  assumes g: "good F W R D (PreExecuteRefs pj) s"
  shows "good F W R D (Execute pj) (IncRefs pj s) \<and> others R (PreExecuteRefs pj) s (Execute pj) (IncRefs pj s)"
proof
  note q = place_quiet [OF g, of pj, simplified]
  show "good F W R D (Execute pj) (IncRefs pj s)"
  proof (rule goodI)
    show "entry (F j + tokens (Execute pj) j) (W j + holds (Execute pj) j) (R j + runs (Execute pj) j)
      (D j + dead (Execute pj) j) (IncRefs pj s) j" for j
      using goodD(1) [OF g, of j] q by (cases "j = pj") (auto simp: entry_def sched_unfold IncRefs_def)
  qed (use goodD(3-8) [OF g] q in \<open>simp_all add: sched_unfold IncRefs_def quiet_def one_def split: if_splits\<close>)
  show "others R (PreExecuteRefs pj) s (Execute pj) (IncRefs pj s)"
  proof (rule others_quiet)
    show "holds (Execute pj) j = 0" if "0 < R j" for j using that q by (cases "j = pj") auto
  qed (simp_all add: IncRefs_def sched_unfold)
qed

text \<open>A step that changes only the place of the worker.\<close>

lemma step_move:
  assumes g: "good F W R D p s" and m: "tokens p' = tokens p" "holds p' = holds p" "runs p' = runs p" "dead p' = dead p"
    and k: "pc_ok s p'" "\<And>j. solo p' j \<Longrightarrow> solo p j"
  shows "good F W R D p' s \<and> others R p s p' s"
proof
  show "good F W R D p' s"
    by (rule goodI) (use goodD [OF g] m k in simp_all)
  show "others R p s p' s"
    by (rule others_quiet) (simp_all add: m)
qed

text \<open>The counter of running workers is not part of the ledger.\<close>

lemma pc_ok_running: "pc_ok (s\<lparr>m_ulpRunning := g\<rparr>) = pc_ok s"
  by (rule ext, rename_tac x, case_tac x) (simp_all add: sched_unfold quiet_def)

lemma good_running: "good F W R D p (s\<lparr>m_ulpRunning := g\<rparr>) = good F W R D p s"
  by (simp add: good_def ledger_def entry_def sched_unfold pc_ok_running)

lemma others_running: "others R p s p' (s\<lparr>m_ulpRunning := g\<rparr>) = others R p s p' s"
  by (simp add: others_def stable_def sched_unfold)

lemma step_pre_execute:
  assumes g: "good F W R D (PreExecute pj) s"
  shows "good F W R D (PreExecuteRefs pj) (PreExecute_running s) \<and> others R (PreExecute pj) s (PreExecuteRefs pj) (PreExecute_running s)"
  unfolding PreExecute_running_def good_running others_running
  by (rule step_move [OF g]) (simp_all add: fun_eq_iff)

lemma step_post_running:
  assumes g: "good F W R D (PostRunning pj ejr) s"
  shows "good F W R D (ExecuteJobs_next ejr pj) (EjrPostExecute_running s)
    \<and> others R (PostRunning pj ejr) s (ExecuteJobs_next ejr pj) (EjrPostExecute_running s)"
  unfolding EjrPostExecute_running_def good_running others_running
  by (rule step_move [OF g]; cases ejr) (use goodD(2) [OF g] in \<open>simp_all add: fun_eq_iff\<close>)

lemma step_execute:
  assumes g: "good F W R D (Execute pj) s" and q: "m_pjq s pj = None"
  shows "good F W R D (Body pj False False) s \<and> others R (Execute pj) s (Body pj False False) s"
  by (rule step_move [OF g]) (use goodD(2) [OF g] q in \<open>auto simp: quiet_def\<close>)

lemma step_execute_queue:
  assumes g: "good F W R D (Execute pj) s" and q: "m_pjq s pj = Some pjq"
    and p: "p = (if EjqrAdd_completed pjq s then FExecute_next EjqrCompleted pj else Enqueue pj)"
  shows "good F W R D p s \<and> others R (Execute pj) s p s"
  by (rule step_move [OF g])
    (use goodD(2) [OF g] q in \<open>auto simp: p EjqrAdd_completed_def dying_def main_open_def fun_eq_iff one_def split: if_splits\<close>)

lemma step_enqueue_completed:
  assumes g: "good F W R D (Enqueue pj) s" and q: "m_pjq s pj = Some pjq" "m_fCompleted s pjq"
  shows "good F W R D (Post pj True) s \<and> others R (Enqueue pj) s (Post pj True) s"
  by (rule step_move [OF g]) (use goodD(2) [OF g] q in \<open>auto simp: dying_def one_def split: if_splits\<close>)

lemma step_enqueue_again:
  assumes g: "good F W R D (Enqueue pj) s" and q: "m_pjq s pj = Some pjq" "\<not> m_fCompleted s pjq" "m_pj s pjq = Some pj"
  shows "good F W R D (Body pj True False) (IncRefs pj s) \<and> others R (Enqueue pj) s (Body pj True False) (IncRefs pj s)"
proof
  have m: "main_of s pj"
    using goodD(8) [OF g] q by (auto simp: main_of_def queues_ok_def queue_ok_def split: if_splits)
  show "good F W R D (Body pj True False) (IncRefs pj s)"
  proof (rule goodI)
    show "entry (F j + tokens (Body pj True False) j) (W j + holds (Body pj True False) j) (R j + runs (Body pj True False) j)
      (D j + dead (Body pj True False) j) (IncRefs pj s) j" for j
      using goodD(1) [OF g, of j] by (cases "j = pj") (auto simp: entry_def sched_unfold IncRefs_def)
  qed (use goodD(2-8) [OF g] m in \<open>auto simp: sched_unfold IncRefs_def quiet_def one_def split: if_splits\<close>)
  show "others R (Enqueue pj) s (Body pj True False) (IncRefs pj s)"
    by (rule others_quiet) (simp_all add: IncRefs_def sched_unfold)
qed

lemma step_body_suspended:
  assumes g: "good F W R D (Body pj fMain fAdded) s"
  shows "good F W R D (if fMain then MainSuspended pj else Post pj False) s
    \<and> others R (Body pj fMain fAdded) s (if fMain then MainSuspended pj else Post pj False) s"
  by (rule step_move [OF g]) (use goodD(2) [OF g] in \<open>auto simp: fun_eq_iff one_def split: if_splits\<close>)

lemma step_body_completed:
  assumes g: "good F W R D (Body pj fMain False) s"
  shows "good F W R D (if fMain then Notify pj else Post pj True) s
    \<and> others R (Body pj fMain False) s (if fMain then Notify pj else Post pj True) s"
  by (rule step_move [OF g]) (use goodD(2) [OF g] in \<open>auto simp: fun_eq_iff one_def quiet_def dying_def split: if_splits\<close>)

lemma step_main_suspended:
  assumes g: "good F W R D (MainSuspended pj) s"
  shows "good F W R D (Post pj False) (snd (UlpDecrRefs pj s)) \<and> others R (MainSuspended pj) s (Post pj False) (snd (UlpDecrRefs pj s))"
proof
  show "good F W R D (Post pj False) (snd (UlpDecrRefs pj s))"
  proof (rule goodI)
    show "entry (F j + tokens (Post pj False) j) (W j + holds (Post pj False) j) (R j + runs (Post pj False) j)
      (D j + dead (Post pj False) j) (snd (UlpDecrRefs pj s)) j" for j
      using goodD(1) [OF g, of j] by (cases "j = pj") (auto simp: entry_def sched_unfold UlpDecrRefs_def)
  qed (use goodD(3-8) [OF g] in \<open>auto simp: sched_unfold UlpDecrRefs_def\<close>)
  show "others R (MainSuspended pj) s (Post pj False) (snd (UlpDecrRefs pj s))"
    by (rule others_quiet) (simp_all add: UlpDecrRefs_def sched_unfold)
qed

lemma step_post:
  assumes g: "good F W R D (Post pj c) s" and d: "UlpDecrRefs pj s = (ulRefs, s')"
    and e: "ejr = (if c then EjrCompleted else if ulRefs = 1 then EjrRunnable else EjrSuspended)"
  shows "good F W R D (PostRunning pj ejr) s' \<and> others R (Post pj c) s (PostRunning pj ejr) s'"
    (is "good F W R D ?p s' \<and> _")
proof
  have s': "ulRefs = m_ulpRefs s pj" "s' = s\<lparr>m_ulpRefs := (m_ulpRefs s)(pj := m_ulpRefs s pj - 1)\<rparr>"
    using d by (auto simp: UlpDecrRefs_def)
  have c: "ulRefs = 1" if c
    using that goodD(1,5) [OF g, of pj] goodD(2) [OF g] s' by (auto simp: entry_def quiet_def)
  note h = held_alive [OF g, of pj, simplified]
  show "good F W R D ?p s'"
  proof (rule goodI)
    show "entry (F j + tokens ?p j) (W j + holds ?p j) (R j + runs ?p j) (D j + dead ?p j) s' j" for j
      using goodD(1,4) [OF g, of j] c h by (cases "j = pj") (auto simp: entry_def sched_unfold s' e)
  qed (use goodD(2-8) [OF g] in \<open>auto simp: sched_unfold s'(2) e split: if_splits\<close>)
  show "others R (Post pj c) s ?p s'"
    by (rule others_quiet) (simp_all add: s'(2) sched_unfold)
qed

lemma step_resume:
  assumes g: "good F W R D (Resume pj) s"
  shows "good F W R D Loop (Schedule pj s) \<and> others R (Resume pj) s Loop (Schedule pj s)"
proof
  show "good F W R D Loop (Schedule pj s)"
  proof (rule goodI)
    show "entry (F j + tokens Loop j) (W j + holds Loop j) (R j + runs Loop j) (D j + dead Loop j) (Schedule pj s) j" for j
      using goodD(1) [OF g, of j] by (auto simp: entry_def sched_unfold Schedule_def)
  qed (use goodD(3-8) [OF g] in \<open>auto simp: sched_unfold Schedule_def\<close>)
  show "others R (Resume pj) s Loop (Schedule pj s)"
    by (rule others_quiet) (simp_all add: Schedule_def sched_unfold)
qed

lemma step_resume_no_parent:
  assumes g: "good F W R D (ResumeParent pj ret) s" and n: "m_pjParent s pj = None"
  shows "good F W R D (CountDown pj ret) s \<and> others R (ResumeParent pj ret) s (CountDown pj ret) s"
proof
  show "good F W R D (CountDown pj ret) s"
  proof (rule goodI)
    show "entry (F j + tokens (CountDown pj ret) j) (W j + holds (CountDown pj ret) j) (R j + runs (CountDown pj ret) j)
      (D j + dead (CountDown pj ret) j) s j" for j
      using goodD(1) [OF g, of j] n by (cases "j = pj") (auto simp: entry_def)
  qed (use goodD(2-8) [OF g] in auto)
qed (rule others_quiet; simp)

lemma step_resume_push:
  assumes g: "good F W R D (ResumePush p pj ret) s"
  shows "good F W R D (CountDown pj ret) (Schedule p s) \<and> others R (ResumePush p pj ret) s (CountDown pj ret) (Schedule p s)"
proof
  show "good F W R D (CountDown pj ret) (Schedule p s)"
  proof (rule goodI)
    show "entry (F j + tokens (CountDown pj ret) j) (W j + holds (CountDown pj ret) j) (R j + runs (CountDown pj ret) j)
      (D j + dead (CountDown pj ret) j) (Schedule p s) j" for j
      using goodD(1) [OF g, of j] by (auto simp: entry_def sched_unfold Schedule_def ac_simps)
  qed (use goodD(2-8) [OF g] in \<open>auto simp: sched_unfold Schedule_def\<close>)
  show "others R (ResumePush p pj ret) s (CountDown pj ret) (Schedule p s)"
    by (rule others_quiet) (simp_all add: Schedule_def sched_unfold)
qed

lemma step_notify_end:
  assumes g: "good F W R D (NotifyLoop pj) s" and q: "m_pjq s pj = Some pjq" "m_listjQueued s pjq = []"
  shows "good F W R D (Post pj True) s \<and> others R (NotifyLoop pj) s (Post pj True) s"
  by (rule step_move [OF g])
    (use goodD(2) [OF g] q in \<open>auto simp: quiet_def dying_def main_done_def queue_refs_def one_def split: if_splits\<close>)

lemma step_notify_decr:
  assumes g: "good F W R D (NotifyDecr pj pj') s" and d: "UlpDecrRefs pj' s = (ulpRefs, s')"
  shows "good F W R D (if ulpRefs = 1 then ResumeParent pj' (ToNotify pj) else NotifyLoop pj) s'
    \<and> others R (NotifyDecr pj pj') s (if ulpRefs = 1 then ResumeParent pj' (ToNotify pj) else NotifyLoop pj) s'"
    (is "good F W R D ?p s' \<and> _")
proof
  have s': "ulpRefs = m_ulpRefs s pj'" "s' = s\<lparr>m_ulpRefs := (m_ulpRefs s)(pj' := m_ulpRefs s pj' - 1)\<rparr>"
    using d by (auto simp: UlpDecrRefs_def)
  note h = held_alive [OF g, of pj', simplified]
  have self: "ulpRefs \<noteq> 1" if "pj' = pj"
    using that goodD(1) [OF g, of pj] s' by (auto simp: entry_def)
  show "good F W R D ?p s'"
  proof (rule goodI)
    show "entry (F j + tokens ?p j) (W j + holds ?p j) (R j + runs ?p j) (D j + dead ?p j) s' j" for j
      using goodD(1,4) [OF g, of j] self h by (cases "j = pj'") (auto simp: entry_def sched_unfold s' one_def split: if_splits)
  qed (use goodD(2-8) [OF g] in \<open>auto simp: sched_unfold s'(2) one_def split: if_splits\<close>)
  show "others R (NotifyDecr pj pj') s ?p s'"
    by (rule others_quiet) (auto simp: s'(2) sched_unfold)
qed

lemma step_notify:
  assumes g: "good F W R D (Notify pj) s" and q: "m_pjq s pj = Some pjq"
  shows "good F W R D (NotifyLoop pj) (s\<lparr>m_fCompleted := (m_fCompleted s)(pjq := True)\<rparr>)
    \<and> others R (Notify pj) s (NotifyLoop pj) (s\<lparr>m_fCompleted := (m_fCompleted s)(pjq := True)\<rparr>)"
    (is "good F W R D _ ?s \<and> _")
proof
  have m: "\<not> m_fCompleted s pjq" "m_listjQueued s pjq = pj # tl (m_listjQueued s pjq)"
    using goodD(2) [OF g] q by (auto simp: main_of_def)
  have pj: "m_pj s pjq = Some pj" using goodD(8) [OF g] m by (simp add: queues_ok_def queue_ok_def) (metis list.sel(1) list.distinct(1))
  have qr: "queue_refs ?s j = queue_refs s j + one pj j" for j
    using q m count_list.simps(2) [of pj "tl (m_listjQueued s pjq)" j]
    by (cases "j = pj") (auto simp: queue_refs_def split: option.split)
  have R0: "R pj = 0" using entryD(5) [OF goodD(1) [OF g, of pj]] by simp
  show "good F W R D (NotifyLoop pj) ?s"
  proof (rule goodI)
    show "entry (F j + tokens (NotifyLoop pj) j) (W j + holds (NotifyLoop pj) j) (R j + runs (NotifyLoop pj) j)
      (D j + dead (NotifyLoop pj) j) ?s j" for j
      using goodD(1) [OF g, of j] by (cases "j = pj") (auto simp: entry_def sched_unfold qr)
    show "queues_ok ?s" using goodD(8) [OF g] by (simp add: queues_ok_def queue_ok_def)
    show "pc_ok ?s (NotifyLoop pj)" using goodD(2) [OF g] q pj by (simp add: refs_unfold main_done_def quiet_def)
  qed (use goodD(3-7) [OF g] in auto)
  have "main_of ?s j" if mj: "main_of s j" and r: "0 < R j" for j
  proof -
    obtain q' where q': "m_pjq s j = Some q'" "\<not> m_fCompleted s q'" "m_listjQueued s q' \<noteq> []" "hd (m_listjQueued s q') = j"
      using mj by (auto simp: main_of_def)
    have "q' \<noteq> pjq" using q'(4) m(2) R0 r by (metis less_irrefl list.sel(1))
    then show ?thesis using q' by (simp add: main_of_def)
  qed
  then show "others R (Notify pj) s (NotifyLoop pj) ?s"
    using R0 pj by (auto simp: others_def stable_def qr refs_unfold one_def main_open_def)
qed

lemma step_notify_next:
  assumes g: "good F W R D (NotifyLoop pj) s" and q: "m_pjq s pj = Some pjq" "m_listjQueued s pjq = pj' # pjs"
  shows "good F W R D (NotifyDecr pj pj') (s\<lparr>m_listjQueued := (m_listjQueued s)(pjq := pjs)\<rparr>)
    \<and> others R (NotifyLoop pj) s (NotifyDecr pj pj') (s\<lparr>m_listjQueued := (m_listjQueued s)(pjq := pjs)\<rparr>)"
    (is "good F W R D _ ?s \<and> _")
proof
  have c: "m_fCompleted s pjq" "m_pj s pjq = Some pj" using goodD(2) [OF g] q by (auto simp: main_done_def)
  have p': "m_pjq s pj' = Some pjq" using goodD(8) [OF g] q(2) by (simp add: queues_ok_def queue_ok_def)
  have qr: "queue_refs s j = queue_refs ?s j + one pj' j" for j
    using q c p' by (cases "j = pj'") (auto simp: queue_refs_def split: option.split)
  have R0: "R pj = 0" using entryD(5) [OF goodD(1) [OF g, of pj]] by simp
  have solo: "W pj = 0" using goodD(5) [OF g, of pj] by simp
  show "good F W R D (NotifyDecr pj pj') ?s"
  proof (rule goodI)
    show "entry (F j + tokens (NotifyDecr pj pj') j) (W j + holds (NotifyDecr pj pj') j) (R j + runs (NotifyDecr pj pj') j)
      (D j + dead (NotifyDecr pj pj') j) ?s j" for j
      using goodD(1) [OF g, of j] by (auto simp: entry_def sched_unfold qr)
    have "queue_ok ?s q" for q using goodD(8) [OF g] q c(1) unfolding queues_ok_def
      by (cases "q = pjq") (auto simp: queue_ok_def dest: spec [of _ q])
    then show "queues_ok ?s" by (simp add: queues_ok_def)
    show "pc_ok ?s (NotifyDecr pj pj')" using goodD(2) [OF g] p' c by (simp add: sched_unfold dying_def)
  qed (use goodD(3-7) [OF g] in auto)
  have "main_of ?s j" if "main_of s j" for j
    using that c unfolding main_of_def by auto
  moreover have "j \<noteq> pj'" if "0 < R j" "queue_refs s j = 0 \<or> main_done s j" for j
    using that R0 p' c qr [of pj'] by (auto simp: main_done_def)
  ultimately show "others R (NotifyLoop pj) s (NotifyDecr pj pj') ?s"
    using R0 qr by (auto simp: others_def stable_def refs_unfold main_unfold one_def)
qed

lemma step_enqueue_new:
  assumes g: "good F W R D (Enqueue pj) s" and q: "m_pjq s pj = Some pjq" "\<not> m_fCompleted s pjq" "m_pj s pjq \<noteq> Some pj"
    and s': "s' = s\<lparr>m_listjQueued := (m_listjQueued s)(pjq := m_listjQueued s pjq @ [pj])\<rparr>" "fOwner = (hd (m_listjQueued s' pjq) = pj)"
    "s'' = IncRefs pj (if fOwner then s'\<lparr>m_pj := (m_pj s')(pjq := Some pj)\<rparr> else s')"
  shows "good F W R D (if fOwner then Body pj True False else Post pj False) s''
    \<and> others R (Enqueue pj) s (if fOwner then Body pj True False else Post pj False) s''" (is "good F W R D ?p s'' \<and> _")
proof
  let ?xs = "m_listjQueued s pjq"
  have qo: "queue_ok s pjq" using goodD(8) [OF g] by (simp add: queues_ok_def)
  have pj: "pj \<notin> set ?xs"
  proof
    assume "pj \<in> set ?xs"
    then have "hd ?xs = pj" using goodD(2) [OF g] q by (cases ?xs) (auto simp: quiet_def queue_refs_def count_list_0_iff)
    then show False using qo q \<open>pj \<in> set ?xs\<close> by (auto simp: queue_ok_def split: if_splits)
  qed
  have fo: "fOwner \<longleftrightarrow> ?xs = []" using pj by (cases ?xs) (auto simp: s')
  have f: "m_listjQueued s'' = (m_listjQueued s)(pjq := ?xs @ [pj])" "m_pjq s'' = m_pjq s" "m_fCompleted s'' = m_fCompleted s"
    "m_pj s'' = (if fOwner then (m_pj s)(pjq := Some pj) else m_pj s)" "jobs s'' = jobs s" "attached s'' = attached s"
    "m_pjParent s'' = m_pjParent s" "waits s'' = waits s" "m_ulpTotal s'' = m_ulpTotal s"
    "m_ulpRefs s'' = (m_ulpRefs s)(pj := m_ulpRefs s pj + 1)"
    by (simp_all add: s' IncRefs_def waits_def fun_eq_iff)
  have cr: "child_refs s'' = child_refs s" by (simp add: child_refs_def f fun_eq_iff)
  have qr: "queue_refs s'' j = queue_refs s j + (if fOwner then 0 else one pj j)" for j
    using q fo pj by (cases ?xs) (auto simp: queue_refs_def f one_def split: option.split)
  have mo: "main_of s j \<Longrightarrow> main_of s'' j" for j
    using q by (auto simp: main_of_def f)
  have mp: "main_of s'' pj" if fOwner using that q fo by (auto simp: main_of_def f)
  have alive: "pj \<in> jobs s" using held_alive(2) [OF g, of pj] by simp
  show "good F W R D ?p s''"
  proof (rule goodI)
    show "entry (F j + tokens ?p j) (W j + holds ?p j) (R j + runs ?p j) (D j + dead ?p j) s'' j" for j
      using goodD(1) [OF g, of j] by (cases "j = pj") (auto simp: entry_def f cr qr)
    have "queue_ok s'' q'" for q' using goodD(8) [OF g] qo q pj fo alive unfolding queues_ok_def
      by (cases "q' = pjq") (auto simp: queue_ok_def f dest: spec [of _ q'])
    then show "queues_ok s''" by (simp add: queues_ok_def)
    show "pc_ok s'' ?p" using goodD(2) [OF g] mp by (auto simp: qr cr quiet_def)
  qed (use goodD(3-7) [OF g] in \<open>auto simp: f one_def split: if_splits\<close>)
  have R0: "R pj = 0" using entryD(5) [OF goodD(1) [OF g, of pj]] by simp
  have "stable (Enqueue pj) s ?p s'' j" if "0 < R j" for j
  proof -
    have "j \<noteq> pj" using R0 that by auto
    then have "main_open s j \<Longrightarrow> main_open s'' j" by (auto simp: main_open_def f split: if_splits)
    with \<open>j \<noteq> pj\<close> show ?thesis by (simp add: stable_def qr cr mo)
  qed
  then show "others R (Enqueue pj) s ?p s''" using q by (simp add: others_def f)
qed

lemma step_enqueue:
  assumes g: "good F W R D (Enqueue pj) s" and q: "m_pjq s pj = Some pjq" "EjqrAdd pjq pj s = (ejqr, s')"
    and p: "p = FExecute_next ejqr pj"
  shows "good F W R D p s' \<and> others R (Enqueue pj) s p s'"
proof -
  consider "m_pj s pjq = Some pj" | "m_pj s pjq \<noteq> Some pj" "m_fCompleted s pjq" | "m_pj s pjq \<noteq> Some pj" "\<not> m_fCompleted s pjq" by blast
  then show ?thesis
  proof cases
    case 1
    then have "\<not> m_fCompleted s pjq" using goodD(2) [OF g] q(1) by (simp add: main_open_def)
    then show ?thesis using 1 step_enqueue_again [OF g q(1)] q(2) p by (auto simp: EjqrAdd_def)
  next
    case 2 then show ?thesis using step_enqueue_completed [OF g q(1)] q(2) p by (auto simp: EjqrAdd_def)
  next
    case 3 then show ?thesis using step_enqueue_new [OF g q(1) _ _ refl refl refl] q(2) p
      by (auto simp: EjqrAdd_def Let_def split: if_splits)
  qed
qed

lemma attached_alive: "good F W R D p s \<Longrightarrow> attached s \<subseteq> jobs s"
  using entryD(6) [OF goodD(1)] by blast

lemma step_resume_parent:
  assumes g: "good F W R D (ResumeParent pj ret) s" and par: "m_pjParent s pj = Some pjParent"
    and d: "UlpDecrRefs pjParent (s\<lparr>attached := attached s - {pj}\<rparr>) = (ulpRefs, s')"
  shows "good F W R D (if ulpRefs = 1 then ResumePush pjParent pj ret else CountDown pj ret) s'
    \<and> others R (ResumeParent pj ret) s (if ulpRefs = 1 then ResumePush pjParent pj ret else CountDown pj ret) s'
    \<and> pj \<in> attached s \<and> 0 < m_ulpRefs s pjParent" (is "good F W R D ?p s' \<and> _")
proof -
  have s': "ulpRefs = m_ulpRefs s pjParent"
    "s' = s\<lparr>attached := attached s - {pj}, m_ulpRefs := (m_ulpRefs s)(pjParent := m_ulpRefs s pjParent - 1)\<rparr>"
    using d by (auto simp: UlpDecrRefs_def)
  note pl = place_quiet [OF g, of pj, simplified]
  have D0: "D pj = 0" using pl(6) goodD(4) [OF g, of pj] by simp
  have att: "pj \<in> attached s" using entryD(6) [OF goodD(1) [OF g, of pj]] pl(5) par D0 by simp
  have fin: "finite (attached s)" using attached_alive [OF g] goodD(6) [OF g] finite_subset by blast
  let ?C = "\<lambda>j. {i \<in> attached s. m_pjParent s i = Some j}"
  have C: "{i \<in> attached s - {pj}. m_pjParent s i = Some j} = (if j = pjParent then ?C j - {pj} else ?C j)" for j
    using par by auto
  have cr: "child_refs s j = child_refs s' j + one pjParent j" for j
  proof -
    have "child_refs s' j = card (if j = pjParent then ?C j - {pj} else ?C j)"
      unfolding C [symmetric] by (simp add: child_refs_def s')
    moreover have "Suc (card (?C pjParent - {pj})) = card (?C pjParent)"
      using fin att par by (intro card_Suc_Diff1) auto
    ultimately show ?thesis by (cases "j = pjParent") (simp_all add: child_refs_def)
  qed
  note h = held_alive [OF g, of pjParent]
  have alive: "0 < m_ulpRefs s pjParent" "pjParent \<in> jobs s" "F pjParent = 0" "tokens (ResumeParent pj ret) pjParent = 0"
    "waits s pjParent = 0"
    using h cr [of pjParent] by simp_all
  have ne: "pjParent \<noteq> pj" using alive(1) pl(1) by auto
  have qr: "queue_refs s' = queue_refs s" by (simp add: s' sched_unfold)
  have "good F W R D ?p s'"
  proof (rule goodI)
    show "entry (F j + tokens ?p j) (W j + holds ?p j) (R j + runs ?p j) (D j + dead ?p j) s' j" for j
    proof -
      consider "j = pj" | "j = pjParent" | "j \<noteq> pj" "j \<noteq> pjParent" by blast
      then show ?thesis
      proof cases
        case 1 then show ?thesis using goodD(1) [OF g, of j] ne cr [of pj] qr by (auto simp: entry_def waits_def s')
      next
        case 2 then show ?thesis using goodD(1) [OF g, of j] ne cr [of pjParent] qr alive by (auto simp: entry_def waits_def s')
      next
        case 3 then show ?thesis using goodD(1) [OF g, of j] cr [of j] qr by (auto simp: entry_def waits_def s')
      qed
    qed
    show "pc_ok s' ?p" using goodD(2) [OF g] cr by (cases ret) (auto simp: s' sched_unfold)
  qed (use goodD(3-8) [OF g] in \<open>auto simp: s' sched_unfold split: if_splits\<close>)
  moreover have "others R (ResumeParent pj ret) s ?p s'"
    using cr by (auto simp: others_def stable_def s' sched_unfold)
  ultimately show ?thesis using att alive by blast
qed

lemma step_count_down:
  assumes g: "good F W R D (CountDown pj ret) s"
  shows "good F W R D (return_pc ret) (s\<lparr>m_ulpTotal := m_ulpTotal s - 1, jobs := jobs s - {pj}\<rparr>)
    \<and> others R (CountDown pj ret) s (return_pc ret) (s\<lparr>m_ulpTotal := m_ulpTotal s - 1, jobs := jobs s - {pj}\<rparr>)"
    (is "good F W R D ?p ?s \<and> _")
proof
  note pl = place_quiet [OF g, of pj, simplified]
  have r: "tokens ?p = (\<lambda>_. 0)" "holds ?p = ret_job ret" "runs ?p = ret_job ret" "dead ?p = (\<lambda>_. 0)"
    by (cases ret; simp add: fun_eq_iff)+
  show "good F W R D ?p ?s"
  proof (rule goodI)
    show "entry (F j + tokens ?p j) (W j + holds ?p j) (R j + runs ?p j) (D j + dead ?p j) ?s j" for j
      using goodD(1) [OF g, of j] pl by (cases "j = pj") (auto simp: entry_def sched_unfold r)
    have "queue_ok ?s q" for q
    proof -
      have qo: "queue_ok s q" using goodD(8) [OF g] by (simp add: queues_ok_def)
      have "hd (m_listjQueued s q) \<noteq> pj" if "\<not> m_fCompleted s q" "m_listjQueued s q \<noteq> []"
        using qo goodD(2) [OF g] that hd_in_set [OF that(2)] by (auto simp: queue_ok_def dying_def)
      then show ?thesis using qo by (simp add: queue_ok_def)
    qed
    then show "queues_ok ?s" by (simp add: queues_ok_def)
    show "pc_ok ?s ?p" using goodD(2) [OF g] by (cases ret) (auto simp: sched_unfold)
    show "W j = 0" if "solo ?p j" for j using goodD(5) [OF g, of j] that by (cases ret) (auto split: if_splits)
    show "m_ulpTotal ?s = card (jobs ?s)" using goodD(6,7) [OF g] pl(5) by simp
  qed (use goodD(3,4,6) [OF g] in auto)
  show "others R (CountDown pj ret) s ?p ?s"
    by (auto simp: others_def stable_def sched_unfold r)
qed

lemma step_body_add:
  assumes g: "good F W R D (Body pj fMain fAdded) s" and new: "c \<notin> jobs s" and s': "s' = Add c (Some pj) pjq s"
  shows "good F W R D (Body pj fMain True) s' \<and> others R (Body pj fMain fAdded) s (Body pj fMain True) s'"
    (is "good F W R D ?p s' \<and> _")
proof
  note e = entryD [OF goodD(1) [OF g, of c]]
  have z: "F c = 0" "waits s c = 0" "m_ulpRefs s c = 0" "c \<notin> attached s" using e(2,4,6) new by auto
  then have z': "W c = 0" "holds ?p c = 0" "queue_refs s c = 0" "child_refs s c = 0" "D c = 0" "R c = 0" "runs ?p c = 0"
    using e(1) goodD(3,4) [OF g, of c] runs_le_holds [of "Body pj fMain fAdded" c] by auto
  have alive: "pj \<in> jobs s" using held_alive(2) [OF g, of pj] by simp
  have ne: "c \<noteq> pj" using alive new by auto
  have nq: "c \<notin> set (m_listjQueued s q)" for q
  proof
    assume c: "c \<in> set (m_listjQueued s q)"
    have qo: "queue_ok s q" using goodD(8) [OF g] by (simp add: queues_ok_def)
    have "m_pjq s c = Some q" using qo c by (simp add: queue_ok_def)
    then have "\<not> m_fCompleted s q \<and> hd (m_listjQueued s q) = c" using c z'(3)
      by (cases "m_listjQueued s q") (auto simp: queue_refs_def count_list_0_iff split: if_splits)
    then show False using qo c new by (auto simp: queue_ok_def split: if_splits)
  qed
  have f: "m_listjQueued s' = m_listjQueued s" "m_pjq s' = (m_pjq s)(c := pjq)" "m_fCompleted s' = m_fCompleted s"
    "m_pj s' = m_pj s" "jobs s' = insert c (jobs s)" "attached s' = insert c (attached s)"
    "m_pjParent s' = (m_pjParent s)(c := Some pj)" "\<And>j. waits s' j = waits s j + one c j" "m_ulpTotal s' = m_ulpTotal s + 1"
    "m_ulpRefs s' = (m_ulpRefs s)(pj := m_ulpRefs s pj + 1)"
    using ne by (simp_all add: s' Add_def IncRefs_def Schedule_def waits_def one_def Let_def)
  have fin: "finite (attached s)" using attached_alive [OF g] goodD(6) [OF g] finite_subset by blast
  let ?C = "\<lambda>j. {i \<in> attached s. m_pjParent s i = Some j}"
  have C: "{i \<in> insert c (attached s). ((m_pjParent s)(c := Some pj)) i = Some j} = (if j = pj then insert c (?C j) else ?C j)" for j
    using z(4) by auto
  have cr: "child_refs s' j = child_refs s j + one pj j" for j
    unfolding child_refs_def f(6,7) C using fin z(4) by (simp add: one_def)
  have qr: "queue_refs s' j = queue_refs s j" for j
  proof (cases "j = c")
    case True
    have "c \<notin> set (tl (m_listjQueued s q))" for q using nq [of q] by (cases "m_listjQueued s q") auto
    then show ?thesis using True nq z'(3) by (auto simp: queue_refs_def f count_list_0_iff split: option.split)
  next
    case False
    then show ?thesis by (simp add: queue_refs_def f split: option.split)
  qed
  have mo: "main_of s' j = main_of s j" if "j \<noteq> c" for j using that by (simp add: main_of_def f)
  show "good F W R D ?p s'"
  proof (rule goodI)
    show "entry (F j + tokens ?p j) (W j + holds ?p j) (R j + runs ?p j) (D j + dead ?p j) s' j" for j
    proof (cases "j = c")
      case True
      then show ?thesis using z z' ne cr [of c] qr [of c] by (simp add: entry_def f)
    next
      case False
      then show ?thesis using goodD(1) [OF g, of j] cr [of j] qr [of j] by (cases "j = pj") (auto simp: entry_def f split: if_splits)
    qed
    have "queue_ok s' q" for q using goodD(8) [OF g] nq [of q] unfolding queues_ok_def
      by (auto simp: queue_ok_def f dest: spec [of _ q])
    then show "queues_ok s'" by (simp add: queues_ok_def)
    show "pc_ok s' ?p" using goodD(2) [OF g] ne by (simp add: qr mo f)
    show "m_ulpTotal s' = card (jobs s')" "finite (jobs s')" using goodD(6,7) [OF g] new by (simp_all add: f)
  qed (use goodD(3-5) [OF g] in auto)
  have R0: "R pj = 0" using entryD(5) [OF goodD(1) [OF g, of pj]] by simp
  have "stable (Body pj fMain fAdded) s ?p s' j" if "0 < R j" for j
  proof -
    have "j \<noteq> c" "j \<noteq> pj" using z' R0 that by auto
    then show ?thesis by (simp add: stable_def qr cr mo) (simp add: main_open_def f)
  qed
  then show "others R (Body pj fMain fAdded) s ?p s'" using new by (auto simp: others_def f)
qed

text \<open>Every step of a worker.\<close>

lemma wstep_good:
  assumes w: "wstep p s p' s'" and g: "good F W R D p s"
  shows "good F W R D p' s'" "others R p s p' s'"
proof -
  have "good F W R D p' s' \<and> others R p s p' s'"
    using w
  proof cases
    case started then show ?thesis using step_move [of F W R D p s p'] g by (simp add: fun_eq_iff)
  next
    case retrieve_none
    then have "s' = s" by (simp add: PjRetrieve_def split: list.splits)
    then show ?thesis using step_move [of F W R D p s p'] g retrieve_none by (simp add: fun_eq_iff)
  next
    case (retrieve pj)
    then show ?thesis using step_retrieve g by (auto simp: PjRetrieve_def split: list.splits)
  next
    case (execute_queue pj pjq)
    then show ?thesis using step_execute_queue [of F W R D pj s pjq p'] g by simp
  next
    case (enqueue pj pjq ejqr)
    then show ?thesis using step_enqueue [of F W R D pj s pjq ejqr s' p'] g by simp
  next
    case (notify_end pj pjq)
    then show ?thesis using step_notify_end [of F W R D pj s pjq] g
      by (simp add: NotifyCompleted_remove_def split: list.splits)
  next
    case (notify_next pj pjq pj')
    then show ?thesis using step_notify_next [of F W R D pj s pjq pj'] g
      by (auto simp: NotifyCompleted_remove_def split: list.splits)
  next
    case (post pj c ejr)
    obtain u v where d: "UlpDecrRefs pj s = (u, v)" by (cases "UlpDecrRefs pj s")
    then show ?thesis using step_post [of F W R D pj c s u v ejr] g post by (simp add: EjrPostExecute_def)
  next
    case (resume_parent pj pjParent fResume ret)
    obtain u v where d: "UlpDecrRefs pjParent (s\<lparr>attached := attached s - {pj}\<rparr>) = (u, v)"
      by (cases "UlpDecrRefs pjParent (s\<lparr>attached := attached s - {pj}\<rparr>)")
    then show ?thesis using step_resume_parent [of F W R D pj ret s pjParent u v] g resume_parent
      by (auto simp: FResumeParent_def split: if_splits)
  qed (use g in \<open>simp_all only: step_pre_execute step_pre_execute_refs step_post_running step_execute step_body_add step_body_suspended
    step_body_completed step_main_suspended step_notify step_notify_decr NotifyCompleted_mark_def Complete_def
    step_resume step_resume_no_parent step_resume_push step_count_down\<close>)
  then show "good F W R D p' s'" "others R p s p' s'" by blast+
qed

text \<open>The list of waiting jobs is used as the stack that \<open>SyncList\<close> provides.\<close>

lemma wstep_stack:
  assumes "wstep p s p' s'"
  shows "m_listjlWaiting s' = m_listjlWaiting s \<or> (\<exists>x. stack_op x (m_listjlWaiting s) = Some (m_listjlWaiting s'))"
  using assms
proof cases
  case (retrieve pj)
  then have "stack_op (OpPop (Some pj)) (m_listjlWaiting s) = Some (m_listjlWaiting s')"
    by (auto simp: PjRetrieve_def split: list.splits)
  then show ?thesis by blast
next
  case (body_add c pj fMain fAdded pjq)
  then have "stack_op (OpPush c) (m_listjlWaiting s) = Some (m_listjlWaiting s')"
    by (simp add: Add_def Schedule_def IncRefs_def Let_def)
  then show ?thesis by blast
next
  case (resume pj)
  then have "stack_op (OpPush pj) (m_listjlWaiting s) = Some (m_listjlWaiting s')" by (simp add: Schedule_def)
  then show ?thesis by blast
next
  case (resume_push q pj ret)
  then have "stack_op (OpPush q) (m_listjlWaiting s) = Some (m_listjlWaiting s')" by (simp add: Schedule_def)
  then show ?thesis by blast
qed (auto simp: PjRetrieve_def IncRefs_def UlpDecrRefs_def EjqrAdd_def NotifyCompleted_mark_def NotifyCompleted_remove_def
  EjrPostExecute_def FResumeParent_def Complete_def PreExecute_running_def EjrPostExecute_running_def Let_def split: list.splits if_splits)

end
