(* ===== verification/SchedulerRuns.thy ===== *)
theory SchedulerRuns
  imports Scheduler
begin

text \<open>
  Runs of the scheduler with any number of workers: the ledger of the theory \<open>Scheduler\<close> holds for
  each worker against the sums of the others, so that its assertions hold in every interleaving, no
  job is run by two workers, and workers go to rest only when all jobs are completed or jobs wait
  for each other in a cycle.
\<close>

section \<open>Sums over the other workers\<close>

definition rest :: "nat \<Rightarrow> (nat \<Rightarrow> wpc) \<Rightarrow> nat \<Rightarrow> (wpc \<Rightarrow> nat \<Rightarrow> nat) \<Rightarrow> nat \<Rightarrow> nat" where
  "rest n pcs t f j = (\<Sum>u \<in> {..<n} - {t}. f (pcs u) j)"

definition sched_ok :: "nat \<Rightarrow> (nat \<Rightarrow> wpc) \<Rightarrow> sched \<Rightarrow> bool" where
  "sched_ok n pcs s \<longleftrightarrow> (\<forall>t < n. good (rest n pcs t tokens) (rest n pcs t holds) (rest n pcs t runs) (rest n pcs t dead) (pcs t) s)"

lemma rest_same [simp]: "rest n (pcs(t := p)) t f = rest n pcs t f"
  by (simp add: rest_def fun_eq_iff)

definition rest2 :: "nat \<Rightarrow> (nat \<Rightarrow> wpc) \<Rightarrow> nat \<Rightarrow> nat \<Rightarrow> (wpc \<Rightarrow> nat \<Rightarrow> nat) \<Rightarrow> nat \<Rightarrow> nat" where
  "rest2 n pcs t u f j = (\<Sum>v \<in> {..<n} - {t, u}. f (pcs v) j)"

lemma rest_split: "u < n \<Longrightarrow> t \<noteq> u \<Longrightarrow> rest n pcs t f j = f (pcs u) j + rest2 n pcs t u f j"
  unfolding rest_def rest2_def using sum.remove [of "{..<n} - {t}" u "\<lambda>v. f (pcs v) j"]
  by (simp add: Diff_insert2 [of _ t "{u}"])

lemma rest2_upd [simp]: "rest2 n (pcs(t := p)) u t = rest2 n pcs u t"
  by (simp add: rest2_def fun_eq_iff)

lemma rest2_sym: "rest2 n pcs u t = rest2 n pcs t u"
  by (simp add: rest2_def fun_eq_iff insert_commute)

lemma rest_other:
  assumes "t < n" "u < n" "t \<noteq> u"
  shows "rest n (pcs(t := p)) u f j + f (pcs t) j = rest n pcs u f j + f p j"
    "rest n (pcs(t := p)) u f j + f (pcs u) j = rest n pcs t f j + f p j"
  using rest_split [of t n u "pcs(t := p)" f j] rest_split [of t n u pcs f j] rest_split [of u n t pcs f j] assms
  by (simp_all add: rest2_sym [of n pcs t u])

lemma rest_ge: "u < n \<Longrightarrow> t \<noteq> u \<Longrightarrow> f (pcs u) j \<le> rest n pcs t f j"
  by (simp add: rest_split)

lemma rest_mono: "(\<And>p. f p j \<le> g p j) \<Longrightarrow> rest n pcs t f j \<le> rest n pcs t g j"
  by (simp add: rest_def sum_mono)

lemma ledger_cong: "ledger F W R D s \<Longrightarrow> (\<And>j. F' j = F j) \<Longrightarrow> (\<And>j. W' j = W j) \<Longrightarrow> (\<And>j. R' j = R j) \<Longrightarrow> (\<And>j. D' j = D j)
   \<Longrightarrow> ledger F' W' R' D' s"
  by (simp add: ledger_def)

text \<open>What another worker knows stays true.\<close>

lemma pc_ok_others:
  assumes o: "others R p s p' s'" and k: "pc_ok s x" and r: "\<And>j. runs x j \<le> R j"
    and a: "\<And>j. 0 < tokens x j + holds x j \<Longrightarrow> j \<in> jobs s"
  shows "pc_ok s' x"
proof -
  have st: "stable p s p' s' j" if "0 < runs x j" for j using o that r [of j] by (simp add: others_def)
  have mq: "m_pjq s' j = m_pjq s j" if "0 < tokens x j + holds x j" for j using o a [OF that] by (simp add: others_def)
  have c: "m_fCompleted s q \<Longrightarrow> m_fCompleted s' q \<and> m_pj s' q = m_pj s q" for q using o by (simp add: others_def)
  have dy: "dying s' j" if "dying s j" "0 < tokens x j + holds x j" for j using that mq c by (simp add: dying_def)
  have md: "main_done s' j" if "main_done s j" "0 < holds x j" for j using that mq [of j] c by (auto simp: main_done_def)
  have rt: "ret_ok s' ret" if "ret_ok s ret" "\<And>j. ret_job ret j \<le> runs x j" for ret
  proof (cases ret)
    case (ToNotify j)
    have "0 < runs x j" using that(2) [of j] ToNotify by simp
    then show ?thesis using that(1) ToNotify st [of j] md [of j] runs_le_holds [of x j] by (simp add: stable_def)
  qed simp
  show ?thesis
  proof (cases x)
    case (Execute j) then show ?thesis using k st [of j] by (simp add: stable_def quiet_def)
  next
    case (Enqueue j) then show ?thesis using k st [of j] by (simp add: stable_def quiet_def)
  next
    case (PostRunning j ejr) then show ?thesis using k dy [of j] by (cases ejr) simp_all
  next
    case (Body j m a) then show ?thesis using k st [of j] mq [of j] by (auto simp: stable_def)
  next
    case (MainSuspended j) then show ?thesis using k st [of j] by (simp add: stable_def)
  next
    case (Notify j) then show ?thesis using k st [of j] by (simp add: stable_def quiet_def)
  next
    case (NotifyLoop j) then show ?thesis using k st [of j] md [of j] by (simp add: stable_def)
  next
    case (NotifyDecr j i) then show ?thesis using k st [of j] md [of j] dy [of i] by (simp add: stable_def)
  next
    case (Post j r) then show ?thesis using k st [of j] dy [of j] by (auto simp: stable_def quiet_def)
  next
    case (ResumeParent i ret) then show ?thesis using k dy [of i] rt [of ret] by simp
  next
    case (ResumePush i j ret) then show ?thesis using k dy [of j] rt [of ret] by simp
  next
    case (CountDown i ret) then show ?thesis using k dy [of i] rt [of ret] by simp
  qed simp_all
qed

lemma solo_runs: "solo x j \<Longrightarrow> 0 < runs x j"
  by (cases x) auto

lemma solo_known: "solo x j \<Longrightarrow> pc_ok s x \<Longrightarrow> queue_refs s j = 0 \<or> main_done s j"
proof (cases x)
  case (ResumeParent i ret) then show "solo x j \<Longrightarrow> pc_ok s x \<Longrightarrow> ?thesis" by (cases ret) (auto simp: one_def split: if_splits)
next
  case (ResumePush p i ret) then show "solo x j \<Longrightarrow> pc_ok s x \<Longrightarrow> ?thesis" by (cases ret) (auto simp: one_def split: if_splits)
next
  case (CountDown i ret) then show "solo x j \<Longrightarrow> pc_ok s x \<Longrightarrow> ?thesis" by (cases ret) (auto simp: one_def split: if_splits)
qed (auto simp: quiet_def one_def split: if_splits)

lemma work_ok:
  assumes ok: "sched_ok n pcs s" and t: "t < n" and w: "wstep (pcs t) s p' s'"
  shows "sched_ok n (pcs(t := p')) s'"
  unfolding sched_ok_def
proof (intro allI impI)
  fix u assume u: "u < n"
  have g: "good (rest n pcs t tokens) (rest n pcs t holds) (rest n pcs t runs) (rest n pcs t dead) (pcs t) s"
    using ok t by (simp add: sched_ok_def)
  note g' = wstep_good [OF w g]
  let ?f = "rest n (pcs(t := p')) u"
  show "good (?f tokens) (?f holds) (?f runs) (?f dead) ((pcs(t := p')) u) s'"
  proof (cases "u = t")
    case True then show ?thesis using g'(1) by simp
  next
    case False
    have gu: "good (rest n pcs u tokens) (rest n pcs u holds) (rest n pcs u runs) (rest n pcs u dead) (pcs u) s"
      using ok u by (simp add: sched_ok_def)
    have tu: "t \<noteq> u" using False by simp
    have k: "pc_ok s' (pcs u)"
    proof (rule pc_ok_others [OF g'(2) goodD(2) [OF gu]])
      show "runs (pcs u) j \<le> rest n pcs t runs j" for j by (rule rest_ge [OF u tu])
      show "j \<in> jobs s" if "0 < tokens (pcs u) j + holds (pcs u) j" for j
        using that place_quiet(5) [OF gu, of j] held_alive(2) [OF gu, of j] by auto
    qed
    have so: "?f holds j = 0" if so: "solo (pcs u) j" for j
    proof -
      have "rest n pcs u holds j = 0" using goodD(5) [OF gu so] .
      moreover have "0 < rest n pcs t runs j" using solo_runs [OF so] rest_ge [OF u tu, of runs pcs j] by simp
      then have "stable (pcs t) s p' s' j" using g'(2) by (simp add: others_def)
      moreover have "holds (pcs t) j = 0" using \<open>rest n pcs u holds j = 0\<close> rest_ge [OF t False, of holds pcs j] by simp
      ultimately show ?thesis using solo_known [OF so goodD(2) [OF gu]] rest_other(1) [OF t u tu, of pcs p' holds j]
        by (auto simp: stable_def)
    qed
    have "ledger (\<lambda>j. ?f tokens j + tokens (pcs u) j) (\<lambda>j. ?f holds j + holds (pcs u) j)
        (\<lambda>j. ?f runs j + runs (pcs u) j) (\<lambda>j. ?f dead j + dead (pcs u) j) s'"
      by (rule ledger_cong [of "\<lambda>j. rest n pcs t tokens j + tokens p' j" "\<lambda>j. rest n pcs t holds j + holds p' j"
            "\<lambda>j. rest n pcs t runs j + runs p' j" "\<lambda>j. rest n pcs t dead j + dead p' j"])
        (use g'(1) rest_other(2) [OF t u tu, of pcs p'] in \<open>simp_all add: good_def\<close>)
    then show ?thesis using k so False
      by (simp add: good_def rest_mono runs_le_holds dead_le_tokens)
  qed
qed

text \<open>Workers that have no job.\<close>

definition idle :: "wpc \<Rightarrow> bool" where
  "idle pc \<longleftrightarrow> pc \<in> {Started, Inactive, Asleep, Exited}"

lemma idle_zero: "idle pc \<Longrightarrow> tokens pc = (\<lambda>_. 0) \<and> holds pc = (\<lambda>_. 0) \<and> runs pc = (\<lambda>_. 0) \<and> dead pc = (\<lambda>_. 0)
   \<and> pc_ok s pc \<and> \<not> solo pc j"
  by (auto simp: idle_def fun_eq_iff)

lemma change_ok:
  assumes ok: "sched_ok n pcs s" and k: "\<And>u. pcs' u = pcs u \<or> idle (pcs u) \<and> idle (pcs' u)"
  shows "sched_ok n pcs' s"
  unfolding sched_ok_def
proof (intro allI impI)
  fix u assume u: "u < n"
  have f: "tokens (pcs' v) = tokens (pcs v)" "holds (pcs' v) = holds (pcs v)" "runs (pcs' v) = runs (pcs v)"
    "dead (pcs' v) = dead (pcs v)" for v
    using k [of v] idle_zero by (metis, metis, metis, metis)
  have r: "rest n pcs' u tokens = rest n pcs u tokens" "rest n pcs' u holds = rest n pcs u holds"
    "rest n pcs' u runs = rest n pcs u runs" "rest n pcs' u dead = rest n pcs u dead"
    using f by (simp_all add: rest_def fun_eq_iff)
  have g: "good (rest n pcs u tokens) (rest n pcs u holds) (rest n pcs u runs) (rest n pcs u dead) (pcs u) s"
    using ok u by (simp add: sched_ok_def)
  show "good (rest n pcs' u tokens) (rest n pcs' u holds) (rest n pcs' u runs) (rest n pcs' u dead) (pcs' u) s"
  proof (cases "pcs' u = pcs u")
    case True then show ?thesis using g r by simp
  next
    case False
    then have "idle (pcs' u)" using k by blast
    then show ?thesis using g r f [of u] idle_zero [of "pcs' u"] by (simp add: good_def)
  qed
qed

lemma start_ok: "sched_ok n (\<lambda>_. Started) (Add pj None pjq sched_new)"
proof -
  have "good (\<lambda>_. 0) (\<lambda>_. 0) (\<lambda>_. 0) (\<lambda>_. 0) Started (Add pj None pjq sched_new)"
    by (rule goodI) (auto simp: entry_def queues_ok_def queue_ok_def queue_refs_def child_refs_def waits_def
      Add_def Schedule_def sched_new_def split: option.split)
  moreover have "rest n (\<lambda>_. Started) t f = (\<lambda>_. 0)" if "\<And>j. f Started j = 0" for t f
    using that by (simp add: rest_def fun_eq_iff)
  ultimately show ?thesis by (simp add: sched_ok_def)
qed

lemma step_ok: "sched_step n (pcs, s) (pcs', s') \<Longrightarrow> sched_ok n pcs s \<Longrightarrow> sched_ok n pcs' s'"
proof (erule sched_step.cases)
  fix t ps u pc u' assume "(pcs, s) = (ps, u)" "(pcs', s') = (ps(t := pc), u')" "t < n" "wstep (ps t) u pc u'"
  then show "sched_ok n pcs s \<Longrightarrow> sched_ok n pcs' s'" by (auto intro: work_ok)
qed (auto elim!: change_ok simp: wake_def idle_def split: if_splits)

lemma sched_reach_ok: "sched_reach n c \<Longrightarrow> sched_ok n (fst c) (snd c)"
  by (induction rule: sched_reach.induct) (auto simp: start_ok intro: step_ok)

section \<open>Workers at rest\<close>

text \<open>The worker that empties the list of a completed queue, and the workers that are at work.\<close>

fun ret_notifies :: "ret \<Rightarrow> nat option" where
  "ret_notifies ToLoop = None"
| "ret_notifies (ToNotify j) = Some j"

fun notifies :: "wpc \<Rightarrow> nat option" where
  "notifies (NotifyLoop j) = Some j"
| "notifies (NotifyDecr j i) = Some j"
| "notifies (ResumeParent i ret) = ret_notifies ret"
| "notifies (ResumePush p i ret) = ret_notifies ret"
| "notifies (CountDown i ret) = ret_notifies ret"
| "notifies pc = None"

definition busy :: "wpc \<Rightarrow> bool" where
  "busy pc \<longleftrightarrow> pc \<notin> {Inactive, Asleep, Exited}"

definition emptied_by :: "sched \<Rightarrow> wpc \<Rightarrow> nat \<Rightarrow> bool" where
  "emptied_by s pc q \<longleftrightarrow> (\<exists>j. notifies pc = Some j \<and> m_pjq s j = Some q)"

lemma notifies_return [simp]: "notifies (return_pc ret) = ret_notifies ret"
  by (cases ret) simp_all

lemma Add_fields: "m_listjQueued (Add c p pjq s) = m_listjQueued s" "m_fCompleted (Add c p pjq s) = m_fCompleted s"
  by (simp_all add: Add_def Schedule_def IncRefs_def Let_def split: option.split)

lemma EjqrAdd_fields:
  assumes "EjqrAdd pjq pj s = (r, s')"
  shows "m_pjq s' = m_pjq s" "m_fCompleted s' = m_fCompleted s" "m_fCompleted s q \<Longrightarrow> m_listjQueued s' q = m_listjQueued s q"
    "m_listjlWaiting s' = m_listjlWaiting s" "m_ulpTotal s' = m_ulpTotal s"
  using assms by (auto simp: EjqrAdd_def IncRefs_def Let_def split: if_splits)

lemma wstep_emptied:
  assumes "wstep p s p' s'" "m_fCompleted s' q" "m_listjQueued s' q \<noteq> []"
  shows "emptied_by s' p' q \<or> m_fCompleted s q \<and> m_listjQueued s q \<noteq> [] \<and> \<not> emptied_by s p q"
  using assms
proof cases
  case (enqueue pj pjq ejqr)
  then show ?thesis using assms(2,3) EjqrAdd_fields [OF enqueue(4)] by (simp add: emptied_by_def)
next
  case (post pj c ejr)
  then show ?thesis using assms(2,3) by (auto simp: emptied_by_def EjrPostExecute_def UlpDecrRefs_def)
qed (use assms(2,3) in \<open>auto simp: emptied_by_def IncRefs_def UlpDecrRefs_def Schedule_def Add_fields PjRetrieve_def
  NotifyCompleted_mark_def NotifyCompleted_remove_def FResumeParent_def Complete_def PreExecute_running_def
  EjrPostExecute_running_def split: if_splits list.splits\<close>)

lemma wstep_busy:
  assumes "wstep p s p' s'"
  shows "busy p" "busy p' \<or> p' = Inactive \<and> s' = s \<and> m_listjlWaiting s = []"
proof -
  have "busy p \<and> (busy p' \<or> p' = Inactive \<and> s' = s \<and> m_listjlWaiting s = [])"
    using assms
  proof cases
    case (enqueue pj pjq ejqr) then show ?thesis by (cases ejqr) (simp_all add: busy_def)
  next
    case (count_down pj ret) then show ?thesis by (cases ret) (simp_all add: busy_def)
  next
    case (post_running pj ejr) then show ?thesis by (cases ejr) (simp_all add: busy_def)
  next
    case retrieve_none then show ?thesis by (auto simp: busy_def PjRetrieve_def split: list.splits)
  qed (simp_all add: busy_def)
  then show "busy p" "busy p' \<or> p' = Inactive \<and> s' = s \<and> m_listjlWaiting s = []" by blast+
qed

lemma wstep_total:
  assumes "wstep p s p' s'" "good F W R D p s" "m_ulpTotal s = 0"
  shows "m_ulpTotal s' = 0"
  using assms(1)
proof cases
  case (enqueue pj pjq ejqr)
  then show ?thesis using EjqrAdd_fields(5) assms(3) by simp
next
  case (body_add c pj fMain fAdded pjq)
  have "pj \<in> jobs s" using held_alive(2) [OF assms(2), of pj] body_add(1) by simp
  then have False using goodD(6,7) [OF assms(2)] assms(3) by auto
  then show ?thesis ..
qed (use assms(3) in \<open>auto simp: IncRefs_def UlpDecrRefs_def Schedule_def PjRetrieve_def NotifyCompleted_mark_def
  NotifyCompleted_remove_def EjrPostExecute_def FResumeParent_def Complete_def PreExecute_running_def
  EjrPostExecute_running_def split: list.splits\<close>)

definition live_ok :: "nat \<Rightarrow> (nat \<Rightarrow> wpc) \<Rightarrow> sched \<Rightarrow> bool" where
  "live_ok n pcs s \<longleftrightarrow> (\<forall>q. m_fCompleted s q \<and> m_listjQueued s q \<noteq> [] \<longrightarrow> (\<exists>t < n. emptied_by s (pcs t) q))
     \<and> (m_listjlWaiting s \<noteq> [] \<longrightarrow> (\<exists>t < n. busy (pcs t)))
     \<and> ((\<exists>t < n. pcs t = Exited) \<longrightarrow> m_ulpTotal s = 0)
     \<and> (m_ulpTotal s = 0 \<longrightarrow> (\<forall>t < n. pcs t \<noteq> Asleep) \<or> (\<exists>t < n. busy (pcs t) \<or> pcs t = Inactive))"

lemma emptied_other:
  assumes "others R p s p' s'" "good F W R' D x s" "emptied_by s x q"
  shows "emptied_by s' x q"
proof -
  obtain j where j: "notifies x = Some j" "m_pjq s j = Some q" using assms(3) by (auto simp: emptied_by_def)
  have r: "ret_notifies ret = Some j \<Longrightarrow> ret_job ret j = 1" for ret by (cases ret) auto
  have "0 < holds x j" using j(1) r by (cases x) fastforce+
  then have "j \<in> jobs s" using held_alive(2) [OF assms(2), of j] by simp
  then show ?thesis using assms(1) j by (auto simp: others_def emptied_by_def)
qed

lemma work_live:
  assumes ok: "sched_ok n pcs s" and l: "live_ok n pcs s" and t: "t < n" and w: "wstep (pcs t) s p' s'"
  shows "live_ok n (pcs(t := p')) s'"
  unfolding live_ok_def
proof (intro conjI allI impI)
  have g: "good (rest n pcs u tokens) (rest n pcs u holds) (rest n pcs u runs) (rest n pcs u dead) (pcs u) s" if "u < n" for u
    using ok that by (simp add: sched_ok_def)
  note b = wstep_busy [OF w]
  show "\<exists>u < n. emptied_by s' ((pcs(t := p')) u) q" if q: "m_fCompleted s' q \<and> m_listjQueued s' q \<noteq> []" for q
  proof (cases "emptied_by s' p' q")
    case True then show ?thesis using t by (auto intro: exI [of _ t])
  next
    case False
    then have e: "m_fCompleted s q \<and> m_listjQueued s q \<noteq> []" "\<not> emptied_by s (pcs t) q" using wstep_emptied [OF w] q by blast+
    then obtain u where u: "u < n" "emptied_by s (pcs u) q" using l unfolding live_ok_def by blast
    then have "u \<noteq> t" using e(2) by auto
    then show ?thesis using u emptied_other [OF wstep_good(2) [OF w g [OF t]] g [OF u(1)] u(2)] by auto
  qed
  show "\<exists>u < n. busy ((pcs(t := p')) u)" if "m_listjlWaiting s' \<noteq> []"
    using b(2) that t by (auto intro: exI [of _ t])
  show "m_ulpTotal s' = 0" if e: "\<exists>u < n. (pcs(t := p')) u = Exited"
  proof -
    have "p' \<noteq> Exited" using b(2) by (auto simp: busy_def)
    then have "\<exists>u < n. pcs u = Exited" using e by (auto split: if_splits)
    then have "m_ulpTotal s = 0" using l by (simp add: live_ok_def)
    then show ?thesis by (rule wstep_total [OF w g [OF t]])
  qed
  show "(\<forall>u < n. (pcs(t := p')) u \<noteq> Asleep) \<or> (\<exists>u < n. busy ((pcs(t := p')) u) \<or> (pcs(t := p')) u = Inactive)"
    using b(2) t by (auto intro: exI [of _ t])
qed

lemma step_live: "sched_step n (pcs, s) (pcs', s') \<Longrightarrow> sched_ok n pcs s \<Longrightarrow> live_ok n pcs s \<Longrightarrow> live_ok n pcs' s'"
proof (erule sched_step.cases)
  fix t ps u pc u' assume "(pcs, s) = (ps, u)" "(pcs', s') = (ps(t := pc), u')" "t < n" "wstep (ps t) u pc u'"
  then show "sched_ok n pcs s \<Longrightarrow> live_ok n pcs s \<Longrightarrow> live_ok n pcs' s'" by (auto intro: work_live)
next
  fix t ps u assume a: "(pcs, s) = (ps, u)" "(pcs', s') = ((wake \<circ> ps)(t := Exited), u)" "t < n" "ps t = Inactive" "m_ulpTotal u = 0"
  have w: "emptied_by s (pcs' v) q" if "emptied_by s (pcs v) q" for v q
    using that a by (auto simp: emptied_by_def wake_def split: if_splits)
  have b: "busy (pcs' v)" if "busy (pcs v)" for v using that a by (auto simp: busy_def wake_def split: if_splits)
  have "pcs' v \<noteq> Asleep" for v using a by (auto simp: wake_def split: if_splits)
  then show "live_ok n pcs s \<Longrightarrow> live_ok n pcs' s'" using a(1,2,5) w b unfolding live_ok_def by (metis prod.inject)
next
  fix t ps u assume a: "(pcs, s) = (ps, u)" "(pcs', s') = (ps(t := Asleep), u)" "t < n" "ps t = Inactive" "m_ulpTotal u \<noteq> 0"
  have w: "emptied_by s (pcs' v) q" if "emptied_by s (pcs v) q" for v q
    using that a by (auto simp: emptied_by_def split: if_splits)
  have b: "busy (pcs' v)" if "busy (pcs v)" for v using that a by (auto simp: busy_def split: if_splits)
  have "pcs' v = Exited \<Longrightarrow> pcs v = Exited" for v using a by (auto split: if_splits)
  then show "live_ok n pcs s \<Longrightarrow> live_ok n pcs' s'" using a(1,2,5) w b unfolding live_ok_def by (metis prod.inject)
next
  fix t ps u assume a: "(pcs, s) = (ps, u)" "(pcs', s') = (ps(t := Started), u)" "t < n" "ps t = Asleep"
  have w: "emptied_by s (pcs' v) q" if "emptied_by s (pcs v) q" for v q
    using that a by (auto simp: emptied_by_def split: if_splits)
  have b: "busy (pcs' t)" using a by (simp add: busy_def)
  have "pcs' v = Exited \<Longrightarrow> pcs v = Exited" for v using a by (auto split: if_splits)
  then show "live_ok n pcs s \<Longrightarrow> live_ok n pcs' s'" using a(1,2,3) w b unfolding live_ok_def by (metis prod.inject)
qed

lemma start_live: "0 < n \<Longrightarrow> live_ok n (\<lambda>_. Started) (Add pj None pjq sched_new)"
  by (auto simp: live_ok_def busy_def Add_fields sched_new_def)

lemma sched_reach_live: "sched_reach n c \<Longrightarrow> 0 < n \<Longrightarrow> live_ok n (fst c) (snd c)"
proof (induction rule: sched_reach.induct)
  case (step c c')
  then show ?case using step_live [of n "fst c" "snd c" "fst c'" "snd c'"] sched_reach_ok [of n c] by simp
qed (simp add: start_live)

section \<open>The assertions of the code\<close>

text \<open>The counter of running workers counts the workers between \<open>PreExecute\<close> and \<open>EjrPostExecute\<close>.\<close>

fun counted :: "wpc \<Rightarrow> nat" where
  "counted Started = 0"
| "counted Loop = 0"
| "counted (PreExecute pj) = 0"
| "counted (Resume pj) = 0"
| "counted (ResumeParent pj ret) = (if ret = ToLoop then 0 else 1)"
| "counted (ResumePush p pj ret) = (if ret = ToLoop then 0 else 1)"
| "counted (CountDown pj ret) = (if ret = ToLoop then 0 else 1)"
| "counted Inactive = 0"
| "counted Asleep = 0"
| "counted Exited = 0"
| "counted pc = 1"

lemma counted_le: "counted pc \<le> 1"
  by (cases pc) auto

lemma wstep_counted:
  assumes "wstep p s p' s'" "counted p \<le> m_ulpRunning s"
  shows "m_ulpRunning s' + counted p = m_ulpRunning s + counted p'"
  using assms(1)
proof cases
  case (enqueue pj pjq ejqr)
  then show ?thesis by (cases ejqr) (auto simp: EjqrAdd_def IncRefs_def Let_def split: if_splits)
next
  case (post_running pj ejr)
  then show ?thesis using assms(2) by (cases ejr) (simp_all add: EjrPostExecute_running_def)
next
  case (count_down pj ret)
  then show ?thesis by (cases ret) (simp_all add: Complete_def)
qed (auto simp: IncRefs_def UlpDecrRefs_def Schedule_def PjRetrieve_def NotifyCompleted_mark_def Add_def
  NotifyCompleted_remove_def EjrPostExecute_def FResumeParent_def PreExecute_running_def Let_def split: list.splits)

lemma counted_upd: "t < n \<Longrightarrow> (\<Sum>u < n. counted ((pcs(t := p)) u)) + counted (pcs t) = (\<Sum>u < n. counted (pcs u)) + counted p"
  for n :: nat
  using sum.remove [of "{..<n}" t "\<lambda>u. counted (pcs u)"] sum.remove [of "{..<n}" t "\<lambda>u. counted ((pcs(t := p)) u)"] by simp

lemma counted_sum_le: "t < n \<Longrightarrow> counted (pcs t) \<le> (\<Sum>u < n. counted (pcs u))" for n :: nat
  by (rule member_le_sum) simp_all

lemma step_running_count:
  "sched_step n (pcs, s) (pcs', s') \<Longrightarrow> m_ulpRunning s = (\<Sum>u < n. counted (pcs u)) \<Longrightarrow> m_ulpRunning s' = (\<Sum>u < n. counted (pcs' u))"
proof (erule sched_step.cases)
  fix t ps u pc u' assume a: "(pcs, s) = (ps, u)" "(pcs', s') = (ps(t := pc), u')" "t < n" "wstep (ps t) u pc u'"
  assume "m_ulpRunning s = (\<Sum>u < n. counted (pcs u))"
  then show "m_ulpRunning s' = (\<Sum>u < n. counted (pcs' u))"
    using a wstep_counted [of "pcs t" s pc s'] counted_upd [of t n pcs pc] counted_sum_le [of t n pcs] by simp
next
  fix t ps u assume a: "(pcs, s) = (ps, u)" "(pcs', s') = ((wake \<circ> ps)(t := Exited), u)" "ps t = Inactive"
  have "counted (pcs' v) = counted (pcs v)" for v using a by (simp add: wake_def)
  then show "m_ulpRunning s = (\<Sum>u < n. counted (pcs u)) \<Longrightarrow> m_ulpRunning s' = (\<Sum>u < n. counted (pcs' u))" using a by simp
next
  fix t ps u assume a: "(pcs, s) = (ps, u)" "(pcs', s') = (ps(t := Asleep), u)" "t < n" "ps t = Inactive"
  then show "m_ulpRunning s = (\<Sum>u < n. counted (pcs u)) \<Longrightarrow> m_ulpRunning s' = (\<Sum>u < n. counted (pcs' u))"
    using counted_upd [of t n pcs Asleep] by simp
next
  fix t ps u assume a: "(pcs, s) = (ps, u)" "(pcs', s') = (ps(t := Started), u)" "t < n" "ps t = Asleep"
  then show "m_ulpRunning s = (\<Sum>u < n. counted (pcs u)) \<Longrightarrow> m_ulpRunning s' = (\<Sum>u < n. counted (pcs' u))"
    using counted_upd [of t n pcs Started] by simp
qed

lemma reach_running: "sched_reach n c \<Longrightarrow> m_ulpRunning (snd c) = (\<Sum>u < n. counted (fst c u))"
proof (induction rule: sched_reach.induct)
  case (step c c')
  then show ?case using step_running_count [of n "fst c" "snd c" "fst c'" "snd c'"] by simp
qed (simp add: Add_def Schedule_def sched_new_def)

lemma running_le: "sched_reach n (pcs, s) \<Longrightarrow> m_ulpRunning s \<le> n"
  using reach_running [of n "(pcs, s)"] sum_mono [of "{..<n}" "\<lambda>u. counted (pcs u)" "\<lambda>_. 1"] counted_le by simp

text \<open>What the code asserts at each place of a worker about counters, queues and parents.  At \<open>Body\<close>, where
  a job may add children: no job that does not exist yet has references or is the parent itself.\<close>

fun asserted :: "sched \<Rightarrow> wpc \<Rightarrow> bool" where
  "asserted s (PreExecute pj) = (m_ulpRefs s pj = 0)"
| "asserted s (Enqueue pj) = (\<exists>q. m_pjq s pj = Some q \<and> (m_pj s q = Some pj \<longrightarrow> \<not> m_fCompleted s q)
     \<and> (\<not> m_fCompleted s q \<and> m_listjQueued s q = [] \<longrightarrow> m_pj s q = None))"
| "asserted s (Body pj fMain fAdded) = (\<forall>pj'. pj' \<notin> jobs s \<longrightarrow> m_ulpRefs s pj' = 0 \<and> pj' \<noteq> pj)"
| "asserted s (MainSuspended pj) = (0 < m_ulpRefs s pj)"
| "asserted s (Notify pj) = (\<exists>q. m_pjq s pj = Some q \<and> \<not> m_fCompleted s q \<and> m_listjQueued s q \<noteq> [])"
| "asserted s (NotifyDecr pj pj') = (0 < m_ulpRefs s pj')"
| "asserted s (Post pj fCompleted) = (0 < m_ulpRefs s pj \<and> (fCompleted \<longrightarrow> m_ulpRefs s pj = 1))"
| "asserted s (Resume pj) = (m_ulpRefs s pj = 0)"
| "asserted s (ResumeParent pj ret) = (m_ulpRefs s pj = 0 \<and> (\<forall>p. m_pjParent s pj = Some p \<longrightarrow> 0 < m_ulpRefs s p))"
| "asserted s (ResumePush p pj ret) = (m_ulpRefs s p = 0)"
| "asserted s (CountDown pj ret) = (m_ulpRefs s pj = 0 \<and> 0 < m_ulpTotal s)"
| "asserted s pc = True"

lemma good_asserted: "good F W R D p s \<Longrightarrow> asserted s p"
proof (cases p)
  assume g: "good F W R D p s"
  note pl = place_quiet [OF g] and h = held_alive [OF g] and k = goodD(2) [OF g]
  show "asserted s p" if "p = PreExecute j" for j using pl [of j] that by simp
  show "asserted s p" if "p = Enqueue j" for j
    using k goodD(8) [OF g] that by (auto simp: main_open_def queues_ok_def queue_ok_def)
  show "asserted s p" if "p = Body j m a" for j m a
    using h(2) [of j] entryD(4) [OF goodD(1) [OF g]] that by (cases m) auto
  show "asserted s p" if "p = MainSuspended j" for j using h(1) [of j] that by simp
  show "asserted s p" if "p = Notify j" for j using k that by (auto simp: main_of_def)
  show "asserted s p" if "p = NotifyDecr j i" for j i using h(1) [of i] that by simp
  show "asserted s p" if p: "p = Post j c" for j c
  proof -
    have "m_ulpRefs s j = 1" if c using that p k goodD(1,5) [OF g, of j] by (auto simp: entry_def quiet_def)
    then show ?thesis using h(1) [of j] p by simp
  qed
  show "asserted s p" if "p = Resume j" for j using pl [of j] that by simp
  show "asserted s p" if p: "p = ResumeParent i ret" for i ret
  proof -
    have "0 < m_ulpRefs s q" if "m_pjParent s i = Some q" for q
      using step_resume_parent [OF g [unfolded p] that UlpDecrRefs_def] by simp
    then show ?thesis using pl [of i] p by simp
  qed
  show "asserted s p" if "p = ResumePush q i ret" for q i ret using pl [of q] that by simp
  show "asserted s p" if "p = CountDown i ret" for i ret
    using pl(1,5) [of i] that goodD(6,7) [OF g] by (auto simp: card_gt_0_iff)
qed simp_all

lemma reach_good: "sched_reach n (pcs, s) \<Longrightarrow> t < n \<Longrightarrow>
    good (rest n pcs t tokens) (rest n pcs t holds) (rest n pcs t runs) (rest n pcs t dead) (pcs t) s"
  using sched_reach_ok [of n "(pcs, s)"] by (simp add: sched_ok_def)

text \<open>A run of two workers for the witnesses: the first one has taken the root job out of the list.\<close>

lemma short_run: "sched_reach 2 ((\<lambda>_. Started)(0 := PreExecute 0), (Add 0 None None sched_new)\<lparr>m_listjlWaiting := []\<rparr>)"
proof -
  let ?s = "Add 0 None None sched_new" and ?p = "\<lambda>_ :: nat. Started"
  have "sched_step 2 (?p, ?s) (?p(0 := Loop), ?s)" by (rule sched_step.work) (simp_all add: wstep.started)
  then have 1: "sched_reach 2 (?p(0 := Loop), ?s)" using sched_reach.start sched_reach.step by blast
  have w: "wstep Loop ?s (PreExecute 0) (?s\<lparr>m_listjlWaiting := []\<rparr>)"
    by (rule wstep.retrieve) (simp add: PjRetrieve_def Add_def Schedule_def sched_new_def)
  have "sched_step 2 (?p(0 := Loop), ?s) ((?p(0 := Loop))(0 := PreExecute 0), ?s\<lparr>m_listjlWaiting := []\<rparr>)"
    by (rule sched_step.work) (simp_all add: w)
  then show ?thesis using sched_reach.step [OF 1] by simp
qed

section \<open>Mutual exclusion\<close>

definition runs_main :: "sched \<Rightarrow> wpc \<Rightarrow> nat \<Rightarrow> bool" where
  "runs_main s pc q \<longleftrightarrow> (\<exists>j. m_pjq s j = Some q \<and> ((\<exists>a. pc = Body j True a) \<or> pc = MainSuspended j \<or> pc = Notify j))"

text \<open>C15 Two workers never run the same job, a job is waiting once at most and not while a worker runs it,
  and of the jobs of a queue only one is run at a time.\<close>

theorem scheduler_exclusive:
  assumes r: "sched_reach n (pcs, s)" and tu: "t < n" "u < n" "t \<noteq> u"
  shows "(runs (pcs t) j = 0 \<or> runs (pcs u) j = 0) \<and> count_list (m_listjlWaiting s) j \<le> 1
    \<and> (0 < runs (pcs t) j \<longrightarrow> j \<notin> set (m_listjlWaiting s)) \<and> \<not> (runs_main s (pcs t) q \<and> runs_main s (pcs u) q)"
proof -
  note g = reach_good [OF r tu(1)] and gu = reach_good [OF r tu(2)]
  have ex: "runs (pcs t) i = 0 \<or> runs (pcs u) i = 0" for i
    using entryD(5) [OF goodD(1) [OF g, of i]] rest_ge [OF tu(2,3), of runs pcs i] by linarith
  have w: "count_list (m_listjlWaiting s) j \<le> 1" using entryD(2) [OF goodD(1) [OF g, of j]] by (simp add: waits_def)
  have nw: "j \<notin> set (m_listjlWaiting s)" if "0 < runs (pcs t) j"
    using held_alive(5) [OF g, of j] that runs_le_holds [of "pcs t" j] by (simp add: waits_def count_list_0_iff)
  have m: "runs_main s pc q \<Longrightarrow> pc_ok s pc \<Longrightarrow> 0 < runs pc (hd (m_listjQueued s q))" for pc
    by (auto simp: runs_main_def main_of_def)
  have "\<not> (runs_main s (pcs t) q \<and> runs_main s (pcs u) q)"
    using m [of "pcs t"] m [of "pcs u"] goodD(2) [OF g] goodD(2) [OF gu] ex [of "hd (m_listjQueued s q)"] by auto
  then show ?thesis using ex [of j] w by (intro conjI impI nw)
qed

theorem scheduler_exclusive_witness: "count_list (m_listjlWaiting ((Add 0 None None sched_new)\<lparr>m_listjlWaiting := []\<rparr>)) 0 \<le> 1"
  using scheduler_exclusive [OF short_run, of 0 1 0] by simp

section \<open>Progress\<close>

text \<open>A job waits for its children, and a job in a queue for the main job of the queue.\<close>

definition waits_for :: "sched \<Rightarrow> nat \<Rightarrow> nat \<Rightarrow> bool" where
  "waits_for s j i \<longleftrightarrow> i \<in> attached s \<and> m_pjParent s i = Some j
     \<or> (\<exists>q. m_pjq s j = Some q \<and> \<not> m_fCompleted s q \<and> j \<in> set (tl (m_listjQueued s q)) \<and> i = hd (m_listjQueued s q))"

lemma busy_step:
  assumes g: "good F W R D p s" and b: "busy p"
  shows "\<exists>p' s'. wstep p s p' s'"
proof (cases p)
  case Loop
  obtain r s' where "PjRetrieve s = (r, s')" by (cases "PjRetrieve s")
  then show ?thesis using Loop by (cases r) (auto intro: wstep.retrieve_none wstep.retrieve)
next
  case (Execute j)
  then show ?thesis by (cases "m_pjq s j") (blast intro: wstep.execute wstep.execute_queue)+
next
  case (Enqueue j)
  then obtain q where "m_pjq s j = Some q" using goodD(2) [OF g] by (auto simp: main_open_def)
  then show ?thesis using Enqueue by (cases "EjqrAdd q j s") (auto intro: wstep.enqueue)
next
  case (PreExecuteRefs j) then show ?thesis using wstep.pre_execute_refs by blast
next
  case (PostRunning j e) then show ?thesis using wstep.post_running by blast
next
  case (Notify j) then show ?thesis using goodD(2) [OF g] by (auto simp: main_of_def intro: wstep.notify)
next
  case (NotifyLoop j)
  then obtain q where "m_pjq s j = Some q" using goodD(2) [OF g] by (auto simp: main_done_def)
  moreover obtain r s' where "NotifyCompleted_remove q s = (r, s')" by (cases "NotifyCompleted_remove q s")
  ultimately show ?thesis using NotifyLoop by (cases r) (auto intro: wstep.notify_end wstep.notify_next)
next
  case (NotifyDecr j i) then show ?thesis by (cases "UlpDecrRefs i s") (auto intro: wstep.notify_decr)
next
  case (Post j c) then show ?thesis by (cases "EjrPostExecute j c s") (auto intro: wstep.post)
next
  case (ResumeParent i ret)
  show ?thesis
  proof (cases "m_pjParent s i")
    case None then show ?thesis using ResumeParent wstep.resume_no_parent by blast
  next
    case (Some q) then show ?thesis
      using ResumeParent wstep.resume_parent [OF Some] by (cases "FResumeParent q i s") blast
  qed
next
  case Started then show ?thesis using wstep.started by blast
next
  case (PreExecute j) then show ?thesis using wstep.pre_execute by blast
next
  case (Body j m a) then show ?thesis using wstep.body_suspended by blast
next
  case (MainSuspended j) then show ?thesis using wstep.main_suspended by blast
next
  case (Resume j) then show ?thesis using wstep.resume by blast
next
  case (ResumePush q i ret) then show ?thesis using wstep.resume_push by blast
next
  case (CountDown i ret) then show ?thesis using wstep.count_down by blast
qed (use b in \<open>simp_all add: busy_def\<close>)

lemma notifies_busy: "emptied_by s pc q \<Longrightarrow> busy pc"
  by (cases pc) (auto simp: emptied_by_def busy_def)

lemma at_rest:
  assumes r: "sched_reach n (pcs, s)" and n: "0 < n" and b: "\<forall>t < n. \<not> busy (pcs t)" and j: "j \<in> jobs s"
  shows "\<exists>i \<in> jobs s. waits_for s j i"
proof -
  have l: "live_ok n pcs s" using sched_reach_live [OF r n] by simp
  note g = reach_good [OF r n]
  have z: "tokens (pcs t) i = 0" "holds (pcs t) i = 0" if "t < n" for t i
    using b that by (auto simp: busy_def)
  have w: "waits s j = 0" using l b by (auto simp: live_ok_def waits_def)
  have "rest n pcs 0 tokens j = 0" "rest n pcs 0 holds j = 0" using z by (simp_all add: rest_def)
  then have refs: "0 < queue_refs s j + child_refs s j"
    using entryD(1,4) [OF goodD(1) [OF g, of j]] j w z [OF n] by simp
  show ?thesis
  proof (cases "child_refs s j = 0")
    case False
    then have "{i \<in> attached s. m_pjParent s i = Some j} \<noteq> {}" unfolding child_refs_def by (metis card.empty)
    then show ?thesis using attached_alive [OF g] by (auto simp: waits_for_def)
  next
    case True
    then have "queue_refs s j \<noteq> 0" using refs by simp
    then obtain q where q: "m_pjq s j = Some q"
      and "count_list (if m_fCompleted s q then m_listjQueued s q else tl (m_listjQueued s q)) j \<noteq> 0"
      by (auto simp: queue_refs_def split: option.splits)
    then have q': "j \<in> set (if m_fCompleted s q then m_listjQueued s q else tl (m_listjQueued s q))"
      using count_notin by metis
    have c: "\<not> m_fCompleted s q"
    proof
      assume c: "m_fCompleted s q"
      then have "m_listjQueued s q \<noteq> []" using q' by auto
      then show False using c l b notifies_busy unfolding live_ok_def by blast
    qed
    have "queue_ok s q" using goodD(8) [OF g] by (simp add: queues_ok_def)
    then have "hd (m_listjQueued s q) \<in> jobs s" using c q' by (auto simp: queue_ok_def)
    then show ?thesis using c q q' by (auto simp: waits_for_def)
  qed
qed

text \<open>C14 As long as jobs are left, some worker is at work, unless jobs wait for each other in a cycle, and
  a worker at work can make a step.  When all jobs are completed, either nobody sleeps or somebody
  will wake the sleepers up; a worker exits only then.\<close>

theorem scheduler_progress:
  assumes r: "sched_reach n (pcs, s)" and n: "0 < n" and a: "acyclic {(j, i). waits_for s j i}"
  shows "(m_ulpTotal s \<noteq> 0 \<longrightarrow> (\<exists>t < n. busy (pcs t))) \<and> (\<forall>t < n. busy (pcs t) \<longrightarrow> (\<exists>p s'. wstep (pcs t) s p s'))
    \<and> (m_ulpTotal s = 0 \<longrightarrow> (\<forall>t < n. pcs t \<noteq> Asleep) \<or> (\<exists>t < n. busy (pcs t) \<or> pcs t = Inactive))
    \<and> ((\<exists>t < n. pcs t = Exited) \<longrightarrow> m_ulpTotal s = 0)"
proof -
  note g = reach_good [OF r n]
  have l: "live_ok n pcs s" using sched_reach_live [OF r n] by simp
  let ?R = "{(j, i). j \<in> jobs s \<and> i \<in> jobs s \<and> waits_for s j i}"
  have "jobs s = {}" if b: "\<forall>t < n. \<not> busy (pcs t)"
  proof (rule ccontr)
    assume ne: "jobs s \<noteq> {}"
    have "finite ?R" by (rule finite_subset [of _ "jobs s \<times> jobs s"]) (use goodD(6) [OF g] in auto)
    moreover have "acyclic ?R" by (rule acyclic_subset [OF a]) auto
    ultimately have "wf (?R\<inverse>)" by (rule finite_acyclic_wf_converse)
    then obtain j where "j \<in> jobs s" "\<And>i. (i, j) \<in> ?R\<inverse> \<Longrightarrow> i \<notin> jobs s" using wfE_min' ne by blast
    then show False using at_rest [OF r n b, of j] by blast
  qed
  then have "(\<forall>t < n. \<not> busy (pcs t)) \<longrightarrow> m_ulpTotal s = 0" using goodD(7) [OF g] by simp
  then have "m_ulpTotal s \<noteq> 0 \<longrightarrow> (\<exists>t < n. busy (pcs t))" by (metis (no_types, lifting))
  moreover have "\<forall>t < n. busy (pcs t) \<longrightarrow> (\<exists>p s'. wstep (pcs t) s p s')" using busy_step [OF reach_good [OF r]] by blast
  moreover note l [unfolded live_ok_def, THEN conjunct2, THEN conjunct2]
  ultimately show ?thesis by (intro conjI) (erule conjE, assumption)+
qed

theorem scheduler_progress_witness:
  "\<exists>t < (2 :: nat). busy (((\<lambda>_. Started)(0 := PreExecute 0)) t)"
proof -
  let ?s = "(Add 0 None None sched_new)\<lparr>m_listjlWaiting := []\<rparr>"
  have "{(j, i). waits_for ?s j i} = {}"
    by (simp add: waits_for_def Add_def Schedule_def sched_new_def)
  moreover have "m_ulpTotal ?s \<noteq> 0" by (simp add: Add_def Schedule_def sched_new_def)
  ultimately show ?thesis using scheduler_progress [OF short_run] by (simp add: acyclic_def)
qed

end
