(* ===== verification/SchedulerTracking.thy ===== *)
theory SchedulerTracking
  imports SchedulerRuns
begin

text \<open>
  The scheduler of a debug build (\<^verbatim>\<open>libgpopt/src/search/CScheduler.cpp\<close>, \<^verbatim>\<open>CJob.h\<close>), in which the
  assertions are checked: with \<open>m_fTrackingJobs\<close> (the default of the constructor) each job has a
  state, and \<open>m_mutex\<close> guards retrieving a job, adding a job, processing the result of a run, and
  completing a queued job.  The runs are runs of the theory \<open>SchedulerRuns\<close> that respect the mutex.  The
  lists of running and suspended jobs are printed only and left out.
\<close>

section \<open>The states of the jobs and the mutex\<close>

datatype ejs = EjsInit | EjsWaiting | EjsRunning | EjsSuspended | EjsCompleted

definition SetState :: "nat \<Rightarrow> ejs \<Rightarrow> (nat \<Rightarrow> ejs) \<Rightarrow> nat \<Rightarrow> ejs" where
  "SetState pj ejs m_ejs = m_ejs(pj := ejs)"

definition Suspend :: "nat \<Rightarrow> (nat \<Rightarrow> ejs) \<Rightarrow> nat \<Rightarrow> ejs" where
  "Suspend pj m_ejs = SetState pj EjsSuspended m_ejs"

text \<open>The state changes of a step from place \<open>p\<close> to \<open>p'\<close> with the new state \<open>s'\<close>: \<open>PjRetrieve\<close> makes a
  waiting job running, \<open>Schedule\<close> makes a job waiting (a new one after \<open>CJob::Reset\<close>, a resumed one and
  a resumed parent), \<open>Complete\<close> and \<open>CompleteQueued\<close> make it completed before its parent is told.\<close>

fun track :: "wpc \<Rightarrow> wpc \<Rightarrow> sched \<Rightarrow> (nat \<Rightarrow> ejs) \<Rightarrow> nat \<Rightarrow> ejs" where
  "track Loop p' s' m_ejs = (case p' of PreExecute pj \<Rightarrow> SetState pj EjsRunning m_ejs | _ \<Rightarrow> m_ejs)"
| "track (Body pj fMain fAdded) p' s' m_ejs = (case p' of Body _ _ _ \<Rightarrow>
     SetState (hd (m_listjlWaiting s')) EjsWaiting (SetState (hd (m_listjlWaiting s')) EjsInit m_ejs) | _ \<Rightarrow> m_ejs)"
| "track (PostRunning pj ejr) p' s' m_ejs = (if ejr = EjrSuspended then Suspend pj m_ejs else m_ejs)"
| "track (Resume pj) p' s' m_ejs = SetState pj EjsWaiting m_ejs"
| "track (ResumeParent pj ret) p' s' m_ejs = SetState pj EjsCompleted m_ejs"
| "track (ResumePush pjParent pj ret) p' s' m_ejs = SetState pjParent EjsWaiting m_ejs"
| "track p p' s' m_ejs = m_ejs"

text \<open>The places at which a worker owns the mutex, and the steps that lock it: \<open>ExecuteJobs\<close> locks it before
  \<open>EjrPostExecute\<close> and \<open>CompleteQueued\<close> before it tells the parent, both until the job is released.\<close>

fun owns :: "wpc \<Rightarrow> bool" where
  "owns (PostRunning pj ejr) = True"
| "owns (Resume pj) = True"
| "owns (ResumeParent pj ret) = (ret = ToLoop)"
| "owns (ResumePush p pj ret) = True"
| "owns (CountDown pj ret) = True"
| "owns pc = False"

fun locks :: "wpc \<Rightarrow> wpc \<Rightarrow> bool" where
  "locks Loop p' = True"
| "locks (Body pj fMain fAdded) p' = (case p' of Body _ _ _ \<Rightarrow> True | _ \<Rightarrow> False)"
| "locks (Post pj fCompleted) p' = True"
| "locks (ResumeParent pj ret) p' = (ret \<noteq> ToLoop)"
| "locks p p' = False"

definition mutex_free :: "nat \<Rightarrow> (nat \<Rightarrow> wpc) \<Rightarrow> bool" where
  "mutex_free n pcs \<longleftrightarrow> (\<forall>u < n. \<not> owns (pcs u))"

inductive track_step :: "bool \<Rightarrow> nat \<Rightarrow> (nat \<Rightarrow> wpc) \<times> sched \<times> (nat \<Rightarrow> ejs) \<Rightarrow> (nat \<Rightarrow> wpc) \<times> sched \<times> (nat \<Rightarrow> ejs) \<Rightarrow> bool"
  for fTracking n where
  work: "t < n \<Longrightarrow> wstep (pcs t) s pc s' \<Longrightarrow> (fTracking \<and> locks (pcs t) pc \<longrightarrow> mutex_free n pcs) \<Longrightarrow>
    track_step fTracking n (pcs, s, e) (pcs(t := pc), s', if fTracking then track (pcs t) pc s' e else e)"
| finish: "t < n \<Longrightarrow> pcs t = Inactive \<Longrightarrow> m_ulpTotal s = 0 \<Longrightarrow> (fTracking \<longrightarrow> mutex_free n pcs) \<Longrightarrow>
    track_step fTracking n (pcs, s, e) ((wake \<circ> pcs)(t := Exited), s, e)"
| sleep: "t < n \<Longrightarrow> pcs t = Inactive \<Longrightarrow> m_ulpTotal s \<noteq> 0 \<Longrightarrow> (fTracking \<longrightarrow> mutex_free n pcs) \<Longrightarrow>
    track_step fTracking n (pcs, s, e) (pcs(t := Asleep), s, e)"
| signal: "t < n \<Longrightarrow> pcs t = Asleep \<Longrightarrow> (fTracking \<longrightarrow> mutex_free n pcs) \<Longrightarrow>
    track_step fTracking n (pcs, s, e) (pcs(t := Started), s, e)"

inductive track_reach :: "bool \<Rightarrow> nat \<Rightarrow> (nat \<Rightarrow> wpc) \<times> sched \<times> (nat \<Rightarrow> ejs) \<Rightarrow> bool" for fTracking n where
  start: "track_reach fTracking n (\<lambda>_. Started, Add pj None pjq sched_new, SetState pj EjsWaiting (\<lambda>_. EjsInit))"
| step: "track_reach fTracking n c \<Longrightarrow> track_step fTracking n c c' \<Longrightarrow> track_reach fTracking n c'"

lemma track_step_step: "track_step f n (pcs, s, e) (pcs', s', e') \<Longrightarrow> sched_step n (pcs, s) (pcs', s')"
  by (erule track_step.cases) (auto intro: sched_step.intros)

lemma track_reach_reach: "track_reach f n c \<Longrightarrow> sched_reach n (fst c, fst (snd c))"
proof (induction rule: track_reach.induct)
  case (step c c')
  then show ?case
    using track_step_step [of f n "fst c" "fst (snd c)" "snd (snd c)" "fst c'" "fst (snd c')" "snd (snd c')"]
    by (auto intro: sched_reach.step)
qed (simp add: sched_reach.start)

section \<open>The state of a job by the places of the workers\<close>

fun running_at :: "wpc \<Rightarrow> nat \<Rightarrow> bool" where
  "running_at (PreExecute pj) j = (pj = j)"
| "running_at (PreExecuteRefs pj) j = (pj = j)"
| "running_at (PostRunning pj ejr) j = (pj = j)"
| "running_at (Resume pj) j = (pj = j)"
| "running_at (ResumeParent pj ret) j = (ret = ToLoop \<and> pj = j \<or> 0 < ret_job ret j)"
| "running_at pc j = (0 < runs pc j)"

definition stat :: "bool \<Rightarrow> bool \<Rightarrow> bool \<Rightarrow> ejs" where
  "stat w r d = (if w then EjsWaiting else if r then EjsRunning else if d then EjsCompleted else EjsSuspended)"

definition others_run :: "nat \<Rightarrow> (nat \<Rightarrow> wpc) \<Rightarrow> nat \<Rightarrow> nat \<Rightarrow> bool" where
  "others_run n pcs t j \<longleftrightarrow> (\<exists>u < n. u \<noteq> t \<and> running_at (pcs u) j)"

definition others_dead :: "nat \<Rightarrow> (nat \<Rightarrow> wpc) \<Rightarrow> nat \<Rightarrow> nat \<Rightarrow> bool" where
  "others_dead n pcs t j \<longleftrightarrow> (\<exists>u < n. u \<noteq> t \<and> 0 < dead (pcs u) j)"

definition others_leave :: "nat \<Rightarrow> (nat \<Rightarrow> wpc) \<Rightarrow> nat \<Rightarrow> nat \<Rightarrow> bool" where
  "others_leave n pcs t j \<longleftrightarrow> (\<exists>u < n. u \<noteq> t \<and> pcs u = PostRunning j EjrSuspended)"

definition status :: "nat \<Rightarrow> (nat \<Rightarrow> wpc) \<Rightarrow> sched \<Rightarrow> nat \<Rightarrow> ejs" where
  "status n pcs s j = stat (j \<in> set (m_listjlWaiting s)) (\<exists>t < n. running_at (pcs t) j) (\<exists>t < n. 0 < dead (pcs t) j)"

definition track_ok :: "nat \<Rightarrow> (nat \<Rightarrow> wpc) \<Rightarrow> sched \<Rightarrow> (nat \<Rightarrow> ejs) \<Rightarrow> bool" where
  "track_ok n pcs s e \<longleftrightarrow> (\<forall>j \<in> jobs s. e j = status n pcs s j)
     \<and> (\<forall>t < n. \<forall>u < n. owns (pcs t) \<and> owns (pcs u) \<longrightarrow> t = u)
     \<and> (\<forall>t < n. \<forall>j. pcs t = PostRunning j EjrSuspended \<longrightarrow> j \<in> jobs s \<and> j \<notin> set (m_listjlWaiting s)
          \<and> \<not> others_run n pcs t j \<and> \<not> others_dead n pcs t j)"

lemma others_same [simp]: "others_run n (pcs(t := p)) t = others_run n pcs t" "others_dead n (pcs(t := p)) t = others_dead n pcs t"
  by (auto simp: others_run_def others_dead_def fun_eq_iff)

lemma status_own:
  assumes "t < n"
  shows "status n pcs s j = stat (j \<in> set (m_listjlWaiting s)) (running_at (pcs t) j \<or> others_run n pcs t j)
     (0 < dead (pcs t) j \<or> others_dead n pcs t j)"
proof -
  have "(\<exists>u < n. running_at (pcs u) j) = (running_at (pcs t) j \<or> others_run n pcs t j)"
    using assms by (auto simp: others_run_def)
  moreover have "(\<exists>u < n. 0 < dead (pcs u) j) = (0 < dead (pcs t) j \<or> others_dead n pcs t j)"
    using assms by (auto simp: others_dead_def)
  ultimately show ?thesis by (simp only: status_def)
qed

lemma running_token: "running_at pc j \<Longrightarrow> 0 < runs pc j + tokens pc j \<or> pc = PostRunning j EjrSuspended"
  by (cases pc) (auto split: if_splits)

lemma runs_running: "0 < runs pc j \<Longrightarrow> running_at pc j"
  by (cases pc) (auto split: if_splits)

text \<open>What a step changes of the places and of the waiting list.\<close>

lemma ret_running [simp]: "running_at (return_pc ret) j = (0 < ret_job ret j)" "dead (return_pc ret) j = 0" "owns (return_pc ret) = False"
  by (cases ret; simp)+

lemma next_running [simp]: "running_at (FExecute_next ejqr pj) j = (0 < one pj j)" "dead (FExecute_next ejqr pj) j = 0"
  "owns (FExecute_next ejqr pj) = False" "FExecute_next ejqr pj \<noteq> PostRunning i ejr"
  by (cases ejqr; simp)+

lemma EjqrAdd_waiting: "EjqrAdd pjq pj s = (r, s') \<Longrightarrow> m_listjlWaiting s' = m_listjlWaiting s \<and> jobs s' = jobs s"
  by (auto simp: EjqrAdd_def IncRefs_def Let_def split: if_splits)

lemma waits_set: "j \<in> set (m_listjlWaiting s) \<longleftrightarrow> 0 < waits s j"
  using count_list_0_iff [of "m_listjlWaiting s" j] by (auto simp: waits_def)

text \<open>A step keeps the states in step with the places, where \<open>O'\<close>, \<open>D'\<close> and \<open>L\<close> are the jobs that other workers
  run, complete and leave.\<close>

lemma wstep_track:
  assumes w: "wstep p s p' s'" and g: "good F W R D p s"
    and e: "\<And>j. j \<in> jobs s \<Longrightarrow> e j = stat (j \<in> set (m_listjlWaiting s)) (running_at p j \<or> O' j) (0 < dead p j \<or> D' j)"
    and o: "\<And>j. O' j \<Longrightarrow> 0 < R j + F j \<or> L j" "\<And>j. D' j \<Longrightarrow> 0 < F j" "\<And>j. L j \<Longrightarrow> owns p \<or> locks p p' \<Longrightarrow> False"
    and c: "\<And>j. p = PostRunning j EjrSuspended \<Longrightarrow> j \<in> jobs s \<and> j \<notin> set (m_listjlWaiting s) \<and> \<not> O' j \<and> \<not> D' j"
    and j: "j \<in> jobs s'"
  shows "track p p' s' e j = stat (j \<in> set (m_listjlWaiting s')) (running_at p' j \<or> O' j) (0 < dead p' j \<or> D' j)"
proof -
  have alone: "\<not> O' pj \<and> pj \<notin> set (m_listjlWaiting s) \<and> ret_job ret pj = 0" if "p = ResumeParent pj ret" for pj ret
    using place_quiet(3,6,7) [OF g, of pj] o(1,3) [of pj] that by (cases ret) (auto simp: waits_set)
  show ?thesis
  using w
proof cases
  case (retrieve pj)
  then show ?thesis using place_quiet(6) [OF g, of pj] e [of j] j
    by (auto simp: PjRetrieve_def SetState_def stat_def waits_def count_list_0_iff split: list.splits)
next
  case (body_add c fMain fAdded pjq)
  then show ?thesis using e [of j] j
    by (auto simp: Add_def Schedule_def IncRefs_def SetState_def stat_def Let_def)
next
  case (post_running pj ejr)
  then show ?thesis using e [of j] c [of j] j
    by (cases ejr) (auto simp: EjrPostExecute_running_def SetState_def Suspend_def stat_def)
next
  case (enqueue pj pjq ejqr)
  then show ?thesis using e [of j] j EjqrAdd_waiting [OF enqueue(4)] by (auto simp: stat_def)
next
  case (resume pj)
  then show ?thesis using e [of j] j by (auto simp: Schedule_def SetState_def stat_def)
next
  case (resume_no_parent pj ret)
  then show ?thesis using e [of j] j alone [of pj ret] by (auto simp: SetState_def stat_def)
next
  case (resume_parent pj q fResume ret)
  then show ?thesis using e [of j] j alone [of pj ret]
    by (auto simp: SetState_def stat_def FResumeParent_def UlpDecrRefs_def)
next
  case (resume_push q pj ret)
  then show ?thesis using e [of j] j by (auto simp: Schedule_def SetState_def stat_def)
next
  case (count_down pj ret)
  then show ?thesis using e [of j] j by (auto simp: Complete_def stat_def)
next
  case (notify_decr pj' u pj)
  then show ?thesis using e [of j] j by (auto simp: UlpDecrRefs_def stat_def)
next
  case (post pj fCompleted ejr)
  then show ?thesis using e [of j] j by (auto simp: EjrPostExecute_def UlpDecrRefs_def stat_def one_def)
qed (use e [of j] j in \<open>auto simp: IncRefs_def UlpDecrRefs_def PjRetrieve_def NotifyCompleted_mark_def NotifyCompleted_remove_def
  PreExecute_running_def stat_def one_def split: list.splits\<close>)
qed

text \<open>What a step of one worker may change for a job that another worker leaves suspended.\<close>

lemma wstep_keeps:
  assumes w: "wstep p s p' s'" and m: "\<not> owns p" "\<not> locks p p'" and j: "j \<in> jobs s"
  shows "j \<in> jobs s'" "set (m_listjlWaiting s') = set (m_listjlWaiting s)" "running_at p' j = running_at p j"
    "dead p' j = dead p j" "\<not> owns p'"
proof -
  have "j \<in> jobs s' \<and> set (m_listjlWaiting s') = set (m_listjlWaiting s) \<and> running_at p' j = running_at p j
      \<and> dead p' j = dead p j \<and> \<not> owns p'"
    using w
  proof cases
    case (enqueue pj pjq ejqr)
    then show ?thesis using j EjqrAdd_waiting [OF enqueue(4)] by auto
  qed (use m j in \<open>auto simp: IncRefs_def UlpDecrRefs_def NotifyCompleted_mark_def NotifyCompleted_remove_def
    PreExecute_running_def one_def split: list.splits if_splits\<close>)
  then show "j \<in> jobs s'" "set (m_listjlWaiting s') = set (m_listjlWaiting s)" "running_at p' j = running_at p j"
    "dead p' j = dead p j" "\<not> owns p'" by blast+
qed

lemma wstep_owns:
  assumes "wstep p s p' s'" "owns p'"
  shows "owns p \<or> locks p p'"
  using assms
proof cases
  case (post_running pj ejr) then show ?thesis by simp
qed (auto split: if_splits)

lemma wstep_leaves:
  assumes w: "wstep p s (PostRunning j EjrSuspended) s'" and g: "good F W R D p s"
  shows "(\<exists>c. p = Post j c) \<and> F j = 0 \<and> R j = 0 \<and> j \<in> jobs s' \<and> j \<notin> set (m_listjlWaiting s')"
  using w
proof cases
  case (post c)
  note h = held_alive [OF g, of j] and en = entryD(5) [OF goodD(1) [OF g, of j]]
  show ?thesis using post h en waits_set [of j s]
    by (auto simp: EjrPostExecute_def UlpDecrRefs_def split: if_splits)
next
  case (post_running pj ejr) then show ?thesis by (cases ejr) simp_all
next
  case (count_down pj ret) then show ?thesis by (cases ret) simp_all
next
  case (enqueue pj pjq ejqr) then show ?thesis by (cases ejqr) simp_all
qed (auto split: if_splits)

lemma others_known:
  assumes ok: "track_ok n pcs s e" and t: "t < n" and f: "locks (pcs t) p' \<longrightarrow> mutex_free n pcs"
  shows "others_run n pcs t j \<Longrightarrow> 0 < rest n pcs t runs j + rest n pcs t tokens j \<or> others_leave n pcs t j"
    "others_dead n pcs t j \<Longrightarrow> 0 < rest n pcs t tokens j" "others_leave n pcs t j \<Longrightarrow> owns (pcs t) \<or> locks (pcs t) p' \<Longrightarrow> False"
proof -
  show "0 < rest n pcs t runs j + rest n pcs t tokens j \<or> others_leave n pcs t j" if o: "others_run n pcs t j"
  proof -
    obtain u where u: "u < n" "u \<noteq> t" "running_at (pcs u) j" using o by (auto simp: others_run_def)
    then show ?thesis using running_token [of "pcs u" j] rest_ge [of u n t runs pcs j] rest_ge [of u n t tokens pcs j]
      by (auto simp: others_leave_def)
  qed
  show "0 < rest n pcs t tokens j" if o: "others_dead n pcs t j"
  proof -
    obtain u where u: "u < n" "u \<noteq> t" "0 < dead (pcs u) j" using o by (auto simp: others_dead_def)
    then show ?thesis using dead_le_tokens [of "pcs u" j] rest_ge [of u n t tokens pcs j] by simp
  qed
  show False if l: "others_leave n pcs t j" "owns (pcs t) \<or> locks (pcs t) p'"
  proof -
    obtain u where u: "u < n" "u \<noteq> t" "owns (pcs u)" using l(1) by (auto simp: others_leave_def)
    then show ?thesis using ok t f l(2) unfolding track_ok_def mutex_free_def by metis
  qed
qed

lemma track_work:
  assumes ok: "track_ok n pcs s e" and so: "sched_ok n pcs s" and t: "t < n" and w: "wstep (pcs t) s p' s'"
    and f: "locks (pcs t) p' \<longrightarrow> mutex_free n pcs"
  shows "track_ok n (pcs(t := p')) s' (track (pcs t) p' s' e)"
proof -
  have g: "good (rest n pcs t tokens) (rest n pcs t holds) (rest n pcs t runs) (rest n pcs t dead) (pcs t) s"
    using so t by (simp add: sched_ok_def)
  note k = others_known [OF ok t f]
  have "track (pcs t) p' s' e j = status n (pcs(t := p')) s' j" if j: "j \<in> jobs s'" for j
  proof -
    have e: "e i = stat (i \<in> set (m_listjlWaiting s)) (running_at (pcs t) i \<or> others_run n pcs t i)
        (0 < dead (pcs t) i \<or> others_dead n pcs t i)" if "i \<in> jobs s" for i
      using ok that status_own [OF t] by (simp add: track_ok_def)
    have c: "i \<in> jobs s \<and> i \<notin> set (m_listjlWaiting s) \<and> \<not> others_run n pcs t i \<and> \<not> others_dead n pcs t i"
      if "pcs t = PostRunning i EjrSuspended" for i using ok t that by (simp add: track_ok_def)
    show ?thesis
      using wstep_track [OF w g, of e "others_run n pcs t" "others_dead n pcs t" "others_leave n pcs t", OF e k c j]
      by (simp add: status_own [OF t])
  qed
  moreover have "a = b" if "a < n" "b < n" "owns ((pcs(t := p')) a)" "owns ((pcs(t := p')) b)" for a b
  proof -
    have "\<not> owns (pcs u)" if "owns p'" "u < n" "u \<noteq> t" for u
      using wstep_owns [OF w that(1)] ok t f that unfolding track_ok_def mutex_free_def by metis
    then show ?thesis using that ok t unfolding track_ok_def by (metis fun_upd_apply)
  qed
  moreover have "j \<in> jobs s' \<and> j \<notin> set (m_listjlWaiting s') \<and> \<not> others_run n (pcs(t := p')) u j \<and> \<not> others_dead n (pcs(t := p')) u j"
    if u: "u < n" "(pcs(t := p')) u = PostRunning j EjrSuspended" for u j
  proof (cases "u = t")
    case True
    then have p': "p' = PostRunning j EjrSuspended" using u by simp
    note l = wstep_leaves [OF w [unfolded p'] g]
    then have "\<not> others_leave n pcs t j" using k(3) [of j] by auto
    then show ?thesis using True l k(1,2) [of j] by auto
  next
    case False
    then have pu: "pcs u = PostRunning j EjrSuspended" "owns (pcs u)" using u by simp_all
    have m: "\<not> owns (pcs t)" "\<not> locks (pcs t) p'"
      using ok t f u(1) pu(2) False unfolding track_ok_def mutex_free_def by blast+
    have c: "j \<in> jobs s" "j \<notin> set (m_listjlWaiting s)" "\<not> others_run n pcs u j" "\<not> others_dead n pcs u j"
      using ok u(1) pu(1) unfolding track_ok_def by blast+
    note kp = wstep_keeps [OF w m c(1)]
    have "others_run n (pcs(t := p')) u j = others_run n pcs u j" "others_dead n (pcs(t := p')) u j = others_dead n pcs u j"
      using kp(3,4) by (auto simp: others_run_def others_dead_def)
    then show ?thesis using c kp by simp
  qed
  ultimately show ?thesis unfolding track_ok_def by blast
qed

lemma idle_places: "idle pc \<Longrightarrow> running_at pc = (\<lambda>_. False) \<and> dead pc = (\<lambda>_. 0) \<and> \<not> owns pc \<and> pc \<noteq> PostRunning j ejr"
  by (auto simp: idle_def fun_eq_iff)

lemma track_change:
  assumes ok: "track_ok n pcs s e" and k: "\<And>u. pcs' u = pcs u \<or> idle (pcs u) \<and> idle (pcs' u)"
  shows "track_ok n pcs' s e"
proof -
  have f: "running_at (pcs' v) = running_at (pcs v)" "dead (pcs' v) = dead (pcs v)" "owns (pcs' v) = owns (pcs v)"
    "pcs' v = PostRunning j ejr \<longleftrightarrow> pcs v = PostRunning j ejr" for v j ejr
    using k [of v] idle_places by (metis, metis, metis, metis)
  show ?thesis using ok by (simp add: track_ok_def status_def others_run_def others_dead_def f)
qed

lemma track_start: "track_ok n (\<lambda>_. Started) (Add pj None pjq sched_new) (SetState pj EjsWaiting (\<lambda>_. EjsInit))"
  by (auto simp: track_ok_def status_def stat_def SetState_def Add_def Schedule_def sched_new_def)

lemma track_reach_ok: "track_reach True n c \<Longrightarrow> track_ok n (fst c) (fst (snd c)) (snd (snd c))"
proof (induction rule: track_reach.induct)
  case (step c c')
  have so: "sched_ok n (fst c) (fst (snd c))" using sched_reach_ok [OF track_reach_reach [OF step.hyps(1)]] by simp
  show ?case
    using step.hyps(2)
  proof cases
    case (work t pcs s pc s' e)
    then show ?thesis using track_work [of n pcs s e t pc s'] so step.IH by (simp del: fun_upd_apply)
  qed (use step.IH in \<open>auto elim!: track_change simp: wake_def idle_def split: if_splits\<close>)
qed (simp add: track_start)

section \<open>The assertions\<close>

text \<open>What the code asserts of the states of the jobs at a place of a worker; \<open>free\<close> tells that the mutex is not
  owned by another worker, as after locking it.\<close>

fun tracked :: "bool \<Rightarrow> sched \<Rightarrow> (nat \<Rightarrow> ejs) \<Rightarrow> wpc \<Rightarrow> bool" where
  "tracked free s m_ejs Loop = (m_listjlWaiting s \<noteq> [] \<longrightarrow> m_ejs (hd (m_listjlWaiting s)) = EjsWaiting)"
| "tracked free s m_ejs (PostRunning pj ejr) = (ejr = EjrSuspended \<longrightarrow> m_ejs pj = EjsRunning)"
| "tracked free s m_ejs (Resume pj) = (m_ejs pj \<in> {EjsInit, EjsRunning, EjsSuspended})"
| "tracked free s m_ejs (ResumeParent pj ret) = (if ret = ToLoop then m_ejs pj = EjsRunning else free \<longrightarrow> m_ejs pj = EjsSuspended)"
| "tracked free s m_ejs (ResumePush pjParent pj ret) = (m_ejs pjParent \<in> {EjsInit, EjsRunning, EjsSuspended})"
| "tracked free s m_ejs pc = True"

lemma track_ok_tracked:
  assumes ok: "track_ok n pcs s e" and so: "sched_ok n pcs s" and t: "t < n"
  shows "tracked (mutex_free n pcs) s e (pcs t)"
proof -
  have g: "good (rest n pcs t tokens) (rest n pcs t holds) (rest n pcs t runs) (rest n pcs t dead) (pcs t) s"
    using so t by (simp add: sched_ok_def)
  note pl = place_quiet [OF g] and k = others_known [OF ok t]
  have st: "e j = stat (0 < waits s j) (running_at (pcs t) j \<or> others_run n pcs t j) (0 < dead (pcs t) j \<or> others_dead n pcs t j)"
    if "j \<in> jobs s" for j using ok that status_own [OF t] by (simp add: track_ok_def waits_set)
  show ?thesis
  proof (cases "pcs t")
    case Loop
    show ?thesis
    proof (cases "m_listjlWaiting s")
      case (Cons j js)
      then show ?thesis using pl(5) [of j] st [of j] Loop by (simp add: waits_def stat_def)
    qed (simp add: Loop)
  next
    case (PostRunning j ejr)
    then show ?thesis using ok t st [of j] by (auto simp: track_ok_def stat_def waits_set)
  next
    case (Resume j)
    then show ?thesis using pl(5,6) [of j] st [of j] by (simp add: stat_def)
  next
    case (ResumeParent j ret)
    then show ?thesis using pl(3,5,6,7) [of j] st [of j] k [of "pcs t" j] by (cases ret) (auto simp: stat_def)
  next
    case (ResumePush q j ret)
    then show ?thesis using pl(3,5,6,7) [of q] st [of q] k [of "pcs t" q] by (auto simp: stat_def)
  qed simp_all
qed

lemma owns_busy: "owns pc \<Longrightarrow> busy pc"
  by (cases pc) (simp_all add: busy_def)

text \<open>The mutex does not block all workers: one that is at work can make its step, unless another worker owns
  the mutex, who can make a step then.\<close>

lemma tracking_progress:
  assumes r: "track_reach True n (pcs, s, e)" and t: "t < n" "busy (pcs t)"
  shows "\<exists>c. track_step True n (pcs, s, e) c"
proof -
  have sr: "sched_reach n (pcs, s)" using track_reach_reach [OF r] by simp
  obtain u where u: "u < n" "busy (pcs u)" "owns (pcs u) \<or> mutex_free n pcs"
    using t owns_busy by (cases "mutex_free n pcs") (auto simp: mutex_free_def)
  obtain p' s' where w: "wstep (pcs u) s p' s'" using busy_step [OF reach_good [OF sr u(1)] u(2)] by blast
  have "owns pc \<Longrightarrow> \<not> locks pc p'" for pc by (cases pc) simp_all
  then show ?thesis using track_step.work [of u n pcs s p' s' True e] u w by blast
qed

text \<open>C16 The assertions of the scheduler, the job queues and the jobs hold in every interleaving of the workers.\<close>

theorem scheduler_assertions:
  assumes r: "track_reach fTracking n (pcs, s, m_ejs)" and t: "t < n"
  shows "asserted s (pcs t) \<and> m_ulpRunning s \<le> n
    \<and> (fTracking \<longrightarrow> tracked (mutex_free n pcs) s m_ejs (pcs t) \<and> (owns (pcs t) \<longrightarrow> (\<forall>u < n. u \<noteq> t \<longrightarrow> \<not> owns (pcs u))))"
proof -
  have sr: "sched_reach n (pcs, s)" using track_reach_reach [OF r] by simp
  have "track_ok n pcs s m_ejs" if fTracking using track_reach_ok [of n "(pcs, s, m_ejs)"] r that by simp
  moreover have "owns (pcs t) \<longrightarrow> (\<forall>u < n. u \<noteq> t \<longrightarrow> \<not> owns (pcs u))" if "track_ok n pcs s m_ejs"
    using that t unfolding track_ok_def by metis
  ultimately show ?thesis
    using good_asserted [OF reach_good [OF sr t]] running_le [OF sr] track_ok_tracked [OF _ sched_reach_ok [OF sr, simplified] t] by blast
qed

theorem scheduler_assertions_witness:
  "asserted ((Add 0 None None sched_new)\<lparr>m_listjlWaiting := []\<rparr>) (PreExecute 0)"
proof -
  let ?s = "Add 0 None None sched_new" and ?p = "\<lambda>_ :: nat. Started" and ?e = "SetState 0 EjsWaiting (\<lambda>_. EjsInit)"
  have "track_step True 2 (?p, ?s, ?e) (?p(0 := Loop), ?s, ?e)"
    using track_step.work [of 0 2 ?p ?s Loop ?s True ?e] by (simp add: wstep.started)
  then have 1: "track_reach True 2 (?p(0 := Loop), ?s, ?e)" using track_reach.start track_reach.step by blast
  have w: "wstep Loop ?s (PreExecute 0) (?s\<lparr>m_listjlWaiting := []\<rparr>)"
    by (rule wstep.retrieve) (simp add: PjRetrieve_def Add_def Schedule_def sched_new_def)
  have "track_step True 2 (?p(0 := Loop), ?s, ?e)
    ((?p(0 := Loop))(0 := PreExecute 0), ?s\<lparr>m_listjlWaiting := []\<rparr>, SetState 0 EjsRunning ?e)"
    using track_step.work [of 0 2 "?p(0 := Loop)" ?s "PreExecute 0" "?s\<lparr>m_listjlWaiting := []\<rparr>" True ?e] w
    by (simp add: mutex_free_def)
  then show ?thesis using scheduler_assertions [OF track_reach.step [OF 1], of _ _ _ 0] by fastforce
qed

end
