(* ===== verification/GroupDuplicates.thy ===== *)
theory GroupDuplicates
  imports Prelude
begin

text \<open>
  Groups of the memo that turn out to hold the same expressions are marked as duplicates
  (\<open>AddDuplicateGrp\<close>, \<open>ResolveDuplicateMaster\<close> and \<open>FDuplicateGroups\<close> in
  \<^verbatim>\<open>libgpopt/src/search/CGroup.cpp\<close>, \<open>MarkDuplicates\<close> in \<^verbatim>\<open>CMemo.cpp\<close>): a union-find structure
  of links to groups with larger ids, changed by compare and swap.  Groups are named by their ids.
  The operations are modelled by their accesses to the links; run one after the other they keep
  the equivalence that the marks generate, run by two threads they can make a group its own duplicate.
\<close>

section \<open>The links and the operations\<close>

type_synonym dups = "nat \<Rightarrow> nat option"

text \<open>
  Where a thread is: in the loop of \<open>AddDuplicateGrp\<close>, before the test of its link, before the
  compare and swap, before it follows the link; in \<open>ResolveDuplicateMaster\<close>, before the first read,
  in the loop, before the write.  \<open>DupFault\<close> is the use of a null pointer.
\<close>

datatype dup_pc = DupIdle | AddTest nat nat | AddSwap nat nat | AddFollow nat nat
  | ResTest nat | ResFollow nat nat | ResWrite nat nat | DupFault

text \<open>The swap of source and destination by their ids.\<close>

definition ordered :: "nat \<Rightarrow> nat \<Rightarrow> dup_pc" where
  "ordered pgroupSrc pgroupDest = (if pgroupDest < pgroupSrc then AddTest pgroupDest pgroupSrc else AddTest pgroupSrc pgroupDest)"

fun AddDuplicateGrp_step :: "dup_pc \<Rightarrow> dups \<Rightarrow> dups \<times> dup_pc" where
  "AddDuplicateGrp_step (AddTest s d) m = (m, if m s = Some d then DupIdle else AddSwap s d)"
| "AddDuplicateGrp_step (AddSwap s d) m = (if m s = None then (m(s \<mapsto> d), DupIdle) else (m, AddFollow s d))"
| "AddDuplicateGrp_step (AddFollow s d) m = (m, case m s of Some s' \<Rightarrow> ordered s' d | None \<Rightarrow> DupFault)"
| "AddDuplicateGrp_step pc m = (m, pc)"

fun ResolveDuplicateMaster_step :: "dup_pc \<Rightarrow> dups \<Rightarrow> dups \<times> dup_pc" where
  "ResolveDuplicateMaster_step (ResTest g) m = (m, case m g of None \<Rightarrow> DupIdle | Some t \<Rightarrow> ResFollow g t)"
| "ResolveDuplicateMaster_step (ResFollow g t) m = (m, case m t of None \<Rightarrow> ResWrite g t | Some t' \<Rightarrow> ResFollow g t')"
| "ResolveDuplicateMaster_step (ResWrite g t) m = (m(g \<mapsto> t), DupIdle)"
| "ResolveDuplicateMaster_step pc m = (m, pc)"

definition dup_step :: "dup_pc \<Rightarrow> dups \<Rightarrow> dups \<times> dup_pc" where
  "dup_step pc m = (case AddDuplicateGrp_step pc m of (m', pc') \<Rightarrow>
     if m' = m \<and> pc' = pc then ResolveDuplicateMaster_step pc m else (m', pc'))"

text \<open>An operation that no other thread disturbs; it need not end.\<close>

partial_function (option) dup_run :: "dup_pc \<Rightarrow> dups \<Rightarrow> dups option" where
  "dup_run pc m =
     (if pc = DupIdle then Some m else if pc = DupFault then None
      else case dup_step pc m of (m', pc') \<Rightarrow> dup_run pc' m')"

definition AddDuplicateGrp :: "nat \<Rightarrow> nat \<Rightarrow> dups \<Rightarrow> dups option" where
  "AddDuplicateGrp this pgroup m = dup_run (ordered this pgroup) m"

definition ResolveDuplicateMaster :: "nat \<Rightarrow> dups \<Rightarrow> dups option" where
  "ResolveDuplicateMaster this m = dup_run (ResTest this) m"

definition MarkDuplicates :: "nat \<Rightarrow> nat \<Rightarrow> dups \<Rightarrow> dups option" where
  "MarkDuplicates pgroupFst pgroupSnd m =
     Option.bind (Option.bind (AddDuplicateGrp pgroupFst pgroupSnd m) (ResolveDuplicateMaster pgroupFst))
       (ResolveDuplicateMaster pgroupSnd)"

definition FDuplicateGroups :: "dups \<Rightarrow> nat \<Rightarrow> nat \<Rightarrow> bool" where
  "FDuplicateGroups m pgroupFst pgroupSnd \<longleftrightarrow>
     (let pgroupFstDup = m pgroupFst; pgroupSndDup = m pgroupSnd
      in pgroupFst = pgroupSnd \<or> Some pgroupFst = pgroupSndDup \<or> Some pgroupSnd = pgroupFstDup
         \<or> pgroupFstDup \<noteq> None \<and> pgroupSndDup \<noteq> None \<and> pgroupFstDup = pgroupSndDup)"

lemma dup_step_simps [simp]:
  "dup_step (AddTest s d) m = (m, if m s = Some d then DupIdle else AddSwap s d)"
  "dup_step (AddSwap s d) m = (if m s = None then (m(s \<mapsto> d), DupIdle) else (m, AddFollow s d))"
  "m s = Some s' \<Longrightarrow> s < s' \<Longrightarrow> s < d \<Longrightarrow> dup_step (AddFollow s d) m = (m, ordered s' d)"
  "dup_step (ResTest g) m = (m, case m g of None \<Rightarrow> DupIdle | Some t \<Rightarrow> ResFollow g t)"
  "dup_step (ResFollow g t) m = (m, case m t of None \<Rightarrow> ResWrite g t | Some t' \<Rightarrow> ResFollow g t')"
  "dup_step (ResWrite g t) m = (m(g \<mapsto> t), DupIdle)"
  by (auto simp: dup_step_def ordered_def)

declare dup_run.simps [simp del]

section \<open>The equivalence of the links\<close>

definition link :: "dups \<Rightarrow> nat \<Rightarrow> nat \<Rightarrow> bool" where
  "link m x y \<longleftrightarrow> m x = Some y"

abbreviation same_group :: "dups \<Rightarrow> nat \<Rightarrow> nat \<Rightarrow> bool" where
  "same_group m \<equiv> equivclp (link m)"

lemma same_link: "m x = Some y \<Longrightarrow> same_group m x y"
  by (rule r_into_equivclp) (simp add: link_def)

definition dups_ok :: "dups \<Rightarrow> bool" where
  "dups_ok m \<longleftrightarrow> finite (dom m) \<and> (\<forall>x y. m x = Some y \<longrightarrow> x < y)"

lemma equivclp_least:
  assumes "\<And>x y. r x y \<Longrightarrow> equivclp r' x y" "equivclp r x y"
  shows "equivclp r' x y"
  using assms(2)
proof (induction rule: equivclp_induct)
  case (step y z)
  then have "equivclp r' y z" using assms(1) equivclp_sym by metis
  then show ?case using step.IH equivclp_trans by metis
qed simp

lemma equivclp_eqI:
  assumes "\<And>x y. r x y \<Longrightarrow> equivclp r' x y" "\<And>x y. r' x y \<Longrightarrow> equivclp r x y"
  shows "equivclp r = equivclp r'"
proof (intro ext iffI)
  show "equivclp r' x y" if "equivclp r x y" for x y using equivclp_least [of r r'] assms(1) that by metis
  show "equivclp r x y" if "equivclp r' x y" for x y using equivclp_least [of r' r] assms(2) that by metis
qed

text \<open>One more pair.\<close>

definition join :: "(nat \<Rightarrow> nat \<Rightarrow> bool) \<Rightarrow> nat \<Rightarrow> nat \<Rightarrow> nat \<Rightarrow> nat \<Rightarrow> bool" where
  "join r a b = equivclp (\<lambda>x y. r x y \<or> x = a \<and> y = b)"

lemma joinI: "equivclp r x y \<Longrightarrow> join r a b x y" "join r a b a b"
  unfolding join_def by (auto elim: equivclp_least [rotated])

lemma join_trans: "join r a b x y \<Longrightarrow> join r a b y z \<Longrightarrow> join r a b x z"
  unfolding join_def by (rule equivclp_trans)

lemma join_least:
  assumes "equivclp r a a'" "equivclp r b b'" "join r a b x y"
  shows "join r a' b' x y"
proof -
  have "join r a' b' a a'" "join r a' b' b' b"
    using joinI(1) assms(1) equivclp_sym [OF assms(2)] by blast+
  then have ab: "join r a' b' a b" using joinI(2) [of r a' b'] join_trans by metis
  show ?thesis
    using assms(3) ab joinI(1) [of r _ _ a' b'] unfolding join_def
    by (elim equivclp_least [rotated]) blast
qed

lemma join_cong:
  assumes "equivclp r a a'" "equivclp r b b'"
  shows "join r a b = join r a' b'"
  using join_least [OF assms] join_least [OF equivclp_sym [OF assms(1)] equivclp_sym [OF assms(2)]]
  by (intro ext iffI)

lemma join_sym: "join r a b = join r b a"
  unfolding join_def by (rule equivclp_eqI) auto

lemma join_link: "m a = None \<Longrightarrow> same_group (m(a \<mapsto> b)) = join (link m) a b"
  unfolding join_def by (rule arg_cong [of _ _ equivclp]) (auto simp: link_def fun_eq_iff)

lemma join_same: "equivclp r a b \<Longrightarrow> join r a b = equivclp r"
  unfolding join_def by (rule equivclp_eqI) auto

text \<open>The group at the end of the links.\<close>

definition master_of :: "dups \<Rightarrow> nat \<Rightarrow> nat \<Rightarrow> bool" where
  "master_of m x r \<longleftrightarrow> (link m)\<^sup>*\<^sup>* x r \<and> m r = None"

text \<open>Links go up, which bounds every walk along them.\<close>

definition above :: "dups \<Rightarrow> nat \<Rightarrow> nat" where
  "above m x = card {y \<in> dom m. x \<le> y}"

lemma above_less:
  assumes "dups_ok m" "m x = Some y" "x < z"
  shows "above m z < above m x"
  unfolding above_def
proof (rule psubset_card_mono)
  have "x \<in> {y \<in> dom m. x \<le> y}" "x \<notin> {y \<in> dom m. z \<le> y}" using assms by auto
  moreover have "{y \<in> dom m. z \<le> y} \<subseteq> {y \<in> dom m. x \<le> y}" using assms(3) by auto
  ultimately show "{y \<in> dom m. z \<le> y} \<subset> {y \<in> dom m. x \<le> y}" by (metis psubsetI)
qed (use assms(1) in \<open>simp add: dups_ok_def\<close>)

lemma master_ex:
  assumes "dups_ok m"
  shows "\<exists>r. master_of m x r \<and> x \<le> r"
proof (induction "above m x" arbitrary: x rule: less_induct)
  case less
  show ?case
  proof (cases "m x")
    case None then show ?thesis by (auto simp: master_of_def)
  next
    case (Some y)
    have lt: "x < y" using assms Some by (simp add: dups_ok_def)
    obtain r where r: "master_of m y r" "y \<le> r" using less [OF above_less [OF assms Some lt]] by blast
    have "link m x y" using Some by (simp add: link_def)
    then have "master_of m x r" using r(1) unfolding master_of_def by (metis converse_rtranclp_into_rtranclp)
    then show ?thesis using r(2) lt by (intro exI [of _ r]) simp
  qed
qed

lemma master_self: "m x = None \<Longrightarrow> master_of m x r \<longleftrightarrow> r = x"
  unfolding master_of_def by (auto simp: link_def elim: converse_rtranclpE)

lemma master_step: "m x = Some y \<Longrightarrow> master_of m x r \<longleftrightarrow> master_of m y r"
  unfolding master_of_def
  by (metis converse_rtranclpE converse_rtranclp_into_rtranclp link_def option.inject option.distinct(1))

lemma same_master: "same_group m x y \<Longrightarrow> master_of m x r \<Longrightarrow> master_of m y r"
proof (induction rule: equivclp_induct)
  case (step y z) then show ?case using master_step [of m y z r] master_step [of m z y r] by (auto simp: link_def)
qed

lemma master_same: "master_of m x r \<Longrightarrow> same_group m x r"
  unfolding master_of_def by (simp add: rtranclp_into_equivclp)

lemma master_unique: "master_of m x r \<Longrightarrow> master_of m x r' \<Longrightarrow> r = r'"
  using same_master [OF master_same, of m x r r'] master_self [of m r r'] by (simp add: master_of_def)

lemma same_masters: "m r = None \<Longrightarrow> m r' = None \<Longrightarrow> same_group m r r' \<longleftrightarrow> r = r'"
  using same_master [of m r r' r] master_self [of m r r] master_self [of m r' r] by auto

lemma FDuplicateGroups_same: "FDuplicateGroups m a b \<Longrightarrow> same_group m a b"
proof -
  have "same_group m a b" if "m a = Some y" "m b = Some y" for y
    using that equivclp_trans [of "link m" a y b] r_into_equivclp [of "link m" a y]
      converse_r_into_equivclp [of "link m" b y] by (simp add: link_def)
  then show "FDuplicateGroups m a b \<Longrightarrow> same_group m a b"
    unfolding FDuplicateGroups_def Let_def by (auto simp: link_def)
qed

section \<open>The operations on their own\<close>

lemma dup_run_step: "pc \<noteq> DupIdle \<Longrightarrow> pc \<noteq> DupFault \<Longrightarrow> dup_run pc m = dup_run (snd (dup_step pc m)) (fst (dup_step pc m))"
  by (subst dup_run.simps) (simp split: prod.split)

lemma dup_run_idle [simp]: "dup_run DupIdle m = Some m"
  by (subst dup_run.simps) simp

lemma dups_ok_upd: "dups_ok m \<Longrightarrow> x < y \<Longrightarrow> dups_ok (m(x \<mapsto> y))"
  by (auto simp: dups_ok_def)

text \<open>All links are between groups of \<open>G\<close>.\<close>

definition within :: "nat set \<Rightarrow> dups \<Rightarrow> bool" where
  "within G m \<longleftrightarrow> (\<forall>x y. m x = Some y \<longrightarrow> x \<in> G \<and> y \<in> G)"

lemma within_walk: "(link m)\<^sup>*\<^sup>* x y \<Longrightarrow> within G m \<Longrightarrow> x \<in> G \<Longrightarrow> y \<in> G"
  by (induction rule: rtranclp_induct) (auto simp: link_def within_def)

text \<open>At most one group that was its own master gets a link.\<close>

lemma add_run:
  assumes "dups_ok m" "s < d" "within G m" "s \<in> G" "d \<in> G"
  shows "\<exists>m'. dup_run (AddTest s d) m = Some m' \<and> dups_ok m' \<and> same_group m' = join (link m) s d
    \<and> (m' = m \<or> (\<exists>x y. m x = None \<and> m' = m(x \<mapsto> y) \<and> x < y \<and> x \<in> G \<and> y \<in> G))"
  using assms(2,4,5)
proof (induction "above m s" arbitrary: s d rule: less_induct)
  case less
  consider "m s = Some d" | "m s = None" | s' where "m s = Some s'" "s' \<noteq> d" by (cases "m s") auto
  then show ?case
  proof cases
    case 1
    then have "same_group m = join (link m) s d" using join_same [OF same_link] by metis
    then show ?thesis using 1 assms(1) by (simp add: dup_run_step)
  next
    case 2
    then show ?thesis using 2 assms(1) less.prems join_link [of m s d] by (auto simp: dup_run_step dups_ok_upd)
  next
    case 3
    have lt: "s < s'" "s' \<in> G" using assms(1,3) 3 by (simp_all add: dups_ok_def within_def)
    have run: "dup_run (AddTest s d) m = dup_run (ordered s' d) m"
      using 3 less.prems(1) lt by (simp add: dup_run_step)
    have j: "join (link m) s d = join (link m) s' d" by (rule join_cong) (use 3 same_link in simp_all)
    show ?thesis
    proof (cases "d < s'")
      case True
      then show ?thesis using less.hyps [OF above_less [OF assms(1) 3(1) less.prems(1)] True] less.prems lt run j join_sym [of "link m" s' d]
        by (simp add: ordered_def)
    next
      case False
      then have "s' < d" using 3(2) by simp
      then show ?thesis using less.hyps [OF above_less [OF assms(1) 3(1) lt(1)]] less.prems lt run j False by (simp add: ordered_def)
    qed
  qed
qed

lemma AddDuplicateGrp_run:
  assumes "dups_ok m" "a \<noteq> b" "within G m" "a \<in> G" "b \<in> G"
  shows "\<exists>m'. AddDuplicateGrp a b m = Some m' \<and> dups_ok m' \<and> same_group m' = join (link m) a b
    \<and> (m' = m \<or> (\<exists>x y. m x = None \<and> m' = m(x \<mapsto> y) \<and> x < y \<and> x \<in> G \<and> y \<in> G))"
  using add_run [OF assms(1) _ assms(3), of a b] add_run [OF assms(1) _ assms(3), of b a] assms(2,4,5) join_sym [of "link m" a b]
  by (cases "b < a") (simp_all add: AddDuplicateGrp_def ordered_def)

lemma resolve_run:
  assumes "dups_ok m"
  shows "\<exists>r. master_of m t r \<and> t \<le> r \<and> dup_run (ResFollow g t) m = Some (m(g \<mapsto> r))"
proof (induction "above m t" arbitrary: t rule: less_induct)
  case less
  show ?case
  proof (cases "m t")
    case None
    then show ?thesis by (intro exI [of _ t]) (simp add: dup_run_step master_self)
  next
    case (Some t')
    have lt: "t < t'" using assms Some by (simp add: dups_ok_def)
    obtain r where "master_of m t' r" "t' \<le> r" "dup_run (ResFollow g t') m = Some (m(g \<mapsto> r))"
      using less [OF above_less [OF assms Some lt]] by blast
    then show ?thesis using Some lt by (intro exI [of _ r]) (simp add: dup_run_step master_step)
  qed
qed

text \<open>Path compression: a link to any larger group of the same class leaves the equivalence alone.\<close>

lemma compress:
  assumes ok: "dups_ok m" and x: "m x \<noteq> None" and r: "master_of m x r" and lt: "x < r"
  shows "same_group (m(x \<mapsto> r)) = same_group m"
proof (rule equivclp_eqI)
  fix a b assume l: "link (m(x \<mapsto> r)) a b"
  show "same_group m a b"
  proof (cases "a = x")
    case True then show ?thesis using l master_same [OF r] by (simp add: link_def)
  next
    case False then show ?thesis using l by (auto simp: link_def)
  qed
next
  fix a b assume l: "link m a b"
  let ?m = "m(x \<mapsto> r)"
  show "same_group ?m a b"
  proof (cases "a = x")
    case True
    have xb: "m x = Some b" using l True by (simp add: link_def)
    have "x < b" using ok xb by (simp add: dups_ok_def)
    have walk: "(link m)\<^sup>*\<^sup>* b r" using r master_step [of m x b r] xb by (simp add: master_of_def)
    have "(link ?m)\<^sup>*\<^sup>* b r \<and> x < b"
      using walk \<open>x < b\<close>
    proof (induction rule: converse_rtranclp_induct)
      case (step y z)
      then have "link ?m y z" "x < z" using ok by (auto simp: link_def dups_ok_def dest: less_trans)
      then show ?case using step by (metis converse_rtranclp_into_rtranclp)
    qed simp
    then have "same_group ?m r b" by (simp add: converse_rtranclp_into_equivclp)
    moreover have "same_group ?m x r" by (rule r_into_equivclp) (simp add: link_def)
    ultimately show ?thesis using True equivclp_trans by metis
  next
    case False then show ?thesis using l by (auto simp: link_def)
  qed
qed

lemma ResolveDuplicateMaster_run:
  assumes "dups_ok m"
  shows "\<exists>r. master_of m g r \<and> ResolveDuplicateMaster g m = Some (if m g = None then m else m(g \<mapsto> r))
    \<and> dups_ok (if m g = None then m else m(g \<mapsto> r)) \<and> same_group (if m g = None then m else m(g \<mapsto> r)) = same_group m"
proof (cases "m g")
  case None
  then show ?thesis using assms by (intro exI [of _ g]) (simp add: ResolveDuplicateMaster_def dup_run_step master_self)
next
  case (Some t)
  have lt: "g < t" using assms Some by (simp add: dups_ok_def)
  obtain r where r: "master_of m t r" "t \<le> r" "dup_run (ResFollow g t) m = Some (m(g \<mapsto> r))"
    using resolve_run [OF assms] by blast
  have m: "master_of m g r" using r(1) Some by (simp add: master_step)
  have gr: "g < r" using lt r(2) by simp
  have "ResolveDuplicateMaster g m = Some (m(g \<mapsto> r))"
    using r(3) Some by (simp add: ResolveDuplicateMaster_def dup_run_step)
  then show ?thesis using m Some dups_ok_upd [OF assms gr] compress [OF assms _ m gr]
    by (intro exI [of _ r]) simp
qed

lemma master_within: "master_of m x r \<Longrightarrow> within G m \<Longrightarrow> x \<in> G \<Longrightarrow> r \<in> G"
  using within_walk by (auto simp: master_of_def)

definition masters :: "nat set \<Rightarrow> dups \<Rightarrow> nat set" where
  "masters G m = {g \<in> G. m g = None}"

text \<open>What a resolution leaves: the links of other groups, the classes and the masters.\<close>

lemma ResolveDuplicateMaster_keeps:
  assumes "dups_ok m" "within G m"
  shows "\<exists>m'. ResolveDuplicateMaster g m = Some m' \<and> dups_ok m' \<and> within G m' \<and> same_group m' = same_group m
    \<and> masters G m' = masters G m \<and> (\<forall>x. m' x = None \<longleftrightarrow> m x = None) \<and> (\<forall>x. x \<noteq> g \<longrightarrow> m' x = m x)
    \<and> (\<forall>r. master_of m' g r \<longleftrightarrow> m' g = None \<and> r = g \<or> m' g = Some r)"
proof -
  obtain r where r: "master_of m g r" "ResolveDuplicateMaster g m = Some (if m g = None then m else m(g \<mapsto> r))"
    "dups_ok (if m g = None then m else m(g \<mapsto> r))" "same_group (if m g = None then m else m(g \<mapsto> r)) = same_group m"
    using ResolveDuplicateMaster_run [OF assms(1)] by blast
  show ?thesis
  proof (cases "m g")
    case None then show ?thesis using r assms by (intro exI [of _ m]) (auto simp: master_self)
  next
    case (Some t)
    have g: "g \<in> G" using assms(2) Some by (auto simp: within_def)
    have w: "within G (m(g \<mapsto> r))" using assms(2) master_within [OF r(1) assms(2) g] g by (simp add: within_def)
    have rn: "m r = None" using r(1) by (simp add: master_of_def)
    have ne: "r \<noteq> g" using rn Some by auto
    have "master_of (m(g \<mapsto> r)) g r' \<longleftrightarrow> r' = r" for r'
      using master_step [of "m(g \<mapsto> r)" g r r'] master_self [of "m(g \<mapsto> r)" r r'] rn ne by simp
    then show ?thesis using r Some w by (intro exI [of _ "m(g \<mapsto> r)"]) (auto simp: masters_def)
  qed
qed

lemma MarkDuplicates_run:
  assumes "dups_ok m" "within G m" "a \<noteq> b" "a \<in> G" "b \<in> G"
  shows "\<exists>m'. MarkDuplicates a b m = Some m' \<and> dups_ok m' \<and> within G m' \<and> same_group m' = join (link m) a b
    \<and> masters G m' \<subseteq> masters G m \<and> (\<not> same_group m a b \<longrightarrow> masters G m' \<subset> masters G m) \<and> FDuplicateGroups m' a b"
proof -
  obtain m1 where m1: "AddDuplicateGrp a b m = Some m1" "dups_ok m1" "same_group m1 = join (link m) a b"
    and ch: "m1 = m \<or> (\<exists>x y. m x = None \<and> m1 = m(x \<mapsto> y) \<and> x < y \<and> x \<in> G \<and> y \<in> G)"
    using AddDuplicateGrp_run [OF assms(1,3,2,4,5)] by blast
  have w1: "within G m1" using ch assms(2) by (auto simp: within_def split: if_splits)
  have sub: "masters G m1 \<subseteq> masters G m" using ch by (auto simp: masters_def split: if_splits)
  have strict: "masters G m1 \<subset> masters G m" if "\<not> same_group m a b"
  proof -
    have "same_group m1 a b" using m1(3) joinI(2) [of "link m" a b] by simp
    then have "m1 \<noteq> m" using that by auto
    then obtain x y where "m x = None" "m1 = m(x \<mapsto> y)" "x \<in> G" using ch by blast
    then have "x \<in> masters G m" "x \<notin> masters G m1" by (simp_all add: masters_def)
    then show ?thesis using sub by blast
  qed
  obtain m2 where m2: "ResolveDuplicateMaster a m1 = Some m2" "dups_ok m2" "within G m2" "same_group m2 = same_group m1"
    "masters G m2 = masters G m1" "\<And>r. master_of m2 a r \<longleftrightarrow> m2 a = None \<and> r = a \<or> m2 a = Some r"
    using ResolveDuplicateMaster_keeps [OF m1(2) w1, of a] by blast
  obtain m3 where m3: "ResolveDuplicateMaster b m2 = Some m3" "dups_ok m3" "within G m3" "same_group m3 = same_group m2"
    "masters G m3 = masters G m2" "\<And>x. x \<noteq> b \<Longrightarrow> m3 x = m2 x" "\<And>r. master_of m3 b r \<longleftrightarrow> m3 b = None \<and> r = b \<or> m3 b = Some r"
    "\<And>x. m3 x = None \<longleftrightarrow> m2 x = None"
    using ResolveDuplicateMaster_keeps [OF m2(2,3), of b] by blast
  obtain r where r: "master_of m3 a r" using master_ex [OF m3(2)] by blast
  have sab: "same_group m3 a b" using m3(4) m2(4) m1(3) joinI(2) [of "link m" a b] by simp
  have rb: "m3 b = None \<and> r = b \<or> m3 b = Some r" using same_master [OF sab r] m3(7) by blast
  have ra: "m3 a = None \<and> r = a \<or> m3 a = Some r"
  proof -
    obtain r2 where r2: "master_of m2 a r2" using master_ex [OF m2(2)] by blast
    have "same_group m3 r r2" using master_same [OF r] master_same [OF r2] m3(4) equivclp_sym equivclp_trans by metis
    then have "r = r2" using same_masters [of m3 r r2] r r2 m3(8) by (simp add: master_of_def)
    then show ?thesis using r2 m2(6) [of r2] m3(6) [of a] assms(3) by simp
  qed
  have "FDuplicateGroups m3 a b" using ra rb by (auto simp: FDuplicateGroups_def Let_def)
  then show ?thesis using m1 m2 m3 sub strict by (intro exI [of _ m3]) (simp add: MarkDuplicates_def)
qed

text \<open>Marking two groups returns, adds exactly this pair to the equivalence that the links stand for, and
  makes the test for duplicates hold for them; the links still go to larger ids.\<close>

theorem MarkDuplicates_joins:
  assumes "finite (dom m)" "\<And>x y. m x = Some y \<Longrightarrow> x < y" "a \<noteq> b"
  shows "\<exists>m'. MarkDuplicates a b m = Some m' \<and> (\<forall>x y. m' x = Some y \<longrightarrow> x < y)
    \<and> same_group m' = equivclp (\<lambda>x y. m x = Some y \<or> x = a \<and> y = b) \<and> FDuplicateGroups m' a b"
proof -
  have "dups_ok m" using assms by (simp add: dups_ok_def)
  then show ?thesis using MarkDuplicates_run [of m UNIV a b] assms(3)
    by (auto simp: within_def join_def link_def [abs_def] dups_ok_def)
qed

theorem MarkDuplicates_joins_witness: "\<exists>m'. MarkDuplicates 1 3 [2 \<mapsto> 3, 1 \<mapsto> 2] = Some m' \<and> FDuplicateGroups m' 1 3"
proof -
  have "x < y" if "[2 \<mapsto> 3, 1 \<mapsto> 2] x = Some y" for x y :: nat using that by (auto split: if_splits)
  then show ?thesis using MarkDuplicates_joins [of "[2 \<mapsto> 3, 1 \<mapsto> 2]" 1 3] by fastforce
qed

section \<open>Two threads\<close>

text \<open>Threads start an operation when they are idle and interleave at every access to the links.\<close>

inductive dup_reach :: "dups \<Rightarrow> (nat \<Rightarrow> dup_pc) \<Rightarrow> bool" where
  start: "dup_reach Map.empty (\<lambda>_. DupIdle)"
| add: "dup_reach m pcs \<Longrightarrow> pcs t = DupIdle \<Longrightarrow> a \<noteq> b \<Longrightarrow> dup_reach m (pcs(t := ordered a b))"
| resolve: "dup_reach m pcs \<Longrightarrow> pcs t = DupIdle \<Longrightarrow> dup_reach m (pcs(t := ResTest g))"
| step: "dup_reach m pcs \<Longrightarrow> dup_step (pcs t) m = (m', pc) \<Longrightarrow> dup_reach m' (pcs(t := pc))"

text \<open>Two threads that mark the same two groups: when the compare and swap of one fails because the
  other has just set this link, it follows the link to the larger group and, finding it without a
  link, makes it a duplicate of itself.  The resolution of its master then never ends.\<close>

theorem AddDuplicateGrp_race:
  "\<exists>m pcs. dup_reach m pcs \<and> m 2 = Some 2
     \<and> (\<forall>k. snd (((\<lambda>(m, pc). dup_step pc m) ^^ k) (m, ResTest 2)) \<noteq> DupIdle)"
proof (intro exI conjI allI)
  let ?m = "[1 \<mapsto> 2, 2 \<mapsto> 2] :: dups" and ?i = "\<lambda>_ :: nat. DupIdle"
  have 1: "dup_reach Map.empty (?i(0 := AddTest 1 2, 1 := AddTest 1 2))"
    using dup_reach.add [OF dup_reach.add [OF dup_reach.start, where t = 0 and a = 1 and b = 2], where t = 1 and a = 1 and b = 2] by (simp add: ordered_def)
  have 2: "dup_reach Map.empty (?i(0 := AddSwap 1 2, 1 := AddTest 1 2))"
    using dup_reach.step [OF 1, of 0 Map.empty "AddSwap 1 2"] by (simp add: fun_upd_twist)
  have 3: "dup_reach Map.empty (?i(0 := AddSwap 1 2, 1 := AddSwap 1 2))"
    using dup_reach.step [OF 2, of 1 Map.empty "AddSwap 1 2"] by simp
  have 4: "dup_reach [1 \<mapsto> 2] (?i(0 := AddSwap 1 2))"
    using dup_reach.step [OF 3, of 1 "[1 \<mapsto> 2]" DupIdle] by (simp add: fun_upd_idem)
  have 5: "dup_reach [1 \<mapsto> 2] (?i(0 := AddFollow 1 2))"
    using dup_reach.step [OF 4, of 0 "[1 \<mapsto> 2]" "AddFollow 1 2"] by simp
  have 6: "dup_reach [1 \<mapsto> 2] (?i(0 := AddTest 2 2))"
    using dup_reach.step [OF 5, of 0 "[1 \<mapsto> 2]" "AddTest 2 2"] by (simp add: ordered_def)
  have 7: "dup_reach [1 \<mapsto> 2] (?i(0 := AddSwap 2 2))"
    using dup_reach.step [OF 6, of 0 "[1 \<mapsto> 2]" "AddSwap 2 2"] by simp
  show "dup_reach ?m ?i"
    using dup_reach.step [OF 7, of 0 ?m DupIdle] by (simp add: fun_upd_idem)
  show "?m 2 = Some 2" by simp
  fix k
  have "((\<lambda>(m, pc). dup_step pc m) ^^ k) (?m, ResTest 2) \<in> {(?m, ResTest 2), (?m, ResFollow 2 2)}"
    by (induction k) auto
  then show "snd (((\<lambda>(m, pc). dup_step pc m) ^^ k) (?m, ResTest 2)) \<noteq> DupIdle" by auto
qed

end
