(* ===== verification/SyncPool.thy ===== *)
theory SyncPool
  imports Prelude
begin

text \<open>
  The lock-free object pool of \<^verbatim>\<open>libgpos/include/gpos/common/CSyncPool.h\<close>, from which the scheduler
  takes the links of its waiting jobs and the job factory its jobs.  An object is reserved by a bit
  in one bitmap and given back by a bit in a second one; a retrieval walks over the objects with a
  clock index, reserves the first one that is free and frees on its way those that were given
  back.  Threads interleave at each read, exchange or compare and swap of shared memory.
\<close>

unbundle bit_operations_syntax

section \<open>The pool and its operations\<close>

abbreviation BITS_PER_ULONG :: nat where
  "BITS_PER_ULONG \<equiv> 32"

abbreviation ULLONG_MOD :: nat where
  "ULLONG_MOD \<equiv> 18446744073709551616"

record sync_pool =
  m_rgulBitMapReserved :: "ulong_w list"
  m_rgulBitMapRecycled :: "ulong_w list"
  m_ulObjs :: nat
  m_ulpLast :: nat

text \<open>The state after \<open>Init\<close>; objects are numbered by their ids.\<close>

definition sp_new :: "nat \<Rightarrow> sync_pool" where
  "sp_new ulSize = (let ulBitMapSize = ulSize div BITS_PER_ULONG + 1
     in \<lparr>m_rgulBitMapReserved = replicate ulBitMapSize 0, m_rgulBitMapRecycled = replicate ulBitMapSize 0,
         m_ulObjs = ulSize, m_ulpLast = 0\<rparr>)"

definition ulBitVal :: "nat \<Rightarrow> ulong_w" where
  "ulBitVal k = push_bit (k mod BITS_PER_ULONG) 1"

text \<open>
  Where a thread is: in the loop of \<open>PtRetrieve\<close> with its counter and the index of the object,
  reading or swapping a word of the bitmap of reserved objects (\<open>SetRead\<close>, \<open>SetSwap\<close>), of recycled
  objects (\<open>RecycledRead\<close>, \<open>UnRecRead\<close>, \<open>UnRecSwap\<close>) and again of reserved ones, or in
  \<open>Recycle\<close> (\<open>MarkRead\<close>, \<open>MarkSwap\<close>).
\<close>

datatype sp_pc = SpIdle | Clock nat
  | SetRead nat nat | SetSwap nat nat ulong_w
  | RecycledRead nat nat | UnRecRead nat nat | UnRecSwap nat nat ulong_w
  | UnResRead nat nat | UnResSwap nat nat ulong_w
  | MarkRead nat | MarkSwap nat ulong_w

text \<open>An object of the pool by its index, or a new one from the heap.\<close>

datatype sp_obj = InPool nat | OnHeap

text \<open>The two helper functions, before their compare and swap: whether they go on to it.\<close>

definition FSetBit_reads :: "ulong_w \<Rightarrow> nat \<Rightarrow> bool" where
  "FSetBit_reads ulOld k \<longleftrightarrow> 0 = ulBitVal k AND ulOld"

definition FUnsetBit_reads :: "ulong_w \<Rightarrow> nat \<Rightarrow> bool" where
  "FUnsetBit_reads ulOld k \<longleftrightarrow> ulBitVal k = ulBitVal k AND ulOld"

fun PtRetrieve_step :: "sp_pc \<Rightarrow> sync_pool \<Rightarrow> sync_pool \<times> sp_pc \<times> sp_obj option" where
  "PtRetrieve_step (Clock i) p =
     (if i < 2 * m_ulObjs p mod ULONG_MOD
      then (p\<lparr>m_ulpLast := (m_ulpLast p + 1) mod ULLONG_MOD\<rparr>, SetRead i (m_ulpLast p mod m_ulObjs p), None)
      else (p, SpIdle, Some OnHeap))"
| "PtRetrieve_step (SetRead i k) p =
     (let ulOld = m_rgulBitMapReserved p ! (k div BITS_PER_ULONG)
      in (p, if FSetBit_reads ulOld k then SetSwap i k ulOld else RecycledRead i k, None))"
| "PtRetrieve_step (SetSwap i k ulOld) p =
     (let w = k div BITS_PER_ULONG; ws = m_rgulBitMapReserved p
      in if ws ! w = ulOld
         then (p\<lparr>m_rgulBitMapReserved := ws[w := ulBitVal k OR ulOld]\<rparr>, SpIdle, Some (InPool k))
         else (p, SetRead i k, None))"
| "PtRetrieve_step (RecycledRead i k) p =
     (p, if ulBitVal k = ulBitVal k AND m_rgulBitMapRecycled p ! (k div BITS_PER_ULONG)
         then UnRecRead i k else Clock (i + 1), None)"
| "PtRetrieve_step (UnRecRead i k) p =
     (let ulOld = m_rgulBitMapRecycled p ! (k div BITS_PER_ULONG)
      in (p, if FUnsetBit_reads ulOld k then UnRecSwap i k ulOld else Clock (i + 1), None))"
| "PtRetrieve_step (UnRecSwap i k ulOld) p =
     (let w = k div BITS_PER_ULONG; ws = m_rgulBitMapRecycled p
      in if ws ! w = ulOld
         then (p\<lparr>m_rgulBitMapRecycled := ws[w := ulBitVal k XOR ulOld]\<rparr>, UnResRead i k, None)
         else (p, UnRecRead i k, None))"
| "PtRetrieve_step (UnResRead i k) p =
     (let ulOld = m_rgulBitMapReserved p ! (k div BITS_PER_ULONG)
      in (p, if FUnsetBit_reads ulOld k then UnResSwap i k ulOld else Clock (i + 1), None))"
| "PtRetrieve_step (UnResSwap i k ulOld) p =
     (let w = k div BITS_PER_ULONG; ws = m_rgulBitMapReserved p
      in if ws ! w = ulOld
         then (p\<lparr>m_rgulBitMapReserved := ws[w := ulBitVal k XOR ulOld]\<rparr>, Clock (i + 1), None)
         else (p, UnResRead i k, None))"
| "PtRetrieve_step pc p = (p, pc, None)"

fun Recycle_step :: "sp_pc \<Rightarrow> sync_pool \<Rightarrow> sync_pool \<times> sp_pc" where
  "Recycle_step (MarkRead k) p =
     (let ulOld = m_rgulBitMapRecycled p ! (k div BITS_PER_ULONG)
      in (p, if FSetBit_reads ulOld k then MarkSwap k ulOld else SpIdle))"
| "Recycle_step (MarkSwap k ulOld) p =
     (let w = k div BITS_PER_ULONG; ws = m_rgulBitMapRecycled p
      in if ws ! w = ulOld then (p\<lparr>m_rgulBitMapRecycled := ws[w := ulBitVal k OR ulOld]\<rparr>, SpIdle)
         else (p, MarkRead k))"
| "Recycle_step pc p = (p, pc)"

text \<open>
  A configuration: the pool, the threads, and the objects of the pool that have been handed out and
  not yet been given back.  Clients give back only what they got; any thread may give back what
  another got.
\<close>

record sp_conf =
  sc_pool :: sync_pool
  sc_pc :: "nat \<Rightarrow> sp_pc"
  sc_out :: "nat list"

definition sp_retrieve :: "nat \<Rightarrow> sp_conf \<Rightarrow> sp_conf" where
  "sp_retrieve t c = c\<lparr>sc_pc := (sc_pc c)(t := Clock 0)\<rparr>"

definition sp_recycle :: "nat \<Rightarrow> nat \<Rightarrow> sp_conf \<Rightarrow> sp_conf" where
  "sp_recycle t k c = c\<lparr>sc_pc := (sc_pc c)(t := MarkRead k), sc_out := remove1 k (sc_out c)\<rparr>"

definition sp_retrieve_step :: "nat \<Rightarrow> sp_conf \<Rightarrow> sp_conf" where
  "sp_retrieve_step t c = (case PtRetrieve_step (sc_pc c t) (sc_pool c) of
     (p, pc, r) \<Rightarrow> c\<lparr>sc_pool := p, sc_pc := (sc_pc c)(t := pc),
        sc_out := (case r of Some (InPool k) \<Rightarrow> k # sc_out c | _ \<Rightarrow> sc_out c)\<rparr>)"

definition sp_recycle_step :: "nat \<Rightarrow> sp_conf \<Rightarrow> sp_conf" where
  "sp_recycle_step t c = (case Recycle_step (sc_pc c t) (sc_pool c) of
     (p, pc) \<Rightarrow> c\<lparr>sc_pool := p, sc_pc := (sc_pc c)(t := pc)\<rparr>)"

definition sp_start :: "nat \<Rightarrow> sp_conf" where
  "sp_start n = \<lparr>sc_pool = sp_new n, sc_pc = (\<lambda>_. SpIdle), sc_out = []\<rparr>"

inductive sp_reach :: "nat \<Rightarrow> sp_conf \<Rightarrow> bool" for n where
  start: "sp_reach n (sp_start n)"
| retrieve: "sp_reach n c \<Longrightarrow> sc_pc c t = SpIdle \<Longrightarrow> sp_reach n (sp_retrieve t c)"
| recycle: "sp_reach n c \<Longrightarrow> sc_pc c t = SpIdle \<Longrightarrow> k \<in> set (sc_out c) \<Longrightarrow> sp_reach n (sp_recycle t k c)"
| retrieve_step: "sp_reach n c \<Longrightarrow> sp_reach n (sp_retrieve_step t c)"
| recycle_step: "sp_reach n c \<Longrightarrow> sp_reach n (sp_recycle_step t c)"

section \<open>Bits\<close>

definition bit_of :: "ulong_w list \<Rightarrow> nat \<Rightarrow> bool" where
  "bit_of ws k = bit (ws ! (k div BITS_PER_ULONG)) (k mod BITS_PER_ULONG)"

lemma bit_ulBitVal: "bit (ulBitVal k) i \<longleftrightarrow> i = k mod BITS_PER_ULONG"
  by (auto simp: ulBitVal_def bit_exp_iff)

lemma ulong_eq_iff: "(a :: ulong_w) = b \<longleftrightarrow> (\<forall>i < BITS_PER_ULONG. bit a i = bit b i)"
  by (auto intro: bit_word_eqI)

lemma reads_bit:
  "FSetBit_reads (ws ! (k div BITS_PER_ULONG)) k \<longleftrightarrow> \<not> bit_of ws k"
  "FUnsetBit_reads (ws ! (k div BITS_PER_ULONG)) k \<longleftrightarrow> bit_of ws k"
  "ulBitVal k = ulBitVal k AND ws ! (k div BITS_PER_ULONG) \<longleftrightarrow> bit_of ws k"
  unfolding FSetBit_reads_def FUnsetBit_reads_def bit_of_def
  by (auto simp: ulong_eq_iff bit_and_iff bit_ulBitVal dest: spec [of _ "k mod BITS_PER_ULONG"])

lemma div_mod_eq: "j div BITS_PER_ULONG = k div BITS_PER_ULONG \<Longrightarrow> j mod BITS_PER_ULONG = k mod BITS_PER_ULONG \<Longrightarrow> j = k"
  by (metis div_mod_decomp)

lemma bit_of_set:
  assumes "k div BITS_PER_ULONG < length ws"
  shows "bit_of (ws[k div BITS_PER_ULONG := ulBitVal k OR ws ! (k div BITS_PER_ULONG)]) j \<longleftrightarrow> j = k \<or> bit_of ws j"
  using assms div_mod_eq [of j k] by (auto simp: bit_of_def nth_list_update bit_or_iff bit_ulBitVal)

lemma bit_of_unset:
  assumes "k div BITS_PER_ULONG < length ws" "bit_of ws k"
  shows "bit_of (ws[k div BITS_PER_ULONG := ulBitVal k XOR ws ! (k div BITS_PER_ULONG)]) j \<longleftrightarrow> j \<noteq> k \<and> bit_of ws j"
  using assms div_mod_eq [of j k] by (auto simp: bit_of_def nth_list_update bit_xor_iff bit_ulBitVal)

lemma bit_of_zero [simp]: "k div BITS_PER_ULONG < m \<Longrightarrow> \<not> bit_of (replicate m 0) k"
  by (simp add: bit_of_def)

section \<open>The life of an object\<close>

text \<open>
  An object is free; owned by a client, which may be giving it back; marked as given back; or in
  transit, while a thread that has taken the mark off is about to free it.  A thread that gives an
  object back or frees one holds a token for it.
\<close>

datatype obj_state = Free | Owned | Marked | Transit

fun token :: "sp_pc \<Rightarrow> nat set" where
  "token (UnResRead i k) = {k}"
| "token (UnResSwap i k w) = {k}"
| "token (MarkRead k) = {k}"
| "token (MarkSwap k w) = {k}"
| "token pc = {}"

definition pc_fine :: "nat \<Rightarrow> (nat \<Rightarrow> obj_state) \<Rightarrow> sp_pc \<Rightarrow> bool" where
  "pc_fine n st pc \<longleftrightarrow> (case pc of SetRead i k \<Rightarrow> k < n | SetSwap i k w \<Rightarrow> k < n \<and> FSetBit_reads w k
     | RecycledRead i k \<Rightarrow> k < n | UnRecRead i k \<Rightarrow> k < n | UnRecSwap i k w \<Rightarrow> k < n \<and> FUnsetBit_reads w k
     | UnResRead i k \<Rightarrow> k < n \<and> st k = Transit | UnResSwap i k w \<Rightarrow> k < n \<and> st k = Transit \<and> FUnsetBit_reads w k
     | MarkRead k \<Rightarrow> k < n \<and> st k = Owned | MarkSwap k w \<Rightarrow> k < n \<and> st k = Owned \<and> FSetBit_reads w k
     | _ \<Rightarrow> True)"

definition pool_ok :: "nat \<Rightarrow> sync_pool \<Rightarrow> (nat \<Rightarrow> obj_state) \<Rightarrow> bool" where
  "pool_ok n p st \<longleftrightarrow> m_ulObjs p = n
     \<and> length (m_rgulBitMapReserved p) = n div BITS_PER_ULONG + 1 \<and> length (m_rgulBitMapRecycled p) = n div BITS_PER_ULONG + 1
     \<and> (\<forall>k < n. bit_of (m_rgulBitMapReserved p) k = (st k \<noteq> Free) \<and> bit_of (m_rgulBitMapRecycled p) k = (st k = Marked))"

definition sp_ok :: "nat \<Rightarrow> sp_conf \<Rightarrow> (nat \<Rightarrow> obj_state) \<Rightarrow> bool" where
  "sp_ok n c st \<longleftrightarrow> pool_ok n (sc_pool c) st \<and> (\<forall>t. pc_fine n st (sc_pc c t))
     \<and> (\<forall>t t'. t \<noteq> t' \<longrightarrow> token (sc_pc c t) \<inter> token (sc_pc c t') = {})
     \<and> (\<forall>t. token (sc_pc c t) \<inter> set (sc_out c) = {})
     \<and> distinct (sc_out c) \<and> (\<forall>k \<in> set (sc_out c). k < n \<and> st k = Owned)"

lemma sp_okD:
  assumes "sp_ok n c st"
  shows "pool_ok n (sc_pool c) st" "pc_fine n st (sc_pc c t)"
    "t \<noteq> t' \<Longrightarrow> token (sc_pc c t) \<inter> token (sc_pc c t') = {}" "token (sc_pc c t) \<inter> set (sc_out c) = {}"
    "distinct (sc_out c)" "k \<in> set (sc_out c) \<Longrightarrow> k < n \<and> st k = Owned"
  using assms by (simp_all add: sp_ok_def)

lemma token_state: "pc_fine n st pc \<Longrightarrow> k \<in> token pc \<Longrightarrow> st k = Owned \<or> st k = Transit"
  by (cases pc) (auto simp: pc_fine_def)

lemma pc_fine_cong: "(\<And>k. k \<in> token pc \<Longrightarrow> st' k = st k) \<Longrightarrow> pc_fine n st' pc = pc_fine n st pc"
  by (cases pc) (auto simp: pc_fine_def)

text \<open>A step of a thread: it changes the state of objects it has the token of, or of free and marked
  ones, and it takes a token for such objects only or for one that is handed out.\<close>

lemma sp_ok_step:
  assumes ok: "sp_ok n c st" and p: "pool_ok n p st'" and pc: "pc_fine n st' pc"
    and st: "\<And>j. st' j \<noteq> st j \<Longrightarrow> j \<in> token (sc_pc c t) \<or> st j = Free \<or> st j = Marked"
    and tok: "\<And>j. j \<in> token pc \<Longrightarrow> j \<in> token (sc_pc c t) \<or> st j = Free \<or> st j = Marked \<or> j \<in> set (sc_out c)"
    and out: "distinct out" "\<And>j. j \<in> set out \<Longrightarrow> j < n \<and> st' j = Owned \<and> j \<notin> token pc \<and> (st j = Free \<or> j \<in> set (sc_out c))"
    and c': "sc_pool c' = p" "sc_pc c' = (sc_pc c)(t := pc)" "sc_out c' = out"
  shows "sp_ok n c' st'"
proof -
  have free: "j \<notin> token (sc_pc c t')" if "st j = Free \<or> st j = Marked" for j t'
    using token_state [OF sp_okD(2) [OF ok]] that by fastforce
  have other: "token (sc_pc c t') \<inter> token pc = {} \<and> token (sc_pc c t') \<inter> set out = {} \<and> pc_fine n st' (sc_pc c t')"
    if "t' \<noteq> t" for t'
  proof (intro conjI)
    have dis: "token (sc_pc c t') \<inter> token (sc_pc c t) = {}" "token (sc_pc c t') \<inter> set (sc_out c) = {}"
      using sp_okD(3,4) [OF ok] that by auto
    show "token (sc_pc c t') \<inter> token pc = {}" using tok free dis by blast
    show "token (sc_pc c t') \<inter> set out = {}" using out(2) free dis(2) by blast
    have "st' j = st j" if "j \<in> token (sc_pc c t')" for j using st [of j] free [of j t'] dis(1) that by blast
    then show "pc_fine n st' (sc_pc c t')" using pc_fine_cong sp_okD(2) [OF ok] by blast
  qed
  have "token (((sc_pc c)(t := pc)) a) \<inter> token (((sc_pc c)(t := pc)) b) = {}" if "a \<noteq> b" for a b
    using other [of a] other [of b] sp_okD(3) [OF ok that] that by auto
  moreover have "token (((sc_pc c)(t := pc)) a) \<inter> set out = {}" for a
    using other [of a] out(2) by auto
  moreover have "pc_fine n st' (((sc_pc c)(t := pc)) a)" for a using other [of a] pc by simp
  ultimately show ?thesis using p out unfolding sp_ok_def c' by blast
qed

lemma pool_okD:
  assumes "pool_ok n p st" "k < n"
  shows "k div BITS_PER_ULONG < length (m_rgulBitMapReserved p)" "k div BITS_PER_ULONG < length (m_rgulBitMapRecycled p)"
    "bit_of (m_rgulBitMapReserved p) k = (st k \<noteq> Free)" "bit_of (m_rgulBitMapRecycled p) k = (st k = Marked)"
  using assms div_le_mono [of k n BITS_PER_ULONG] by (simp_all add: pool_ok_def)

lemma pool_ok_updates:
  assumes p: "pool_ok n p st" and k: "k < n"
  shows "st k = Free \<Longrightarrow> pool_ok n (p\<lparr>m_rgulBitMapReserved := (m_rgulBitMapReserved p)
        [k div BITS_PER_ULONG := ulBitVal k OR m_rgulBitMapReserved p ! (k div BITS_PER_ULONG)]\<rparr>) (st(k := Owned))"
    "st k = Marked \<Longrightarrow> pool_ok n (p\<lparr>m_rgulBitMapRecycled := (m_rgulBitMapRecycled p)
        [k div BITS_PER_ULONG := ulBitVal k XOR m_rgulBitMapRecycled p ! (k div BITS_PER_ULONG)]\<rparr>) (st(k := Transit))"
    "st k = Transit \<Longrightarrow> pool_ok n (p\<lparr>m_rgulBitMapReserved := (m_rgulBitMapReserved p)
        [k div BITS_PER_ULONG := ulBitVal k XOR m_rgulBitMapReserved p ! (k div BITS_PER_ULONG)]\<rparr>) (st(k := Free))"
    "st k = Owned \<Longrightarrow> pool_ok n (p\<lparr>m_rgulBitMapRecycled := (m_rgulBitMapRecycled p)
        [k div BITS_PER_ULONG := ulBitVal k OR m_rgulBitMapRecycled p ! (k div BITS_PER_ULONG)]\<rparr>) (st(k := Marked))"
  using p pool_okD [OF p k] bit_of_set [of k] bit_of_unset [of k] by (auto simp: pool_ok_def)

text \<open>A step that changes nothing but where the thread is and the clock.\<close>

lemma sp_ok_local:
  assumes ok: "sp_ok n c st" and "pool_ok n p st" "pc_fine n st pc" "token pc \<subseteq> token (sc_pc c t)"
    and c': "sc_pool c' = p" "sc_pc c' = (sc_pc c)(t := pc)" "sc_out c' = sc_out c"
  shows "sp_ok n c' st"
  by (rule sp_ok_step [OF ok assms(2,3) _ _ _ _ c'])
    (use assms(4) sp_okD(4) [OF ok, of t] sp_okD(5,6) [OF ok] in auto)

lemma pool_ok_clock: "pool_ok n p st \<Longrightarrow> pool_ok n (p\<lparr>m_ulpLast := x\<rparr>) st"
  by (simp add: pool_ok_def)

lemma retrieve_swap:
  assumes ok: "sp_ok n c st" and pc: "sc_pc c t = SetSwap i k w" and w: "m_rgulBitMapReserved (sc_pool c) ! (k div BITS_PER_ULONG) = w"
  shows "\<exists>st'. sp_ok n (sp_retrieve_step t c) st'" "k \<notin> set (sc_out c)"
proof -
  have k: "k < n" "FSetBit_reads w k" using sp_okD(2) [OF ok, of t] pc by (simp_all add: pc_fine_def)
  then have free: "st k = Free"
    using pool_okD(3) [OF sp_okD(1) [OF ok] k(1)] reads_bit(1) [where k = k] w by metis
  then show no: "k \<notin> set (sc_out c)" using sp_okD(6) [OF ok, of k] by auto
  have "sp_ok n (sp_retrieve_step t c) (st(k := Owned))"
    by (rule sp_ok_step [OF ok pool_ok_updates(1) [OF sp_okD(1) [OF ok] k(1) free], where pc = SpIdle and t = t and out = "k # sc_out c"])
      (use free no k sp_okD(5,6) [OF ok] in \<open>auto simp: pc_fine_def sp_retrieve_step_def pc w Let_def split: if_splits\<close>)
  then show "\<exists>st'. sp_ok n (sp_retrieve_step t c) st'" by blast
qed

lemma unrec_swap:
  assumes ok: "sp_ok n c st" and pc: "sc_pc c t = UnRecSwap i k w" and w: "m_rgulBitMapRecycled (sc_pool c) ! (k div BITS_PER_ULONG) = w"
  shows "\<exists>st'. sp_ok n (sp_retrieve_step t c) st'"
proof -
  have k: "k < n" "FUnsetBit_reads w k" using sp_okD(2) [OF ok, of t] pc by (simp_all add: pc_fine_def)
  then have m: "st k = Marked"
    using pool_okD(4) [OF sp_okD(1) [OF ok] k(1)] reads_bit(2) [where k = k] w by metis
  then have no: "k \<notin> set (sc_out c)" using sp_okD(6) [OF ok, of k] by auto
  have "sp_ok n (sp_retrieve_step t c) (st(k := Transit))"
    by (rule sp_ok_step [OF ok pool_ok_updates(2) [OF sp_okD(1) [OF ok] k(1) m], where pc = "UnResRead i k" and t = t and out = "sc_out c"])
      (use m no k sp_okD(5,6) [OF ok] in \<open>auto simp: pc_fine_def sp_retrieve_step_def pc w Let_def split: if_splits\<close>)
  then show ?thesis by blast
qed

lemma unres_swap:
  assumes ok: "sp_ok n c st" and pc: "sc_pc c t = UnResSwap i k w" and w: "m_rgulBitMapReserved (sc_pool c) ! (k div BITS_PER_ULONG) = w"
  shows "\<exists>st'. sp_ok n (sp_retrieve_step t c) st'"
proof -
  have k: "k < n" "st k = Transit" using sp_okD(2) [OF ok, of t] pc by (simp_all add: pc_fine_def)
  then have no: "k \<notin> set (sc_out c)" using sp_okD(6) [OF ok, of k] by auto
  have "sp_ok n (sp_retrieve_step t c) (st(k := Free))"
    by (rule sp_ok_step [OF ok pool_ok_updates(3) [OF sp_okD(1) [OF ok] k], where pc = "Clock (i + 1)" and t = t and out = "sc_out c"])
      (use no k pc sp_okD(5,6) [OF ok] in \<open>auto simp: pc_fine_def sp_retrieve_step_def w Let_def split: if_splits\<close>)
  then show ?thesis by blast
qed

lemma mark_swap:
  assumes ok: "sp_ok n c st" and pc: "sc_pc c t = MarkSwap k w" and w: "m_rgulBitMapRecycled (sc_pool c) ! (k div BITS_PER_ULONG) = w"
  shows "\<exists>st'. sp_ok n (sp_recycle_step t c) st'"
proof -
  have k: "k < n" "st k = Owned" using sp_okD(2) [OF ok, of t] pc by (simp_all add: pc_fine_def)
  have no: "k \<notin> set (sc_out c)" using sp_okD(4) [OF ok, of t] pc by auto
  have "sp_ok n (sp_recycle_step t c) (st(k := Marked))"
    by (rule sp_ok_step [OF ok pool_ok_updates(4) [OF sp_okD(1) [OF ok] k], where pc = SpIdle and t = t and out = "sc_out c"])
      (use no k pc sp_okD(5,6) [OF ok] in \<open>auto simp: pc_fine_def sp_recycle_step_def w Let_def split: if_splits\<close>)
  then show ?thesis by blast
qed

lemma sp_ok_retrieve_step:
  assumes ok: "sp_ok n c st"
  shows "\<exists>st'. sp_ok n (sp_retrieve_step t c) st'"
proof -
  let ?p = "sc_pool c"
  note p = sp_okD(1) [OF ok] and pc = sp_okD(2) [OF ok, of t]
  have loc: "sp_ok n (sp_retrieve_step t c) st"
    if "PtRetrieve_step (sc_pc c t) ?p = (p', pc', r)" "pool_ok n p' st" "pc_fine n st pc'"
      "token pc' \<subseteq> token (sc_pc c t)" "r = None \<or> r = Some OnHeap" for p' pc' r
    by (rule sp_ok_local [OF ok that(2-4)]) (use that(1,5) in \<open>auto simp: sp_retrieve_step_def\<close>)
  have n: "m_ulObjs ?p = n" using p by (simp add: pool_ok_def)
  show ?thesis
  proof (cases "sc_pc c t")
    case (Clock i)
    have "sp_ok n (sp_retrieve_step t c) st"
    proof (cases "i < 2 * n mod ULONG_MOD")
      case True
      then have "m_ulpLast ?p mod n < n" by (cases "n = 0") auto
      then show ?thesis using Clock True n pool_ok_clock [OF p] by (intro loc) (auto simp: pc_fine_def)
    next
      case False
      then show ?thesis using Clock n p by (intro loc) (auto simp: pc_fine_def)
    qed
    then show ?thesis by blast
  next
    case (SetRead i k)
    then have "sp_ok n (sp_retrieve_step t c) st" using p pc by (intro loc) (auto simp: pc_fine_def Let_def split: if_splits)
    then show ?thesis by blast
  next
    case (SetSwap i k w)
    show ?thesis
    proof (cases "m_rgulBitMapReserved ?p ! (k div BITS_PER_ULONG) = w")
      case True
      then show ?thesis using retrieve_swap [OF ok SetSwap] by blast
    next
      case False
      then have "sp_ok n (sp_retrieve_step t c) st" using SetSwap p pc by (intro loc) (auto simp: pc_fine_def Let_def split: if_splits)
      then show ?thesis by blast
    qed
  next
    case (RecycledRead i k)
    then have "sp_ok n (sp_retrieve_step t c) st" using p pc by (intro loc) (auto simp: pc_fine_def Let_def split: if_splits)
    then show ?thesis by blast
  next
    case (UnRecRead i k)
    then have "sp_ok n (sp_retrieve_step t c) st" using p pc by (intro loc) (auto simp: pc_fine_def Let_def split: if_splits)
    then show ?thesis by blast
  next
    case (UnRecSwap i k w)
    show ?thesis
    proof (cases "m_rgulBitMapRecycled ?p ! (k div BITS_PER_ULONG) = w")
      case True
      then show ?thesis using unrec_swap [OF ok UnRecSwap] by blast
    next
      case False
      then have "sp_ok n (sp_retrieve_step t c) st" using UnRecSwap p pc by (intro loc) (auto simp: pc_fine_def Let_def split: if_splits)
      then show ?thesis by blast
    qed
  next
    case (UnResRead i k)
    then have "sp_ok n (sp_retrieve_step t c) st" using p pc by (intro loc) (auto simp: pc_fine_def Let_def split: if_splits)
    then show ?thesis by blast
  next
    case (UnResSwap i k w)
    show ?thesis
    proof (cases "m_rgulBitMapReserved ?p ! (k div BITS_PER_ULONG) = w")
      case True
      then show ?thesis using unres_swap [OF ok UnResSwap] by blast
    next
      case False
      then have "sp_ok n (sp_retrieve_step t c) st" using UnResSwap p pc by (intro loc) (auto simp: pc_fine_def Let_def split: if_splits)
      then show ?thesis by blast
    qed
  qed (use p pc in \<open>auto intro!: exI [of _ st] loc\<close>)
qed

lemma sp_ok_recycle_step:
  assumes ok: "sp_ok n c st"
  shows "\<exists>st'. sp_ok n (sp_recycle_step t c) st'"
proof -
  let ?p = "sc_pool c"
  note p = sp_okD(1) [OF ok] and pc = sp_okD(2) [OF ok, of t]
  have loc: "sp_ok n (sp_recycle_step t c) st"
    if "Recycle_step (sc_pc c t) ?p = (p', pc')" "pool_ok n p' st" "pc_fine n st pc'" "token pc' \<subseteq> token (sc_pc c t)" for p' pc'
    by (rule sp_ok_local [OF ok that(2-4)]) (use that(1) in \<open>auto simp: sp_recycle_step_def\<close>)
  show ?thesis
  proof (cases "sc_pc c t")
    case (MarkRead k)
    then have "sp_ok n (sp_recycle_step t c) st"
      using p pc by (intro loc) (auto simp: pc_fine_def Let_def split: if_splits)
    then show ?thesis by blast
  next
    case (MarkSwap k w)
    show ?thesis
    proof (cases "m_rgulBitMapRecycled ?p ! (k div BITS_PER_ULONG) = w")
      case True
      then show ?thesis using mark_swap [OF ok MarkSwap] by blast
    next
      case False
      then have "sp_ok n (sp_recycle_step t c) st" using MarkSwap p pc by (intro loc) (auto simp: pc_fine_def Let_def split: if_splits)
      then show ?thesis by blast
    qed
  qed (use p pc in \<open>auto intro!: exI [of _ st] loc\<close>)
qed

lemma sp_ok_recycle:
  assumes ok: "sp_ok n c st" and "sc_pc c t = SpIdle" "k \<in> set (sc_out c)"
  shows "sp_ok n (sp_recycle t k c) st"
  by (rule sp_ok_step [OF ok sp_okD(1) [OF ok], where pc = "MarkRead k" and t = t and out = "remove1 k (sc_out c)"])
    (use assms sp_okD(5,6) [OF ok] in \<open>auto simp: pc_fine_def sp_recycle_def\<close>)

lemma sp_reach_ok: "sp_reach n c \<Longrightarrow> \<exists>st. sp_ok n c st"
proof (induction rule: sp_reach.induct)
  case start
  have "k div BITS_PER_ULONG < n div BITS_PER_ULONG + 1" if "k < n" for k
    using div_le_mono [of k n BITS_PER_ULONG] that by simp
  then have "sp_ok n (sp_start n) (\<lambda>_. Free)"
    by (auto simp: sp_ok_def sp_start_def sp_new_def pool_ok_def pc_fine_def Let_def simp del: replicate_Suc)
  then show ?case by blast
next
  case (retrieve c t)
  then obtain st where ok: "sp_ok n c st" by blast
  have "sp_ok n (sp_retrieve t c) st"
    by (rule sp_ok_local [OF ok sp_okD(1) [OF ok], where pc = "Clock 0" and t = t]) (simp_all add: pc_fine_def sp_retrieve_def)
  then show ?case by blast
next
  case (recycle c t k)
  then show ?case using sp_ok_recycle by blast
next
  case (retrieve_step c t)
  then show ?case using sp_ok_retrieve_step by blast
next
  case (recycle_step c t)
  then show ?case using sp_ok_recycle_step by blast
qed

section \<open>A retrieval that runs alone\<close>

lemma funpow_three: "(f ^^ 3) x = f (f (f x))"
  by (simp add: eval_nat_numeral)

lemma funpow_seven: "(f ^^ 7) x = f (f (f (f (f (f (f x))))))"
  by (simp add: eval_nat_numeral)

text \<open>One round of the loop, at an object that is free, in use, or marked as given back.\<close>

lemma round_defs:
  assumes "sc_pc c t = Clock i" "i < 2 * m_ulObjs (sc_pool c)" "2 * m_ulObjs (sc_pool c) < ULONG_MOD"
    "m_ulpLast (sc_pool c) + 1 < ULLONG_MOD"
  shows "sp_retrieve_step t c = c\<lparr>sc_pool := (sc_pool c)\<lparr>m_ulpLast := m_ulpLast (sc_pool c) + 1\<rparr>,
     sc_pc := (sc_pc c)(t := SetRead i (m_ulpLast (sc_pool c) mod m_ulObjs (sc_pool c)))\<rparr>"
  using assms by (simp add: sp_retrieve_step_def)

lemma round_free:
  assumes c: "sc_pc c t = Clock i" "i < 2 * m_ulObjs (sc_pool c)" "2 * m_ulObjs (sc_pool c) < ULONG_MOD"
    "m_ulpLast (sc_pool c) + 1 < ULLONG_MOD"
    and k: "k = m_ulpLast (sc_pool c) mod m_ulObjs (sc_pool c)" "\<not> bit_of (m_rgulBitMapReserved (sc_pool c)) k"
  shows "sc_pc ((sp_retrieve_step t ^^ 3) c) t = SpIdle \<and> sc_out ((sp_retrieve_step t ^^ 3) c) = k # sc_out c"
  using k by (simp add: funpow_three round_defs [OF c]) (simp add: sp_retrieve_step_def Let_def reads_bit)

lemma round_used:
  assumes c: "sc_pc c t = Clock i" "i < 2 * m_ulObjs (sc_pool c)" "2 * m_ulObjs (sc_pool c) < ULONG_MOD"
    "m_ulpLast (sc_pool c) + 1 < ULLONG_MOD"
    and k: "k = m_ulpLast (sc_pool c) mod m_ulObjs (sc_pool c)" "bit_of (m_rgulBitMapReserved (sc_pool c)) k"
      "\<not> bit_of (m_rgulBitMapRecycled (sc_pool c)) k"
  shows "sc_pc ((sp_retrieve_step t ^^ 3) c) t = Clock (i + 1)
    \<and> sc_pool ((sp_retrieve_step t ^^ 3) c) = (sc_pool c)\<lparr>m_ulpLast := m_ulpLast (sc_pool c) + 1\<rparr>
    \<and> sc_out ((sp_retrieve_step t ^^ 3) c) = sc_out c"
  using k by (simp add: funpow_three round_defs [OF c]) (simp add: sp_retrieve_step_def Let_def reads_bit)

lemma round_marked:
  assumes c: "sc_pc c t = Clock i" "i < 2 * m_ulObjs (sc_pool c)" "2 * m_ulObjs (sc_pool c) < ULONG_MOD"
    "m_ulpLast (sc_pool c) + 1 < ULLONG_MOD"
    and k: "k = m_ulpLast (sc_pool c) mod m_ulObjs (sc_pool c)" "bit_of (m_rgulBitMapReserved (sc_pool c)) k"
      "bit_of (m_rgulBitMapRecycled (sc_pool c)) k"
  shows "sc_pc ((sp_retrieve_step t ^^ 7) c) t = Clock (i + 1)
    \<and> sc_pool ((sp_retrieve_step t ^^ 7) c) = (sc_pool c)\<lparr>m_ulpLast := m_ulpLast (sc_pool c) + 1,
        m_rgulBitMapReserved := (m_rgulBitMapReserved (sc_pool c))
          [k div BITS_PER_ULONG := ulBitVal k XOR m_rgulBitMapReserved (sc_pool c) ! (k div BITS_PER_ULONG)],
        m_rgulBitMapRecycled := (m_rgulBitMapRecycled (sc_pool c))
          [k div BITS_PER_ULONG := ulBitVal k XOR m_rgulBitMapRecycled (sc_pool c) ! (k div BITS_PER_ULONG)]\<rparr>
    \<and> sc_out ((sp_retrieve_step t ^^ 7) c) = sc_out c"
  using k by (simp add: funpow_seven round_defs [OF c]) (simp add: sp_retrieve_step_def Let_def reads_bit)

definition pool_sized :: "nat \<Rightarrow> sync_pool \<Rightarrow> bool" where
  "pool_sized n p \<longleftrightarrow> m_ulObjs p = n \<and> length (m_rgulBitMapReserved p) = n div BITS_PER_ULONG + 1
     \<and> length (m_rgulBitMapRecycled p) = n div BITS_PER_ULONG + 1"

lemma retrieve_alone:
  assumes "pool_sized n (sc_pool c)" "sc_pc c t = Clock i" "k < n" "(m_ulpLast (sc_pool c) + d) mod n = k"
    "bit_of (m_rgulBitMapReserved (sc_pool c)) k \<Longrightarrow> bit_of (m_rgulBitMapRecycled (sc_pool c)) k"
    "dist = (if bit_of (m_rgulBitMapReserved (sc_pool c)) k then d + n else d)"
    "i + dist < 2 * n" "2 * n < ULONG_MOD" "m_ulpLast (sc_pool c) + (2 * n - i) < ULLONG_MOD"
  shows "\<exists>m \<le> 7 * (dist + 1). \<exists>j < n. sc_pc ((sp_retrieve_step t ^^ m) c) t = SpIdle
    \<and> sc_out ((sp_retrieve_step t ^^ m) c) = j # sc_out c"
  using assms
proof (induction dist arbitrary: c i d rule: less_induct)
  case (less dist)
  let ?p = "sc_pool c" and ?f = "sp_retrieve_step t"
  let ?k = "m_ulpLast ?p mod n"
  have n: "m_ulObjs ?p = n" using less.prems(1) by (simp add: pool_sized_def)
  have c: "sc_pc c t = Clock i" "i < 2 * m_ulObjs ?p" "2 * m_ulObjs ?p < ULONG_MOD" "m_ulpLast ?p + 1 < ULLONG_MOD"
    using less.prems by (simp_all add: n)
  have len: "?k div BITS_PER_ULONG < length (m_rgulBitMapReserved ?p)" "?k div BITS_PER_ULONG < length (m_rgulBitMapRecycled ?p)"
    using less.prems(1,3) div_le_mono [of ?k n BITS_PER_ULONG] by (simp_all add: pool_sized_def)
  have go: "\<exists>m \<le> 7 * (dist + 1). \<exists>j < n. sc_pc ((?f ^^ m) c) t = SpIdle \<and> sc_out ((?f ^^ m) c) = j # sc_out c"
    if r: "r \<le> 7" and c1: "sc_pc ((?f ^^ r) c) t = Clock (i + 1)" "m_ulpLast (sc_pool ((?f ^^ r) c)) = m_ulpLast ?p + 1"
        "pool_sized n (sc_pool ((?f ^^ r) c))" "sc_out ((?f ^^ r) c) = sc_out c"
      and d': "(m_ulpLast ?p + 1 + d') mod n = k" "dist' < dist"
        "dist' = (if bit_of (m_rgulBitMapReserved (sc_pool ((?f ^^ r) c))) k then d' + n else d')"
        "bit_of (m_rgulBitMapReserved (sc_pool ((?f ^^ r) c))) k \<Longrightarrow> bit_of (m_rgulBitMapRecycled (sc_pool ((?f ^^ r) c))) k"
    for r d' dist'
  proof -
    have "\<exists>m \<le> 7 * (dist' + 1). \<exists>j < n. sc_pc ((?f ^^ m) ((?f ^^ r) c)) t = SpIdle
        \<and> sc_out ((?f ^^ m) ((?f ^^ r) c)) = j # sc_out ((?f ^^ r) c)"
      by (rule less.IH [OF d'(2) c1(3,1) less.prems(3) _ d'(4,3)]) (use d' c1(2) less.prems in simp_all)
    then obtain m j where m: "m \<le> 7 * (dist' + 1)" "j < n" "sc_pc ((?f ^^ (m + r)) c) t = SpIdle"
      "sc_out ((?f ^^ (m + r)) c) = j # sc_out c"
      using c1(4) by (auto simp: funpow_add)
    then show ?thesis using r d'(2) by (intro exI [of _ "m + r"]) auto
  qed
  consider "\<not> bit_of (m_rgulBitMapReserved ?p) ?k"
    | "bit_of (m_rgulBitMapReserved ?p) ?k" "\<not> bit_of (m_rgulBitMapRecycled ?p) ?k"
    | "bit_of (m_rgulBitMapReserved ?p) ?k" "bit_of (m_rgulBitMapRecycled ?p) ?k" by blast
  then show ?case
  proof cases
    case 1
    have "sc_pc ((?f ^^ 3) c) t = SpIdle \<and> sc_out ((?f ^^ 3) c) = ?k # sc_out c"
      by (rule round_free [OF c]) (simp_all add: n 1)
    then show ?thesis using less.prems(3) by (intro exI [of _ 3]) auto
  next
    case 2
    then have "?k \<noteq> k" using less.prems(5) by auto
    then have d: "0 < d" using less.prems(4) by (cases d) auto
    have r: "sc_pc ((?f ^^ 3) c) t = Clock (i + 1)" "sc_pool ((?f ^^ 3) c) = ?p\<lparr>m_ulpLast := m_ulpLast ?p + 1\<rparr>"
      "sc_out ((?f ^^ 3) c) = sc_out c"
      using round_used [OF c, of ?k] 2 n by simp_all
    show ?thesis
      by (rule go [of 3 "d - 1" "dist - 1"]) (use r d less.prems in \<open>simp_all add: pool_sized_def\<close>)
  next
    case 3
    have r: "sc_pc ((?f ^^ 7) c) t = Clock (i + 1)" "sc_out ((?f ^^ 7) c) = sc_out c"
      "m_ulpLast (sc_pool ((?f ^^ 7) c)) = m_ulpLast ?p + 1" "pool_sized n (sc_pool ((?f ^^ 7) c))"
      "bit_of (m_rgulBitMapReserved (sc_pool ((?f ^^ 7) c))) j \<longleftrightarrow> j \<noteq> ?k \<and> bit_of (m_rgulBitMapReserved ?p) j"
      "bit_of (m_rgulBitMapRecycled (sc_pool ((?f ^^ 7) c))) j \<longleftrightarrow> j \<noteq> ?k \<and> bit_of (m_rgulBitMapRecycled ?p) j" for j
      using round_marked [OF c, of ?k] 3 n less.prems(1) bit_of_unset [OF len(1) 3(1)] bit_of_unset [OF len(2) 3(2)]
      by (simp_all add: pool_sized_def)
    show ?thesis
    proof (cases "?k = k")
      case True
      then have "dist = d + n" using less.prems(6) 3 by simp
      then show ?thesis
        by (intro go [of 7 "n - 1" "n - 1"]) (use r True less.prems(3) in simp_all)
    next
      case False
      then have d: "0 < d" using less.prems(4) by (cases d) auto
      show ?thesis
        by (rule go [of 7 "d - 1" "dist - 1"]) (use r d False less.prems in simp_all)
    qed
  qed
qed

section \<open>Properties\<close>

text \<open>C12 Whatever the interleaving of its threads, the pool never hands out an object that has been
  handed out and not given back: the objects handed out are distinct.  The bits that its assertions
  speak of are as they claim: the thread that frees an object finds it reserved, and an object that
  is being given back is reserved and not marked yet.\<close>

theorem sync_pool_exclusive:
  assumes "sp_reach n c"
  shows "distinct (sc_out c) \<and> set (sc_out c) \<subseteq> {..<n}
    \<and> (\<forall>t i k. sc_pc c t = UnResRead i k \<or> (\<exists>w. sc_pc c t = UnResSwap i k w) \<longrightarrow>
          bit_of (m_rgulBitMapReserved (sc_pool c)) k \<and> k \<notin> set (sc_out c))
    \<and> (\<forall>t k. sc_pc c t = MarkRead k \<or> (\<exists>w. sc_pc c t = MarkSwap k w) \<longrightarrow>
          bit_of (m_rgulBitMapReserved (sc_pool c)) k \<and> \<not> bit_of (m_rgulBitMapRecycled (sc_pool c)) k
          \<and> k \<notin> set (sc_out c))"
proof -
  obtain st where ok: "sp_ok n c st" using sp_reach_ok [OF assms] by blast
  have b: "bit_of (m_rgulBitMapReserved (sc_pool c)) k \<and> \<not> bit_of (m_rgulBitMapRecycled (sc_pool c)) k"
    if "k < n" "st k = Owned \<or> st k = Transit" for k
    using pool_okD(3,4) [OF sp_okD(1) [OF ok] that(1)] that(2) by auto
  have t: "k < n \<and> (st k = Owned \<or> st k = Transit) \<and> k \<notin> set (sc_out c)" if "k \<in> token (sc_pc c t)" for k t
    using that sp_okD(2,4) [OF ok, of t] by (cases "sc_pc c t") (auto simp: pc_fine_def)
  have "bit_of (m_rgulBitMapReserved (sc_pool c)) k \<and> k \<notin> set (sc_out c)"
    if "sc_pc c t = UnResRead i k \<or> (\<exists>w. sc_pc c t = UnResSwap i k w)" for t i k
    using t [of k t] b [of k] that by auto
  moreover have "bit_of (m_rgulBitMapReserved (sc_pool c)) k \<and> \<not> bit_of (m_rgulBitMapRecycled (sc_pool c)) k
      \<and> k \<notin> set (sc_out c)" if "sc_pc c t = MarkRead k \<or> (\<exists>w. sc_pc c t = MarkSwap k w)" for t k
    using t [of k t] b [of k] that by auto
  ultimately show ?thesis using sp_okD(5,6) [OF ok] by blast
qed

text \<open>C13 A retrieval that is not disturbed finds an object of the pool if one is free or has been given
  back, in at most \<open>14 n\<close> steps: two rounds of the clock are enough, the first of which may only
  have taken the mark off it.\<close>

theorem PtRetrieve_finds_object:
  assumes "sp_reach n c" "sc_pc c t = SpIdle" "k < n"
    "\<not> bit_of (m_rgulBitMapReserved (sc_pool c)) k \<or> bit_of (m_rgulBitMapRecycled (sc_pool c)) k"
    "2 * n < ULONG_MOD" "m_ulpLast (sc_pool c) + 2 * n < ULLONG_MOD"
  shows "\<exists>m \<le> 14 * n. \<exists>j < n. sc_pc ((sp_retrieve_step t ^^ m) (sp_retrieve t c)) t = SpIdle
    \<and> sc_out ((sp_retrieve_step t ^^ m) (sp_retrieve t c)) = j # sc_out c"
proof -
  let ?c = "sp_retrieve t c" and ?L = "m_ulpLast (sc_pool c)"
  obtain st where "sp_ok n c st" using sp_reach_ok [OF assms(1)] by blast
  then have p: "pool_sized n (sc_pool c)" by (simp add: sp_ok_def pool_ok_def pool_sized_def)
  have f: "sc_pool ?c = sc_pool c" "sc_pc ?c t = Clock 0" "sc_out ?c = sc_out c" by (simp_all add: sp_retrieve_def)
  define d where "d = (if ?L mod n \<le> k then k - ?L mod n else k + n - ?L mod n)"
  have d: "d < n" "(?L + d) mod n = k"
  proof -
    have L: "?L mod n < n" using assms(3) by simp
    then show "d < n" using assms(3) by (auto simp: d_def)
    have "?L mod n + d = (if ?L mod n \<le> k then k else k + n)" using L by (auto simp: d_def)
    then have "(?L mod n + d) mod n = k" using assms(3) by simp
    then show "(?L + d) mod n = k" by (simp add: mod_add_left_eq)
  qed
  define dist where "dist = (if bit_of (m_rgulBitMapReserved (sc_pool c)) k then d + n else d)"
  have "\<exists>m \<le> 7 * (dist + 1). \<exists>j < n. sc_pc ((sp_retrieve_step t ^^ m) ?c) t = SpIdle
      \<and> sc_out ((sp_retrieve_step t ^^ m) ?c) = j # sc_out ?c"
    by (rule retrieve_alone [OF _ f(2) assms(3)]) (use p d assms f in \<open>simp_all add: dist_def\<close>)
  moreover have "7 * (dist + 1) \<le> 14 * n" using d(1) by (simp add: dist_def)
  ultimately show ?thesis using f(3) by (metis order_trans)
qed

text \<open>A pool of two objects of which one thread has taken one.\<close>

definition one_taken :: sp_conf where
  "one_taken = (sp_retrieve_step 0 ^^ 3) (sp_retrieve 0 (sp_start 2))"

lemma one_taken_reach: "sp_reach 2 one_taken"
  unfolding one_taken_def funpow_three by (intro sp_reach.intros) (simp_all add: sp_start_def)

lemma one_taken_eq: "sc_out one_taken = [0]" "sc_pc one_taken 1 = SpIdle"
  "m_rgulBitMapReserved (sc_pool one_taken) = [1]" "m_ulpLast (sc_pool one_taken) = 1"
  unfolding one_taken_def funpow_three
  by (simp_all add: sp_retrieve_step_def sp_retrieve_def sp_start_def sp_new_def Let_def FSetBit_reads_def ulBitVal_def)

theorem sync_pool_exclusive_witness: "distinct (sc_out one_taken) \<and> set (sc_out one_taken) \<subseteq> {..<2}"
  using sync_pool_exclusive [OF one_taken_reach] by blast

theorem PtRetrieve_finds_object_witness:
  "\<exists>m \<le> 28. \<exists>j < 2. sc_out ((sp_retrieve_step 1 ^^ m) (sp_retrieve 1 one_taken)) = [j, 0]"
  using PtRetrieve_finds_object [OF one_taken_reach, of 1 1] one_taken_eq(2)
  by (auto simp: one_taken_eq(1,3,4) bit_of_def)

end
