(* ===== verification/IntrusiveList.thy ===== *)
theory IntrusiveList
  imports Prelude
begin

text \<open>
  The allocation-less doubly linked list \<open>CList\<close>
  (\<^verbatim>\<open>libgpos/include/gpos/common/CList.h\<close>).  The links are embedded in the
  elements, so that the store of links is explicit: a function from element addresses to links,
  shared by all lists that use the same link offset.  Every operation writes the store as the
  code does; \<open>clist_repr\<close> states which list of addresses a list object stands for, and
  the lemmas show that the pointer updates are the list operations and leave every other
  element's link alone.
\<close>

section \<open>Links and lists\<close>

record 'a slink =
  m_pvNext :: "'a option"
  m_pvPrev :: "'a option"

type_synonym 'a links = "'a \<Rightarrow> 'a slink"

record 'a clist =
  m_ulSize :: nat
  m_ptHead :: "'a option"
  m_ptTail :: "'a option"

definition SLink_new :: "'a slink" where
  "SLink_new = \<lparr>m_pvNext = None, m_pvPrev = None\<rparr>"

definition CList_new :: "'a clist" where
  "CList_new = \<lparr>m_ulSize = 0, m_ptHead = None, m_ptTail = None\<rparr>"

section \<open>Operations\<close>

definition cl_PrependBefore :: "'a \<Rightarrow> 'a \<Rightarrow> 'a links \<times> 'a clist \<Rightarrow> 'a links \<times> 'a clist" where
  "cl_PrependBefore pt ptNext s =
     (let (h, l) = s;
          ptPrev = m_pvPrev (h ptNext);
          h = h(pt := \<lparr>m_pvNext = Some ptNext, m_pvPrev = ptPrev\<rparr>);
          h = h(ptNext := (h ptNext)\<lparr>m_pvPrev := Some pt\<rparr>);
          (h, l) = (case ptPrev of
              Some p \<Rightarrow> (h(p := (h p)\<lparr>m_pvNext := Some pt\<rparr>), l)
            | None \<Rightarrow> (h, l\<lparr>m_ptHead := Some pt\<rparr>))
      in (h, l\<lparr>m_ulSize := ul_add (m_ulSize l) 1\<rparr>))"

definition cl_AppendAfter :: "'a \<Rightarrow> 'a \<Rightarrow> 'a links \<times> 'a clist \<Rightarrow> 'a links \<times> 'a clist" where
  "cl_AppendAfter pt ptPrev s =
     (let (h, l) = s;
          ptNext = m_pvNext (h ptPrev);
          h = h(pt := \<lparr>m_pvNext = ptNext, m_pvPrev = Some ptPrev\<rparr>);
          h = h(ptPrev := (h ptPrev)\<lparr>m_pvNext := Some pt\<rparr>);
          (h, l) = (case ptNext of
              Some n \<Rightarrow> (h(n := (h n)\<lparr>m_pvPrev := Some pt\<rparr>), l)
            | None \<Rightarrow> (h, l\<lparr>m_ptTail := Some pt\<rparr>))
      in (h, l\<lparr>m_ulSize := ul_add (m_ulSize l) 1\<rparr>))"

definition cl_Prepend :: "'a \<Rightarrow> 'a links \<times> 'a clist \<Rightarrow> 'a links \<times> 'a clist" where
  "cl_Prepend pt s =
     (let (h, l) = s in
      case m_ptHead l of
        None \<Rightarrow> (h(pt := \<lparr>m_pvNext = None, m_pvPrev = None\<rparr>),
                 l\<lparr>m_ptHead := Some pt, m_ptTail := Some pt, m_ulSize := ul_add (m_ulSize l) 1\<rparr>)
      | Some ptHead \<Rightarrow> cl_PrependBefore pt ptHead s)"

definition cl_Append :: "'a \<Rightarrow> 'a links \<times> 'a clist \<Rightarrow> 'a links \<times> 'a clist" where
  "cl_Append pt s =
     (case m_ptTail (snd s) of
        None \<Rightarrow> cl_Prepend pt s
      | Some ptTail \<Rightarrow> cl_AppendAfter pt ptTail s)"

definition cl_Remove :: "'a \<Rightarrow> 'a links \<times> 'a clist \<Rightarrow> 'a links \<times> 'a clist" where
  "cl_Remove pt s =
     (let (h, l) = s;
          sl = h pt;
          (h, l) = (case m_pvNext sl of
              Some n \<Rightarrow> (h(n := (h n)\<lparr>m_pvPrev := m_pvPrev sl\<rparr>), l)
            | None \<Rightarrow> (h, l\<lparr>m_ptTail := m_pvPrev sl\<rparr>));
          (h, l) = (case m_pvPrev sl of
              Some p \<Rightarrow> (h(p := (h p)\<lparr>m_pvNext := m_pvNext sl\<rparr>), l)
            | None \<Rightarrow> (h, l\<lparr>m_ptHead := m_pvNext sl\<rparr>));
          h = h(pt := \<lparr>m_pvNext = None, m_pvPrev = None\<rparr>)
      in (h, l\<lparr>m_ulSize := ul_sub (m_ulSize l) 1\<rparr>))"

text \<open>On an empty list, \<open>RemoveHead\<close> and \<open>RemoveTail\<close> read the link of a null
  pointer: \<open>None\<close>.\<close>

definition cl_RemoveHead :: "'a links \<times> 'a clist \<Rightarrow> ('a \<times> ('a links \<times> 'a clist)) option" where
  "cl_RemoveHead s =
     (case m_ptHead (snd s) of None \<Rightarrow> None | Some ptHead \<Rightarrow> Some (ptHead, cl_Remove ptHead s))"

definition cl_RemoveTail :: "'a links \<times> 'a clist \<Rightarrow> ('a \<times> ('a links \<times> 'a clist)) option" where
  "cl_RemoveTail s =
     (case m_ptTail (snd s) of None \<Rightarrow> None | Some ptTail \<Rightarrow> Some (ptTail, cl_Remove ptTail s))"

definition cl_PtNext :: "'a links \<Rightarrow> 'a \<Rightarrow> 'a option" where
  "cl_PtNext h pt = m_pvNext (h pt)"

definition cl_PtPrev :: "'a links \<Rightarrow> 'a \<Rightarrow> 'a option" where
  "cl_PtPrev h pt = m_pvPrev (h pt)"

definition cl_FEmpty :: "'a clist \<Rightarrow> bool" where
  "cl_FEmpty l = (m_ptHead l = None)"

text \<open>
  The loops over a chain of links: the first element from \<open>pt\<close> on that satisfies a test.
  The outer \<open>None\<close> would mean that the loop does not end.
\<close>

partial_function (option) first_match :: "('a \<Rightarrow> bool) \<Rightarrow> 'a links \<Rightarrow> 'a option \<Rightarrow> 'a option option" where
  "first_match P h pt =
     (case pt of
        None \<Rightarrow> Some None
      | Some x \<Rightarrow> if P x then Some (Some x) else first_match P h (cl_PtNext h x))"

lemmas first_match_simps [simp] = first_match.simps [of P h None for P h]
  first_match.simps [of P h "Some x" for P h x]

definition cl_EresFind :: "'a links \<Rightarrow> 'a clist \<Rightarrow> 'a \<Rightarrow> bool option" where
  "cl_EresFind h l pt = map_option (\<lambda>r. r \<noteq> None) (first_match (\<lambda>x. pt = x) h (m_ptHead l))"

section \<open>The list an object stands for\<close>

definition last_opt :: "'a list \<Rightarrow> 'a option" where
  "last_opt xs = (if xs = [] then None else Some (last xs))"

lemma last_opt_simps [simp]: "last_opt [] = None" "last_opt (xs @ [x]) = Some x"
  by (simp_all add: last_opt_def)

lemma last_opt_Cons: "last_opt (x # xs) = Some (if xs = [] then x else last xs)"
  by (simp add: last_opt_def)

lemma hd_opt_append: "hd_opt (xs @ ys) = (if xs = [] then hd_opt ys else hd_opt xs)"
  by (cases xs) simp_all

lemma last_opt_append: "last_opt (xs @ ys) = (if ys = [] then last_opt xs else last_opt ys)"
  by (simp add: last_opt_def)

lemma opt_eq_None [simp]: "hd_opt xs = None \<longleftrightarrow> xs = []" "last_opt xs = None \<longleftrightarrow> xs = []"
  by (simp_all add: hd_opt_def last_opt_def split: list.splits)

lemma case_option_id [simp]: "(case x of None \<Rightarrow> None | Some y \<Rightarrow> Some y) = x"
  by (cases x) simp_all

text \<open>The elements \<open>xs\<close> are linked in this order, from the neighbour \<open>p\<close> on the left to \<open>n\<close>
  on the right.\<close>

fun seg :: "'a links \<Rightarrow> 'a option \<Rightarrow> 'a list \<Rightarrow> 'a option \<Rightarrow> bool" where
  "seg h p [] n = True"
| "seg h p (x # xs) n \<longleftrightarrow>
     m_pvPrev (h x) = p \<and> m_pvNext (h x) = (case hd_opt xs of None \<Rightarrow> n | Some y \<Rightarrow> Some y) \<and> seg h (Some x) xs n"

lemma seg_append:
  "seg h p (xs @ ys) n \<longleftrightarrow>
     seg h p xs (case hd_opt ys of None \<Rightarrow> n | Some y \<Rightarrow> Some y)
   \<and> seg h (case last_opt xs of None \<Rightarrow> p | Some x \<Rightarrow> Some x) ys n"
  by (induction xs arbitrary: p) (auto simp: hd_opt_append last_opt_Cons last_opt_def split: option.splits)

lemma seg_frame: "(\<And>x. x \<in> set xs \<Longrightarrow> h' x = h x) \<Longrightarrow> seg h' p xs n = seg h p xs n"
  by (induction xs arbitrary: p) auto

lemma seg_upd [simp]: "x \<notin> set xs \<Longrightarrow> seg (h(x := l)) p xs n = seg h p xs n"
  by (rule seg_frame) auto

definition clist_repr :: "'a links \<Rightarrow> 'a clist \<Rightarrow> 'a list \<Rightarrow> bool" where
  "clist_repr h l xs \<longleftrightarrow> distinct xs \<and> seg h None xs None
     \<and> m_ptHead l = hd_opt xs \<and> m_ptTail l = last_opt xs \<and> m_ulSize l = length xs mod ULONG_MOD"

lemma clist_repr_frame:
  "clist_repr h l xs \<Longrightarrow> (\<And>x. x \<in> set xs \<Longrightarrow> h' x = h x) \<Longrightarrow> clist_repr h' l xs"
  by (simp add: clist_repr_def cong: seg_frame)

lemma clist_repr_new: "clist_repr h CList_new []"
  by (simp add: clist_repr_def CList_new_def)

section \<open>The operations are the list operations\<close>

text \<open>Only the links of the elements of the list change.\<close>

definition links_frame :: "'a links \<Rightarrow> 'a links \<Rightarrow> 'a set \<Rightarrow> bool" where
  "links_frame h h' S \<longleftrightarrow> (\<forall>x. x \<notin> S \<longrightarrow> h' x = h x)"

lemmas repr_simps = clist_repr_def seg_append hd_opt_append last_opt_append last_opt_Cons
  links_frame_def Let_def ul_add_mod

lemma cl_PrependBefore_list:
  assumes "clist_repr h l (xs @ x # ys)" "pt \<notin> set (xs @ x # ys)"
  shows "case cl_PrependBefore pt x (h, l) of (h', l') \<Rightarrow>
    clist_repr h' l' (xs @ pt # x # ys) \<and> links_frame h h' (insert pt (set (xs @ x # ys)))"
  using assms
  by (cases xs rule: rev_cases) (auto simp: cl_PrependBefore_def repr_simps split: option.splits)

lemma cl_AppendAfter_list:
  assumes "clist_repr h l (xs @ x # ys)" "pt \<notin> set (xs @ x # ys)"
  shows "case cl_AppendAfter pt x (h, l) of (h', l') \<Rightarrow>
    clist_repr h' l' (xs @ x # pt # ys) \<and> links_frame h h' (insert pt (set (xs @ x # ys)))"
  using assms
  by (cases ys) (auto simp: cl_AppendAfter_def repr_simps split: option.splits)

lemma ul_sub_Suc [simp]:
  "ul_sub (Suc n mod ULONG_MOD) (Suc 0) = n mod ULONG_MOD"
  "ul_sub ((3 + n) mod ULONG_MOD) (Suc 0) = Suc (Suc n) mod ULONG_MOD"
  "ul_sub (Suc 0) (Suc 0) = 0" "ul_sub (Suc (Suc 0)) (Suc 0) = Suc 0"
  using ul_sub_one_mod [of "Suc n"] ul_sub_one_mod [of "3 + n"] by (simp_all add: ul_sub_def)

lemma cl_Remove_list:
  assumes "clist_repr h l (xs @ x # ys)"
  shows "case cl_Remove x (h, l) of (h', l') \<Rightarrow>
    clist_repr h' l' (xs @ ys) \<and> h' x = SLink_new \<and> links_frame h h' (set (xs @ x # ys))"
  using assms
  by (cases xs rule: rev_cases; cases ys)
     (auto simp: cl_Remove_def SLink_new_def ul_sub_one_mod repr_simps split: option.splits)

lemma cl_Prepend_list:
  assumes "clist_repr h l xs" "pt \<notin> set xs"
  shows "case cl_Prepend pt (h, l) of (h', l') \<Rightarrow>
    clist_repr h' l' (pt # xs) \<and> links_frame h h' (insert pt (set xs))"
proof (cases xs)
  case Nil
  then show ?thesis using assms
    by (simp add: cl_Prepend_def clist_repr_def links_frame_def ul_add_mod ul_add_def last_opt_Cons)
next
  case (Cons y ys)
  then show ?thesis using assms cl_PrependBefore_list [of h l "[]" y ys pt]
    by (auto simp: cl_Prepend_def clist_repr_def [of h l] split: option.splits)
qed

lemma cl_Append_list:
  assumes "clist_repr h l xs" "pt \<notin> set xs"
  shows "case cl_Append pt (h, l) of (h', l') \<Rightarrow>
    clist_repr h' l' (xs @ [pt]) \<and> links_frame h h' (insert pt (set xs))"
proof (cases xs rule: rev_cases)
  case Nil
  then show ?thesis using assms cl_Prepend_list [of h l "[]" pt]
    by (auto simp: cl_Append_def clist_repr_def [of h l] split: option.splits)
next
  case (snoc ys y)
  then show ?thesis using assms cl_AppendAfter_list [of h l ys y "[]" pt]
    by (auto simp: cl_Append_def clist_repr_def [of h l] split: option.splits)
qed

lemma cl_RemoveHead_list:
  assumes "clist_repr h l xs"
  shows "case cl_RemoveHead (h, l) of
      None \<Rightarrow> xs = []
    | Some (x, h', l') \<Rightarrow> \<exists>ys. xs = x # ys \<and> clist_repr h' l' ys \<and> h' x = SLink_new \<and> links_frame h h' (set xs)"
proof (cases xs)
  case Nil
  then show ?thesis using assms by (simp add: cl_RemoveHead_def clist_repr_def)
next
  case (Cons y ys)
  then show ?thesis using assms cl_Remove_list [of h l "[]" y ys]
    by (auto simp: cl_RemoveHead_def clist_repr_def [of h l] split: prod.splits)
qed

lemma cl_RemoveTail_list:
  assumes "clist_repr h l xs"
  shows "case cl_RemoveTail (h, l) of
      None \<Rightarrow> xs = []
    | Some (x, h', l') \<Rightarrow> \<exists>ys. xs = ys @ [x] \<and> clist_repr h' l' ys \<and> h' x = SLink_new \<and> links_frame h h' (set xs)"
proof (cases xs rule: rev_cases)
  case Nil
  then show ?thesis using assms by (simp add: cl_RemoveTail_def clist_repr_def)
next
  case (snoc ys y)
  then show ?thesis using assms cl_Remove_list [of h l ys y "[]"]
    by (auto simp: cl_RemoveTail_def clist_repr_def [of h l] split: prod.splits)
qed

text \<open>Walking along the links ends and finds the first element that satisfies the test.\<close>

lemma first_match_seg: "seg h p xs None \<Longrightarrow> first_match P h (hd_opt xs) = Some (find P xs)"
  by (induction xs arbitrary: p) (auto simp: cl_PtNext_def)

lemma first_match_list:
  assumes "clist_repr h l (xs @ x # ys)"
  shows "first_match P h (Some x) = Some (find P (x # ys))"
    and "first_match P h (cl_PtNext h x) = Some (find P ys)"
proof -
  have "seg h (last_opt xs) (x # ys) None"
    using assms by (simp add: clist_repr_def seg_append)
  then show "first_match P h (Some x) = Some (find P (x # ys))"
    and "first_match P h (cl_PtNext h x) = Some (find P ys)"
    using first_match_seg [of h "last_opt xs" "x # ys" P] first_match_seg [of h "Some x" ys P]
    by (simp_all add: cl_PtNext_def)
qed

lemma first_match_head: "clist_repr h l xs \<Longrightarrow> first_match P h (m_ptHead l) = Some (find P xs)"
  using first_match_seg [of h None xs P] by (simp add: clist_repr_def)

lemma find_eq: "find ((=) x) xs = (if x \<in> set xs then Some x else None)"
  by (induction xs) auto

lemma cl_EresFind_list: "clist_repr h l xs \<Longrightarrow> cl_EresFind h l pt = Some (pt \<in> set xs)"
  by (simp add: cl_EresFind_def first_match_head find_eq)

lemma cl_neighbours:
  assumes "clist_repr h l (xs @ x # ys)"
  shows "cl_PtNext h x = hd_opt ys" "cl_PtPrev h x = last_opt xs"
  using assms by (simp_all add: cl_PtNext_def cl_PtPrev_def clist_repr_def seg_append)

lemma cl_accessors:
  assumes "clist_repr h l xs"
  shows "m_ptHead l = hd_opt xs" "m_ptTail l = last_opt xs" "cl_FEmpty l \<longleftrightarrow> xs = []"
  using assms by (simp_all add: clist_repr_def cl_FEmpty_def)

section \<open>Properties\<close>

text \<open>C20 \<open>CList\<close> over a shared store of links implements the list of its elements, the empty list
  included: inserting at the ends or beside an element, removing at the ends or any element,
  searching and walking do on the pointers what they do on the list, and no operation writes the
  link of an element outside the list and its argument.\<close>
theorem clist_refines_lists:
  assumes r: "clist_repr h l zs" and pt: "pt \<notin> set zs"
  shows "(case cl_Prepend pt (h, l) of (h', l') \<Rightarrow> clist_repr h' l' (pt # zs) \<and> links_frame h h' (insert pt (set zs)))
       \<and> (case cl_Append pt (h, l) of (h', l') \<Rightarrow> clist_repr h' l' (zs @ [pt]) \<and> links_frame h h' (insert pt (set zs)))
       \<and> (case cl_RemoveHead (h, l) of None \<Rightarrow> zs = []
          | Some (x, h', l') \<Rightarrow> \<exists>ys. zs = x # ys \<and> clist_repr h' l' ys \<and> h' x = SLink_new \<and> links_frame h h' (set zs))
       \<and> (case cl_RemoveTail (h, l) of None \<Rightarrow> zs = []
          | Some (x, h', l') \<Rightarrow> \<exists>ys. zs = ys @ [x] \<and> clist_repr h' l' ys \<and> h' x = SLink_new \<and> links_frame h h' (set zs))
       \<and> m_ptHead l = hd_opt zs \<and> m_ptTail l = last_opt zs \<and> cl_FEmpty l = (zs = []) \<and> m_ulSize l = length zs mod ULONG_MOD
       \<and> (\<forall>y. cl_EresFind h l y = Some (y \<in> set zs))
       \<and> (\<forall>xs x ys. zs = xs @ x # ys \<longrightarrow>
           (case cl_PrependBefore pt x (h, l) of (h', l') \<Rightarrow>
              clist_repr h' l' (xs @ pt # x # ys) \<and> links_frame h h' (insert pt (set zs)))
         \<and> (case cl_AppendAfter pt x (h, l) of (h', l') \<Rightarrow>
              clist_repr h' l' (xs @ x # pt # ys) \<and> links_frame h h' (insert pt (set zs)))
         \<and> (case cl_Remove x (h, l) of (h', l') \<Rightarrow>
              clist_repr h' l' (xs @ ys) \<and> h' x = SLink_new \<and> links_frame h h' (set zs))
         \<and> cl_PtNext h x = hd_opt ys \<and> cl_PtPrev h x = last_opt xs)"
proof (intro conjI allI impI cl_accessors [OF r] cl_EresFind_list [OF r] cl_Prepend_list [OF r pt] cl_Append_list [OF r pt]
    cl_RemoveHead_list [OF r] cl_RemoveTail_list [OF r])
  show "m_ulSize l = length zs mod ULONG_MOD" using r by (simp add: clist_repr_def)
  fix xs x ys assume zs: "zs = xs @ x # ys"
  note a = r [unfolded zs] pt [unfolded zs]
  show "case cl_PrependBefore pt x (h, l) of (h', l') \<Rightarrow>
      clist_repr h' l' (xs @ pt # x # ys) \<and> links_frame h h' (insert pt (set zs))"
    using cl_PrependBefore_list [OF a] zs by simp
  show "case cl_AppendAfter pt x (h, l) of (h', l') \<Rightarrow>
      clist_repr h' l' (xs @ x # pt # ys) \<and> links_frame h h' (insert pt (set zs))"
    using cl_AppendAfter_list [OF a] zs by simp
  show "case cl_Remove x (h, l) of (h', l') \<Rightarrow>
      clist_repr h' l' (xs @ ys) \<and> h' x = SLink_new \<and> links_frame h h' (set zs)"
    using cl_Remove_list [OF a(1)] zs by simp
  show "cl_PtNext h x = hd_opt ys" "cl_PtPrev h x = last_opt xs" using cl_neighbours [OF a(1)] by simp_all
qed

text \<open>A list of two elements, built in place.\<close>

definition sample_links :: "nat links \<times> nat clist" where
  "sample_links = cl_Append 2 (cl_Prepend 1 ((\<lambda>_. SLink_new), CList_new))"

lemma sample_links_repr: "clist_repr (fst sample_links) (snd sample_links) [1, 2]"
  by (simp add: sample_links_def cl_Append_def cl_Prepend_def cl_AppendAfter_def CList_new_def
      SLink_new_def clist_repr_def ul_add_def last_opt_def)

theorem clist_refines_lists_witness:
  "(case cl_Append 5 ((\<lambda>_. SLink_new), CList_new) of (h', l') \<Rightarrow> clist_repr h' l' [5 :: nat])
    \<and> (case cl_Remove 2 sample_links of (h', l') \<Rightarrow> clist_repr h' l' [1])"
proof
  show "case cl_Append 5 ((\<lambda>_. SLink_new), CList_new) of (h', l') \<Rightarrow> clist_repr h' l' [5 :: nat]"
    using clist_refines_lists [OF clist_repr_new, of "5 :: nat" "\<lambda>_. SLink_new"] by (simp split: prod.splits)
  have "case cl_Remove x (fst sample_links, snd sample_links) of (h', l') \<Rightarrow>
      clist_repr h' l' (xs @ ys) \<and> h' x = SLink_new \<and> links_frame (fst sample_links) h' (set [1, 2])"
    if "[1, 2] = xs @ x # ys" for xs x ys
  proof -
    have n: "3 \<notin> set [1, 2 :: nat]" by simp
    note a = clist_refines_lists [OF sample_links_repr n, THEN conjunct2, THEN conjunct2, THEN conjunct2, THEN conjunct2,
      THEN conjunct2, THEN conjunct2, THEN conjunct2, THEN conjunct2, THEN conjunct2]
    from a [rule_format, OF that] show ?thesis by (elim conjE)
  qed
  from this [of "[1]" 2 "[]"] show "case cl_Remove 2 sample_links of (h', l') \<Rightarrow> clist_repr h' l' [1]"
    by (simp split: prod.splits)
qed

end
