(* ===== verification/SyncHashtable.thy ===== *)
theory SyncHashtable
  imports IntrusiveList
begin

text \<open>
  The allocation-less hash table \<open>CSyncHashtable\<close>
  (\<^verbatim>\<open>libgpos/include/gpos/common/CSyncHashtable.h\<close>) and its accessors: an array
  of buckets, each an intrusive list over the shared store of links.  \<open>ht_repr\<close> gives the list
  of elements of every bucket; the locale \<open>keyed_table\<close> is the contract the clients of the table
  rely on, and is interpreted on the table at the end.  A spinlock makes every use of an
  accessor one atomic step on its bucket.
\<close>

section \<open>The table\<close>

text \<open>The key of an element is read from the element's memory; \<open>m_Key\<close> is that memory.\<close>

record ('t, 'k) sync_ht =
  m_rgbucket :: "'t clist list"
  m_cSize :: nat
  m_ulpEntries :: nat
  m_Key :: "'t \<Rightarrow> 'k"
  m_pkeyInvalid :: 'k
  m_pfuncHash :: "'k \<Rightarrow> nat"
  m_pfuncEqual :: "'k \<Rightarrow> 'k \<Rightarrow> bool"

type_synonym ('t, 'k) ht_state = "'t links \<times> ('t, 'k) sync_ht"

definition ulp_add :: "nat \<Rightarrow> int \<Rightarrow> nat" where
  "ulp_add n d = nat ((int n + d) mod 2 ^ 64)"

definition sht_Init :: "nat \<Rightarrow> ('t \<Rightarrow> 'k) \<Rightarrow> 'k \<Rightarrow> ('k \<Rightarrow> nat) \<Rightarrow> ('k \<Rightarrow> 'k \<Rightarrow> bool) \<Rightarrow> ('t, 'k) sync_ht" where
  "sht_Init cSize key keyInvalid pfuncHash pfuncEqual =
     \<lparr>m_rgbucket = replicate cSize CList_new, m_cSize = cSize, m_ulpEntries = 0, m_Key = key,
      m_pkeyInvalid = keyInvalid, m_pfuncHash = pfuncHash, m_pfuncEqual = pfuncEqual\<rparr>"

definition UlBucketIndex :: "('t, 'k) sync_ht \<Rightarrow> 'k \<Rightarrow> nat" where
  "UlBucketIndex ht key = m_pfuncHash ht key mod m_cSize ht"

definition Bucket :: "('t, 'k) sync_ht \<Rightarrow> nat \<Rightarrow> 't clist" where
  "Bucket ht ulIndex = m_rgbucket ht ! ulIndex"

definition FValid :: "('t, 'k) sync_ht \<Rightarrow> 'k \<Rightarrow> bool" where
  "FValid ht key = (\<not> m_pfuncEqual ht key (m_pkeyInvalid ht))"

section \<open>Accessors\<close>

text \<open>An update of the list of one bucket, and the count of entries that goes with it.\<close>

definition with_bucket ::
    "nat \<Rightarrow> int \<Rightarrow> ('t links \<times> 't clist \<Rightarrow> 't links \<times> 't clist) \<Rightarrow> ('t, 'k) ht_state \<Rightarrow> ('t, 'k) ht_state" where
  "with_bucket i d f s =
     (let (h, ht) = s; (h, l) = f (h, Bucket ht i)
      in (h, ht\<lparr>m_rgbucket := (m_rgbucket ht)[i := l], m_ulpEntries := ulp_add (m_ulpEntries ht) d\<rparr>))"

definition acc_Prepend :: "nat \<Rightarrow> 't \<Rightarrow> ('t, 'k) ht_state \<Rightarrow> ('t, 'k) ht_state" where
  "acc_Prepend i pt = with_bucket i 1 (cl_Prepend pt)"

definition acc_PrependBefore :: "nat \<Rightarrow> 't \<Rightarrow> 't \<Rightarrow> ('t, 'k) ht_state \<Rightarrow> ('t, 'k) ht_state" where
  "acc_PrependBefore i pt ptNext = with_bucket i 1 (cl_PrependBefore pt ptNext)"

definition acc_AppendAfter :: "nat \<Rightarrow> 't \<Rightarrow> 't \<Rightarrow> ('t, 'k) ht_state \<Rightarrow> ('t, 'k) ht_state" where
  "acc_AppendAfter i pt ptPrev = with_bucket i 1 (cl_AppendAfter pt ptPrev)"

definition acc_Remove :: "nat \<Rightarrow> 't \<Rightarrow> ('t, 'k) ht_state \<Rightarrow> ('t, 'k) ht_state" where
  "acc_Remove i pt = with_bucket i (- 1) (cl_Remove pt)"

definition sht_Insert :: "'t \<Rightarrow> ('t, 'k) ht_state \<Rightarrow> ('t, 'k) ht_state" where
  "sht_Insert pt s =
     with_bucket (UlBucketIndex (snd s) (m_Key (snd s) pt)) 1 (cl_Prepend pt) s"

text \<open>The accessor by key works on the bucket of its key.\<close>

definition key_PtNextMatch :: "'k \<Rightarrow> ('t, 'k) ht_state \<Rightarrow> 't option \<Rightarrow> 't option option" where
  "key_PtNextMatch key s pt =
     first_match (\<lambda>ptCurrent. m_pfuncEqual (snd s) (m_Key (snd s) ptCurrent) key) (fst s) pt"

definition key_PtLookup :: "'k \<Rightarrow> ('t, 'k) ht_state \<Rightarrow> 't option option" where
  "key_PtLookup key s = key_PtNextMatch key s (m_ptHead (Bucket (snd s) (UlBucketIndex (snd s) key)))"

definition key_PtNext :: "'k \<Rightarrow> ('t, 'k) ht_state \<Rightarrow> 't \<Rightarrow> 't option option" where
  "key_PtNext key s pt = key_PtNextMatch key s (cl_PtNext (fst s) pt)"

definition key_Insert :: "'k \<Rightarrow> 't \<Rightarrow> ('t, 'k) ht_state \<Rightarrow> ('t, 'k) ht_state" where
  "key_Insert key pt s = acc_Prepend (UlBucketIndex (snd s) key) pt s"

definition key_Remove :: "'k \<Rightarrow> 't \<Rightarrow> ('t, 'k) ht_state \<Rightarrow> ('t, 'k) ht_state" where
  "key_Remove key pt s = acc_Remove (UlBucketIndex (snd s) key) pt s"

section \<open>The elements of the buckets\<close>

definition ht_repr :: "('t, 'k) ht_state \<Rightarrow> 't list list \<Rightarrow> bool" where
  "ht_repr s B \<longleftrightarrow> (let (h, ht) = s in
     0 < m_cSize ht \<and> length B = m_cSize ht \<and> length (m_rgbucket ht) = m_cSize ht
   \<and> distinct (concat B) \<and> m_ulpEntries ht = length (concat B) mod 2 ^ 64
   \<and> (\<forall>i < m_cSize ht. clist_repr h (Bucket ht i) (B ! i)))"

text \<open>Every element has a valid key and is in the bucket of its key.\<close>

definition ht_placed :: "('t \<Rightarrow> 'k) \<Rightarrow> 'k \<Rightarrow> ('t, 'k) ht_state \<Rightarrow> 't list list \<Rightarrow> bool" where
  "ht_placed key invalid s B \<longleftrightarrow>
     (\<forall>i < m_cSize (snd s). \<forall>x \<in> set (B ! i). key x \<noteq> invalid \<and> UlBucketIndex (snd s) (key x) = i)"

lemma ht_reprD:
  assumes "ht_repr s B"
  shows "0 < m_cSize (snd s)" "length B = m_cSize (snd s)" "length (m_rgbucket (snd s)) = m_cSize (snd s)"
    "distinct (concat B)" "m_ulpEntries (snd s) = length (concat B) mod 2 ^ 64"
    "i < m_cSize (snd s) \<Longrightarrow> clist_repr (fst s) (Bucket (snd s) i) (B ! i)"
  using assms by (auto simp: ht_repr_def split: prod.splits)

lemma ht_repr_Init: "0 < n \<Longrightarrow> ht_repr (h, sht_Init n key invalid hash eq) (replicate n [])"
  by (simp add: ht_repr_def sht_Init_def Bucket_def clist_repr_new)

lemma UlBucketIndex_lt: "ht_repr s B \<Longrightarrow> UlBucketIndex (snd s) k < m_cSize (snd s)"
  using ht_reprD(1) [of s B] by (simp add: UlBucketIndex_def)

text \<open>Lists of lists, split and updated at one position.\<close>

lemma split_at:
  assumes "i < length B"
  obtains as bs where "B = as @ B ! i # bs" "length as = i" "\<And>ys. B[i := ys] = as @ ys # bs"
  using assms id_take_nth_drop [of i B] upd_conv_take_nth_drop [of i B]
    that [of "take i B" "drop (Suc i) B"] by simp

lemma length_concat_update:
  assumes "i < length B"
  shows "length (concat (B[i := ys])) + length (B ! i) = length (concat B) + length ys"
proof -
  obtain as bs where *: "B = as @ B ! i # bs" "\<And>ys. B[i := ys] = as @ ys # bs"
    using split_at [OF assms] by metis
  have "length (concat B) = length (concat as) + length (B ! i) + length (concat bs)"
    by (subst *(1)) simp
  then show ?thesis by (simp add: *(2))
qed

lemma set_concat_nth: "x \<in> set (concat B) \<longleftrightarrow> (\<exists>i < length B. x \<in> set (B ! i))"
  by (simp add: in_set_conv_nth [of _ B] Bex_def) metis

lemma bucket_subset: "i < length B \<Longrightarrow> set (B ! i) \<subseteq> set (concat B)"
  by (auto simp only: set_concat_nth)

lemma distinct_concat_nth:
  assumes "distinct (concat B)" "i < length B"
  shows "distinct (B ! i)"
    and "j < length B \<Longrightarrow> x \<in> set (B ! i) \<Longrightarrow> x \<in> set (B ! j) \<Longrightarrow> i = j"
proof -
  obtain as bs where *: "B = as @ B ! i # bs" "length as = i" using split_at [OF assms(2)] by metis
  have d: "distinct (concat (as @ B ! i # bs))" using assms(1) *(1) by simp
  then show "distinct (B ! i)" by simp
  assume j: "j < length B" "x \<in> set (B ! i)" "x \<in> set (B ! j)"
  show "i = j"
  proof (rule ccontr)
    assume "i \<noteq> j"
    moreover have "B ! j = (as @ B ! i # bs) ! j" using *(1) by simp
    moreover have "j < length (as @ B ! i # bs)" using *(1) j(1) by simp
    ultimately have "B ! j \<in> set as \<union> set bs" using *(2)
      by (auto simp: nth_append nth_Cons' intro!: nth_mem)
    then show False using d j(2,3) by auto
  qed
qed

lemma concat_update:
  assumes "distinct (concat B)" "i < length B"
  obtains R where "distinct R" "set (B ! i) \<inter> set R = {}" "set (concat B) = set (B ! i) \<union> set R"
    "\<And>ys. set (concat (B[i := ys])) = set ys \<union> set R"
    "\<And>ys. distinct (concat (B[i := ys])) \<longleftrightarrow> distinct ys \<and> set ys \<inter> set R = {}"
proof -
  obtain as bs where *: "B = as @ B ! i # bs" "\<And>ys. B[i := ys] = as @ ys # bs"
    using split_at [OF assms(2)] by metis
  define b where "b = B ! i"
  have d: "distinct (concat (as @ b # bs))" and c: "set (concat B) = set (concat (as @ b # bs))"
    using assms(1) *(1) by (simp_all add: b_def)
  show ?thesis
  proof (rule that [of "concat as @ concat bs"])
    show "distinct (concat as @ concat bs)" "set (B ! i) \<inter> set (concat as @ concat bs) = {}"
      using d by (auto simp: b_def)
    show "set (concat B) = set (B ! i) \<union> set (concat as @ concat bs)"
      unfolding c by (auto simp: b_def)
    show "set (concat (B[i := ys])) = set ys \<union> set (concat as @ concat bs)" for ys
      by (auto simp: *(2))
    show "distinct (concat (B[i := ys])) \<longleftrightarrow> distinct ys \<and> set ys \<inter> set (concat as @ concat bs) = {}" for ys
      using d by (auto simp: *(2))
  qed
qed

lemma distinct_concat_update:
  assumes "distinct (concat B)" "i < length B" "distinct ys"
    and "\<And>x. x \<in> set ys \<Longrightarrow> x \<notin> set (B ! i) \<Longrightarrow> x \<notin> set (concat B)"
  shows "distinct (concat (B[i := ys]))"
  using assms(3,4) by (rule_tac concat_update [OF assms(1,2)]) blast

lemma set_concat_update:
  assumes "distinct (concat B)" "i < length B"
  shows "set (concat (B[i := ys])) = set (concat B) - set (B ! i) \<union> set ys"
  by (rule concat_update [OF assms]) blast

section \<open>Updates of one bucket\<close>

text \<open>An operation on the list of bucket \<open>i\<close> that writes only the links of this bucket's elements
  and of elements of no bucket is that operation on \<open>B ! i\<close>.\<close>

lemma with_bucket_repr:
  assumes repr: "ht_repr s B" and i: "i < m_cSize (snd s)"
    and f: "case f (fst s, Bucket (snd s) i) of (h', l') \<Rightarrow> clist_repr h' l' ys \<and> links_frame (fst s) h' S"
    and S: "S \<inter> set (concat B) \<subseteq> set (B ! i)" and ys: "set ys \<subseteq> set (B ! i) \<union> S"
    and d: "int (length ys) = int (length (B ! i)) + d"
  shows "ht_repr (with_bucket i d f s) (B[i := ys])"
proof -
  obtain h ht where s [simp]: "s = (h, ht)" by force
  obtain h' l' where r: "f (h, Bucket ht i) = (h', l')" by force
  note R = ht_reprD [OF repr, unfolded s, simplified]
  have iB: "i < length B" using i R(2) by simp
  have l': "clist_repr h' l' ys" and fr: "links_frame h h' S" using f r by simp_all
  have dis: "distinct (concat (B[i := ys]))"
    using R(4) iB l' S ys by (intro distinct_concat_update) (auto simp: clist_repr_def)
  have cnt: "ulp_add (m_ulpEntries ht) d = length (concat (B[i := ys])) mod 2 ^ 64"
  proof -
    have "int (length (concat (B[i := ys]))) = int (length (concat B)) + d"
      using length_concat_update [OF iB, of ys] d by linarith
    then have "int (length (concat (B[i := ys])) mod 2 ^ 64) = (int (length (concat B)) + d) mod 2 ^ 64"
      by (simp only: of_nat_mod) simp
    also have "\<dots> = (int (length (concat B) mod 2 ^ 64) + d) mod 2 ^ 64"
      by (simp add: of_nat_mod mod_add_left_eq)
    finally show ?thesis by (simp add: ulp_add_def R(5) nat_eq_iff)
  qed
  have oth: "clist_repr h' (Bucket ht j) (B ! j)" if j: "j < m_cSize ht" "j \<noteq> i" for j
  proof (rule clist_repr_frame [OF R(6) [OF j(1)]])
    fix x assume x: "x \<in> set (B ! j)"
    then have "x \<in> set (concat B)" using j(1) R(2) by (auto simp: set_concat_nth)
    moreover have "x \<notin> set (B ! i)" using distinct_concat_nth(2) [OF R(4) iB, of j x] j R(2) x by auto
    ultimately have "x \<notin> S" using S by auto
    then show "h' x = h x" using fr by (simp add: links_frame_def)
  qed
  show ?thesis
    using R(1-3) dis cnt l' oth iB i
    by (auto simp: ht_repr_def with_bucket_def r [unfolded Bucket_def] Bucket_def Let_def nth_list_update)
qed

lemma with_bucket_fields [simp]:
  "m_cSize (snd (with_bucket i d f s)) = m_cSize (snd s)"
  "m_Key (snd (with_bucket i d f s)) = m_Key (snd s)"
  "m_pkeyInvalid (snd (with_bucket i d f s)) = m_pkeyInvalid (snd s)"
  "m_pfuncHash (snd (with_bucket i d f s)) = m_pfuncHash (snd s)"
  "m_pfuncEqual (snd (with_bucket i d f s)) = m_pfuncEqual (snd s)"
  by (simp_all add: with_bucket_def Let_def split: prod.splits)

lemma with_bucket_index [simp]:
  "UlBucketIndex (snd (with_bucket i d f s)) = UlBucketIndex (snd s)"
  "FValid (snd (with_bucket i d f s)) = FValid (snd s)"
  by (simp_all add: UlBucketIndex_def [abs_def] FValid_def [abs_def])

text \<open>The accessors' updates, on a bucket split at the position they work on.\<close>

lemma not_in_bucket:
  "ht_repr s B \<Longrightarrow> i < m_cSize (snd s) \<Longrightarrow> pt \<notin> set (concat B) \<Longrightarrow> pt \<notin> set (B ! i)"
  using ht_reprD(2) [of s B] set_concat_nth [of pt B] by metis

lemma acc_Prepend_repr:
  assumes "ht_repr s B" "i < m_cSize (snd s)" "pt \<notin> set (concat B)"
  shows "ht_repr (acc_Prepend i pt s) (B[i := pt # B ! i])"
  unfolding acc_Prepend_def
proof (rule with_bucket_repr [OF assms(1,2)])
  show "insert pt (set (B ! i)) \<inter> set (concat B) \<subseteq> set (B ! i)" using assms(3) by auto
  show "case cl_Prepend pt (fst s, Bucket (snd s) i) of (h', l') \<Rightarrow>
      clist_repr h' l' (pt # B ! i) \<and> links_frame (fst s) h' (insert pt (set (B ! i)))"
    using cl_Prepend_list [OF ht_reprD(6) [OF assms(1,2)], of pt] not_in_bucket [OF assms(1-3)]
    by simp
qed (use assms in auto)

lemma acc_PrependBefore_repr:
  assumes "ht_repr s B" "i < m_cSize (snd s)" "pt \<notin> set (concat B)" "B ! i = xs @ x # ys"
  shows "ht_repr (acc_PrependBefore i pt x s) (B[i := xs @ pt # x # ys])"
  unfolding acc_PrependBefore_def
proof (rule with_bucket_repr [OF assms(1,2)])
  show "insert pt (set (B ! i)) \<inter> set (concat B) \<subseteq> set (B ! i)" using assms(3) by auto
  show "case cl_PrependBefore pt x (fst s, Bucket (snd s) i) of (h', l') \<Rightarrow>
      clist_repr h' l' (xs @ pt # x # ys) \<and> links_frame (fst s) h' (insert pt (set (B ! i)))"
    using cl_PrependBefore_list [OF ht_reprD(6) [OF assms(1,2), unfolded assms(4)], of pt] not_in_bucket [OF assms(1-3)] assms(4)
    by simp
qed (use assms in auto)

lemma acc_AppendAfter_repr:
  assumes "ht_repr s B" "i < m_cSize (snd s)" "pt \<notin> set (concat B)" "B ! i = xs @ x # ys"
  shows "ht_repr (acc_AppendAfter i pt x s) (B[i := xs @ x # pt # ys])"
  unfolding acc_AppendAfter_def
proof (rule with_bucket_repr [OF assms(1,2)])
  show "insert pt (set (B ! i)) \<inter> set (concat B) \<subseteq> set (B ! i)" using assms(3) by auto
  show "case cl_AppendAfter pt x (fst s, Bucket (snd s) i) of (h', l') \<Rightarrow>
      clist_repr h' l' (xs @ x # pt # ys) \<and> links_frame (fst s) h' (insert pt (set (B ! i)))"
    using cl_AppendAfter_list [OF ht_reprD(6) [OF assms(1,2), unfolded assms(4)], of pt] not_in_bucket [OF assms(1-3)] assms(4)
    by simp
qed (use assms in auto)

lemma acc_Remove_repr:
  assumes "ht_repr s B" "i < m_cSize (snd s)" "B ! i = xs @ x # ys"
  shows "ht_repr (acc_Remove i x s) (B[i := xs @ ys])"
  unfolding acc_Remove_def
proof (rule with_bucket_repr [OF assms(1,2)])
  show "set (B ! i) \<inter> set (concat B) \<subseteq> set (B ! i)" by auto
  show "case cl_Remove x (fst s, Bucket (snd s) i) of (h', l') \<Rightarrow>
      clist_repr h' l' (xs @ ys) \<and> links_frame (fst s) h' (set (B ! i))"
    using cl_Remove_list [OF ht_reprD(6) [OF assms(1,2), unfolded assms(3)]] assms(3) by auto
qed (use assms in auto)

section \<open>Lookup\<close>

lemma key_PtLookup_find:
  assumes "ht_repr s B"
  shows "key_PtLookup k s =
    Some (find (\<lambda>x. m_pfuncEqual (snd s) (m_Key (snd s) x) k) (B ! UlBucketIndex (snd s) k))"
  using first_match_head [OF ht_reprD(6) [OF assms UlBucketIndex_lt [OF assms]]]
  by (simp add: key_PtLookup_def key_PtNextMatch_def)

lemma key_PtNext_find:
  assumes "ht_repr s B" "B ! UlBucketIndex (snd s) k = xs @ x # ys"
  shows "key_PtNext k s x = Some (find (\<lambda>x. m_pfuncEqual (snd s) (m_Key (snd s) x) k) ys)"
  unfolding key_PtNext_def key_PtNextMatch_def
  using ht_reprD(6) [OF assms(1) UlBucketIndex_lt [OF assms(1)], of k]
  by (simp add: assms(2) first_match_list(2))

section \<open>The contract of a table\<close>

text \<open>
  What a client of the table relies on when it uses a key for one element: lookups end and are
  exact, an inserted element is found first, and a removed one is gone.
\<close>

locale keyed_table =
  fixes inv :: "'s \<Rightarrow> bool" and elems :: "'s \<Rightarrow> 't set" and key :: "'t \<Rightarrow> 'k" and valid :: "'k \<Rightarrow> bool"
    and lookup :: "'k \<Rightarrow> 's \<Rightarrow> 't option option" and add :: "'t \<Rightarrow> 's \<Rightarrow> 's" and drop :: "'k \<Rightarrow> 't \<Rightarrow> 's \<Rightarrow> 's"
  assumes lookup_ends: "inv s \<Longrightarrow> \<exists>r. lookup k s = Some r"
    and lookup_found: "inv s \<Longrightarrow> valid k \<Longrightarrow> lookup k s = Some (Some x) \<Longrightarrow> x \<in> elems s \<and> key x = k"
    and lookup_missing: "inv s \<Longrightarrow> valid k \<Longrightarrow> lookup k s = Some None \<Longrightarrow> x \<in> elems s \<Longrightarrow> key x \<noteq> k"
    and valid_elems: "inv s \<Longrightarrow> x \<in> elems s \<Longrightarrow> valid (key x)"
    and add: "inv s \<Longrightarrow> valid (key x) \<Longrightarrow> x \<notin> elems s \<Longrightarrow>
        inv (add x s) \<and> elems (add x s) = insert x (elems s) \<and> lookup (key x) (add x s) = Some (Some x)"
    and drop: "inv s \<Longrightarrow> x \<in> elems s \<Longrightarrow>
        inv (drop (key x) x s) \<and> elems (drop (key x) x s) = elems s - {x}"
begin

definition unique_keys :: "'s \<Rightarrow> bool" where
  "unique_keys s \<longleftrightarrow> inj_on key (elems s)"

lemma lookup_iff:
  assumes "inv s" "unique_keys s" "valid k"
  shows "lookup k s = Some (Some x) \<longleftrightarrow> x \<in> elems s \<and> key x = k"
proof
  assume x: "x \<in> elems s \<and> key x = k"
  obtain r where r: "lookup k s = Some r" using lookup_ends [OF assms(1)] by blast
  show "lookup k s = Some (Some x)"
  proof (cases r)
    case None
    then show ?thesis using lookup_missing [OF assms(1,3)] r x by auto
  next
    case (Some y)
    then have "y \<in> elems s \<and> key y = k" using lookup_found [OF assms(1,3)] r by auto
    then show ?thesis using r Some x assms(2) by (auto simp: unique_keys_def inj_on_def)
  qed
qed (use lookup_found [OF assms(1,3)] in blast)

lemma lookup_None_iff:
  assumes "inv s" "valid k"
  shows "lookup k s = Some None \<longleftrightarrow> (\<forall>x \<in> elems s. key x \<noteq> k)"
  using lookup_ends [OF assms(1), of k] lookup_found [OF assms] lookup_missing [OF assms]
  by (metis not_None_eq)

lemma add_fresh:
  assumes "inv s" "unique_keys s" "valid (key x)" "\<forall>y \<in> elems s. key y \<noteq> key x"
  shows "inv (add x s) \<and> unique_keys (add x s) \<and> elems (add x s) = insert x (elems s)"
proof -
  have "x \<notin> elems s" using assms(4) by blast
  then show ?thesis using add [OF assms(1,3)] assms(2,4) by (auto simp: unique_keys_def inj_on_def)
qed

lemma drop_unique:
  assumes "inv s" "unique_keys s" "x \<in> elems s"
  shows "inv (drop (key x) x s) \<and> unique_keys (drop (key x) x s)
    \<and> lookup (key x) (drop (key x) x s) = Some None"
proof -
  have d: "inv (drop (key x) x s)" "elems (drop (key x) x s) = elems s - {x}"
    using drop [OF assms(1,3)] by simp_all
  have "\<forall>y \<in> elems s - {x}. key y \<noteq> key x"
    using assms(2,3) by (auto simp: unique_keys_def inj_on_def)
  then show ?thesis
    using d assms(2) valid_elems [OF assms(1,3)] lookup_None_iff [OF d(1)]
    by (auto simp: unique_keys_def inj_on_def)
qed

lemma lookup_eq:
  assumes "inv s'" "inv s''" "unique_keys s'" "unique_keys s''" "valid k"
    "\<And>y. key y = k \<Longrightarrow> y \<in> elems s' \<longleftrightarrow> y \<in> elems s''"
  shows "lookup k s' = lookup k s''"
proof -
  obtain r where r: "lookup k s' = Some r" using lookup_ends [OF assms(1)] by blast
  show ?thesis
  proof (cases r)
    case None
    then have "\<forall>y \<in> elems s''. key y \<noteq> k" using r lookup_None_iff [OF assms(1,5)] assms(6) by blast
    then show ?thesis using r None lookup_None_iff [OF assms(2,5)] by simp
  next
    case (Some y)
    then have "y \<in> elems s'' \<and> key y = k" using r lookup_iff [OF assms(1,3,5)] assms(6) by auto
    then have "lookup k s'' = Some (Some y)" using lookup_iff [OF assms(2,4,5)] by simp
    then show ?thesis using r Some by simp
  qed
qed

lemma lookup_add:
  assumes "inv s" "unique_keys s" "valid (key x)" "\<forall>y \<in> elems s. key y \<noteq> key x" "valid k"
  shows "lookup k (add x s) = (if k = key x then Some (Some x) else lookup k s)"
  using add_fresh [OF assms(1-4)] lookup_iff [of "add x s" "key x" x] lookup_eq [of "add x s" s k] assms by auto

lemma lookup_drop:
  assumes "inv s" "unique_keys s" "x \<in> elems s" "valid k"
  shows "lookup k (drop (key x) x s) = (if k = key x then Some None else lookup k s)"
  using drop_unique [OF assms(1-3)] drop [OF assms(1,3)] lookup_eq [of "drop (key x) x s" s k] assms by auto

end

section \<open>The table keeps the contract\<close>

lemma seg_unique: "seg h p xs None \<Longrightarrow> seg h q ys None \<Longrightarrow> hd_opt xs = hd_opt ys \<Longrightarrow> xs = ys"
proof (induction xs arbitrary: p q ys)
  case (Cons x xs)
  then obtain zs where "ys = x # zs" by (cases ys) auto
  then show ?case using Cons by (auto intro!: Cons.IH [of "Some x" "Some x" zs])
qed (metis opt_eq_None(1))

lemma ht_repr_unique: "ht_repr s B \<Longrightarrow> ht_repr s C \<Longrightarrow> B = C"
proof -
  assume r: "ht_repr s B" "ht_repr s C"
  have "B ! i = C ! i" if "i < m_cSize (snd s)" for i
  proof -
    have "clist_repr (fst s) (Bucket (snd s) i) (B ! i)" "clist_repr (fst s) (Bucket (snd s) i) (C ! i)"
      using r that by (simp_all add: ht_reprD(6))
    then show ?thesis
      using seg_unique [of "fst s" None "B ! i" None "C ! i"] by (simp add: clist_repr_def)
  qed
  then show "B = C" using ht_reprD(2) [OF r(1)] ht_reprD(2) [OF r(2)] by (simp add: list_eq_iff_nth_eq)
qed

definition ht_elems :: "('t, 'k) ht_state \<Rightarrow> 't set" where
  "ht_elems s = {x. \<exists>B. ht_repr s B \<and> x \<in> set (concat B)}"

text \<open>A table without the placeholder of an iterator in it, whose equality is equality of keys.\<close>

definition ht_ok :: "('t \<Rightarrow> 'k) \<Rightarrow> 'k \<Rightarrow> ('k \<Rightarrow> nat) \<Rightarrow> ('t, 'k) ht_state \<Rightarrow> bool" where
  "ht_ok key invalid hash s \<longleftrightarrow>
     m_Key (snd s) = key \<and> m_pkeyInvalid (snd s) = invalid \<and> m_pfuncHash (snd s) = hash \<and> m_pfuncEqual (snd s) = (=)
   \<and> (\<exists>B. ht_repr s B \<and> ht_placed key invalid s B)"

lemma ht_elems_repr: "ht_repr s B \<Longrightarrow> ht_elems s = set (concat B)"
  unfolding ht_elems_def using ht_repr_unique [of s B] by blast

lemma ht_okE:
  assumes "ht_ok key invalid hash s"
  obtains B where "ht_repr s B" "ht_elems s = set (concat B)"
    "ht_placed key invalid s B"
    "m_Key (snd s) = key" "m_pkeyInvalid (snd s) = invalid" "m_pfuncHash (snd s) = hash" "m_pfuncEqual (snd s) = (=)"
  using assms ht_elems_repr unfolding ht_ok_def by metis

lemma ht_elem_place:
  assumes "ht_repr s B" "x \<in> set (concat B)"
    "ht_placed key invalid s B"
  shows "x \<in> set (B ! UlBucketIndex (snd s) (key x))" "key x \<noteq> invalid"
  using assms(2,3) ht_reprD(2) [OF assms(1)] unfolding set_concat_nth ht_placed_def by metis+

lemma ht_valid: "ht_ok key invalid hash s \<Longrightarrow> x \<in> ht_elems s \<Longrightarrow> key x \<noteq> invalid"
  by (erule ht_okE) (use ht_elem_place(2) in simp)

lemma find_SomeD: "find P xs = Some x \<Longrightarrow> x \<in> set xs \<and> P x"
  by (induction xs) (auto split: if_splits)

lemma ht_lookup:
  assumes "ht_ok key invalid hash s"
  shows "\<exists>r. key_PtLookup k s = Some r
    \<and> (case r of Some x \<Rightarrow> x \<in> ht_elems s \<and> key x = k | None \<Rightarrow> (\<forall>x \<in> ht_elems s. key x \<noteq> k))"
proof -
  from assms obtain B where B: "ht_repr s B" "ht_elems s = set (concat B)"
    "ht_placed key invalid s B"
    "m_Key (snd s) = key" "m_pfuncEqual (snd s) = (=)"
    by (blast elim: ht_okE)
  let ?i = "UlBucketIndex (snd s) k"
  have sub: "set (B ! ?i) \<subseteq> ht_elems s"
    unfolding B(2) by (rule bucket_subset) (simp add: UlBucketIndex_lt [OF B(1)] ht_reprD(2) [OF B(1)])
  have place: "x \<in> set (B ! ?i)" if "x \<in> ht_elems s" "key x = k" for x
    using ht_elem_place(1) [OF B(1) _ B(3), of x] that B(2) by simp
  have "case find (\<lambda>x. key x = k) (B ! ?i) of
      Some x \<Rightarrow> x \<in> ht_elems s \<and> key x = k | None \<Rightarrow> (\<forall>x \<in> ht_elems s. key x \<noteq> k)"
    using sub place by (auto simp: find_None_iff dest: find_SomeD split: option.splits)
  then show ?thesis by (simp add: key_PtLookup_find [OF B(1)] B(4,5))
qed

lemma ht_placed_update:
  assumes "ht_placed key invalid s B" "i < length B"
    and "m_cSize (snd s') = m_cSize (snd s)" "UlBucketIndex (snd s') = UlBucketIndex (snd s)"
    and "\<And>y. y \<in> set ys \<Longrightarrow> key y \<noteq> invalid \<and> UlBucketIndex (snd s) (key y) = i"
  shows "ht_placed key invalid s' (B[i := ys])"
  using assms by (auto simp: ht_placed_def nth_list_update split: if_splits)

lemma ht_insert:
  assumes "ht_ok key invalid hash s" "key x \<noteq> invalid" "x \<notin> ht_elems s"
  shows "ht_ok key invalid hash (sht_Insert x s) \<and> ht_elems (sht_Insert x s) = insert x (ht_elems s)
    \<and> key_PtLookup (key x) (sht_Insert x s) = Some (Some x)"
proof -
  from assms(1) obtain B where B: "ht_repr s B" "ht_elems s = set (concat B)"
    "ht_placed key invalid s B"
    "m_Key (snd s) = key" "m_pkeyInvalid (snd s) = invalid" "m_pfuncHash (snd s) = hash" "m_pfuncEqual (snd s) = (=)"
    by (blast elim: ht_okE)
  let ?i = "UlBucketIndex (snd s) (key x)"
  have i: "?i < m_cSize (snd s)" "?i < length B" using UlBucketIndex_lt [OF B(1)] ht_reprD(2) [OF B(1)] by simp_all
  have ins: "sht_Insert x s = acc_Prepend ?i x s"
    by (simp add: sht_Insert_def acc_Prepend_def B(4))
  have R: "ht_repr (sht_Insert x s) (B[?i := x # B ! ?i])"
    using acc_Prepend_repr [OF B(1) i(1)] assms(3) by (simp add: ins B(2))
  have el: "ht_elems (sht_Insert x s) = insert x (ht_elems s)"
    unfolding ht_elems_repr [OF R] B(2)
      set_concat_update [OF ht_reprD(4) [OF B(1)] i(2)]
    using bucket_subset [OF i(2)] by (simp only: list.set) blast
  have "ht_ok key invalid hash (sht_Insert x s)"
  proof -
    have elem: "\<And>y. y \<in> set (x # B ! ?i) \<Longrightarrow> key y \<noteq> invalid \<and> UlBucketIndex (snd s) (key y) = ?i"
      using B(3) [unfolded ht_placed_def, rule_format, OF i(1)] assms(2) by auto
    have pl: "ht_placed key invalid (sht_Insert x s) (B[?i := x # B ! ?i])"
      by (rule ht_placed_update [OF B(3) i(2) _ _ elem]) (simp_all only: sht_Insert_def with_bucket_fields with_bucket_index)
    show ?thesis using R pl unfolding ht_ok_def by (auto simp: sht_Insert_def B(4-7))
  qed
  moreover have "key_PtLookup (key x) (sht_Insert x s) = Some (Some x)"
    using key_PtLookup_find [OF R, of "key x"] i by (simp add: sht_Insert_def B(4,7))
  ultimately show ?thesis using el by simp
qed

lemma ht_remove:
  assumes "ht_ok key invalid hash s" "x \<in> ht_elems s"
  shows "ht_ok key invalid hash (key_Remove (key x) x s) \<and> ht_elems (key_Remove (key x) x s) = ht_elems s - {x}"
proof -
  from assms(1) obtain B where B: "ht_repr s B" "ht_elems s = set (concat B)"
    "ht_placed key invalid s B"
    "m_Key (snd s) = key" "m_pkeyInvalid (snd s) = invalid" "m_pfuncHash (snd s) = hash" "m_pfuncEqual (snd s) = (=)"
    by (blast elim: ht_okE)
  let ?i = "UlBucketIndex (snd s) (key x)"
  have i: "?i < m_cSize (snd s)" "?i < length B" using UlBucketIndex_lt [OF B(1)] ht_reprD(2) [OF B(1)] by simp_all
  have "x \<in> set (B ! ?i)" using ht_elem_place(1) [OF B(1) _ B(3)] assms(2) B(2) by simp
  then obtain xs ys where xs: "B ! ?i = xs @ x # ys" by (meson split_list)
  have R: "ht_repr (key_Remove (key x) x s) (B[?i := xs @ ys])"
    using acc_Remove_repr [OF B(1) i(1) xs] by (simp add: key_Remove_def)
  have d: "distinct (xs @ x # ys)" using distinct_concat_nth(1) [OF ht_reprD(4) [OF B(1)] i(2)] xs by simp
  have "ht_elems (key_Remove (key x) x s) = ht_elems s - {x}"
    unfolding ht_elems_repr [OF R] B(2) set_concat_update [OF ht_reprD(4) [OF B(1)] i(2)] xs
    using d bucket_subset [OF i(2)] xs by (simp del: set_concat) blast
  moreover have "ht_ok key invalid hash (key_Remove (key x) x s)"
  proof -
    have elem: "\<And>y. y \<in> set (xs @ ys) \<Longrightarrow> key y \<noteq> invalid \<and> UlBucketIndex (snd s) (key y) = ?i"
    proof -
      have sub: "set (xs @ ys) \<subseteq> set (B ! ?i)" by (auto simp: xs)
      show "y \<in> set (xs @ ys) \<Longrightarrow> key y \<noteq> invalid \<and> UlBucketIndex (snd s) (key y) = ?i" for y
        using B(3) [unfolded ht_placed_def] i(1) sub by blast
    qed
    have pl: "ht_placed key invalid (key_Remove (key x) x s) (B[?i := xs @ ys])"
      by (rule ht_placed_update [OF B(3) i(2) _ _ elem]) (simp_all only: key_Remove_def acc_Remove_def with_bucket_fields with_bucket_index)
    show ?thesis using R pl unfolding ht_ok_def by (auto simp: key_Remove_def acc_Remove_def B(4-7))
  qed
  ultimately show ?thesis by simp
qed

interpretation sht: keyed_table "ht_ok key invalid hash" ht_elems key "\<lambda>k. k \<noteq> invalid"
  key_PtLookup sht_Insert key_Remove
proof unfold_locales
  fix s k x
  show "ht_ok key invalid hash s \<Longrightarrow> \<exists>r. key_PtLookup k s = Some r" using ht_lookup by metis
  show "ht_ok key invalid hash s \<Longrightarrow> k \<noteq> invalid \<Longrightarrow> key_PtLookup k s = Some (Some x) \<Longrightarrow> x \<in> ht_elems s \<and> key x = k"
    using ht_lookup [of key invalid hash s k] by auto
  show "ht_ok key invalid hash s \<Longrightarrow> k \<noteq> invalid \<Longrightarrow> key_PtLookup k s = Some None \<Longrightarrow> x \<in> ht_elems s \<Longrightarrow> key x \<noteq> k"
    using ht_lookup [of key invalid hash s k] by auto
  show "ht_ok key invalid hash s \<Longrightarrow> x \<in> ht_elems s \<Longrightarrow> key x \<noteq> invalid"
    by (rule ht_valid)
  show "ht_ok key invalid hash s \<Longrightarrow> key x \<noteq> invalid \<Longrightarrow> x \<notin> ht_elems s \<Longrightarrow>
      ht_ok key invalid hash (sht_Insert x s) \<and> ht_elems (sht_Insert x s) = insert x (ht_elems s)
      \<and> key_PtLookup (key x) (sht_Insert x s) = Some (Some x)"
    by (rule ht_insert)
  show "ht_ok key invalid hash s \<Longrightarrow> x \<in> ht_elems s \<Longrightarrow>
      ht_ok key invalid hash (key_Remove (key x) x s) \<and> ht_elems (key_Remove (key x) x s) = ht_elems s - {x}"
    by (rule ht_remove)
qed

section \<open>Properties\<close>

text \<open>C29 A hash table with one element per key is a map from keys to elements: a lookup ends and finds exactly
  the element with the key; inserting an element with a new key and removing any element of the
  table keep the table in order, change its elements by this one and the lookup of its key only.\<close>
theorem sht_is_a_map:
  assumes ok: "ht_ok key invalid hash s" and inj: "inj_on key (ht_elems s)"
  shows "(\<forall>k. k \<noteq> invalid \<longrightarrow> (\<exists>r. key_PtLookup k s = Some r \<and> (\<forall>y. r = Some y \<longleftrightarrow> y \<in> ht_elems s \<and> key y = k)))
    \<and> (\<forall>x. key x \<noteq> invalid \<and> (\<forall>y \<in> ht_elems s. key y \<noteq> key x) \<longrightarrow>
         ht_ok key invalid hash (sht_Insert x s) \<and> ht_elems (sht_Insert x s) = insert x (ht_elems s)
         \<and> (\<forall>k. k \<noteq> invalid \<longrightarrow> key_PtLookup k (sht_Insert x s) = (if k = key x then Some (Some x) else key_PtLookup k s)))
    \<and> (\<forall>x \<in> ht_elems s.
         ht_ok key invalid hash (key_Remove (key x) x s) \<and> ht_elems (key_Remove (key x) x s) = ht_elems s - {x}
         \<and> (\<forall>k. k \<noteq> invalid \<longrightarrow> key_PtLookup k (key_Remove (key x) x s) = (if k = key x then Some None else key_PtLookup k s)))"
proof -
  have u: "sht.unique_keys key s" using inj by (simp add: sht.unique_keys_def)
  have "\<exists>r. key_PtLookup k s = Some r \<and> (\<forall>y. r = Some y \<longleftrightarrow> y \<in> ht_elems s \<and> key y = k)" if "k \<noteq> invalid" for k
    using sht.lookup_ends [OF ok, of k] sht.lookup_iff [OF ok u that] by auto
  then show ?thesis
    using sht.add_fresh [OF ok u] sht.lookup_add [OF ok u] ht_remove [OF ok] sht.lookup_drop [OF ok u]
    by (intro conjI allI impI ballI) auto
qed

text \<open>A table of three buckets whose elements are their own keys.\<close>

definition sample_table :: "(nat, nat) ht_state" where
  "sample_table = ((\<lambda>_. SLink_new), sht_Init 3 id 0 id (=))"

lemma sample_table_ok: "ht_ok id 0 id sample_table" "ht_elems sample_table = {}"
proof -
  have "ht_repr sample_table (replicate 3 [])" unfolding sample_table_def by (rule ht_repr_Init) simp
  moreover from ht_elems_repr [OF this] show "ht_elems sample_table = {}" by simp
  ultimately show "ht_ok id 0 id sample_table"
    by (auto simp: ht_ok_def ht_placed_def sample_table_def sht_Init_def)
qed

theorem sht_is_a_map_witness:
  "key_PtLookup 1 (key_Remove 1 1 (sht_Insert 4 (sht_Insert 1 sample_table))) = Some None
    \<and> key_PtLookup 4 (key_Remove 1 1 (sht_Insert 4 (sht_Insert 1 sample_table))) = Some (Some 4)"
proof -
  note m = sht_is_a_map [of id 0 id]
  have 1: "ht_ok id 0 id (sht_Insert 1 sample_table)" "ht_elems (sht_Insert 1 sample_table) = {1}"
    using m [OF sample_table_ok(1)] sample_table_ok(2) by simp_all
  have 2: "ht_ok id 0 id (sht_Insert 4 (sht_Insert 1 sample_table))" "ht_elems (sht_Insert 4 (sht_Insert 1 sample_table)) = {4, 1}"
    "key_PtLookup 4 (sht_Insert 4 (sht_Insert 1 sample_table)) = Some (Some 4)"
    using m [OF 1(1)] 1(2) by simp_all
  show ?thesis using m [OF 2(1)] 2(2,3) by simp
qed

end
