(* ===== verification/Comparator.thy ===== *)
theory Comparator
  imports Prelude "HOL-Library.Option_ord"
begin

text \<open>
  Datum comparison: the interface \<^verbatim>\<open>IComparator\<close>
  (\<^verbatim>\<open>libgpopt/include/gpopt/base/IComparator.h\<close>) as a record of operations and a locale of
  its laws, the comparison functions of integer datums
  (\<^verbatim>\<open>libnaucrates/src/base/IDatumStatisticsMappable.cpp\<close>) and the comparator the
  optimizer installs, \<^verbatim>\<open>CDefaultComparator\<close>
  (\<^verbatim>\<open>libgpopt/src/base/CDefaultComparator.cpp\<close>), with the interpretation that
  discharges the laws for it.
\<close>

section \<open>The interface\<close>

record 'd comparator =
  FEqual :: "'d \<Rightarrow> 'd \<Rightarrow> bool"
  FLessThan :: "'d \<Rightarrow> 'd \<Rightarrow> bool"
  FLessThanOrEqual :: "'d \<Rightarrow> 'd \<Rightarrow> bool"
  FGreaterThan :: "'d \<Rightarrow> 'd \<Rightarrow> bool"
  FGreaterThanOrEqual :: "'d \<Rightarrow> 'd \<Rightarrow> bool"

text \<open>
  On the datums \<open>D\<close> it is used for, a comparator compares by a key of a linear order.  Two
  different datums may have one key, as the \<open>Int4\<close> and the \<open>Int8\<close> datum of one number do.
\<close>

locale icomparator =
  fixes pcomp :: "'d comparator" and D :: "'d \<Rightarrow> bool" and key :: "'d \<Rightarrow> 'k::linorder"
  assumes FEqual_key: "D x \<Longrightarrow> D y \<Longrightarrow> FEqual pcomp x y \<longleftrightarrow> key x = key y"
    and FLessThan_key: "D x \<Longrightarrow> D y \<Longrightarrow> FLessThan pcomp x y \<longleftrightarrow> key x < key y"
    and FLessThanOrEqual_key: "D x \<Longrightarrow> D y \<Longrightarrow> FLessThanOrEqual pcomp x y \<longleftrightarrow> key x \<le> key y"
    and FGreaterThan_key: "D x \<Longrightarrow> D y \<Longrightarrow> FGreaterThan pcomp x y \<longleftrightarrow> key y < key x"
    and FGreaterThanOrEqual_key: "D x \<Longrightarrow> D y \<Longrightarrow> FGreaterThanOrEqual pcomp x y \<longleftrightarrow> key y \<le> key x"
begin

lemmas comparator_keys =
  FEqual_key FLessThan_key FLessThanOrEqual_key FGreaterThan_key FGreaterThanOrEqual_key

lemma trichotomy:
  assumes "D x" "D y"
  shows "FLessThan pcomp x y \<or> FEqual pcomp x y \<or> FGreaterThan pcomp x y"
  using assms by (auto simp: comparator_keys)

lemma less_irrefl_sym:
  "D x \<Longrightarrow> D y \<Longrightarrow> FLessThan pcomp x y \<Longrightarrow> \<not> FEqual pcomp x y \<and> \<not> FGreaterThan pcomp x y"
  by (auto simp: comparator_keys)

lemma less_trans':
  "D x \<Longrightarrow> D y \<Longrightarrow> D z \<Longrightarrow> FLessThan pcomp x y \<Longrightarrow> FLessThan pcomp y z \<Longrightarrow> FLessThan pcomp x z"
  by (auto simp: comparator_keys)

end

section \<open>Integer datums\<close>

text \<open>
  \<open>IMDType::ETypeInfo\<close> and the part of a datum its comparisons read.  The datums of the integer
  types (and of bool and oid) have a \<open>LINT\<close> mapping and no binary comparison.
\<close>

datatype etypeinfo = EtiInt2 | EtiInt4 | EtiInt8 | EtiBool | EtiOid | EtiGeneric

datatype ecmptype = EcmptEq | EcmptNEq | EcmptL | EcmptLEq | EcmptG | EcmptGEq | EcmptIDF | EcmptOther

record idatum =
  d_type :: etypeinfo
  d_null :: bool
  d_lval :: int

definition FStatsEqual :: "idatum \<Rightarrow> idatum \<Rightarrow> bool" where
  "FStatsEqual this other =
     (if d_null this then d_null other
      else if d_null other then False
      else d_lval this = d_lval other)"

definition FStatsLessThan :: "idatum \<Rightarrow> idatum \<Rightarrow> bool" where
  "FStatsLessThan this other =
     (if d_null this then \<not> d_null other
      else if d_null other then False
      else d_lval this < d_lval other)"

definition FHasStatsLINTMapping :: "idatum \<Rightarrow> bool" where
  "FHasStatsLINTMapping d = (d_type d \<noteq> EtiGeneric)"

definition FStatsComparable :: "idatum \<Rightarrow> idatum \<Rightarrow> bool" where
  "FStatsComparable this other = (FHasStatsLINTMapping this \<and> FHasStatsLINTMapping other)"

definition FStatsGreaterThan :: "idatum \<Rightarrow> idatum \<Rightarrow> bool" where
  "FStatsGreaterThan this other = (FStatsComparable other this \<and> FStatsLessThan other this)"

text \<open>Nulls are equal to each other and less than everything else: \<open>None\<close> below \<open>Some\<close>.\<close>

definition stats_key :: "idatum \<Rightarrow> int option" where
  "stats_key d = (if d_null d then None else Some (d_lval d))"

lemma FStats_key:
  "FStatsEqual x y \<longleftrightarrow> stats_key x = stats_key y" "FStatsLessThan x y \<longleftrightarrow> stats_key x < stats_key y"
  by (auto simp: FStatsEqual_def FStatsLessThan_def stats_key_def)

text \<open>\<open>IDatum::IStatsCmp\<close>, the comparison function of the statistics sorts.\<close>

definition IStatsCmp :: "idatum \<Rightarrow> idatum \<Rightarrow> int" where
  "IStatsCmp d1 d2 =
     (if FStatsEqual d1 d2 then 0
      else if FStatsComparable d1 d2 \<and> FStatsLessThan d1 d2 then - 1 else 1)"

section \<open>The default comparator\<close>

text \<open>
  What the comparator reads from its surroundings: two trace flags, the metadata of types other
  than the integers, and the constant expression evaluator, which is supplied by the database.
\<close>

record cmp_context =
  f_EnableConstantExpressionEvaluation :: bool
  f_UseExternalEvaluationForInts :: bool
  c_HasAllDefaultComparisons :: "etypeinfo \<Rightarrow> bool"
  c_eval :: "ecmptype \<Rightarrow> idatum \<Rightarrow> idatum \<Rightarrow> bool"

definition FIntType :: "etypeinfo \<Rightarrow> bool" where
  "FIntType eti = (eti = EtiInt2 \<or> eti = EtiInt4 \<or> eti = EtiInt8)"

definition FConstrainableType :: "cmp_context \<Rightarrow> etypeinfo \<Rightarrow> bool" where
  "FConstrainableType ctx eti =
     (if FIntType eti then True
      else if \<not> f_EnableConstantExpressionEvaluation ctx then False
      else c_HasAllDefaultComparisons ctx eti)"

definition FUseBuiltinIntEvaluators :: "cmp_context \<Rightarrow> bool" where
  "FUseBuiltinIntEvaluators ctx =
     (\<not> f_EnableConstantExpressionEvaluation ctx \<or> \<not> f_UseExternalEvaluationForInts ctx)"

definition def_FEqual :: "cmp_context \<Rightarrow> idatum \<Rightarrow> idatum \<Rightarrow> bool" where
  "def_FEqual ctx d1 d2 =
     (if \<not> FConstrainableType ctx (d_type d1) \<or> \<not> FConstrainableType ctx (d_type d2) then False
      else if FUseBuiltinIntEvaluators ctx \<and> FIntType (d_type d1) \<and> FIntType (d_type d2)
      then FStatsEqual d1 d2
      else c_eval ctx EcmptEq d1 d2)"

definition def_FLessThan :: "cmp_context \<Rightarrow> idatum \<Rightarrow> idatum \<Rightarrow> bool" where
  "def_FLessThan ctx d1 d2 =
     (if \<not> FConstrainableType ctx (d_type d1) \<or> \<not> FConstrainableType ctx (d_type d2) then False
      else if FUseBuiltinIntEvaluators ctx \<and> FIntType (d_type d1) \<and> FIntType (d_type d2)
      then FStatsLessThan d1 d2
      else c_eval ctx EcmptL d1 d2)"

definition def_FLessThanOrEqual :: "cmp_context \<Rightarrow> idatum \<Rightarrow> idatum \<Rightarrow> bool" where
  "def_FLessThanOrEqual ctx d1 d2 =
     (if \<not> FConstrainableType ctx (d_type d1) \<or> \<not> FConstrainableType ctx (d_type d2) then False
      else if FUseBuiltinIntEvaluators ctx \<and> FIntType (d_type d1) \<and> FIntType (d_type d2)
      then FStatsLessThan d1 d2 \<or> FStatsEqual d1 d2
      else c_eval ctx EcmptLEq d1 d2)"

definition def_FGreaterThan :: "cmp_context \<Rightarrow> idatum \<Rightarrow> idatum \<Rightarrow> bool" where
  "def_FGreaterThan ctx d1 d2 =
     (if \<not> FConstrainableType ctx (d_type d1) \<or> \<not> FConstrainableType ctx (d_type d2) then False
      else if FUseBuiltinIntEvaluators ctx \<and> FIntType (d_type d1) \<and> FIntType (d_type d2)
      then FStatsGreaterThan d1 d2
      else c_eval ctx EcmptG d1 d2)"

definition def_FGreaterThanOrEqual :: "cmp_context \<Rightarrow> idatum \<Rightarrow> idatum \<Rightarrow> bool" where
  "def_FGreaterThanOrEqual ctx d1 d2 =
     (if \<not> FConstrainableType ctx (d_type d1) \<or> \<not> FConstrainableType ctx (d_type d2) then False
      else if FUseBuiltinIntEvaluators ctx \<and> FIntType (d_type d1) \<and> FIntType (d_type d2)
      then FStatsGreaterThan d1 d2 \<or> FStatsEqual d1 d2
      else c_eval ctx EcmptGEq d1 d2)"

definition CDefaultComparator :: "cmp_context \<Rightarrow> idatum comparator" where
  "CDefaultComparator ctx =
     \<lparr>FEqual = def_FEqual ctx, FLessThan = def_FLessThan ctx,
      FLessThanOrEqual = def_FLessThanOrEqual ctx, FGreaterThan = def_FGreaterThan ctx,
      FGreaterThanOrEqual = def_FGreaterThanOrEqual ctx\<rparr>"

text \<open>\<open>CUtils::IDatumCmp\<close>: the sort order of datums under a comparator.\<close>

definition IDatumCmp :: "'d comparator \<Rightarrow> 'd \<Rightarrow> 'd \<Rightarrow> int" where
  "IDatumCmp pcomp d1 d2 =
     (if FEqual pcomp d1 d2 then 0 else if FLessThan pcomp d1 d2 then - 1 else 1)"

subsection \<open>The default comparator satisfies the interface on integer datums\<close>

definition int_datum :: "idatum \<Rightarrow> bool" where
  "int_datum d \<longleftrightarrow> FIntType (d_type d)"

text \<open>The context with both trace flags off, as in a default configuration.\<close>

definition builtin_ctx :: cmp_context where
  "builtin_ctx = \<lparr>f_EnableConstantExpressionEvaluation = False, f_UseExternalEvaluationForInts = False,
     c_HasAllDefaultComparisons = (\<lambda>_. False), c_eval = (\<lambda>_ _ _. False)\<rparr>"

lemma def_compare_keys:
  assumes "FUseBuiltinIntEvaluators ctx" "int_datum x" "int_datum y"
  shows "def_FEqual ctx x y \<longleftrightarrow> stats_key x = stats_key y"
    "def_FLessThan ctx x y \<longleftrightarrow> stats_key x < stats_key y"
    "def_FLessThanOrEqual ctx x y \<longleftrightarrow> stats_key x \<le> stats_key y"
    "def_FGreaterThan ctx x y \<longleftrightarrow> stats_key y < stats_key x"
    "def_FGreaterThanOrEqual ctx x y \<longleftrightarrow> stats_key y \<le> stats_key x"
proof -
  have "d_type x \<noteq> EtiGeneric" "d_type y \<noteq> EtiGeneric"
    using assms by (auto simp: int_datum_def FIntType_def)
  moreover have "FConstrainableType ctx (d_type x)" "FConstrainableType ctx (d_type y)"
    using assms by (simp_all add: int_datum_def FConstrainableType_def)
  ultimately show "def_FEqual ctx x y \<longleftrightarrow> stats_key x = stats_key y"
    "def_FLessThan ctx x y \<longleftrightarrow> stats_key x < stats_key y"
    "def_FLessThanOrEqual ctx x y \<longleftrightarrow> stats_key x \<le> stats_key y"
    "def_FGreaterThan ctx x y \<longleftrightarrow> stats_key y < stats_key x"
    "def_FGreaterThanOrEqual ctx x y \<longleftrightarrow> stats_key y \<le> stats_key x"
    using assms
    by (auto simp: def_FEqual_def def_FLessThan_def def_FLessThanOrEqual_def def_FGreaterThan_def
        def_FGreaterThanOrEqual_def int_datum_def FStats_key FStatsGreaterThan_def FStatsComparable_def
        FHasStatsLINTMapping_def)
qed

lemma default_icomparator:
  "FUseBuiltinIntEvaluators ctx \<Longrightarrow> icomparator (CDefaultComparator ctx) int_datum stats_key"
  by unfold_locales (simp_all add: CDefaultComparator_def def_compare_keys)

interpretation intcmp: icomparator "CDefaultComparator builtin_ctx" int_datum stats_key
  by (rule default_icomparator) (simp add: FUseBuiltinIntEvaluators_def builtin_ctx_def)

end
