(* ===== verification/ScalarExpr.thy ===== *)
theory ScalarExpr
  imports Comparator
begin

text \<open>
  Scalar expressions: the operators of \<^verbatim>\<open>libgpopt/include/gpopt/operators/CScalar*.h\<close>,
  expression trees, their three-valued meaning, the boolean evaluation of
  \<^verbatim>\<open>CScalar::EberEvaluate\<close> and the matching of expressions in
  \<^verbatim>\<open>libgpopt/src/base/CUtils.cpp\<close>.  An operator is identified by its metadata id; what the
  metadata says of it (supplied by the database) is the argument \<open>pmda\<close>.
\<close>

section \<open>Columns, metadata and operators\<close>

text \<open>A column reference: its id, type, whether it is a table column and whether that is nullable.\<close>

record colref =
  m_ulId :: nat
  m_eti :: etypeinfo
  m_fTable :: bool
  m_fNullable :: bool

text \<open>What the code reads of an operator or function in the metadata cache.\<close>

record imdscalarop =
  md_Ecmpt :: ecmptype
  md_FReturnsNullOnNullInput :: bool
  md_FCommutative :: bool
  md_PmdidOpInverse :: nat

type_synonym md_accessor = "nat \<Rightarrow> imdscalarop"

datatype earrcmptype = EarrcmpAny | EarrcmpAll

datatype eboolop = EboolopAnd | EboolopOr | EboolopNot

datatype ebooltest = EbtIsTrue | EbtIsNotTrue | EbtIsFalse | EbtIsNotFalse | EbtIsUnknown | EbtIsNotUnknown

text \<open>
  The scalar operators.  An array keeps its elements as children, or as constants in the operator
  once it is collapsed.
\<close>

datatype scalarop =
    CScalarIdent colref
  | CScalarConst idatum
  | CScalarCmp nat
  | CScalarIsDistinctFrom nat
  | CScalarArrayCmp earrcmptype nat
  | CScalarArray "idatum list"
  | CScalarArrayCoerceExpr nat
  | CScalarNullTest
  | CScalarBooleanTest ebooltest
  | CScalarBoolOp eboolop
  | CScalarNullIf nat
  | CScalarCoalesce
  | CScalarIf
  | CScalarCast nat
  | CScalarOp nat
  | CScalarFunc nat
  | CScalarSubquery nat

datatype cexpression = CExpression (m_pop: scalarop) (m_pdrgpexpr: "cexpression list")

abbreviation UlArity :: "cexpression \<Rightarrow> nat" where "UlArity e \<equiv> length (m_pdrgpexpr e)"
abbreviation child :: "cexpression \<Rightarrow> nat \<Rightarrow> cexpression" where "child e i \<equiv> m_pdrgpexpr e ! i"

section \<open>Three-valued meaning\<close>

definition and3 :: "bool option list \<Rightarrow> bool option" where
  "and3 bs = (if Some False \<in> set bs then Some False else if None \<in> set bs then None else Some True)"

definition or3 :: "bool option list \<Rightarrow> bool option" where
  "or3 bs = (if Some True \<in> set bs then Some True else if None \<in> set bs then None else Some False)"

definition not3 :: "bool option \<Rightarrow> bool option" where
  "not3 b = map_option Not b"

definition null_datum :: idatum where
  "null_datum = \<lparr>d_type = EtiBool, d_null = True, d_lval = 0\<rparr>"

definition bool_datum :: "bool option \<Rightarrow> idatum" where
  "bool_datum b = (case b of None \<Rightarrow> null_datum
     | Some x \<Rightarrow> \<lparr>d_type = EtiBool, d_null = False, d_lval = (if x then 1 else 0)\<rparr>)"

text \<open>The value of a null datum is not looked at: a constant null has one representation.\<close>

definition canon :: "idatum \<Rightarrow> idatum" where
  "canon d = (if d_null d then d\<lparr>d_lval := 0\<rparr> else d)"

definition truth_of :: "idatum \<Rightarrow> bool option" where
  "truth_of d = (if d_null d then None else Some (d_lval d \<noteq> 0))"

lemma canon_simps [simp]:
  "d_null (canon d) = d_null d" "d_type (canon d) = d_type d" "truth_of (canon d) = truth_of d"
  "\<not> d_null d \<Longrightarrow> canon d = d" "canon (canon d) = canon d"
  by (simp_all add: canon_def truth_of_def)

lemma truth_of_bool_datum [simp]: "truth_of (bool_datum b) = b"
  by (auto simp: truth_of_def bool_datum_def null_datum_def split: option.split)

lemma bool_datum_null [simp]: "d_null (bool_datum b) \<longleftrightarrow> b = None"
  by (auto simp: bool_datum_def null_datum_def split: option.split)

text \<open>A value is a datum, or the elements of an array expression.\<close>

datatype sval = Sd idatum | Sa "idatum list"

text \<open>
  What the database supplies: the operators (three-valued results on two datums), functions,
  casts, the elements of an array datum, and subqueries.
\<close>

record interp =
  i_op :: "nat \<Rightarrow> idatum \<Rightarrow> idatum \<Rightarrow> bool option"
  i_fun :: "nat \<Rightarrow> idatum list \<Rightarrow> idatum"
  i_cast :: "nat \<Rightarrow> idatum \<Rightarrow> idatum"
  i_elems :: "idatum \<Rightarrow> idatum list option"
  i_sub :: "nat \<Rightarrow> (colref \<Rightarrow> idatum) \<Rightarrow> idatum"

fun dat :: "sval \<Rightarrow> idatum" where
  "dat (Sd d) = d"
| "dat (Sa ds) = null_datum"

fun elems :: "interp \<Rightarrow> sval \<Rightarrow> idatum list option" where
  "elems I (Sa ds) = Some ds"
| "elems I (Sd d) = i_elems I d"

definition arg :: "sval list \<Rightarrow> nat \<Rightarrow> sval" where
  "arg vs i = (if i < length vs then vs ! i else Sd null_datum)"

definition distinct3 :: "interp \<Rightarrow> nat \<Rightarrow> idatum \<Rightarrow> idatum \<Rightarrow> bool" where
  "distinct3 I m x y = (if d_null x \<and> d_null y then False else if d_null x \<or> d_null y then True
     else i_op I m x y \<noteq> Some True)"

fun bool_test :: "ebooltest \<Rightarrow> bool option \<Rightarrow> bool" where
  "bool_test EbtIsTrue b = (b = Some True)"
| "bool_test EbtIsNotTrue b = (b \<noteq> Some True)"
| "bool_test EbtIsFalse b = (b = Some False)"
| "bool_test EbtIsNotFalse b = (b \<noteq> Some False)"
| "bool_test EbtIsUnknown b = (b = None)"
| "bool_test EbtIsNotUnknown b = (b \<noteq> None)"

fun first_nonnull :: "idatum list \<Rightarrow> idatum" where
  "first_nonnull [] = null_datum"
| "first_nonnull [d] = d"
| "first_nonnull (d # ds) = (if d_null d then first_nonnull ds else d)"

definition quantified :: "earrcmptype \<Rightarrow> bool option list \<Rightarrow> bool option" where
  "quantified t bs = (case t of EarrcmpAny \<Rightarrow> or3 bs | EarrcmpAll \<Rightarrow> and3 bs)"

fun eval_boolop :: "eboolop \<Rightarrow> bool option list \<Rightarrow> bool option" where
  "eval_boolop EboolopAnd bs = and3 bs"
| "eval_boolop EboolopOr bs = or3 bs"
| "eval_boolop EboolopNot bs = (case bs of [] \<Rightarrow> None | b # _ \<Rightarrow> not3 b)"

fun eval_op :: "interp \<Rightarrow> (colref \<Rightarrow> idatum) \<Rightarrow> scalarop \<Rightarrow> sval list \<Rightarrow> sval" where
  "eval_op I env (CScalarIdent c) vs = Sd (env c)"
| "eval_op I env (CScalarConst d) vs = Sd (canon d)"
| "eval_op I env (CScalarCmp m) vs = Sd (bool_datum (i_op I m (dat (arg vs 0)) (dat (arg vs 1))))"
| "eval_op I env (CScalarIsDistinctFrom m) vs = Sd (bool_datum (Some (distinct3 I m (dat (arg vs 0)) (dat (arg vs 1)))))"
| "eval_op I env (CScalarArrayCmp t m) vs =
     Sd (bool_datum (case elems I (arg vs 1) of None \<Rightarrow> None
           | Some ys \<Rightarrow> quantified t (map (i_op I m (dat (arg vs 0))) ys)))"
| "eval_op I env (CScalarArray consts) vs = Sa (if vs = [] then map canon consts else map dat vs)"
| "eval_op I env (CScalarArrayCoerceExpr m) vs =
     (case elems I (arg vs 0) of None \<Rightarrow> Sd null_datum | Some ys \<Rightarrow> Sa (map (i_cast I m) ys))"
| "eval_op I env CScalarNullTest vs = Sd (bool_datum (Some (d_null (dat (arg vs 0)))))"
| "eval_op I env (CScalarBooleanTest t) vs = Sd (bool_datum (Some (bool_test t (truth_of (dat (arg vs 0))))))"
| "eval_op I env (CScalarBoolOp b) vs = Sd (bool_datum (eval_boolop b (map (truth_of \<circ> dat) vs)))"
| "eval_op I env (CScalarNullIf m) vs =
     Sd (if i_op I m (dat (arg vs 0)) (dat (arg vs 1)) = Some True then null_datum else dat (arg vs 0))"
| "eval_op I env CScalarCoalesce vs = Sd (first_nonnull (map dat vs))"
| "eval_op I env CScalarIf vs =
     (if truth_of (dat (arg vs 0)) = Some True then Sd (dat (arg vs 1)) else Sd (dat (arg vs 2)))"
| "eval_op I env (CScalarCast m) vs = Sd (i_cast I m (dat (arg vs 0)))"
| "eval_op I env (CScalarOp m) vs = Sd (i_fun I m (map dat vs))"
| "eval_op I env (CScalarFunc m) vs = Sd (i_fun I m (map dat vs))"
| "eval_op I env (CScalarSubquery k) vs = Sd (i_sub I k env)"

fun ev :: "interp \<Rightarrow> (colref \<Rightarrow> idatum) \<Rightarrow> cexpression \<Rightarrow> sval" where
  "ev I env (CExpression pop es) = eval_op I env pop (map (ev I env) es)"

definition truth :: "interp \<Rightarrow> (colref \<Rightarrow> idatum) \<Rightarrow> cexpression \<Rightarrow> bool option" where
  "truth I env e = truth_of (dat (ev I env e))"

lemma truth_boolop [simp]:
  "truth I env (CExpression (CScalarBoolOp b) es) = eval_boolop b (map (truth I env) es)"
  by (simp add: truth_def [abs_def] comp_def)

lemma truth_const [simp]: "truth I env (CExpression (CScalarConst d) es) = truth_of d"
  by (simp add: truth_def)

subsection \<open>Conjunctions and disjunctions of lists\<close>

lemma and3_simps [simp]: "and3 [] = Some True" "and3 [b] = b"
  by (auto simp: and3_def) (metis (full_types) not_None_eq)+

lemma or3_simps [simp]: "or3 [] = Some False" "or3 [b] = b"
  by (auto simp: or3_def) (metis (full_types) not_None_eq)+

lemma and3_set: "set bs = set cs \<Longrightarrow> and3 bs = and3 cs"
  by (simp add: and3_def)

lemma or3_set: "set bs = set cs \<Longrightarrow> or3 bs = or3 cs"
  by (simp add: or3_def)

lemma and3_append: "and3 (bs @ cs) = and3 [and3 bs, and3 cs]"
  by (auto simp: and3_def)

lemma or3_append: "or3 (bs @ cs) = or3 [or3 bs, or3 cs]"
  by (auto simp: or3_def)

lemma and3_Cons: "and3 (b # bs) = and3 [b, and3 bs]"
  using and3_append [of "[b]" bs] by simp

lemma or3_Cons: "or3 (b # bs) = or3 [b, or3 bs]"
  using or3_append [of "[b]" bs] by simp

lemma and3_cong_append: "and3 as = b \<Longrightarrow> and3 bs = and3 cs \<Longrightarrow> and3 (as @ bs) = and3 (b # cs)"
  by (subst and3_append, subst (2) and3_Cons) simp

lemma or3_cong_append: "or3 as = b \<Longrightarrow> or3 bs = or3 cs \<Longrightarrow> or3 (as @ bs) = or3 (b # cs)"
  by (subst or3_append, subst (2) or3_Cons) simp

lemma and3_cong_Cons: "a = b \<Longrightarrow> and3 bs = and3 cs \<Longrightarrow> and3 (a # bs) = and3 (b # cs)"
  using and3_cong_append [of "[a]" b bs cs] by simp

lemma or3_cong_Cons: "a = b \<Longrightarrow> or3 bs = or3 cs \<Longrightarrow> or3 (a # bs) = or3 (b # cs)"
  using or3_cong_append [of "[a]" b bs cs] by simp

lemma and3_concat: "and3 (concat bss) = and3 (map and3 bss)"
  by (induction bss) (simp_all add: and3_append and3_Cons [of "and3 _" "map and3 _"])

lemma or3_concat: "or3 (concat bss) = or3 (map or3 bss)"
  by (induction bss) (simp_all add: or3_append or3_Cons [of "or3 _" "map or3 _"])

section \<open>Boolean evaluation\<close>

datatype EBoolEvalResult = EberTrue | EberFalse | EberNull | EberUnknown

text \<open>One pass over the children, with the three flags of the loop.\<close>

fun conj_loop :: "EBoolEvalResult list \<Rightarrow> bool \<Rightarrow> bool \<Rightarrow> bool \<Rightarrow> EBoolEvalResult" where
  "conj_loop [] fAllChildrenTrue fNullChild fUnknownChild =
     (if fAllChildrenTrue then EberTrue else if fUnknownChild then EberUnknown
      else if fNullChild then EberNull else EberUnknown)"
| "conj_loop (eber # ebers) fAllChildrenTrue fNullChild fUnknownChild =
     (if eber = EberFalse then EberFalse
      else conj_loop ebers (fAllChildrenTrue \<and> eber = EberTrue) (fNullChild \<or> eber = EberNull)
             (fUnknownChild \<or> eber = EberUnknown))"

definition EberConjunction :: "EBoolEvalResult list \<Rightarrow> EBoolEvalResult" where
  "EberConjunction ebers = conj_loop ebers True False False"

fun disj_loop :: "EBoolEvalResult list \<Rightarrow> bool \<Rightarrow> bool \<Rightarrow> bool \<Rightarrow> EBoolEvalResult" where
  "disj_loop [] fAllChildrenFalse fNullChild fUnknownChild =
     (if fAllChildrenFalse then EberFalse else if fUnknownChild then EberUnknown
      else if fNullChild then EberNull else EberUnknown)"
| "disj_loop (eber # ebers) fAllChildrenFalse fNullChild fUnknownChild =
     (if eber = EberTrue then EberTrue
      else disj_loop ebers (fAllChildrenFalse \<and> eber = EberFalse) (fNullChild \<or> eber = EberNull)
             (fUnknownChild \<or> eber = EberUnknown))"

definition EberDisjunction :: "EBoolEvalResult list \<Rightarrow> EBoolEvalResult" where
  "EberDisjunction ebers = disj_loop ebers True False False"

fun EberNullOnAnyNullChild :: "EBoolEvalResult list \<Rightarrow> EBoolEvalResult" where
  "EberNullOnAnyNullChild [] = EberUnknown"
| "EberNullOnAnyNullChild (eber # ebers) = (if eber = EberNull then EberNull else EberNullOnAnyNullChild ebers)"

fun EberNullOnAllNullChildren :: "EBoolEvalResult list \<Rightarrow> EBoolEvalResult" where
  "EberNullOnAllNullChildren [] = EberNull"
| "EberNullOnAllNullChildren (eber # ebers) =
     (if eber \<noteq> EberNull then EberUnknown else EberNullOnAllNullChildren ebers)"

text \<open>The table \<open>m_rgBoolEvalMap\<close> of \<^verbatim>\<open>CScalarBooleanTest.cpp\<close>, row by row.\<close>

definition m_rgBoolEvalMap :: "(ebooltest \<times> EBoolEvalResult \<times> EBoolEvalResult) list" where
  "m_rgBoolEvalMap =
    [(EbtIsTrue, EberTrue, EberTrue), (EbtIsTrue, EberFalse, EberFalse),
     (EbtIsTrue, EberNull, EberFalse), (EbtIsTrue, EberUnknown, EberUnknown),
     (EbtIsNotTrue, EberTrue, EberFalse), (EbtIsNotTrue, EberFalse, EberTrue),
     (EbtIsNotTrue, EberNull, EberTrue), (EbtIsNotTrue, EberUnknown, EberUnknown),
     (EbtIsFalse, EberTrue, EberFalse), (EbtIsFalse, EberFalse, EberTrue),
     (EbtIsFalse, EberNull, EberFalse), (EbtIsFalse, EberUnknown, EberUnknown),
     (EbtIsNotFalse, EberTrue, EberTrue), (EbtIsNotFalse, EberFalse, EberFalse),
     (EbtIsNotFalse, EberNull, EberTrue), (EbtIsNotFalse, EberUnknown, EberUnknown),
     (EbtIsUnknown, EberTrue, EberFalse), (EbtIsUnknown, EberFalse, EberFalse),
     (EbtIsUnknown, EberNull, EberTrue), (EbtIsUnknown, EberUnknown, EberUnknown),
     (EbtIsNotUnknown, EberTrue, EberTrue), (EbtIsNotUnknown, EberFalse, EberTrue),
     (EbtIsNotUnknown, EberNull, EberFalse), (EbtIsNotUnknown, EberUnknown, EberUnknown)]"

definition bool_eval_lookup :: "ebooltest \<Rightarrow> EBoolEvalResult \<Rightarrow> EBoolEvalResult" where
  "bool_eval_lookup ebt eber =
     (case filter (\<lambda>(t, c, r). t = ebt \<and> c = eber) m_rgBoolEvalMap of
        [] \<Rightarrow> EberUnknown | (t, c, r) # _ \<Rightarrow> r)"

fun eber_not :: "EBoolEvalResult \<Rightarrow> EBoolEvalResult" where
  "eber_not EberTrue = EberFalse"
| "eber_not EberFalse = EberTrue"
| "eber_not EberNull = EberNull"
| "eber_not EberUnknown = EberUnknown"

fun eber_null_test :: "EBoolEvalResult \<Rightarrow> EBoolEvalResult" where
  "eber_null_test EberNull = EberTrue"
| "eber_null_test EberFalse = EberFalse"
| "eber_null_test EberTrue = EberFalse"
| "eber_null_test EberUnknown = EberUnknown"

text \<open>
  The method \<open>Eber\<close> of the operators, one definition per class; \<open>EberUnknown\<close> is the default of
  \<open>CScalar\<close>.  A comparison, function or operator that is strict is null on a null argument.
\<close>

definition const_Eber :: "idatum \<Rightarrow> EBoolEvalResult" where
  "const_Eber d =
     (if d_null d then EberNull
      else if d_type d = EtiBool then (if d_lval d \<noteq> 0 then EberTrue else EberFalse)
      else EberUnknown)"

definition cmp_Eber :: "md_accessor \<Rightarrow> nat \<Rightarrow> EBoolEvalResult list \<Rightarrow> EBoolEvalResult" where
  "cmp_Eber pmda m ebers =
     (if md_FReturnsNullOnNullInput (pmda m) then EberNullOnAnyNullChild ebers else EberUnknown)"

definition array_cmp_Eber :: "md_accessor \<Rightarrow> nat \<Rightarrow> EBoolEvalResult list \<Rightarrow> EBoolEvalResult" where
  "array_cmp_Eber pmda m ebers =
     (if md_FReturnsNullOnNullInput (pmda m) then EberNullOnAnyNullChild ebers else EberUnknown)"

definition null_if_Eber :: "md_accessor \<Rightarrow> nat \<Rightarrow> EBoolEvalResult list \<Rightarrow> EBoolEvalResult" where
  "null_if_Eber pmda m ebers =
     (if md_FReturnsNullOnNullInput (pmda m) then EberNullOnAnyNullChild ebers else EberUnknown)"

definition op_Eber :: "md_accessor \<Rightarrow> nat \<Rightarrow> EBoolEvalResult list \<Rightarrow> EBoolEvalResult" where
  "op_Eber pmda m ebers =
     (if md_FReturnsNullOnNullInput (pmda m) then EberNullOnAnyNullChild ebers else EberUnknown)"

definition func_Eber :: "md_accessor \<Rightarrow> nat \<Rightarrow> EBoolEvalResult list \<Rightarrow> EBoolEvalResult" where
  "func_Eber pmda m ebers =
     (if md_FReturnsNullOnNullInput (pmda m) then EberNullOnAnyNullChild ebers else EberUnknown)"

definition coalesce_Eber :: "EBoolEvalResult list \<Rightarrow> EBoolEvalResult" where
  "coalesce_Eber ebers = EberNullOnAllNullChildren ebers"

definition if_Eber :: "EBoolEvalResult list \<Rightarrow> EBoolEvalResult" where
  "if_Eber ebers = EberNullOnAllNullChildren ebers"

definition cast_Eber :: "EBoolEvalResult list \<Rightarrow> EBoolEvalResult" where
  "cast_Eber ebers = EberNullOnAllNullChildren ebers"

definition null_test_Eber :: "EBoolEvalResult list \<Rightarrow> EBoolEvalResult" where
  "null_test_Eber ebers = (case ebers of [] \<Rightarrow> EberUnknown | eber # _ \<Rightarrow> eber_null_test eber)"

definition bool_test_Eber :: "ebooltest \<Rightarrow> EBoolEvalResult list \<Rightarrow> EBoolEvalResult" where
  "bool_test_Eber ebt ebers = (case ebers of [] \<Rightarrow> EberUnknown | eber # _ \<Rightarrow> bool_eval_lookup ebt eber)"

fun bool_op_Eber :: "eboolop \<Rightarrow> EBoolEvalResult list \<Rightarrow> EBoolEvalResult" where
  "bool_op_Eber EboolopAnd ebers = EberConjunction ebers"
| "bool_op_Eber EboolopOr ebers = EberDisjunction ebers"
| "bool_op_Eber EboolopNot ebers = (case ebers of [] \<Rightarrow> EberUnknown | eber # _ \<Rightarrow> eber_not eber)"

declare const_Eber_def [simp] cmp_Eber_def [simp] array_cmp_Eber_def [simp] null_if_Eber_def [simp]
  op_Eber_def [simp] func_Eber_def [simp] coalesce_Eber_def [simp] if_Eber_def [simp]
  cast_Eber_def [simp] null_test_Eber_def [simp] bool_test_Eber_def [simp]

text \<open>The virtual call.  \<open>CScalarIsDistinctFrom\<close> inherits the method of \<open>CScalarCmp\<close>.\<close>

fun Eber :: "md_accessor \<Rightarrow> scalarop \<Rightarrow> EBoolEvalResult list \<Rightarrow> EBoolEvalResult" where
  "Eber pmda (CScalarConst d) ebers = const_Eber d"
| "Eber pmda (CScalarCmp m) ebers = cmp_Eber pmda m ebers"
| "Eber pmda (CScalarIsDistinctFrom m) ebers = cmp_Eber pmda m ebers"
| "Eber pmda (CScalarArrayCmp t m) ebers = array_cmp_Eber pmda m ebers"
| "Eber pmda CScalarNullTest ebers = null_test_Eber ebers"
| "Eber pmda (CScalarBooleanTest t) ebers = bool_test_Eber t ebers"
| "Eber pmda (CScalarBoolOp b) ebers = bool_op_Eber b ebers"
| "Eber pmda (CScalarNullIf m) ebers = null_if_Eber pmda m ebers"
| "Eber pmda CScalarCoalesce ebers = coalesce_Eber ebers"
| "Eber pmda CScalarIf ebers = if_Eber ebers"
| "Eber pmda (CScalarCast m) ebers = cast_Eber ebers"
| "Eber pmda (CScalarOp m) ebers = op_Eber pmda m ebers"
| "Eber pmda (CScalarFunc m) ebers = func_Eber pmda m ebers"
| "Eber pmda (CScalarIdent c) ebers = EberUnknown"
| "Eber pmda (CScalarArray ds) ebers = EberUnknown"
| "Eber pmda (CScalarArrayCoerceExpr m) ebers = EberUnknown"
| "Eber pmda (CScalarSubquery k) ebers = EberUnknown"

definition FSubquery :: "scalarop \<Rightarrow> bool" where
  "FSubquery pop = (case pop of CScalarSubquery k \<Rightarrow> True | _ \<Rightarrow> False)"

fun EberEvaluate :: "md_accessor \<Rightarrow> cexpression \<Rightarrow> EBoolEvalResult" where
  "EberEvaluate pmda (CExpression pop es) =
     Eber pmda pop (if \<not> FSubquery pop then map (EberEvaluate pmda) es else [])"

text \<open>Replacing the columns of a set by the null constant, and the test built on it.\<close>

fun PexprReplaceColsWithNulls :: "colref set \<Rightarrow> cexpression \<Rightarrow> cexpression" where
  "PexprReplaceColsWithNulls pcrs (CExpression pop es) =
     (if FSubquery pop then CExpression pop es
      else case pop of
          CScalarIdent c \<Rightarrow>
            if c \<in> pcrs then CExpression (CScalarConst null_datum) []
            else CExpression pop (map (PexprReplaceColsWithNulls pcrs) es)
        | _ \<Rightarrow> CExpression pop (map (PexprReplaceColsWithNulls pcrs) es))"

definition FNullRejecting :: "md_accessor \<Rightarrow> bool \<Rightarrow> bool \<Rightarrow> bool \<Rightarrow> cexpression \<Rightarrow> colref set \<Rightarrow> bool" where
  "FNullRejecting pmda fHasVolatileFunctions fHasSQL fHasNonScalarFunction pexprScalar pcrs =
     (if fHasVolatileFunctions \<or> fHasSQL \<or> fHasNonScalarFunction then False
      else (let eber = EberEvaluate pmda (PexprReplaceColsWithNulls pcrs pexprScalar)
            in eber = EberNull \<or> eber = EberFalse))"

subsection \<open>Soundness of the evaluation\<close>

text \<open>
  What the code relies on: an operator, function or cast that the metadata calls strict gives
  null on a null argument, and a null array has no elements.
\<close>

definition strict_interp :: "md_accessor \<Rightarrow> interp \<Rightarrow> bool" where
  "strict_interp pmda I \<longleftrightarrow>
     (\<forall>m x y. md_FReturnsNullOnNullInput (pmda m) \<longrightarrow> d_null x \<or> d_null y \<longrightarrow> i_op I m x y = None)
   \<and> (\<forall>m ds. md_FReturnsNullOnNullInput (pmda m) \<longrightarrow> (\<exists>d \<in> set ds. d_null d) \<longrightarrow> d_null (i_fun I m ds))
   \<and> (\<forall>m d. d_null d \<longrightarrow> d_null (i_cast I m d))
   \<and> (\<forall>d. d_null d \<longrightarrow> i_elems I d = None)"

text \<open>
  The operators whose meaning is not strict although their comparison operator is: \<open>IS DISTINCT
  FROM\<close> and \<open>NULLIF\<close>, and a quantified comparison with an empty array.
\<close>

fun op_safe :: "md_accessor \<Rightarrow> scalarop \<Rightarrow> cexpression list \<Rightarrow> bool" where
  "op_safe pmda (CScalarIsDistinctFrom m) es = (\<not> md_FReturnsNullOnNullInput (pmda m))"
| "op_safe pmda (CScalarNullIf m) es = (\<not> md_FReturnsNullOnNullInput (pmda m))"
| "op_safe pmda (CScalarArrayCmp t m) es =
     (length es = 2 \<and> (\<not> md_FReturnsNullOnNullInput (pmda m)
      \<or> (case m_pop (es ! 1) of CScalarArray ds \<Rightarrow> ds \<noteq> [] \<or> m_pdrgpexpr (es ! 1) \<noteq> [] | _ \<Rightarrow> False)))"
| "op_safe pmda (CScalarCmp m) es = (length es = 2)"
| "op_safe pmda (CScalarBoolOp EboolopNot) es = (length es = 1)"
| "op_safe pmda (CScalarCast m) es = (length es = 1)"
| "op_safe pmda pop es = True"

fun eber_safe :: "md_accessor \<Rightarrow> cexpression \<Rightarrow> bool" where
  "eber_safe pmda (CExpression pop es) \<longleftrightarrow> op_safe pmda pop es \<and> (\<forall>e \<in> set es. eber_safe pmda e)"

definition eber_sound :: "EBoolEvalResult \<Rightarrow> sval \<Rightarrow> bool" where
  "eber_sound r v \<longleftrightarrow>
     (case r of EberTrue \<Rightarrow> truth_of (dat v) = Some True
      | EberFalse \<Rightarrow> truth_of (dat v) = Some False
      | EberNull \<Rightarrow> (\<exists>d. v = Sd d \<and> d_null d)
      | EberUnknown \<Rightarrow> True)"

lemma eber_sound_simps [simp]:
  "eber_sound EberTrue v \<longleftrightarrow> truth_of (dat v) = Some True"
  "eber_sound EberFalse v \<longleftrightarrow> truth_of (dat v) = Some False"
  "eber_sound EberNull v \<longleftrightarrow> (\<exists>d. v = Sd d \<and> d_null d)"
  "eber_sound EberUnknown v"
  by (simp_all add: eber_sound_def)

lemma eber_sound_null: "eber_sound EberNull v \<Longrightarrow> truth_of (dat v) = None"
  by (auto simp: truth_of_def)

definition eber_bool :: "EBoolEvalResult \<Rightarrow> bool option \<Rightarrow> bool" where
  "eber_bool r b \<longleftrightarrow> (r = EberTrue \<longrightarrow> b = Some True) \<and> (r = EberFalse \<longrightarrow> b = Some False) \<and> (r = EberNull \<longrightarrow> b = None)"

lemma eber_sound_bool: "eber_sound r v \<Longrightarrow> eber_bool r (truth_of (dat v))"
  by (cases r) (auto simp: eber_bool_def truth_of_def)

lemma eber_bool_sound: "eber_bool r b \<Longrightarrow> eber_sound r (Sd (bool_datum b))"
  by (cases r) (auto simp: eber_bool_def)

lemma conj_loop_eq:
  "conj_loop ebers t n u =
     (if EberFalse \<in> set ebers then EberFalse
      else if t \<and> set ebers \<subseteq> {EberTrue} then EberTrue
      else if u \<or> EberUnknown \<in> set ebers then EberUnknown
      else if n \<or> EberNull \<in> set ebers then EberNull else EberUnknown)"
  by (induction ebers arbitrary: t n u) (auto split: if_splits)

lemma disj_loop_eq:
  "disj_loop ebers t n u =
     (if EberTrue \<in> set ebers then EberTrue
      else if t \<and> set ebers \<subseteq> {EberFalse} then EberFalse
      else if u \<or> EberUnknown \<in> set ebers then EberUnknown
      else if n \<or> EberNull \<in> set ebers then EberNull else EberUnknown)"
  by (induction ebers arbitrary: t n u) (auto split: if_splits)

lemma EberConjunction_sound:
  assumes "list_all2 eber_bool rs bs"
  shows "eber_bool (EberConjunction rs) (and3 bs)"
proof -
  have f: "EberFalse \<in> set rs \<Longrightarrow> Some False \<in> set bs"
    and n: "EberNull \<in> set rs \<Longrightarrow> None \<in> set bs"
    and t: "set rs \<subseteq> {EberTrue} \<Longrightarrow> set bs \<subseteq> {Some True}"
    and tn: "set rs \<subseteq> {EberTrue, EberNull} \<Longrightarrow> set bs \<subseteq> {Some True, None}"
    using assms by (induction rule: list_all2_induct) (auto simp: eber_bool_def)
  have tn': "set rs \<subseteq> {EberTrue, EberNull}" if "EberFalse \<notin> set rs" "EberUnknown \<notin> set rs"
  proof
    fix r assume "r \<in> set rs"
    then have "r \<noteq> EberFalse" "r \<noteq> EberUnknown" using that by auto
    then show "r \<in> {EberTrue, EberNull}" by (cases r) auto
  qed
  show ?thesis
  proof (cases "EberFalse \<in> set rs")
    case True
    then show ?thesis using f [OF True] by (simp add: EberConjunction_def conj_loop_eq eber_bool_def and3_def)
  next
    case F: False
    show ?thesis
    proof (cases "set rs \<subseteq> {EberTrue}")
      case True
      have "and3 bs = Some True" using t [OF True] by (auto simp: and3_def)
      then show ?thesis using F True by (simp add: EberConjunction_def conj_loop_eq eber_bool_def)
    next
      case T: False
      show ?thesis
      proof (cases "EberUnknown \<in> set rs")
        case True
        then show ?thesis using F T by (simp add: EberConjunction_def conj_loop_eq eber_bool_def)
      next
        case False
        then have s: "set rs \<subseteq> {EberTrue, EberNull}" using tn' F by blast
        then have "EberNull \<in> set rs" using T by blast
        then have "and3 bs = None" using n tn [OF s] by (auto simp: and3_def)
        then show ?thesis using F T False \<open>EberNull \<in> set rs\<close>
          by (simp add: EberConjunction_def conj_loop_eq eber_bool_def)
      qed
    qed
  qed
qed

lemma EberDisjunction_sound:
  assumes "list_all2 eber_bool rs bs"
  shows "eber_bool (EberDisjunction rs) (or3 bs)"
proof -
  have f: "EberTrue \<in> set rs \<Longrightarrow> Some True \<in> set bs"
    and n: "EberNull \<in> set rs \<Longrightarrow> None \<in> set bs"
    and t: "set rs \<subseteq> {EberFalse} \<Longrightarrow> set bs \<subseteq> {Some False}"
    and tn: "set rs \<subseteq> {EberFalse, EberNull} \<Longrightarrow> set bs \<subseteq> {Some False, None}"
    using assms by (induction rule: list_all2_induct) (auto simp: eber_bool_def)
  have tn': "set rs \<subseteq> {EberFalse, EberNull}" if "EberTrue \<notin> set rs" "EberUnknown \<notin> set rs"
  proof
    fix r assume "r \<in> set rs"
    then have "r \<noteq> EberTrue" "r \<noteq> EberUnknown" using that by auto
    then show "r \<in> {EberFalse, EberNull}" by (cases r) auto
  qed
  show ?thesis
  proof (cases "EberTrue \<in> set rs")
    case True
    then show ?thesis using f [OF True] by (simp add: EberDisjunction_def disj_loop_eq eber_bool_def or3_def)
  next
    case F: False
    show ?thesis
    proof (cases "set rs \<subseteq> {EberFalse}")
      case True
      have "or3 bs = Some False" using t [OF True] by (auto simp: or3_def)
      then show ?thesis using F True by (simp add: EberDisjunction_def disj_loop_eq eber_bool_def)
    next
      case T: False
      show ?thesis
      proof (cases "EberUnknown \<in> set rs")
        case True
        then show ?thesis using F T by (simp add: EberDisjunction_def disj_loop_eq eber_bool_def)
      next
        case False
        then have s: "set rs \<subseteq> {EberFalse, EberNull}" using tn' F by blast
        then have "EberNull \<in> set rs" using T by blast
        then have "or3 bs = None" using n tn [OF s] by (auto simp: or3_def)
        then show ?thesis using F T False \<open>EberNull \<in> set rs\<close>
          by (simp add: EberDisjunction_def disj_loop_eq eber_bool_def)
      qed
    qed
  qed
qed

lemma bool_eval_lookup_sound: "eber_bool r b \<Longrightarrow> eber_bool (bool_eval_lookup t r) (Some (bool_test t b))"
  by (cases t; cases r) (auto simp: eber_bool_def bool_eval_lookup_def m_rgBoolEvalMap_def)

lemma eber_null_test_sound: "eber_sound r v \<Longrightarrow> eber_bool (eber_null_test r) (Some (d_null (dat v)))"
  by (cases r) (auto simp: eber_bool_def truth_of_def split: if_splits)

lemma eber_not_sound: "eber_bool r b \<Longrightarrow> eber_bool (eber_not r) (not3 b)"
  by (cases r) (auto simp: eber_bool_def not3_def)

lemma null_on_any: "EberNullOnAnyNullChild rs = (if EberNull \<in> set rs then EberNull else EberUnknown)"
  by (induction rs) auto

lemma null_on_all: "EberNullOnAllNullChildren rs = (if set rs \<subseteq> {EberNull} then EberNull else EberUnknown)"
  by (induction rs) auto

lemma first_nonnull_null: "\<forall>d \<in> set ds. d_null d \<Longrightarrow> d_null (first_nonnull ds)"
  by (induction ds rule: first_nonnull.induct) (auto simp: null_datum_def)

lemma eber_all2:
  "list_all2 eber_sound rs vs \<Longrightarrow> list_all2 eber_bool rs (map (truth_of \<circ> dat) vs)"
  by (induction rule: list_all2_induct) (auto intro: eber_sound_bool)

lemma eber_null_member:
  "list_all2 eber_sound rs vs \<Longrightarrow> EberNull \<in> set rs \<Longrightarrow> \<exists>i < length vs. \<exists>d. vs ! i = Sd d \<and> d_null d"
  by (auto simp: list_all2_conv_all_nth in_set_conv_nth) (metis eber_sound_simps(3))

lemma eber_null_all:
  "list_all2 eber_sound rs vs \<Longrightarrow> set rs \<subseteq> {EberNull} \<Longrightarrow> \<forall>v \<in> set vs. \<exists>d. v = Sd d \<and> d_null d"
  by (induction rule: list_all2_induct) auto

lemma arg_null: "\<forall>v \<in> set vs. \<exists>d. v = Sd d \<and> d_null d \<Longrightarrow> d_null (dat (arg vs i))"
  by (auto simp: arg_def null_datum_def dest!: nth_mem)

lemma null_datum_is_null [simp]: "d_null null_datum"
  by (simp add: null_datum_def)

text \<open>One operator: from sound results of the children to a sound result.\<close>

lemma Eber_op_sound:
  assumes "strict_interp pmda I" "op_safe pmda pop es" "list_all2 eber_sound rs vs" "length vs = length es"
    and arr: "\<And>t m ds. pop = CScalarArrayCmp t m \<Longrightarrow> m_pop (es ! 1) = CScalarArray ds \<Longrightarrow>
      ds \<noteq> [] \<or> m_pdrgpexpr (es ! 1) \<noteq> [] \<Longrightarrow> \<exists>ys. vs ! 1 = Sa ys \<and> ys \<noteq> []"
  shows "eber_sound (Eber pmda pop rs) (eval_op I env pop vs)"
proof -
  note null_mem = eber_null_member [OF assms(3)]
  note null_all = eber_null_all [OF assms(3)]
  have len: "length rs = length vs" using assms(3) by (rule list_all2_lengthD)
  have two: "d_null (dat (arg vs 0)) \<or> d_null (dat (arg vs 1))" if "EberNull \<in> set rs" "length es = 2"
    using null_mem [OF that(1)] that(2) assms(4) by (auto simp: arg_def less_2_cases_iff)
  have anyd: "\<exists>d \<in> set (map dat vs). d_null d" if "EberNull \<in> set rs"
    using null_mem [OF that] by (auto simp: in_set_conv_nth) (metis dat.simps(1) nth_mem)
  note I = assms(1) [unfolded strict_interp_def]
  show ?thesis
  proof (cases pop)
    case (CScalarCmp m)
    then show ?thesis using two assms(2) I by (auto simp: null_on_any)
  next
    case (CScalarArrayCmp t m)
    show ?thesis
    proof (cases "md_FReturnsNullOnNullInput (pmda m) \<and> EberNull \<in> set rs")
      case True
      obtain ds where d: "m_pop (es ! 1) = CScalarArray ds" "ds \<noteq> [] \<or> m_pdrgpexpr (es ! 1) \<noteq> []" "length es = 2"
        using assms(2) CScalarArrayCmp True by (auto split: scalarop.splits)
      obtain ys where ys: "vs ! 1 = Sa ys" "ys \<noteq> []" using arr [OF CScalarArrayCmp d(1,2)] by blast
      then have "d_null (dat (vs ! 0))"
        using null_mem True d(3) assms(4) by (auto simp: less_2_cases_iff)
      then have "set (map (i_op I m (dat (vs ! 0))) ys) = {None}"
        using I True ys(2) by (cases ys) auto
      then have "quantified t (map (i_op I m (dat (vs ! 0))) ys) = None"
        by (cases t) (simp_all add: quantified_def and3_def or3_def)
      then show ?thesis using CScalarArrayCmp ys d(3) assms(4)
        by (simp add: null_on_any arg_def)
    next
      case False
      then show ?thesis using CScalarArrayCmp by (auto simp: null_on_any)
    qed
  next
    case CScalarNullTest
    then show ?thesis using assms(3) len
      by (cases rs; cases vs) (auto simp: arg_def intro!: eber_bool_sound eber_null_test_sound)
  next
    case (CScalarBooleanTest t)
    then show ?thesis using assms(3) len
      by (cases rs; cases vs) (auto simp: arg_def intro!: eber_bool_sound bool_eval_lookup_sound eber_sound_bool)
  next
    case (CScalarBoolOp b)
    note l2 = eber_all2 [OF assms(3)]
    show ?thesis
    proof (cases b)
      case EboolopNot
      then show ?thesis using CScalarBoolOp assms(2,4) l2
        by (cases rs; cases vs) (auto intro!: eber_bool_sound eber_not_sound)
    qed (use CScalarBoolOp EberConjunction_sound [OF l2] EberDisjunction_sound [OF l2] in
        \<open>auto intro: eber_bool_sound\<close>)
  next
    case CScalarCoalesce
    have "d_null (first_nonnull (map dat vs))" if "set rs \<subseteq> {EberNull}"
      using null_all [OF that] by (intro first_nonnull_null) auto
    then show ?thesis using CScalarCoalesce by (simp add: null_on_all)
  next
    case CScalarIf
    then show ?thesis using null_all arg_null [of vs] by (auto simp: null_on_all)
  next
    case (CScalarCast m)
    then show ?thesis using null_all arg_null [of vs 0] I by (auto simp: null_on_all)
  next
    case (CScalarOp m)
    then show ?thesis using anyd I by (auto simp: null_on_any)
  next
    case (CScalarFunc m)
    then show ?thesis using anyd I by (auto simp: null_on_any)
  qed (use assms(2) in \<open>auto simp: truth_of_def\<close>)
qed

text \<open>The evaluation of an expression whose null columns were replaced is sound for the expression.\<close>

lemma ev_array: "m_pop e = CScalarArray ds \<Longrightarrow> ds \<noteq> [] \<or> m_pdrgpexpr e \<noteq> [] \<Longrightarrow> \<exists>ys. ev I env e = Sa ys \<and> ys \<noteq> []"
  by (cases e) auto

lemma EberEvaluate_replace_sound:
  assumes "strict_interp pmda I" "\<forall>c \<in> pcrs. d_null (env c)"
  shows "eber_safe pmda e \<Longrightarrow> eber_sound (EberEvaluate pmda (PexprReplaceColsWithNulls pcrs e)) (ev I env e)"
proof (induction e)
  case (CExpression pop es)
  let ?rs = "map (\<lambda>e. EberEvaluate pmda (PexprReplaceColsWithNulls pcrs e)) es"
  show ?case
  proof (cases "FSubquery pop \<or> (\<exists>c \<in> pcrs. pop = CScalarIdent c)")
    case True
    then show ?thesis using assms(2) by (auto simp: FSubquery_def split: scalarop.splits)
  next
    case False
    have ops: "op_safe pmda pop es" using CExpression.prems by simp
    have "list_all2 eber_sound ?rs (map (ev I env) es)"
      using CExpression by (auto simp: list_all2_conv_all_nth)
    moreover have "\<exists>ys. map (ev I env) es ! 1 = Sa ys \<and> ys \<noteq> []"
      if "pop = CScalarArrayCmp t m" "m_pop (es ! 1) = CScalarArray ds" "ds \<noteq> [] \<or> m_pdrgpexpr (es ! 1) \<noteq> []" for t m ds
      using ops that ev_array [OF that(2,3)] by auto
    ultimately have "eber_sound (Eber pmda pop ?rs) (eval_op I env pop (map (ev I env) es))"
      using ops by (intro Eber_op_sound [OF assms(1)]) auto
    then show ?thesis using False by (auto simp: FSubquery_def comp_def split: scalarop.splits)
  qed
qed

lemma replace_nothing: "PexprReplaceColsWithNulls {} e = e"
  by (induction e) (auto simp: map_idI split: scalarop.split)

lemma EberEvaluate_sound:
  "strict_interp pmda I \<Longrightarrow> eber_safe pmda e \<Longrightarrow> eber_sound (EberEvaluate pmda e) (ev I env e)"
  using EberEvaluate_replace_sound [of pmda I "{}" env e] by (simp add: replace_nothing)

lemma FNullRejecting_not_true:
  assumes "strict_interp pmda I" "\<forall>c \<in> pcrs. d_null (env c)" "eber_safe pmda e"
    "FNullRejecting pmda v q n e pcrs"
  shows "truth I env e \<noteq> Some True"
  using EberEvaluate_replace_sound [OF assms(1,2,3)] assms(4)
  by (auto simp: FNullRejecting_def truth_def Let_def truth_of_def split: if_splits)

section \<open>A sample database\<close>

text \<open>
  A small metadata cache and database, on which the theorems are applied: six comparison
  operators on integers and booleans, each with its inverse beside it; functions return null.
\<close>

definition sample_md :: md_accessor where
  "sample_md m = \<lparr>md_Ecmpt = [EcmptEq, EcmptNEq, EcmptL, EcmptGEq, EcmptG, EcmptLEq] ! (m mod 6),
     md_FReturnsNullOnNullInput = True, md_FCommutative = (m mod 6 < 2),
     md_PmdidOpInverse = (if even m then m + 1 else m - 1)\<rparr>"

definition sample_key :: "idatum \<Rightarrow> int" where
  "sample_key d = (if d_type d = EtiBool then (if d_lval d \<noteq> 0 then 1 else 0) else d_lval d)"

fun sample_cmp :: "ecmptype \<Rightarrow> int \<Rightarrow> int \<Rightarrow> bool" where
  "sample_cmp EcmptEq x y = (x = y)"
| "sample_cmp EcmptNEq x y = (x \<noteq> y)"
| "sample_cmp EcmptL x y = (x < y)"
| "sample_cmp EcmptLEq x y = (x \<le> y)"
| "sample_cmp EcmptG x y = (y < x)"
| "sample_cmp EcmptGEq x y = (y \<le> x)"
| "sample_cmp EcmptIDF x y = (x \<noteq> y)"
| "sample_cmp EcmptOther x y = False"

definition sample_db :: interp where
  "sample_db = \<lparr>i_op = (\<lambda>m x y. if d_null x \<or> d_null y then None
        else Some (sample_cmp (md_Ecmpt (sample_md m)) (sample_key x) (sample_key y))),
     i_fun = (\<lambda>m ds. null_datum), i_cast = (\<lambda>m d. d), i_elems = (\<lambda>d. None), i_sub = (\<lambda>k env. null_datum)\<rparr>"

definition int4 :: "int \<Rightarrow> idatum" where
  "int4 n = \<lparr>d_type = EtiInt4, d_null = False, d_lval = n\<rparr>"

definition int4_null :: idatum where
  "int4_null = \<lparr>d_type = EtiInt4, d_null = True, d_lval = 0\<rparr>"

definition sample_col :: colref where
  "sample_col = \<lparr>m_ulId = 1, m_eti = EtiInt4, m_fTable = True, m_fNullable = True\<rparr>"

definition col_expr :: cexpression where
  "col_expr = CExpression (CScalarIdent sample_col) []"

definition const_expr :: "int \<Rightarrow> cexpression" where
  "const_expr n = CExpression (CScalarConst (int4 n)) []"

lemmas sample_exprs = int4_def int4_null_def sample_col_def col_expr_def const_expr_def

lemmas sample_defs = sample_md_def sample_db_def sample_key_def sample_exprs

lemma sample_strict: "strict_interp sample_md sample_db"
  by (simp add: strict_interp_def sample_db_def null_datum_def)

section \<open>Properties\<close>

text \<open>C22 Boolean evaluation is sound: when \<open>CScalar::EberEvaluate\<close> answers true, false or null, the
  expression has that value for every assignment of the columns.  This needs that operators, functions
  and casts declared strict are null on null, and that the expression is \<open>eber_safe\<close>: no \<open>IS DISTINCT
  FROM\<close> or \<open>NULLIF\<close> over an operator declared strict, array comparisons by such an operator only with
  a literal array that is not empty, and comparisons, array comparisons, casts and negations of the
  arity that the code asserts.\<close>

theorem EberEvaluate_agrees:
  assumes "strict_interp pmda I" "eber_safe pmda e"
  shows "case EberEvaluate pmda e of
      EberTrue \<Rightarrow> truth I env e = Some True
    | EberFalse \<Rightarrow> truth I env e = Some False
    | EberNull \<Rightarrow> truth I env e = None
    | EberUnknown \<Rightarrow> True"
  using EberEvaluate_sound [OF assms, of env]
  by (cases "EberEvaluate pmda e") (auto simp: truth_def eber_sound_null)

theorem EberEvaluate_agrees_witness:
  "truth sample_db (\<lambda>_. int4_null)
     (CExpression (CScalarBoolOp EboolopAnd)
        [CExpression (CScalarCmp 0) [col_expr, CExpression (CScalarConst int4_null) []],
         CExpression (CScalarConst (bool_datum (Some False))) []]) = Some False"
  using EberEvaluate_agrees [OF sample_strict, of "CExpression (CScalarBoolOp EboolopAnd)
        [CExpression (CScalarCmp 0) [col_expr, CExpression (CScalarConst int4_null) []],
         CExpression (CScalarConst (bool_datum (Some False))) []]" "\<lambda>_. int4_null"]
  by (simp add: sample_exprs sample_md_def bool_datum_def EberConjunction_def FSubquery_def)

text \<open>C21 Null rejection: when \<open>CPredicateUtils::FNullRejecting\<close> accepts a predicate for a set of columns,
  the predicate is not true on any row in which these columns are null, so that an outer join
  below it may become an inner join.  The conditions on operators and expression are those of the
  boolean evaluation.\<close>

theorem FNullRejecting_rejects:
  assumes "strict_interp pmda I" "eber_safe pmda e"
    and "FNullRejecting pmda v q n e pcrs" "\<forall>c \<in> pcrs. d_null (env c)"
  shows "truth I env e \<noteq> Some True"
  by (rule FNullRejecting_not_true [OF assms(1,4,2,3)])

theorem FNullRejecting_rejects_witness:
  "truth sample_db (\<lambda>_. int4_null) (CExpression (CScalarCmp 2) [col_expr, const_expr 5]) \<noteq> Some True"
  using FNullRejecting_rejects [OF sample_strict, of "CExpression (CScalarCmp 2) [col_expr, const_expr 5]"
      False False False "{sample_col}" "\<lambda>_. int4_null"]
  by (simp add: sample_defs FNullRejecting_def FSubquery_def null_datum_def)

text \<open>C39 The restriction is needed: the code takes \<open>IS DISTINCT FROM\<close> and \<open>NULLIF\<close> to be strict because
  their comparison operator is, and accepts \<open>c IS DISTINCT FROM 5\<close> and \<open>NULLIF(true, c)\<close> as
  null rejecting, although both are true when \<open>c\<close> is null.\<close>

theorem FNullRejecting_accepts_true_on_null:
  "\<exists>e1 e2. e1 = CExpression (CScalarIsDistinctFrom 0) [col_expr, const_expr 5]
     \<and> e2 = CExpression (CScalarNullIf 0) [CExpression (CScalarConst (bool_datum (Some True))) [], col_expr]
     \<and> FNullRejecting sample_md False False False e1 {sample_col}
     \<and> truth sample_db (\<lambda>_. int4_null) e1 = Some True
     \<and> FNullRejecting sample_md False False False e2 {sample_col}
     \<and> truth sample_db (\<lambda>_. int4_null) e2 = Some True"
  by (simp add: sample_defs FNullRejecting_def FSubquery_def null_datum_def truth_def arg_def distinct3_def
      bool_datum_def truth_of_def canon_def)

end
