(* ===== verification/ColumnFactory.thy ===== *)
theory ColumnFactory
  imports SyncHashtable BitVector ScalarExpr
begin

text \<open>
  The column factory (\<^verbatim>\<open>libgpopt/src/base/CColumnFactory.cpp\<close>): it numbers column
  references by an atomic counter and keeps them in a synchronised hash table by their ids.
  The proofs use the table through its contract \<open>keyed_table\<close> only.
\<close>

section \<open>The factory\<close>

text \<open>\<open>CAtomicULONG\<close> counts in a machine word of 64 bits and returns its low 32 bits.\<close>

record column_factory =
  m_ulp :: nat
  m_sht :: "(colref, nat) ht_state"

definition TIncr :: "nat \<Rightarrow> nat \<times> nat" where
  "TIncr ulp = (ulp mod ULONG_MOD, (ulp + 1) mod 2 ^ 64)"

definition m_ulInvalid :: nat where
  "m_ulInvalid = ULONG_MAX"

definition CColRef_UlHash :: "nat \<Rightarrow> nat" where
  "CColRef_UlHash ulId = unat (UlHashByteArray (bytes_of_ulong (of_nat ulId)))"

definition CColRef_FEqual :: "nat \<Rightarrow> nat \<Rightarrow> bool" where
  "CColRef_FEqual ulKey ulKeyOther = (ulKey = ulKeyOther)"

definition CColumnFactory_new :: column_factory where
  "CColumnFactory_new =
     \<lparr>m_ulp = 0,
      m_sht = ((\<lambda>_. SLink_new), sht_Init 10000 m_ulId m_ulInvalid CColRef_UlHash CColRef_FEqual)\<rparr>"

definition PcrLookup :: "column_factory \<Rightarrow> nat \<Rightarrow> colref option option" where
  "PcrLookup pcf ulId = key_PtLookup ulId (m_sht pcf)"

text \<open>The basic factory methods: a computed column and a table column of the given id.\<close>

definition PcrCreate_id :: "column_factory \<Rightarrow> etypeinfo \<Rightarrow> nat \<Rightarrow> colref \<times> column_factory" where
  "PcrCreate_id pcf eti ulId =
     (let pcr = \<lparr>m_ulId = ulId, m_eti = eti, m_fTable = False, m_fNullable = False\<rparr>
      in (pcr, pcf\<lparr>m_sht := sht_Insert pcr (m_sht pcf)\<rparr>))"

definition PcrCreateTable_id :: "column_factory \<Rightarrow> etypeinfo \<Rightarrow> bool \<Rightarrow> nat \<Rightarrow> colref \<times> column_factory" where
  "PcrCreateTable_id pcf eti fNullable ulId =
     (let pcr = \<lparr>m_ulId = ulId, m_eti = eti, m_fTable = True, m_fNullable = fNullable\<rparr>
      in (pcr, pcf\<lparr>m_sht := sht_Insert pcr (m_sht pcf)\<rparr>))"

definition PcrCreate :: "column_factory \<Rightarrow> etypeinfo \<Rightarrow> colref \<times> column_factory" where
  "PcrCreate pcf eti =
     (let (ulId, ulp) = TIncr (m_ulp pcf) in PcrCreate_id (pcf\<lparr>m_ulp := ulp\<rparr>) eti ulId)"

definition PcrCreateTable :: "column_factory \<Rightarrow> etypeinfo \<Rightarrow> bool \<Rightarrow> colref \<times> column_factory" where
  "PcrCreateTable pcf eti fNullable =
     (let (ulId, ulp) = TIncr (m_ulp pcf) in PcrCreateTable_id (pcf\<lparr>m_ulp := ulp\<rparr>) eti fNullable ulId)"

definition PcrCopy :: "column_factory \<Rightarrow> colref \<Rightarrow> colref \<times> column_factory" where
  "PcrCopy pcf pcr =
     (if \<not> m_fTable pcr then PcrCreate pcf (m_eti pcr)
      else (let (ulId, ulp) = TIncr (m_ulp pcf)
            in PcrCreateTable_id (pcf\<lparr>m_ulp := ulp\<rparr>) (m_eti pcr) (m_fNullable pcr) ulId))"

text \<open>\<open>Destroy\<close> removes what the table holds under the column's id; \<open>None\<close>: there is nothing, and
  \<open>Remove\<close> is called with a null pointer.\<close>

definition Destroy :: "column_factory \<Rightarrow> colref \<Rightarrow> column_factory option" where
  "Destroy pcf pcr =
     (case PcrLookup pcf (m_ulId pcr) of
        Some (Some pcrFound) \<Rightarrow> Some (pcf\<lparr>m_sht := key_Remove (m_ulId pcr) pcrFound (m_sht pcf)\<rparr>)
      | _ \<Rightarrow> None)"

section \<open>The invariant\<close>

definition cf_cols :: "column_factory \<Rightarrow> colref set" where
  "cf_cols pcf = ht_elems (m_sht pcf)"

text \<open>Ids are unique and were given out by the counter.\<close>

definition cf_ok :: "column_factory \<Rightarrow> bool" where
  "cf_ok pcf \<longleftrightarrow>
     ht_ok m_ulId m_ulInvalid CColRef_UlHash (m_sht pcf) \<and> inj_on m_ulId (cf_cols pcf)
   \<and> (\<forall>pcr \<in> cf_cols pcf. m_ulId pcr < m_ulp pcf) \<and> m_ulp pcf \<le> ULONG_MAX"

lemma cf_unique: "cf_ok pcf \<Longrightarrow> sht.unique_keys m_ulId (m_sht pcf)"
  by (simp add: cf_ok_def sht.unique_keys_def cf_cols_def)

lemma CColumnFactory_new_ok: "cf_ok CColumnFactory_new" "cf_cols CColumnFactory_new = {}"
proof -
  let ?s = "((\<lambda>_. SLink_new), sht_Init 10000 m_ulId m_ulInvalid CColRef_UlHash CColRef_FEqual) :: (colref, nat) ht_state"
  have r: "ht_repr ?s (replicate 10000 [])" by (rule ht_repr_Init) simp
  have e: "ht_elems ?s = {}" using ht_elems_repr [OF r] by (simp add: set_replicate_conv_if)
  have q: "CColRef_FEqual = (=)" by (intro ext) (simp add: CColRef_FEqual_def)
  have "ht_ok m_ulId m_ulInvalid CColRef_UlHash ?s"
    using r by (auto simp: ht_ok_def ht_placed_def sht_Init_def q nth_replicate intro!: exI [of _ "replicate 10000 []"])
  then show "cf_ok CColumnFactory_new" "cf_cols CColumnFactory_new = {}"
    using e by (simp_all add: cf_ok_def cf_cols_def CColumnFactory_new_def)
qed

text \<open>Lookups are exact.\<close>

lemma PcrLookup_iff:
  assumes "cf_ok pcf" "ulId \<noteq> m_ulInvalid"
  shows "PcrLookup pcf ulId = Some (Some pcr) \<longleftrightarrow> pcr \<in> cf_cols pcf \<and> m_ulId pcr = ulId"
  using sht.lookup_iff [of m_ulId m_ulInvalid CColRef_UlHash "m_sht pcf"] cf_unique [OF assms(1)] assms
  by (simp add: cf_ok_def cf_cols_def PcrLookup_def)

lemma PcrLookup_None:
  assumes "cf_ok pcf" "ulId \<noteq> m_ulInvalid"
  shows "PcrLookup pcf ulId = Some None \<longleftrightarrow> ulId \<notin> m_ulId ` cf_cols pcf"
  using sht.lookup_None_iff [of m_ulId m_ulInvalid CColRef_UlHash "m_sht pcf"] assms
  by (auto simp: cf_ok_def cf_cols_def PcrLookup_def)

text \<open>Inserting the column that the counter names.\<close>

lemma cf_insert:
  assumes "cf_ok pcf" "m_ulp pcf < ULONG_MAX" "m_ulId pcr = m_ulp pcf"
  defines "pcf' \<equiv> pcf\<lparr>m_ulp := m_ulp pcf + 1, m_sht := sht_Insert pcr (m_sht pcf)\<rparr>"
  shows "cf_ok pcf'" "cf_cols pcf' = insert pcr (cf_cols pcf)" "pcr \<notin> cf_cols pcf"
proof -
  have ok: "ht_ok m_ulId m_ulInvalid CColRef_UlHash (m_sht pcf)" and u: "sht.unique_keys m_ulId (m_sht pcf)"
    using assms(1) cf_unique by (simp_all add: cf_ok_def)
  have fresh: "\<forall>y \<in> ht_elems (m_sht pcf). m_ulId y \<noteq> m_ulId pcr"
    using assms(1,3) by (auto simp: cf_ok_def cf_cols_def)
  have v: "m_ulId pcr \<noteq> m_ulInvalid" using assms(2,3) by (simp add: m_ulInvalid_def)
  note a = sht.add_fresh [OF ok u v fresh]
  show cols: "cf_cols pcf' = insert pcr (cf_cols pcf)" using a by (simp add: cf_cols_def pcf'_def)
  show "pcr \<notin> cf_cols pcf" using fresh by (auto simp: cf_cols_def)
  show "cf_ok pcf'"
    using a assms(1-3) cols
    by (auto simp: cf_ok_def sht.unique_keys_def cf_cols_def pcf'_def less_Suc_eq)
qed

lemma TIncr_exact: "ulp < ULONG_MAX \<Longrightarrow> TIncr ulp = (ulp, ulp + 1)"
  by (simp add: TIncr_def ULONG_MAX_def)

lemma cf_creates:
  assumes "cf_ok pcf" "m_ulp pcf < ULONG_MAX"
  shows "case PcrCreate pcf eti of (pcr, pcf') \<Rightarrow>
      cf_ok pcf' \<and> cf_cols pcf' = insert pcr (cf_cols pcf) \<and> pcr \<notin> cf_cols pcf \<and> m_ulp pcf' = m_ulp pcf + 1"
    and "case PcrCreateTable pcf eti fNullable of (pcr, pcf') \<Rightarrow>
      cf_ok pcf' \<and> cf_cols pcf' = insert pcr (cf_cols pcf) \<and> pcr \<notin> cf_cols pcf \<and> m_ulp pcf' = m_ulp pcf + 1"
    and "case PcrCopy pcf c of (pcr, pcf') \<Rightarrow>
      cf_ok pcf' \<and> cf_cols pcf' = insert pcr (cf_cols pcf) \<and> pcr \<notin> cf_cols pcf \<and> m_ulp pcf' = m_ulp pcf + 1
      \<and> m_eti pcr = m_eti c \<and> m_fTable pcr = m_fTable c \<and> (m_fTable c \<longrightarrow> m_fNullable pcr = m_fNullable c)"
  using cf_insert [OF assms] assms(2)
  by (simp_all add: PcrCreate_def PcrCreate_id_def PcrCreateTable_def PcrCreateTable_id_def PcrCopy_def
      TIncr_exact Let_def)

lemma cf_Destroy:
  assumes "cf_ok pcf" "pcr \<in> cf_cols pcf"
  shows "\<exists>pcf'. Destroy pcf pcr = Some pcf' \<and> cf_ok pcf' \<and> cf_cols pcf' = cf_cols pcf - {pcr}"
proof -
  have ok: "ht_ok m_ulId m_ulInvalid CColRef_UlHash (m_sht pcf)" using assms(1) by (simp add: cf_ok_def)
  have el: "pcr \<in> ht_elems (m_sht pcf)" using assms(2) by (simp add: cf_cols_def)
  have "m_ulId pcr \<noteq> m_ulInvalid" by (rule sht.valid_elems [OF ok el])
  then have "PcrLookup pcf (m_ulId pcr) = Some (Some pcr)" using PcrLookup_iff [OF assms(1)] assms(2) by simp
  moreover note d = sht.drop [OF ok el]
  moreover have "cf_ok (pcf\<lparr>m_sht := key_Remove (m_ulId pcr) pcr (m_sht pcf)\<rparr>)"
    using d assms(1) by (auto simp: cf_ok_def cf_cols_def inj_on_def)
  ultimately show ?thesis by (simp add: Destroy_def cf_cols_def)
qed

section \<open>Properties\<close>

text \<open>C30 A column created by the factory has an id no other column has; it is found by this id, and the
  other columns stay what they were.  This holds as long as fewer than \<open>2 ^ 32 - 1\<close> columns were
  created: the next one would get the id that stands for no column.\<close>
theorem PcrCreate_unique_id:
  assumes "cf_ok pcf"
  shows "(m_ulp pcf < ULONG_MAX \<longrightarrow>
      (case PcrCreate pcf eti of (pcr, pcf') \<Rightarrow>
         cf_ok pcf' \<and> (\<forall>c \<in> cf_cols pcf. m_ulId c \<noteq> m_ulId pcr)
       \<and> PcrLookup pcf' (m_ulId pcr) = Some (Some pcr)
       \<and> (\<forall>ulId. ulId \<noteq> m_ulInvalid \<and> ulId \<noteq> m_ulId pcr \<longrightarrow> PcrLookup pcf' ulId = PcrLookup pcf ulId)))
    \<and> (m_ulp pcf = ULONG_MAX \<longrightarrow> m_ulId (fst (PcrCreate pcf eti)) = m_ulInvalid)"
proof (intro conjI impI)
  assume "m_ulp pcf = ULONG_MAX"
  then show "m_ulId (fst (PcrCreate pcf eti)) = m_ulInvalid"
    by (simp add: PcrCreate_def PcrCreate_id_def TIncr_def ULONG_MAX_def m_ulInvalid_def Let_def)
next
  assume lt: "m_ulp pcf < ULONG_MAX"
  obtain pcr pcf' where c: "PcrCreate pcf eti = (pcr, pcf')" by force
  have r: "cf_ok pcf'" "cf_cols pcf' = insert pcr (cf_cols pcf)" "pcr \<notin> cf_cols pcf"
    using cf_creates(1) [OF assms lt, of eti] c by simp_all
  have id: "m_ulId pcr = m_ulp pcf" "m_ulId pcr \<noteq> m_ulInvalid"
    using c lt by (auto simp: PcrCreate_def PcrCreate_id_def TIncr_exact Let_def m_ulInvalid_def)
  have other: "PcrLookup pcf' ulId = PcrLookup pcf ulId" if "ulId \<noteq> m_ulInvalid" "ulId \<noteq> m_ulId pcr" for ulId
  proof (cases "\<exists>d \<in> cf_cols pcf. m_ulId d = ulId")
    case True
    then obtain d where d: "d \<in> cf_cols pcf" "m_ulId d = ulId" by blast
    then have "PcrLookup pcf ulId = Some (Some d)" using PcrLookup_iff [OF assms that(1)] by simp
    moreover have "PcrLookup pcf' ulId = Some (Some d)" using d r(2) PcrLookup_iff [OF r(1) that(1)] by simp
    ultimately show ?thesis by simp
  next
    case False
    then have "ulId \<notin> m_ulId ` cf_cols pcf" "ulId \<notin> m_ulId ` cf_cols pcf'" using r(2) that(2) by auto
    then show ?thesis using PcrLookup_None [OF assms that(1)] PcrLookup_None [OF r(1) that(1)] by simp
  qed
  show "case PcrCreate pcf eti of (pcr, pcf') \<Rightarrow>
      cf_ok pcf' \<and> (\<forall>c \<in> cf_cols pcf. m_ulId c \<noteq> m_ulId pcr)
    \<and> PcrLookup pcf' (m_ulId pcr) = Some (Some pcr)
    \<and> (\<forall>ulId. ulId \<noteq> m_ulInvalid \<and> ulId \<noteq> m_ulId pcr \<longrightarrow> PcrLookup pcf' ulId = PcrLookup pcf ulId)"
    using r id other PcrLookup_iff [OF r(1) id(2)] assms by (auto simp: c cf_ok_def)
qed

lemma first_column:
  "m_ulp CColumnFactory_new = 0"
  "fst (PcrCreate CColumnFactory_new eti) = \<lparr>m_ulId = 0, m_eti = eti, m_fTable = False, m_fNullable = False\<rparr>"
  by (simp_all add: CColumnFactory_new_def PcrCreate_def PcrCreate_id_def TIncr_def Let_def del: replicate.simps)

theorem PcrCreate_unique_id_witness:
  "PcrLookup (snd (PcrCreate CColumnFactory_new EtiInt4)) 0
     = Some (Some \<lparr>m_ulId = 0, m_eti = EtiInt4, m_fTable = False, m_fNullable = False\<rparr>)"
  using PcrCreate_unique_id [OF CColumnFactory_new_ok(1), of EtiInt4]
  by (simp add: first_column case_prod_unfold ULONG_MAX_def)

end
