(* ===== verification/ColRefSet.thy ===== *)
theory ColRefSet
  imports BitSet ColumnFactory
begin

text \<open>
  Sets of columns (\<^verbatim>\<open>libgpopt/src/base/CColRefSet.cpp\<close>): sparse bit sets of
  column ids, whose iterator resolves ids through the column factory.  The locale
  \<open>element_set\<close> is what the client needs of a set of numbers; it is interpreted on the sparse
  bit sets and on the bit vectors.
\<close>

section \<open>The contract of a set of numbers\<close>

locale element_set =
  fixes inv :: "'s \<Rightarrow> bool" and elems :: "'s \<Rightarrow> nat set" and fits :: "'s \<Rightarrow> nat \<Rightarrow> bool"
    and member :: "'s \<Rightarrow> nat \<Rightarrow> bool" and ins :: "'s \<Rightarrow> nat \<Rightarrow> 's" and del :: "'s \<Rightarrow> nat \<Rightarrow> 's"
  assumes member: "inv s \<Longrightarrow> fits s n \<Longrightarrow> member s n \<longleftrightarrow> n \<in> elems s"
    and ins: "inv s \<Longrightarrow> fits s n \<Longrightarrow>
        inv (ins s n) \<and> elems (ins s n) = insert n (elems s) \<and> fits (ins s n) = fits s"
    and del: "inv s \<Longrightarrow> fits s n \<Longrightarrow>
        inv (del s n) \<and> elems (del s n) = elems s - {n} \<and> fits (del s n) = fits s"
    and elems_fit: "inv s \<Longrightarrow> n \<in> elems s \<Longrightarrow> fits s n"
begin

lemma ins_all:
  "inv s \<Longrightarrow> \<forall>n \<in> set ns. fits s n \<Longrightarrow>
     inv (foldl ins s ns) \<and> elems (foldl ins s ns) = elems s \<union> set ns \<and> fits (foldl ins s ns) = fits s"
  by (induction ns arbitrary: s) (use ins in auto)

lemma del_all:
  "inv s \<Longrightarrow> \<forall>n \<in> set ns. fits s n \<Longrightarrow>
     inv (foldl del s ns) \<and> elems (foldl del s ns) = elems s - set ns \<and> fits (foldl del s ns) = fits s"
  by (induction ns arbitrary: s) (use del in auto)

text \<open>Replacing an element, and elements one after the other.\<close>

definition repl :: "'s \<Rightarrow> nat \<times> nat \<Rightarrow> 's" where
  "repl s p = (if member s (fst p) then ins (del s (fst p)) (snd p) else s)"

lemma repl:
  assumes "inv s" "fits s m" "fits s n"
  shows "inv (repl s (m, n)) \<and> fits (repl s (m, n)) = fits s
    \<and> elems (repl s (m, n)) = (if m \<in> elems s then insert n (elems s - {m}) else elems s)"
  using member [OF assms(1,2)] del [OF assms(1,2)] ins [of "del s m" n] assms by (simp add: repl_def)

lemma repl_all:
  "inv s \<Longrightarrow> \<forall>p \<in> set ps. fits s (fst p) \<and> fits s (snd p) \<Longrightarrow> fst ` set ps \<inter> snd ` set ps = {} \<Longrightarrow>
     distinct (map fst ps) \<Longrightarrow>
     inv (foldl repl s ps) \<and> fits (foldl repl s ps) = fits s
   \<and> elems (foldl repl s ps) = elems s - fst ` set ps \<union> {n. \<exists>m. (m, n) \<in> set ps \<and> m \<in> elems s}"
proof (induction ps arbitrary: s)
  case (Cons p ps)
  obtain m n where p: "p = (m, n)" by force
  have r: "inv (repl s p)" "fits (repl s p) = fits s"
    "elems (repl s p) = (if m \<in> elems s then insert n (elems s - {m}) else elems s)"
    using repl [OF Cons.prems(1), of m n] Cons.prems(2) by (simp_all add: p)
  have "n \<notin> fst ` set ps" "m \<notin> fst ` set ps" using Cons.prems(3,4) by (auto simp: p)
  then have *: "\<And>n'. (n, n') \<notin> set ps" "\<And>n'. (m, n') \<notin> set ps" by force+
  have IH: "inv (foldl repl (repl s p) ps)" "fits (foldl repl (repl s p) ps) = fits s"
    "elems (foldl repl (repl s p) ps) = elems (repl s p) - fst ` set ps \<union> {n. \<exists>m. (m, n) \<in> set ps \<and> m \<in> elems (repl s p)}"
    using Cons.IH [OF r(1)] Cons.prems r(2) by auto
  have "elems (foldl repl s (p # ps))
      = elems s - fst ` set (p # ps) \<union> {n. \<exists>m. (m, n) \<in> set (p # ps) \<and> m \<in> elems s}"
    using IH(3) * \<open>n \<notin> fst ` set ps\<close> unfolding r(3) by (auto simp: p split: if_splits)
  then show ?case using IH(1,2) by simp
qed simp

end

text \<open>Sparse bit sets of 1024 bits per link, without empty links, and bit vectors.\<close>

definition crs_wf :: "bitset \<Rightarrow> bool" where
  "crs_wf bs \<longleftrightarrow> bs_wf bs \<and> m_cSizeBits bs = 1024 \<and> bs_normal bs"

interpretation crs: element_set crs_wf bs_set "\<lambda>_ n. n < ULONG_MOD" bs_FBit
  "\<lambda>s n. snd (bs_FExchangeSet s n)" "\<lambda>s n. snd (bs_FExchangeClear s n)"
  by unfold_locales
    (use bs_FExchangeSet_full bs_FExchangeClear_full bs_FBit_set bs_set_lt in \<open>auto simp: crs_wf_def\<close>)

interpretation bvs: element_set bv_wf bv_set "\<lambda>bv n. n < m_cBits bv" bv_FBit
  "\<lambda>s n. snd (bv_FExchangeSet s n)" "\<lambda>s n. snd (bv_FExchangeClear s n)"
  by unfold_locales (auto simp: bv_simps bv_set_bound)

section \<open>Column sets\<close>

definition crs_new :: bitset where
  "crs_new = bs_new 1024"

definition crs_copy :: "bitset \<Rightarrow> bitset" where
  "crs_copy bs = bs_copy bs"

definition crs_FMember :: "bitset \<Rightarrow> colref \<Rightarrow> bool" where
  "crs_FMember bs pcr = bs_FBit bs (m_ulId pcr)"

definition crs_Include :: "bitset \<Rightarrow> colref \<Rightarrow> bitset" where
  "crs_Include bs pcr = snd (bs_FExchangeSet bs (m_ulId pcr))"

definition crs_IncludeArray :: "bitset \<Rightarrow> colref list \<Rightarrow> bitset" where
  "crs_IncludeArray bs pdrgpcr = foldl crs_Include bs pdrgpcr"

definition crs_of_array :: "colref list \<Rightarrow> bitset" where
  "crs_of_array pdrgpcr = crs_IncludeArray crs_new pdrgpcr"

definition crs_Exclude :: "bitset \<Rightarrow> colref \<Rightarrow> bitset" where
  "crs_Exclude bs pcr = snd (bs_FExchangeClear bs (m_ulId pcr))"

definition crs_ExcludeArray :: "bitset \<Rightarrow> colref list \<Rightarrow> bitset" where
  "crs_ExcludeArray bs pdrgpcr = foldl crs_Exclude bs pdrgpcr"

definition crs_Replace :: "bitset \<Rightarrow> colref \<Rightarrow> colref \<Rightarrow> bitset" where
  "crs_Replace bs pcrOut pcrIn =
     (if crs_FMember bs pcrOut then crs_Include (crs_Exclude bs pcrOut) pcrIn else bs)"

text \<open>\<open>None\<close>: the second array is shorter and is read past its end.\<close>

fun crs_ReplaceArray :: "bitset \<Rightarrow> colref list \<Rightarrow> colref list \<Rightarrow> bitset option" where
  "crs_ReplaceArray bs [] ins = Some bs"
| "crs_ReplaceArray bs (pcrOut # outs) [] = None"
| "crs_ReplaceArray bs (pcrOut # outs) (pcrIn # ins) = crs_ReplaceArray (crs_Replace bs pcrOut pcrIn) outs ins"

text \<open>The column at the iterator's cursor; \<open>None\<close> is the null pointer.\<close>

definition crsi_Pcr :: "column_factory \<Rightarrow> bitset \<Rightarrow> bsiter \<Rightarrow> colref option" where
  "crsi_Pcr pcf bs it = (case PcrLookup pcf (bsi_UlBit bs it) of Some r \<Rightarrow> r | None \<Rightarrow> None)"

text \<open>The loops \<open>while (crsi.FAdvance()) ... crsi.Pcr() ...\<close>; \<open>None\<close>: a null column is used, or the
  loop does not end.\<close>

partial_function (option) crs_loop ::
    "column_factory \<Rightarrow> bitset \<Rightarrow> (colref \<Rightarrow> 'a \<Rightarrow> 'a) \<Rightarrow> bsiter \<Rightarrow> 'a \<Rightarrow> 'a option" where
  "crs_loop pcf bs f it a =
     (let (fMore, it') = bsi_FAdvance bs it
      in if fMore
         then (case crsi_Pcr pcf bs it' of None \<Rightarrow> None | Some pcr \<Rightarrow> crs_loop pcf bs f it' (f pcr a))
         else Some a)"

definition crs_IncludeSet :: "column_factory \<Rightarrow> bitset \<Rightarrow> bitset \<Rightarrow> bitset option" where
  "crs_IncludeSet pcf bs pcrs = crs_loop pcf pcrs (\<lambda>pcr s. crs_Include s pcr) bsi_new bs"

definition crs_ExcludeSet :: "column_factory \<Rightarrow> bitset \<Rightarrow> bitset \<Rightarrow> bitset option" where
  "crs_ExcludeSet pcf bs pcrs = crs_loop pcf pcrs (\<lambda>pcr s. crs_Exclude s pcr) bsi_new bs"

definition crs_Pdrgpcr :: "column_factory \<Rightarrow> bitset \<Rightarrow> colref list option" where
  "crs_Pdrgpcr pcf bs = crs_loop pcf bs (\<lambda>pcr pdrgpcr. pdrgpcr @ [pcr]) bsi_new []"

definition crs_ExtractColIds :: "column_factory \<Rightarrow> bitset \<Rightarrow> nat list \<Rightarrow> nat list option" where
  "crs_ExtractColIds pcf bs pdrgpulColIds =
     crs_loop pcf bs (\<lambda>pcr ids. ids @ [m_ulId pcr]) bsi_new pdrgpulColIds"

definition crs_PcrFirst :: "column_factory \<Rightarrow> bitset \<Rightarrow> colref option" where
  "crs_PcrFirst pcf bs =
     (let (fMore, it) = bsi_FAdvance bs bsi_new in if fMore then crsi_Pcr pcf bs it else None)"

definition crs_PcrAny :: "column_factory \<Rightarrow> bitset \<Rightarrow> colref option" where
  "crs_PcrAny pcf bs = crs_PcrFirst pcf bs"

text \<open>The hash combines the addresses of the first columns; \<open>addr\<close> gives the addresses.\<close>

fun crs_hash_loop :: "column_factory \<Rightarrow> (colref option \<Rightarrow> ullong) \<Rightarrow> bitset \<Rightarrow> nat \<Rightarrow> bsiter \<Rightarrow> ulong_w \<Rightarrow> ulong_w" where
  "crs_hash_loop pcf addr bs 0 it ulHash = ulHash"
| "crs_hash_loop pcf addr bs (Suc n) it ulHash =
     (let (_, it') = bsi_FAdvance bs it
      in crs_hash_loop pcf addr bs n it'
           (UlCombineHashes ulHash (UlHashByteArray (bytes_of_ullong (addr (crsi_Pcr pcf bs it'))))))"

definition crs_UlHash :: "column_factory \<Rightarrow> (colref option \<Rightarrow> ullong) \<Rightarrow> bitset \<Rightarrow> ulong_w" where
  "crs_UlHash pcf addr bs =
     crs_hash_loop pcf addr bs (min (m_cElements bs) 8) bsi_new
       (UlHashByteArray (bytes_of_ulong (of_nat (m_cElements bs))))"

fun crs_FContained :: "bitset \<Rightarrow> bitset list \<Rightarrow> bool" where
  "crs_FContained bs [] = False"
| "crs_FContained bs (pcrs # rest) = (if bs_FSubset pcrs bs then True else crs_FContained bs rest)"

fun crs_found :: "colref \<Rightarrow> bitset list \<Rightarrow> bool" where
  "crs_found pcr [] = False"
| "crs_found pcr (pcrs # rest) = (if crs_FMember pcrs pcr then True else crs_found pcr rest)"

partial_function (option) covered_loop :: "column_factory \<Rightarrow> bitset list \<Rightarrow> bitset \<Rightarrow> bsiter \<Rightarrow> bool option" where
  "covered_loop pcf pdrgpcrs pcrs it =
     (let (fMore, it') = bsi_FAdvance pcrs it
      in if fMore
         then (case crsi_Pcr pcf pcrs it' of
                 None \<Rightarrow> None
               | Some pcr \<Rightarrow> if \<not> crs_found pcr pdrgpcrs then Some False else covered_loop pcf pdrgpcrs pcrs it')
         else Some True)"

definition crs_FCovered :: "column_factory \<Rightarrow> bitset list \<Rightarrow> bitset \<Rightarrow> bool option" where
  "crs_FCovered pcf pdrgpcrs pcrs =
     (if m_cElements pcrs = 0 then Some False else covered_loop pcf pdrgpcrs pcrs bsi_new)"

section \<open>What iteration visits\<close>

definition col :: "column_factory \<Rightarrow> nat \<Rightarrow> colref" where
  "col pcf n = the (the (PcrLookup pcf n))"

text \<open>Every id of the set is the id of a column of the factory.\<close>

definition known :: "column_factory \<Rightarrow> bitset \<Rightarrow> bool" where
  "known pcf bs \<longleftrightarrow> bs_wf bs \<and> (\<forall>n \<in> bs_set bs. PcrLookup pcf n = Some (Some (col pcf n)) \<and> m_ulId (col pcf n) = n)"

lemma known_iff:
  assumes "cf_ok pcf"
  shows "known pcf bs \<longleftrightarrow> bs_wf bs \<and> bs_set bs \<subseteq> m_ulId ` cf_cols pcf"
proof -
  have inv: "m_ulInvalid \<notin> m_ulId ` cf_cols pcf" using assms by (auto simp: cf_ok_def m_ulInvalid_def)
  have "PcrLookup pcf n = Some (Some (col pcf n)) \<and> m_ulId (col pcf n) = n \<longleftrightarrow> n \<in> m_ulId ` cf_cols pcf" for n
  proof (cases "n = m_ulInvalid")
    case True
    have "ht_ok m_ulId m_ulInvalid CColRef_UlHash (m_sht pcf)" using assms by (simp add: cf_ok_def)
    from ht_lookup [OF this, of n] have "PcrLookup pcf n \<noteq> Some (Some (col pcf n)) \<or> col pcf n \<in> cf_cols pcf"
      by (auto simp: PcrLookup_def cf_cols_def)
    then show ?thesis using True inv by force
  next
    case False
    show ?thesis
    proof
      assume "n \<in> m_ulId ` cf_cols pcf"
      then obtain d where "d \<in> cf_cols pcf" "m_ulId d = n" by blast
      then have "PcrLookup pcf n = Some (Some d)" "m_ulId d = n" using PcrLookup_iff [OF assms False] by simp_all
      then show "PcrLookup pcf n = Some (Some (col pcf n)) \<and> m_ulId (col pcf n) = n" by (simp add: col_def)
    qed (use PcrLookup_iff [OF assms False, of "col pcf n"] in force)
  qed
  then show ?thesis unfolding known_def subset_iff by (simp only: Ball_def)
qed

lemma known_Pcr:
  "known pcf bs \<Longrightarrow> bsi_UlBit bs it \<in> bs_set bs \<Longrightarrow> crsi_Pcr pcf bs it = Some (col pcf (bsi_UlBit bs it))"
  by (simp add: known_def crsi_Pcr_def)

lemma bsi_rest_subset: "bsi_rest bs it \<subseteq> bs_set bs"
  by (auto simp: bsi_rest_def)

lemma crs_loop_rest:
  assumes k: "known pcf bs" and ok: "bsi_ok bs it"
  shows "crs_loop pcf bs f it a = Some (fold f (map (col pcf) (sorted_list_of_set (bsi_rest bs it))) a)"
  using ok
proof (induction "card (bsi_rest bs it)" arbitrary: it a rule: less_induct)
  case less
  have wf: "bs_wf bs" using k by (simp add: known_def)
  obtain fMore it' where adv: "bsi_FAdvance bs it = (fMore, it')" by force
  note st = iter_step_sorted [OF wf less.prems adv]
  show ?case
  proof (cases fMore)
    case False
    then show ?thesis using st adv by (subst crs_loop.simps) simp
  next
    case True
    then have s: "bsi_ok bs it'" "bsi_UlBit bs it' \<in> bs_set bs" "card (bsi_rest bs it') < card (bsi_rest bs it)"
      "sorted_list_of_set (bsi_rest bs it) = bsi_UlBit bs it' # sorted_list_of_set (bsi_rest bs it')"
      using st bsi_rest_subset [of bs it] by auto
    show ?thesis using less.hyps [OF s(3,1)] True adv s(4) known_Pcr [OF k s(2)] by (subst crs_loop.simps) simp
  qed
qed

text \<open>The columns of a set, in the order of their ids.\<close>

definition crs_cols :: "column_factory \<Rightarrow> bitset \<Rightarrow> colref list" where
  "crs_cols pcf bs = map (col pcf) (sorted_list_of_set (bs_set bs))"

lemma crs_loop_all: "known pcf bs \<Longrightarrow> crs_loop pcf bs f bsi_new a = Some (fold f (crs_cols pcf bs) a)"
  using crs_loop_rest [of pcf bs bsi_new] by (simp add: crs_cols_def)

lemma crs_cols_ids: "known pcf bs \<Longrightarrow> map m_ulId (crs_cols pcf bs) = sorted_list_of_set (bs_set bs)"
  using finite_bs_set [of bs] by (auto simp: crs_cols_def known_def intro!: map_idI)

lemma set_crs_cols: "known pcf bs \<Longrightarrow> m_ulId ` set (crs_cols pcf bs) = bs_set bs"
  using crs_cols_ids [of pcf bs] finite_bs_set [of bs] by (metis known_def list.set_map set_sorted_list_of_set)


lemma fold_foldl: "fold (\<lambda>x s. f s x) xs s = foldl f s xs"
  by (simp add: foldl_conv_fold)

lemma crs_array_ops:
  assumes "crs_wf bs" "\<forall>c \<in> set xs. m_ulId c < ULONG_MOD"
  shows "crs_wf (crs_IncludeArray bs xs) \<and> bs_set (crs_IncludeArray bs xs) = bs_set bs \<union> m_ulId ` set xs"
    and "crs_wf (crs_ExcludeArray bs xs) \<and> bs_set (crs_ExcludeArray bs xs) = bs_set bs - m_ulId ` set xs"
  using crs.ins_all [OF assms(1), of "map m_ulId xs"] crs.del_all [OF assms(1), of "map m_ulId xs"] assms(2)
  by (simp_all add: crs_IncludeArray_def crs_ExcludeArray_def crs_Include_def [abs_def] crs_Exclude_def [abs_def] foldl_map)

lemma crs_new_wf: "crs_wf crs_new" "bs_set crs_new = {}"
  by (simp_all add: crs_wf_def crs_new_def bs_simps) (simp add: bs_normal_def bs_new_def)

lemma crs_set_ops:
  assumes "crs_wf bs" "known pcf pcrs"
  shows "\<exists>bs'. crs_IncludeSet pcf bs pcrs = Some bs' \<and> crs_wf bs' \<and> bs_set bs' = bs_set bs \<union> bs_set pcrs"
    and "\<exists>bs'. crs_ExcludeSet pcf bs pcrs = Some bs' \<and> crs_wf bs' \<and> bs_set bs' = bs_set bs - bs_set pcrs"
proof -
  have "\<forall>c \<in> set (crs_cols pcf pcrs). m_ulId c < ULONG_MOD"
    using set_crs_cols [OF assms(2)] bs_set_lt [of pcrs] assms(2) by (auto simp: known_def)
  from crs_array_ops [OF assms(1) this] set_crs_cols [OF assms(2)]
  show "\<exists>bs'. crs_IncludeSet pcf bs pcrs = Some bs' \<and> crs_wf bs' \<and> bs_set bs' = bs_set bs \<union> bs_set pcrs"
    "\<exists>bs'. crs_ExcludeSet pcf bs pcrs = Some bs' \<and> crs_wf bs' \<and> bs_set bs' = bs_set bs - bs_set pcrs"
    by (simp_all add: crs_IncludeSet_def crs_ExcludeSet_def crs_loop_all [OF assms(2)] fold_foldl
        crs_IncludeArray_def crs_ExcludeArray_def)
qed

lemma crs_ReplaceArray_repl:
  "length outs = length ins \<Longrightarrow> crs_ReplaceArray bs outs ins =
     Some (foldl crs.repl bs (zip (map m_ulId outs) (map m_ulId ins)))"
  by (induction bs outs ins rule: crs_ReplaceArray.induct)
     (simp_all add: crs_Replace_def crs.repl_def crs_FMember_def crs_Include_def crs_Exclude_def)

lemma crs_ReplaceArray_set:
  assumes "crs_wf bs" "length outs = length ins" "\<forall>c \<in> set outs \<union> set ins. m_ulId c < ULONG_MOD"
    and "m_ulId ` set outs \<inter> m_ulId ` set ins = {}" "distinct (map m_ulId outs)"
  shows "\<exists>bs'. crs_ReplaceArray bs outs ins = Some bs' \<and> crs_wf bs'
    \<and> bs_set bs' = bs_set bs - m_ulId ` set outs
         \<union> {n. \<exists>m \<in> bs_set bs. (m, n) \<in> set (zip (map m_ulId outs) (map m_ulId ins))}"
proof -
  let ?ps = "zip (map m_ulId outs) (map m_ulId ins)"
  have fs: "fst ` set ?ps = m_ulId ` set outs" "snd ` set ?ps = m_ulId ` set ins" "map fst ?ps = map m_ulId outs"
    using assms(2) by (simp_all add: map_fst_zip map_snd_zip flip: set_map)
  then have "\<forall>p \<in> set ?ps. fst p < ULONG_MOD \<and> snd p < ULONG_MOD" using assms(3) by (metis UnCI image_eqI imageE)
  from crs.repl_all [OF assms(1) this] show ?thesis
    using fs assms(4,5) by (auto simp: crs_ReplaceArray_repl [OF assms(2)])
qed

section \<open>Tests and hash\<close>

lemma crs_FContained_iff: "crs_FContained bs xs \<longleftrightarrow> (\<exists>s \<in> set xs. bs_FSubset s bs)"
  by (induction xs) auto

lemma crs_found_iff:
  "\<forall>s \<in> set xs. bs_wf s \<Longrightarrow> crs_found c xs \<longleftrightarrow> (\<exists>s \<in> set xs. m_ulId c \<in> bs_set s)"
  by (induction xs) (auto simp: crs_FMember_def bs_FBit_set)

lemma covered_loop_rest:
  assumes k: "known pcf bs" and ok: "bsi_ok bs it" and wf: "\<forall>s \<in> set xs. bs_wf s"
  shows "covered_loop pcf xs bs it = Some (bsi_rest bs it \<subseteq> (\<Union>s \<in> set xs. bs_set s))"
  using ok
proof (induction "card (bsi_rest bs it)" arbitrary: it rule: less_induct)
  case less
  have bwf: "bs_wf bs" using k by (simp add: known_def)
  obtain fMore it' where adv: "bsi_FAdvance bs it = (fMore, it')" by force
  note st = iter_step_sorted [OF bwf less.prems adv] and sp = bsi_FAdvance_spec [OF bwf less.prems adv]
  show ?case
  proof (cases fMore)
    case False
    then show ?thesis using st adv by (subst covered_loop.simps) simp
  next
    case True
    let ?b = "bsi_UlBit bs it'"
    have s: "bsi_ok bs it'" "?b \<in> bs_set bs" "card (bsi_rest bs it') < card (bsi_rest bs it)"
      "bsi_rest bs it = insert ?b (bsi_rest bs it')"
      using st sp True bsi_rest_subset [of bs it] by auto
    have "m_ulId (col pcf ?b) = ?b" using k s(2) by (simp add: known_def)
    then show ?thesis
      using less.hyps [OF s(3,1)] True adv s(4) known_Pcr [OF k s(2)] crs_found_iff [OF wf, of "col pcf ?b"]
      by (subst covered_loop.simps) auto
  qed
qed

lemma crs_FCovered_iff:
  assumes "known pcf bs" "\<forall>s \<in> set xs. bs_wf s" "card (bs_set bs) < ULONG_MOD"
  shows "crs_FCovered pcf xs bs = Some (bs_set bs \<noteq> {} \<and> bs_set bs \<subseteq> (\<Union>s \<in> set xs. bs_set s))"
proof -
  have "bs_wf bs" using assms(1) by (simp add: known_def)
  then have "m_cElements bs = 0 \<longleftrightarrow> bs_set bs = {}"
    using assms(3) bs_wfD(5) finite_bs_set by (metis card_eq_0_iff mod_less)
  then show ?thesis using covered_loop_rest [OF assms(1) _ assms(2), of bsi_new] by (auto simp: crs_FCovered_def)
qed

lemma crs_hash_loop_rest:
  assumes k: "known pcf bs" and "bsi_ok bs it" "n \<le> card (bsi_rest bs it)"
  shows "crs_hash_loop pcf addr bs n it h =
    foldl (\<lambda>h m. UlCombineHashes h (UlHashByteArray (bytes_of_ullong (addr (Some (col pcf m)))))) h
      (take n (sorted_list_of_set (bsi_rest bs it)))"
  using assms(2,3)
proof (induction n arbitrary: it h)
  case (Suc n)
  have wf: "bs_wf bs" using k by (simp add: known_def)
  obtain fMore it' where adv: "bsi_FAdvance bs it = (fMore, it')" by force
  note st = iter_step_sorted [OF wf Suc.prems(1) adv] and sp = bsi_FAdvance_spec [OF wf Suc.prems(1) adv]
  have "bsi_rest bs it \<noteq> {}" using Suc.prems(2) by auto
  then have s: "bsi_ok bs it'" "bsi_UlBit bs it' \<in> bs_set bs"
    "sorted_list_of_set (bsi_rest bs it) = bsi_UlBit bs it' # sorted_list_of_set (bsi_rest bs it')"
    using st bsi_rest_subset [of bs it] by (auto split: if_splits)
  have "card (bsi_rest bs it) = Suc (card (bsi_rest bs it'))"
    using arg_cong [OF s(3), of length] by simp
  then show ?case using Suc.IH [OF s(1)] Suc.prems(2) s(3) adv known_Pcr [OF k s(2)] by simp
qed simp

lemma crs_UlHash_eq:
  assumes "known pcf bs" "card (bs_set bs) < ULONG_MOD"
  shows "crs_UlHash pcf addr bs =
    foldl (\<lambda>h m. UlCombineHashes h (UlHashByteArray (bytes_of_ullong (addr (Some (col pcf m))))))
      (UlHashByteArray (bytes_of_ulong (of_nat (card (bs_set bs)))))
      (take (min (card (bs_set bs)) 8) (sorted_list_of_set (bs_set bs)))"
proof -
  have "m_cElements bs = card (bs_set bs)" using assms bs_wfD(5) by (simp add: known_def)
  then show ?thesis using crs_hash_loop_rest [OF assms(1), of bsi_new] by (simp add: crs_UlHash_def)
qed

lemma crs_PcrFirst_min:
  assumes "known pcf bs"
  shows "crs_PcrFirst pcf bs = (if bs_set bs = {} then None else Some (col pcf (Min (bs_set bs))))"
proof -
  have wf: "bs_wf bs" using assms by (simp add: known_def)
  obtain fMore it' where adv: "bsi_FAdvance bs bsi_new = (fMore, it')" by force
  note sp = bsi_FAdvance_spec [OF wf bsi_new_ok(1) adv, unfolded bsi_new_ok(2)]
  show ?thesis
  proof (cases fMore)
    case True
    then have m: "Min (bs_set bs) = bsi_UlBit bs it'" "bsi_UlBit bs it' \<in> bs_set bs"
      using sp finite_bs_set [OF wf] by (auto intro: Min_eqI)
    then show ?thesis using adv True known_Pcr [OF assms m(2)] by (auto simp: crs_PcrFirst_def)
  qed (use sp adv in \<open>simp add: crs_PcrFirst_def\<close>)
qed

section \<open>Properties\<close>

text \<open>C31 A column set over the columns of a factory lists its columns in the order of their ids, each
  once; adding and removing another set are the union and the difference, and the loops over the
  iterator end.\<close>
theorem crs_iteration_correct:
  assumes "cf_ok pcf" "crs_wf bs" "bs_wf pcrs" "bs_set bs \<union> bs_set pcrs \<subseteq> m_ulId ` cf_cols pcf"
  shows "(\<exists>cs. crs_Pdrgpcr pcf bs = Some cs \<and> set cs \<subseteq> cf_cols pcf
            \<and> map m_ulId cs = sorted_list_of_set (bs_set bs)
            \<and> crs_ExtractColIds pcf bs ids = Some (ids @ map m_ulId cs)
            \<and> crs_PcrFirst pcf bs = (if cs = [] then None else Some (hd cs)))
    \<and> (\<exists>bs'. crs_IncludeSet pcf bs pcrs = Some bs' \<and> crs_wf bs' \<and> bs_set bs' = bs_set bs \<union> bs_set pcrs)
    \<and> (\<exists>bs'. crs_ExcludeSet pcf bs pcrs = Some bs' \<and> crs_wf bs' \<and> bs_set bs' = bs_set bs - bs_set pcrs)"
proof (intro conjI)
  have k: "known pcf bs" and k': "known pcf pcrs"
    using assms by (simp_all add: known_iff [OF assms(1)] crs_wf_def)
  let ?cs = "crs_cols pcf bs"
  have snoc: "fold (\<lambda>x xs. xs @ [g x]) ys zs = zs @ map g ys" for g ys and zs :: "'x list"
    by (induction ys arbitrary: zs) simp_all
  have "bs_set bs = {} \<longleftrightarrow> ?cs = []"
    using finite_bs_set [of bs] k by (simp add: crs_cols_def known_def)
  moreover have "hd ?cs = col pcf (Min (bs_set bs))" if "bs_set bs \<noteq> {}"
    using that finite_bs_set [of bs] k sorted_list_of_set_nonempty [of "bs_set bs"]
    by (simp add: crs_cols_def known_def)
  moreover have "set ?cs \<subseteq> cf_cols pcf"
  proof
    fix c assume "c \<in> set ?cs"
    then obtain n where n: "n \<in> bs_set bs" "c = col pcf n"
      using finite_bs_set [of bs] k by (auto simp: crs_cols_def known_def)
    then have "PcrLookup pcf n = Some (Some c)" using k by (simp add: known_def)
    moreover from n(1) assms(4) obtain d where "d \<in> cf_cols pcf" "m_ulId d = n" by blast
    then have "n \<noteq> m_ulInvalid" using assms(1) by (auto simp: cf_ok_def m_ulInvalid_def)
    ultimately show "c \<in> cf_cols pcf" using PcrLookup_iff [OF assms(1), of n c] by simp
  qed
  ultimately show "\<exists>cs. crs_Pdrgpcr pcf bs = Some cs \<and> set cs \<subseteq> cf_cols pcf
      \<and> map m_ulId cs = sorted_list_of_set (bs_set bs)
      \<and> crs_ExtractColIds pcf bs ids = Some (ids @ map m_ulId cs)
      \<and> crs_PcrFirst pcf bs = (if cs = [] then None else Some (hd cs))"
    using crs_cols_ids [OF k] crs_PcrFirst_min [OF k]
    by (intro exI [of _ ?cs])
       (simp add: crs_Pdrgpcr_def crs_ExtractColIds_def crs_loop_all [OF k] snoc snoc [of "\<lambda>x. x", simplified])
  show "\<exists>bs'. crs_IncludeSet pcf bs pcrs = Some bs' \<and> crs_wf bs' \<and> bs_set bs' = bs_set bs \<union> bs_set pcrs"
    by (rule crs_set_ops(1) [OF assms(2) k'])
  show "\<exists>bs'. crs_ExcludeSet pcf bs pcrs = Some bs' \<and> crs_wf bs' \<and> bs_set bs' = bs_set bs - bs_set pcrs"
    by (rule crs_set_ops(2) [OF assms(2) k'])
qed

text \<open>A factory with one column, and the set of this column.\<close>

definition col0 :: colref where
  "col0 = \<lparr>m_ulId = 0, m_eti = EtiInt4, m_fTable = False, m_fNullable = False\<rparr>"

definition fac1 :: column_factory where
  "fac1 = snd (PcrCreate CColumnFactory_new EtiInt4)"

definition set0 :: bitset where
  "set0 = crs_of_array [col0]"

lemma fac1: "cf_ok fac1" "cf_cols fac1 = {col0}"
  using cf_creates(1) [OF CColumnFactory_new_ok(1), of EtiInt4] first_column CColumnFactory_new_ok(2)
  by (simp_all add: fac1_def col0_def ULONG_MAX_def case_prod_unfold)

lemma set0: "crs_wf set0" "bs_wf set0" "bs_set set0 = {0}"
  using crs_array_ops(1) [OF crs_new_wf(1), of "[col0]"] crs_new_wf(2)
  by (auto simp: set0_def crs_of_array_def col0_def crs_wf_def)

theorem crs_iteration_correct_witness:
  "\<exists>cs bs'. crs_Pdrgpcr fac1 set0 = Some cs \<and> map m_ulId cs = [0]
     \<and> crs_ExcludeSet fac1 set0 set0 = Some bs' \<and> bs_set bs' = {}"
  using crs_iteration_correct [OF fac1(1) set0(1,2), of "[]"] by (auto simp: set0(3) fac1(2) col0_def)

text \<open>A column set is covered by a list of sets exactly if it is not empty and each of its columns is
  in one of them; it is found to contain one of the sets only if it does.\<close>
theorem crs_FCovered_correct:
  assumes "cf_ok pcf" "bs_wf bs" "bs_set bs \<subseteq> m_ulId ` cf_cols pcf" "\<forall>s \<in> set xs. bs_wf s"
    and "card (bs_set bs) < ULONG_MOD"
  shows "crs_FCovered pcf xs bs = Some (bs_set bs \<noteq> {} \<and> bs_set bs \<subseteq> (\<Union>s \<in> set xs. bs_set s))"
  by (rule crs_FCovered_iff) (use assms in \<open>simp_all add: known_iff\<close>)

theorem crs_FCovered_correct_witness:
  "crs_FCovered fac1 [crs_new, set0] set0 = Some True \<and> crs_FCovered fac1 [crs_new] set0 = Some False"
proof -
  have "bs_wf crs_new" using crs_new_wf by (simp add: crs_wf_def)
  then show ?thesis
    using crs_FCovered_correct [OF fac1(1) set0(2), of "[crs_new, set0]"]
      crs_FCovered_correct [OF fac1(1) set0(2), of "[crs_new]"]
    by (simp add: set0 fac1(2) col0_def crs_new_wf)
qed

text \<open>Column sets with the same columns hash equally, whatever their representation.\<close>
theorem crs_UlHash_same_columns:
  assumes "cf_ok pcf" "bs_wf bs" "bs_wf bs'" "bs_set bs = bs_set bs'"
    and "bs_set bs \<subseteq> m_ulId ` cf_cols pcf" "card (bs_set bs) < ULONG_MOD"
  shows "crs_UlHash pcf addr bs = crs_UlHash pcf addr bs'"
  using crs_UlHash_eq [of pcf bs addr] crs_UlHash_eq [of pcf bs' addr] assms by (simp add: known_iff)

theorem crs_UlHash_same_columns_witness:
  "crs_UlHash fac1 (\<lambda>_. 8) (bs_Union set0 set0) = crs_UlHash fac1 (\<lambda>_. 8) set0"
proof -
  have "bs_wf (bs_Union set0 set0) \<and> bs_set (bs_Union set0 set0) = {0}"
    using bs_Union_full [of set0 set0] set0 by (simp add: bs_compat_def crs_wf_def)
  then show ?thesis
    by (intro crs_UlHash_same_columns [OF fac1(1) _ set0(2)]) (simp_all add: set0 fac1(2) col0_def)
qed

end
