(* ===== verification/SyncHashtableIter.thy ===== *)
theory SyncHashtableIter
  imports SyncHashtable "HOL-Library.Monad_Syntax"
begin

text \<open>
  The iterator \<open>CSyncHashtableIter\<close> and its accessor
  (\<^verbatim>\<open>libgpos/include/gpos/common/CSyncHashtableIter.h\<close>,
  \<^verbatim>\<open>CSyncHashtableAccessByIter.h\<close>).  The iterator marks its position by an invalid
  element of its own that it inserts into the bucket, so that other threads may insert and
  remove elements between two of its steps.  The first part is the sequential behaviour; the
  second a step relation in which every use of an accessor is one step and other clients'
  insertions and removals come between.
\<close>

section \<open>The iterator\<close>

record 't sht_iter =
  m_ulBucketIndex :: nat
  m_ptInvalid :: 't
  m_fInvalidInserted :: bool

type_synonym ('t, 'k) iter_state = "('t, 'k) ht_state \<times> 't sht_iter"

text \<open>The constructor copies the invalid key into the element \<open>ptInvalid\<close> of the iterator.\<close>

definition iter_new :: "'t \<Rightarrow> ('t, 'k) ht_state \<Rightarrow> ('t, 'k) iter_state" where
  "iter_new ptInvalid s =
     ((fst s, (snd s)\<lparr>m_Key := (m_Key (snd s))(ptInvalid := m_pkeyInvalid (snd s))\<rparr>),
      \<lparr>m_ulBucketIndex = 0, m_ptInvalid = ptInvalid, m_fInvalidInserted = False\<rparr>)"

definition iter_PtFirstValid :: "('t, 'k) ht_state \<Rightarrow> 't option \<Rightarrow> 't option option" where
  "iter_PtFirstValid s pt = first_match (\<lambda>x. FValid (snd s) (m_Key (snd s) x)) (fst s) pt"

definition iter_Pt :: "('t, 'k) iter_state \<Rightarrow> 't option option" where
  "iter_Pt c = iter_PtFirstValid (fst c) (Some (m_ptInvalid (snd c)))"

text \<open>One pass of the loop of \<open>InsertInvalidElement\<close>, under the lock of the current bucket; the
  result tells whether the loop goes on.\<close>

definition iter_seek :: "('t, 'k) iter_state \<Rightarrow> (bool \<times> ('t, 'k) iter_state) option" where
  "iter_seek c =
     (let (s, it) = c; i = m_ulBucketIndex it in
      do {
        ptFirstValid \<leftarrow> (case m_ptHead (Bucket (snd s) i) of
            None \<Rightarrow> Some None | Some ptFirst \<Rightarrow> iter_PtFirstValid s (Some ptFirst));
        (case ptFirstValid of
           Some x \<Rightarrow> Some (False, acc_PrependBefore i (m_ptInvalid it) x s, it\<lparr>m_fInvalidInserted := True\<rparr>)
         | None \<Rightarrow> Some (True, s, it\<lparr>m_ulBucketIndex := i + 1\<rparr>))
      })"

partial_function (option) seek_loop :: "('t, 'k) iter_state \<Rightarrow> ('t, 'k) iter_state option" where
  "seek_loop c =
     (if m_ulBucketIndex (snd c) < m_cSize (snd (fst c))
      then do { (fGoOn, c) \<leftarrow> iter_seek c; (if fGoOn then seek_loop c else Some c) }
      else Some c)"

definition iter_InsertInvalidElement :: "('t, 'k) iter_state \<Rightarrow> ('t, 'k) iter_state option" where
  "iter_InsertInvalidElement c = seek_loop (fst c, (snd c)\<lparr>m_fInvalidInserted := False\<rparr>)"

definition iter_AdvanceInvalidElement :: "('t, 'k) iter_state \<Rightarrow> ('t, 'k) iter_state option" where
  "iter_AdvanceInvalidElement c =
     (let (s, it) = c; i = m_ulBucketIndex it; ph = m_ptInvalid it in
      do {
        pt \<leftarrow> iter_PtFirstValid s (Some ph);
        let s = acc_Remove i ph s;
        let it = it\<lparr>m_fInvalidInserted := False\<rparr>;
        (case pt of
           Some x \<Rightarrow>
             if cl_PtNext (fst s) x \<noteq> None
             then Some (acc_AppendAfter i ph x s, it\<lparr>m_fInvalidInserted := True\<rparr>)
             else Some (s, it)
         | None \<Rightarrow> Some (s, it))
      })"

definition iter_next_bucket :: "('t, 'k) iter_state \<Rightarrow> ('t, 'k) iter_state" where
  "iter_next_bucket c = (fst c, (snd c)\<lparr>m_ulBucketIndex := m_ulBucketIndex (snd c) + 1\<rparr>)"

definition iter_FAdvance :: "('t, 'k) iter_state \<Rightarrow> (bool \<times> ('t, 'k) iter_state) option" where
  "iter_FAdvance c =
     do {
       c \<leftarrow> (if \<not> m_fInvalidInserted (snd c) then iter_InsertInvalidElement c
             else do {
               c \<leftarrow> iter_AdvanceInvalidElement c;
               (if \<not> m_fInvalidInserted (snd c) then iter_InsertInvalidElement (iter_next_bucket c) else Some c)
             });
       Some (m_ulBucketIndex (snd c) < m_cSize (snd (fst c)), c)
     }"

definition iter_RewindIterator :: "('t, 'k) iter_state \<Rightarrow> ('t, 'k) iter_state" where
  "iter_RewindIterator c = (fst c, (snd c)\<lparr>m_ulBucketIndex := 0\<rparr>)"

text \<open>The destructor.\<close>

definition iter_destroy :: "('t, 'k) iter_state \<Rightarrow> ('t, 'k) ht_state" where
  "iter_destroy c =
     (if m_fInvalidInserted (snd c)
      then acc_Remove (m_ulBucketIndex (snd c)) (m_ptInvalid (snd c)) (fst c) else fst c)"

text \<open>The loop every client writes: \<open>while (shtit.FAdvance()) { ... shtitacc.Pt() ... }\<close>.\<close>

partial_function (option) iterate :: "('t, 'k) iter_state \<Rightarrow> ('t list \<times> ('t, 'k) iter_state) option" where
  "iterate c =
     do {
       (fMore, c) \<leftarrow> iter_FAdvance c;
       (if \<not> fMore then Some ([], c)
        else do { pt \<leftarrow> iter_Pt c; (xs, c) \<leftarrow> iterate c;
                  Some ((case pt of None \<Rightarrow> xs | Some x \<Rightarrow> x # xs), c) })
     }"

text \<open>
  \<open>CSyncHashtable::DestroyEntries\<close>: an element is removed under the lock and destroyed in the
  next round; the result lists the destroyed elements.
\<close>

partial_function (option) destroy_loop ::
    "'t option \<Rightarrow> ('t, 'k) iter_state \<Rightarrow> ('t list \<times> ('t, 'k) iter_state) option" where
  "destroy_loop pt c =
     do {
       (fMore, c) \<leftarrow> (case pt of Some x \<Rightarrow> Some (True, c) | None \<Rightarrow> iter_FAdvance c);
       (if \<not> fMore then Some ([], c)
        else do {
          pt' \<leftarrow> iter_Pt c;
          let c' = (case pt' of None \<Rightarrow> c
                    | Some x \<Rightarrow> (acc_Remove (m_ulBucketIndex (snd c)) x (fst c), snd c));
          (xs, c') \<leftarrow> destroy_loop pt' c';
          Some ((case pt of None \<Rightarrow> xs | Some x \<Rightarrow> x # xs), c')
        })
     }"

definition sht_DestroyEntries :: "'t \<Rightarrow> ('t, 'k) ht_state \<Rightarrow> ('t list \<times> ('t, 'k) ht_state) option" where
  "sht_DestroyEntries ptInvalid s =
     map_option (\<lambda>(xs, c). (xs, iter_destroy c)) (destroy_loop None (iter_new ptInvalid s))"

section \<open>Positions\<close>

text \<open>
  An iterator over a table whose buckets hold, without the placeholder, the valid elements
  \<open>C\<close>: in bucket \<open>i\<close> before the \<open>k\<close>-th element.
\<close>

definition iter_base :: "('t, 'k) iter_state \<Rightarrow> 't \<Rightarrow> 't list list \<Rightarrow> bool" where
  "iter_base c ph C \<longleftrightarrow>
     m_ptInvalid (snd c) = ph \<and> ph \<notin> set (concat C) \<and> \<not> FValid (snd (fst c)) (m_Key (snd (fst c)) ph)
   \<and> (\<forall>x \<in> set (concat C). FValid (snd (fst c)) (m_Key (snd (fst c)) x)) \<and> distinct (concat C)"

definition iter_at :: "('t, 'k) iter_state \<Rightarrow> 't \<Rightarrow> 't list list \<Rightarrow> nat \<Rightarrow> nat \<Rightarrow> bool" where
  "iter_at c ph C i k \<longleftrightarrow>
     iter_base c ph C \<and> i < length C \<and> k \<le> length (C ! i)
   \<and> ht_repr (fst c) (C[i := take k (C ! i) @ ph # drop k (C ! i)])
   \<and> m_ulBucketIndex (snd c) = i \<and> m_fInvalidInserted (snd c)"

definition iter_off :: "('t, 'k) iter_state \<Rightarrow> 't \<Rightarrow> 't list list \<Rightarrow> nat \<Rightarrow> bool" where
  "iter_off c ph C i \<longleftrightarrow>
     iter_base c ph C \<and> ht_repr (fst c) C \<and> m_ulBucketIndex (snd c) = i \<and> \<not> m_fInvalidInserted (snd c)"

text \<open>The elements an iterator has not passed.\<close>

definition rest_at :: "'t list list \<Rightarrow> nat \<Rightarrow> nat \<Rightarrow> 't list" where
  "rest_at C i k = drop k (C ! i) @ concat (drop (i + 1) C)"

lemma first_valid_bucket:
  assumes "ht_repr s B" "i < m_cSize (snd s)"
  shows "iter_PtFirstValid s (m_ptHead (Bucket (snd s) i)) = Some (find (\<lambda>x. FValid (snd s) (m_Key (snd s) x)) (B ! i))"
    and "B ! i = xs @ x # ys \<Longrightarrow>
      iter_PtFirstValid s (Some x) = Some (find (\<lambda>x. FValid (snd s) (m_Key (snd s) x)) (x # ys))"
    and "B ! i = xs @ x # ys \<Longrightarrow> cl_PtNext (fst s) x = hd_opt ys"
proof -
  note r = ht_reprD(6) [OF assms]
  show "iter_PtFirstValid s (m_ptHead (Bucket (snd s) i)) = Some (find (\<lambda>x. FValid (snd s) (m_Key (snd s) x)) (B ! i))"
    by (simp add: iter_PtFirstValid_def first_match_head [OF r])
  assume x: "B ! i = xs @ x # ys"
  show "iter_PtFirstValid s (Some x) = Some (find (\<lambda>x. FValid (snd s) (m_Key (snd s) x)) (x # ys))"
    unfolding iter_PtFirstValid_def by (rule first_match_list(1) [OF r [unfolded x]])
  show "cl_PtNext (fst s) x = hd_opt ys"
    by (rule cl_neighbours(1) [OF r [unfolded x]])
qed

lemma iter_baseD:
  assumes "iter_base c ph C" "i < length C"
  shows "find (\<lambda>x. FValid (snd (fst c)) (m_Key (snd (fst c)) x)) (C ! i) = hd_opt (C ! i)"
    and "ph \<notin> set (C ! i)"
    and "find (\<lambda>x. FValid (snd (fst c)) (m_Key (snd (fst c)) x)) (ph # drop k (C ! i)) = hd_opt (drop k (C ! i))"
proof -
  have sub: "set (C ! i) \<subseteq> set (concat C)" using bucket_subset [OF assms(2)] .
  have ok: "\<forall>x \<in> set (C ! i). FValid (snd (fst c)) (m_Key (snd (fst c)) x)"
    using assms(1) sub unfolding iter_base_def by blast
  show "find (\<lambda>x. FValid (snd (fst c)) (m_Key (snd (fst c)) x)) (C ! i) = hd_opt (C ! i)"
    using ok by (cases "C ! i") simp_all
  show "ph \<notin> set (C ! i)" using assms(1) sub unfolding iter_base_def by blast
  have "\<forall>x \<in> set (drop k (C ! i)). FValid (snd (fst c)) (m_Key (snd (fst c)) x)"
    using ok by (meson in_set_dropD)
  then show "find (\<lambda>x. FValid (snd (fst c)) (m_Key (snd (fst c)) x)) (ph # drop k (C ! i)) = hd_opt (drop k (C ! i))"
    using assms(1) by (cases "drop k (C ! i)") (simp_all add: iter_base_def)
qed

lemma iter_at_length: "iter_at c ph C i k \<Longrightarrow> m_cSize (snd (fst c)) = length C"
  by (auto simp: iter_at_def dest: ht_reprD(2))

lemma iter_off_length: "iter_off c ph C i \<Longrightarrow> m_cSize (snd (fst c)) = length C"
  by (auto simp: iter_off_def dest: ht_reprD(2))

text \<open>Changing the table through an accessor keeps the keys.\<close>

lemma iter_base_keys:
  assumes "iter_base c ph C" "m_ptInvalid (snd c') = m_ptInvalid (snd c)"
    and "FValid (snd (fst c')) = FValid (snd (fst c))" "m_Key (snd (fst c')) = m_Key (snd (fst c))"
  shows "iter_base c' ph C"
  using assms by (simp add: iter_base_def)

lemma iter_seek_step:
  assumes off: "iter_off c ph C i" and i: "i < length C"
  shows "if C ! i = [] then \<exists>c'. iter_seek c = Some (True, c') \<and> iter_off c' ph C (i + 1)
         else \<exists>c'. iter_seek c = Some (False, c') \<and> iter_at c' ph C i 0"
proof -
  obtain s it where c [simp]: "c = (s, it)" by (cases c)
  have b: "iter_base c ph C" and R: "ht_repr s C" and it: "m_ulBucketIndex it = i" "\<not> m_fInvalidInserted it"
    using off by (simp_all add: iter_off_def)
  have sz: "i < m_cSize (snd s)" using ht_reprD(2) [OF R] i by simp
  have hd: "m_ptHead (Bucket (snd s) i) = hd_opt (C ! i)"
    using cl_accessors(1) [OF ht_reprD(6) [OF R sz]] .
  show ?thesis
  proof (cases "C ! i")
    case Nil
    then show ?thesis using b R hd it
      by (auto simp: iter_seek_def Let_def iter_off_def iter_base_def)
  next
    case (Cons x xs)
    let ?s = "acc_PrependBefore i ph x s"
    have f: "iter_PtFirstValid s (Some x) = Some (Some x)"
      using first_valid_bucket(2) [OF R sz, of "[]" x xs] Cons iter_baseD(1) [OF b i] by simp
    have R': "ht_repr ?s (C[i := ph # C ! i])"
      using acc_PrependBefore_repr [OF R sz, of ph "[]" x xs] b Cons by (simp add: iter_base_def)
    show ?thesis using b R' hd it Cons f i
      by (auto simp: iter_seek_def Let_def iter_at_def iter_base_def acc_PrependBefore_def)
  qed
qed

text \<open>Where the search for the next bucket that is not empty ends.\<close>

definition seek_result :: "('t, 'k) iter_state \<Rightarrow> 't \<Rightarrow> 't list list \<Rightarrow> nat \<Rightarrow> bool" where
  "seek_result c ph C i \<longleftrightarrow>
     (\<exists>j. i \<le> j \<and> C ! j \<noteq> [] \<and> concat (drop i C) = rest_at C j 0 \<and> iter_at c ph C j 0)
   \<or> concat (drop i C) = [] \<and> iter_off c ph C (length C)"

lemma concat_drop: "i < length C \<Longrightarrow> concat (drop i C) = C ! i @ concat (drop (i + 1) C)"
  by (simp add: Cons_nth_drop_Suc [symmetric])

lemma seek_result_Nil:
  assumes "seek_result c ph C (i + 1)" "C ! i = []" "i < length C"
  shows "seek_result c ph C i"
proof -
  have "concat (drop i C) = concat (drop (i + 1) C)" using concat_drop [OF assms(3)] assms(2) by simp
  then show ?thesis using assms(1) unfolding seek_result_def by (metis add_leD1)
qed

lemma seek_loop_off:
  assumes "iter_off c ph C i" "i \<le> length C"
  shows "\<exists>c'. seek_loop c = Some c' \<and> seek_result c' ph C i"
  using assms
proof (induction "length C - i" arbitrary: i c)
  case 0
  have "i = length C" "m_ulBucketIndex (snd c) = i" using 0 by (simp_all add: iter_off_def)
  then show ?case using 0 iter_off_length [OF 0(2)] by (subst seek_loop.simps) (auto simp: seek_result_def)
next
  case (Suc n)
  then have i: "i < length C" by simp
  have loop: "seek_loop c = do { (fGoOn, c) \<leftarrow> iter_seek c; (if fGoOn then seek_loop c else Some c) }"
    using i Suc.prems iter_off_length [OF Suc.prems(1)] by (subst seek_loop.simps) (simp add: iter_off_def)
  show ?case
  proof (cases "C ! i = []")
    case True
    then obtain c' where c': "iter_seek c = Some (True, c')" "iter_off c' ph C (i + 1)"
      using iter_seek_step [OF Suc.prems(1) i] by auto
    have n: "n = length C - (i + 1)" "i + 1 \<le> length C" using Suc.hyps(2) i by simp_all
    obtain c'' where c'': "seek_loop c' = Some c''" "seek_result c'' ph C (i + 1)"
      using Suc.hyps(1) [OF n(1) c'(2) n(2)] by metis
    have "seek_result c'' ph C i" by (rule seek_result_Nil [OF c''(2) True i])
    then show ?thesis using c'(1) c''(1) by (simp add: loop)
  next
    case False
    then obtain c' where c': "iter_seek c = Some (False, c')" "iter_at c' ph C i 0"
      using iter_seek_step [OF Suc.prems(1) i] by auto
    then have "seek_result c' ph C i"
      using False concat_drop [OF i] by (auto simp: seek_result_def rest_at_def)
    then show ?thesis by (simp add: loop c'(1))
  qed
qed

lemma iter_InsertInvalidElement_off:
  assumes "iter_off c ph C i" "i \<le> length C"
  shows "\<exists>c'. iter_InsertInvalidElement c = Some c' \<and> seek_result c' ph C i"
proof -
  have "(fst c, (snd c)\<lparr>m_fInvalidInserted := False\<rparr>) = c" using assms(1) by (cases c) (simp add: iter_off_def)
  then show ?thesis using seek_loop_off [OF assms] by (simp add: iter_InsertInvalidElement_def)
qed

section \<open>Advancing\<close>

lemma iter_AdvanceInvalidElement_at:
  assumes at: "iter_at c ph C i k"
  shows "\<exists>c'. iter_AdvanceInvalidElement c = Some c' \<and>
     (if k + 1 < length (C ! i) then iter_at c' ph C i (k + 1) else iter_off c' ph C i)"
proof -
  obtain s it where c [simp]: "c = (s, it)" by (cases c)
  let ?B = "C[i := take k (C ! i) @ ph # drop k (C ! i)]" and ?s = "acc_Remove i ph s"
  have b: "iter_base c ph C" and i: "i < length C" and k: "k \<le> length (C ! i)" and R: "ht_repr s ?B"
    and it: "m_ulBucketIndex it = i" "m_fInvalidInserted it" "m_ptInvalid it = ph"
    using at by (simp_all add: iter_at_def iter_base_def)
  have sz: "i < m_cSize (snd s)" using ht_reprD(2) [OF R] i by simp
  have Bi: "?B ! i = take k (C ! i) @ ph # drop k (C ! i)" using i by simp
  have pt: "iter_PtFirstValid s (Some ph) = Some (hd_opt (drop k (C ! i)))"
    using first_valid_bucket(2) [OF R sz Bi] iter_baseD(3) [OF b i, of k] by simp
  have R': "ht_repr ?s C"
    using acc_Remove_repr [OF R sz Bi] by simp
  have sz': "i < m_cSize (snd ?s)" using sz by (simp add: acc_Remove_def)
  have b': "iter_base (?s, it\<lparr>m_fInvalidInserted := f\<rparr>) ph C" for f
    using b by (simp add: iter_base_def acc_Remove_def)
  show ?thesis
  proof (cases "drop k (C ! i)")
    case Nil
    then show ?thesis using b' R' it pt
      by (auto simp: iter_AdvanceInvalidElement_def Let_def iter_off_def)
  next
    case (Cons x xs)
    then have sp: "C ! i = take k (C ! i) @ x # xs" by (metis append_take_drop_id)
    then have len: "length (C ! i) = k + 1 + length xs" using k
      by (metis length_append length_take min_absorb2 length_Cons add.assoc plus_1_eq_Suc)
    have tk: "take (k + 1) (C ! i) = take k (C ! i) @ [x]" and dr: "drop (k + 1) (C ! i) = xs"
      using k by (subst sp, simp)+
    have nx: "cl_PtNext (fst ?s) x = hd_opt xs"
      by (rule first_valid_bucket(3) [OF R' sz' sp])
    have R2: "ht_repr (acc_AppendAfter i ph x ?s) (C[i := take k (C ! i) @ x # ph # xs])"
      using acc_AppendAfter_repr [OF R' sz' _ sp, of ph] b by (simp add: iter_base_def)
    have b2: "iter_base (acc_AppendAfter i ph x ?s, it\<lparr>m_fInvalidInserted := True\<rparr>) ph C"
      using b by (simp add: iter_base_def acc_Remove_def acc_AppendAfter_def)
    show ?thesis using b' b2 R' R2 it pt Cons nx tk dr len i
      by (cases xs) (auto simp: iter_AdvanceInvalidElement_def Let_def iter_off_def iter_at_def)
  qed
qed

section \<open>The order of iteration\<close>

text \<open>The elements from the current one on.\<close>

definition iter_pos :: "('t, 'k) iter_state \<Rightarrow> 't \<Rightarrow> 't list list \<Rightarrow> 't list \<Rightarrow> bool" where
  "iter_pos c ph C R \<longleftrightarrow> (\<exists>i k. iter_at c ph C i k \<and> k < length (C ! i) \<and> R = rest_at C i k)"

definition advanced :: "bool \<times> ('t, 'k) iter_state \<Rightarrow> 't \<Rightarrow> 't list list \<Rightarrow> 't list \<Rightarrow> bool" where
  "advanced r ph C R \<longleftrightarrow>
     (if R = [] then \<not> fst r \<and> iter_off (snd r) ph C (length C) else fst r \<and> iter_pos (snd r) ph C R)"

lemma advanced_at:
  assumes "iter_at c ph C i k" "k < length (C ! i)"
  shows "advanced (m_ulBucketIndex (snd c) < m_cSize (snd (fst c)), c) ph C (rest_at C i k)"
proof -
  have "m_ulBucketIndex (snd c) < m_cSize (snd (fst c))"
    using assms(1) iter_at_length [OF assms(1)] by (simp add: iter_at_def)
  moreover have "iter_pos c ph C (rest_at C i k)" using assms unfolding iter_pos_def by blast
  moreover have "rest_at C i k \<noteq> []" using assms(2) by (simp add: rest_at_def)
  ultimately show ?thesis by (simp add: advanced_def)
qed

lemma advanced_seek:
  assumes "seek_result c ph C i"
  shows "advanced (m_ulBucketIndex (snd c) < m_cSize (snd (fst c)), c) ph C (concat (drop i C))"
  using assms unfolding seek_result_def
proof (elim disjE exE conjE)
  fix j assume j: "C ! j \<noteq> []" "concat (drop i C) = rest_at C j 0" "iter_at c ph C j 0"
  then show ?thesis using advanced_at [OF j(3)] by simp
next
  assume "concat (drop i C) = []" "iter_off c ph C (length C)"
  then show ?thesis using iter_off_length [of c ph C "length C"] by (simp add: advanced_def iter_off_def)
qed

lemma iter_FAdvance_first:
  assumes "iter_off c ph C 0"
  shows "\<exists>r. iter_FAdvance c = Some r \<and> advanced r ph C (concat C)"
proof -
  obtain c' where c': "iter_InsertInvalidElement c = Some c'" "seek_result c' ph C 0"
    using iter_InsertInvalidElement_off [OF assms] by auto
  then show ?thesis using advanced_seek [OF c'(2)] assms
    by (simp add: iter_FAdvance_def iter_off_def)
qed

lemma rest_at_step:
  "k < length (C ! i) \<Longrightarrow> rest_at C i k = C ! i ! k # (if k + 1 < length (C ! i) then rest_at C i (k + 1) else concat (drop (i + 1) C))"
  by (auto simp: rest_at_def Cons_nth_drop_Suc [symmetric])

lemma iter_FAdvance_pos:
  assumes "iter_pos c ph C (x # R)"
  shows "\<exists>r. iter_FAdvance c = Some r \<and> advanced r ph C R"
proof -
  obtain i k where at: "iter_at c ph C i k" "k < length (C ! i)" "x # R = rest_at C i k"
    using assms by (auto simp: iter_pos_def)
  obtain c' where c': "iter_AdvanceInvalidElement c = Some c'"
    "if k + 1 < length (C ! i) then iter_at c' ph C i (k + 1) else iter_off c' ph C i"
    using iter_AdvanceInvalidElement_at [OF at(1)] by auto
  have ins: "m_fInvalidInserted (snd c)" and i: "i < length C" using at(1) by (simp_all add: iter_at_def)
  show ?thesis
  proof (cases "k + 1 < length (C ! i)")
    case True
    then have at': "iter_at c' ph C i (k + 1)" and R: "R = rest_at C i (k + 1)"
      using c'(2) at(3) rest_at_step [OF at(2)] by simp_all
    then have "advanced (m_ulBucketIndex (snd c') < m_cSize (snd (fst c')), c') ph C R"
      using True advanced_at [OF at'] by simp
    moreover have "m_fInvalidInserted (snd c')" using at' by (simp add: iter_at_def)
    ultimately show ?thesis using ins c'(1) by (simp add: iter_FAdvance_def)
  next
    case False
    then have off: "iter_off c' ph C i" and R: "R = concat (drop (i + 1) C)"
      using c'(2) at(3) rest_at_step [OF at(2)] by simp_all
    have "iter_off (iter_next_bucket c') ph C (i + 1)"
      using off by (simp add: iter_off_def iter_next_bucket_def iter_base_def)
    then obtain c'' where c'': "iter_InsertInvalidElement (iter_next_bucket c') = Some c''"
      "seek_result c'' ph C (i + 1)"
      using iter_InsertInvalidElement_off [of "iter_next_bucket c'" ph C "i + 1"] i by auto
    moreover have "\<not> m_fInvalidInserted (snd c')" using off by (simp add: iter_off_def)
    ultimately show ?thesis using ins c'(1) advanced_seek [OF c''(2)] R by (simp add: iter_FAdvance_def)
  qed
qed

lemma iter_Pt_pos:
  assumes "iter_pos c ph C (x # R)"
  shows "iter_Pt c = Some (Some x)"
proof -
  obtain i k where at: "iter_at c ph C i k" "k < length (C ! i)" "x # R = rest_at C i k"
    using assms by (auto simp: iter_pos_def)
  let ?B = "C[i := take k (C ! i) @ ph # drop k (C ! i)]"
  have b: "iter_base c ph C" and i: "i < length C" and R: "ht_repr (fst c) ?B" and it: "m_ptInvalid (snd c) = ph"
    using at(1) by (simp_all add: iter_at_def iter_base_def)
  have sz: "i < m_cSize (snd (fst c))" using ht_reprD(2) [OF R] i by simp
  have Bi: "?B ! i = take k (C ! i) @ ph # drop k (C ! i)" using i by simp
  have "hd_opt (drop k (C ! i)) = Some x"
    using at(2,3) rest_at_step [OF at(2)] by (simp add: Cons_nth_drop_Suc [symmetric])
  then show ?thesis
    using first_valid_bucket(2) [OF R sz Bi] iter_baseD(3) [OF b i, of k] it by (simp add: iter_Pt_def)
qed

lemma iterate_pos:
  "iter_pos c ph C (x # R) \<Longrightarrow> \<exists>c'. iterate c = Some (R, c') \<and> iter_off c' ph C (length C)"
proof (induction R arbitrary: c x)
  case Nil
  then show ?case using iter_FAdvance_pos [OF Nil]
    by (subst iterate.simps) (auto simp: advanced_def)
next
  case (Cons y R)
  obtain c' where c': "iter_FAdvance c = Some (True, c')" "iter_pos c' ph C (y # R)"
    using iter_FAdvance_pos [OF Cons.prems] by (auto simp: advanced_def)
  obtain c'' where "iterate c' = Some (R, c'')" "iter_off c'' ph C (length C)"
    using Cons.IH [OF c'(2)] by auto
  then show ?case using c'(1) iter_Pt_pos [OF c'(2)] by (subst iterate.simps) simp
qed

lemma iterate_first:
  assumes "iter_off c ph C 0"
  shows "\<exists>c'. iterate c = Some (concat C, c') \<and> iter_off c' ph C (length C)"
proof -
  obtain f c' where c': "iter_FAdvance c = Some (f, c')" "advanced (f, c') ph C (concat C)"
    using iter_FAdvance_first [OF assms] by auto
  show ?thesis
  proof (cases "concat C")
    case Nil
    then show ?thesis using c' by (subst iterate.simps) (simp add: advanced_def)
  next
    case (Cons x R)
    then have p: "iter_pos c' ph C (x # R)" "f" using c'(2) by (simp_all add: advanced_def)
    obtain c'' where "iterate c' = Some (R, c'')" "iter_off c'' ph C (length C)"
      using iterate_pos [OF p(1)] by auto
    then show ?thesis using c'(1) iter_Pt_pos [OF p(1)] p(2) Cons by (subst iterate.simps) simp
  qed
qed

section \<open>Iterating while other clients change the table\<close>

text \<open>
  A run of one iterator among other clients: \<open>c_seeking\<close> is true inside the loop of
  \<open>InsertInvalidElement\<close>, between two of its critical sections; \<open>c_seen\<close> lists the elements
  \<open>Pt\<close> returned, \<open>c_read\<close> tells whether \<open>Pt\<close> was called since the last \<open>FAdvance\<close>, and
  \<open>c_used\<close> holds all elements that were ever in the table (an element is not inserted again
  after it was removed).
\<close>

record ('t, 'k) iter_conf =
  c_iter :: "('t, 'k) iter_state"
  c_seeking :: bool
  c_read :: bool
  c_seen :: "'t list"
  c_used :: "'t set"

abbreviation c_table :: "('t, 'k) iter_conf \<Rightarrow> ('t, 'k) ht_state" where
  "c_table cf \<equiv> fst (c_iter cf)"

abbreviation c_it :: "('t, 'k) iter_conf \<Rightarrow> 't sht_iter" where
  "c_it cf \<equiv> snd (c_iter cf)"

definition iter_start :: "'t \<Rightarrow> ('t, 'k) ht_state \<Rightarrow> ('t, 'k) iter_conf" where
  "iter_start ptInvalid s =
     \<lparr>c_iter = iter_new ptInvalid s, c_seeking = False, c_read = True, c_seen = [], c_used = ht_elems s\<rparr>"

text \<open>The parameter \<open>rm\<close> tells whether other clients may remove elements.\<close>

inductive iter_step :: "bool \<Rightarrow> ('t, 'k) iter_conf \<Rightarrow> ('t, 'k) iter_conf \<Rightarrow> bool" for rm where
  client_insert:
    "x \<notin> c_used cf \<Longrightarrow> x \<noteq> m_ptInvalid (c_it cf) \<Longrightarrow> FValid (snd (c_table cf)) (m_Key (snd (c_table cf)) x) \<Longrightarrow>
     iter_step rm cf (cf\<lparr>c_iter := (sht_Insert x (c_table cf), c_it cf), c_used := insert x (c_used cf)\<rparr>)"
| client_remove:
    "rm \<Longrightarrow> x \<in> ht_elems (c_table cf) \<Longrightarrow> x \<noteq> m_ptInvalid (c_it cf) \<Longrightarrow>
     iter_step rm cf (cf\<lparr>c_iter := (key_Remove (m_Key (snd (c_table cf)) x) x (c_table cf), c_it cf)\<rparr>)"
| advance_first:
    "\<not> c_seeking cf \<Longrightarrow> \<not> m_fInvalidInserted (c_it cf) \<Longrightarrow> m_ulBucketIndex (c_it cf) < m_cSize (snd (c_table cf)) \<Longrightarrow>
     iter_step rm cf (cf\<lparr>c_seeking := True\<rparr>)"
| advance_in_bucket:
    "\<not> c_seeking cf \<Longrightarrow> m_fInvalidInserted (c_it cf) \<Longrightarrow> c_read cf \<Longrightarrow>
     iter_AdvanceInvalidElement (c_iter cf) = Some c' \<Longrightarrow> m_fInvalidInserted (snd c') \<Longrightarrow>
     iter_step rm cf (cf\<lparr>c_iter := c', c_read := False\<rparr>)"
| advance_exhausted:
    "\<not> c_seeking cf \<Longrightarrow> m_fInvalidInserted (c_it cf) \<Longrightarrow> c_read cf \<Longrightarrow>
     iter_AdvanceInvalidElement (c_iter cf) = Some c' \<Longrightarrow> \<not> m_fInvalidInserted (snd c') \<Longrightarrow>
     iter_step rm cf (cf\<lparr>c_iter := iter_next_bucket c', c_seeking := True\<rparr>)"
| seek_on:
    "c_seeking cf \<Longrightarrow> m_ulBucketIndex (c_it cf) < m_cSize (snd (c_table cf)) \<Longrightarrow>
     iter_seek (c_iter cf) = Some (True, c') \<Longrightarrow>
     iter_step rm cf (cf\<lparr>c_iter := c'\<rparr>)"
| seek_found:
    "c_seeking cf \<Longrightarrow> m_ulBucketIndex (c_it cf) < m_cSize (snd (c_table cf)) \<Longrightarrow>
     iter_seek (c_iter cf) = Some (False, c') \<Longrightarrow>
     iter_step rm cf (cf\<lparr>c_iter := c', c_seeking := False, c_read := False\<rparr>)"
| seek_end:
    "c_seeking cf \<Longrightarrow> \<not> m_ulBucketIndex (c_it cf) < m_cSize (snd (c_table cf)) \<Longrightarrow>
     iter_step rm cf (cf\<lparr>c_seeking := False\<rparr>)"
| read:
    "\<not> c_seeking cf \<Longrightarrow> m_fInvalidInserted (c_it cf) \<Longrightarrow> \<not> c_read cf \<Longrightarrow>
     iter_Pt (c_iter cf) = Some pt \<Longrightarrow>
     iter_step rm cf (cf\<lparr>c_read := True, c_seen := c_seen cf @ (case pt of None \<Rightarrow> [] | Some x \<Rightarrow> [x])\<rparr>)"

abbreviation iter_run :: "bool \<Rightarrow> ('t, 'k) iter_conf \<Rightarrow> ('t, 'k) iter_conf \<Rightarrow> bool" where
  "iter_run rm \<equiv> (iter_step rm)\<^sup>*\<^sup>*"

text \<open>Where the elements of a run are: \<open>C\<close> are the buckets without the placeholder, which is in
  bucket \<open>i\<close> before the \<open>k\<close>-th element, or nowhere.  The elements that can still be returned
  are the ones after the current element, or from it on if it was not read.\<close>

definition pending :: "('t, 'k) iter_conf \<Rightarrow> 't list list \<Rightarrow> nat \<Rightarrow> 't set" where
  "pending cf C k =
     (let i = m_ulBucketIndex (c_it cf) in
      (if m_fInvalidInserted (c_it cf)
       then set (drop (if c_read cf then k + 1 else k) (C ! i)) \<union> set (concat (drop (i + 1) C))
       else set (concat (drop i C))))"

definition tbl :: "('t, 'k) iter_state \<Rightarrow> 't \<Rightarrow> 't list list \<Rightarrow> nat \<Rightarrow> 't list list" where
  "tbl c ph C k =
     (let i = m_ulBucketIndex (snd c) in
      if m_fInvalidInserted (snd c) then C[i := take k (C ! i) @ ph # drop k (C ! i)] else C)"

definition iter_in :: "('t, 'k) iter_state \<Rightarrow> 't \<Rightarrow> 't list list \<Rightarrow> nat \<Rightarrow> bool" where
  "iter_in c ph C k \<longleftrightarrow>
     (if m_fInvalidInserted (snd c) then iter_at c ph C (m_ulBucketIndex (snd c)) k
      else iter_off c ph C (m_ulBucketIndex (snd c)))"

definition conf_at :: "('t, 'k) iter_conf \<Rightarrow> 't \<Rightarrow> 't list list \<Rightarrow> nat \<Rightarrow> bool" where
  "conf_at cf ph C k \<longleftrightarrow>
     (m_fInvalidInserted (c_it cf) \<longrightarrow> \<not> c_seeking cf) \<and> iter_in (c_iter cf) ph C k
   \<and> (\<forall>j < length C. \<forall>x \<in> set (C ! j). UlBucketIndex (snd (c_table cf)) (m_Key (snd (c_table cf)) x) = j)
   \<and> set (concat C) \<union> set (c_seen cf) \<subseteq> c_used cf \<and> ph \<notin> c_used cf
   \<and> distinct (c_seen cf) \<and> set (c_seen cf) \<inter> pending cf C k = {}"

lemma conf_atD:
  assumes "conf_at cf ph C k"
  shows "m_fInvalidInserted (c_it cf) \<Longrightarrow> \<not> c_seeking cf" "iter_in (c_iter cf) ph C k"
    "j < length C \<Longrightarrow> x \<in> set (C ! j) \<Longrightarrow> UlBucketIndex (snd (c_table cf)) (m_Key (snd (c_table cf)) x) = j"
    "set (concat C) \<subseteq> c_used cf" "set (c_seen cf) \<subseteq> c_used cf" "ph \<notin> c_used cf"
    "distinct (c_seen cf)" "set (c_seen cf) \<inter> pending cf C k = {}"
  using assms unfolding conf_at_def by simp_all

lemma iter_in_iff:
  "iter_in c ph C k \<longleftrightarrow> iter_base c ph C \<and> ht_repr (fst c) (tbl c ph C k)
     \<and> (m_fInvalidInserted (snd c) \<longrightarrow> m_ulBucketIndex (snd c) < length C \<and> k \<le> length (C ! m_ulBucketIndex (snd c)))"
  by (auto simp: iter_in_def iter_at_def iter_off_def tbl_def Let_def)

lemma length_tbl [simp]: "length (tbl c ph C k) = length C"
  by (simp add: tbl_def Let_def)

lemma iter_in_length: "iter_in c ph C k \<Longrightarrow> m_cSize (snd (fst c)) = length C"
  using ht_reprD(2) [of "fst c" "tbl c ph C k"] by (simp add: iter_in_iff)

lemma tbl_nth: "j < length C \<Longrightarrow> tbl c ph C k ! j =
    (if m_fInvalidInserted (snd c) \<and> j = m_ulBucketIndex (snd c) then take k (C ! j) @ ph # drop k (C ! j) else C ! j)"
  by (auto simp: tbl_def Let_def nth_list_update)

lemma tbl_elem: "x \<in> set (tbl c ph C k ! j) \<Longrightarrow> j < length C \<Longrightarrow> x \<noteq> ph \<Longrightarrow> x \<in> set (C ! j)"
  by (auto simp: tbl_nth dest: in_set_takeD in_set_dropD split: if_splits)

text \<open>An insertion in bucket \<open>j\<close>, and a removal from it, seen without the placeholder.\<close>

lemma tbl_insert:
  assumes "j < length C" "snd c' = snd c"
  shows "(tbl c ph C k)[j := x # tbl c ph C k ! j]
       = tbl c' ph (C[j := x # C ! j]) (if j = m_ulBucketIndex (snd c) then k + 1 else k)"
  using assms by (auto simp: tbl_nth) (auto simp: tbl_def Let_def list_update_swap)

lemma iter_base_update:
  assumes "iter_base c ph C" "j < length C" "snd c' = snd c"
    and "FValid (snd (fst c')) = FValid (snd (fst c))" "m_Key (snd (fst c')) = m_Key (snd (fst c))"
    and "distinct ys" "\<And>x. x \<in> set ys \<Longrightarrow> x \<in> set (C ! j) \<or> x \<notin> set (concat C) \<and> x \<noteq> ph \<and> FValid (snd (fst c)) (m_Key (snd (fst c)) x)"
  shows "iter_base c' ph (C[j := ys])"
proof -
  have d: "distinct (concat C)" using assms(1) by (simp add: iter_base_def)
  have "distinct (concat (C[j := ys]))"
    using assms(7) by (intro distinct_concat_update [OF d assms(2,6)]) blast
  moreover have "x \<in> set (concat C) \<or> x \<noteq> ph \<and> FValid (snd (fst c)) (m_Key (snd (fst c)) x)"
    if "x \<in> set (concat (C[j := ys]))" for x
    using that assms(7) bucket_subset [OF assms(2)] unfolding set_concat_update [OF d assms(2)] by blast
  ultimately show ?thesis
    using assms(1,3-5) unfolding iter_base_def by (metis (no_types, lifting))
qed

lemma iter_in_insert:
  assumes "iter_in c ph C k" "x \<notin> set (concat C)" "x \<noteq> ph" "FValid (snd (fst c)) (m_Key (snd (fst c)) x)"
  defines "j \<equiv> UlBucketIndex (snd (fst c)) (m_Key (snd (fst c)) x)"
  shows "j < length C"
    "iter_in (sht_Insert x (fst c), snd c) ph (C[j := x # C ! j]) (if j = m_ulBucketIndex (snd c) then k + 1 else k)"
proof -
  let ?c = "(sht_Insert x (fst c), snd c)"
  have R: "ht_repr (fst c) (tbl c ph C k)" and b: "iter_base c ph C" using assms(1) by (simp_all add: iter_in_iff)
  have j: "j < m_cSize (snd (fst c))" unfolding j_def by (rule UlBucketIndex_lt [OF R])
  then show jC: "j < length C" using iter_in_length [OF assms(1)] by simp
  have out: "x \<notin> set (concat (tbl c ph C k))"
    using assms(2,3) tbl_elem unfolding set_concat_nth length_tbl by metis
  have ins: "sht_Insert x (fst c) = acc_Prepend j x (fst c)"
    by (simp add: sht_Insert_def acc_Prepend_def j_def)
  have "ht_repr (fst ?c) (tbl ?c ph (C[j := x # C ! j]) (if j = m_ulBucketIndex (snd c) then k + 1 else k))"
    using acc_Prepend_repr [OF R j out] tbl_insert [OF jC, of ?c c] by (simp add: ins)
  moreover have "iter_base ?c ph (C[j := x # C ! j])"
  proof (rule iter_base_update [OF b jC])
    show "distinct (x # C ! j)"
      using b assms(2) bucket_subset [OF jC] distinct_concat_nth(1) [OF _ jC] by (auto simp: iter_base_def)
  qed (use assms(2-4) in \<open>auto simp: ins acc_Prepend_def\<close>)
  ultimately show "iter_in ?c ph (C[j := x # C ! j]) (if j = m_ulBucketIndex (snd c) then k + 1 else k)"
    using assms(1) by (auto simp: iter_in_iff nth_list_update)
qed

lemma tbl_remove:
  assumes "j < length C" "snd c' = snd c" "C ! j = as @ x # bs"
  shows "\<exists>us vs. tbl c ph C k ! j = us @ x # vs
    \<and> (tbl c ph C k)[j := us @ vs]
       = tbl c' ph (C[j := as @ bs]) (if j = m_ulBucketIndex (snd c) \<and> length as < k then k - 1 else k)"
proof (cases "m_fInvalidInserted (snd c) \<and> j = m_ulBucketIndex (snd c)")
  case False
  then show ?thesis using assms
    by (intro exI [of _ as] exI [of _ bs]) (auto simp: tbl_nth tbl_def Let_def list_update_swap)
next
  case True
  show ?thesis
  proof (cases "length as < k")
    case less: True
    then obtain m where k: "k = length as + Suc m" by (metis less_iff_Suc_add add_Suc_right)
    show ?thesis using assms True less
      by (intro exI [of _ as] exI [of _ "take m bs @ ph # drop m bs"]) (auto simp: tbl_def Let_def k)
  next
    case False
    then show ?thesis using assms True
      by (intro exI [of _ "take k as @ ph # drop k as"] exI [of _ bs]) (auto simp: tbl_def Let_def)
  qed
qed

lemma iter_in_remove:
  assumes "iter_in c ph C k" "j < length C" "C ! j = as @ x # bs"
    and "UlBucketIndex (snd (fst c)) (m_Key (snd (fst c)) x) = j"
  shows "iter_in (key_Remove (m_Key (snd (fst c)) x) x (fst c), snd c) ph (C[j := as @ bs])
           (if j = m_ulBucketIndex (snd c) \<and> length as < k then k - 1 else k)"
proof -
  let ?c = "(key_Remove (m_Key (snd (fst c)) x) x (fst c), snd c)"
  have R: "ht_repr (fst c) (tbl c ph C k)" and b: "iter_base c ph C" using assms(1) by (simp_all add: iter_in_iff)
  have j: "j < m_cSize (snd (fst c))" using assms(2) iter_in_length [OF assms(1)] by simp
  obtain us vs where uv: "tbl c ph C k ! j = us @ x # vs"
    "(tbl c ph C k)[j := us @ vs]
       = tbl ?c ph (C[j := as @ bs]) (if j = m_ulBucketIndex (snd c) \<and> length as < k then k - 1 else k)"
    using tbl_remove [OF assms(2) _ assms(3), of ?c c] by (metis snd_conv)
  have "ht_repr (fst ?c) (tbl ?c ph (C[j := as @ bs]) (if j = m_ulBucketIndex (snd c) \<and> length as < k then k - 1 else k))"
    using acc_Remove_repr [OF R j uv(1)] by (simp add: uv(2) key_Remove_def assms(4))
  moreover have "iter_base ?c ph (C[j := as @ bs])"
  proof (rule iter_base_update [OF b assms(2)])
    show "distinct (as @ bs)"
      using b distinct_concat_nth(1) [OF _ assms(2)] assms(3) by (auto simp: iter_base_def)
  qed (use assms(3) in \<open>auto simp: key_Remove_def acc_Remove_def\<close>)
  ultimately show ?thesis
    using assms(1-3) by (cases "j = m_ulBucketIndex (snd c)") (auto simp: iter_in_iff)
qed

text \<open>How the pending elements change.\<close>

lemma set_drop_remove: "set (drop n (as @ bs)) \<subseteq> set (drop n (as @ x # bs))"
  by (cases "n \<le> length as") (auto simp: drop_Cons' dest: in_set_dropD split: if_splits
      intro: set_drop_subset_set_drop [THEN subsetD, rotated])

lemma concat_drop_update:
  assumes "j < length C"
  shows "set (concat (drop n (C[j := ys]))) \<subseteq> set (concat (drop n C)) \<union> (set ys - set (C ! j))"
    and "j < n \<Longrightarrow> drop n (C[j := ys]) = drop n C"
    and "set ys \<subseteq> set (C ! j) \<Longrightarrow> set (concat (drop n (C[j := ys]))) \<subseteq> set (concat (drop n C))"
    and "set (C ! j) \<subseteq> set ys \<Longrightarrow> set (concat (drop n C)) \<subseteq> set (concat (drop n (C[j := ys])))"
proof -
  have *: "set (concat (drop n (C[j := ys]))) \<subseteq> set (concat (drop n C)) \<union> (set ys - set (C ! j))
    \<and> (set ys \<subseteq> set (C ! j) \<longrightarrow> set (concat (drop n (C[j := ys]))) \<subseteq> set (concat (drop n C)))
    \<and> (set (C ! j) \<subseteq> set ys \<longrightarrow> set (concat (drop n C)) \<subseteq> set (concat (drop n (C[j := ys]))))"
  proof (cases "n \<le> j")
    case True
    then have m: "j - n < length (drop n C)" and nth: "drop n C ! (j - n) = C ! j" using assms by simp_all
    obtain as bs where "drop n C = as @ C ! j # bs" "(drop n C)[j - n := ys] = as @ ys # bs"
      using split_at [OF m] nth by metis
    then show ?thesis using True by (simp add: drop_update_swap) blast
  qed (simp add: drop_update_cancel)
  then show "set (concat (drop n (C[j := ys]))) \<subseteq> set (concat (drop n C)) \<union> (set ys - set (C ! j))"
    "set ys \<subseteq> set (C ! j) \<Longrightarrow> set (concat (drop n (C[j := ys]))) \<subseteq> set (concat (drop n C))"
    "set (C ! j) \<subseteq> set ys \<Longrightarrow> set (concat (drop n C)) \<subseteq> set (concat (drop n (C[j := ys])))" by blast+
  show "j < n \<Longrightarrow> drop n (C[j := ys]) = drop n C" by (simp add: drop_update_cancel)
qed

lemma pending_insert:
  assumes "j < length C" "c_it cf' = c_it cf" "c_read cf' = c_read cf"
    and "k' = (if j = m_ulBucketIndex (c_it cf) then k + 1 else k)"
  shows "pending cf C k \<subseteq> pending cf' (C[j := x # C ! j]) k'"
    and "pending cf' (C[j := x # C ! j]) k' \<subseteq> insert x (pending cf C k)"
proof -
  have up: "set (concat (drop n (C[j := x # C ! j]))) \<subseteq> insert x (set (concat (drop n C)))" for n
    using concat_drop_update(1) [OF assms(1), of n "x # C ! j"] by (auto simp del: set_concat)
  have down: "set (concat (drop n C)) \<subseteq> set (concat (drop n (C[j := x # C ! j])))" for n
    using concat_drop_update(4) [OF assms(1)] by (simp add: subset_insertI)
  show "pending cf C k \<subseteq> pending cf' (C[j := x # C ! j]) k'"
    "pending cf' (C[j := x # C ! j]) k' \<subseteq> insert x (pending cf C k)"
    using up [of "m_ulBucketIndex (c_it cf)"] up [of "m_ulBucketIndex (c_it cf) + 1"]
      down [of "m_ulBucketIndex (c_it cf)"] down [of "m_ulBucketIndex (c_it cf) + 1"] assms
    by (cases "j = m_ulBucketIndex (c_it cf)"; auto simp: pending_def Let_def simp del: set_concat)+
qed

lemma pending_remove:
  assumes "j < length C" "c_it cf' = c_it cf" "c_read cf' = c_read cf" "C ! j = as @ x # bs"
    and "k' = (if j = m_ulBucketIndex (c_it cf) \<and> length as < k then k - 1 else k)"
  shows "pending cf' (C[j := as @ bs]) k' \<subseteq> pending cf C k"
proof -
  have down: "set (concat (drop n (C[j := as @ bs]))) \<subseteq> set (concat (drop n C))" for n
    using concat_drop_update(3) [OF assms(1), of "as @ bs" n] assms(4) by auto
  have part: "set (drop (n - 1) (as @ bs)) \<subseteq> set (drop n (as @ x # bs))" if "length as < n" for n
    using less_imp_Suc_add [OF that] by auto
  show ?thesis
    using down [of "m_ulBucketIndex (c_it cf)"] down [of "m_ulBucketIndex (c_it cf) + 1"] assms
      part [of k] part [of "k + 1"] set_drop_remove [of k as bs x] set_drop_remove [of "k + 1" as bs x]
    by (cases "j = m_ulBucketIndex (c_it cf)"; cases "length as < k")
       (auto simp: pending_def Let_def simp del: set_concat drop_append)
qed

text \<open>The elements seen or pending are all that count: a step of another client does not make a seen
  element pending, a step of the iterator keeps both together.\<close>

definition step_ok :: "bool \<Rightarrow> ('t, 'k) iter_conf \<Rightarrow> 't list list \<Rightarrow> nat \<Rightarrow> ('t, 'k) iter_conf \<Rightarrow> 't \<Rightarrow> bool" where
  "step_ok rm cf C k cf' ph \<longleftrightarrow>
     (\<exists>C' k'. conf_at cf' ph C' k'
        \<and> (\<not> rm \<longrightarrow> set (c_seen cf) \<union> pending cf C k \<subseteq> set (c_seen cf') \<union> pending cf' C' k'))"

lemma step_insert:
  assumes "conf_at cf ph C k" "x \<notin> c_used cf" "x \<noteq> ph" "FValid (snd (c_table cf)) (m_Key (snd (c_table cf)) x)"
  shows "step_ok rm cf C k (cf\<lparr>c_iter := (sht_Insert x (c_table cf), c_it cf), c_used := insert x (c_used cf)\<rparr>) ph"
proof -
  let ?cf = "cf\<lparr>c_iter := (sht_Insert x (c_table cf), c_it cf), c_used := insert x (c_used cf)\<rparr>"
  define j where "j = UlBucketIndex (snd (c_table cf)) (m_Key (snd (c_table cf)) x)"
  define k' where "k' = (if j = m_ulBucketIndex (c_it cf) then k + 1 else k)"
  let ?C = "C[j := x # C ! j]"
  note c = conf_atD [OF assms(1)]
  note b = c(2)
  have xC: "x \<notin> set (concat C)" using c(4) assms(2) by blast
  note ins = iter_in_insert [OF b xC assms(3,4), folded j_def, folded k'_def]
  have p: "pending cf C k \<subseteq> pending ?cf ?C k'" "pending ?cf ?C k' \<subseteq> insert x (pending cf C k)"
    by (rule pending_insert [OF ins(1)]; simp add: k'_def)+
  have pl: "\<forall>j' < length ?C. \<forall>y \<in> set (?C ! j'). UlBucketIndex (snd (c_table cf)) (m_Key (snd (c_table cf)) y) = j'"
    using assms(1) ins(1) j_def by (auto simp: conf_at_def nth_list_update)
  have "set (concat ?C) \<subseteq> insert x (set (concat C))"
    using set_concat_update [of C j] b ins(1) bucket_subset [OF ins(1)]
    by (auto simp: iter_in_iff iter_base_def simp del: set_concat)
  moreover have "set (c_seen cf) \<inter> pending ?cf ?C k' = {}"
    using p(2) c(5,8) assms(2) by blast
  ultimately have "conf_at ?cf ph ?C k'"
    using assms(1,3) ins(2) pl unfolding conf_at_def
    by (auto simp: sht_Insert_def simp del: set_concat)
  then show ?thesis using p(1) unfolding step_ok_def by auto
qed

lemma step_remove:
  assumes "conf_at cf ph C k" "x \<in> ht_elems (c_table cf)" "x \<noteq> ph" "rm"
  shows "step_ok rm cf C k (cf\<lparr>c_iter := (key_Remove (m_Key (snd (c_table cf)) x) x (c_table cf), c_it cf)\<rparr>) ph"
proof -
  let ?cf = "cf\<lparr>c_iter := (key_Remove (m_Key (snd (c_table cf)) x) x (c_table cf), c_it cf)\<rparr>"
  note c = conf_atD [OF assms(1)]
  note b = c(2)
  have "x \<in> set (concat (tbl (c_iter cf) ph C k))"
    using assms(2) ht_elems_repr [of "c_table cf" "tbl (c_iter cf) ph C k"] b unfolding iter_in_iff by metis
  then obtain j where j: "j < length C" "x \<in> set (C ! j)"
    using assms(3) tbl_elem unfolding set_concat_nth length_tbl by metis
  then obtain as bs where xs: "C ! j = as @ x # bs" by (meson split_list)
  define k' where "k' = (if j = m_ulBucketIndex (c_it cf) \<and> length as < k then k - 1 else k)"
  let ?C = "C[j := as @ bs]"
  have ix: "UlBucketIndex (snd (c_table cf)) (m_Key (snd (c_table cf)) x) = j"
    by (rule c(3) [OF j])
  note rem = iter_in_remove [OF b j(1) xs ix, folded k'_def]
  have p: "pending ?cf ?C k' \<subseteq> pending cf C k"
    by (rule pending_remove [OF j(1) _ _ xs]) (simp_all add: k'_def)
  have pl: "\<forall>j' < length ?C. \<forall>y \<in> set (?C ! j'). UlBucketIndex (snd (c_table cf)) (m_Key (snd (c_table cf)) y) = j'"
    using assms(1) j(1) xs by (auto simp: conf_at_def nth_list_update)
  have "set (concat ?C) \<subseteq> set (concat C)"
    using concat_drop_update(3) [OF j(1), of "as @ bs" 0] xs by (auto simp del: set_concat)
  moreover have "set (c_seen cf) \<inter> pending ?cf ?C k' = {}"
    using p c(8) by blast
  ultimately have "conf_at ?cf ph ?C k'"
    using assms(1) rem pl unfolding conf_at_def
    by (auto simp: key_Remove_def acc_Remove_def simp del: set_concat)
  then show ?thesis using assms(4) unfolding step_ok_def by auto
qed

text \<open>The iterator's own steps.\<close>

lemma iter_seek_keys:
  "iter_seek c = Some (f, c') \<Longrightarrow>
     UlBucketIndex (snd (fst c')) = UlBucketIndex (snd (fst c)) \<and> m_Key (snd (fst c')) = m_Key (snd (fst c))"
  by (auto simp: iter_seek_def Let_def acc_PrependBefore_def bind_eq_Some_conv split: prod.splits option.splits)

lemma iter_AdvanceInvalidElement_keys:
  "iter_AdvanceInvalidElement c = Some c' \<Longrightarrow>
     UlBucketIndex (snd (fst c')) = UlBucketIndex (snd (fst c)) \<and> m_Key (snd (fst c')) = m_Key (snd (fst c))"
  by (auto simp: iter_AdvanceInvalidElement_def Let_def acc_Remove_def acc_AppendAfter_def bind_eq_Some_conv
      split: prod.splits option.splits if_splits)

lemma iter_Pt_at:
  assumes "iter_at c ph C i k"
  shows "iter_Pt c = Some (hd_opt (drop k (C ! i)))"
proof -
  let ?B = "C[i := take k (C ! i) @ ph # drop k (C ! i)]"
  have b: "iter_base c ph C" and i: "i < length C" and R: "ht_repr (fst c) ?B" and it: "m_ptInvalid (snd c) = ph"
    using assms by (simp_all add: iter_at_def iter_base_def)
  have sz: "i < m_cSize (snd (fst c))" using ht_reprD(2) [OF R] i by simp
  have Bi: "?B ! i = take k (C ! i) @ ph # drop k (C ! i)" using i by simp
  show ?thesis
    using first_valid_bucket(2) [OF R sz Bi] iter_baseD(3) [OF b i, of k] it by (simp add: iter_Pt_def)
qed

text \<open>A step of the iterator that keeps the table's elements, the seen and the pending ones.\<close>

lemma step_iter:
  assumes "conf_at cf ph C k" "iter_in (c_iter cf') ph C k'"
    and "m_fInvalidInserted (c_it cf') \<Longrightarrow> \<not> c_seeking cf'"
    and "UlBucketIndex (snd (c_table cf')) = UlBucketIndex (snd (c_table cf))"
    and "m_Key (snd (c_table cf')) = m_Key (snd (c_table cf))"
    and "c_used cf' = c_used cf" "c_seen cf' = c_seen cf" "pending cf' C k' = pending cf C k"
  shows "step_ok rm cf C k cf' ph"
proof -
  have "conf_at cf' ph C k'" using assms unfolding conf_at_def by simp
  then show ?thesis using assms(7,8) unfolding step_ok_def by (intro exI [of _ C] exI [of _ k']) simp
qed

lemma pending_off:
  "\<not> m_fInvalidInserted (c_it cf) \<Longrightarrow> pending cf C k = set (concat (drop (m_ulBucketIndex (c_it cf)) C))"
  by (simp add: pending_def)

lemma pending_on:
  "m_fInvalidInserted (c_it cf) \<Longrightarrow> m_ulBucketIndex (c_it cf) = i \<Longrightarrow> pending cf C k =
     set (drop (if c_read cf then k + 1 else k) (C ! i)) \<union> set (concat (drop (i + 1) C))"
  by (simp add: pending_def Let_def)

lemma step_seek:
  assumes conf: "conf_at cf ph C k" and s: "c_seeking cf" "m_ulBucketIndex (c_it cf) < m_cSize (snd (c_table cf))"
    and seek: "iter_seek (c_iter cf) = Some (f, c')"
  shows "step_ok rm cf C k (if f then cf\<lparr>c_iter := c'\<rparr>
            else cf\<lparr>c_iter := c', c_seeking := False, c_read := False\<rparr>) ph"
proof -
  let ?i = "m_ulBucketIndex (c_it cf)"
  note c = conf_atD [OF conf]
  have ni: "\<not> m_fInvalidInserted (c_it cf)" using c(1) s(1) by blast
  then have off: "iter_off (c_iter cf) ph C ?i" using c(2) by (simp add: iter_in_def)
  have i: "?i < length C" using s(2) iter_off_length [OF off] by simp
  have st: "if C ! ?i = [] then f \<and> iter_off c' ph C (?i + 1) else \<not> f \<and> iter_at c' ph C ?i 0"
    using iter_seek_step [OF off i] seek by (auto split: if_splits)
  note keys = iter_seek_keys [OF seek]
  have "iter_in c' ph C 0"
    using st by (auto simp: iter_in_def iter_at_def iter_off_def split: if_splits)
  moreover have "pending (if f then cf\<lparr>c_iter := c'\<rparr>
      else cf\<lparr>c_iter := c', c_seeking := False, c_read := False\<rparr>) C 0 = pending cf C k"
    using st concat_drop [OF i] ni
    by (auto simp: pending_off pending_on [where i = ?i] iter_off_def iter_at_def split: if_splits)
  ultimately show ?thesis
    using st keys s(1) by (intro step_iter [OF conf, where k' = 0]) (auto simp: iter_off_def split: if_splits)
qed

lemma step_advance:
  assumes conf: "conf_at cf ph C k" and s: "m_fInvalidInserted (c_it cf)" "c_read cf"
    and adv: "iter_AdvanceInvalidElement (c_iter cf) = Some c'"
  shows "step_ok rm cf C k (if m_fInvalidInserted (snd c') then cf\<lparr>c_iter := c', c_read := False\<rparr>
            else cf\<lparr>c_iter := iter_next_bucket c', c_seeking := True\<rparr>) ph"
proof -
  let ?i = "m_ulBucketIndex (c_it cf)"
  note c = conf_atD [OF conf]
  have at: "iter_at (c_iter cf) ph C ?i k" using c(2) s(1) by (simp add: iter_in_def)
  have st: "if k + 1 < length (C ! ?i) then iter_at c' ph C ?i (k + 1) else iter_off c' ph C ?i"
    using iter_AdvanceInvalidElement_at [OF at] adv by (auto split: if_splits)
  note keys = iter_AdvanceInvalidElement_keys [OF adv]
  show ?thesis
  proof (cases "k + 1 < length (C ! ?i)")
    case True
    then have at': "iter_at c' ph C ?i (k + 1)" using st by simp
    then have f: "m_fInvalidInserted (snd c')" "m_ulBucketIndex (snd c') = ?i" by (simp_all add: iter_at_def)
    show ?thesis
      using at' f keys s c(1)
      by (intro step_iter [OF conf, where k' = "k + 1"]) (simp_all add: iter_in_def pending_on [where i = ?i])
  next
    case False
    then have off: "iter_off c' ph C ?i" using st by simp
    then have off': "iter_off (iter_next_bucket c') ph C (?i + 1)" and f: "\<not> m_fInvalidInserted (snd c')"
      by (simp_all add: iter_off_def iter_next_bucket_def iter_base_def)
    show ?thesis
      using off' f keys s False
      by (intro step_iter [OF conf, where k' = 0])
         (auto simp: iter_in_def iter_off_def pending_on [where i = ?i] pending_off iter_next_bucket_def)
  qed
qed

lemma hd_opt_sets:
  "set xs = set (case hd_opt xs of None \<Rightarrow> [] | Some x \<Rightarrow> [x]) \<union> set (tl xs)"
  "set (case hd_opt xs of None \<Rightarrow> [] | Some x \<Rightarrow> [x]) \<subseteq> set xs"
  "distinct xs \<Longrightarrow> set (case hd_opt xs of None \<Rightarrow> [] | Some x \<Rightarrow> [x]) \<inter> set (tl xs) = {}"
  by (cases xs; simp)+

lemma step_read:
  assumes conf: "conf_at cf ph C k" and s: "m_fInvalidInserted (c_it cf)" "\<not> c_read cf" "iter_Pt (c_iter cf) = Some pt"
  shows "step_ok rm cf C k
    (cf\<lparr>c_read := True, c_seen := c_seen cf @ (case pt of None \<Rightarrow> [] | Some x \<Rightarrow> [x])\<rparr>) ph"
    (is "step_ok rm cf C k ?cf ph")
proof -
  let ?i = "m_ulBucketIndex (c_it cf)"
  note c = conf_atD [OF conf]
  have at: "iter_at (c_iter cf) ph C ?i k" using c(2) s(1) by (simp add: iter_in_def)
  have i: "?i < length C" and d: "distinct (concat C)" using at by (simp_all add: iter_at_def iter_base_def)
  have pt: "pt = hd_opt (drop k (C ! ?i))" using iter_Pt_at [OF at] s(3) by simp
  have p: "pending cf C k = set (drop k (C ! ?i)) \<union> set (concat (drop (?i + 1) C))"
    "pending ?cf C k = set (drop (k + 1) (C ! ?i)) \<union> set (concat (drop (?i + 1) C))"
    using s(1,2) by (simp_all add: pending_on [where i = ?i])
  have un: "pending cf C k = set (case pt of None \<Rightarrow> [] | Some x \<Rightarrow> [x]) \<union> pending ?cf C k"
    and dis: "set (case pt of None \<Rightarrow> [] | Some x \<Rightarrow> [x]) \<inter> pending ?cf C k = {}"
  proof -
    have "distinct (concat (drop ?i C))"
      using d append_take_drop_id [of ?i C] by (metis concat_append distinct_append)
    then have "distinct (C ! ?i)" "set (C ! ?i) \<inter> set (concat (drop (?i + 1) C)) = {}"
      unfolding concat_drop [OF i] distinct_append by blast+
    then have dd: "distinct (drop k (C ! ?i))" "set (drop k (C ! ?i)) \<inter> set (concat (drop (?i + 1) C)) = {}"
      using set_drop_subset [of k "C ! ?i"] by (simp, blast)
    have tl: "drop (k + 1) (C ! ?i) = tl (drop k (C ! ?i))" by (simp add: drop_Suc tl_drop)
    show "pending cf C k = set (case pt of None \<Rightarrow> [] | Some x \<Rightarrow> [x]) \<union> pending ?cf C k"
      unfolding p(1) p(2) tl using hd_opt_sets(1) [of "drop k (C ! ?i)", folded pt] by (simp only: Un_assoc)
    show "set (case pt of None \<Rightarrow> [] | Some x \<Rightarrow> [x]) \<inter> pending ?cf C k = {}"
      unfolding p(2) tl using hd_opt_sets(2,3) [of "drop k (C ! ?i)", folded pt] dd by blast
  qed
  have sub: "set (case pt of None \<Rightarrow> [] | Some x \<Rightarrow> [x]) \<subseteq> set (concat C)"
    unfolding pt by (rule order_trans [OF hd_opt_sets(2) order_trans [OF set_drop_subset bucket_subset [OF i]]])
  have "distinct (case pt of None \<Rightarrow> [] | Some x \<Rightarrow> [x])" by (simp split: option.splits)
  then have "conf_at ?cf ph C k"
    using conf c(4,5,8) un dis sub unfolding conf_at_def by (auto simp del: set_concat)
  then show ?thesis using un unfolding step_ok_def by auto
qed

lemma step_same:
  assumes "conf_at cf ph C k" "m_fInvalidInserted (c_it cf) \<Longrightarrow> \<not> b"
  shows "step_ok rm cf C k (cf\<lparr>c_seeking := b\<rparr>) ph"
  using assms by (intro step_iter [OF assms(1), where k' = k]) (auto simp: conf_at_def pending_def)

lemma iter_step_ok:
  assumes "iter_step rm cf cf'" "conf_at cf ph C k"
  shows "step_ok rm cf C k cf' ph"
  using assms
proof (induction rule: iter_step.induct)
  case (client_insert x cf)
  have "m_ptInvalid (c_it cf) = ph"
    using conf_atD(2) [OF client_insert.prems] by (simp add: iter_in_iff iter_base_def)
  then show ?case using step_insert [OF client_insert.prems] client_insert.hyps by simp
next
  case (client_remove x cf)
  have "m_ptInvalid (c_it cf) = ph"
    using conf_atD(2) [OF client_remove.prems] by (simp add: iter_in_iff iter_base_def)
  then show ?case using step_remove [OF client_remove.prems] client_remove.hyps by simp
next
  case (advance_first cf)
  then show ?case by (intro step_same) simp_all
next
  case (advance_in_bucket cf c')
  then show ?case using step_advance [OF advance_in_bucket.prems, of c' rm] by simp
next
  case (advance_exhausted cf c')
  then show ?case using step_advance [OF advance_exhausted.prems, of c' rm] by simp
next
  case (seek_on cf c')
  then show ?case using step_seek [OF seek_on.prems, of True c' rm] by simp
next
  case (seek_found cf c')
  then show ?case using step_seek [OF seek_found.prems, of False c' rm] by simp
next
  case (seek_end cf)
  then show ?case by (intro step_same) simp_all
next
  case (read cf pt)
  then show ?case by (intro step_read)
qed

lemma iter_run_ok:
  assumes "iter_run rm cf cf'" "conf_at cf ph C k"
  shows "step_ok rm cf C k cf' ph"
  using assms(1)
proof (induction rule: rtranclp_induct)
  case base
  then show ?case using assms(2) unfolding step_ok_def by blast
next
  case (step cf1 cf2)
  obtain C1 k1 where 1: "conf_at cf1 ph C1 k1"
    "\<not> rm \<longrightarrow> set (c_seen cf) \<union> pending cf C k \<subseteq> set (c_seen cf1) \<union> pending cf1 C1 k1"
    using step.IH unfolding step_ok_def by blast
  show ?case using iter_step_ok [OF step.hyps(2) 1(1)] 1(2) unfolding step_ok_def by blast
qed

lemma iter_new_off:
  assumes "ht_ok key invalid hash s" "ph \<notin> ht_elems s" "ht_repr s B"
  shows "iter_off (iter_new ph s) ph B 0"
proof -
  from assms(1) have "ht_placed key invalid s B" and k: "m_Key (snd s) = key" "m_pkeyInvalid (snd s) = invalid" "m_pfuncEqual (snd s) = (=)"
    using ht_repr_unique [OF assms(3)] unfolding ht_ok_def by blast+
  then have v: "\<forall>x \<in> set (concat B). key x \<noteq> invalid"
    using ht_elem_place(2) [OF assms(3)] by blast
  have "ph \<notin> set (concat B)" using assms(2) ht_elems_repr [OF assms(3)] by metis
  moreover have "ht_repr (fst (iter_new ph s)) B"
    using assms(3) by (simp add: ht_repr_def iter_new_def Bucket_def split: prod.splits)
  ultimately show ?thesis
    using v k ht_reprD(4) [OF assms(3)]
    by (auto simp: iter_off_def iter_base_def iter_new_def FValid_def)
qed

lemma iter_start_at:
  assumes "ht_ok key invalid hash s" "ph \<notin> ht_elems s"
  obtains B where "conf_at (iter_start ph s) ph B 0" "pending (iter_start ph s) B 0 = ht_elems s"
proof -
  obtain B where B: "ht_repr s B" "ht_placed key invalid s B" "m_Key (snd s) = key"
    using assms(1) unfolding ht_ok_def by blast
  have el: "ht_elems s = set (concat B)" by (rule ht_elems_repr [OF B(1)])
  have off: "iter_off (iter_new ph s) ph B 0" by (rule iter_new_off [OF assms B(1)])
  have ix: "UlBucketIndex (snd (fst (iter_new ph s))) = UlBucketIndex (snd s)"
    by (simp add: iter_new_def UlBucketIndex_def [abs_def])
  have "UlBucketIndex (snd s) (m_Key (snd (fst (iter_new ph s))) x) = j" if "j < length B" "x \<in> set (B ! j)" for j x
  proof -
    have "x \<noteq> ph" using that assms(2) bucket_subset [OF that(1)] unfolding el by blast
    then show ?thesis using B(2,3) that ht_reprD(2) [OF B(1)] by (simp add: ht_placed_def iter_new_def)
  qed
  then have "conf_at (iter_start ph s) ph B 0"
    using off assms(2) ix unfolding el by (auto simp: conf_at_def iter_start_def iter_in_def iter_off_def iter_new_def el)
  moreover have "pending (iter_start ph s) B 0 = ht_elems s"
    unfolding el by (simp add: pending_def iter_start_def iter_new_def)
  ultimately show ?thesis by (rule that)
qed

section \<open>Properties\<close>

text \<open>C6 However other clients insert and remove elements between the steps of an iterator, the iterator
  returns no element twice, and only elements that were in the table.\<close>
theorem iterator_returns_nothing_twice:
  assumes "ht_ok key invalid hash s" and "ph \<notin> ht_elems s" and "iter_run rm (iter_start ph s) cf"
  shows "distinct (c_seen cf) \<and> set (c_seen cf) \<subseteq> c_used cf \<and> ph \<notin> set (c_seen cf)"
proof -
  obtain B where B: "conf_at (iter_start ph s) ph B 0" by (rule iter_start_at [OF assms(1,2)])
  then obtain C k where "conf_at cf ph C k" using iter_run_ok [OF assms(3)] unfolding step_ok_def by blast
  from conf_atD(5-7) [OF this] show ?thesis by blast
qed

text \<open>C7 While other clients only insert elements, an iterator that ran to the end of the table and read
  every position has returned every element that was in the table when it started.\<close>
theorem iterator_returns_all:
  assumes "ht_ok key invalid hash s" and "ph \<notin> ht_elems s" and "iter_run False (iter_start ph s) cf"
    and "\<not> m_fInvalidInserted (c_it cf)" and "m_cSize (snd (c_table cf)) \<le> m_ulBucketIndex (c_it cf)"
  shows "ht_elems s \<subseteq> set (c_seen cf)"
proof -
  obtain B where B: "conf_at (iter_start ph s) ph B 0" "pending (iter_start ph s) B 0 = ht_elems s"
    by (rule iter_start_at [OF assms(1,2)])
  then obtain C k where c: "conf_at cf ph C k" "ht_elems s \<subseteq> set (c_seen cf) \<union> pending cf C k"
    using iter_run_ok [OF assms(3) B(1)] unfolding step_ok_def by auto
  have "m_cSize (snd (c_table cf)) = length C" by (rule iter_in_length [OF conf_atD(2) [OF c(1)]])
  then show ?thesis using c(2) assms(4,5) by (simp add: pending_off)
qed

text \<open>Without other clients, the loop over an iterator ends, visits every element of the table exactly
  once in the order of the buckets, and leaves the table as it was.\<close>
theorem iterate_visits_each_once:
  assumes "ht_ok key invalid hash s" and "ph \<notin> ht_elems s"
  shows "\<exists>xs c. iterate (iter_new ph s) = Some (xs, c) \<and> distinct xs \<and> set xs = ht_elems s
    \<and> ht_elems (iter_destroy c) = ht_elems s"
proof -
  obtain B where B: "ht_repr s B" using assms(1) unfolding ht_ok_def by blast
  obtain c where c: "iterate (iter_new ph s) = Some (concat B, c)" "iter_off c ph B (length B)"
    using iterate_first [OF iter_new_off [OF assms B]] by blast
  then have "ht_repr (iter_destroy c) B" by (simp add: iter_off_def iter_destroy_def)
  then show ?thesis using c(1) ht_reprD(4) [OF B] ht_elems_repr [OF B] ht_elems_repr by metis
qed

text \<open>A table of one bucket that holds the elements 1 and 2, and the first steps of an iterator on it:
  it finds element 1 and reads it.\<close>

definition sample_two :: "(nat, nat) ht_state" where
  "sample_two = sht_Insert 1 (sht_Insert 2 ((\<lambda>_. SLink_new), sht_Init 1 id 0 (\<lambda>_. 0) (=)))"

lemma sample_two_ok:
  "ht_ok id 0 (\<lambda>_. 0) sample_two" "ht_elems sample_two = {1, 2}" "ht_repr sample_two [[1, 2]]"
proof -
  let ?s = "((\<lambda>_. SLink_new), sht_Init 1 id 0 (\<lambda>_. 0) (=)) :: (nat, nat) ht_state"
  have "ht_repr ?s (replicate 1 [])" by (rule ht_repr_Init) simp
  then have r: "ht_repr ?s [[]]" by simp
  have o: "ht_ok id 0 (\<lambda>_. 0) ?s" and e: "ht_elems ?s = {}"
    using r ht_elems_repr [OF r] by (auto simp: ht_ok_def ht_placed_def sht_Init_def)
  note i2 = ht_insert [OF o, of 2, unfolded e, simplified]
  then show "ht_ok id 0 (\<lambda>_. 0) sample_two" "ht_elems sample_two = {1, 2}"
    using ht_insert [of id 0 "\<lambda>_. 0" "sht_Insert 2 ?s" 1] by (simp_all add: sample_two_def insert_commute)
  have r2: "ht_repr (sht_Insert 2 ?s) [[2]]"
    using acc_Prepend_repr [OF r, of 0 2] by (simp add: sht_Insert_def acc_Prepend_def UlBucketIndex_def sht_Init_def)
  then show "ht_repr sample_two [[1, 2]]"
    using acc_Prepend_repr [OF r2, of 0 1]
    by (simp add: sht_Insert_def acc_Prepend_def UlBucketIndex_def sht_Init_def sample_two_def)
qed

lemma sample_run_start:
  "\<exists>c. iter_at c 9 [[1, 2]] 0 0
    \<and> iter_run rm (iter_start 9 sample_two) \<lparr>c_iter = c, c_seeking = False, c_read = True, c_seen = [1], c_used = {1, 2}\<rparr>"
proof -
  let ?cf = "\<lambda>c s r x. \<lparr>c_iter = c, c_seeking = s, c_read = r, c_seen = x, c_used = {1, 2 :: nat}\<rparr>"
  let ?c = "iter_new 9 sample_two"
  have off: "iter_off ?c 9 [[1, 2]] 0"
    by (rule iter_new_off [OF sample_two_ok(1) _ sample_two_ok(3)]) (simp add: sample_two_ok(2))
  have sz: "m_cSize (snd (fst ?c)) = 1" "m_ulBucketIndex (snd ?c) = 0" "\<not> m_fInvalidInserted (snd ?c)"
    using off iter_off_length [OF off] by (simp_all add: iter_off_def)
  obtain c where c: "iter_seek ?c = Some (False, c)" "iter_at c 9 [[1, 2]] 0 0"
    using iter_seek_step [OF off] by auto
  have "iter_step rm (?cf ?c False True []) (?cf ?c True True [])"
    using advance_first [of "?cf ?c False True []" rm] sz by simp
  moreover have "iter_step rm (?cf ?c True True []) (?cf c False False [])"
    using seek_found [of "?cf ?c True True []" c rm] sz c(1) by simp
  moreover have "iter_step rm (?cf c False False []) (?cf c False True [1])"
    using read [of "?cf c False False []" "Some 1" rm] iter_Pt_at [OF c(2)] c(2) by (simp add: iter_at_def)
  moreover have "iter_start 9 sample_two = ?cf ?c False True []"
    by (simp add: iter_start_def sample_two_ok(2))
  ultimately have "iter_run rm (iter_start 9 sample_two) (?cf c False True [1])"
    by (metis converse_rtranclp_into_rtranclp rtranclp.rtrancl_refl)
  then show ?thesis using c(2) by blast
qed

text \<open>From the last element of the only bucket, the iterator reaches the end.\<close>

lemma sample_run_end:
  assumes "iter_at c ph [xs] 0 k" "length xs \<le> k + 1"
  shows "\<exists>c'. iter_off c' ph [xs] 1 \<and> iter_run rm
     \<lparr>c_iter = c, c_seeking = False, c_read = True, c_seen = ys, c_used = u\<rparr>
     \<lparr>c_iter = c', c_seeking = False, c_read = True, c_seen = ys, c_used = u\<rparr>"
proof -
  let ?cf = "\<lambda>c s. \<lparr>c_iter = c, c_seeking = s, c_read = True, c_seen = ys, c_used = u\<rparr>"
  obtain c' where c': "iter_AdvanceInvalidElement c = Some c'" "iter_off c' ph [xs] 0"
    using iter_AdvanceInvalidElement_at [OF assms(1)] assms(2) by auto
  have off: "iter_off (iter_next_bucket c') ph [xs] 1"
    using c'(2) by (simp add: iter_off_def iter_next_bucket_def iter_base_def)
  have "iter_step rm (?cf c False) (?cf (iter_next_bucket c') True)"
    using advance_exhausted [of "?cf c False" c' rm] c' assms(1) by (simp add: iter_at_def iter_off_def)
  moreover have "iter_step rm (?cf (iter_next_bucket c') True) (?cf (iter_next_bucket c') False)"
    using seek_end [of "?cf (iter_next_bucket c') True" rm] off iter_off_length [OF off] by (simp add: iter_off_def)
  ultimately show ?thesis using off by (metis converse_rtranclp_into_rtranclp rtranclp.rtrancl_refl)
qed

theorem iterator_returns_nothing_twice_witness:
  "\<exists>cf. iter_run True (iter_start 9 sample_two) cf \<and> c_seen cf \<noteq> [] \<and> distinct (c_seen cf)"
  using sample_run_start [of True]
    iterator_returns_nothing_twice [OF sample_two_ok(1), of 9 True, unfolded sample_two_ok(2)] by fastforce

lemma sample_run_all:
  "\<exists>cf. iter_run False (iter_start 9 sample_two) cf \<and> \<not> m_fInvalidInserted (c_it cf)
     \<and> m_cSize (snd (c_table cf)) \<le> m_ulBucketIndex (c_it cf)"
proof -
  let ?cf = "\<lambda>c r x. \<lparr>c_iter = c, c_seeking = False, c_read = r, c_seen = x, c_used = {1, 2 :: nat}\<rparr>"
  obtain c where c: "iter_at c 9 [[1, 2]] 0 0" "iter_run False (iter_start 9 sample_two) (?cf c True [1])"
    using sample_run_start by blast
  obtain c' where c': "iter_AdvanceInvalidElement c = Some c'" "iter_at c' 9 [[1, 2]] 0 1"
    using iter_AdvanceInvalidElement_at [OF c(1)] by auto
  have "iter_step False (?cf c True [1]) (?cf c' False [1])"
    using advance_in_bucket [of "?cf c True [1]" c' False] c(1) c' by (simp add: iter_at_def)
  moreover have "iter_step False (?cf c' False [1]) (?cf c' True [1, 2])"
    using read [of "?cf c' False [1]" "Some 2" False] c'(2) iter_Pt_at [OF c'(2)] by (simp add: iter_at_def)
  moreover obtain c'' where c'': "iter_off c'' 9 [[1, 2]] 1" "iter_run False (?cf c' True [1, 2]) (?cf c'' True [1, 2])"
    using sample_run_end [OF c'(2)] by fastforce
  ultimately have "iter_run False (iter_start 9 sample_two) (?cf c'' True [1, 2])"
    using c(2) by (meson rtranclp.rtrancl_into_rtrancl rtranclp_trans)
  moreover have "\<not> m_fInvalidInserted (snd c'')" "m_cSize (snd (fst c'')) \<le> m_ulBucketIndex (snd c'')"
    using c''(1) iter_off_length [OF c''(1)] by (simp_all add: iter_off_def)
  ultimately show ?thesis by fastforce
qed

theorem iterator_returns_all_witness:
  "\<exists>cf. iter_run False (iter_start 9 sample_two) cf \<and> {1, 2} \<subseteq> set (c_seen cf)"
  using sample_run_all iterator_returns_all [OF sample_two_ok(1), of 9, unfolded sample_two_ok(2)] by fastforce

theorem iterate_visits_each_once_witness:
  "\<exists>xs c. iterate (iter_new 9 sample_two) = Some (xs, c) \<and> distinct xs \<and> set xs = {1, 2}"
  using iterate_visits_each_once [OF sample_two_ok(1), of 9, unfolded sample_two_ok(2)] by fastforce

text \<open>C35 An element can be missed although it stays in the table: after the iterator read element 1,
  another client removes it; the next call of \<open>FAdvance\<close> then takes element 2, which is now the
  first one after the placeholder, for the element it has to pass, and reaches the end without
  ever returning it.\<close>
theorem iterator_misses_element:
  "\<exists>cf. iter_run True (iter_start 9 sample_two) cf \<and> \<not> c_seeking cf \<and> \<not> m_fInvalidInserted (c_it cf)
     \<and> m_cSize (snd (c_table cf)) \<le> m_ulBucketIndex (c_it cf)
     \<and> 2 \<in> ht_elems sample_two \<and> 2 \<in> ht_elems (c_table cf) \<and> c_seen cf = [1]"
proof -
  let ?cf = "\<lambda>c. \<lparr>c_iter = c, c_seeking = False, c_read = True, c_seen = [1], c_used = {1, 2 :: nat}\<rparr>"
  obtain c where c: "iter_at c 9 [[1, 2]] 0 0" "iter_run True (iter_start 9 sample_two) (?cf c)"
    using sample_run_start by blast
  let ?c = "(key_Remove (m_Key (snd (fst c)) 1) 1 (fst c), snd c)"
  have at: "m_ulBucketIndex (snd c) = 0" "m_fInvalidInserted (snd c)" "m_ptInvalid (snd c) = 9"
    "ht_repr (fst c) [[9, 1, 2]]" "m_cSize (snd (fst c)) = 1"
    using c(1) iter_at_length [OF c(1)] by (simp_all add: iter_at_def iter_base_def)
  have "iter_in ?c 9 [[2]] 0"
    using iter_in_remove [of c 9 "[[1, 2]]" 0 0 "[]" 1 "[2]"] c(1) at by (simp add: iter_in_def UlBucketIndex_def)
  then have at': "iter_at ?c 9 [[2]] 0 0" using at by (simp add: iter_in_def)
  have "1 \<in> ht_elems (fst c)" using ht_elems_repr [OF at(4)] by simp
  then have "iter_step True (?cf c) (?cf ?c)"
    using client_remove [of True 1 "?cf c"] at(3) by simp
  moreover obtain c' where c': "iter_off c' 9 [[2]] 1" "iter_run True (?cf ?c) (?cf c')"
    using sample_run_end [OF at'] by fastforce
  ultimately have "iter_run True (iter_start 9 sample_two) (?cf c')"
    using c(2) by (meson rtranclp.rtrancl_into_rtrancl rtranclp_trans)
  moreover have "\<not> m_fInvalidInserted (snd c')" "m_cSize (snd (fst c')) \<le> m_ulBucketIndex (snd c')"
    "2 \<in> ht_elems (fst c')"
    using c'(1) iter_off_length [OF c'(1)] ht_elems_repr [of "fst c'" "[[2]]"] by (simp_all add: iter_off_def)
  ultimately show ?thesis using sample_two_ok(2) by fastforce
qed

section \<open>Destroying all entries\<close>

definition empty_below :: "'t list list \<Rightarrow> nat \<Rightarrow> bool" where
  "empty_below C i \<longleftrightarrow> (\<forall>j < i. C ! j = [])"

lemma concat_empty_below: "empty_below C i \<Longrightarrow> i \<le> length C \<Longrightarrow> concat C = concat (drop i C)"
proof -
  assume e: "empty_below C i" "i \<le> length C"
  have "concat (take i C) = []" using e by (auto simp: empty_below_def in_set_conv_nth)
  then show ?thesis by (metis append_take_drop_id concat_append append_Nil)
qed

lemma concat_remove_first:
  assumes "empty_below C i" "i < length C" "C ! i = y # ys"
  shows "concat C = y # concat (C[i := ys])" "empty_below (C[i := ys]) i"
proof -
  show e: "empty_below (C[i := ys]) i" using assms(1) by (simp add: empty_below_def)
  show "concat C = y # concat (C[i := ys])"
    using concat_empty_below [OF assms(1)] concat_empty_below [OF e] concat_drop [OF assms(2)]
      concat_drop [of i "C[i := ys]"] assms(2,3) by (simp add: drop_update_cancel)
qed

text \<open>Removing the current element.\<close>

lemma iter_at_remove:
  assumes "iter_at c ph C i 0" "C ! i = y # ys"
  shows "iter_at (acc_Remove (m_ulBucketIndex (snd c)) y (fst c), snd c) ph (C[i := ys]) i 0"
proof -
  have b: "iter_base c ph C" and i: "i < length C" and R: "ht_repr (fst c) (C[i := ph # y # ys])"
    and it: "m_ulBucketIndex (snd c) = i" "m_fInvalidInserted (snd c)"
    using assms by (simp_all add: iter_at_def)
  let ?c = "(acc_Remove i y (fst c), snd c)"
  have "i < m_cSize (snd (fst c))" using ht_reprD(2) [OF R] i by simp
  then have "ht_repr (fst ?c) (C[i := ph # ys])"
    using acc_Remove_repr [OF R, of i "[ph]" y ys] i by simp
  moreover have "iter_base ?c ph (C[i := ys])"
  proof (rule iter_base_update [OF b i])
    show "distinct ys" using b distinct_concat_nth(1) [OF _ i] assms(2) by (auto simp: iter_base_def)
  qed (use assms(2) in \<open>auto simp: acc_Remove_def\<close>)
  ultimately show ?thesis using i it by (simp add: iter_at_def)
qed

text \<open>What is left of the loop after \<open>FAdvance\<close> returned.\<close>

definition destroyed :: "('t list \<times> ('t, 'k) iter_state) option \<Rightarrow> 't list \<Rightarrow> 't \<Rightarrow> nat \<Rightarrow> bool" where
  "destroyed r xs ph n \<longleftrightarrow> (\<exists>c. r = Some (xs, c) \<and> iter_off c ph (replicate n []) n)"

lemma all_empty: "empty_below C (length C) \<Longrightarrow> C = replicate (length C) []"
  by (rule nth_equalityI) (simp_all add: empty_below_def)

lemma seek_empty_below:
  assumes "empty_below C i" "i \<le> j" "j < length C" "concat (drop i C) = rest_at C j 0"
  shows "empty_below C j"
proof -
  have "rest_at C j 0 = concat (drop j C)" using concat_drop [OF assms(3)] by (simp add: rest_at_def)
  moreover have "concat (drop i C) = concat (take (j - i) (drop i C)) @ concat (drop j C)"
    using append_take_drop_id [of "j - i" "drop i C"] assms(2) by (metis concat_append drop_drop le_add_diff_inverse2)
  ultimately have e: "concat (take (j - i) (drop i C)) = []" using assms(4) by simp
  have "C ! k = []" if "i \<le> k" "k < j" for k
  proof -
    have "C ! k \<in> set (take (j - i) (drop i C))"
      using that assms(3) by (auto simp: in_set_conv_nth intro!: exI [of _ "k - i"])
    then show ?thesis using e by auto
  qed
  then show ?thesis using assms(1) unfolding empty_below_def by (metis not_le)
qed

text \<open>A round that begins with \<open>FAdvance\<close>.\<close>

lemma destroy_advance:
  fixes c c2 :: "('t, 'k) iter_state"
  assumes adv: "iter_FAdvance c = Some (m_ulBucketIndex (snd c2) < m_cSize (snd (fst c2)), c2)"
    and seek: "seek_result c2 ph C i" and e: "empty_below C i" "i \<le> length C"
    and IH: "\<And>(c' :: ('t, 'k) iter_state) D j y. length (concat D) < length (concat C) \<Longrightarrow> iter_at c' ph D j 0 \<Longrightarrow> empty_below D j \<Longrightarrow>
       destroyed (destroy_loop (Some y) c') (y # concat D) ph (length D)"
  shows "destroyed (destroy_loop None c) (concat C) ph (length C)"
  using seek unfolding seek_result_def
proof (elim disjE exE conjE)
  assume n: "concat (drop i C) = []" "iter_off c2 ph C (length C)"
  then have "concat C = []" using concat_empty_below [OF e] by simp
  moreover from this have "C = replicate (length C) []"
    by (intro all_empty) (auto simp: empty_below_def)
  moreover have "\<not> m_ulBucketIndex (snd c2) < m_cSize (snd (fst c2))"
    using n(2) iter_off_length [OF n(2)] by (simp add: iter_off_def)
  ultimately show ?thesis using adv n(2)
    by (subst destroy_loop.simps) (simp add: destroyed_def)
next
  fix j assume j: "i \<le> j" "C ! j \<noteq> []" "concat (drop i C) = rest_at C j 0" "iter_at c2 ph C j 0"
  then have jC: "j < length C" and idx: "m_ulBucketIndex (snd c2) < m_cSize (snd (fst c2))"
    using iter_at_length [OF j(4)] by (simp_all add: iter_at_def)
  obtain y ys where ys: "C ! j = y # ys" using j(2) by (cases "C ! j") auto
  have ej: "empty_below C j" by (rule seek_empty_below [OF e(1) j(1) jC j(3)])
  let ?c = "(acc_Remove (m_ulBucketIndex (snd c2)) y (fst c2), snd c2)"
  note r = concat_remove_first [OF ej jC ys]
  have "destroyed (destroy_loop (Some y) ?c) (y # concat (C[j := ys])) ph (length C)"
    using IH [OF _ iter_at_remove [OF j(4) ys] r(2), of y] r(1) by simp
  then show ?thesis using adv idx iter_Pt_at [OF j(4)] ys r(1)
    by (subst destroy_loop.simps) (auto simp: destroyed_def Let_def)
qed

lemma destroy_at:
  "iter_at c ph C i 0 \<Longrightarrow> empty_below C i \<Longrightarrow> destroyed (destroy_loop (Some x) c) (x # concat C) ph (length C)"
proof (induction "length (concat C)" arbitrary: c C i x rule: less_induct)
  case less
  have i: "i < length C" using less.prems(1) by (simp add: iter_at_def)
  have Pt: "iter_Pt c = Some (hd_opt (C ! i))" using iter_Pt_at [OF less.prems(1)] by simp
  show ?case
  proof (cases "C ! i")
    case (Cons y ys)
    let ?c = "(acc_Remove (m_ulBucketIndex (snd c)) y (fst c), snd c)"
    note r = concat_remove_first [OF less.prems(2) i Cons]
    have "destroyed (destroy_loop (Some y) ?c) (y # concat (C[i := ys])) ph (length C)"
      using less.hyps [OF _ iter_at_remove [OF less.prems(1) Cons] r(2), of y] r(1) by simp
    then show ?thesis using Pt Cons r(1)
      by (subst destroy_loop.simps) (auto simp: destroyed_def Let_def)
  next
    case Nil
    have loop: "destroy_loop (Some x) c = do { (xs, c') \<leftarrow> destroy_loop None c; Some (x # xs, c') }"
      using Pt Nil by (subst destroy_loop.simps) (simp add: Let_def)
    obtain c1 where c1: "iter_AdvanceInvalidElement c = Some c1" "iter_off c1 ph C i"
      using iter_AdvanceInvalidElement_at [OF less.prems(1)] Nil by auto
    then have off: "iter_off (iter_next_bucket c1) ph C (i + 1)"
      by (simp add: iter_off_def iter_next_bucket_def iter_base_def)
    obtain c2 where c2: "iter_InsertInvalidElement (iter_next_bucket c1) = Some c2" "seek_result c2 ph C (i + 1)"
      using iter_InsertInvalidElement_off [OF off] i by auto
    have adv: "iter_FAdvance c = Some (m_ulBucketIndex (snd c2) < m_cSize (snd (fst c2)), c2)"
      using c1 c2(1) less.prems(1) by (simp add: iter_FAdvance_def iter_at_def iter_off_def)
    have e: "empty_below C (i + 1)" using less.prems(2) Nil by (auto simp: empty_below_def less_Suc_eq)
    have "destroyed (destroy_loop None c) (concat C) ph (length C)"
      by (rule destroy_advance [OF adv c2(2) e]) (use i less.hyps in auto)
    then show ?thesis by (auto simp: loop destroyed_def)
  qed
qed

lemma destroy_new:
  assumes "iter_off c ph C 0"
  shows "destroyed (destroy_loop None c) (concat C) ph (length C)"
proof -
  obtain c2 where c2: "iter_InsertInvalidElement c = Some c2" "seek_result c2 ph C 0"
    using iter_InsertInvalidElement_off [OF assms] by auto
  have "iter_FAdvance c = Some (m_ulBucketIndex (snd c2) < m_cSize (snd (fst c2)), c2)"
    using c2(1) assms by (simp add: iter_FAdvance_def iter_off_def)
  then show ?thesis
    by (rule destroy_advance [OF _ c2(2)]) (use destroy_at in \<open>auto simp: empty_below_def\<close>)
qed

text \<open>\<open>DestroyEntries\<close> ends, destroys every element of the table exactly once and leaves the table
  empty.\<close>

theorem sht_DestroyEntries_all:
  assumes "ht_ok key invalid hash s" and "ph \<notin> ht_elems s"
  shows "\<exists>xs s'. sht_DestroyEntries ph s = Some (xs, s') \<and> distinct xs \<and> set xs = ht_elems s \<and> ht_elems s' = {}"
proof -
  obtain B where B: "ht_repr s B" using assms(1) unfolding ht_ok_def by blast
  obtain c where c: "destroy_loop None (iter_new ph s) = Some (concat B, c)"
    "iter_off c ph (replicate (length B) []) (length B)"
    using destroy_new [OF iter_new_off [OF assms B]] unfolding destroyed_def by blast
  then have "ht_repr (iter_destroy c) (replicate (length B) [])" by (simp add: iter_off_def iter_destroy_def)
  from ht_elems_repr [OF this] have "ht_elems (iter_destroy c) = {}" by simp
  then show ?thesis using c(1) ht_reprD(4) [OF B] ht_elems_repr [OF B]
    by (auto simp: sht_DestroyEntries_def)
qed

end
