(* ===== verification/Cut.thy ===== *)
theory Cut
  imports Prelude
begin

text \<open>
  The abstract specification of interval arithmetic: a bound of a range is a \<^emph>\<open>cut\<close> of the
  ordered domain, just before or just after a value, or infinite.  A range is then a pair of
  cuts, and a list of disjoint ranges a chain of cuts.  The concrete ranges and interval
  constraints of the optimizer are refined to this specification.
\<close>

section \<open>Cuts as a linear order\<close>

datatype 'k cut = NegInf | At 'k bool | PosInf

text \<open>\<open>At x False\<close> lies just before \<open>x\<close>, \<open>At x True\<close> just after it.\<close>

instantiation cut :: (linorder) linorder
begin

fun less_eq_cut :: "'a cut \<Rightarrow> 'a cut \<Rightarrow> bool" where
  "less_eq_cut NegInf c = True"
| "less_eq_cut (At x a) NegInf = False"
| "less_eq_cut (At x a) (At y b) = (x < y \<or> x = y \<and> (a \<longrightarrow> b))"
| "less_eq_cut (At x a) PosInf = True"
| "less_eq_cut PosInf c = (c = PosInf)"

definition less_cut :: "'a cut \<Rightarrow> 'a cut \<Rightarrow> bool" where
  "less_cut c d \<longleftrightarrow> c \<le> d \<and> \<not> d \<le> c"

instance
proof
  fix c d e :: "'a cut"
  show "c < d \<longleftrightarrow> c \<le> d \<and> \<not> d \<le> c" by (rule less_cut_def)
  show "c \<le> c" by (cases c) auto
  show "c \<le> d \<Longrightarrow> d \<le> e \<Longrightarrow> c \<le> e" by (cases c; cases d; cases e) auto
  show "c \<le> d \<Longrightarrow> d \<le> c \<Longrightarrow> c = d" by (cases c; cases d) auto
  show "c \<le> d \<or> d \<le> c" by (cases c; cases d) auto
qed

end

lemma cut_less [simp]:
  "\<not> c < NegInf" "\<not> PosInf < c" "NegInf < At x a" "NegInf < PosInf" "At x a < PosInf"
  "At x a < At y b \<longleftrightarrow> x < y \<or> x = y \<and> \<not> a \<and> b"
  by (cases c; auto simp: less_cut_def)+

lemma cut_le_PosInf [simp]: "c \<le> PosInf"
  by (cases c) auto

lemma cut_le_NegInf [simp]: "c \<le> NegInf \<longleftrightarrow> c = NegInf"
  by (cases c) auto

section \<open>Pairs of cuts\<close>

type_synonym 'k span = "'k cut \<times> 'k cut"

definition in_span :: "'k::linorder span \<Rightarrow> 'k \<Rightarrow> bool" where
  "in_span s v \<longleftrightarrow> fst s \<le> At v False \<and> At v True \<le> snd s"

lemma in_span_iff: "in_span s v \<longleftrightarrow> fst s \<le> At v False \<and> At v False < snd s"
proof -
  have "At v True \<le> c \<longleftrightarrow> At v False < c" for c :: "'a cut" by (cases c) auto
  then show ?thesis by (simp add: in_span_def)
qed

definition span_set :: "'k::linorder span list \<Rightarrow> 'k set" where
  "span_set ss = {v. \<exists>s \<in> set ss. in_span s v}"

lemma span_set_simps [simp]:
  "span_set [] = {}" "span_set (s # ss) = {v. in_span s v} \<union> span_set ss"
  "span_set (ss @ ts) = span_set ss \<union> span_set ts"
  by (auto simp: span_set_def)

text \<open>A chain: non-empty spans, each ending before the next one starts (or where it starts).\<close>

fun chain :: "'k::linorder span list \<Rightarrow> bool" where
  "chain [] = True"
| "chain (s # ss) = (fst s < snd s \<and> (\<forall>t \<in> set ss. snd s \<le> fst t) \<and> chain ss)"

lemma chain_append [simp]:
  "chain (ss @ ts) \<longleftrightarrow> chain ss \<and> chain ts \<and> (\<forall>s \<in> set ss. \<forall>t \<in> set ts. snd s \<le> fst t)"
  by (induction ss) auto

lemma chain_nonempty: "chain ss \<Longrightarrow> s \<in> set ss \<Longrightarrow> fst s < snd s"
  by (induction ss) auto

text \<open>Strict chains: no two neighbours touch, so no two of their spans could be merged.\<close>

fun strict_chain :: "'k::linorder span list \<Rightarrow> bool" where
  "strict_chain [] = True"
| "strict_chain (s # ss) = (fst s < snd s \<and> (\<forall>t \<in> set ss. snd s < fst t) \<and> strict_chain ss)"

lemma strict_chain_append [simp]:
  "strict_chain (ss @ ts) \<longleftrightarrow> strict_chain ss \<and> strict_chain ts \<and> (\<forall>s \<in> set ss. \<forall>t \<in> set ts. snd s < fst t)"
  by (induction ss) auto

lemma strict_chain_chain: "strict_chain ss \<Longrightarrow> chain ss"
  by (induction ss) (auto intro: less_imp_le)

section \<open>Operations on spans\<close>

definition span_inter :: "'k::linorder span \<Rightarrow> 'k span \<Rightarrow> 'k span option" where
  "span_inter s t = (if max (fst s) (fst t) < min (snd s) (snd t)
                     then Some (max (fst s) (fst t), min (snd s) (snd t)) else None)"

definition span_diff_left :: "'k::linorder span \<Rightarrow> 'k span \<Rightarrow> 'k span option" where
  "span_diff_left s t = (if fst s < min (snd s) (fst t) then Some (fst s, min (snd s) (fst t)) else None)"

definition span_diff_right :: "'k::linorder span \<Rightarrow> 'k span \<Rightarrow> 'k span option" where
  "span_diff_right s t = (if max (fst s) (snd t) < snd s then Some (max (fst s) (snd t), snd s) else None)"

fun opt_spans :: "'k span option \<Rightarrow> 'k span list" where
  "opt_spans None = []"
| "opt_spans (Some s) = [s]"

lemma in_span_inter: "span_set (opt_spans (span_inter s t)) = {v. in_span s v \<and> in_span t v}"
  by (auto simp: span_inter_def in_span_iff)

lemma in_span_diff_left: "span_set (opt_spans (span_diff_left s t)) = {v. in_span s v \<and> At v False < fst t}"
  by (auto simp: span_diff_left_def in_span_iff)

section \<open>Sorted lists of spans\<close>

definition ends_after :: "'k::linorder span \<Rightarrow> 'k span \<Rightarrow> bool" where
  "ends_after s t \<longleftrightarrow> snd t < snd s \<or> snd s = PosInf \<and> snd t = PosInf"

lemma ends_after_le: "ends_after s t \<Longrightarrow> snd t \<le> snd s" "\<not> ends_after s t \<Longrightarrow> snd s \<le> snd t"
  by (auto simp: ends_after_def)

text \<open>Append a span, or extend the last one when the two touch.\<close>

definition append_span :: "'k::linorder span list \<Rightarrow> 'k span \<Rightarrow> 'k span list" where
  "append_span acc s =
     (if acc \<noteq> [] \<and> snd (last acc) = fst s then butlast acc @ [(fst (last acc), snd s)] else acc @ [s])"

definition append_opt :: "'k::linorder span list \<Rightarrow> 'k span option \<Rightarrow> 'k span list" where
  "append_opt acc os = (case os of None \<Rightarrow> acc | Some s \<Rightarrow> append_span acc s)"

lemma append_opt_simps [simp]:
  "append_opt acc None = acc" "append_opt acc (Some s) = append_span acc s"
  by (simp_all add: append_opt_def)

text \<open>The state of a merge: a strict chain that ends before a given cut.\<close>

definition ends_by :: "'k::linorder span list \<Rightarrow> 'k cut \<Rightarrow> bool" where
  "ends_by acc c \<longleftrightarrow> strict_chain acc \<and> (\<forall>a \<in> set acc. snd a \<le> c)"

lemma ends_by_Nil [simp]: "ends_by [] c"
  by (simp add: ends_by_def)

lemma ends_by_mono: "ends_by acc c \<Longrightarrow> c \<le> d \<Longrightarrow> ends_by acc d"
  by (auto simp: ends_by_def intro: order_trans)

lemma ends_by_append_span:
  assumes "ends_by acc (fst s)" "fst s < snd s"
  shows "ends_by (append_span acc s) (snd s)"
    and "span_set (append_span acc s) = span_set acc \<union> {v. in_span s v}"
proof -
  show "ends_by (append_span acc s) (snd s)"
  proof (cases acc rule: rev_cases)
    case Nil
    then show ?thesis using assms by (simp add: append_span_def ends_by_def)
  next
    case (snoc xs x)
    then have "fst x < snd s" using assms by (auto simp: ends_by_def intro: less_le_trans less_trans)
    moreover have "x' \<in> set xs \<Longrightarrow> snd x' < fst s" for x'
      using snoc assms by (auto simp: ends_by_def intro: less_le_trans less_trans)
    ultimately show ?thesis using snoc assms
      by (auto simp: append_span_def ends_by_def intro: order_trans less_imp_le dest: order.strict_trans)
  qed
  show "span_set (append_span acc s) = span_set acc \<union> {v. in_span s v}"
  proof (cases acc rule: rev_cases)
    case Nil
    then show ?thesis by (simp add: append_span_def)
  next
    case (snoc xs x)
    then have "fst x < snd x" using assms by (simp add: ends_by_def)
    then show ?thesis using snoc assms(2)
      by (auto simp: append_span_def in_span_iff dest: order.strict_trans2 intro: order_trans less_imp_le)
  qed
qed

lemma ends_by_append_diff_left:
  assumes "ends_by acc (fst s)"
  shows "ends_by (append_opt acc (span_diff_left s t)) (max (fst s) (min (snd s) (fst t)))"
    and "span_set (append_opt acc (span_diff_left s t)) = span_set acc \<union> {v. in_span s v \<and> At v False < fst t}"
proof -
  have s: "span_set (opt_spans (span_diff_left s t)) = {v. in_span s v \<and> At v False < fst t}"
    by (rule in_span_diff_left)
  show "ends_by (append_opt acc (span_diff_left s t)) (max (fst s) (min (snd s) (fst t)))"
  proof (cases "fst s < min (snd s) (fst t)")
    case True
    then show ?thesis
      using ends_by_append_span(1) [of acc "(fst s, min (snd s) (fst t))"] assms
      by (auto simp: span_diff_left_def max_def)
  next
    case False
    then show ?thesis using assms by (auto simp: span_diff_left_def max_def)
  qed
  show "span_set (append_opt acc (span_diff_left s t)) = span_set acc \<union> {v. in_span s v \<and> At v False < fst t}"
  proof (cases "fst s < min (snd s) (fst t)")
    case True
    then show ?thesis
      using ends_by_append_span(2) [of acc "(fst s, min (snd s) (fst t))"] assms s
      by (simp add: span_diff_left_def)
  next
    case False
    then have e: "{v. in_span s v \<and> At v False < fst t} = {}" and n: "span_diff_left s t = None"
      using s by (simp_all add: span_diff_left_def del: min_less_iff_conj)
    show ?thesis unfolding n e by simp
  qed
qed

lemma fold_append_span:
  assumes "chain ss" "\<forall>s \<in> set ss. ends_by acc (fst s)" "strict_chain acc"
  shows "strict_chain (foldl append_span acc ss)"
    and "span_set (foldl append_span acc ss) = span_set acc \<union> span_set ss"
proof -
  have "strict_chain (foldl append_span acc ss)
    \<and> span_set (foldl append_span acc ss) = span_set acc \<union> span_set ss"
    using assms
  proof (induction ss arbitrary: acc)
    case (Cons s ss)
    have e: "ends_by (append_span acc s) (snd s)"
      and u: "span_set (append_span acc s) = span_set acc \<union> {v. in_span s v}"
      using Cons.prems ends_by_append_span [of acc s] by auto
    have "\<forall>t \<in> set ss. ends_by (append_span acc s) (fst t)"
      using Cons.prems(1) ends_by_mono [OF e] by auto
    moreover have "strict_chain (append_span acc s)" using e by (simp add: ends_by_def)
    ultimately show ?case using Cons.IH [of "append_span acc s"] Cons.prems(1) u by auto
  qed simp
  then show "strict_chain (foldl append_span acc ss)"
    "span_set (foldl append_span acc ss) = span_set acc \<union> span_set ss" by blast+
qed

subsection \<open>Intersection\<close>

fun inter_spans :: "'k::linorder span list \<Rightarrow> 'k span list \<Rightarrow> 'k span list" where
  "inter_spans (s # ss) (t # ts) =
     (if ends_after t s then opt_spans (span_inter s t) @ inter_spans ss (t # ts)
      else opt_spans (span_inter t s) @ inter_spans (s # ss) ts)"
| "inter_spans [] ts = []"
| "inter_spans ss [] = []"

lemma inter_spans_Nil [simp]: "inter_spans ss [] = []"
  by (cases ss) auto

lemma chain_later: "chain (s # ss) \<Longrightarrow> v \<in> span_set ss \<Longrightarrow> snd s \<le> At v False"
  by (force simp: span_set_def in_span_iff intro: order_trans)

lemma inter_spans_set:
  "chain ss \<Longrightarrow> chain ts \<Longrightarrow> span_set (inter_spans ss ts) = span_set ss \<inter> span_set ts"
proof (induction ss ts rule: inter_spans.induct)
  case (1 s ss t ts)
  show ?case
  proof (cases "ends_after t s")
    case True
    have "\<not> in_span s v" if "v \<in> span_set ts" for v
      using chain_later [OF 1(4) that] ends_after_le(1) [OF True] by (auto simp: in_span_iff)
    then show ?thesis using True 1 by (auto simp: in_span_inter)
  next
    case False
    have "\<not> in_span t v" if "v \<in> span_set ss" for v
      using chain_later [OF 1(3) that] ends_after_le(2) [OF False] by (auto simp: in_span_iff)
    then show ?thesis using False 1 by (auto simp: in_span_inter)
  qed
qed auto

text \<open>Each span of the intersection lies inside one span of each list.\<close>

lemma span_inter_bounds:
  "x \<in> set (opt_spans (span_inter s t)) \<Longrightarrow>
     fst x < snd x \<and> fst s \<le> fst x \<and> fst t \<le> fst x \<and> snd x \<le> snd s \<and> snd x \<le> snd t"
  by (auto simp: span_inter_def split: if_splits)

lemma inter_spans_bounds:
  "x \<in> set (inter_spans ss ts) \<Longrightarrow>
     fst x < snd x \<and> (\<exists>s \<in> set ss. fst s \<le> fst x \<and> snd x \<le> snd s) \<and> (\<exists>t \<in> set ts. fst t \<le> fst x \<and> snd x \<le> snd t)"
  by (induction ss ts rule: inter_spans.induct) (auto dest!: span_inter_bounds split: if_splits)

lemma strict_opt_spans_inter: "strict_chain (opt_spans (span_inter s t))"
  by (simp add: span_inter_def)

lemma inter_spans_strict:
  "strict_chain ss \<Longrightarrow> strict_chain ts \<Longrightarrow> strict_chain (inter_spans ss ts)"
proof (induction ss ts rule: inter_spans.induct)
  case (1 s ss t ts)
  show ?case
  proof (cases "ends_after t s")
    case True
    have "snd x < fst y" if "x \<in> set (opt_spans (span_inter s t))" "y \<in> set (inter_spans ss (t # ts))" for x y
      using span_inter_bounds [OF that(1)] inter_spans_bounds [OF that(2)] 1(3)
      by (auto intro: le_less_trans less_le_trans)
    then show ?thesis using True 1 by (simp add: strict_opt_spans_inter)
  next
    case False
    have "snd x < fst y" if "x \<in> set (opt_spans (span_inter t s))" "y \<in> set (inter_spans (s # ss) ts)" for x y
      using span_inter_bounds [OF that(1)] inter_spans_bounds [OF that(2)] 1(4)
      by (auto intro: le_less_trans less_le_trans)
    then show ?thesis using False 1 by (simp add: strict_opt_spans_inter)
  qed
qed auto

subsection \<open>Union\<close>

fun union_spans :: "'k::linorder span list \<Rightarrow> 'k span list \<Rightarrow> 'k span list \<Rightarrow> 'k span list" where
  "union_spans (s # ss) (t # ts) acc =
     (if ends_after t s then union_spans ss (t # ts) (append_opt acc (span_diff_left s t))
      else union_spans (s # ss) ts (append_opt acc (span_diff_left t s)))"
| "union_spans [] ts acc = foldl append_span acc ts"
| "union_spans ss [] acc = foldl append_span acc ss"

definition ends_before_all :: "'k::linorder span list \<Rightarrow> 'k span list \<Rightarrow> bool" where
  "ends_before_all acc ss \<longleftrightarrow> strict_chain acc \<and> (\<forall>s \<in> set ss. ends_by acc (fst s))"

lemma ends_before_allI: "ends_by acc c \<Longrightarrow> (\<And>s. s \<in> set ss \<Longrightarrow> c \<le> fst s) \<Longrightarrow> ends_before_all acc ss"
  by (auto simp: ends_before_all_def intro: ends_by_mono) (auto simp: ends_by_def)

lemma union_step:
  assumes "chain (s # ss)" "chain (t # ts)" "ends_before_all acc (s # ss)" "ends_before_all acc (t # ts)"
    "snd s \<le> snd t"
  shows "ends_before_all (append_opt acc (span_diff_left s t)) ss"
    and "ends_before_all (append_opt acc (span_diff_left s t)) (t # ts)"
    and "span_set (append_opt acc (span_diff_left s t)) \<union> {v. in_span t v} = span_set acc \<union> {v. in_span s v} \<union> {v. in_span t v}"
proof -
  have s: "ends_by acc (fst s)" using assms(3) by (simp add: ends_before_all_def)
  have t: "ends_by acc (fst t)" using assms(4) by (simp add: ends_before_all_def)
  note a = ends_by_append_diff_left [OF s, of t]
  show "ends_before_all (append_opt acc (span_diff_left s t)) ss"
    using assms(1) by (intro ends_before_allI [OF a(1)]) (auto intro: order_trans less_imp_le simp: min_le_iff_disj)
  have "ends_by (append_opt acc (span_diff_left s t)) (fst t)"
  proof (cases "fst s \<le> fst t")
    case True
    then show ?thesis using ends_by_mono [OF a(1)] by auto
  next
    case False
    then show ?thesis using t by (auto simp: span_diff_left_def)
  qed
  then show "ends_before_all (append_opt acc (span_diff_left s t)) (t # ts)"
    using assms(2) by (rule_tac ends_before_allI) (auto intro: order_trans less_imp_le)
  have *: "in_span s v \<Longrightarrow> \<not> At v False < fst t \<Longrightarrow> in_span t v" for v
    using assms(5) by (auto simp: in_span_iff not_less intro: less_le_trans)
  show "span_set (append_opt acc (span_diff_left s t)) \<union> {v. in_span t v}
      = span_set acc \<union> {v. in_span s v} \<union> {v. in_span t v}"
    unfolding a(2) using * by blast
qed

lemma union_spans_correct:
  assumes "chain ss" "chain ts" "ends_before_all acc ss" "ends_before_all acc ts" "strict_chain acc"
  shows "strict_chain (union_spans ss ts acc)
    \<and> span_set (union_spans ss ts acc) = span_set acc \<union> span_set ss \<union> span_set ts"
  using assms
proof (induction ss ts acc rule: union_spans.induct)
  case (1 s ss t ts acc)
  show ?case
  proof (cases "ends_after t s")
    case True
    note st = union_step [OF 1(3-6) ends_after_le(1) [OF True]]
    have "strict_chain (append_opt acc (span_diff_left s t))" using st by (simp add: ends_before_all_def)
    then show ?thesis using True 1 st by auto
  next
    case False
    note st = union_step [OF 1(4,3,6,5) ends_after_le(2) [OF False]]
    have "strict_chain (append_opt acc (span_diff_left t s))" using st by (simp add: ends_before_all_def)
    then show ?thesis using False 1 st by auto
  qed
next
  case (2 ts acc)
  then show ?case using fold_append_span [of ts acc] by (simp add: ends_before_all_def)
next
  case (3 s ss acc)
  then show ?case using fold_append_span [of "s # ss" acc] by (simp add: ends_before_all_def)
qed

subsection \<open>Difference\<close>

function (sequential) diff_spans :: "'k::linorder span list \<Rightarrow> 'k span list \<Rightarrow> 'k span list \<Rightarrow> 'k span list" where
  "diff_spans (s # ss) (t # ts) acc =
     (if snd s \<le> snd t then diff_spans ss (t # ts) (append_opt acc (span_diff_left s t))
      else if snd t \<le> fst s then diff_spans (s # ss) ts acc
      else diff_spans ((snd t, snd s) # ss) ts (append_opt acc (span_diff_left s t)))"
| "diff_spans [] ts acc = acc"
| "diff_spans ss [] acc = foldl append_span acc ss"
  by pat_completeness auto
termination by (relation "measure (\<lambda>(ss, ts, acc). length ss + length ts)") auto

lemma diff_spans_correct:
  assumes "chain ss" "chain ts" "ends_before_all acc ss"
  shows "strict_chain (diff_spans ss ts acc)
    \<and> span_set (diff_spans ss ts acc) = span_set acc \<union> (span_set ss - span_set ts)"
  using assms
proof (induction ss ts acc rule: diff_spans.induct)
  case (1 s ss t ts acc)
  have s: "ends_by acc (fst s)" using 1(6) by (simp add: ends_before_all_def)
  note a = ends_by_append_diff_left [OF s, of t]
  have ts: "snd t \<le> At v False" if "v \<in> span_set ts" for v using chain_later [OF 1(5) that] .
  have ss: "snd s \<le> At v False" if "v \<in> span_set ss" for v using chain_later [OF 1(4) that] .
  consider (le) "snd s \<le> snd t" | (skip) "\<not> snd s \<le> snd t" "snd t \<le> fst s"
    | (cut) "\<not> snd s \<le> snd t" "\<not> snd t \<le> fst s" by blast
  then show ?case
  proof cases
    case le
    have "ends_before_all (append_opt acc (span_diff_left s t)) ss"
      using 1(4) by (intro ends_before_allI [OF a(1)]) (auto intro: order_trans less_imp_le simp: min_le_iff_disj)
    moreover have "v \<notin> span_set ts" if "in_span s v" for v
      using ts [of v] that le by (auto simp: in_span_iff)
    ultimately show ?thesis using le 1 a(2) by (fastforce simp: in_span_iff)
  next
    case skip
    have "\<not> in_span t v" if "v \<in> span_set (s # ss)" for v
      using that ss [of v] skip 1(4) by (auto simp: in_span_iff)
    then show ?thesis using skip 1 by auto
  next
    case cut
    let ?r = "(snd t, snd s)"
    have "ends_before_all (append_opt acc (span_diff_left s t)) (?r # ss)"
      using 1(4,5) cut by (intro ends_before_allI [OF a(1)]) (auto intro: order_trans less_imp_le simp: min_le_iff_disj)
    moreover have "chain (?r # ss)" using 1(4) cut by simp
    ultimately have IH: "strict_chain (diff_spans (s # ss) (t # ts) acc)
      \<and> span_set (diff_spans (s # ss) (t # ts) acc)
        = span_set acc \<union> {v. in_span s v \<and> At v False < fst t} \<union> (span_set (?r # ss) - span_set ts)"
      using cut 1(3) 1(5) a(2) by simp
    have "\<not> in_span t v" if "v \<in> span_set (?r # ss)" for v
      using that ss [of v] cut 1(4) by (auto simp: in_span_iff)
    moreover have "in_span s v \<longleftrightarrow> (in_span s v \<and> At v False < fst t) \<or> (in_span s v \<and> in_span t v) \<or> in_span ?r v" for v
      using cut 1(5) by (auto simp: in_span_iff)
    moreover have "v \<notin> span_set (t # ts)" if "At v False < fst t" for v
      using ts [of v] that 1(5) by (auto simp: in_span_iff)
    ultimately have "{v. in_span s v \<and> At v False < fst t} \<union> (span_set (?r # ss) - span_set ts)
        = span_set (s # ss) - span_set (t # ts)" by auto
    then show ?thesis using IH by blast
  qed
next
  case (2 ts acc)
  then show ?case by (simp add: ends_before_all_def)
next
  case (3 s ss acc)
  then show ?case using fold_append_span [of "s # ss" acc] by (simp add: ends_before_all_def)
qed

lemma union_spans_set: "chain ss \<Longrightarrow> chain ts \<Longrightarrow> span_set (union_spans ss ts []) = span_set ss \<union> span_set ts"
  using union_spans_correct [of ss ts "[]"] by (simp add: ends_before_all_def)

lemma diff_spans_set: "chain ss \<Longrightarrow> chain ts \<Longrightarrow> span_set (diff_spans ss ts []) = span_set ss - span_set ts"
  using diff_spans_correct [of ss ts "[]"] by (simp add: ends_before_all_def)

end
