(* ===== verification/Range.thy ===== *)
theory Range
  imports Cut Comparator
begin

text \<open>
  Ranges of values: \<^verbatim>\<open>CRange\<close> of \<^verbatim>\<open>libgpopt/src/base/CRange.cpp\<close>.  The comparator a
  range points to is the one of the optimization context; it is the argument \<open>pcomp\<close> of the
  operations.  A \<open>NULL\<close> datum pointer is \<open>None\<close>, a \<open>NULL\<close> result of an operation too.
\<close>

section \<open>The data\<close>

datatype ERangeInclusion = EriIncluded | EriExcluded | EriSentinel

record range =
  m_pmdid :: etypeinfo
  m_pdatumLeft :: "idatum option"
  m_eriLeft :: ERangeInclusion
  m_pdatumRight :: "idatum option"
  m_eriRight :: ERangeInclusion

definition EriInverseInclusion :: "ERangeInclusion \<Rightarrow> ERangeInclusion" where
  "EriInverseInclusion eri = (if eri = EriIncluded then EriExcluded else EriIncluded)"

text \<open>The constructor from a comparison with a constant.\<close>

fun range_from_cmp :: "ecmptype \<Rightarrow> idatum \<Rightarrow> range" where
  "range_from_cmp EcmptEq d =
     \<lparr>m_pmdid = d_type d, m_pdatumLeft = Some d, m_eriLeft = EriIncluded,
      m_pdatumRight = Some d, m_eriRight = EriIncluded\<rparr>"
| "range_from_cmp EcmptL d =
     \<lparr>m_pmdid = d_type d, m_pdatumLeft = None, m_eriLeft = EriExcluded,
      m_pdatumRight = Some d, m_eriRight = EriExcluded\<rparr>"
| "range_from_cmp EcmptLEq d =
     \<lparr>m_pmdid = d_type d, m_pdatumLeft = None, m_eriLeft = EriExcluded,
      m_pdatumRight = Some d, m_eriRight = EriIncluded\<rparr>"
| "range_from_cmp EcmptG d =
     \<lparr>m_pmdid = d_type d, m_pdatumLeft = Some d, m_eriLeft = EriExcluded,
      m_pdatumRight = None, m_eriRight = EriExcluded\<rparr>"
| "range_from_cmp EcmptGEq d =
     \<lparr>m_pmdid = d_type d, m_pdatumLeft = Some d, m_eriLeft = EriIncluded,
      m_pdatumRight = None, m_eriRight = EriExcluded\<rparr>"
| "range_from_cmp _ d =
     \<lparr>m_pmdid = d_type d, m_pdatumLeft = None, m_eriLeft = EriExcluded,
      m_pdatumRight = None, m_eriRight = EriExcluded\<rparr>"

section \<open>Predicates\<close>

definition FDisjointLeft :: "idatum comparator \<Rightarrow> range \<Rightarrow> range \<Rightarrow> bool" where
  "FDisjointLeft pcomp this prange =
     (case (m_pdatumRight this, m_pdatumLeft prange) of
        (Some r, Some l) \<Rightarrow>
          if FLessThan pcomp r l then True
          else if FEqual pcomp r l
          then m_eriRight this = EriExcluded \<or> m_eriLeft prange = EriExcluded
          else False
      | _ \<Rightarrow> False)"

definition FStartsBefore :: "idatum comparator \<Rightarrow> range \<Rightarrow> range \<Rightarrow> bool" where
  "FStartsBefore pcomp this prange =
     (case m_pdatumLeft prange of
        None \<Rightarrow> m_pdatumLeft this = None
      | Some l \<Rightarrow>
          (case m_pdatumLeft this of
             None \<Rightarrow> True
           | Some l' \<Rightarrow>
               if FLessThan pcomp l' l then True
               else if FGreaterThan pcomp l' l then False
               else m_eriLeft this = EriIncluded \<and> m_eriLeft prange = EriExcluded))"

definition FStartsWithOrBefore :: "idatum comparator \<Rightarrow> range \<Rightarrow> range \<Rightarrow> bool" where
  "FStartsWithOrBefore pcomp this prange =
     (if FStartsBefore pcomp this prange then True
      else case (m_pdatumLeft prange, m_pdatumLeft this) of
          (None, None) \<Rightarrow> True
        | (Some l, Some l') \<Rightarrow> FEqual pcomp l' l \<and> m_eriLeft this = m_eriLeft prange
        | _ \<Rightarrow> False)"

definition FEndsAfter :: "idatum comparator \<Rightarrow> range \<Rightarrow> range \<Rightarrow> bool" where
  "FEndsAfter pcomp this prange =
     (case m_pdatumRight prange of
        None \<Rightarrow> m_pdatumRight this = None
      | Some r \<Rightarrow>
          (case m_pdatumRight this of
             None \<Rightarrow> True
           | Some r' \<Rightarrow>
               if FGreaterThan pcomp r' r then True
               else if FLessThan pcomp r' r then False
               else m_eriRight this = EriIncluded \<and> m_eriRight prange = EriExcluded))"

definition FEndsWithOrAfter :: "idatum comparator \<Rightarrow> range \<Rightarrow> range \<Rightarrow> bool" where
  "FEndsWithOrAfter pcomp this prange =
     (if FEndsAfter pcomp this prange then True
      else case (m_pdatumRight prange, m_pdatumRight this) of
          (None, None) \<Rightarrow> True
        | (Some r, Some r') \<Rightarrow> FEqual pcomp r' r \<and> m_eriRight this = m_eriRight prange
        | _ \<Rightarrow> False)"

definition FContains :: "idatum comparator \<Rightarrow> range \<Rightarrow> range \<Rightarrow> bool" where
  "FContains pcomp this prange =
     (FStartsWithOrBefore pcomp this prange \<and> FEndsWithOrAfter pcomp this prange)"

definition FOverlapsLeft :: "idatum comparator \<Rightarrow> range \<Rightarrow> range \<Rightarrow> bool" where
  "FOverlapsLeft pcomp this prange =
     (FStartsBefore pcomp this prange \<and> \<not> FEndsAfter pcomp this prange
      \<and> \<not> FDisjointLeft pcomp this prange)"

definition FOverlapsRight :: "idatum comparator \<Rightarrow> range \<Rightarrow> range \<Rightarrow> bool" where
  "FOverlapsRight pcomp this prange =
     (FEndsAfter pcomp this prange \<and> \<not> FStartsBefore pcomp this prange
      \<and> \<not> FDisjointLeft pcomp prange this)"

definition FUpperBoundEqualsLowerBound :: "idatum comparator \<Rightarrow> range \<Rightarrow> range \<Rightarrow> bool" where
  "FUpperBoundEqualsLowerBound pcomp this prange =
     (case (m_pdatumLeft prange, m_pdatumRight this) of
        (None, None) \<Rightarrow> True
      | (Some l, Some r) \<Rightarrow> FEqual pcomp r l
      | _ \<Rightarrow> False)"

definition range_FUnbounded :: "range \<Rightarrow> bool" where
  "range_FUnbounded this = (m_pdatumLeft this = None \<and> m_pdatumRight this = None)"

text \<open>\<open>FPoint\<close> compares the two datums without a test for \<open>NULL\<close>; \<open>None\<close> is that dereference.\<close>

definition FPoint :: "idatum comparator \<Rightarrow> range \<Rightarrow> bool option" where
  "FPoint pcomp this =
     (if m_eriLeft this = EriIncluded \<and> m_eriRight this = EriIncluded
      then case (m_pdatumRight this, m_pdatumLeft this) of
          (Some r, Some l) \<Rightarrow> Some (FEqual pcomp r l)
        | _ \<Rightarrow> None
      else Some False)"

section \<open>Operations\<close>

definition PrngIntersect :: "idatum comparator \<Rightarrow> range \<Rightarrow> range \<Rightarrow> range option" where
  "PrngIntersect pcomp this prange =
     (if FContains pcomp this prange then Some prange
      else if FContains pcomp prange this then Some this
      else if FOverlapsLeft pcomp this prange
      then Some \<lparr>m_pmdid = m_pmdid this, m_pdatumLeft = m_pdatumLeft prange, m_eriLeft = m_eriLeft prange,
                 m_pdatumRight = m_pdatumRight this, m_eriRight = m_eriRight this\<rparr>
      else if FOverlapsRight pcomp this prange
      then Some \<lparr>m_pmdid = m_pmdid this, m_pdatumLeft = m_pdatumLeft this, m_eriLeft = m_eriLeft this,
                 m_pdatumRight = m_pdatumRight prange, m_eriRight = m_eriRight prange\<rparr>
      else None)"

definition PrngDifferenceLeft :: "idatum comparator \<Rightarrow> range \<Rightarrow> range \<Rightarrow> range option" where
  "PrngDifferenceLeft pcomp this prange =
     (if FDisjointLeft pcomp this prange then Some this
      else if FStartsBefore pcomp this prange \<and> m_pdatumLeft prange \<noteq> None
      then Some \<lparr>m_pmdid = m_pmdid this, m_pdatumLeft = m_pdatumLeft this, m_eriLeft = m_eriLeft this,
                 m_pdatumRight = m_pdatumLeft prange,
                 m_eriRight = EriInverseInclusion (m_eriLeft prange)\<rparr>
      else None)"

definition PrngDifferenceRight :: "idatum comparator \<Rightarrow> range \<Rightarrow> range \<Rightarrow> range option" where
  "PrngDifferenceRight pcomp this prange =
     (if FDisjointLeft pcomp prange this then Some this
      else if FEndsAfter pcomp this prange \<and> m_pdatumRight prange \<noteq> None
      then Some \<lparr>m_pmdid = m_pmdid this, m_pdatumLeft = m_pdatumRight prange,
                 m_eriLeft = EriInverseInclusion (m_eriRight prange),
                 m_pdatumRight = m_pdatumRight this, m_eriRight = m_eriRight this\<rparr>
      else None)"

definition PrngExtend :: "idatum comparator \<Rightarrow> range \<Rightarrow> range \<Rightarrow> range option" where
  "PrngExtend pcomp this prange =
     (if FDisjointLeft pcomp this prange
         \<and> (case (m_pdatumLeft prange, m_pdatumRight this) of
              (Some l, Some r) \<Rightarrow> FEqual pcomp l r | _ \<Rightarrow> False)
         \<and> (m_eriLeft prange = EriIncluded \<or> m_eriRight this = EriIncluded)
      then Some \<lparr>m_pmdid = m_pmdid this, m_pdatumLeft = m_pdatumLeft this, m_eriLeft = m_eriLeft this,
                 m_pdatumRight = m_pdatumRight prange, m_eriRight = m_eriRight prange\<rparr>
      else None)"

section \<open>Well-formed ranges and the cuts they stand for\<close>

definition end_ok :: "(idatum \<Rightarrow> bool) \<Rightarrow> idatum option \<Rightarrow> ERangeInclusion \<Rightarrow> bool" where
  "end_ok D p eri \<longleftrightarrow> eri \<noteq> EriSentinel \<and> (case p of None \<Rightarrow> eri = EriExcluded | Some d \<Rightarrow> D d)"

definition lcut :: "(idatum \<Rightarrow> 'k) \<Rightarrow> range \<Rightarrow> 'k cut" where
  "lcut key r = (case m_pdatumLeft r of None \<Rightarrow> NegInf | Some d \<Rightarrow> At (key d) (m_eriLeft r = EriExcluded))"

definition rcut :: "(idatum \<Rightarrow> 'k) \<Rightarrow> range \<Rightarrow> 'k cut" where
  "rcut key r = (case m_pdatumRight r of None \<Rightarrow> PosInf | Some d \<Rightarrow> At (key d) (m_eriRight r = EriIncluded))"

definition span_of :: "(idatum \<Rightarrow> 'k) \<Rightarrow> range \<Rightarrow> 'k span" where
  "span_of key r = (lcut key r, rcut key r)"

text \<open>
  A well-formed range has datums of the comparator's domain at its finite ends, infinite ends
  that are excluded, and is not empty.
\<close>

definition range_ok :: "(idatum \<Rightarrow> bool) \<Rightarrow> (idatum \<Rightarrow> 'k::linorder) \<Rightarrow> range \<Rightarrow> bool" where
  "range_ok D key r \<longleftrightarrow> end_ok D (m_pdatumLeft r) (m_eriLeft r) \<and> end_ok D (m_pdatumRight r) (m_eriRight r)
     \<and> lcut key r < rcut key r"

text \<open>Membership of a value, by the comparator's operations alone.\<close>

definition in_range :: "idatum comparator \<Rightarrow> range \<Rightarrow> idatum \<Rightarrow> bool" where
  "in_range pcomp r v \<longleftrightarrow>
     (case m_pdatumLeft r of None \<Rightarrow> True
      | Some l \<Rightarrow> if m_eriLeft r = EriIncluded then FGreaterThanOrEqual pcomp v l else FGreaterThan pcomp v l)
   \<and> (case m_pdatumRight r of None \<Rightarrow> True
      | Some u \<Rightarrow> if m_eriRight r = EriIncluded then FLessThanOrEqual pcomp v u else FLessThan pcomp v u)"

lemma eri_cases: "e \<noteq> EriSentinel \<Longrightarrow> e \<noteq> EriIncluded \<longleftrightarrow> e = EriExcluded"
  by (cases e) auto

lemma inverse_inclusion [simp]:
  "EriInverseInclusion e \<noteq> EriSentinel" "EriInverseInclusion e = EriIncluded \<longleftrightarrow> e \<noteq> EriIncluded"
  "EriInverseInclusion e = EriExcluded \<longleftrightarrow> e = EriIncluded"
  by (auto simp: EriInverseInclusion_def)

text \<open>The comparator interface at the datums of the program, and its instance.\<close>

locale datum_comparator = icomparator pcomp D key
  for pcomp :: "idatum comparator" and D :: "idatum \<Rightarrow> bool" and key :: "idatum \<Rightarrow> 'k::linorder"
begin

lemma lcut_not_PosInf [simp]: "lcut key r \<noteq> PosInf"
  by (simp add: lcut_def split: option.split)

lemma rcut_not_NegInf [simp]: "rcut key r \<noteq> NegInf"
  by (simp add: rcut_def split: option.split)

lemma lcut_NegInf: "lcut key r = NegInf \<longleftrightarrow> m_pdatumLeft r = None"
  by (simp add: lcut_def split: option.split)

lemma rcut_PosInf: "rcut key r = PosInf \<longleftrightarrow> m_pdatumRight r = None"
  by (simp add: rcut_def split: option.split)

lemma range_okD:
  assumes "range_ok D key r"
  shows "end_ok D (m_pdatumLeft r) (m_eriLeft r)" "end_ok D (m_pdatumRight r) (m_eriRight r)"
    "lcut key r < rcut key r"
  using assms by (simp_all add: range_ok_def)

lemma in_range_span:
  assumes "range_ok D key r" "D v"
  shows "in_range pcomp r v \<longleftrightarrow> in_span (span_of key r) (key v)"
  using assms unfolding range_ok_def in_range_def span_of_def in_span_def lcut_def rcut_def end_ok_def
  by (cases "m_pdatumLeft r"; cases "m_pdatumRight r"; cases "m_eriLeft r"; cases "m_eriRight r")
    (auto simp: comparator_keys)

subsection \<open>The predicates compare cuts\<close>

lemma FDisjointLeft_cut:
  assumes "range_ok D key a" "range_ok D key b"
  shows "FDisjointLeft pcomp a b \<longleftrightarrow> rcut key a \<le> lcut key b"
  using assms unfolding range_ok_def end_ok_def FDisjointLeft_def lcut_def rcut_def
  by (auto simp: comparator_keys eri_cases split: option.splits)

lemma FStartsBefore_cut:
  assumes "range_ok D key a" "range_ok D key b"
  shows "FStartsBefore pcomp a b \<longleftrightarrow> lcut key a < lcut key b \<or> m_pdatumLeft a = None \<and> m_pdatumLeft b = None"
  using assms unfolding range_ok_def end_ok_def FStartsBefore_def lcut_def
  by (cases "m_pdatumLeft a"; cases "m_pdatumLeft b"; cases "m_eriLeft a"; cases "m_eriLeft b")
    (auto simp: comparator_keys)

lemma FEndsAfter_cut:
  assumes "range_ok D key a" "range_ok D key b"
  shows "FEndsAfter pcomp a b \<longleftrightarrow> rcut key b < rcut key a \<or> m_pdatumRight a = None \<and> m_pdatumRight b = None"
  using assms unfolding range_ok_def end_ok_def FEndsAfter_def rcut_def
  by (cases "m_pdatumRight a"; cases "m_pdatumRight b"; cases "m_eriRight a"; cases "m_eriRight b")
    (auto simp: comparator_keys)

lemma FStartsWithOrBefore_cut:
  assumes "range_ok D key a" "range_ok D key b"
  shows "FStartsWithOrBefore pcomp a b \<longleftrightarrow> lcut key a \<le> lcut key b"
  using assms unfolding FStartsWithOrBefore_def FStartsBefore_cut [OF assms] range_ok_def end_ok_def lcut_def
  by (cases "m_pdatumLeft a"; cases "m_pdatumLeft b"; cases "m_eriLeft a"; cases "m_eriLeft b")
    (auto simp: comparator_keys)

lemma FEndsWithOrAfter_cut:
  assumes "range_ok D key a" "range_ok D key b"
  shows "FEndsWithOrAfter pcomp a b \<longleftrightarrow> rcut key b \<le> rcut key a"
  using assms unfolding FEndsWithOrAfter_def FEndsAfter_cut [OF assms] range_ok_def end_ok_def rcut_def
  by (cases "m_pdatumRight a"; cases "m_pdatumRight b"; cases "m_eriRight a"; cases "m_eriRight b")
    (auto simp: comparator_keys)

lemmas range_cuts = FDisjointLeft_cut FStartsBefore_cut FEndsAfter_cut FStartsWithOrBefore_cut FEndsWithOrAfter_cut

lemma FContains_cut:
  assumes "range_ok D key a" "range_ok D key b"
  shows "FContains pcomp a b \<longleftrightarrow> lcut key a \<le> lcut key b \<and> rcut key b \<le> rcut key a"
  by (simp add: FContains_def FStartsWithOrBefore_cut [OF assms] FEndsWithOrAfter_cut [OF assms])

lemma FPoint_cut:
  assumes "range_ok D key r"
  shows "FPoint pcomp r = Some (\<exists>k. lcut key r = At k False \<and> rcut key r = At k True)"
  using assms unfolding range_ok_def end_ok_def FPoint_def lcut_def rcut_def
  by (cases "m_pdatumLeft r"; cases "m_pdatumRight r"; cases "m_eriLeft r"; cases "m_eriRight r")
    (auto simp: comparator_keys)

subsection \<open>The operations compute spans\<close>

lemma FOverlapsLeft_cut:
  assumes "range_ok D key a" "range_ok D key b" "\<not> FContains pcomp a b" "\<not> FContains pcomp b a"
  shows "FOverlapsLeft pcomp a b \<longleftrightarrow> lcut key a < lcut key b \<and> rcut key a < rcut key b \<and> lcut key b < rcut key a"
  using assms(3,4)
  unfolding FOverlapsLeft_def FContains_cut [OF assms(1,2)] FContains_cut [OF assms(2,1)]
    FStartsBefore_cut [OF assms(1,2)] FEndsAfter_cut [OF assms(1,2)] FDisjointLeft_cut [OF assms(1,2)]
    lcut_NegInf [symmetric] rcut_PosInf [symmetric]
  by (auto simp: not_le not_less)

lemma FOverlapsRight_cut:
  assumes "range_ok D key a" "range_ok D key b" "\<not> FContains pcomp a b" "\<not> FContains pcomp b a"
  shows "FOverlapsRight pcomp a b \<longleftrightarrow> rcut key b < rcut key a \<and> lcut key b < lcut key a \<and> lcut key a < rcut key b"
  using assms(3,4)
  unfolding FOverlapsRight_def FContains_cut [OF assms(1,2)] FContains_cut [OF assms(2,1)]
    FStartsBefore_cut [OF assms(1,2)] FEndsAfter_cut [OF assms(1,2)] FDisjointLeft_cut [OF assms(2,1)]
    lcut_NegInf [symmetric] rcut_PosInf [symmetric]
  by (auto simp: not_le not_less)

lemma mk_range_cuts:
  "lcut key \<lparr>m_pmdid = t, m_pdatumLeft = m_pdatumLeft a, m_eriLeft = m_eriLeft a, m_pdatumRight = p, m_eriRight = e\<rparr> = lcut key a"
  "rcut key \<lparr>m_pmdid = t, m_pdatumLeft = q, m_eriLeft = f, m_pdatumRight = m_pdatumRight b, m_eriRight = m_eriRight b\<rparr> = rcut key b"
  by (simp_all add: lcut_def rcut_def split: option.split)

lemma mk_range_inverse_left:
  assumes "end_ok D (m_pdatumLeft b) (m_eriLeft b)" "m_pdatumLeft b \<noteq> None"
  shows "rcut key \<lparr>m_pmdid = t, m_pdatumLeft = q, m_eriLeft = f,
                   m_pdatumRight = m_pdatumLeft b, m_eriRight = EriInverseInclusion (m_eriLeft b)\<rparr> = lcut key b"
  using assms by (cases "m_eriLeft b") (auto simp: lcut_def rcut_def end_ok_def)

lemma mk_range_inverse_right:
  assumes "end_ok D (m_pdatumRight b) (m_eriRight b)" "m_pdatumRight b \<noteq> None"
  shows "lcut key \<lparr>m_pmdid = t, m_pdatumLeft = m_pdatumRight b, m_eriLeft = EriInverseInclusion (m_eriRight b),
                   m_pdatumRight = q, m_eriRight = f\<rparr> = rcut key b"
  using assms by (cases "m_eriRight b") (auto simp: lcut_def rcut_def end_ok_def)

lemma end_ok_inverse: "end_ok D p e \<Longrightarrow> p \<noteq> None \<Longrightarrow> end_ok D p (EriInverseInclusion e)"
  by (auto simp: end_ok_def)

lemma PrngIntersect_span:
  assumes "range_ok D key a" "range_ok D key b"
  shows "map_option (span_of key) (PrngIntersect pcomp a b) = span_inter (span_of key a) (span_of key b)"
    and "PrngIntersect pcomp a b = Some r \<Longrightarrow> range_ok D key r"
proof -
  note ab = range_okD [OF assms(1)] range_okD [OF assms(2)]
  consider (1) "FContains pcomp a b" | (2) "\<not> FContains pcomp a b" "FContains pcomp b a"
    | (3) "\<not> FContains pcomp a b" "\<not> FContains pcomp b a" by blast
  then have "map_option (span_of key) (PrngIntersect pcomp a b) = span_inter (span_of key a) (span_of key b)
    \<and> (\<forall>r. PrngIntersect pcomp a b = Some r \<longrightarrow> range_ok D key r)"
  proof cases
    case 1
    then show ?thesis
      using assms ab by (simp add: PrngIntersect_def FContains_cut span_inter_def span_of_def max_absorb2 min_absorb2)
  next
    case 2
    then show ?thesis
      using assms ab by (auto simp: PrngIntersect_def FContains_cut span_inter_def span_of_def max_absorb1 min_absorb1)
  next
    case 3
    note cuts = 3 [unfolded FContains_cut [OF assms] FContains_cut [OF assms(2,1)]]
    show ?thesis
      using cuts ab unfolding PrngIntersect_def FOverlapsLeft_cut [OF assms 3] FOverlapsRight_cut [OF assms 3]
      by (auto simp: 3 span_inter_def span_of_def range_ok_def mk_range_cuts max_def min_def)
  qed
  then show "map_option (span_of key) (PrngIntersect pcomp a b) = span_inter (span_of key a) (span_of key b)"
    "PrngIntersect pcomp a b = Some r \<Longrightarrow> range_ok D key r" by blast+
qed

lemma PrngDifferenceLeft_span:
  assumes "range_ok D key a" "range_ok D key b"
  shows "map_option (span_of key) (PrngDifferenceLeft pcomp a b) = span_diff_left (span_of key a) (span_of key b)"
    and "PrngDifferenceLeft pcomp a b = Some r \<Longrightarrow> range_ok D key r"
proof -
  note ab = range_okD [OF assms(1)] range_okD [OF assms(2)]
  have *: "map_option (span_of key) (PrngDifferenceLeft pcomp a b) = span_diff_left (span_of key a) (span_of key b)
    \<and> (\<forall>r. PrngDifferenceLeft pcomp a b = Some r \<longrightarrow> range_ok D key r)"
  proof (cases "m_pdatumLeft b = None")
    case True
    then have "lcut key b = NegInf" by (simp add: lcut_NegInf)
    then show ?thesis using True
      by (simp add: PrngDifferenceLeft_def FDisjointLeft_cut [OF assms] span_diff_left_def span_of_def)
  next
    case False
    then show ?thesis
      using ab unfolding PrngDifferenceLeft_def FDisjointLeft_cut [OF assms] FStartsBefore_cut [OF assms]
      by (auto simp: span_diff_left_def span_of_def range_ok_def mk_range_cuts mk_range_inverse_left
          end_ok_inverse min_def)
  qed
  then show "map_option (span_of key) (PrngDifferenceLeft pcomp a b) = span_diff_left (span_of key a) (span_of key b)"
    "PrngDifferenceLeft pcomp a b = Some r \<Longrightarrow> range_ok D key r" by blast+
qed

lemma PrngDifferenceRight_span:
  assumes "range_ok D key a" "range_ok D key b"
  shows "map_option (span_of key) (PrngDifferenceRight pcomp a b) = span_diff_right (span_of key a) (span_of key b)"
    and "PrngDifferenceRight pcomp a b = Some r \<Longrightarrow> range_ok D key r"
proof -
  note ab = range_okD [OF assms(1)] range_okD [OF assms(2)]
  have *: "map_option (span_of key) (PrngDifferenceRight pcomp a b) = span_diff_right (span_of key a) (span_of key b)
    \<and> (\<forall>r. PrngDifferenceRight pcomp a b = Some r \<longrightarrow> range_ok D key r)"
  proof (cases "m_pdatumRight b = None")
    case True
    then have "rcut key b = PosInf" by (simp add: rcut_PosInf)
    then show ?thesis using True ab
      by (simp add: PrngDifferenceRight_def FDisjointLeft_cut [OF assms(2,1)] span_diff_right_def span_of_def
          not_le max_def)
  next
    case False
    then show ?thesis
      using ab unfolding PrngDifferenceRight_def FDisjointLeft_cut [OF assms(2,1)] FEndsAfter_cut [OF assms]
      by (auto simp: span_diff_right_def span_of_def range_ok_def mk_range_cuts mk_range_inverse_right
          end_ok_inverse max_def)
  qed
  then show "map_option (span_of key) (PrngDifferenceRight pcomp a b) = span_diff_right (span_of key a) (span_of key b)"
    "PrngDifferenceRight pcomp a b = Some r \<Longrightarrow> range_ok D key r" by blast+
qed

text \<open>A range extends another exactly when it starts where the other ends.\<close>

lemma PrngExtend_span:
  assumes "range_ok D key a" "range_ok D key b"
  shows "PrngExtend pcomp a b \<noteq> None \<longleftrightarrow> rcut key a = lcut key b"
    and "PrngExtend pcomp a b = Some r \<Longrightarrow> range_ok D key r \<and> span_of key r = (lcut key a, rcut key b)"
proof -
  note ab = range_okD [OF assms(1)] range_okD [OF assms(2)]
  show iff: "PrngExtend pcomp a b \<noteq> None \<longleftrightarrow> rcut key a = lcut key b"
    using ab(1,2,4,5) unfolding PrngExtend_def FDisjointLeft_cut [OF assms] end_ok_def
    by (cases "m_pdatumLeft b"; cases "m_pdatumRight a"; cases "m_eriLeft b"; cases "m_eriRight a")
      (auto simp: lcut_def rcut_def comparator_keys split: option.splits)
  assume r: "PrngExtend pcomp a b = Some r"
  then have "rcut key a = lcut key b" using iff by auto
  then have "lcut key a < rcut key b" using ab by simp
  then show "range_ok D key r \<and> span_of key r = (lcut key a, rcut key b)"
    using r ab by (auto simp: PrngExtend_def range_ok_def span_of_def mk_range_cuts split: if_splits)
qed

lemma range_from_cmp_ok:
  assumes "D d"
  shows "range_ok D key (range_from_cmp cmp d)"
  using assms by (cases cmp) (auto simp: range_ok_def end_ok_def lcut_def rcut_def)

end

interpretation intdat: datum_comparator "CDefaultComparator builtin_ctx" int_datum stats_key
  by unfold_locales

end
