(* ===== verification/ConstraintInterval.thy ===== *)
theory ConstraintInterval
  imports Range ScalarExpr
begin

text \<open>
  Interval constraints on one column: \<^verbatim>\<open>CConstraintInterval\<close> of
  \<^verbatim>\<open>libgpopt/src/base/CConstraintInterval.cpp\<close>, its set operations on sorted arrays of
  ranges and their refinement to the operations on spans of theory \<open>Cut\<close>.  An array index into
  the operand's ranges is the suffix that starts there.
\<close>

section \<open>The data\<close>

record constraint_interval =
  m_pcr :: colref
  m_pdrgprng :: "range list"
  m_fIncludesNull :: bool

definition ci_FContradiction :: "constraint_interval \<Rightarrow> bool" where
  "ci_FContradiction this = (\<not> m_fIncludesNull this \<and> length (m_pdrgprng this) = 0)"

definition ci_FUnbounded :: "constraint_interval \<Rightarrow> bool" where
  "ci_FUnbounded this =
     (m_fIncludesNull this \<and> 1 = length (m_pdrgprng this) \<and> range_FUnbounded (m_pdrgprng this ! 0))"

section \<open>Building arrays of ranges\<close>

definition AppendOrExtend :: "idatum comparator \<Rightarrow> range list \<Rightarrow> range option \<Rightarrow> range list" where
  "AppendOrExtend pcomp pdrgprng prange =
     (case prange of
        None \<Rightarrow> pdrgprng
      | Some r \<Rightarrow>
          if length pdrgprng = 0 then pdrgprng @ [r]
          else case PrngExtend pcomp (pdrgprng ! (length pdrgprng - 1)) r of
              None \<Rightarrow> pdrgprng @ [r]
            | Some prangeNew \<Rightarrow> pdrgprng[length pdrgprng - 1 := prangeNew])"

fun AddRemainingRanges :: "idatum comparator \<Rightarrow> range list \<Rightarrow> range list \<Rightarrow> range list" where
  "AddRemainingRanges pcomp [] dest = dest"
| "AddRemainingRanges pcomp (r # src) dest = AddRemainingRanges pcomp src (AppendOrExtend pcomp dest (Some r))"

definition PrangeDiffWithRightResidual ::
    "idatum comparator \<Rightarrow> range \<Rightarrow> range \<Rightarrow> range option \<times> range option" where
  "PrangeDiffWithRightResidual pcomp prangeFirst prangeSecond =
     (if FDisjointLeft pcomp prangeSecond prangeFirst then (None, None)
      else ((if FContains pcomp prangeFirst prangeSecond
             then PrngDifferenceLeft pcomp prangeFirst prangeSecond else None),
            PrngDifferenceRight pcomp prangeFirst prangeSecond))"

section \<open>Intersection, union and difference\<close>

fun intersect_loop :: "idatum comparator \<Rightarrow> range list \<Rightarrow> range list \<Rightarrow> range list \<Rightarrow> range list" where
  "intersect_loop pcomp (x # xs) (y # ys) new =
     (if FEndsAfter pcomp y x
      then intersect_loop pcomp xs (y # ys)
             (case PrngIntersect pcomp x y of None \<Rightarrow> new | Some r \<Rightarrow> new @ [r])
      else intersect_loop pcomp (x # xs) ys
             (case PrngIntersect pcomp y x of None \<Rightarrow> new | Some r \<Rightarrow> new @ [r]))"
| "intersect_loop pcomp _ _ new = new"

definition PciIntersect :: "idatum comparator \<Rightarrow> constraint_interval \<Rightarrow> constraint_interval \<Rightarrow> constraint_interval" where
  "PciIntersect pcomp this pci =
     \<lparr>m_pcr = m_pcr this,
      m_pdrgprng = intersect_loop pcomp (m_pdrgprng this) (m_pdrgprng pci) [],
      m_fIncludesNull = (m_fIncludesNull this \<and> m_fIncludesNull pci)\<rparr>"

text \<open>The loop of the union returns what is left of the two operands, and the new array.\<close>

fun union_loop :: "idatum comparator \<Rightarrow> range list \<Rightarrow> range list \<Rightarrow> range list
    \<Rightarrow> range list \<times> range list \<times> range list" where
  "union_loop pcomp (x # xs) (y # ys) new =
     (if FEndsAfter pcomp y x
      then union_loop pcomp xs (y # ys) (AppendOrExtend pcomp new (PrngDifferenceLeft pcomp x y))
      else union_loop pcomp (x # xs) ys (AppendOrExtend pcomp new (PrngDifferenceLeft pcomp y x)))"
| "union_loop pcomp xs ys new = (xs, ys, new)"

definition PciUnion :: "idatum comparator \<Rightarrow> constraint_interval \<Rightarrow> constraint_interval \<Rightarrow> constraint_interval" where
  "PciUnion pcomp this pci =
     (let (xs, ys, new) = union_loop pcomp (m_pdrgprng this) (m_pdrgprng pci) []
      in \<lparr>m_pcr = m_pcr this,
          m_pdrgprng = AddRemainingRanges pcomp ys (AddRemainingRanges pcomp xs new),
          m_fIncludesNull = (m_fIncludesNull this \<or> m_fIncludesNull pci)\<rparr>)"

text \<open>The loop of the difference returns what is left of this interval, the residual and the new array.\<close>

fun difference_ranges_loop :: "idatum comparator \<Rightarrow> range list \<Rightarrow> range list \<Rightarrow> range option \<Rightarrow> range list
    \<Rightarrow> range list \<times> range option \<times> range list" where
  "difference_ranges_loop pcomp (x # xs) (y # ys) residual new =
     (let prangeThis = (case residual of None \<Rightarrow> x | Some r \<Rightarrow> r)
      in if FEndsWithOrAfter pcomp y prangeThis
         then difference_ranges_loop pcomp xs (y # ys) None
                (AppendOrExtend pcomp new (PrngDifferenceLeft pcomp prangeThis y))
         else (case PrangeDiffWithRightResidual pcomp prangeThis y of
                 (prangeNew, residual') \<Rightarrow>
                   difference_ranges_loop pcomp (x # xs) ys residual' (AppendOrExtend pcomp new prangeNew)))"
| "difference_ranges_loop pcomp xs ys residual new = (xs, residual, new)"

definition PciDifference :: "idatum comparator \<Rightarrow> constraint_interval \<Rightarrow> constraint_interval \<Rightarrow> constraint_interval" where
  "PciDifference pcomp this pci =
     (case difference_ranges_loop pcomp (m_pdrgprng this) (m_pdrgprng pci) None [] of
        (xs, residual, new) \<Rightarrow>
          \<lparr>m_pcr = m_pcr this,
           m_pdrgprng = AddRemainingRanges pcomp (if residual \<noteq> None then drop 1 xs else xs)
                          (AppendOrExtend pcomp new residual),
           m_fIncludesNull = (m_fIncludesNull this \<and> \<not> m_fIncludesNull pci)\<rparr>)"

section \<open>Containment, the unbounded interval and complements\<close>

definition FContainsInterval :: "idatum comparator \<Rightarrow> constraint_interval \<Rightarrow> constraint_interval \<Rightarrow> bool" where
  "FContainsInterval pcomp this pci =
     (if ci_FUnbounded this then True
      else if ci_FUnbounded pci \<or> (\<not> m_fIncludesNull this \<and> m_fIncludesNull pci) then False
      else ci_FContradiction (PciDifference pcomp pci this))"

definition PciUnbounded :: "cmp_context \<Rightarrow> colref \<Rightarrow> bool \<Rightarrow> constraint_interval option" where
  "PciUnbounded ctx pcr fIncludesNull =
     (if \<not> FConstrainableType ctx (m_eti pcr) then None
      else Some \<lparr>m_pcr = pcr,
                 m_pdrgprng = [\<lparr>m_pmdid = m_eti pcr, m_pdatumLeft = None, m_eriLeft = EriExcluded,
                                m_pdatumRight = None, m_eriRight = EriExcluded\<rparr>],
                 m_fIncludesNull = fIncludesNull\<rparr>)"

text \<open>The unbounded interval on the first constrainable column of a set, in iteration order.\<close>

fun PciUnbounded_cols :: "cmp_context \<Rightarrow> colref list \<Rightarrow> bool \<Rightarrow> constraint_interval option" where
  "PciUnbounded_cols ctx [] fIncludesNull = None"
| "PciUnbounded_cols ctx (pcr # pcrs) fIncludesNull =
     (case PciUnbounded ctx pcr fIncludesNull of
        Some pci \<Rightarrow> Some pci
      | None \<Rightarrow> PciUnbounded_cols ctx pcrs fIncludesNull)"

text \<open>
  \<open>PciComplement\<close> calls a method of the unbounded interval without a test: \<open>None\<close> is the \<open>NULL\<close>
  dereference on a column whose type is not constrainable.
\<close>

definition PciComplement :: "cmp_context \<Rightarrow> idatum comparator \<Rightarrow> constraint_interval \<Rightarrow> constraint_interval option" where
  "PciComplement ctx pcomp this =
     (case PciUnbounded ctx (m_pcr this) True of
        None \<Rightarrow> None
      | Some pciUniversal \<Rightarrow> Some (PciDifference pcomp pciUniversal this))"

definition PmdidType :: "constraint_interval \<Rightarrow> etypeinfo" where
  "PmdidType this = (if 0 < length (m_pdrgprng this) then m_pmdid (m_pdrgprng this ! 0) else m_eti (m_pcr this))"

text \<open>Restriction to a column, to a set of columns, and a copy for another column.\<close>

definition Pcnstr_col :: "constraint_interval \<Rightarrow> colref \<Rightarrow> constraint_interval option" where
  "Pcnstr_col this pcr = (if m_pcr this = pcr then Some this else None)"

definition Pcnstr_cols :: "constraint_interval \<Rightarrow> colref set \<Rightarrow> constraint_interval option" where
  "Pcnstr_cols this pcrs = (if m_pcr this \<in> pcrs then Some this else None)"

definition PcnstrRemapForColumn :: "constraint_interval \<Rightarrow> colref \<Rightarrow> constraint_interval" where
  "PcnstrRemapForColumn this pcr =
     \<lparr>m_pcr = pcr, m_pdrgprng = m_pdrgprng this, m_fIncludesNull = m_fIncludesNull this\<rparr>"

section \<open>Intervals from comparisons\<close>

text \<open>The ranges that a comparison with a constant describes; \<open>None\<close> for an unknown operator.\<close>

definition PciRangeFromColConstCmp :: "ecmptype \<Rightarrow> idatum \<Rightarrow> range list option" where
  "PciRangeFromColConstCmp ecmpt pdatum =
     (if ecmpt = EcmptOther then None
      else if ecmpt = EcmptNEq \<or> ecmpt = EcmptIDF
      then Some [range_from_cmp EcmptL pdatum, range_from_cmp EcmptG pdatum]
      else Some [range_from_cmp ecmpt pdatum])"

definition PciIntervalFromColConstCmp :: "colref \<Rightarrow> ecmptype \<Rightarrow> idatum \<Rightarrow> constraint_interval option" where
  "PciIntervalFromColConstCmp pcr ecmpt pdatum =
     (case PciRangeFromColConstCmp ecmpt pdatum of
        None \<Rightarrow> None
      | Some rs \<Rightarrow> Some \<lparr>m_pcr = pcr, m_pdrgprng = rs, m_fIncludesNull = False\<rparr>)"

subsection \<open>Sorted sets of datums\<close>

text \<open>
  \<open>CDatumSortedSet\<close>: the non-null constants sorted by the comparator and without duplicates, and
  whether there was a null.  The array's sort is the \<open>qsort\<close> of the C library; the order it gives
  to equal datums, which are merged here, is that of an insertion sort.  The code reads
  element \<open>0\<close> of the sorted array without a test: \<open>None\<close> is that access when all are null.
\<close>

fun dedup_datums :: "idatum comparator \<Rightarrow> idatum \<Rightarrow> idatum list \<Rightarrow> idatum list" where
  "dedup_datums pcomp prev [] = []"
| "dedup_datums pcomp prev (d # ds) =
     (if \<not> FEqual pcomp d prev then d # dedup_datums pcomp d ds else dedup_datums pcomp prev ds)"

fun insert_datum :: "idatum comparator \<Rightarrow> idatum \<Rightarrow> idatum list \<Rightarrow> idatum list" where
  "insert_datum pcomp d [] = [d]"
| "insert_datum pcomp d (e # ds) =
     (if IDatumCmp pcomp d e \<le> 0 then d # e # ds else e # insert_datum pcomp d ds)"

definition sort_datums :: "idatum comparator \<Rightarrow> idatum list \<Rightarrow> idatum list" where
  "sort_datums pcomp ds = foldr (insert_datum pcomp) ds []"

definition CDatumSortedSet :: "idatum comparator \<Rightarrow> idatum list \<Rightarrow> (idatum list \<times> bool) option" where
  "CDatumSortedSet pcomp consts =
     (case sort_datums pcomp (filter (\<lambda>d. \<not> d_null d) consts) of
        [] \<Rightarrow> None
      | d # ds \<Rightarrow> Some (d # dedup_datums pcomp d ds, \<exists>c \<in> set consts. d_null c))"

text \<open>The ranges of \<open>NOT IN\<close>: \<open>(-inf, X) (X, Y) ... (Z, inf)\<close>.\<close>

fun not_in_ranges :: "idatum option \<Rightarrow> idatum list \<Rightarrow> range list" where
  "not_in_ranges prev [] =
     (case prev of None \<Rightarrow> []
      | Some p \<Rightarrow> [\<lparr>m_pmdid = d_type p, m_pdatumLeft = Some p, m_eriLeft = EriExcluded,
                   m_pdatumRight = None, m_eriRight = EriExcluded\<rparr>])"
| "not_in_ranges prev (d # ds) =
     \<lparr>m_pmdid = d_type d, m_pdatumLeft = prev, m_eriLeft = EriExcluded,
      m_pdatumRight = Some d, m_eriRight = EriExcluded\<rparr> # not_in_ranges (Some d) ds"

text \<open>
  \<open>PcnstrIntervalFromScalarArrayCmp\<close> on a column and an array of constants.  The outer \<open>None\<close> is
  the out-of-bounds access above, the inner one the \<open>NULL\<close> the function returns.
\<close>

definition PcnstrIntervalFromScalarArrayCmp ::
    "idatum comparator \<Rightarrow> colref \<Rightarrow> ecmptype \<Rightarrow> idatum list \<Rightarrow> constraint_interval option option" where
  "PcnstrIntervalFromScalarArrayCmp pcomp pcr ecmpt consts =
     (if length consts = 0 then Some None
      else case CDatumSortedSet pcomp consts of
          None \<Rightarrow> None
        | Some (ds, fContainsNull) \<Rightarrow>
            Some (if ecmpt = EcmptEq
                  then Some \<lparr>m_pcr = pcr, m_pdrgprng = map (range_from_cmp EcmptEq) ds, m_fIncludesNull = fContainsNull\<rparr>
                  else if ecmpt = EcmptNEq
                  then Some \<lparr>m_pcr = pcr, m_pdrgprng = not_in_ranges None ds, m_fIncludesNull = fContainsNull\<rparr>
                  else None))"

section \<open>Recognising IN and NOT IN\<close>

text \<open>\<open>None\<close> propagates a \<open>NULL\<close> dereference in \<open>FPoint\<close>; the loop stops at the first non-point.\<close>

fun all_points :: "idatum comparator \<Rightarrow> range list \<Rightarrow> bool option" where
  "all_points pcomp [] = Some True"
| "all_points pcomp (r # rs) =
     (case FPoint pcomp r of None \<Rightarrow> None | Some p \<Rightarrow> if p then all_points pcomp rs else Some False)"

definition FConvertsToIn :: "idatum comparator \<Rightarrow> constraint_interval \<Rightarrow> bool option" where
  "FConvertsToIn pcomp this =
     (if 1 \<ge> length (m_pdrgprng this) then Some False else all_points pcomp (m_pdrgprng this))"

fun not_in_pattern :: "idatum comparator \<Rightarrow> range \<Rightarrow> range list \<Rightarrow> bool" where
  "not_in_pattern pcomp left [] = True"
| "not_in_pattern pcomp left (right # rs) =
     (m_eriRight left = EriExcluded \<and> m_eriLeft right = EriExcluded
      \<and> FUpperBoundEqualsLowerBound pcomp left right \<and> not_in_pattern pcomp right rs)"

definition FConvertsToNotIn :: "idatum comparator \<Rightarrow> constraint_interval \<Rightarrow> bool" where
  "FConvertsToNotIn pcomp this =
     (let rs = m_pdrgprng this
      in if 1 \<ge> length rs then False
         else if m_pdatumLeft (rs ! 0) \<noteq> None \<or> m_pdatumRight (rs ! (length rs - 1)) \<noteq> None then False
         else not_in_pattern pcomp (rs ! 0) (drop 1 rs))"

section \<open>The meaning of an interval\<close>

text \<open>
  The values that satisfy the constraint: \<open>v\<close> is a datum of the column, possibly null.
\<close>

definition ci_holds :: "idatum comparator \<Rightarrow> constraint_interval \<Rightarrow> idatum \<Rightarrow> bool" where
  "ci_holds pcomp pci v \<longleftrightarrow>
     (if d_null v then m_fIncludesNull pci else \<exists>r \<in> set (m_pdrgprng pci). in_range pcomp r v)"

text \<open>The representation invariant: well-formed ranges, sorted, and no two of them touch.\<close>

definition ranges_ok :: "(idatum \<Rightarrow> bool) \<Rightarrow> (idatum \<Rightarrow> 'k::linorder) \<Rightarrow> range list \<Rightarrow> bool" where
  "ranges_ok D key rs \<longleftrightarrow> list_all (range_ok D key) rs \<and> strict_chain (map (span_of key) rs)"

definition ci_ok :: "(idatum \<Rightarrow> bool) \<Rightarrow> (idatum \<Rightarrow> 'k::linorder) \<Rightarrow> constraint_interval \<Rightarrow> bool" where
  "ci_ok D key pci \<longleftrightarrow> ranges_ok D key (m_pdrgprng pci)"

section \<open>Refinement of the span operations\<close>

text \<open>A comparison of keys.\<close>

definition key_cmp :: "ecmptype \<Rightarrow> 'k::linorder \<Rightarrow> 'k \<Rightarrow> bool" where
  "key_cmp t x y \<longleftrightarrow>
     (case t of EcmptEq \<Rightarrow> x = y | EcmptNEq \<Rightarrow> x \<noteq> y | EcmptL \<Rightarrow> x < y | EcmptLEq \<Rightarrow> x \<le> y
      | EcmptG \<Rightarrow> y < x | EcmptGEq \<Rightarrow> y \<le> x | EcmptIDF \<Rightarrow> x \<noteq> y | EcmptOther \<Rightarrow> False)"

text \<open>What is left of this interval: the residual, if any, in place of the current range.\<close>

definition remaining :: "range list \<Rightarrow> range option \<Rightarrow> range list" where
  "remaining xs res = (case res of None \<Rightarrow> xs | Some r \<Rightarrow> r # tl xs)"

lemma remaining_simps [simp]: "remaining xs None = xs" "remaining xs (Some r) = r # tl xs"
  by (simp_all add: remaining_def)

context datum_comparator
begin

abbreviation rok :: "range \<Rightarrow> bool" where "rok \<equiv> range_ok D key"
abbreviation spn :: "range \<Rightarrow> 'k span" where "spn \<equiv> span_of key"

lemma rok_spn: "rok r \<Longrightarrow> fst (spn r) < snd (spn r)"
  by (simp add: range_ok_def span_of_def)

lemma FEndsAfter_spn: "rok a \<Longrightarrow> rok b \<Longrightarrow> FEndsAfter pcomp a b \<longleftrightarrow> ends_after (spn a) (spn b)"
  by (simp add: FEndsAfter_cut ends_after_def span_of_def rcut_PosInf)

lemma FEndsWithOrAfter_spn: "rok a \<Longrightarrow> rok b \<Longrightarrow> FEndsWithOrAfter pcomp a b \<longleftrightarrow> snd (spn b) \<le> snd (spn a)"
  by (simp add: FEndsWithOrAfter_cut span_of_def)

lemma AppendOrExtend_None [simp]: "AppendOrExtend pcomp new None = new"
  by (simp add: AppendOrExtend_def)

lemma AppendOrExtend_span:
  assumes "list_all rok new" "\<forall>r \<in> set_option ro. rok r"
  shows "list_all rok (AppendOrExtend pcomp new ro)
    \<and> map spn (AppendOrExtend pcomp new ro) = append_opt (map spn new) (map_option spn ro)"
proof (cases ro)
  case (Some r)
  have r: "rok r" using assms Some by simp
  show ?thesis
  proof (cases new rule: rev_cases)
    case Nil
    then show ?thesis using Some r by (simp add: AppendOrExtend_def append_span_def)
  next
    case (snoc xs x)
    have x: "rok x" using assms snoc by simp
    note e = PrngExtend_span [OF x r]
    show ?thesis
    proof (cases "PrngExtend pcomp x r")
      case None
      then show ?thesis using Some snoc r assms e(1)
        by (auto simp: AppendOrExtend_def append_span_def span_of_def)
    next
      case (Some n)
      then show ?thesis using \<open>ro = Some r\<close> snoc assms e(1) e(2) [OF Some]
        by (auto simp: AppendOrExtend_def append_span_def span_of_def)
    qed
  qed
qed (use assms in simp)

lemma AddRemainingRanges_span:
  assumes "list_all rok new" "list_all rok src"
  shows "list_all rok (AddRemainingRanges pcomp src new)
    \<and> map spn (AddRemainingRanges pcomp src new) = foldl append_span (map spn new) (map spn src)"
  using assms
proof (induction src arbitrary: new)
  case (Cons r src)
  note a = AppendOrExtend_span [of new "Some r"]
  show ?case using Cons a by simp
qed simp

subsection \<open>Intersection\<close>

lemma append_intersect:
  assumes "rok a" "rok b" "list_all rok new"
  shows "list_all rok (case PrngIntersect pcomp a b of None \<Rightarrow> new | Some r \<Rightarrow> new @ [r])
    \<and> map spn (case PrngIntersect pcomp a b of None \<Rightarrow> new | Some r \<Rightarrow> new @ [r])
      = map spn new @ opt_spans (span_inter (spn a) (spn b))"
  using PrngIntersect_span(1) [OF assms(1,2)] PrngIntersect_span(2) [OF assms(1,2)] assms(3)
  by (cases "PrngIntersect pcomp a b") (auto simp flip: PrngIntersect_span(1) [OF assms(1,2)])

lemma intersect_loop_span:
  assumes "pc = pcomp" "list_all rok xs" "list_all rok ys" "list_all rok new"
  shows "list_all rok (intersect_loop pc xs ys new)
    \<and> map spn (intersect_loop pc xs ys new) = map spn new @ inter_spans (map spn xs) (map spn ys)"
  using assms
proof (induction pc xs ys new rule: intersect_loop.induct)
  case (1 pc x xs y ys new)
  then show ?case
    using append_intersect [of x y new] append_intersect [of y x new] FEndsAfter_spn [of y x] by auto
qed auto

theorem PciIntersect_refines:
  assumes "ci_ok D key a" "ci_ok D key b"
  shows "map spn (m_pdrgprng (PciIntersect pcomp a b)) = inter_spans (map spn (m_pdrgprng a)) (map spn (m_pdrgprng b))"
    and "ci_ok D key (PciIntersect pcomp a b)"
proof -
  have "list_all rok (m_pdrgprng a)" "list_all rok (m_pdrgprng b)"
    "strict_chain (map spn (m_pdrgprng a))" "strict_chain (map spn (m_pdrgprng b))"
    using assms by (simp_all add: ci_ok_def ranges_ok_def)
  then show "map spn (m_pdrgprng (PciIntersect pcomp a b)) = inter_spans (map spn (m_pdrgprng a)) (map spn (m_pdrgprng b))"
    and "ci_ok D key (PciIntersect pcomp a b)"
    using intersect_loop_span [OF refl, of "m_pdrgprng a" "m_pdrgprng b" "[]"] inter_spans_strict
    by (auto simp: PciIntersect_def ci_ok_def ranges_ok_def)
qed

subsection \<open>Union\<close>

lemma AppendOrExtend_diff_left:
  assumes "rok a" "rok b" "list_all rok new"
  shows "list_all rok (AppendOrExtend pcomp new (PrngDifferenceLeft pcomp a b))
    \<and> map spn (AppendOrExtend pcomp new (PrngDifferenceLeft pcomp a b))
      = append_opt (map spn new) (span_diff_left (spn a) (spn b))"
  using AppendOrExtend_span [of new "PrngDifferenceLeft pcomp a b"] assms(3)
    PrngDifferenceLeft_span(1) [OF assms(1,2)] PrngDifferenceLeft_span(2) [OF assms(1,2)]
  by auto

lemma union_loop_span:
  assumes "pc = pcomp" "list_all rok xs" "list_all rok ys" "list_all rok new"
    "union_loop pc xs ys new = (xs', ys', new')"
  shows "list_all rok (AddRemainingRanges pcomp ys' (AddRemainingRanges pcomp xs' new'))
    \<and> map spn (AddRemainingRanges pcomp ys' (AddRemainingRanges pcomp xs' new'))
      = union_spans (map spn xs) (map spn ys) (map spn new)"
  using assms
proof (induction pc xs ys new rule: union_loop.induct [case_names 1 left_end right_end])
  case (1 pc x xs y ys new)
  then show ?case
    using AppendOrExtend_diff_left [of x y new] AppendOrExtend_diff_left [of y x new] FEndsAfter_spn [of y x]
    by (auto split: if_splits)
next
  case (left_end pc ys new)
  then show ?case using AddRemainingRanges_span [of new ys] by auto
next
  case (right_end pc xs new)
  then show ?case using AddRemainingRanges_span [of new xs] by (cases xs) auto
qed

theorem PciUnion_refines:
  assumes "ci_ok D key a" "ci_ok D key b"
  shows "map spn (m_pdrgprng (PciUnion pcomp a b)) = union_spans (map spn (m_pdrgprng a)) (map spn (m_pdrgprng b)) []"
    and "ci_ok D key (PciUnion pcomp a b)"
proof -
  obtain xs ys new where u: "union_loop pcomp (m_pdrgprng a) (m_pdrgprng b) [] = (xs, ys, new)"
    by (cases "union_loop pcomp (m_pdrgprng a) (m_pdrgprng b) []") auto
  have ab: "list_all rok (m_pdrgprng a)" "list_all rok (m_pdrgprng b)"
    "chain (map spn (m_pdrgprng a))" "chain (map spn (m_pdrgprng b))"
    using assms by (simp_all add: ci_ok_def ranges_ok_def strict_chain_chain)
  note us = union_loop_span [OF refl ab(1,2) _ u, simplified]
  show "map spn (m_pdrgprng (PciUnion pcomp a b)) = union_spans (map spn (m_pdrgprng a)) (map spn (m_pdrgprng b)) []"
    using us u by (simp add: PciUnion_def)
  show "ci_ok D key (PciUnion pcomp a b)"
    using us u union_spans_correct [OF ab(3,4), of "[]"]
    by (simp add: PciUnion_def ci_ok_def ranges_ok_def ends_before_all_def)
qed

subsection \<open>Difference\<close>

lemma diff_residual:
  assumes "rok a" "rok b" "\<not> snd (spn a) \<le> snd (spn b)"
  shows "\<not> snd (spn b) \<le> fst (spn a) \<Longrightarrow>
      \<exists>r. PrangeDiffWithRightResidual pcomp a b = (PrngDifferenceLeft pcomp a b, Some r)
        \<and> rok r \<and> spn r = (snd (spn b), snd (spn a))"
    and "snd (spn b) \<le> fst (spn a) \<Longrightarrow> PrangeDiffWithRightResidual pcomp a b = (None, None)"
proof -
  show "PrangeDiffWithRightResidual pcomp a b = (None, None)" if "snd (spn b) \<le> fst (spn a)"
    using that assms by (simp add: PrangeDiffWithRightResidual_def FDisjointLeft_cut span_of_def)
  assume n: "\<not> snd (spn b) \<le> fst (spn a)"
  have "PrngDifferenceLeft pcomp a b = None" if "\<not> FContains pcomp a b"
  proof -
    have "span_diff_left (spn a) (spn b) = None"
      using that assms by (auto simp: FContains_cut span_of_def span_diff_left_def)
    then show ?thesis using PrngDifferenceLeft_span(1) [OF assms(1,2)] by simp
  qed
  moreover have "span_diff_right (spn a) (spn b) = Some (snd (spn b), snd (spn a))"
    using n assms(3) by (auto simp: span_diff_right_def max_def)
  then obtain r where "PrngDifferenceRight pcomp a b = Some r" "spn r = (snd (spn b), snd (spn a))"
    using PrngDifferenceRight_span(1) [OF assms(1,2)] by auto
  ultimately show "\<exists>r. PrangeDiffWithRightResidual pcomp a b = (PrngDifferenceLeft pcomp a b, Some r)
        \<and> rok r \<and> spn r = (snd (spn b), snd (spn a))"
    using n assms PrngDifferenceRight_span(2) [OF assms(1,2)]
    by (auto simp: PrangeDiffWithRightResidual_def FDisjointLeft_cut span_of_def)
qed

lemma difference_ranges_loop_span:
  assumes "pc = pcomp" "list_all rok (remaining xs res)" "list_all rok ys" "list_all rok new"
    "list_all rok xs" "chain (map spn (remaining xs res))" "chain (map spn ys)"
    "res \<noteq> None \<longrightarrow> xs \<noteq> [] \<and> (\<forall>y \<in> set ys. fst (spn (the res)) \<le> fst (spn y))"
    "difference_ranges_loop pc xs ys res new = (xs', res', new')"
  shows "list_all rok (AddRemainingRanges pcomp (if res' \<noteq> None then drop 1 xs' else xs') (AppendOrExtend pcomp new' res'))
    \<and> map spn (AddRemainingRanges pcomp (if res' \<noteq> None then drop 1 xs' else xs') (AppendOrExtend pcomp new' res'))
      = diff_spans (map spn (remaining xs res)) (map spn ys) (map spn new)"
  using assms
proof (induction pc xs ys res new rule: difference_ranges_loop.induct [case_names 1 left_end right_end])
  case (1 pc x xs y ys res new)
  define a where "a = (case res of None \<Rightarrow> x | Some r \<Rightarrow> r)"
  have rem: "remaining (x # xs) res = a # xs" by (cases res) (simp_all add: a_def)
  have oks: "pc = pcomp" "rok a" "rok y" "list_all rok xs" "list_all rok ys" "list_all rok new" "rok x"
    using 1(3-7) rem by auto
  have ends: "FEndsWithOrAfter pc y a \<longleftrightarrow> snd (spn a) \<le> snd (spn y)"
    using FEndsWithOrAfter_spn [OF oks(3,2)] oks(1) by simp
  note app = AppendOrExtend_diff_left [OF oks(2,3,6)]
  show ?case
  proof (cases "snd (spn a) \<le> snd (spn y)")
    case True
    have "difference_ranges_loop pc xs (y # ys) None (AppendOrExtend pc new (PrngDifferenceLeft pc a y)) = (xs', res', new')"
      using 1(11) True ends by (simp add: a_def Let_def)
    with 1(1) [OF a_def, unfolded ends, OF True oks(1)] 1(4-9) oks app rem True
    show ?thesis by (simp del: difference_ranges_loop.simps)
  next
    case F: False
    show ?thesis
    proof (cases "snd (spn y) \<le> fst (spn a)")
      case True
      have rn: "res = None"
      proof (rule ccontr)
        assume "res \<noteq> None"
        then have "fst (spn a) \<le> fst (spn y)" using 1(10) by (auto simp: a_def)
        then show False using True rok_spn [OF oks(3)] by simp
      qed
      have p: "PrangeDiffWithRightResidual pc a y = (None, None)"
        using diff_residual(2) [OF oks(2,3) F True] oks(1) by simp
      have "difference_ranges_loop pc (x # xs) ys None new = (xs', res', new')"
        using 1(11) F ends p oks(1) by (simp add: a_def Let_def)
      with 1(2) [OF a_def, unfolded ends, OF F p [symmetric] oks(1)] 1(4-9) oks rem rn F True
      show ?thesis by (simp del: difference_ranges_loop.simps)
    next
      case False
      obtain r where p: "PrangeDiffWithRightResidual pc a y = (PrngDifferenceLeft pcomp a y, Some r)"
        and r: "rok r" "spn r = (snd (spn y), snd (spn a))"
        using diff_residual(1) [OF oks(2,3) F False] oks(1) by auto
      have l: "difference_ranges_loop pc (x # xs) ys (Some r) (AppendOrExtend pc new (PrngDifferenceLeft pc a y)) = (xs', res', new')"
        using 1(11) F ends p oks(1) by (simp add: a_def Let_def)
      have "chain (map spn (r # xs))" using 1(8) rem r F by simp
      moreover have "\<forall>z \<in> set ys. fst (spn r) \<le> fst (spn z)" using 1(9) r by simp
      ultimately show ?thesis
        using 1(2) [OF a_def, unfolded ends, OF F p [symmetric] oks(1)] 1(9) oks app r rem F False l
        by (simp del: difference_ranges_loop.simps)
    qed
  qed
next
  case (left_end pc ys res new)
  then show ?case using AddRemainingRanges_span [of new "[]"] by auto
next
  case (right_end pc xs res new)
  show ?case
  proof (cases res)
    case None
    then show ?thesis using right_end AddRemainingRanges_span [of new xs] by (cases xs) auto
  next
    case (Some r)
    then have "rok r" using right_end by simp
    then show ?thesis
      using right_end Some AddRemainingRanges_span [of "AppendOrExtend pcomp new (Some r)" "tl xs"]
        AppendOrExtend_span [of new "Some r"] by (auto simp: drop_Suc)
  qed
qed

theorem PciDifference_refines:
  assumes "ci_ok D key a" "ci_ok D key b"
  shows "map spn (m_pdrgprng (PciDifference pcomp a b)) = diff_spans (map spn (m_pdrgprng a)) (map spn (m_pdrgprng b)) []"
    and "ci_ok D key (PciDifference pcomp a b)"
proof -
  obtain xs res new where u: "difference_ranges_loop pcomp (m_pdrgprng a) (m_pdrgprng b) None [] = (xs, res, new)"
    by (cases "difference_ranges_loop pcomp (m_pdrgprng a) (m_pdrgprng b) None []") auto
  have ab: "list_all rok (m_pdrgprng a)" "list_all rok (m_pdrgprng b)"
    "chain (map spn (m_pdrgprng a))" "chain (map spn (m_pdrgprng b))"
    using assms by (simp_all add: ci_ok_def ranges_ok_def strict_chain_chain)
  have us: "list_all rok (m_pdrgprng (PciDifference pcomp a b))
    \<and> map spn (m_pdrgprng (PciDifference pcomp a b)) = diff_spans (map spn (m_pdrgprng a)) (map spn (m_pdrgprng b)) []"
    using difference_ranges_loop_span [OF refl _ ab(2) _ ab(1) _ ab(4) _ u] ab u
    by (simp add: PciDifference_def)
  then show "map spn (m_pdrgprng (PciDifference pcomp a b)) = diff_spans (map spn (m_pdrgprng a)) (map spn (m_pdrgprng b)) []"
    by simp
  show "ci_ok D key (PciDifference pcomp a b)"
    using us diff_spans_correct [OF ab(3,4), of "[]"] by (simp add: ci_ok_def ranges_ok_def ends_before_all_def)
qed

subsection \<open>The operations on the values they hold for\<close>

lemma ci_holds_span:
  assumes "ci_ok D key a" "D v" "\<not> d_null v"
  shows "ci_holds pcomp a v \<longleftrightarrow> key v \<in> span_set (map spn (m_pdrgprng a))"
proof -
  have "\<forall>r \<in> set (m_pdrgprng a). in_range pcomp r v \<longleftrightarrow> in_span (spn r) (key v)"
    using assms in_range_span by (auto simp: ci_ok_def ranges_ok_def list_all_iff)
  then show ?thesis using assms(3) by (auto simp: ci_holds_def span_set_def)
qed

theorem PciIntersect_holds:
  assumes "ci_ok D key a" "ci_ok D key b" "D v"
  shows "ci_holds pcomp (PciIntersect pcomp a b) v \<longleftrightarrow> ci_holds pcomp a v \<and> ci_holds pcomp b v"
proof (cases "d_null v")
  case False
  have "chain (map spn (m_pdrgprng a))" "chain (map spn (m_pdrgprng b))"
    using assms by (simp_all add: ci_ok_def ranges_ok_def strict_chain_chain)
  then show ?thesis
    using assms False PciIntersect_refines [OF assms(1,2)] by (simp add: ci_holds_span inter_spans_set)
qed (simp add: ci_holds_def PciIntersect_def)

theorem PciUnion_holds:
  assumes "ci_ok D key a" "ci_ok D key b" "D v"
  shows "ci_holds pcomp (PciUnion pcomp a b) v \<longleftrightarrow> ci_holds pcomp a v \<or> ci_holds pcomp b v"
proof (cases "d_null v")
  case False
  have "chain (map spn (m_pdrgprng a))" "chain (map spn (m_pdrgprng b))"
    using assms by (simp_all add: ci_ok_def ranges_ok_def strict_chain_chain)
  then show ?thesis
    using assms False PciUnion_refines [OF assms(1,2)] 
    by (simp add: ci_holds_span union_spans_set)
qed (simp add: ci_holds_def PciUnion_def split: prod.split)

theorem PciDifference_holds:
  assumes "ci_ok D key a" "ci_ok D key b" "D v"
  shows "ci_holds pcomp (PciDifference pcomp a b) v \<longleftrightarrow> ci_holds pcomp a v \<and> \<not> ci_holds pcomp b v"
proof (cases "d_null v")
  case False
  have "chain (map spn (m_pdrgprng a))" "chain (map spn (m_pdrgprng b))"
    using assms by (simp_all add: ci_ok_def ranges_ok_def strict_chain_chain)
  then show ?thesis
    using assms False PciDifference_refines [OF assms(1,2)] 
    by (simp add: ci_holds_span diff_spans_set)
qed (simp add: ci_holds_def PciDifference_def split: prod.split)

theorem FContainsInterval_sound:
  assumes "ci_ok D key a" "ci_ok D key b" "D v" "FContainsInterval pcomp a b" "ci_holds pcomp b v"
  shows "ci_holds pcomp a v"
proof (cases "ci_FUnbounded a")
  case True
  then obtain r where r: "m_pdrgprng a = [r]" "range_FUnbounded r" "m_fIncludesNull a"
    by (cases "m_pdrgprng a") (auto simp: ci_FUnbounded_def)
  then show ?thesis by (auto simp: ci_holds_def in_range_def range_FUnbounded_def)
next
  case False
  then have c: "ci_FContradiction (PciDifference pcomp b a)"
    using assms(4) by (simp add: FContainsInterval_def split: if_splits)
  then have "\<not> ci_holds pcomp (PciDifference pcomp b a) v"
    by (auto simp: ci_holds_def ci_FContradiction_def)
  then show ?thesis using PciDifference_holds [OF assms(2,1,3)] assms(5) by blast
qed

subsection \<open>Unbounded intervals and complements\<close>

lemma PciUnbounded_ok:
  assumes "PciUnbounded ctx pcr n = Some u"
  shows "ci_ok D key u" "m_pcr u = pcr" "ci_holds pcomp u v \<longleftrightarrow> d_null v \<longrightarrow> n"
  using assms
  by (auto simp: PciUnbounded_def ci_ok_def ranges_ok_def range_ok_def end_ok_def lcut_def rcut_def
      span_of_def ci_holds_def in_range_def split: if_splits)

theorem PciComplement_holds:
  assumes "PciComplement ctx pcomp a = Some c" "ci_ok D key a" "D v"
  shows "ci_ok D key c" "m_pcr c = m_pcr a" "ci_holds pcomp c v \<longleftrightarrow> \<not> ci_holds pcomp a v"
proof -
  obtain u where u: "PciUnbounded ctx (m_pcr a) True = Some u" "c = PciDifference pcomp u a"
    using assms(1) by (auto simp: PciComplement_def split: option.splits)
  note un = PciUnbounded_ok [OF u(1)]
  show "ci_ok D key c" using PciDifference_refines(2) [OF un(1) assms(2)] u(2) by simp
  show "m_pcr c = m_pcr a" using un(2) u(2) by (simp add: PciDifference_def split: prod.split)
  show "ci_holds pcomp c v \<longleftrightarrow> \<not> ci_holds pcomp a v"
    using PciDifference_holds [OF un(1) assms(2,3)] un(3) [of v] u(2) by simp
qed

lemma PciIntersect_pcr [simp]: "m_pcr (PciIntersect pcomp a b) = m_pcr a"
  by (simp add: PciIntersect_def)

lemma PciUnion_pcr [simp]: "m_pcr (PciUnion pcomp a b) = m_pcr a"
  by (simp add: PciUnion_def split: prod.split)

subsection \<open>Intervals of comparisons\<close>

theorem PciIntervalFromColConstCmp_holds:
  assumes "PciIntervalFromColConstCmp pcr t d = Some pci" "D d" "D v"
  shows "ci_ok D key pci" "m_pcr pci = pcr" "ci_holds pcomp pci v \<longleftrightarrow> \<not> d_null v \<and> key_cmp t (key v) (key d)"
proof -
  show "m_pcr pci = pcr"
    using assms(1) by (auto simp: PciIntervalFromColConstCmp_def split: option.splits)
  show "ci_ok D key pci"
    using assms(1,2)
    by (cases t) (auto simp: PciIntervalFromColConstCmp_def PciRangeFromColConstCmp_def ci_ok_def ranges_ok_def
        span_of_def lcut_def rcut_def range_ok_def end_ok_def)
  show "ci_holds pcomp pci v \<longleftrightarrow> \<not> d_null v \<and> key_cmp t (key v) (key d)"
    using assms
    by (cases t) (auto simp: PciIntervalFromColConstCmp_def PciRangeFromColConstCmp_def ci_holds_def
        in_range_def key_cmp_def comparator_keys split: if_splits)
qed

subsection \<open>Sorted sets of datums\<close>

lemma IDatumCmp_key: "D x \<Longrightarrow> D y \<Longrightarrow> IDatumCmp pcomp x y \<le> 0 \<longleftrightarrow> key x \<le> key y"
  by (auto simp: IDatumCmp_def comparator_keys)

lemma insert_datum_sorted:
  assumes "D d" "\<forall>e \<in> set ds. D e" "sorted (map key ds)"
  shows "sorted (map key (insert_datum pcomp d ds)) \<and> set (insert_datum pcomp d ds) = insert d (set ds)"
  using assms(2,3)
proof (induction ds)
  case (Cons e ds)
  then show ?case using assms(1) by (auto simp: IDatumCmp_key)
qed simp

lemma sort_datums_sorted:
  "\<forall>e \<in> set ds. D e \<Longrightarrow> sorted (map key (sort_datums pcomp ds)) \<and> set (sort_datums pcomp ds) = set ds"
proof (induction ds)
  case (Cons d ds)
  then show ?case using insert_datum_sorted [of d "sort_datums pcomp ds"] by (simp add: sort_datums_def)
qed (simp add: sort_datums_def)

lemma dedup_datums_strict:
  assumes "\<forall>e \<in> set (p # ds). D e" "sorted (map key (p # ds))"
  shows "sorted_wrt (<) (map key (p # dedup_datums pcomp p ds))
    \<and> key ` set (p # dedup_datums pcomp p ds) = key ` set (p # ds)
    \<and> set (dedup_datums pcomp p ds) \<subseteq> set ds"
  using assms
proof (induction ds arbitrary: p)
  case (Cons d ds)
  show ?case
  proof (cases "key d = key p")
    case True
    then show ?thesis using Cons.prems Cons.IH [of p] by (auto simp: comparator_keys)
  next
    case False
    have "key p < key d" using False Cons.prems by auto
    then show ?thesis using False Cons.prems Cons.IH [of d] by (auto simp: comparator_keys)
  qed
qed simp

lemma CDatumSortedSet_keys:
  assumes "CDatumSortedSet pcomp consts = Some (ds, n)" "\<forall>e \<in> set consts. D e"
  shows "sorted_wrt (<) (map key ds)" "key ` set ds = key ` {c \<in> set consts. \<not> d_null c}"
    "\<forall>d \<in> set ds. D d" "n \<longleftrightarrow> (\<exists>c \<in> set consts. d_null c)" "ds \<noteq> []"
proof -
  let ?nn = "filter (\<lambda>d. \<not> d_null d) consts"
  have s: "sorted (map key (sort_datums pcomp ?nn)) \<and> set (sort_datums pcomp ?nn) = set ?nn"
    using assms(2) by (intro sort_datums_sorted) auto
  obtain d es where e: "sort_datums pcomp ?nn = d # es" "ds = d # dedup_datums pcomp d es"
    and n: "n \<longleftrightarrow> (\<exists>c \<in> set consts. d_null c)"
    using assms(1) by (auto simp: CDatumSortedSet_def split: list.splits)
  have "\<forall>e \<in> set (d # es). D e" using s e(1) assms(2) by auto
  then have dd: "sorted_wrt (<) (map key ds)" "key ` set ds = key ` set (d # es)" "set ds \<subseteq> set (d # es)"
    using dedup_datums_strict [of d es] s e by auto
  then show "sorted_wrt (<) (map key ds)" "key ` set ds = key ` {c \<in> set consts. \<not> d_null c}"
    "\<forall>d \<in> set ds. D d" "n \<longleftrightarrow> (\<exists>c \<in> set consts. d_null c)" "ds \<noteq> []"
    using s e n assms(2) by auto
qed

lemma in_ranges_ok:
  assumes "sorted_wrt (<) (map key ds)" "\<forall>d \<in> set ds. D d"
  shows "ranges_ok D key (map (range_from_cmp EcmptEq) ds)"
proof -
  have "strict_chain (map (span_of key) (map (range_from_cmp EcmptEq) ds))"
    using assms by (induction ds) (auto simp: span_of_def lcut_def rcut_def)
  then show ?thesis using assms(2) range_from_cmp_ok
    by (auto simp: ranges_ok_def list_all_iff simp del: range_from_cmp.simps)
qed

lemma not_in_ranges_ok:
  assumes "sorted_wrt (<) (map key (case p of None \<Rightarrow> ds | Some d \<Rightarrow> d # ds))"
    "\<forall>d \<in> set ds \<union> set_option p. D d" "ds \<noteq> [] \<or> p \<noteq> None"
  shows "ranges_ok D key (not_in_ranges p ds)
    \<and> (\<forall>r \<in> set (not_in_ranges p ds). case p of None \<Rightarrow> True | Some d \<Rightarrow> At (key d) True \<le> lcut key r)
    \<and> (\<forall>v. D v \<longrightarrow> (\<exists>r \<in> set (not_in_ranges p ds). in_range pcomp r v)
        \<longleftrightarrow> (\<forall>d \<in> set ds. key v \<noteq> key d) \<and> (case p of None \<Rightarrow> True | Some d \<Rightarrow> key d < key v))"
  using assms
proof (induction ds arbitrary: p)
  case Nil
  then show ?case
    by (auto simp: ranges_ok_def range_ok_def end_ok_def lcut_def rcut_def span_of_def in_range_def
        comparator_keys split: option.splits)
next
  case (Cons d ds)
  let ?r = "\<lparr>m_pmdid = d_type d, m_pdatumLeft = p, m_eriLeft = EriExcluded,
      m_pdatumRight = Some d, m_eriRight = EriExcluded\<rparr>"
  have pre: "sorted_wrt (<) (map key (d # ds))" "\<forall>e \<in> set ds \<union> {d}. D e"
    using Cons.prems by (cases p; simp)+
  note IH' = Cons.IH [of "Some d", simplified option.case, simplified, OF pre [simplified]]
  have IH: "ranges_ok D key (not_in_ranges (Some d) ds)"
    "\<forall>r \<in> set (not_in_ranges (Some d) ds). At (key d) True \<le> lcut key r"
    "\<forall>v. D v \<longrightarrow> (\<exists>r \<in> set (not_in_ranges (Some d) ds). in_range pcomp r v) \<longleftrightarrow> (\<forall>e \<in> set ds. key v \<noteq> key e) \<and> key d < key v"
    using IH' by blast+
  have rok: "range_ok D key ?r"
    using Cons.prems by (auto simp: range_ok_def end_ok_def lcut_def rcut_def split: option.splits)
  have rc: "rcut key ?r = At (key d) False" by (simp add: rcut_def)
  have "\<forall>r \<in> set (not_in_ranges (Some d) ds). At (key d) False < lcut key r"
    using IH(2) by (auto intro: less_le_trans [of _ "At (key d) True"])
  then have "ranges_ok D key (not_in_ranges p (d # ds))"
    using rok IH(1) rc range_okD(3) [OF rok] by (auto simp: ranges_ok_def span_of_def)
  moreover have "\<forall>r \<in> set (not_in_ranges p (d # ds)). case p of None \<Rightarrow> True | Some q \<Rightarrow> At (key q) True \<le> lcut key r"
  proof (cases p)
    case (Some q)
    then have "key q < key d" using Cons.prems(1) by simp
    then have "\<forall>r \<in> set (not_in_ranges (Some d) ds). At (key q) True \<le> lcut key r"
      using IH(2) by (auto intro: order_trans [of _ "At (key d) True"])
    moreover have "At (key q) True \<le> lcut key ?r" using Some by (simp add: lcut_def)
    ultimately show ?thesis using Some by simp
  qed simp
  moreover have "in_range pcomp ?r v \<longleftrightarrow> key v < key d \<and> (case p of None \<Rightarrow> True | Some q \<Rightarrow> key q < key v)" if "D v" for v
    using that Cons.prems(2) by (auto simp: in_range_def comparator_keys split: option.splits)
  moreover have less: "key d < key e" if "e \<in> set ds" for e using that pre(1) by simp
  moreover have "(key v < key d \<and> P \<or> (\<forall>e \<in> set ds. key v \<noteq> key e) \<and> key d < key v)
      \<longleftrightarrow> (\<forall>e \<in> set (d # ds). key v \<noteq> key e) \<and> P" if "key d < key v \<longrightarrow> P" for v P
    using that less by (cases "key v" "key d" rule: linorder_cases) fastforce+
  moreover have "key d < key v \<longrightarrow> (case p of None \<Rightarrow> True | Some q \<Rightarrow> key q < key v)" for v
    using Cons.prems(1) by (cases p) auto
  ultimately show ?case
    using IH(3) by simp
qed

text \<open>An \<open>IN\<close> list holds for its constants, a \<open>NOT IN\<close> list for all others; a null constant adds null.\<close>

theorem PcnstrIntervalFromScalarArrayCmp_holds:
  assumes "PcnstrIntervalFromScalarArrayCmp pcomp pcr t consts = Some (Some pci)" "\<forall>c \<in> set consts. D c" "D v"
  shows "ci_ok D key pci" "m_pcr pci = pcr"
    "d_null v \<Longrightarrow> ci_holds pcomp pci v \<longleftrightarrow> (\<exists>c \<in> set consts. d_null c)"
    "\<not> d_null v \<Longrightarrow> t = EcmptEq \<Longrightarrow> ci_holds pcomp pci v \<longleftrightarrow> (\<exists>c \<in> set consts. \<not> d_null c \<and> key v = key c)"
    "\<not> d_null v \<Longrightarrow> t = EcmptNEq \<Longrightarrow> ci_holds pcomp pci v \<longleftrightarrow> (\<forall>c \<in> set consts. \<not> d_null c \<longrightarrow> key v \<noteq> key c)"
proof -
  obtain ds n where ds: "CDatumSortedSet pcomp consts = Some (ds, n)"
    using assms(1) by (auto simp: PcnstrIntervalFromScalarArrayCmp_def split: if_splits option.splits)
  note k = CDatumSortedSet_keys [OF ds assms(2)]
  have pci: "t = EcmptEq \<and> m_pdrgprng pci = map (range_from_cmp EcmptEq) ds \<or> t = EcmptNEq \<and> m_pdrgprng pci = not_in_ranges None ds"
    "m_fIncludesNull pci = n" "m_pcr pci = pcr"
    using assms(1) ds by (auto simp: PcnstrIntervalFromScalarArrayCmp_def split: if_splits)
  have ni: "ranges_ok D key (not_in_ranges None ds)"
    "(\<exists>r \<in> set (not_in_ranges None ds). in_range pcomp r v) \<longleftrightarrow> (\<forall>d \<in> set ds. key v \<noteq> key d)"
    using not_in_ranges_ok [where p = None and ds = ds] k assms(3) by auto
  have i: "(\<exists>r \<in> set (map (range_from_cmp EcmptEq) ds). in_range pcomp r v) \<longleftrightarrow> key v \<in> key ` set ds"
    using k(3) assms(3) by (auto simp: in_range_def comparator_keys intro: rev_image_eqI)
  show "m_pcr pci = pcr" by (rule pci)
  show "ci_ok D key pci" using pci(1) ni(1) in_ranges_ok [OF k(1,3)] by (auto simp: ci_ok_def)
  show "d_null v \<Longrightarrow> ci_holds pcomp pci v \<longleftrightarrow> (\<exists>c \<in> set consts. d_null c)"
    using pci(2) k(4) by (simp add: ci_holds_def)
  show "\<not> d_null v \<Longrightarrow> t = EcmptEq \<Longrightarrow> ci_holds pcomp pci v \<longleftrightarrow> (\<exists>c \<in> set consts. \<not> d_null c \<and> key v = key c)"
    using pci(1) i k(2) by (auto simp: ci_holds_def simp del: set_map)
  have "(\<forall>d \<in> set ds. key v \<noteq> key d) \<longleftrightarrow> key v \<notin> key ` set ds" by auto
  then show "\<not> d_null v \<Longrightarrow> t = EcmptNEq \<Longrightarrow> ci_holds pcomp pci v \<longleftrightarrow> (\<forall>c \<in> set consts. \<not> d_null c \<longrightarrow> key v \<noteq> key c)"
    using pci(1) ni(2) k(2) by (auto simp: ci_holds_def)
qed

end

text \<open>The interpretation on the default comparator, for every context with the built-in evaluators.\<close>

lemma default_datum_comparator:
  "FUseBuiltinIntEvaluators ctx \<Longrightarrow> datum_comparator (CDefaultComparator ctx) int_datum stats_key"
  by (simp add: datum_comparator_def default_icomparator)

section \<open>Properties\<close>

text \<open>The intervals of the examples: \<open>[l, u)\<close> with or without null.\<close>

definition sample_ci :: "int \<Rightarrow> int \<Rightarrow> bool \<Rightarrow> constraint_interval" where
  "sample_ci l u n = \<lparr>m_pcr = sample_col,
     m_pdrgprng = [\<lparr>m_pmdid = EtiInt4, m_pdatumLeft = Some (int4 l), m_eriLeft = EriIncluded,
                    m_pdatumRight = Some (int4 u), m_eriRight = EriExcluded\<rparr>], m_fIncludesNull = n\<rparr>"

abbreviation int_pcomp :: "idatum comparator" where "int_pcomp \<equiv> CDefaultComparator builtin_ctx"

lemma builtin_ctx_ints: "FUseBuiltinIntEvaluators builtin_ctx"
  by (simp add: FUseBuiltinIntEvaluators_def builtin_ctx_def)

lemma sample_ci_ok: "l < u \<Longrightarrow> ci_ok int_datum stats_key (sample_ci l u n)"
  by (simp add: ci_ok_def ranges_ok_def sample_ci_def range_ok_def end_ok_def lcut_def rcut_def span_of_def
      stats_key_def int4_def int_datum_def FIntType_def)

lemma int4_int_datum [simp]: "int_datum (int4 n)" "int_datum int4_null" "\<not> d_null (int4 n)" "d_null int4_null"
  by (simp_all add: int4_def int4_null_def int_datum_def FIntType_def)

lemma sample_ci_holds: "ci_holds int_pcomp (sample_ci l u n) (int4 x) \<longleftrightarrow> l \<le> x \<and> x < u"
  by (simp add: ci_holds_def sample_ci_def in_range_def CDefaultComparator_def
      def_compare_keys [OF builtin_ctx_ints]) (simp add: stats_key_def int4_def)

lemma int_pcomp_eval:
  "FEqual int_pcomp (int4 x) (int4 y) \<longleftrightarrow> x = y" "FLessThan int_pcomp (int4 x) (int4 y) \<longleftrightarrow> x < y"
  "FLessThanOrEqual int_pcomp (int4 x) (int4 y) \<longleftrightarrow> x \<le> y" "FGreaterThan int_pcomp (int4 x) (int4 y) \<longleftrightarrow> y < x"
  "FGreaterThanOrEqual int_pcomp (int4 x) (int4 y) \<longleftrightarrow> y \<le> x"
  by (simp_all add: CDefaultComparator_def def_compare_keys [OF builtin_ctx_ints])
    (simp_all add: stats_key_def int4_def)

lemmas range_eval = FEndsWithOrAfter_def FStartsBefore_def FStartsWithOrBefore_def FEndsAfter_def FContains_def
  FDisjointLeft_def PrngDifferenceLeft_def PrngDifferenceRight_def EriInverseInclusion_def

lemma sort_datums_Nil: "sort_datums pcomp ds = [] \<longleftrightarrow> ds = []"
proof -
  have "insert_datum pcomp d es \<noteq> []" for d es by (cases es) auto
  then show ?thesis by (cases ds) (simp_all add: sort_datums_def)
qed

lemma array_fault_iff:
  "PcnstrIntervalFromScalarArrayCmp pcomp pcr t consts = None \<longleftrightarrow> consts \<noteq> [] \<and> list_all d_null consts"
proof -
  have "CDatumSortedSet pcomp consts = None \<longleftrightarrow> list_all d_null consts"
    by (auto simp: CDatumSortedSet_def sort_datums_Nil filter_empty_conv list_all_iff split: list.split
        dest: arg_cong [of _ _ "\<lambda>xs. xs = []"])
  then show ?thesis by (auto simp: PcnstrIntervalFromScalarArrayCmp_def split: option.split)
qed

text \<open>C4 Intersection: for intervals over integer datums, \<open>CConstraintInterval::PciIntersect\<close> gives a
  well-formed interval (sorted ranges, none empty, no two touching) that holds for a value,
  null included, exactly if both operands do.\<close>

theorem PciIntersect_correct:
  assumes "FUseBuiltinIntEvaluators ctx" "pcomp = CDefaultComparator ctx"
    "ci_ok int_datum stats_key a" "ci_ok int_datum stats_key b" "int_datum v"
  shows "ci_ok int_datum stats_key (PciIntersect pcomp a b)
    \<and> (ci_holds pcomp (PciIntersect pcomp a b) v \<longleftrightarrow> ci_holds pcomp a v \<and> ci_holds pcomp b v)"
  using datum_comparator.PciIntersect_refines(2) [OF default_datum_comparator]
    datum_comparator.PciIntersect_holds [OF default_datum_comparator] assms by blast

theorem PciIntersect_correct_witness:
  "ci_holds int_pcomp (PciIntersect int_pcomp (sample_ci 0 10 True) (sample_ci 5 20 False)) (int4 7)
   \<and> \<not> ci_holds int_pcomp (PciIntersect int_pcomp (sample_ci 0 10 True) (sample_ci 5 20 False)) (int4 3)"
  using PciIntersect_correct [OF builtin_ctx_ints refl sample_ci_ok sample_ci_ok, of 0 10 5 20 "int4 7" True False]
    PciIntersect_correct [OF builtin_ctx_ints refl sample_ci_ok sample_ci_ok, of 0 10 5 20 "int4 3" True False]
  by (simp add: sample_ci_holds)

text \<open>C2 Union: \<open>CConstraintInterval::PciUnion\<close>, which merges the two sorted arrays of ranges and glues
  touching ones, gives a well-formed interval that holds for a value exactly if one of the
  operands does.\<close>

theorem PciUnion_correct:
  assumes "FUseBuiltinIntEvaluators ctx" "pcomp = CDefaultComparator ctx"
    "ci_ok int_datum stats_key a" "ci_ok int_datum stats_key b" "int_datum v"
  shows "ci_ok int_datum stats_key (PciUnion pcomp a b)
    \<and> (ci_holds pcomp (PciUnion pcomp a b) v \<longleftrightarrow> ci_holds pcomp a v \<or> ci_holds pcomp b v)"
  using datum_comparator.PciUnion_refines(2) [OF default_datum_comparator]
    datum_comparator.PciUnion_holds [OF default_datum_comparator] assms by blast

theorem PciUnion_correct_witness:
  "ci_holds int_pcomp (PciUnion int_pcomp (sample_ci 0 10 True) (sample_ci 10 20 False)) (int4 10)
   \<and> length (m_pdrgprng (PciUnion int_pcomp (sample_ci 0 10 True) (sample_ci 10 20 False))) = 1"
proof -
  have "ci_holds int_pcomp (PciUnion int_pcomp (sample_ci 0 10 True) (sample_ci 10 20 False)) (int4 10)"
    using PciUnion_correct [OF builtin_ctx_ints refl sample_ci_ok sample_ci_ok, of 0 10 10 20 "int4 10" True False]
    by (simp add: sample_ci_holds)
  then show ?thesis by (simp add: sample_ci_def) code_simp
qed

text \<open>C3 Difference: \<open>CConstraintInterval::PciDifference\<close>, which carries the rest of a range cut in two as
  a residual, gives a well-formed interval that holds for a value exactly if this interval does
  and the other does not.\<close>

theorem PciDifference_correct:
  assumes "FUseBuiltinIntEvaluators ctx" "pcomp = CDefaultComparator ctx"
    "ci_ok int_datum stats_key a" "ci_ok int_datum stats_key b" "int_datum v"
  shows "ci_ok int_datum stats_key (PciDifference pcomp a b)
    \<and> (ci_holds pcomp (PciDifference pcomp a b) v \<longleftrightarrow> ci_holds pcomp a v \<and> \<not> ci_holds pcomp b v)"
  using datum_comparator.PciDifference_refines(2) [OF default_datum_comparator]
    datum_comparator.PciDifference_holds [OF default_datum_comparator] assms by blast

theorem PciDifference_correct_witness:
  "ci_holds int_pcomp (PciDifference int_pcomp (sample_ci 0 20 True) (sample_ci 5 10 False)) (int4 10)
   \<and> \<not> ci_holds int_pcomp (PciDifference int_pcomp (sample_ci 0 20 True) (sample_ci 5 10 False)) (int4 5)"
  using PciDifference_correct [OF builtin_ctx_ints refl sample_ci_ok sample_ci_ok, of 0 20 5 10 "int4 10" True False]
    PciDifference_correct [OF builtin_ctx_ints refl sample_ci_ok sample_ci_ok, of 0 20 5 10 "int4 5" True False]
  by (simp add: sample_ci_holds)

text \<open>C37 Complement: on a constrainable column, \<open>PciComplement\<close> returns an interval that holds exactly for
  the values, null included, for which this one does not; on any other column the code calls a
  method of a null pointer.\<close>

theorem PciComplement_correct:
  assumes "FUseBuiltinIntEvaluators ctx" "pcomp = CDefaultComparator ctx"
    "ci_ok int_datum stats_key a" "int_datum v"
  shows "(case PciComplement ctx pcomp a of
      None \<Rightarrow> \<not> FConstrainableType ctx (m_eti (m_pcr a))
    | Some c \<Rightarrow> FConstrainableType ctx (m_eti (m_pcr a)) \<and> m_pcr c = m_pcr a \<and> ci_ok int_datum stats_key c
        \<and> (ci_holds pcomp c v \<longleftrightarrow> \<not> ci_holds pcomp a v))"
proof (cases "PciComplement ctx pcomp a")
  case None
  then show ?thesis by (simp add: PciComplement_def PciUnbounded_def split: if_splits)
next
  case (Some c)
  have "FConstrainableType ctx (m_eti (m_pcr a))"
    using Some by (auto simp: PciComplement_def PciUnbounded_def split: if_splits)
  then show ?thesis
    using datum_comparator.PciComplement_holds [OF default_datum_comparator [OF assms(1)] Some [unfolded assms(2)] assms(3,4)]
      Some by (simp add: assms(2))
qed

theorem PciComplement_correct_witness:
  "\<exists>c. PciComplement builtin_ctx int_pcomp (sample_ci 0 10 True) = Some c \<and> ci_holds int_pcomp c (int4 10)"
proof -
  have "FConstrainableType builtin_ctx (m_eti (m_pcr (sample_ci 0 10 True)))"
    by (simp add: sample_ci_def sample_col_def FConstrainableType_def FIntType_def)
  then show ?thesis
    using PciComplement_correct [OF builtin_ctx_ints refl sample_ci_ok, of 0 10 "int4 10" True]
    by (simp add: sample_ci_holds split: option.splits)
qed

text \<open>Containment: when \<open>FContainsInterval\<close> accepts an interval, every value it holds for, null
  included, satisfies this interval too.\<close>

theorem FContainsInterval_correct:
  assumes "FUseBuiltinIntEvaluators ctx" "pcomp = CDefaultComparator ctx"
    "ci_ok int_datum stats_key a" "ci_ok int_datum stats_key b"
    "FContainsInterval pcomp a b" "int_datum v" "ci_holds pcomp b v"
  shows "ci_holds pcomp a v"
  using datum_comparator.FContainsInterval_sound [OF default_datum_comparator] assms by blast

theorem FContainsInterval_correct_witness:
  "ci_holds int_pcomp (sample_ci 0 20 True) (int4 5)"
proof -
  have "FContainsInterval int_pcomp (sample_ci 0 20 True) (sample_ci 5 10 False)"
    by (simp add: FContainsInterval_def sample_ci_def ci_FUnbounded_def range_FUnbounded_def ci_FContradiction_def
        PciDifference_def int_pcomp_eval range_eval PrangeDiffWithRightResidual_def AppendOrExtend_def)
  from FContainsInterval_correct [OF builtin_ctx_ints refl sample_ci_ok sample_ci_ok this, of "int4 5"]
  show ?thesis by (simp add: sample_ci_holds)
qed

text \<open>Array comparisons: the interval of \<open>c IN (...)\<close> and \<open>c NOT IN (...)\<close> built from the sorted and
  deduplicated constants is well formed; on a value that is not null it holds exactly for the
  constants or for all others, and it holds for null exactly if a constant is null.\<close>

theorem PcnstrIntervalFromScalarArrayCmp_correct:
  assumes "FUseBuiltinIntEvaluators ctx" "pcomp = CDefaultComparator ctx"
    "PcnstrIntervalFromScalarArrayCmp pcomp pcr t consts = Some (Some pci)"
    "list_all int_datum consts" "int_datum v"
  shows "ci_ok int_datum stats_key pci \<and> m_pcr pci = pcr
    \<and> (ci_holds pcomp pci v \<longleftrightarrow>
        (if d_null v then list_ex d_null consts
         else if t = EcmptEq then list_ex (\<lambda>c. \<not> d_null c \<and> d_lval c = d_lval v) consts
         else list_all (\<lambda>c. d_null c \<or> d_lval c \<noteq> d_lval v) consts))"
proof -
  have t: "t = EcmptEq \<or> t = EcmptNEq"
    using assms(3) by (auto simp: PcnstrIntervalFromScalarArrayCmp_def split: if_splits option.splits)
  have D: "\<forall>c \<in> set consts. int_datum c" using assms(4) by (simp add: list_all_iff)
  note h = datum_comparator.PcnstrIntervalFromScalarArrayCmp_holds
    [OF default_datum_comparator [OF assms(1)] assms(3) [unfolded assms(2)] D assms(5)]
  show ?thesis
  proof (cases "d_null v")
    case True
    then show ?thesis using h(1,2,3) by (simp add: assms(2) list_ex_iff)
  next
    case False
    then have eq: "stats_key v = stats_key c \<longleftrightarrow> \<not> d_null c \<and> d_lval c = d_lval v" for c
      by (auto simp: stats_key_def)
    from t show ?thesis
    proof
      assume "t = EcmptEq"
      with h(1,2) h(4) [OF False] False show ?thesis by (simp add: assms(2) list_ex_iff eq)
    next
      assume "t = EcmptNEq"
      with h(1,2) h(5) [OF False] False show ?thesis by (simp add: assms(2) list_all_iff eq) metis
    qed
  qed
qed

theorem PcnstrIntervalFromScalarArrayCmp_correct_witness:
  "\<exists>pci. PcnstrIntervalFromScalarArrayCmp int_pcomp sample_col EcmptNEq [int4 3, int4 1, int4 3] = Some (Some pci)
     \<and> ci_holds int_pcomp pci (int4 2) \<and> \<not> ci_holds int_pcomp pci (int4 3)"
proof -
  obtain pci where p: "PcnstrIntervalFromScalarArrayCmp int_pcomp sample_col EcmptNEq [int4 3, int4 1, int4 3] = Some (Some pci)"
    using array_fault_iff [of int_pcomp sample_col EcmptNEq "[int4 3, int4 1, int4 3]"]
    by (auto simp: PcnstrIntervalFromScalarArrayCmp_def split: option.splits)
  show ?thesis
    using PcnstrIntervalFromScalarArrayCmp_correct [OF builtin_ctx_ints refl p, of "int4 2"]
      PcnstrIntervalFromScalarArrayCmp_correct [OF builtin_ctx_ints refl p, of "int4 3"] p
    by (simp add: int4_def int_datum_def FIntType_def)
qed

text \<open>\<open>CDatumSortedSet\<close> reads the first element of the sorted array without a test: for a list of null
  constants only, the construction of the interval reads out of bounds, and it does so for no
  other list.\<close>

theorem CDatumSortedSet_fault:
  "PcnstrIntervalFromScalarArrayCmp pcomp pcr t consts = None \<longleftrightarrow> consts \<noteq> [] \<and> list_all d_null consts"
  by (rule array_fault_iff)

end
