(* ===== verification/ExprMatch.thy ===== *)
theory ExprMatch
  imports ScalarExpr "HOL-Library.Multiset"
begin

text \<open>
  Matching and deduplication of scalar expressions: the \<open>FMatch\<close> methods of the operators,
  \<open>CUtils::FEqual\<close> and the functions built on it (\<^verbatim>\<open>libgpopt/src/base/CUtils.cpp\<close>).  Equality of
  expressions is shown to be equality of normal forms, in which the children of a commutative
  operator are a multiset; it is therefore an equivalence, and equal expressions have one value.
\<close>

section \<open>Matching of expressions\<close>

text \<open>Datums match when the types agree and both are null or the values are equal.\<close>

definition datum_FMatch :: "idatum \<Rightarrow> idatum \<Rightarrow> bool" where
  "datum_FMatch this pdatum =
     (if d_type pdatum \<noteq> d_type this then False
      else if \<not> d_null pdatum \<and> \<not> d_null this then d_lval pdatum = d_lval this
      else d_null pdatum \<and> d_null this)"

text \<open>Operators match when they are the same operator with the same metadata id.\<close>

definition op_FMatch :: "scalarop \<Rightarrow> scalarop \<Rightarrow> bool" where
  "op_FMatch this pop =
     (case this of
        CScalarConst d \<Rightarrow> (case pop of CScalarConst d' \<Rightarrow> datum_FMatch d d' | _ \<Rightarrow> False)
      | CScalarArray ds \<Rightarrow> (case pop of CScalarArray ds' \<Rightarrow> list_all2 datum_FMatch ds ds' | _ \<Rightarrow> False)
      | _ \<Rightarrow> pop = this)"

fun bool_FCommutative :: "eboolop \<Rightarrow> bool" where
  "bool_FCommutative EboolopAnd = True"
| "bool_FCommutative EboolopOr = True"
| "bool_FCommutative EboolopNot = False"

fun FInputOrderSensitive :: "md_accessor \<Rightarrow> scalarop \<Rightarrow> bool" where
  "FInputOrderSensitive pmda (CScalarCmp m) = (\<not> md_FCommutative (pmda m))"
| "FInputOrderSensitive pmda (CScalarIsDistinctFrom m) = (\<not> md_FCommutative (pmda m))"
| "FInputOrderSensitive pmda (CScalarOp m) = (\<not> md_FCommutative (pmda m))"
| "FInputOrderSensitive pmda (CScalarBoolOp b) = (\<not> bool_FCommutative b)"
| "FInputOrderSensitive pmda (CScalarArrayCmp t m) = True"
| "FInputOrderSensitive pmda (CScalarArray ds) = True"
| "FInputOrderSensitive pmda (CScalarNullIf m) = True"
| "FInputOrderSensitive pmda CScalarCoalesce = True"
| "FInputOrderSensitive pmda CScalarIf = True"
| "FInputOrderSensitive pmda (CScalarFunc m) = True"
| "FInputOrderSensitive pmda (CScalarSubquery k) = True"
| "FInputOrderSensitive pmda pop = False"

text \<open>
  Deep equality of expression trees, with the children of a commutative operator compared by
  their numbers of occurrences.  The pointer test at the top of the code is a shortcut: the
  function is reflexive (below).
\<close>

function (sequential) cexpr_FEqual :: "md_accessor \<Rightarrow> cexpression \<Rightarrow> cexpression \<Rightarrow> bool" where
  "cexpr_FEqual pmda (CExpression pop es) (CExpression pop' es') =
     (if length es \<noteq> length es' \<or> \<not> op_FMatch pop pop' then False
      else if 0 < length es \<and> FInputOrderSensitive pmda pop
      then list_all (\<lambda>i. cexpr_FEqual pmda (es ! i) (es' ! i)) [0..<length es]
      else list_all (\<lambda>e. length (filter (cexpr_FEqual pmda e) es) = length (filter (cexpr_FEqual pmda e) es')) es)"
  by pat_completeness auto
termination
  by (relation "measure (\<lambda>(pmda, e, e'). size e)")
    (auto simp: less_Suc_eq_le intro: size_list_estimation' [OF nth_mem] size_list_estimation')

definition UlOccurrences :: "md_accessor \<Rightarrow> cexpression \<Rightarrow> cexpression list \<Rightarrow> nat" where
  "UlOccurrences pmda pexpr pdrgpexpr = length (filter (cexpr_FEqual pmda pexpr) pdrgpexpr)"

definition FEqualAny :: "md_accessor \<Rightarrow> cexpression \<Rightarrow> cexpression list \<Rightarrow> bool" where
  "FEqualAny pmda pexpr pdrgpexpr = list_ex (cexpr_FEqual pmda pexpr) pdrgpexpr"

definition cexpr_FContains :: "md_accessor \<Rightarrow> cexpression list \<Rightarrow> cexpression list \<Rightarrow> bool" where
  "cexpr_FContains pmda pdrgpexprFst pdrgpexprSnd =
     (if length pdrgpexprFst < length pdrgpexprSnd then False
      else list_all (\<lambda>e. FEqualAny pmda e pdrgpexprFst) pdrgpexprSnd)"

section \<open>Normal forms\<close>

datatype nexpr = NOrdered scalarop "nexpr list" | NUnordered scalarop "nexpr multiset"

fun canon_op :: "scalarop \<Rightarrow> scalarop" where
  "canon_op (CScalarConst d) = CScalarConst (canon d)"
| "canon_op (CScalarArray ds) = CScalarArray (map canon ds)"
| "canon_op pop = pop"

fun norm_expr :: "md_accessor \<Rightarrow> cexpression \<Rightarrow> nexpr" where
  "norm_expr pmda (CExpression pop es) =
     (if 0 < length es \<and> FInputOrderSensitive pmda pop
      then NOrdered (canon_op pop) (map (norm_expr pmda) es)
      else NUnordered (canon_op pop) (mset (map (norm_expr pmda) es)))"

lemma datum_FMatch_canon: "datum_FMatch d d' \<longleftrightarrow> canon d = canon d'"
  by (cases d; cases d') (auto simp: datum_FMatch_def canon_def)

lemma list_FMatch_canon: "list_all2 datum_FMatch ds ds' \<longleftrightarrow> map canon ds = map canon ds'"
  by (induction ds arbitrary: ds') (auto simp: list_all2_Cons1 datum_FMatch_canon Cons_eq_map_conv)

lemma op_FMatch_canon: "op_FMatch p q \<longleftrightarrow> canon_op p = canon_op q"
  by (cases p; cases q) (auto simp: op_FMatch_def datum_FMatch_canon list_FMatch_canon)

lemma sensitive_canon: "canon_op p = canon_op q \<Longrightarrow> FInputOrderSensitive pmda p = FInputOrderSensitive pmda q"
  by (cases p; cases q) auto

lemma mset_eq_by_counts:
  assumes "size M = size N" "\<forall>x \<in># M. count M x = count N x"
  shows "M = N"
proof -
  have "M \<subseteq># N" using assms(2) by (metis linorder_not_less mset_subset_eqI not_in_iff order_refl zero_le)
  then show ?thesis using assms(1) by (metis mset_subset_size less_irrefl subset_mset.le_neq_trans)
qed

lemma length_filter_count: "length (filter (\<lambda>x. c = f x) xs) = count (mset (map f xs)) c"
  by (induction xs) auto

lemma cexpr_FEqual_norm: "cexpr_FEqual pmda e e' \<longleftrightarrow> norm_expr pmda e = norm_expr pmda e'"
proof (induction pmda e e' rule: cexpr_FEqual.induct)
  case (1 pmda pop es pop' es')
  show ?case
  proof (cases "length es = length es' \<and> op_FMatch pop pop'")
    case False
    then show ?thesis by (auto simp: op_FMatch_canon dest: arg_cong [of _ _ size] map_eq_imp_length_eq)
  next
    case True
    then have c: "canon_op pop = canon_op pop'" "FInputOrderSensitive pmda pop = FInputOrderSensitive pmda pop'"
      by (auto simp: op_FMatch_canon dest: sensitive_canon)
    show ?thesis
    proof (cases "0 < length es \<and> FInputOrderSensitive pmda pop")
      case ord: True
      have "list_all (\<lambda>i. cexpr_FEqual pmda (es ! i) (es' ! i)) [0..<length es]
          \<longleftrightarrow> (\<forall>i < length es. norm_expr pmda (es ! i) = norm_expr pmda (es' ! i))"
        using 1(1) True ord by (auto simp: list_all_iff)
      also have "\<dots> \<longleftrightarrow> map (norm_expr pmda) es = map (norm_expr pmda) es'"
        using True by (simp add: list_eq_iff_nth_eq)
      finally show ?thesis using True ord c by auto
    next
      case un: False
      let ?n = "norm_expr pmda"
      have "length (filter (cexpr_FEqual pmda e) es) = count (mset (map ?n es)) (?n e)" if "e \<in> set es" for e
      proof -
        have "filter (cexpr_FEqual pmda e) es = filter (\<lambda>x. ?n e = ?n x) es"
          using 1(2) that True un by (intro filter_cong) auto
        then show ?thesis by (simp only: length_filter_count)
      qed
      moreover have "length (filter (cexpr_FEqual pmda e) es') = count (mset (map ?n es')) (?n e)" if "e \<in> set es" for e
      proof -
        have "filter (cexpr_FEqual pmda e) es' = filter (\<lambda>x. ?n e = ?n x) es'"
          using 1(3) that True un by (intro filter_cong) auto
        then show ?thesis by (simp only: length_filter_count)
      qed
      ultimately have "list_all (\<lambda>e. length (filter (cexpr_FEqual pmda e) es) = length (filter (cexpr_FEqual pmda e) es')) es
          \<longleftrightarrow> (\<forall>x \<in># mset (map ?n es). count (mset (map ?n es)) x = count (mset (map ?n es')) x)"
        by (auto simp: list_all_iff)
      also have "\<dots> \<longleftrightarrow> mset (map ?n es) = mset (map ?n es')"
        using mset_eq_by_counts [of "mset (map ?n es)" "mset (map ?n es')"] True by (metis length_map size_mset)
      finally show ?thesis using True un c by auto
    qed
  qed
qed

lemma cexpr_FEqual_equiv:
  "cexpr_FEqual pmda e e"
  "cexpr_FEqual pmda e e' \<Longrightarrow> cexpr_FEqual pmda e' e"
  "cexpr_FEqual pmda e e' \<Longrightarrow> cexpr_FEqual pmda e' e'' \<Longrightarrow> cexpr_FEqual pmda e e''"
  by (simp_all add: cexpr_FEqual_norm)

section \<open>Equal expressions have one value\<close>

definition comm_interp :: "md_accessor \<Rightarrow> interp \<Rightarrow> bool" where
  "comm_interp pmda I \<longleftrightarrow> (\<forall>m. md_FCommutative (pmda m) \<longrightarrow>
     (\<forall>x y. i_op I m x y = i_op I m y x) \<and> (\<forall>ds es. mset ds = mset es \<longrightarrow> i_fun I m ds = i_fun I m es))"

text \<open>The number of children an operator takes, where the code asserts it.\<close>

fun arity_ok :: "scalarop \<Rightarrow> nat \<Rightarrow> bool" where
  "arity_ok (CScalarCmp m) n = (n = 2)"
| "arity_ok (CScalarIsDistinctFrom m) n = (n = 2)"
| "arity_ok (CScalarArrayCmp t m) n = (n = 2)"
| "arity_ok (CScalarNullIf m) n = (n = 2)"
| "arity_ok (CScalarArrayCoerceExpr m) n = (n = 1)"
| "arity_ok CScalarNullTest n = (n = 1)"
| "arity_ok (CScalarBooleanTest t) n = (n = 1)"
| "arity_ok (CScalarBoolOp EboolopNot) n = (n = 1)"
| "arity_ok (CScalarBoolOp b) n = (0 < n)"
| "arity_ok (CScalarCast m) n = (n = 1)"
| "arity_ok CScalarIf n = (n = 3)"
| "arity_ok (CScalarIdent c) n = (n = 0)"
| "arity_ok (CScalarConst d) n = (n = 0)"
| "arity_ok pop n = True"

fun wf_expr :: "cexpression \<Rightarrow> bool" where
  "wf_expr (CExpression pop es) \<longleftrightarrow> arity_ok pop (length es) \<and> (\<forall>e \<in> set es. wf_expr e)"

lemma eval_canon_op: "canon_op p = canon_op q \<Longrightarrow> eval_op I env p vs = eval_op I env q vs"
  by (cases p; cases q) auto

lemma mset_short: "mset xs = mset ys \<Longrightarrow> length xs = 1 \<Longrightarrow> xs = ys"
  by (cases xs; cases ys) (auto simp: single_is_union add_eq_conv_ex)

lemma mset_pair: "mset xs = mset ys \<Longrightarrow> length xs = 2 \<Longrightarrow> xs = ys \<or> ys = [xs ! 1, xs ! 0]"
proof -
  assume a: "mset xs = mset ys" "length xs = 2"
  then obtain u v where "xs = [u, v]" by (auto simp: length_Suc_conv numeral_2_eq_2)
  moreover have "length ys = 2" using a by (metis size_mset)
  then obtain w z where "ys = [w, z]" by (auto simp: length_Suc_conv numeral_2_eq_2)
  ultimately show ?thesis using a(1) by (auto simp: add_eq_conv_ex)
qed

lemma eval_unordered:
  assumes "comm_interp pmda I" "mset vs = mset ws" "arity_ok pop (length vs)" "\<not> (0 < length vs \<and> FInputOrderSensitive pmda pop)"
  shows "eval_op I env pop vs = eval_op I env pop ws"
proof -
  have l: "length ws = length vs" using assms(2) by (metis size_mset)
  have s: "set vs = set ws" using assms(2) by (metis set_mset_mset)
  have cmp: "eval_op I env pop vs = eval_op I env pop ws"
    if "pop = CScalarCmp m \<or> pop = CScalarIsDistinctFrom m" for m
  proof -
    have "length vs = 2" "md_FCommutative (pmda m)" using that assms(3,4) by auto
    then have "\<forall>x y. i_op I m x y = i_op I m y x" using assms(1) by (auto simp: comm_interp_def)
    then show ?thesis using mset_pair [OF assms(2) \<open>length vs = 2\<close>] l that \<open>length vs = 2\<close>
      by (auto simp: arg_def distinct3_def)
  qed
  have op: "eval_op I env (CScalarOp m) vs = eval_op I env (CScalarOp m) ws" if "pop = CScalarOp m" for m
  proof (cases "vs = []")
    case False
    then have "md_FCommutative (pmda m)" using that assms(4) by simp
    moreover have "mset (map dat vs) = mset (map dat ws)" using assms(2) by simp
    ultimately show ?thesis using assms(1) by (simp add: comm_interp_def)
  qed (use l in simp)
  have unary: "eval_op I env pop vs = eval_op I env pop ws" if "length vs \<le> 1"
  proof (cases "vs = []")
    case False
    then have "length vs = 1" using that by (cases vs) auto
    then show ?thesis using mset_short [OF assms(2)] by simp
  qed (use l in simp)
  have bool: "eval_op I env (CScalarBoolOp b) vs = eval_op I env (CScalarBoolOp b) ws" if "pop = CScalarBoolOp b" for b
  proof -
    have "set (map (truth_of \<circ> dat) vs) = set (map (truth_of \<circ> dat) ws)" using s by simp
    then have "and3 (map (truth_of \<circ> dat) vs) = and3 (map (truth_of \<circ> dat) ws)"
      "or3 (map (truth_of \<circ> dat) vs) = or3 (map (truth_of \<circ> dat) ws)" by (rule and3_set, rule or3_set)
    moreover have "b = EboolopNot \<Longrightarrow> vs = ws" using that assms(3) mset_short [OF assms(2)] by simp
    ultimately show ?thesis by (cases b) (simp_all only: eval_op.simps eval_boolop.simps)
  qed
  show ?thesis
    using assms(3,4) cmp op unary bool by (cases pop) auto
qed

lemma mset_map_eq_ex:
  "mset (map f xs) = mset (map f ys) \<Longrightarrow> \<exists>zs. mset zs = mset ys \<and> map f xs = map f zs"
proof (induction xs arbitrary: ys)
  case (Cons x xs)
  then have "f x \<in># mset (map f ys)" by (metis list.set_intros(1) list.simps(9) set_mset_mset)
  then obtain y where y: "y \<in> set ys" "f x = f y" by auto
  then have "mset ys = add_mset y (mset (remove1 y ys))" by simp
  then have "mset (map f ys) = add_mset (f y) (mset (map f (remove1 y ys)))" by (metis image_mset_add_mset mset_map)
  then have "mset (map f xs) = mset (map f (remove1 y ys))"
    using Cons.prems y(2) by simp
  then obtain zs where "mset zs = mset (remove1 y ys)" "map f xs = map f zs" using Cons.IH by blast
  then have "mset (y # zs) = mset ys" "map f (x # xs) = map f (y # zs)" using y by auto
  then show ?case by blast
qed auto

lemma nth_map_eq: "map f xs = map f ys \<Longrightarrow> i < length xs \<Longrightarrow> f (xs ! i) = f (ys ! i)"
  by (metis map_eq_imp_length_eq nth_map)

lemma ev_norm_expr:
  assumes "comm_interp pmda I"
  shows "wf_expr e \<Longrightarrow> norm_expr pmda e = norm_expr pmda e' \<Longrightarrow> ev I env e = ev I env e'"
proof (induction e arbitrary: e')
  case (CExpression pop es)
  obtain pop' es' where e': "e' = CExpression pop' es'" by (cases e')
  have IH: "ev I env x = ev I env y" if "x \<in> set es" "norm_expr pmda x = norm_expr pmda y" for x y
    using CExpression.IH [OF that(1)] CExpression.prems(1) that by simp
  have c: "canon_op pop = canon_op pop'" using CExpression.prems(2) e' by (auto split: if_splits)
  have l: "length es = length es'"
    using CExpression.prems(2) e' by (auto split: if_splits dest: map_eq_imp_length_eq arg_cong [of _ _ size])
  show ?case
  proof (cases "0 < length es \<and> FInputOrderSensitive pmda pop")
    case True
    then have m: "map (norm_expr pmda) es = map (norm_expr pmda) es'"
      using CExpression.prems(2) e' by (auto split: if_splits)
    have "map (ev I env) es = map (ev I env) es'"
    proof (rule nth_equalityI)
      fix i assume "i < length (map (ev I env) es)"
      then have i: "i < length es" by simp
      have "ev I env (es ! i) = ev I env (es' ! i)" by (rule IH [OF nth_mem [OF i] nth_map_eq [OF m i]])
      then show "map (ev I env) es ! i = map (ev I env) es' ! i" using i l by simp
    qed (simp add: l)
    then show ?thesis using eval_canon_op [OF c] unfolding e' by simp
  next
    case False
    then have "mset (map (norm_expr pmda) es) = mset (map (norm_expr pmda) es')"
      using CExpression.prems(2) e' by (auto split: if_splits)
    then obtain zs where z: "mset zs = mset es'" "map (norm_expr pmda) es = map (norm_expr pmda) zs"
      using mset_map_eq_ex by blast
    have "map (ev I env) es = map (ev I env) zs"
    proof (rule nth_equalityI)
      show "length (map (ev I env) es) = length (map (ev I env) zs)" using z(2) map_eq_imp_length_eq by fastforce
      fix i assume "i < length (map (ev I env) es)"
      then have i: "i < length es" by simp
      have "ev I env (es ! i) = ev I env (zs ! i)" by (rule IH [OF nth_mem [OF i] nth_map_eq [OF z(2) i]])
      then show "map (ev I env) es ! i = map (ev I env) zs ! i" using i map_eq_imp_length_eq [OF z(2)] by simp
    qed
    then have "mset (map (ev I env) es) = mset (map (ev I env) es')" using z(1) by simp
    then have "eval_op I env pop (map (ev I env) es) = eval_op I env pop (map (ev I env) es')"
      using eval_unordered [OF assms] CExpression.prems(1) False by simp
    then show ?thesis using eval_canon_op [OF c] e' by simp
  qed
qed

lemma cexpr_FEqual_value:
  "comm_interp pmda I \<Longrightarrow> wf_expr e \<Longrightarrow> cexpr_FEqual pmda e e' \<Longrightarrow> ev I env e = ev I env e'"
  by (rule ev_norm_expr) (simp_all add: cexpr_FEqual_norm)

section \<open>Deduplication\<close>

text \<open>
  \<open>PdrgpexprDedup\<close> inserts into a hash set keyed by the hash of the expression: two equal
  expressions count as duplicates when they fall into one chain, \<open>h\<close> being the chain of an
  expression.
\<close>

fun dedup_loop :: "md_accessor \<Rightarrow> (cexpression \<Rightarrow> nat) \<Rightarrow> cexpression list \<Rightarrow> cexpression list \<Rightarrow> cexpression list" where
  "dedup_loop pmda h phsexpr [] = []"
| "dedup_loop pmda h phsexpr (e # es) =
     (if list_ex (\<lambda>s. h s = h e \<and> cexpr_FEqual pmda s e) phsexpr then dedup_loop pmda h phsexpr es
      else e # dedup_loop pmda h (phsexpr @ [e]) es)"

definition PdrgpexprDedup :: "md_accessor \<Rightarrow> (cexpression \<Rightarrow> nat) \<Rightarrow> cexpression list \<Rightarrow> cexpression list" where
  "PdrgpexprDedup pmda h pdrgpexpr = dedup_loop pmda h [] pdrgpexpr"

lemma dedup_loop_subset: "set (dedup_loop pmda h seen es) \<subseteq> set es"
  by (induction es arbitrary: seen) auto

lemma dedup_loop_covers:
  "e \<in> set es \<Longrightarrow> \<exists>d \<in> set seen \<union> set (dedup_loop pmda h seen es). cexpr_FEqual pmda d e"
proof (induction es arbitrary: seen)
  case (Cons x xs)
  show ?case
  proof (cases "list_ex (\<lambda>s. h s = h x \<and> cexpr_FEqual pmda s x) seen")
    case True
    then obtain d where "d \<in> set seen" "cexpr_FEqual pmda d x" by (auto simp: list_ex_iff)
    then show ?thesis using Cons.prems Cons.IH [of seen] True by auto
  next
    case False
    show ?thesis
    proof (cases "e = x")
      case True
      then show ?thesis using False cexpr_FEqual_equiv(1) [of pmda x] by auto
    next
      case ne: False
      then show ?thesis using Cons.prems Cons.IH [of "seen @ [x]"] False by auto
    qed
  qed
qed simp

lemma PdrgpexprDedup_truths:
  assumes "comm_interp pmda I" "\<forall>e \<in> set es. wf_expr e"
  shows "truth I env ` set (PdrgpexprDedup pmda h es) = truth I env ` set es"
proof
  show "truth I env ` set (PdrgpexprDedup pmda h es) \<subseteq> truth I env ` set es"
    using dedup_loop_subset by (fastforce simp: PdrgpexprDedup_def)
  show "truth I env ` set es \<subseteq> truth I env ` set (PdrgpexprDedup pmda h es)"
  proof
    fix b assume "b \<in> truth I env ` set es"
    then obtain e where e: "e \<in> set es" "b = truth I env e" by auto
    then obtain d where d: "d \<in> set (PdrgpexprDedup pmda h es)" "cexpr_FEqual pmda d e"
      using dedup_loop_covers [of e es "[]"] by (auto simp: PdrgpexprDedup_def)
    then have "wf_expr d" using dedup_loop_subset assms(2) by (fastforce simp: PdrgpexprDedup_def)
    then have "truth I env d = b" using cexpr_FEqual_value [OF assms(1)] d(2) e(2) by (simp add: truth_def)
    then show "b \<in> truth I env ` set (PdrgpexprDedup pmda h es)" using d(1) by auto
  qed
qed

section \<open>Properties\<close>

lemma sample_comm: "comm_interp sample_md sample_db"
proof -
  have "sample_cmp (md_Ecmpt (sample_md m)) x y = sample_cmp (md_Ecmpt (sample_md m)) y x"
    if "m mod 6 < 2" for m x y
  proof -
    have "m mod 6 = 0 \<or> m mod 6 = 1" using that by linarith
    then show ?thesis by (auto simp: sample_md_def)
  qed
  then show ?thesis by (auto simp: comm_interp_def sample_db_def sample_md_def)
qed

text \<open>\<open>CUtils::FEqual\<close> on expression trees is an equivalence relation, whatever the metadata says of
  commutativity, although it compares the children of a commutative operator by counting.\<close>

theorem FEqual_equivalence:
  "equivp (cexpr_FEqual pmda)"
  by (rule equivpI) (auto intro!: reflpI sympI transpI simp: cexpr_FEqual_norm)

text \<open>C23 Expressions that \<open>CUtils::FEqual\<close> accepts have the same value on every row, when the database
  treats the operators marked commutative as such.\<close>

theorem FEqual_same_value:
  assumes "comm_interp pmda I" "wf_expr e" "cexpr_FEqual pmda e e'"
  shows "ev I env e = ev I env e'"
  by (rule cexpr_FEqual_value [OF assms])

theorem FEqual_same_value_witness:
  "ev sample_db (\<lambda>_. int4 3) (CExpression (CScalarCmp 0) [col_expr, const_expr 5])
     = ev sample_db (\<lambda>_. int4 3) (CExpression (CScalarCmp 0) [const_expr 5, col_expr])"
  by (rule FEqual_same_value [OF sample_comm])
    (simp_all add: sample_exprs sample_md_def op_FMatch_def datum_FMatch_def)

lemma dedup_loop_distinct:
  assumes h: "\<And>e e'. cexpr_FEqual pmda e e' \<Longrightarrow> h e = h e'"
  shows "sorted_wrt (\<lambda>d e. \<not> cexpr_FEqual pmda d e) (dedup_loop pmda h seen es)
    \<and> (\<forall>s \<in> set seen. \<forall>d \<in> set (dedup_loop pmda h seen es). \<not> cexpr_FEqual pmda s d)"
proof (induction es arbitrary: seen)
  case (Cons e es)
  show ?case
  proof (cases "list_ex (\<lambda>s. h s = h e \<and> cexpr_FEqual pmda s e) seen")
    case True
    then show ?thesis using Cons.IH [of seen] by simp
  next
    case False
    then have "\<forall>s \<in> set seen. \<not> cexpr_FEqual pmda s e" using h by (auto simp: list_ex_iff)
    then show ?thesis using False Cons.IH [of "seen @ [e]"] by auto
  qed
qed simp

text \<open>Deduplication keeps the meaning: the conjunction and the disjunction of the expressions that
  \<open>CUtils::PdrgpexprDedup\<close> keeps have the three-valued meaning of those of the given list,
  whatever hash function the hash set uses.\<close>

theorem PdrgpexprDedup_meaning:
  assumes "comm_interp pmda I" "list_all wf_expr es"
  shows "and3 (map (truth I env) (PdrgpexprDedup pmda h es)) = and3 (map (truth I env) es)
    \<and> or3 (map (truth I env) (PdrgpexprDedup pmda h es)) = or3 (map (truth I env) es)"
  using PdrgpexprDedup_truths [OF assms(1), where es = es and h = h and env = env] assms(2)
  by (auto intro!: and3_set or3_set simp: list_all_iff)

theorem PdrgpexprDedup_meaning_witness:
  "and3 (map (truth sample_db (\<lambda>_. int4 3)) (PdrgpexprDedup sample_md (\<lambda>_. 0) [col_expr, col_expr]))
     = and3 (map (truth sample_db (\<lambda>_. int4 3)) [col_expr, col_expr])"
  using PdrgpexprDedup_meaning [OF sample_comm, of "[col_expr, col_expr]"] by (simp add: col_expr_def)

text \<open>When the hash function of the hash set agrees on equal expressions, \<open>CUtils::PdrgpexprDedup\<close> keeps
  no two equal expressions, and one for each given expression.\<close>

theorem PdrgpexprDedup_distinct:
  assumes "\<And>e e'. cexpr_FEqual pmda e e' \<Longrightarrow> h e = h e'"
  shows "sorted_wrt (\<lambda>d e. \<not> cexpr_FEqual pmda d e) (PdrgpexprDedup pmda h es)
    \<and> set (PdrgpexprDedup pmda h es) \<subseteq> set es
    \<and> list_all (\<lambda>e. list_ex (\<lambda>d. cexpr_FEqual pmda d e) (PdrgpexprDedup pmda h es)) es"
  using dedup_loop_distinct [OF assms, where seen = "[]" and es = es] dedup_loop_subset [of pmda h "[]" es]
    dedup_loop_covers [where es = es and seen = "[]" and pmda = pmda and h = h]
  by (auto simp: PdrgpexprDedup_def list_all_iff list_ex_iff)

theorem PdrgpexprDedup_distinct_witness:
  "length (PdrgpexprDedup sample_md (\<lambda>_. 0) [col_expr, const_expr 5, col_expr]) = 2
   \<and> sorted_wrt (\<lambda>d e. \<not> cexpr_FEqual sample_md d e) (PdrgpexprDedup sample_md (\<lambda>_. 0) [col_expr, const_expr 5, col_expr])"
  using PdrgpexprDedup_distinct [of sample_md "\<lambda>_. 0" "[col_expr, const_expr 5, col_expr]"]
  by (simp add: PdrgpexprDedup_def sample_exprs op_FMatch_def)

end
