(* ===== verification/PredicateUtils.thy ===== *)
theory PredicateUtils
  imports ExprMatch
begin

text \<open>
  Predicates: the recognisers and array accessors of \<^verbatim>\<open>libgpopt/src/base/CUtils.cpp\<close>, the
  functions of \<^verbatim>\<open>libgpopt/src/operators/CPredicateUtils.cpp\<close> that take predicates apart,
  build and rewrite them, and the expansion of array comparisons
  (\<^verbatim>\<open>libgpopt/src/operators/CScalarArrayCmp.cpp\<close>).  The lemmas show that each rewriting
  preserves the three-valued meaning.
\<close>

section \<open>Recognisers\<close>

definition FScalarConstBool :: "cexpression \<Rightarrow> bool \<Rightarrow> bool" where
  "FScalarConstBool pexpr fVal =
     (case m_pop pexpr of
        CScalarConst d \<Rightarrow> if d_type d = EtiBool then \<not> d_null d \<and> (d_lval d \<noteq> 0) = fVal else False
      | _ \<Rightarrow> False)"

abbreviation FScalarConstTrue :: "cexpression \<Rightarrow> bool" where "FScalarConstTrue e \<equiv> FScalarConstBool e True"
abbreviation FScalarConstFalse :: "cexpression \<Rightarrow> bool" where "FScalarConstFalse e \<equiv> FScalarConstBool e False"

definition PexprScalarConstBool :: "bool \<Rightarrow> bool \<Rightarrow> cexpression" where
  "PexprScalarConstBool fval fNull =
     CExpression (CScalarConst \<lparr>d_type = EtiBool, d_null = fNull, d_lval = (if fval then 1 else 0)\<rparr>) []"

definition FScalarIdent :: "cexpression \<Rightarrow> bool" where
  "FScalarIdent e = (case m_pop e of CScalarIdent c \<Rightarrow> True | _ \<Rightarrow> False)"

definition FScalarIdentCol :: "cexpression \<Rightarrow> colref \<Rightarrow> bool" where
  "FScalarIdentCol e pcr = (case m_pop e of CScalarIdent c \<Rightarrow> c = pcr | _ \<Rightarrow> False)"

definition FScalarConst :: "cexpression \<Rightarrow> bool" where
  "FScalarConst e = (case m_pop e of CScalarConst d \<Rightarrow> True | _ \<Rightarrow> False)"

definition FScalarCmp :: "cexpression \<Rightarrow> bool" where
  "FScalarCmp e = (case m_pop e of CScalarCmp m \<Rightarrow> True | _ \<Rightarrow> False)"

definition FScalarArrayCmp :: "cexpression \<Rightarrow> bool" where
  "FScalarArrayCmp e = (case m_pop e of CScalarArrayCmp t m \<Rightarrow> True | _ \<Rightarrow> False)"

definition FScalarArray :: "cexpression \<Rightarrow> bool" where
  "FScalarArray e = (case m_pop e of CScalarArray ds \<Rightarrow> True | _ \<Rightarrow> False)"

definition FScalarArrayCoerce :: "cexpression \<Rightarrow> bool" where
  "FScalarArrayCoerce e = (case m_pop e of CScalarArrayCoerceExpr m \<Rightarrow> True | _ \<Rightarrow> False)"

definition FScalarBoolOp :: "cexpression \<Rightarrow> eboolop \<Rightarrow> bool" where
  "FScalarBoolOp e b = (m_pop e = CScalarBoolOp b)"

abbreviation FAnd :: "cexpression \<Rightarrow> bool" where "FAnd e \<equiv> FScalarBoolOp e EboolopAnd"
abbreviation FOr :: "cexpression \<Rightarrow> bool" where "FOr e \<equiv> FScalarBoolOp e EboolopOr"
abbreviation FNot :: "cexpression \<Rightarrow> bool" where "FNot e \<equiv> FScalarBoolOp e EboolopNot"

definition FScalarNullTest :: "cexpression \<Rightarrow> bool" where
  "FScalarNullTest e = (m_pop e = CScalarNullTest)"

definition FScalarNotNull :: "cexpression \<Rightarrow> bool" where
  "FScalarNotNull e = (FNot e \<and> FScalarNullTest (child e 0))"

text \<open>\<open>FComparison\<close> with an operator type, \<open>FEquality\<close> and the tests on operand shapes.\<close>

definition FComparisonType :: "md_accessor \<Rightarrow> cexpression \<Rightarrow> ecmptype \<Rightarrow> bool" where
  "FComparisonType pmda e ecmpt = (case m_pop e of CScalarCmp m \<Rightarrow> ecmpt = md_Ecmpt (pmda m) | _ \<Rightarrow> False)"

abbreviation FEquality :: "md_accessor \<Rightarrow> cexpression \<Rightarrow> bool" where
  "FEquality pmda e \<equiv> FComparisonType pmda e EcmptEq"

definition FPlainEquality :: "md_accessor \<Rightarrow> cexpression \<Rightarrow> bool" where
  "FPlainEquality pmda e = (FEquality pmda e \<and> FScalarIdent (child e 0) \<and> FScalarIdent (child e 1))"

definition PdrgpexprPlainEqualities :: "md_accessor \<Rightarrow> cexpression list \<Rightarrow> cexpression list" where
  "PdrgpexprPlainEqualities pmda es = filter (FPlainEquality pmda) es"

definition FCompareIdentToConst :: "cexpression \<Rightarrow> bool" where
  "FCompareIdentToConst e = (FScalarCmp e \<and> FScalarIdent (child e 0) \<and> FScalarConst (child e 1))"

definition FRangeOrEqComp :: "md_accessor \<Rightarrow> cexpression \<Rightarrow> bool" where
  "FRangeOrEqComp pmda e =
     (FCompareIdentToConst e \<and> \<not> FComparisonType pmda e EcmptNEq \<and> \<not> FComparisonType pmda e EcmptIDF
      \<and> \<not> FComparisonType pmda e EcmptOther)"

definition FRangeComparison :: "ecmptype \<Rightarrow> bool" where
  "FRangeComparison ecmpt = (EcmptOther \<noteq> ecmpt \<and> EcmptNEq \<noteq> ecmpt)"

definition FCompareColToConstOrCol :: "cexpression \<Rightarrow> bool" where
  "FCompareColToConstOrCol e =
     (if \<not> FScalarCmp e then False
      else (let l = child e 0; r = child e 1
            in FScalarIdent l \<and> FScalarIdent r \<or> FScalarIdent l \<and> FScalarConst r \<or> FScalarConst l \<and> FScalarIdent r))"

definition FHasNegatedChild :: "cexpression \<Rightarrow> bool" where
  "FHasNegatedChild e = list_ex FNot (m_pdrgpexpr e)"

definition FIDF :: "cexpression \<Rightarrow> bool" where
  "FIDF e = (case m_pop e of CScalarIsDistinctFrom m \<Rightarrow> True | _ \<Rightarrow> False)"

definition FINDF :: "cexpression \<Rightarrow> bool" where
  "FINDF e = (FNot e \<and> FIDF (child e 0))"

definition FIDFScalarIdents :: "cexpression \<Rightarrow> bool" where
  "FIDFScalarIdents e = (FIDF e \<and> FScalarIdent (child e 0) \<and> FScalarIdent (child e 1))"

definition FINDFScalarIdents :: "cexpression \<Rightarrow> bool" where
  "FINDFScalarIdents e = (FNot e \<and> FIDFScalarIdents (child e 0))"

definition FIDFFalse :: "cexpression \<Rightarrow> bool" where
  "FIDFFalse e = (FIDF e \<and> (FScalarConstFalse (child e 0) \<or> FScalarConstFalse (child e 1)))"

definition FNotIdent :: "cexpression \<Rightarrow> bool" where
  "FNotIdent e = (FNot e \<and> FScalarIdent (child e 0))"

definition FBooleanScalarIdent :: "cexpression \<Rightarrow> bool" where
  "FBooleanScalarIdent e = (case m_pop e of CScalarIdent c \<Rightarrow> m_eti c = EtiBool | _ \<Rightarrow> False)"

definition FNegatedBooleanScalarIdent :: "cexpression \<Rightarrow> bool" where
  "FNegatedBooleanScalarIdent e = (FNot e \<and> FBooleanScalarIdent (child e 0))"

definition FBoolPredicateOnColumn :: "cexpression \<Rightarrow> colref \<Rightarrow> bool" where
  "FBoolPredicateOnColumn e pcr =
     (m_eti pcr = EtiBool \<and> (FScalarIdentCol e pcr \<or> FNot e \<and> FScalarIdentCol (child e 0) pcr))"

section \<open>Arrays\<close>

fun op_consts :: "scalarop \<Rightarrow> idatum list" where
  "op_consts (CScalarArray ds) = ds"
| "op_consts pop = []"

definition UlScalarArrayArity :: "cexpression \<Rightarrow> nat" where
  "UlScalarArrayArity e = (if UlArity e = 0 then length (op_consts (m_pop e)) else UlArity e)"

definition FScalarArrayCollapsed :: "cexpression \<Rightarrow> bool" where
  "FScalarArrayCollapsed e = (UlArity e = 0 \<and> UlScalarArrayArity e > 0)"

text \<open>The datum of a constant child; \<open>None\<close> when the child is not a constant.\<close>

definition PScalarArrayConstChildAt :: "cexpression \<Rightarrow> nat \<Rightarrow> idatum option" where
  "PScalarArrayConstChildAt e ul =
     (if FScalarArrayCollapsed e then Some (op_consts (m_pop e) ! ul)
      else case m_pop (child e ul) of CScalarConst d \<Rightarrow> Some d | _ \<Rightarrow> None)"

definition PScalarArrayExprChildAt :: "cexpression \<Rightarrow> nat \<Rightarrow> cexpression" where
  "PScalarArrayExprChildAt e ul =
     (if UlArity e = 0 then CExpression (CScalarConst (op_consts (m_pop e) ! ul)) [] else child e ul)"

definition PexprScalarArrayChild :: "cexpression \<Rightarrow> cexpression" where
  "PexprScalarArrayChild e = (let a = child e 1 in if FScalarArrayCoerce a then child a 0 else a)"

definition FScalarConstArray :: "cexpression \<Rightarrow> bool" where
  "FScalarConstArray e = (FScalarArray e \<and> list_all FScalarConst (m_pdrgpexpr e))"

definition FCompareIdentToConstArray :: "cexpression \<Rightarrow> bool" where
  "FCompareIdentToConstArray e =
     (FScalarArrayCmp e \<and> FScalarIdent (child e 0) \<and> FScalarArray (child e 1)
      \<and> FScalarConstArray (PexprScalarArrayChild e))"

section \<open>Conjuncts and disjuncts\<close>

fun PdrgpexprConjuncts :: "cexpression \<Rightarrow> cexpression list" where
  "PdrgpexprConjuncts (CExpression pop es) =
     (if pop = CScalarBoolOp EboolopAnd then concat (map PdrgpexprConjuncts es) else [CExpression pop es])"

fun PdrgpexprDisjuncts :: "cexpression \<Rightarrow> cexpression list" where
  "PdrgpexprDisjuncts (CExpression pop es) =
     (if pop = CScalarBoolOp EboolopOr then concat (map PdrgpexprDisjuncts es) else [CExpression pop es])"

definition FSkippable :: "cexpression \<Rightarrow> bool \<Rightarrow> bool" where
  "FSkippable e fConjunction =
     (fConjunction \<and> FScalarConstTrue e \<or> \<not> fConjunction \<and> FScalarConstFalse e)"

definition FReducible :: "cexpression \<Rightarrow> bool \<Rightarrow> bool" where
  "FReducible e fConjunction =
     (fConjunction \<and> FScalarConstFalse e \<or> \<not> fConjunction \<and> FScalarConstTrue e)"

text \<open>The loop of \<open>PexprConjDisj\<close>: the array of what is kept, or \<open>None\<close> at a reducible element.\<close>

fun conj_disj_loop :: "bool \<Rightarrow> cexpression list \<Rightarrow> cexpression list \<Rightarrow> cexpression list option" where
  "conj_disj_loop fConjunction [] final = Some final"
| "conj_disj_loop fConjunction (e # es) final =
     (if FSkippable e fConjunction then conj_disj_loop fConjunction es final
      else if FReducible e fConjunction then None
      else conj_disj_loop fConjunction es (final @ [e]))"

definition PexprConjDisj :: "cexpression list \<Rightarrow> bool \<Rightarrow> cexpression" where
  "PexprConjDisj pdrgpexpr fConjunction =
     (case conj_disj_loop fConjunction pdrgpexpr [] of
        None \<Rightarrow> PexprScalarConstBool (\<not> fConjunction) False
      | Some final \<Rightarrow>
          if 0 < length final
          then if length final = 1 then final ! 0
               else CExpression (CScalarBoolOp (if fConjunction then EboolopAnd else EboolopOr)) final
          else PexprScalarConstBool fConjunction False)"

abbreviation PexprConjunction :: "cexpression list \<Rightarrow> cexpression" where
  "PexprConjunction es \<equiv> PexprConjDisj es True"

abbreviation PexprDisjunction :: "cexpression list \<Rightarrow> cexpression" where
  "PexprDisjunction es \<equiv> PexprConjDisj es False"

text \<open>The binary form, \<open>same\<close> telling whether the two pointers are one.\<close>

definition PexprConjDisj2 :: "bool \<Rightarrow> cexpression \<Rightarrow> cexpression \<Rightarrow> bool \<Rightarrow> cexpression" where
  "PexprConjDisj2 same pexprOne pexprTwo fConjunction =
     (if same then pexprOne
      else if fConjunction
      then PexprConjDisj (PdrgpexprConjuncts pexprOne @ PdrgpexprConjuncts pexprTwo) True
      else PexprConjDisj (PdrgpexprDisjuncts pexprOne @ PdrgpexprDisjuncts pexprTwo) False)"

definition PdrgpexprAppendConjunctsDedup ::
    "md_accessor \<Rightarrow> (cexpression \<Rightarrow> nat) \<Rightarrow> cexpression list \<Rightarrow> cexpression option \<Rightarrow> cexpression list" where
  "PdrgpexprAppendConjunctsDedup pmda h pdrgpexpr pexpr =
     (case pexpr of None \<Rightarrow> pdrgpexpr
      | Some e \<Rightarrow> PdrgpexprDedup pmda h (PdrgpexprConjuncts e @ pdrgpexpr))"

text \<open>
  \<open>FConjunctionOfEqComparisons\<close> counts the conjuncts but tests the children of the expression.
  The access to a child that is not there is \<open>None\<close>.
\<close>

fun eq_children_loop :: "md_accessor \<Rightarrow> cexpression \<Rightarrow> nat \<Rightarrow> nat \<Rightarrow> bool option" where
  "eq_children_loop pmda e ul 0 = Some True"
| "eq_children_loop pmda e ul (Suc n) =
     (if ul \<ge> UlArity e then None
      else if \<not> FEquality pmda (child e ul) then Some False
      else eq_children_loop pmda e (Suc ul) n)"

definition FConjunctionOfEqComparisons :: "md_accessor \<Rightarrow> cexpression \<Rightarrow> bool option" where
  "FConjunctionOfEqComparisons pmda e =
     (if FEquality pmda e then Some True
      else eq_children_loop pmda e 0 (length (PdrgpexprConjuncts e)))"

section \<open>Rewriting comparisons\<close>

text \<open>The table of reversed comparisons, searched in order; \<open>EcmptOther\<close> when there is none.\<close>

fun reverse_lookup :: "(ecmptype \<times> ecmptype) list \<Rightarrow> ecmptype \<Rightarrow> ecmptype" where
  "reverse_lookup [] ecmpt = EcmptOther"
| "reverse_lookup ((a, b) # tab) ecmpt =
     (if a = ecmpt then b else if b = ecmpt then a else reverse_lookup tab ecmpt)"

definition EcmptReverse :: "ecmptype \<Rightarrow> ecmptype" where
  "EcmptReverse ecmpt =
     reverse_lookup [(EcmptEq, EcmptEq), (EcmptG, EcmptL), (EcmptGEq, EcmptLEq), (EcmptNEq, EcmptNEq)] ecmpt"

definition FSelfComparison :: "md_accessor \<Rightarrow> cexpression \<Rightarrow> bool \<times> ecmptype" where
  "FSelfComparison pmda e =
     (case m_pop e of
        CScalarCmp m \<Rightarrow>
          (case (m_pop (child e 0), m_pop (child e 1)) of
             (CScalarIdent c, CScalarIdent c') \<Rightarrow> (c = c' \<and> m_fTable c \<and> \<not> m_fNullable c, md_Ecmpt (pmda m))
           | _ \<Rightarrow> (False, md_Ecmpt (pmda m)))
      | _ \<Rightarrow> (False, EcmptOther))"

definition PexprEliminateSelfComparison :: "md_accessor \<Rightarrow> cexpression \<Rightarrow> cexpression" where
  "PexprEliminateSelfComparison pmda e =
     (case FSelfComparison pmda e of (fSelf, ecmpt) \<Rightarrow>
        if fSelf
        then if ecmpt \<in> {EcmptEq, EcmptLEq, EcmptGEq} then PexprScalarConstBool True False
             else if ecmpt \<in> {EcmptNEq, EcmptL, EcmptG, EcmptIDF} then PexprScalarConstBool False False
             else e
        else e)"

definition PexprInverseComparison :: "md_accessor \<Rightarrow> cexpression \<Rightarrow> cexpression" where
  "PexprInverseComparison pmda e =
     (case m_pop e of
        CScalarCmp m \<Rightarrow> CExpression (CScalarCmp (md_PmdidOpInverse (pmda m))) (take 2 (m_pdrgpexpr e))
      | _ \<Rightarrow> e)"

section \<open>Conjunctions keep their meaning\<close>

lemma PdrgpexprConjuncts_truth: "and3 (map (truth I env) (PdrgpexprConjuncts e)) = truth I env e"
proof (induction e)
  case (CExpression pop es)
  show ?case
  proof (cases "pop = CScalarBoolOp EboolopAnd")
    case True
    have "map (truth I env) (concat (map PdrgpexprConjuncts es))
        = concat (map (\<lambda>e. map (truth I env) (PdrgpexprConjuncts e)) es)"
      by (simp add: map_concat comp_def)
    then have "and3 (map (truth I env) (concat (map PdrgpexprConjuncts es)))
        = and3 (map (\<lambda>e. and3 (map (truth I env) (PdrgpexprConjuncts e))) es)"
      by (simp add: and3_concat comp_def)
    also have "\<dots> = and3 (map (truth I env) es)"
      using CExpression by (metis (no_types, lifting) map_cong)
    finally show ?thesis using True by simp
  qed simp
qed

lemma PdrgpexprDisjuncts_truth: "or3 (map (truth I env) (PdrgpexprDisjuncts e)) = truth I env e"
proof (induction e)
  case (CExpression pop es)
  show ?case
  proof (cases "pop = CScalarBoolOp EboolopOr")
    case True
    have "map (truth I env) (concat (map PdrgpexprDisjuncts es))
        = concat (map (\<lambda>e. map (truth I env) (PdrgpexprDisjuncts e)) es)"
      by (simp add: map_concat comp_def)
    then have "or3 (map (truth I env) (concat (map PdrgpexprDisjuncts es)))
        = or3 (map (\<lambda>e. or3 (map (truth I env) (PdrgpexprDisjuncts e))) es)"
      by (simp add: or3_concat comp_def)
    also have "\<dots> = or3 (map (truth I env) es)"
      using CExpression by (metis (no_types, lifting) map_cong)
    finally show ?thesis using True by simp
  qed simp
qed

lemma FScalarConstBool_truth: "FScalarConstBool e b \<Longrightarrow> truth I env e = Some b"
  by (cases e) (auto simp: FScalarConstBool_def truth_of_def split: scalarop.splits if_splits)

lemma PexprScalarConstBool_truth [simp]: "truth I env (PexprScalarConstBool b False) = Some b"
  by (simp add: PexprScalarConstBool_def truth_of_def)

text \<open>What a conjunction or disjunction of a list means.\<close>

definition conj_disj3 :: "bool \<Rightarrow> bool option list \<Rightarrow> bool option" where
  "conj_disj3 fConjunction bs = (if fConjunction then and3 bs else or3 bs)"

lemma conj_disj_loop_truth:
  "(case conj_disj_loop c es final of
      None \<Rightarrow> Some (\<not> c) \<in> set (map (truth I env) es)
    | Some final' \<Rightarrow> (\<exists>kept. final' = final @ kept \<and> conj_disj3 c (map (truth I env) es) = conj_disj3 c (map (truth I env) kept)))"
proof (induction es arbitrary: final)
  case (Cons e es)
  consider (skip) "FSkippable e c" | (red) "\<not> FSkippable e c" "FReducible e c" | (keep) "\<not> FSkippable e c" "\<not> FReducible e c"
    by blast
  then show ?case
  proof cases
    case skip
    then have "truth I env e = Some c" by (cases c) (auto simp: FSkippable_def FScalarConstBool_truth)
    then have "conj_disj3 c (map (truth I env) (e # es)) = conj_disj3 c (map (truth I env) es)"
      by (cases c) (auto simp: conj_disj3_def and3_def or3_def)
    then show ?thesis using skip Cons.IH [of final] by (auto split: option.splits)
  next
    case red
    then have "truth I env e = Some (\<not> c)" by (cases c) (auto simp: FReducible_def FScalarConstBool_truth)
    then show ?thesis using red by simp
  next
    case keep
    have "conj_disj3 c (map (truth I env) (e # es)) = conj_disj3 c (map (truth I env) (e # kept))"
      if "conj_disj3 c (map (truth I env) es) = conj_disj3 c (map (truth I env) kept)" for kept
      using that by (simp add: conj_disj3_def and3_Cons [of _ "map _ _"] or3_Cons [of _ "map _ _"] split: if_splits)
    note keep_kept = this
    show ?thesis
    proof (cases "conj_disj_loop c es (final @ [e])")
      case None
      then show ?thesis using keep Cons.IH [of "final @ [e]"] by simp
    next
      case (Some f)
      then obtain kept where "f = (final @ [e]) @ kept"
        and k: "conj_disj3 c (map (truth I env) es) = conj_disj3 c (map (truth I env) kept)"
        using Cons.IH [of "final @ [e]"] by auto
      then have "f = final @ (e # kept)" by simp
      then show ?thesis using Some keep keep_kept [OF k] by (simp del: list.map)
    qed
  qed
qed simp

lemma conj_disj3_absorb: "Some (\<not> c) \<in> set bs \<Longrightarrow> conj_disj3 c bs = Some (\<not> c)"
  by (cases c) (auto simp: conj_disj3_def and3_def or3_def)

lemma PexprConjDisj_truth: "truth I env (PexprConjDisj es c) = conj_disj3 c (map (truth I env) es)"
proof (cases "conj_disj_loop c es []")
  case None
  then show ?thesis using conj_disj_loop_truth [where c = c and es = es and final = "[]" and I = I and env = env] conj_disj3_absorb [of c "map (truth I env) es"]
    by (simp add: PexprConjDisj_def)
next
  case (Some kept)
  then have *: "conj_disj3 c (map (truth I env) es) = conj_disj3 c (map (truth I env) kept)"
    using conj_disj_loop_truth [where c = c and es = es and final = "[]" and I = I and env = env] by simp
  consider "kept = []" | e where "kept = [e]" | e e' k where "kept = e # e' # k" by (metis neq_Nil_conv)
  then show ?thesis
    unfolding * by cases (use Some in \<open>auto simp: PexprConjDisj_def conj_disj3_def\<close>)
qed

lemma PexprConjDisj2_truth:
  "(same \<longrightarrow> e1 = e2) \<Longrightarrow> truth I env (PexprConjDisj2 same e1 e2 c) = conj_disj3 c [truth I env e1, truth I env e2]"
proof -
  assume s: "same \<longrightarrow> e1 = e2"
  have "conj_disj3 c [b, b] = b" for b by (cases b) (auto simp: conj_disj3_def and3_def or3_def)
  then show ?thesis using s
    by (auto simp: PexprConjDisj2_def PexprConjDisj_truth conj_disj3_def and3_append or3_append
        PdrgpexprConjuncts_truth PdrgpexprDisjuncts_truth)
qed

text \<open>No conjunct is itself a conjunction, and no element the result keeps is a constant.\<close>

lemma PdrgpexprConjuncts_flat: "c \<in> set (PdrgpexprConjuncts e) \<Longrightarrow> \<not> FAnd c"
  by (induction e) (auto simp: FScalarBoolOp_def split: if_splits)

lemma PdrgpexprDisjuncts_flat: "c \<in> set (PdrgpexprDisjuncts e) \<Longrightarrow> \<not> FOr c"
  by (induction e) (auto simp: FScalarBoolOp_def split: if_splits)

lemma wf_conjuncts: "wf_expr e \<Longrightarrow> c \<in> set (PdrgpexprConjuncts e) \<Longrightarrow> wf_expr c"
  by (induction e) (auto split: if_splits)

lemma wf_disjuncts: "wf_expr e \<Longrightarrow> c \<in> set (PdrgpexprDisjuncts e) \<Longrightarrow> wf_expr c"
  by (induction e) (auto split: if_splits)

lemma conj_disj_loop_set: "conj_disj_loop c es final = Some k \<Longrightarrow> set k \<subseteq> set final \<union> set es"
proof (induction es arbitrary: final)
  case (Cons e es)
  then show ?case using Cons.IH [of final] Cons.IH [of "final @ [e]"] by (auto split: if_splits)
qed simp

lemma wf_PexprConjDisj: "\<forall>e \<in> set es. wf_expr e \<Longrightarrow> wf_expr (PexprConjDisj es c)"
proof (cases "conj_disj_loop c es []")
  case (Some k)
  assume "\<forall>e \<in> set es. wf_expr e"
  then have "\<forall>e \<in> set k. wf_expr e" using conj_disj_loop_set [OF Some] by auto
  then show ?thesis using Some by (auto simp: PexprConjDisj_def PexprScalarConstBool_def length_Suc_conv)
qed (simp add: PexprConjDisj_def PexprScalarConstBool_def)

lemma EcmptReverse_involution: "EcmptReverse (EcmptReverse t) = (if t \<in> {EcmptIDF, EcmptOther} then EcmptOther else t)"
  by (cases t) (simp_all add: EcmptReverse_def)

section \<open>Expanding array comparisons\<close>

text \<open>\<open>CScalarArrayCmp::PexprExpand\<close>.\<close>

definition PexprExpand :: "md_accessor \<Rightarrow> (cexpression \<Rightarrow> nat) \<Rightarrow> cexpression \<Rightarrow> cexpression" where
  "PexprExpand pmda h e =
     (case m_pop e of
        CScalarArrayCmp t m \<Rightarrow>
          (let pexprArray = PexprScalarArrayChild e;
               ulArrayElems = (if FScalarArray pexprArray then UlScalarArrayArity pexprArray else 0)
           in if ulArrayElems = 0 then e
              else (let pdrgpexprDeduped =
                      PdrgpexprDedup pmda h
                        (map (\<lambda>ul. CExpression (CScalarCmp m) [child e 0, PScalarArrayExprChildAt pexprArray ul])
                          [0..<ulArrayElems])
                    in if t = EarrcmpAny then PexprDisjunction pdrgpexprDeduped
                       else PexprConjunction pdrgpexprDeduped))
      | _ \<Rightarrow> e)"

text \<open>The expansion drops a coercion of the array of a comparison.  The elements compare as the coerced ones
  when the comparison does not depend on the coercion, as for the binary coercions between types that
  share their operators.\<close>

fun coercion_neutral :: "interp \<Rightarrow> cexpression \<Rightarrow> bool" where
  "coercion_neutral I (CExpression pop es) \<longleftrightarrow>
     (\<forall>t m m'. pop = CScalarArrayCmp t m \<and> m_pop (es ! 1) = CScalarArrayCoerceExpr m' \<longrightarrow>
        (\<forall>x y. i_op I m x (i_cast I m' y) = i_op I m x y))
   \<and> (\<forall>e \<in> set es. coercion_neutral I e)"

definition cmp_list :: "nat \<Rightarrow> cexpression \<Rightarrow> cexpression \<Rightarrow> cexpression list" where
  "cmp_list m a arr = map (\<lambda>ul. CExpression (CScalarCmp m) [a, PScalarArrayExprChildAt arr ul]) [0..<UlScalarArrayArity arr]"

lemma cmp_list_truth:
  assumes "FScalarArray arr"
  shows "\<exists>ys. ev I env arr = Sa ys \<and> map (truth I env) (cmp_list m a arr) = map (i_op I m (dat (ev I env a))) ys"
proof -
  obtain ds es where arr: "arr = CExpression (CScalarArray ds) es"
    using assms by (cases arr) (auto simp: FScalarArray_def split: scalarop.splits)
  have *: "truth I env (CExpression (CScalarCmp m) [a, x]) = i_op I m (dat (ev I env a)) (dat (ev I env x))" for x
    by (simp add: truth_def arg_def)
  show ?thesis
  proof (cases "es = []")
    case True
    then show ?thesis
      by (auto simp: arr cmp_list_def UlScalarArrayArity_def PScalarArrayExprChildAt_def *
          intro!: nth_equalityI)
  next
    case False
    then show ?thesis
      by (auto simp: arr cmp_list_def UlScalarArrayArity_def PScalarArrayExprChildAt_def *
          intro!: nth_equalityI)
  qed
qed

lemma wf_cmp_list: "wf_expr a \<Longrightarrow> wf_expr arr \<Longrightarrow> FScalarArray arr \<Longrightarrow> e \<in> set (cmp_list m a arr) \<Longrightarrow> wf_expr e"
  by (cases arr) (auto simp: cmp_list_def PScalarArrayExprChildAt_def UlScalarArrayArity_def)

lemma dedup_conj_disj3:
  assumes "comm_interp pmda I" "\<forall>e \<in> set es. wf_expr e"
  shows "conj_disj3 c (map (truth I env) (PdrgpexprDedup pmda h es)) = conj_disj3 c (map (truth I env) es)"
  using PdrgpexprDedup_truths [OF assms, where env = env and h = h]
  by (simp add: conj_disj3_def and3_def or3_def)

lemma wf_dedup: "\<forall>e \<in> set es. wf_expr e \<Longrightarrow> \<forall>e \<in> set (PdrgpexprDedup pmda h es). wf_expr e"
  using dedup_loop_subset by (fastforce simp: PdrgpexprDedup_def)

text \<open>The array below a coercion is compared as the coerced one, and the elements are those of the literal.\<close>

lemma PexprScalarArrayChild_ok:
  assumes e: "e = CExpression (CScalarArrayCmp t m) [a, arr]" and w: "wf_expr e" and c: "coercion_neutral I e"
    and l: "FScalarArray (PexprScalarArrayChild e)"
  shows "\<exists>ys. ev I env (PexprScalarArrayChild e) = Sa ys
      \<and> map (truth I env) (cmp_list m a (PexprScalarArrayChild e)) = map (i_op I m (dat (ev I env a))) ys
      \<and> truth I env e = quantified t (map (i_op I m (dat (ev I env a))) ys)" and "wf_expr (PexprScalarArrayChild e)"
proof -
  let ?x = "PexprScalarArrayChild e"
  obtain ys where ys: "ev I env ?x = Sa ys" "map (truth I env) (cmp_list m a ?x) = map (i_op I m (dat (ev I env a))) ys"
    using cmp_list_truth [OF l] by blast
  have "truth I env e = quantified t (map (i_op I m (dat (ev I env a))) ys) \<and> wf_expr ?x"
  proof (cases "FScalarArrayCoerce arr")
    case False
    then have "?x = arr" by (simp add: e PexprScalarArrayChild_def)
    then show ?thesis using ys(1) w by (simp add: e truth_def arg_def)
  next
    case True
    then obtain m' es where arr: "arr = CExpression (CScalarArrayCoerceExpr m') es"
      by (cases arr) (auto simp: FScalarArrayCoerce_def split: scalarop.splits)
    then obtain x where es: "es = [x]" using w by (auto simp: e length_Suc_conv)
    have n: "i_op I m u (i_cast I m' v) = i_op I m u v" for u v using c by (simp add: e arr)
    have x: "?x = x" using True by (simp add: e PexprScalarArrayChild_def arr es)
    then have "ev I env arr = Sa (map (i_cast I m') ys)" using ys(1) by (simp add: arr es arg_def)
    then show ?thesis using w x by (simp add: e truth_def arg_def comp_def n arr es)
  qed
  then show "\<exists>ys. ev I env ?x = Sa ys \<and> map (truth I env) (cmp_list m a ?x) = map (i_op I m (dat (ev I env a))) ys
      \<and> truth I env e = quantified t (map (i_op I m (dat (ev I env a))) ys)" and "wf_expr ?x"
    using ys by blast+
qed

lemma PexprExpand_ok:
  assumes "comm_interp pmda I" "wf_expr e" "coercion_neutral I e"
  shows "truth I env (PexprExpand pmda h e) = truth I env e" and "wf_expr (PexprExpand pmda h e)"
proof -
  have "truth I env (PexprExpand pmda h e) = truth I env e \<and> wf_expr (PexprExpand pmda h e)"
  proof (cases "\<exists>t m. m_pop e = CScalarArrayCmp t m")
    case True
    then obtain t m a arr where e: "e = CExpression (CScalarArrayCmp t m) [a, arr]"
      using assms(2) by (cases e) (auto simp: length_Suc_conv numeral_2_eq_2)
    let ?x = "PexprScalarArrayChild e"
    show ?thesis
    proof (cases "FScalarArray ?x \<and> UlScalarArrayArity ?x \<noteq> 0")
      case True
      let ?d = "PdrgpexprDedup pmda h (cmp_list m a ?x)"
      note c = PexprScalarArrayChild_ok [OF e assms(2,3) True [THEN conjunct1]]
      have wf: "\<forall>e \<in> set (cmp_list m a ?x). wf_expr e"
        using wf_cmp_list [of a ?x] assms(2) c(2) True by (simp add: e)
      have x: "PexprExpand pmda h e = PexprConjDisj ?d (t \<noteq> EarrcmpAny)"
        using True by (cases t) (auto simp: PexprExpand_def e cmp_list_def Let_def)
      have "truth I env (PexprExpand pmda h e) = conj_disj3 (t \<noteq> EarrcmpAny) (map (truth I env) (cmp_list m a ?x))"
        unfolding x PexprConjDisj_truth by (rule dedup_conj_disj3 [OF assms(1) wf])
      then show ?thesis
        using c(1) [where env = env] x wf_PexprConjDisj [OF wf_dedup [OF wf]]
        by (cases t) (auto simp: conj_disj3_def quantified_def)
    next
      case False
      then have "PexprExpand pmda h e = e" by (auto simp: PexprExpand_def e Let_def)
      then show ?thesis using assms(2) by simp
    qed
  next
    case False
    then have "PexprExpand pmda h e = e" by (auto simp: PexprExpand_def split: scalarop.split)
    then show ?thesis using assms(2) by simp
  qed
  then show "truth I env (PexprExpand pmda h e) = truth I env e" "wf_expr (PexprExpand pmda h e)" by simp_all
qed

text \<open>The size of expressions used for termination: children and lists of expressions are smaller.\<close>

fun esize :: "cexpression \<Rightarrow> nat" where
  "esize (CExpression pop es) = Suc (sum_list (map (\<lambda>e. Suc (esize e)) es))"

definition lsize :: "cexpression list \<Rightarrow> nat" where
  "lsize es = sum_list (map (\<lambda>e. Suc (esize e)) es)"

lemma lsize_simps [simp]:
  "lsize [] = 0" "lsize (e # es) = Suc (esize e + lsize es)" "lsize (es @ fs) = lsize es + lsize fs"
  "esize (CExpression pop es) = Suc (lsize es)"
  by (simp_all add: lsize_def)

declare esize.simps [simp del]

lemma lsize_concat: "lsize (concat ess) = sum_list (map lsize ess)"
  by (induction ess) simp_all

lemma lsize_conjuncts: "lsize (PdrgpexprConjuncts e) \<le> Suc (esize e)"
proof (induction e)
  case (CExpression pop es)
  have "sum_list (map (\<lambda>e. lsize (PdrgpexprConjuncts e)) es) \<le> lsize es"
    unfolding lsize_def using CExpression by (intro sum_list_mono) (simp add: lsize_def)
  then show ?case by (simp add: lsize_concat comp_def)
qed

lemma lsize_conjuncts_and: "FAnd e \<Longrightarrow> lsize (PdrgpexprConjuncts e) < Suc (esize e)"
proof (cases e)
  case (CExpression pop es)
  assume "FAnd e"
  moreover have "sum_list (map (\<lambda>e. lsize (PdrgpexprConjuncts e)) es) \<le> lsize es"
    using lsize_conjuncts unfolding lsize_def by (intro sum_list_mono) simp
  ultimately show ?thesis using CExpression by (simp add: FScalarBoolOp_def lsize_concat comp_def)
qed

lemma lsize_disjuncts: "lsize (PdrgpexprDisjuncts e) \<le> Suc (esize e)"
proof (induction e)
  case (CExpression pop es)
  have "sum_list (map (\<lambda>e. lsize (PdrgpexprDisjuncts e)) es) \<le> lsize es"
    unfolding lsize_def using CExpression by (intro sum_list_mono) (simp add: lsize_def)
  then show ?case by (simp add: lsize_concat comp_def)
qed

lemma lsize_disjuncts_or: "FOr e \<Longrightarrow> lsize (PdrgpexprDisjuncts e) < Suc (esize e)"
proof (cases e)
  case (CExpression pop es)
  assume "FOr e"
  moreover have "sum_list (map (\<lambda>e. lsize (PdrgpexprDisjuncts e)) es) \<le> lsize es"
    using lsize_disjuncts unfolding lsize_def by (intro sum_list_mono) simp
  ultimately show ?thesis using CExpression by (simp add: FScalarBoolOp_def lsize_concat comp_def)
qed

text \<open>
  \<open>PdrgpexprExpandDisjuncts\<close> and \<open>PdrgpexprExpandConjuncts\<close>, which call each other; each is its
  loop followed by the deduplication.
\<close>

function (sequential) expand_disjuncts_loop :: "md_accessor \<Rightarrow> (cexpression \<Rightarrow> nat) \<Rightarrow> cexpression list \<Rightarrow> cexpression list"
  and expand_conjuncts_loop :: "md_accessor \<Rightarrow> (cexpression \<Rightarrow> nat) \<Rightarrow> cexpression list \<Rightarrow> cexpression list" where
  "expand_disjuncts_loop pmda h [] = []"
| "expand_disjuncts_loop pmda h (e # es) =
     (if FScalarArrayCmp e
      then (let x = PexprExpand pmda h e in if FOr x then PdrgpexprDisjuncts x else [x])
           @ expand_disjuncts_loop pmda h es
      else if FAnd e
      then PexprConjunction (PdrgpexprDedup pmda h (expand_conjuncts_loop pmda h (PdrgpexprConjuncts e)))
           # expand_disjuncts_loop pmda h es
      else e # expand_disjuncts_loop pmda h es)"
| "expand_conjuncts_loop pmda h [] = []"
| "expand_conjuncts_loop pmda h (e # es) =
     (if FScalarArrayCmp e
      then (let x = PexprExpand pmda h e in if FAnd x then PdrgpexprConjuncts x else [x])
           @ expand_conjuncts_loop pmda h es
      else if FOr e
      then PexprDisjunction (PdrgpexprDedup pmda h (expand_disjuncts_loop pmda h (PdrgpexprDisjuncts e)))
           # expand_conjuncts_loop pmda h es
      else e # expand_conjuncts_loop pmda h es)"
  by pat_completeness auto
termination
  by (relation "measure (\<lambda>x. case x of Inl (pmda, h, es) \<Rightarrow> lsize es | Inr (pmda, h, es) \<Rightarrow> lsize es)")
    (auto simp: lsize_conjuncts_and lsize_disjuncts_or less_Suc_eq_le intro: le_less_trans less_imp_le
      dest!: lsize_conjuncts_and [unfolded less_Suc_eq_le] lsize_disjuncts_or [unfolded less_Suc_eq_le])

definition PdrgpexprExpandDisjuncts :: "md_accessor \<Rightarrow> (cexpression \<Rightarrow> nat) \<Rightarrow> cexpression list \<Rightarrow> cexpression list" where
  "PdrgpexprExpandDisjuncts pmda h es = PdrgpexprDedup pmda h (expand_disjuncts_loop pmda h es)"

definition PdrgpexprExpandConjuncts :: "md_accessor \<Rightarrow> (cexpression \<Rightarrow> nat) \<Rightarrow> cexpression list \<Rightarrow> cexpression list" where
  "PdrgpexprExpandConjuncts pmda h es = PdrgpexprDedup pmda h (expand_conjuncts_loop pmda h es)"

lemma coerce_conjuncts: "coercion_neutral I e \<Longrightarrow> c \<in> set (PdrgpexprConjuncts e) \<Longrightarrow> coercion_neutral I c"
  by (induction e) (auto split: if_splits)

lemma coerce_disjuncts: "coercion_neutral I e \<Longrightarrow> c \<in> set (PdrgpexprDisjuncts e) \<Longrightarrow> coercion_neutral I c"
  by (induction e) (auto split: if_splits)

definition expandable :: "interp \<Rightarrow> cexpression \<Rightarrow> bool" where
  "expandable I e \<longleftrightarrow> wf_expr e \<and> coercion_neutral I e"

lemma expandable_parts:
  "expandable I e \<Longrightarrow> c \<in> set (PdrgpexprConjuncts e) \<Longrightarrow> expandable I c"
  "expandable I e \<Longrightarrow> c \<in> set (PdrgpexprDisjuncts e) \<Longrightarrow> expandable I c"
  unfolding expandable_def
  using wf_conjuncts wf_disjuncts coerce_conjuncts coerce_disjuncts by blast+

lemma expand_loops_ok:
  assumes "comm_interp pmda I"
  shows "\<forall>e \<in> set es. expandable I e \<Longrightarrow>
      or3 (map (truth I env) (expand_disjuncts_loop pmda h es)) = or3 (map (truth I env) es)
      \<and> (\<forall>e \<in> set (expand_disjuncts_loop pmda h es). wf_expr e)"
    and "\<forall>e \<in> set es. expandable I e \<Longrightarrow>
      and3 (map (truth I env) (expand_conjuncts_loop pmda h es)) = and3 (map (truth I env) es)
      \<and> (\<forall>e \<in> set (expand_conjuncts_loop pmda h es). wf_expr e)"
  using assms
proof (induction pmda h es and pmda h es rule: expand_disjuncts_loop_expand_conjuncts_loop.induct)
  case (2 pmda h e es)
  have IH: "or3 (map (truth I env) (expand_disjuncts_loop pmda h es)) = or3 (map (truth I env) es)"
    "\<forall>e \<in> set (expand_disjuncts_loop pmda h es). wf_expr e"
    using 2 by (auto split: if_splits)
  have e: "wf_expr e" "coercion_neutral I e" using 2(5) by (auto simp: expandable_def)
  note x = PexprExpand_ok [OF 2(6) e]
  consider (arr) "FScalarArrayCmp e" | (conj) "\<not> FScalarArrayCmp e" "FAnd e" | (other) "\<not> FScalarArrayCmp e" "\<not> FAnd e" by blast
  then show ?case
  proof cases
    case arr
    let ?x = "PexprExpand pmda h e"
    let ?p = "if FOr ?x then PdrgpexprDisjuncts ?x else [?x]"
    have p: "or3 (map (truth I env) ?p) = truth I env e"
      using x(1) [where env = env and h = h] PdrgpexprDisjuncts_truth [of I env ?x] by simp
    have w: "\<forall>c \<in> set ?p. wf_expr c"
      using x(2) wf_disjuncts by auto
    have l: "expand_disjuncts_loop pmda h (e # es) = ?p @ expand_disjuncts_loop pmda h es"
      using arr by (simp add: Let_def)
    have "or3 (map (truth I env) (expand_disjuncts_loop pmda h (e # es))) = or3 (map (truth I env) (e # es))"
      unfolding l map_append list.map(2) by (rule or3_cong_append [OF p IH(1)])
    moreover have "\<forall>c \<in> set (expand_disjuncts_loop pmda h (e # es)). wf_expr c"
      unfolding l using w IH(2) by auto
    ultimately show ?thesis by blast
  next
    case conj
    have c: "\<forall>c \<in> set (PdrgpexprConjuncts e). expandable I c" using 2(5) expandable_parts(1) [of I e] by simp
    let ?l = "expand_conjuncts_loop pmda h (PdrgpexprConjuncts e)"
    have l: "and3 (map (truth I env) ?l) = truth I env e" "\<forall>e \<in> set ?l. wf_expr e"
      using 2(2) [OF conj c 2(6)] by (simp_all add: PdrgpexprConjuncts_truth)
    then have "truth I env (PexprConjunction (PdrgpexprDedup pmda h ?l)) = truth I env e"
      using dedup_conj_disj3 [OF 2(6) l(2), where c = True] by (simp add: PexprConjDisj_truth conj_disj3_def)
    then show ?thesis using conj IH wf_PexprConjDisj [OF wf_dedup [OF l(2)]]
      by (auto intro!: or3_cong_Cons)
  next
    case other
    then show ?thesis using IH e by (auto intro!: or3_cong_Cons)
  qed
next
  case (4 pmda h e es)
  have IH: "and3 (map (truth I env) (expand_conjuncts_loop pmda h es)) = and3 (map (truth I env) es)"
    "\<forall>e \<in> set (expand_conjuncts_loop pmda h es). wf_expr e"
    using 4 by (auto split: if_splits)
  have e: "wf_expr e" "coercion_neutral I e" using 4(5) by (auto simp: expandable_def)
  note x = PexprExpand_ok [OF 4(6) e]
  consider (arr) "FScalarArrayCmp e" | (disj) "\<not> FScalarArrayCmp e" "FOr e" | (other) "\<not> FScalarArrayCmp e" "\<not> FOr e" by blast
  then show ?case
  proof cases
    case arr
    let ?x = "PexprExpand pmda h e"
    let ?p = "if FAnd ?x then PdrgpexprConjuncts ?x else [?x]"
    have p: "and3 (map (truth I env) ?p) = truth I env e"
      using x(1) [where env = env and h = h] PdrgpexprConjuncts_truth [of I env ?x] by simp
    have w: "\<forall>c \<in> set ?p. wf_expr c"
      using x(2) wf_conjuncts by auto
    have l: "expand_conjuncts_loop pmda h (e # es) = ?p @ expand_conjuncts_loop pmda h es"
      using arr by (simp add: Let_def)
    have "and3 (map (truth I env) (expand_conjuncts_loop pmda h (e # es))) = and3 (map (truth I env) (e # es))"
      unfolding l map_append list.map(2) by (rule and3_cong_append [OF p IH(1)])
    moreover have "\<forall>c \<in> set (expand_conjuncts_loop pmda h (e # es)). wf_expr c"
      unfolding l using w IH(2) by auto
    ultimately show ?thesis by blast
  next
    case disj
    have c: "\<forall>c \<in> set (PdrgpexprDisjuncts e). expandable I c" using 4(5) expandable_parts(2) [of I e] by simp
    let ?l = "expand_disjuncts_loop pmda h (PdrgpexprDisjuncts e)"
    have l: "or3 (map (truth I env) ?l) = truth I env e" "\<forall>e \<in> set ?l. wf_expr e"
      using 4(2) [OF disj c 4(6)] by (simp_all add: PdrgpexprDisjuncts_truth)
    then have "truth I env (PexprDisjunction (PdrgpexprDedup pmda h ?l)) = truth I env e"
      using dedup_conj_disj3 [OF 4(6) l(2), where c = False] by (simp add: PexprConjDisj_truth conj_disj3_def)
    then show ?thesis using disj IH wf_PexprConjDisj [OF wf_dedup [OF l(2)]]
      by (auto intro!: and3_cong_Cons)
  next
    case other
    then show ?thesis using IH e by (auto intro!: and3_cong_Cons)
  qed
qed simp_all

lemma PdrgpexprExpand_truth:
  assumes "comm_interp pmda I" "\<forall>e \<in> set es. expandable I e"
  shows "or3 (map (truth I env) (PdrgpexprExpandDisjuncts pmda h es)) = or3 (map (truth I env) es)"
    and "and3 (map (truth I env) (PdrgpexprExpandConjuncts pmda h es)) = and3 (map (truth I env) es)"
  using expand_loops_ok [OF assms(1,2), where env = env and h = h]
    dedup_conj_disj3 [OF assms(1), where env = env and h = h and c = True]
    dedup_conj_disj3 [OF assms(1), where env = env and h = h and c = False]
  by (simp_all add: PdrgpexprExpandDisjuncts_def PdrgpexprExpandConjuncts_def conj_disj3_def)

section \<open>Superfluous equalities and self comparisons\<close>

text \<open>
  \<open>PexprPruneSuperfluosEquality\<close>: \<open>true = (a cmp b)\<close> becomes \<open>a cmp b\<close>, \<open>false = (a cmp b)\<close> the
  inverse comparison, everywhere outside subqueries.
\<close>

lemma esize_child: "x \<in> set es \<Longrightarrow> esize x < esize (CExpression pop es)"
  by (induction es) auto

lemma FComparisonType_cmp: "FComparisonType pmda (CExpression pop es) t \<Longrightarrow> \<exists>m. pop = CScalarCmp m \<and> md_Ecmpt (pmda m) = t"
  by (auto simp: FComparisonType_def split: scalarop.splits)

lemma length2E:
  assumes "length xs = 2"
  obtains a b where "xs = [a, b]"
proof -
  obtain a ys where "xs = a # ys" "length ys = 1" using assms by (cases xs) auto
  moreover then obtain b where "ys = [b]" by (cases ys) auto
  ultimately show thesis using that by simp
qed

text \<open>What the equality at the root is pruned to: a child, the inverse of a child, or nothing.\<close>

definition prune_target :: "md_accessor \<Rightarrow> cexpression \<Rightarrow> cexpression option" where
  "prune_target pmda e =
     (if FEquality pmda e \<and> UlArity e = 2
      then if FScalarCmp (child e 1) \<and> FScalarConstTrue (child e 0) then Some (child e 1)
           else if FScalarCmp (child e 1) \<and> FScalarConstFalse (child e 0)
           then Some (PexprInverseComparison pmda (child e 1))
           else if FScalarCmp (child e 0) \<and> FScalarConstTrue (child e 1) then Some (child e 0)
           else if FScalarCmp (child e 0) \<and> FScalarConstFalse (child e 1)
           then Some (PexprInverseComparison pmda (child e 0))
           else None
      else None)"

lemma esize_inverse: "esize (PexprInverseComparison pmda e) \<le> esize e"
proof (cases e)
  case (CExpression pop es)
  have "lsize (take 2 es) \<le> lsize (take 2 es) + lsize (drop 2 es)" by simp
  also have "\<dots> = lsize es" by (metis append_take_drop_id lsize_simps(3))
  finally show ?thesis using CExpression by (auto simp: PexprInverseComparison_def split: scalarop.split)
qed

lemma prune_target_smaller: "prune_target pmda e = Some t \<Longrightarrow> esize t < esize e"
proof -
  assume t: "prune_target pmda e = Some t"
  obtain pop es where e: "e = CExpression pop es" by (cases e)
  have two: "length es = 2" using t by (auto simp: prune_target_def e split: if_splits)
  then have "esize (es ! 0) < esize e" "esize (es ! 1) < esize e"
    using esize_child [of _ es pop] by (auto simp: e)
  then show ?thesis
    using t esize_inverse [of pmda "es ! 0"] esize_inverse [of pmda "es ! 1"]
    by (auto simp: prune_target_def e split: if_splits)
qed

function PexprPruneSuperfluosEquality :: "md_accessor \<Rightarrow> cexpression \<Rightarrow> cexpression" where
  "PexprPruneSuperfluosEquality pmda (CExpression pop es) =
     (if FSubquery pop then CExpression pop es
      else case prune_target pmda (CExpression pop es) of
          Some t \<Rightarrow> PexprPruneSuperfluosEquality pmda t
        | None \<Rightarrow> CExpression pop (map (PexprPruneSuperfluosEquality pmda) es))"
  by pat_completeness auto
termination
  by (relation "measure (\<lambda>(pmda, e). esize e)") (auto dest: prune_target_smaller simp: esize_child simp del: lsize_simps(4))

text \<open>
  What the code relies on: the equality operators on booleans compare truth values, and the
  inverse of an operator is its negation.
\<close>

definition prune_interp :: "md_accessor \<Rightarrow> interp \<Rightarrow> bool" where
  "prune_interp pmda I \<longleftrightarrow>
     (\<forall>m d x b. md_Ecmpt (pmda m) = EcmptEq \<longrightarrow> d_type d = EtiBool \<longrightarrow> d_type x = EtiBool \<longrightarrow> truth_of d = Some b \<longrightarrow>
        i_op I m d x = (if b then truth_of x else not3 (truth_of x)) \<and> i_op I m x d = i_op I m d x)
   \<and> (\<forall>m x y. i_op I (md_PmdidOpInverse (pmda m)) x y = not3 (i_op I m x y))"

lemma ev_const_bool: "FScalarConstBool e b \<Longrightarrow> \<exists>d. ev I env e = Sd d \<and> d_type d = EtiBool \<and> truth_of d = Some b"
  by (cases e) (auto simp: FScalarConstBool_def truth_of_def split: scalarop.splits if_splits)

lemma ev_cmp: "FScalarCmp e \<Longrightarrow> \<exists>b. ev I env e = Sd (bool_datum b)"
  by (cases e) (auto simp: FScalarCmp_def split: scalarop.splits)

lemma bool_datum_type [simp]: "d_type (bool_datum b) = EtiBool"
  by (simp add: bool_datum_def null_datum_def split: option.split)

lemma ev_inverse:
  assumes "prune_interp pmda I" "FScalarCmp e" "wf_expr e"
  shows "ev I env (PexprInverseComparison pmda e) = Sd (bool_datum (not3 (truth I env e)))"
    and "wf_expr (PexprInverseComparison pmda e)"
proof -
  obtain m a b where e: "e = CExpression (CScalarCmp m) [a, b]"
    using assms(2,3) by (cases e) (auto simp: FScalarCmp_def length_Suc_conv numeral_2_eq_2 split: scalarop.splits)
  show "ev I env (PexprInverseComparison pmda e) = Sd (bool_datum (not3 (truth I env e)))"
    using assms(1) by (simp add: e PexprInverseComparison_def prune_interp_def truth_def arg_def)
  show "wf_expr (PexprInverseComparison pmda e)"
    using assms(3) by (simp add: e PexprInverseComparison_def)
qed

lemma prune_target_value:
  assumes "prune_interp pmda I" "wf_expr e" "prune_target pmda e = Some t"
  shows "ev I env t = ev I env e \<and> wf_expr t"
proof -
  obtain pop es where e: "e = CExpression pop es" by (cases e)
  have "FEquality pmda e" "length es = 2" using assms(3) by (auto simp: prune_target_def e split: if_splits)
  moreover obtain a b where ab: "es = [a, b]" using \<open>length es = 2\<close> by (rule length2E)
  ultimately obtain m where m: "e = CExpression (CScalarCmp m) [a, b]" "md_Ecmpt (pmda m) = EcmptEq"
    using FComparisonType_cmp [of pmda pop es] by (auto simp: e)
  have wf: "wf_expr a" "wf_expr b" using assms(2) m(1) by simp_all
  have eve: "ev I env e = Sd (bool_datum (i_op I m (dat (ev I env a)) (dat (ev I env b))))"
    by (simp add: m(1) arg_def)
  have val: "ev I env e = Sd (bool_datum (if v then truth I env y else not3 (truth I env y)))"
    if xy: "x = a \<and> y = b \<or> x = b \<and> y = a" "FScalarConstBool x v" "FScalarCmp y" for x y v
  proof -
    obtain d where d: "ev I env x = Sd d" "d_type d = EtiBool" "truth_of d = Some v"
      using ev_const_bool [OF xy(2)] by blast
    obtain w where w: "ev I env y = Sd (bool_datum w)" using ev_cmp [OF xy(3)] by blast
    have "i_op I m d (bool_datum w) = (if v then w else not3 w)" "i_op I m (bool_datum w) d = (if v then w else not3 w)"
      using assms(1) m(2) d unfolding prune_interp_def by (metis bool_datum_type truth_of_bool_datum)+
    then show ?thesis using xy(1) d w eve by (auto simp: truth_def)
  qed
  have y: "ev I env y = Sd (bool_datum (truth I env y))" if "FScalarCmp y" for y
    using ev_cmp [OF that, of I env] by (auto simp: truth_def)
  show ?thesis
    using assms(3) val [of a b True] val [of a b False] val [of b a True] val [of b a False] y wf
      ev_inverse [OF assms(1)]
    by (auto simp: prune_target_def m(1) split: if_splits)
qed

lemma PexprPruneSuperfluosEquality_value:
  "prune_interp pmda I \<Longrightarrow> wf_expr e \<Longrightarrow> ev I env (PexprPruneSuperfluosEquality pmda e) = ev I env e"
proof (induction pmda e rule: PexprPruneSuperfluosEquality.induct)
  case (1 pmda pop es)
  show ?case
  proof (cases "FSubquery pop")
    case False
    show ?thesis
    proof (cases "prune_target pmda (CExpression pop es)")
      case None
      then have "map (\<lambda>x. ev I env (PexprPruneSuperfluosEquality pmda x)) es = map (ev I env) es"
        using 1 False by auto
      then show ?thesis using False None by (simp add: comp_def del: map_eq_conv)
    next
      case (Some t)
      have "ev I env (PexprPruneSuperfluosEquality pmda t) = ev I env t"
        using 1(2) [OF False Some 1(3)] prune_target_value [OF 1(3,4) Some] by blast
      then show ?thesis using prune_target_value [OF 1(3,4) Some, of env] False Some by simp
    qed
  qed simp
qed

text \<open>A self comparison on a column that cannot be null is the constant it is replaced by.\<close>

definition reflexive_interp :: "md_accessor \<Rightarrow> interp \<Rightarrow> bool" where
  "reflexive_interp pmda I \<longleftrightarrow>
     (\<forall>m x. \<not> d_null x \<longrightarrow>
        (md_Ecmpt (pmda m) \<in> {EcmptEq, EcmptLEq, EcmptGEq} \<longrightarrow> i_op I m x x = Some True)
      \<and> (md_Ecmpt (pmda m) \<in> {EcmptNEq, EcmptL, EcmptG, EcmptIDF} \<longrightarrow> i_op I m x x = Some False))"

lemma PexprEliminateSelfComparison_truth:
  assumes "reflexive_interp pmda I" "wf_expr e" "\<forall>c. m_fTable c \<and> \<not> m_fNullable c \<longrightarrow> \<not> d_null (env c)"
  shows "truth I env (PexprEliminateSelfComparison pmda e) = truth I env e"
proof (cases "fst (FSelfComparison pmda e)")
  case True
  obtain pop es where pe: "e = CExpression pop es" by (cases e)
  then obtain m where m: "pop = CScalarCmp m" using True by (auto simp: FSelfComparison_def split: scalarop.splits)
  then have "length es = 2" using assms(2) pe by simp
  then obtain a b where ab: "es = [a, b]" by (rule length2E)
  obtain c es0 es1 where e: "e = CExpression (CScalarCmp m) [CExpression (CScalarIdent c) es0, CExpression (CScalarIdent c) es1]"
    and c: "m_fTable c" "\<not> m_fNullable c"
    using True by (cases a; cases b) (auto simp: FSelfComparison_def pe m ab split: scalarop.splits)
  have "truth I env e = i_op I m (env c) (env c)" by (simp add: e truth_def arg_def)
  moreover have "\<not> d_null (env c)" using c assms(3) by simp
  ultimately show ?thesis using assms(1) c
    by (auto simp: PexprEliminateSelfComparison_def FSelfComparison_def e reflexive_interp_def)
qed (auto simp: PexprEliminateSelfComparison_def split: prod.split)

section \<open>Properties\<close>

lemma sample_inverse:
  "i_op sample_db (md_PmdidOpInverse (sample_md m)) x y = not3 (i_op sample_db m x y)"
proof -
  have m: "m mod 6 \<in> {0, 1, 2, 3, 4, 5}" by auto
  have "md_Ecmpt (sample_md (md_PmdidOpInverse (sample_md m)))
      = [EcmptNEq, EcmptEq, EcmptGEq, EcmptL, EcmptLEq, EcmptG] ! (m mod 6)"
  proof (cases "even m")
    case True
    then obtain k where "m = 2 * k" by auto
    moreover have "k mod 3 \<in> {0, 1, 2}" by auto
    moreover have "2 * k mod 6 = 2 * (k mod 3)" "Suc (2 * k) mod 6 = Suc (2 * (k mod 3))" by presburger+
    ultimately show ?thesis by (auto simp: sample_md_def)
  next
    case False
    then obtain k where "m = 2 * k + 1" by (auto elim: oddE)
    moreover have "k mod 3 \<in> {0, 1, 2}" by auto
    moreover have "2 * k mod 6 = 2 * (k mod 3)" "Suc (2 * k) mod 6 = Suc (2 * (k mod 3))" by presburger+
    ultimately show ?thesis by (auto simp: sample_md_def)
  qed
  then show ?thesis using m by (auto simp: sample_db_def not3_def sample_md_def [of m])
qed

lemma sample_prune: "prune_interp sample_md sample_db"
  unfolding prune_interp_def using sample_inverse
  by (auto simp: sample_db_def sample_key_def truth_of_def not3_def split: if_splits)

lemma sample_reflexive: "reflexive_interp sample_md sample_db"
  by (auto simp: reflexive_interp_def sample_db_def)

text \<open>Splitting and recombining: the conjuncts (disjuncts) of an expression hold no nested \<open>AND\<close>
  (\<open>OR\<close>) and together mean the expression.\<close>

theorem PdrgpexprConjuncts_meaning:
  "and3 (map (truth I env) (PdrgpexprConjuncts e)) = truth I env e
   \<and> or3 (map (truth I env) (PdrgpexprDisjuncts e)) = truth I env e
   \<and> list_all (\<lambda>c. \<not> FAnd c) (PdrgpexprConjuncts e) \<and> list_all (\<lambda>c. \<not> FOr c) (PdrgpexprDisjuncts e)"
  using PdrgpexprConjuncts_flat [of _ e] PdrgpexprDisjuncts_flat [of _ e]
  by (auto simp: PdrgpexprConjuncts_truth PdrgpexprDisjuncts_truth list_all_iff)

text \<open>C24 \<open>CPredicateUtils::PexprConjDisj\<close>, which skips neutral constants, stops at an absorbing one and
  unwraps a single child, means the three-valued conjunction or disjunction of its arguments; of
  no arguments it is the constant true or false.\<close>

theorem PexprConjDisj_meaning:
  "truth I env (PexprConjDisj es fConjunction)
     = (if fConjunction then and3 (map (truth I env) es) else or3 (map (truth I env) es))"
  by (simp add: PexprConjDisj_truth conj_disj3_def)

text \<open>Combining two expressions by \<open>PexprConjunction\<close> or \<open>PexprDisjunction\<close> after splitting both means
  their three-valued conjunction or disjunction.\<close>

theorem PexprConjDisj2_meaning:
  "truth I env (PexprConjDisj2 False e1 e2 True) = and3 [truth I env e1, truth I env e2]
   \<and> truth I env (PexprConjDisj2 False e1 e2 False) = or3 [truth I env e1, truth I env e2]"
  by (simp add: PexprConjDisj2_truth conj_disj3_def)



text \<open>Pruning comparisons with a boolean constant (\<open>PexprPruneSuperfluosEquality\<close>) keeps the value of
  every expression, when the database compares booleans as \<open>=\<close> should and the inverse of each
  operator is its negation.\<close>

theorem PexprPruneSuperfluosEquality_meaning:
  assumes "prune_interp pmda I" "wf_expr e"
  shows "ev I env (PexprPruneSuperfluosEquality pmda e) = ev I env e"
  by (rule PexprPruneSuperfluosEquality_value [OF assms])

theorem PexprPruneSuperfluosEquality_meaning_witness:
  "ev sample_db (\<lambda>_. int4 3) (PexprPruneSuperfluosEquality sample_md
      (CExpression (CScalarCmp 0) [CExpression (CScalarCmp 2) [col_expr, const_expr 5], PexprScalarConstBool False False]))
   = ev sample_db (\<lambda>_. int4 3)
      (CExpression (CScalarCmp 0) [CExpression (CScalarCmp 2) [col_expr, const_expr 5], PexprScalarConstBool False False])"
  by (rule PexprPruneSuperfluosEquality_meaning [OF sample_prune])
    (simp add: col_expr_def const_expr_def PexprScalarConstBool_def)

text \<open>Replacing a comparison of a non-nullable table column with itself by a constant
  (\<open>PexprEliminateSelfComparison\<close>) keeps its truth value on every row that honours the
  constraint.\<close>

theorem PexprEliminateSelfComparison_meaning:
  assumes "reflexive_interp pmda I" "wf_expr e" "\<forall>c. m_fTable c \<and> \<not> m_fNullable c \<longrightarrow> \<not> d_null (env c)"
  shows "truth I env (PexprEliminateSelfComparison pmda e) = truth I env e"
  by (rule PexprEliminateSelfComparison_truth [OF assms])

theorem PexprEliminateSelfComparison_meaning_witness:
  "truth sample_db (\<lambda>_. int4 3) (PexprEliminateSelfComparison sample_md
      (CExpression (CScalarCmp 2) [CExpression (CScalarIdent (sample_col\<lparr>m_fNullable := False\<rparr>)) [],
         CExpression (CScalarIdent (sample_col\<lparr>m_fNullable := False\<rparr>)) []]))
   = truth sample_db (\<lambda>_. int4 3)
      (CExpression (CScalarCmp 2) [CExpression (CScalarIdent (sample_col\<lparr>m_fNullable := False\<rparr>)) [],
         CExpression (CScalarIdent (sample_col\<lparr>m_fNullable := False\<rparr>)) []])"
  by (rule PexprEliminateSelfComparison_meaning [OF sample_reflexive]) (simp_all add: int4_def)

text \<open>The test \<open>FConjunctionOfEqComparisons\<close> reads the children of the whole expression instead of its
  conjuncts: it accepts a disjunction of an equality and \<open><\<close> and a negated equality, reads past
  the children of a column, and rejects a nested conjunction of equalities.\<close>

theorem FConjunctionOfEqComparisons_wrong:
  "FConjunctionOfEqComparisons sample_md (CExpression (CScalarBoolOp EboolopOr)
      [CExpression (CScalarCmp 0) [col_expr, const_expr 5], CExpression (CScalarCmp 2) [col_expr, const_expr 5]]) = Some True
   \<and> FConjunctionOfEqComparisons sample_md (CExpression (CScalarBoolOp EboolopNot)
      [CExpression (CScalarCmp 0) [col_expr, const_expr 5]]) = Some True
   \<and> FConjunctionOfEqComparisons sample_md col_expr = None
   \<and> FConjunctionOfEqComparisons sample_md (CExpression (CScalarBoolOp EboolopAnd)
      [CExpression (CScalarBoolOp EboolopAnd)
        [CExpression (CScalarCmp 0) [col_expr, const_expr 5], CExpression (CScalarCmp 0) [col_expr, const_expr 6]],
       CExpression (CScalarCmp 0) [col_expr, const_expr 7]]) = Some False"
  by (simp add: FConjunctionOfEqComparisons_def FComparisonType_def FScalarBoolOp_def sample_md_def col_expr_def)

end
