(* ===== verification/ScalarInterval.thy ===== *)
theory ScalarInterval
  imports ConstraintInterval PredicateUtils
begin

text \<open>
  From scalar expressions to interval constraints and back
  (\<^verbatim>\<open>libgpopt/src/base/CConstraintInterval.cpp\<close>, \<^verbatim>\<open>CRange.cpp\<close>).  The main lemma sandwiches
  the values an interval holds for between those that make the expression true and those that do
  not make it false; the complement taken for \<open>NOT\<close> needs both sides.
\<close>

section \<open>Intervals from expressions\<close>

text \<open>The surroundings: metadata, comparison context, comparator and the array constraints trace flag.\<close>

record interval_ctx =
  iv_pmda :: md_accessor
  iv_ctx :: cmp_context
  iv_pcomp :: "idatum comparator"
  iv_fArrayConstraints :: bool

definition PciIntervalFromScalarNullTest :: "cexpression \<Rightarrow> colref \<Rightarrow> constraint_interval option" where
  "PciIntervalFromScalarNullTest e pcr =
     (if FScalarIdent (child e 0)
      then Some \<lparr>m_pcr = pcr, m_pdrgprng = [], m_fIncludesNull = True\<rparr> else None)"

definition PciIntervalFromScalarCmp :: "md_accessor \<Rightarrow> cexpression \<Rightarrow> colref \<Rightarrow> constraint_interval option" where
  "PciIntervalFromScalarCmp pmda e pcr =
     (if FCompareIdentToConst e
      then (case (m_pop e, m_pop (child e 1)) of
              (CScalarCmp m, CScalarConst d) \<Rightarrow> PciIntervalFromColConstCmp pcr (md_Ecmpt (pmda m)) d
            | _ \<Rightarrow> None)
      else None)"

text \<open>The constants of an array, read one by one.\<close>

definition array_consts :: "cexpression \<Rightarrow> idatum list" where
  "array_consts arr = map (\<lambda>ul. the (PScalarArrayConstChildAt arr ul)) [0..<UlScalarArrayArity arr]"

definition PciIntervalFromArrayCmp ::
    "interval_ctx \<Rightarrow> cexpression \<Rightarrow> colref \<Rightarrow> constraint_interval option option" where
  "PciIntervalFromArrayCmp C e pcr =
     (if \<not> FCompareIdentToConstArray e then Some None
      else case m_pop e of
          CScalarArrayCmp t m \<Rightarrow>
            PcnstrIntervalFromScalarArrayCmp (iv_pcomp C) pcr (md_Ecmpt (iv_pmda C m))
              (array_consts (PexprScalarArrayChild e))
        | _ \<Rightarrow> Some None)"

text \<open>
  \<open>PciIntervalFromScalarExpr\<close> with its helpers for the boolean operators.  The outer \<open>None\<close> is a
  fault (an access out of bounds or a \<open>NULL\<close> dereference), the inner one the \<open>NULL\<close> result.
\<close>

fun PciIntervalFromScalarExpr :: "interval_ctx \<Rightarrow> cexpression \<Rightarrow> colref \<Rightarrow> constraint_interval option option"
  and and_interval_loop :: "interval_ctx \<Rightarrow> colref \<Rightarrow> constraint_interval option \<Rightarrow> cexpression list \<Rightarrow> constraint_interval option option"
  and or_interval_loop :: "interval_ctx \<Rightarrow> colref \<Rightarrow> constraint_interval \<Rightarrow> cexpression list \<Rightarrow> constraint_interval option option" where
  "PciIntervalFromScalarExpr C (CExpression pop es) pcr =
     (case pop of
        CScalarNullTest \<Rightarrow> Some (PciIntervalFromScalarNullTest (CExpression pop es) pcr)
      | CScalarBoolOp b \<Rightarrow>
          (case es of
             [] \<Rightarrow> None
           | e # rest \<Rightarrow>
               (case PciIntervalFromScalarExpr C e pcr of
                  None \<Rightarrow> None
                | Some pci \<Rightarrow>
                    (case b of
                       EboolopAnd \<Rightarrow> and_interval_loop C pcr pci rest
                     | EboolopOr \<Rightarrow> (case pci of None \<Rightarrow> Some None | Some p \<Rightarrow> or_interval_loop C pcr p rest)
                     | EboolopNot \<Rightarrow>
                         (case pci of None \<Rightarrow> Some None
                          | Some p \<Rightarrow> map_option Some (PciComplement (iv_ctx C) (iv_pcomp C) p)))))
      | CScalarCmp m \<Rightarrow> Some (PciIntervalFromScalarCmp (iv_pmda C) (CExpression pop es) pcr)
      | CScalarConst d \<Rightarrow>
          Some (if FScalarConstTrue (CExpression pop es) then PciUnbounded (iv_ctx C) pcr True
                else Some \<lparr>m_pcr = pcr, m_pdrgprng = [], m_fIncludesNull = False\<rparr>)
      | CScalarArrayCmp t m \<Rightarrow>
          (if iv_fArrayConstraints C then PciIntervalFromArrayCmp C (CExpression pop es) pcr else Some None)
      | _ \<Rightarrow> Some None)"
| "and_interval_loop C pcr pci [] = Some pci"
| "and_interval_loop C pcr pci (e # es) =
     (case PciIntervalFromScalarExpr C e pcr of
        None \<Rightarrow> None
      | Some pciChild \<Rightarrow>
          and_interval_loop C pcr
            (case (pciChild, pci) of
               (Some c, Some p) \<Rightarrow> Some (PciIntersect (iv_pcomp C) p c)
             | (Some c, None) \<Rightarrow> Some c
             | (None, _) \<Rightarrow> pci) es)"
| "or_interval_loop C pcr pci [] = Some (Some pci)"
| "or_interval_loop C pcr pci (e # es) =
     (case PciIntervalFromScalarExpr C e pcr of
        None \<Rightarrow> None
      | Some None \<Rightarrow> Some None
      | Some (Some pciChild) \<Rightarrow> or_interval_loop C pcr (PciUnion (iv_pcomp C) pci pciChild) es)"

section \<open>Expressions whose interval is sound\<close>

text \<open>
  The expression is about one column: in the forms the code recognises, the column is \<open>pcr\<close>, the
  constants are integer datums, and no plain comparison operator has the type \<open>IS DISTINCT FROM\<close>.
\<close>

definition leaf_ok :: "md_accessor \<Rightarrow> colref \<Rightarrow> cexpression \<Rightarrow> bool" where
  "leaf_ok pmda pcr e \<longleftrightarrow>
     (case m_pop e of
        CScalarNullTest \<Rightarrow> FScalarIdent (child e 0) \<longrightarrow> m_pop (child e 0) = CScalarIdent pcr
      | CScalarCmp m \<Rightarrow>
          FCompareIdentToConst e \<longrightarrow>
            m_pop (child e 0) = CScalarIdent pcr \<and> md_Ecmpt (pmda m) \<noteq> EcmptIDF
            \<and> list_all int_datum (case m_pop (child e 1) of CScalarConst d \<Rightarrow> [d] | _ \<Rightarrow> [])
      | CScalarArrayCmp t m \<Rightarrow>
          FCompareIdentToConstArray e \<longrightarrow>
            m_pop (child e 0) = CScalarIdent pcr \<and> list_all int_datum (array_consts (child e 1))
      | CScalarConst d \<Rightarrow> d_type d = EtiBool
      | _ \<Rightarrow> True)"

fun one_column :: "md_accessor \<Rightarrow> colref \<Rightarrow> cexpression \<Rightarrow> bool" where
  "one_column pmda pcr (CExpression pop es) \<longleftrightarrow>
     leaf_ok pmda pcr (CExpression pop es)
     \<and> (case pop of CScalarBoolOp b \<Rightarrow> (\<forall>e \<in> set es. one_column pmda pcr e) | _ \<Rightarrow> True)"

text \<open>
  Where the code is exact.  A conjunction drops the children that have no interval, and an array
  comparison ignores its quantifier.  \<open>loses_none\<close>: the interval keeps the values that make the
  expression true (no \<open><> ANY\<close>); \<open>gains_none\<close>: it has none that makes it false (no dropped conjunct, no
  \<open>= ALL\<close>).  A negation exchanges the two.
\<close>

fun loses_none :: "interval_ctx \<Rightarrow> colref \<Rightarrow> cexpression \<Rightarrow> bool"
  and gains_none :: "interval_ctx \<Rightarrow> colref \<Rightarrow> cexpression \<Rightarrow> bool" where
  "loses_none C pcr (CExpression pop es) \<longleftrightarrow>
     (case pop of
        CScalarBoolOp b \<Rightarrow> (if b = EboolopNot then \<forall>e \<in> set es. gains_none C pcr e else \<forall>e \<in> set es. loses_none C pcr e)
      | CScalarArrayCmp t m \<Rightarrow> \<not> (t = EarrcmpAny \<and> md_Ecmpt (iv_pmda C m) = EcmptNEq)
      | _ \<Rightarrow> True)"
| "gains_none C pcr (CExpression pop es) \<longleftrightarrow>
     (case pop of
        CScalarBoolOp b \<Rightarrow>
          (if b = EboolopNot then \<forall>e \<in> set es. loses_none C pcr e
           else (\<forall>e \<in> set es. gains_none C pcr e)
             \<and> (b = EboolopAnd \<longrightarrow> (\<forall>e \<in> set es. PciIntervalFromScalarExpr C e pcr \<noteq> Some None)))
      | CScalarArrayCmp t m \<Rightarrow> \<not> (t = EarrcmpAll \<and> md_Ecmpt (iv_pmda C m) = EcmptEq)
      | _ \<Rightarrow> True)"

text \<open>What the operators of the database compute on integer datums.\<close>

definition int_interp :: "md_accessor \<Rightarrow> interp \<Rightarrow> bool" where
  "int_interp pmda I \<longleftrightarrow>
     (\<forall>m x y. md_Ecmpt (pmda m) \<notin> {EcmptIDF, EcmptOther} \<longrightarrow> int_datum x \<longrightarrow> int_datum y \<longrightarrow>
        i_op I m x y = (if d_null x \<or> d_null y then None
                        else Some (key_cmp (md_Ecmpt (pmda m)) (stats_key x) (stats_key y))))"

lemma canon_int [simp]: "int_datum (canon d) = int_datum d" "stats_key (canon d) = stats_key d"
  by (simp_all add: int_datum_def stats_key_def canon_def)

section \<open>The interval of an expression\<close>

definition sandwiched :: "interval_ctx \<Rightarrow> colref \<Rightarrow> idatum \<Rightarrow> constraint_interval \<Rightarrow> bool \<Rightarrow> bool \<Rightarrow> bool option \<Rightarrow> bool" where
  "sandwiched C pcr v pci lower upper t \<longleftrightarrow>
     ci_ok int_datum stats_key pci \<and> m_pcr pci = pcr
   \<and> (lower \<longrightarrow> t = Some True \<longrightarrow> ci_holds (iv_pcomp C) pci v)
   \<and> (upper \<longrightarrow> ci_holds (iv_pcomp C) pci v \<longrightarrow> t \<noteq> Some False)"

lemma null_test_sandwiched:
  assumes "wf_expr (CExpression CScalarNullTest es)" "one_column pmda pcr (CExpression CScalarNullTest es)"
    "PciIntervalFromScalarNullTest (CExpression CScalarNullTest es) pcr = Some pci"
  shows "sandwiched C pcr (env pcr) pci l u (truth I env (CExpression CScalarNullTest es))"
proof -
  obtain e where es: "es = [e]" using assms(1) by (auto simp: length_Suc_conv)
  have e: "m_pop e = CScalarIdent pcr" "pci = \<lparr>m_pcr = pcr, m_pdrgprng = [], m_fIncludesNull = True\<rparr>"
    using assms(2,3) by (auto simp: es leaf_ok_def PciIntervalFromScalarNullTest_def split: if_splits)
  then have "truth I env (CExpression CScalarNullTest es) = Some (d_null (env pcr))"
    by (cases e) (simp add: es truth_def arg_def)
  then show ?thesis
    using e(2) by (auto simp: sandwiched_def ci_ok_def ranges_ok_def ci_holds_def)
qed

lemma FCompareIdentToConst_shape:
  "FCompareIdentToConst (CExpression (CScalarCmp m) [a, b]) \<Longrightarrow> \<exists>c d. m_pop a = CScalarIdent c \<and> m_pop b = CScalarConst d"
  by (cases a; cases b) (auto simp: FCompareIdentToConst_def FScalarIdent_def FScalarConst_def split: scalarop.splits)

lemma ev_leaf:
  "m_pop a = CScalarIdent c \<Longrightarrow> dat (ev I env a) = env c"
  "m_pop a = CScalarConst d \<Longrightarrow> dat (ev I env a) = canon d"
  by (cases a; simp)+

lemma cmp_sandwiched:
  assumes dc: "datum_comparator (iv_pcomp C) int_datum stats_key" and I: "int_interp pmda I" and v: "int_datum (env pcr)"
    and wf: "wf_expr (CExpression (CScalarCmp m) es)" and oc: "one_column pmda pcr (CExpression (CScalarCmp m) es)"
    and pci: "PciIntervalFromScalarCmp pmda (CExpression (CScalarCmp m) es) pcr = Some pci"
  shows "sandwiched C pcr (env pcr) pci l u (truth I env (CExpression (CScalarCmp m) es))"
proof -
  let ?t = "md_Ecmpt (pmda m)"
  obtain a b where es: "es = [a, b]" using wf by (auto elim: length2E)
  have f: "FCompareIdentToConst (CExpression (CScalarCmp m) [a, b])"
    using pci by (auto simp: es PciIntervalFromScalarCmp_def split: if_splits)
  obtain c d where ab: "m_pop a = CScalarIdent c" "m_pop b = CScalarConst d"
    using FCompareIdentToConst_shape [OF f] by blast
  have ok: "c = pcr" "?t \<noteq> EcmptIDF" "int_datum d" and p: "PciIntervalFromColConstCmp pcr ?t d = Some pci"
    using oc pci f ab by (auto simp: es leaf_ok_def PciIntervalFromScalarCmp_def)
  have t: "?t \<notin> {EcmptIDF, EcmptOther}"
    using ok(2) p by (auto simp: PciIntervalFromColConstCmp_def PciRangeFromColConstCmp_def)
  have "truth I env (CExpression (CScalarCmp m) es) = i_op I m (env pcr) (canon d)"
    using ab ok(1) by (simp add: es truth_def arg_def ev_leaf)
  also have "\<dots> = (if d_null (env pcr) \<or> d_null d then None else Some (key_cmp ?t (stats_key (env pcr)) (stats_key d)))"
    using I t v ok(3) unfolding int_interp_def by (metis canon_int canon_simps(1))
  finally show ?thesis
    using datum_comparator.PciIntervalFromColConstCmp_holds [OF dc p ok(3) v]
    by (auto simp: sandwiched_def)
qed

lemma array_sandwiched:
  assumes dc: "datum_comparator (iv_pcomp C) int_datum stats_key" and I: "int_interp (iv_pmda C) I" and v: "int_datum (env pcr)"
    and wf: "wf_expr (CExpression (CScalarArrayCmp q m) es)" and oc: "one_column (iv_pmda C) pcr (CExpression (CScalarArrayCmp q m) es)"
    and pci: "PciIntervalFromArrayCmp C (CExpression (CScalarArrayCmp q m) es) pcr = Some (Some pci)"
  shows "sandwiched C pcr (env pcr) pci (loses_none C pcr (CExpression (CScalarArrayCmp q m) es))
    (gains_none C pcr (CExpression (CScalarArrayCmp q m) es)) (truth I env (CExpression (CScalarArrayCmp q m) es))"
proof -
  let ?t = "md_Ecmpt (iv_pmda C m)"
  let ?v = "env pcr"
  obtain a arr where es: "es = [a, arr]" using wf by (auto elim: length2E)
  let ?e = "CExpression (CScalarArrayCmp q m) es"
  have f: "FCompareIdentToConstArray ?e"
    using pci by (auto simp: PciIntervalFromArrayCmp_def split: if_splits)
  then obtain ds xs where arr: "arr = CExpression (CScalarArray ds) xs"
    by (cases arr) (auto simp: FCompareIdentToConstArray_def FScalarArray_def es split: scalarop.splits)
  have ch: "PexprScalarArrayChild ?e = arr" by (simp add: PexprScalarArrayChild_def es arr FScalarArrayCoerce_def)
  have cs: "list_all FScalarConst xs"
    using f ch by (simp add: FCompareIdentToConstArray_def FScalarConstArray_def arr)
  have ok: "m_pop a = CScalarIdent pcr" "\<forall>c \<in> set (array_consts arr). int_datum c"
    using oc f by (auto simp: leaf_ok_def es list_all_iff)
  have p: "PcnstrIntervalFromScalarArrayCmp (iv_pcomp C) pcr ?t (array_consts arr) = Some (Some pci)"
    using pci f ch by (simp add: PciIntervalFromArrayCmp_def)
  have t: "?t = EcmptEq \<or> ?t = EcmptNEq"
    using p by (auto simp: PcnstrIntervalFromScalarArrayCmp_def split: if_splits option.splits)
  have elems: "ev I env arr = Sa (map canon (array_consts arr))"
  proof (cases "xs = []")
    case True
    then show ?thesis
      by (cases "ds = []") (auto simp: arr array_consts_def PScalarArrayConstChildAt_def FScalarArrayCollapsed_def
          UlScalarArrayArity_def intro!: nth_equalityI)
  next
    case False
    have "dat (ev I env (xs ! i)) = canon (the (PScalarArrayConstChildAt arr i))" if "i < length xs" for i
    proof -
      have "FScalarConst (xs ! i)" using cs that by (simp add: list_all_length)
      then obtain d where "m_pop (xs ! i) = CScalarConst d"
        by (auto simp: FScalarConst_def split: scalarop.splits)
      then show ?thesis using False
        by (simp add: ev_leaf arr PScalarArrayConstChildAt_def FScalarArrayCollapsed_def)
    qed
    then show ?thesis using False
      by (auto simp: arr array_consts_def UlScalarArrayArity_def comp_def intro!: nth_equalityI)
  qed
  have "truth I env ?e = quantified q (map (\<lambda>c. i_op I m ?v (canon c)) (array_consts arr))"
    using ok(1) elems by (simp add: es truth_def arg_def ev_leaf comp_def)
  also have "map (\<lambda>c. i_op I m ?v (canon c)) (array_consts arr)
      = map (\<lambda>c. if d_null ?v \<or> d_null c then None else Some (key_cmp ?t (stats_key ?v) (stats_key c))) (array_consts arr)"
    using I t v ok(2) unfolding int_interp_def by auto
  finally have tr: "truth I env ?e = quantified q (map (\<lambda>c. if d_null ?v \<or> d_null c then None
      else Some (key_cmp ?t (stats_key ?v) (stats_key c))) (array_consts arr))" .
  note h = datum_comparator.PcnstrIntervalFromScalarArrayCmp_holds [OF dc p ok(2) v]
  have ne: "array_consts arr \<noteq> []" using p by (auto simp: PcnstrIntervalFromScalarArrayCmp_def)
  show ?thesis
  proof (cases "d_null ?v")
    case True
    then have "truth I env ?e = None" unfolding tr using ne
      by (cases q; cases "array_consts arr") (auto simp: quantified_def and3_def or3_def)
    then show ?thesis using h(1,2) by (simp add: sandwiched_def)
  next
    case False
    note h' = h(1,2) h(4) [OF False] h(5) [OF False]
    consider "q = EarrcmpAny" "?t = EcmptEq" | "q = EarrcmpAny" "?t = EcmptNEq"
      | "q = EarrcmpAll" "?t = EcmptEq" | "q = EarrcmpAll" "?t = EcmptNEq" using t by (cases q) auto
    then show ?thesis
    proof cases
      case 1
      then show ?thesis using h' False unfolding tr
        by (auto simp: sandwiched_def quantified_def or3_def key_cmp_def split: if_splits)
    next
      case 2
      then show ?thesis using h' False ne unfolding tr
        by (cases "array_consts arr") (auto simp: sandwiched_def quantified_def or3_def key_cmp_def split: if_splits)
    next
      case 3
      then show ?thesis using h' False ne unfolding tr
        by (cases "array_consts arr") (auto simp: sandwiched_def quantified_def and3_def key_cmp_def split: if_splits)
    next
      case 4
      then show ?thesis using h' False unfolding tr
        by (auto simp: sandwiched_def quantified_def and3_def key_cmp_def split: if_splits)
    qed
  qed
qed

subsection \<open>Boolean operators\<close>

lemma const_not_true:
  "d_type d = EtiBool \<Longrightarrow> \<not> FScalarConstTrue (CExpression (CScalarConst d) es) \<Longrightarrow> truth_of d \<noteq> Some True"
  by (auto simp: FScalarConstBool_def truth_of_def)

lemma or3_pair:
  "or3 [a, b] = Some True \<longleftrightarrow> a = Some True \<or> b = Some True"
  "or3 [a, b] = Some False \<longleftrightarrow> a = Some False \<and> b = Some False"
  by (cases a rule: option.exhaust; cases b rule: option.exhaust; auto simp: or3_def)+

lemma and3_pair:
  "and3 [a, b] = Some True \<longleftrightarrow> a = Some True \<and> b = Some True"
  "and3 [a, b] = Some False \<longleftrightarrow> a = Some False \<or> b = Some False"
  by (cases a rule: option.exhaust; cases b rule: option.exhaust; auto simp: and3_def)+

definition converts :: "interval_ctx \<Rightarrow> colref \<Rightarrow> cexpression \<Rightarrow> bool" where
  "converts C pcr e \<longleftrightarrow> PciIntervalFromScalarExpr C e pcr \<noteq> Some None"

lemma and_step:
  assumes dc: "datum_comparator (iv_pcomp C) int_datum stats_key" and v: "int_datum v"
    and p: "sandwiched C pcr v p lp up tp" and c: "sandwiched C pcr v c lc uc tc"
  shows "sandwiched C pcr v (PciIntersect (iv_pcomp C) p c) (lp \<and> lc) (up \<and> uc) (and3 [tp, tc])"
proof -
  have ok: "ci_ok int_datum stats_key p" "ci_ok int_datum stats_key c" using p c by (simp_all add: sandwiched_def)
  show ?thesis
    using p c datum_comparator.PciIntersect_refines(2) [OF dc ok] datum_comparator.PciIntersect_holds [OF dc ok v]
      datum_comparator.PciIntersect_pcr [OF dc, of p c]
    by (auto simp: sandwiched_def and3_pair)
qed

lemma or_step:
  assumes dc: "datum_comparator (iv_pcomp C) int_datum stats_key" and v: "int_datum v"
    and p: "sandwiched C pcr v p lp up tp" and c: "sandwiched C pcr v c lc uc tc"
  shows "sandwiched C pcr v (PciUnion (iv_pcomp C) p c) (lp \<and> lc) (up \<and> uc) (or3 [tp, tc])"
proof -
  have ok: "ci_ok int_datum stats_key p" "ci_ok int_datum stats_key c" using p c by (simp_all add: sandwiched_def)
  show ?thesis
    using p c datum_comparator.PciUnion_refines(2) [OF dc ok] datum_comparator.PciUnion_holds [OF dc ok v]
      datum_comparator.PciUnion_pcr [OF dc, of p c]
    by (auto simp: sandwiched_def or3_pair)
qed

lemma not_step:
  assumes dc: "datum_comparator (iv_pcomp C) int_datum stats_key" and v: "int_datum v"
    and p: "sandwiched C pcr v p lp up tp" and n: "PciComplement (iv_ctx C) (iv_pcomp C) p = Some c"
  shows "sandwiched C pcr v c up lp (not3 tp)"
proof -
  have ok: "ci_ok int_datum stats_key p" using p by (simp add: sandwiched_def)
  show ?thesis
    using p datum_comparator.PciComplement_holds [OF dc n ok v]
    by (cases tp) (auto simp: sandwiched_def not3_def)
qed

lemma sandwiched_weaken:
  "sandwiched C pcr v p l u t \<Longrightarrow> (l' \<Longrightarrow> l) \<Longrightarrow> (u' \<Longrightarrow> u) \<Longrightarrow> sandwiched C pcr v p l' u' t"
  by (auto simp: sandwiched_def)

lemma and3_true: "and3 bs = Some True \<longleftrightarrow> (\<forall>b \<in> set bs. b = Some True)"
  by (auto simp: and3_def split: if_splits) (metis (full_types) not_None_eq)

lemma sandwiched_drop:
  "sandwiched C pcr v p l u tp \<Longrightarrow> sandwiched C pcr v p l False (and3 [tp, tc])"
  by (simp add: sandwiched_def and3_true)

lemma sandwiched_drop_left:
  "sandwiched C pcr v p l u tc \<Longrightarrow> sandwiched C pcr v p l False (and3 [tp, tc])"
  by (simp add: sandwiched_def and3_true)

text \<open>The state of the conjunction loop after the children \<open>ps\<close>.\<close>

definition and_inv :: "interp \<Rightarrow> (colref \<Rightarrow> idatum) \<Rightarrow> interval_ctx \<Rightarrow> colref \<Rightarrow> constraint_interval option \<Rightarrow> cexpression list \<Rightarrow> bool" where
  "and_inv I env C pcr acc ps \<longleftrightarrow>
     (case acc of
        None \<Rightarrow> \<exists>e \<in> set ps. \<not> converts C pcr e
      | Some p \<Rightarrow> sandwiched C pcr (env pcr) p (\<forall>e \<in> set ps. loses_none C pcr e)
                   (\<forall>e \<in> set ps. gains_none C pcr e \<and> converts C pcr e) (and3 (map (truth I env) ps)))"

definition or_inv :: "interp \<Rightarrow> (colref \<Rightarrow> idatum) \<Rightarrow> interval_ctx \<Rightarrow> colref \<Rightarrow> constraint_interval \<Rightarrow> cexpression list \<Rightarrow> bool" where
  "or_inv I env C pcr p ps \<longleftrightarrow>
     sandwiched C pcr (env pcr) p (\<forall>e \<in> set ps. loses_none C pcr e) (\<forall>e \<in> set ps. gains_none C pcr e)
       (or3 (map (truth I env) ps))"

definition expr_inv :: "interp \<Rightarrow> (colref \<Rightarrow> idatum) \<Rightarrow> interval_ctx \<Rightarrow> colref \<Rightarrow> constraint_interval option \<Rightarrow> cexpression \<Rightarrow> bool" where
  "expr_inv I env C pcr r e \<longleftrightarrow>
     (case r of None \<Rightarrow> \<not> converts C pcr e
      | Some c \<Rightarrow> sandwiched C pcr (env pcr) c (loses_none C pcr e) (gains_none C pcr e) (truth I env e))"

lemma and_inv_step:
  assumes dc: "datum_comparator (iv_pcomp C) int_datum stats_key" and v: "int_datum (env pcr)"
    and p: "and_inv I env C pcr acc ps" and c: "expr_inv I env C pcr r e"
  shows "and_inv I env C pcr
    (case (r, acc) of (Some c, Some p) \<Rightarrow> Some (PciIntersect (iv_pcomp C) p c)
      | (Some c, None) \<Rightarrow> Some c | (None, _) \<Rightarrow> acc) (ps @ [e])"
proof (cases r)
  case None
  show ?thesis
  proof (cases acc)
    case (Some p')
    have "sandwiched C pcr (env pcr) p' (\<forall>e \<in> set ps. loses_none C pcr e) False
        (and3 [and3 (map (truth I env) ps), truth I env e])"
      using p Some by (intro sandwiched_drop) (simp add: and_inv_def)
    then show ?thesis using None Some c
      by (auto simp: and_inv_def expr_inv_def and3_append elim: sandwiched_weaken)
  qed (use None p in \<open>auto simp: and_inv_def\<close>)
next
  case (Some x)
  then have x: "sandwiched C pcr (env pcr) x (loses_none C pcr e) (gains_none C pcr e) (truth I env e)"
    using c by (simp add: expr_inv_def)
  show ?thesis
  proof (cases acc)
    case None
    have "sandwiched C pcr (env pcr) x (loses_none C pcr e) False (and3 [and3 (map (truth I env) ps), truth I env e])"
      using x by (rule sandwiched_drop_left)
    then show ?thesis using None Some p
      by (auto simp: and_inv_def and3_append elim: sandwiched_weaken)
  next
    case (Some p')
    then have "sandwiched C pcr (env pcr) p' (\<forall>e \<in> set ps. loses_none C pcr e)
        (\<forall>e \<in> set ps. gains_none C pcr e \<and> converts C pcr e) (and3 (map (truth I env) ps))"
      using p by (simp add: and_inv_def)
    from and_step [OF dc v this x] show ?thesis using Some \<open>r = Some x\<close>
      by (auto simp: and_inv_def and3_append elim: sandwiched_weaken)
  qed
qed

lemma or_inv_step:
  assumes dc: "datum_comparator (iv_pcomp C) int_datum stats_key" and v: "int_datum (env pcr)"
    and p: "or_inv I env C pcr p ps" and c: "expr_inv I env C pcr (Some c) e"
  shows "or_inv I env C pcr (PciUnion (iv_pcomp C) p c) (ps @ [e])"
proof -
  have "sandwiched C pcr (env pcr) c (loses_none C pcr e) (gains_none C pcr e) (truth I env e)"
    using c by (simp add: expr_inv_def)
  from or_step [OF dc v p [unfolded or_inv_def] this] show ?thesis
    by (auto simp: or_inv_def or3_append elim: sandwiched_weaken)
qed

theorem PciIntervalFromScalarExpr_inv:
  assumes dc: "datum_comparator (iv_pcomp C) int_datum stats_key" and I: "int_interp (iv_pmda C) I"
    and v: "int_datum (env pcr)"
  shows "wf_expr e \<Longrightarrow> one_column (iv_pmda C) pcr e \<Longrightarrow> PciIntervalFromScalarExpr C e pcr = Some r \<Longrightarrow>
      expr_inv I env C pcr r e"
    and "\<forall>e \<in> set es. wf_expr e \<and> one_column (iv_pmda C) pcr e \<Longrightarrow> and_inv I env C pcr acc ps \<Longrightarrow>
      and_interval_loop C pcr acc es = Some r' \<Longrightarrow> and_inv I env C pcr r' (ps @ es)"
    and "\<forall>e \<in> set es'. wf_expr e \<and> one_column (iv_pmda C) pcr e \<Longrightarrow> or_inv I env C pcr p ps' \<Longrightarrow>
      or_interval_loop C pcr p es' = Some (Some r'') \<Longrightarrow> or_inv I env C pcr r'' (ps' @ es')"
  using dc I v
proof (induction C e pcr and C pcr acc es and C pcr p es' arbitrary: r and ps r' and ps' r''
    rule: PciIntervalFromScalarExpr_and_interval_loop_or_interval_loop.induct)
  case (1 C pop es pcr)
  let ?e = "CExpression pop es"
  show ?case
  proof (cases r)
    case None
    then show ?thesis using 1(6) by (simp add: expr_inv_def converts_def)
  next
    case (Some c)
    show ?thesis
    proof (cases pop)
      case CScalarNullTest
      then have "PciIntervalFromScalarNullTest ?e pcr = Some c" using 1(6) Some by simp
      from null_test_sandwiched [where env = env and pcr = pcr, OF 1(4) [unfolded CScalarNullTest] 1(5) [unfolded CScalarNullTest] this [unfolded CScalarNullTest]]
      show ?thesis using CScalarNullTest Some by (simp add: expr_inv_def)
    next
      case (CScalarCmp m)
      then have "PciIntervalFromScalarCmp (iv_pmda C) ?e pcr = Some c" using 1(6) Some by simp
      from cmp_sandwiched [where env = env and pcr = pcr, OF 1(7-9) 1(4) [unfolded CScalarCmp] 1(5) [unfolded CScalarCmp] this [unfolded CScalarCmp]]
      show ?thesis using CScalarCmp Some by (simp add: expr_inv_def)
    next
      case (CScalarArrayCmp q m)
      then have "PciIntervalFromArrayCmp C ?e pcr = Some (Some c)" using 1(6) Some by (simp split: if_splits)
      from array_sandwiched [where env = env and pcr = pcr, OF 1(7-9) 1(4) [unfolded CScalarArrayCmp] 1(5) [unfolded CScalarArrayCmp] this [unfolded CScalarArrayCmp]]
      show ?thesis using CScalarArrayCmp Some by (simp add: expr_inv_def)
    next
      case (CScalarConst d)
      show ?thesis
      proof (cases "FScalarConstTrue ?e")
        case True
        then have u: "PciUnbounded (iv_ctx C) pcr True = Some c" using 1(6) Some CScalarConst by simp
        have "truth I env ?e = Some True" using True by (rule FScalarConstBool_truth)
        then show ?thesis using datum_comparator.PciUnbounded_ok [OF 1(7) u] Some
          by (simp add: expr_inv_def sandwiched_def)
      next
        case False
        then have "c = \<lparr>m_pcr = pcr, m_pdrgprng = [], m_fIncludesNull = False\<rparr>"
          using 1(6) Some CScalarConst by simp
        moreover have "truth I env ?e \<noteq> Some True"
          using False CScalarConst 1(5) by (auto simp: const_not_true leaf_ok_def)
        ultimately show ?thesis using Some
          by (simp add: expr_inv_def sandwiched_def ci_ok_def ranges_ok_def ci_holds_def)
      qed
    next
      case (CScalarBoolOp b)
      then obtain e rest r0 where es: "es = e # rest" and r0: "PciIntervalFromScalarExpr C e pcr = Some r0"
        using 1(6) by (auto split: list.splits option.splits)
      have wf: "wf_expr e" "one_column (iv_pmda C) pcr e" "\<forall>x \<in> set rest. wf_expr x \<and> one_column (iv_pmda C) pcr x"
        using 1(4,5) es CScalarBoolOp by auto
      have e: "expr_inv I env C pcr r0 e" by (rule 1(1) [OF CScalarBoolOp es wf(1,2) r0 1(7-9)])
      show ?thesis
      proof (cases b)
        case EboolopAnd
        have "and_inv I env C pcr r0 [e]"
          using e by (auto simp: and_inv_def expr_inv_def split: option.splits elim: sandwiched_weaken)
        moreover have "and_interval_loop C pcr r0 rest = Some r"
          using 1(6) CScalarBoolOp es r0 EboolopAnd by simp
        ultimately have "and_inv I env C pcr r ([e] @ rest)"
          using 1(2) [OF CScalarBoolOp es r0 EboolopAnd wf(3) _ _ 1(7-9)] by blast
        then show ?thesis using Some CScalarBoolOp EboolopAnd es
          by (auto simp: and_inv_def expr_inv_def converts_def elim: sandwiched_weaken)
      next
        case EboolopOr
        obtain p where p: "r0 = Some p" using 1(6) CScalarBoolOp es r0 EboolopOr Some by (cases r0) auto
        have "or_inv I env C pcr p [e]" using e p by (simp add: or_inv_def expr_inv_def)
        moreover have "or_interval_loop C pcr p rest = Some (Some c)"
          using 1(6) CScalarBoolOp es r0 EboolopOr Some p by simp
        ultimately have "or_inv I env C pcr c ([e] @ rest)"
          using 1(3) [OF CScalarBoolOp es r0 EboolopOr p wf(3) _ _ 1(7-9)] by blast
        then show ?thesis using Some CScalarBoolOp EboolopOr es
          by (auto simp: or_inv_def expr_inv_def elim: sandwiched_weaken)
      next
        case EboolopNot
        obtain p where p: "r0 = Some p" using 1(6) CScalarBoolOp es r0 EboolopNot Some by (cases r0) auto
        have n: "PciComplement (iv_ctx C) (iv_pcomp C) p = Some c"
          using 1(6) CScalarBoolOp es r0 EboolopNot Some p by auto
        have "sandwiched C pcr (env pcr) p (loses_none C pcr e) (gains_none C pcr e) (truth I env e)"
          using e p by (simp add: expr_inv_def)
        from not_step [OF 1(7,9) this n] show ?thesis
          using Some CScalarBoolOp EboolopNot es 
          by (auto simp: expr_inv_def elim: sandwiched_weaken)
      qed
    qed (use 1(6) Some in auto)
  qed
next
  case (3 C pcr pci e es)
  obtain r0 where r0: "PciIntervalFromScalarExpr C e pcr = Some r0" using 3(5) by (auto split: option.splits)
  have "expr_inv I env C pcr r0 e" using 3(1) [OF _ _ r0 3(6-8)] 3(3) by simp
  from and_inv_step [OF 3(6,8) 3(4) this]
  show ?case using 3(2) [OF r0 _ _ _ 3(6-8), where ps = "ps @ [e]"] 3(3,5) r0 by simp
next
  case (5 C pcr pci e es)
  obtain x where x: "PciIntervalFromScalarExpr C e pcr = Some (Some x)" using 5(5) by (auto split: option.splits)
  have "expr_inv I env C pcr (Some x) e" using 5(1) [OF _ _ x 5(6-8)] 5(3) by simp
  from or_inv_step [OF 5(6,8) 5(4) this]
  show ?case using 5(2) [OF x refl _ _ _ 5(6-8), where ps' = "ps' @ [e]"] 5(3,5) x by simp
qed simp_all

section \<open>Properties\<close>

definition sample_ictx :: interval_ctx where
  "sample_ictx = \<lparr>iv_pmda = sample_md, iv_ctx = builtin_ctx, iv_pcomp = int_pcomp, iv_fArrayConstraints = True\<rparr>"

lemma sample_int_interp: "int_interp sample_md sample_db"
  unfolding int_interp_def
proof (intro allI impI)
  fix m and x y :: idatum
  assume t: "md_Ecmpt (sample_md m) \<notin> {EcmptIDF, EcmptOther}" and xy: "int_datum x" "int_datum y"
  have k: "sample_key d = d_lval d" if "int_datum d" for d
    using that by (auto simp: sample_key_def int_datum_def FIntType_def)
  show "i_op sample_db m x y = (if d_null x \<or> d_null y then None
      else Some (key_cmp (md_Ecmpt (sample_md m)) (stats_key x) (stats_key y)))"
    using t xy by (cases "md_Ecmpt (sample_md m)") (auto simp: sample_db_def k stats_key_def key_cmp_def)
qed

text \<open>C1 From expression to interval: let \<open>PciIntervalFromScalarExpr\<close> return an interval for a boolean
  expression whose comparisons, null tests and array comparisons, in the forms the code recognises,
  are of one integer column with integer constants (and whose plain comparison operators are none of
  type \<open>IS DISTINCT FROM\<close>), under the integer comparisons of the database and of the code's default comparator.  The interval is well formed and on that column.  Every value that makes the
  expression true satisfies it, so that pruning with it loses no row, unless a conjunct was dropped or an
  array was compared by \<open>= ALL\<close> below an odd number of \<open>NOT\<close>s, or by \<open><> ANY\<close> below an even number; and no
  value that satisfies it makes the expression false, unless this happened with odd and even exchanged.\<close>

theorem PciIntervalFromScalarExpr_sound:
  assumes "FUseBuiltinIntEvaluators (iv_ctx C)" "iv_pcomp C = CDefaultComparator (iv_ctx C)"
    "int_interp (iv_pmda C) I" "int_datum (env pcr)" "wf_expr e" "one_column (iv_pmda C) pcr e"
    "PciIntervalFromScalarExpr C e pcr = Some (Some pci)"
  shows "ci_ok int_datum stats_key pci \<and> m_pcr pci = pcr
    \<and> (loses_none C pcr e \<and> truth I env e = Some True \<longrightarrow> ci_holds (iv_pcomp C) pci (env pcr))
    \<and> (gains_none C pcr e \<and> ci_holds (iv_pcomp C) pci (env pcr) \<longrightarrow> truth I env e \<noteq> Some False)"
proof -
  have dc: "datum_comparator (iv_pcomp C) int_datum stats_key"
    using default_datum_comparator [OF assms(1)] assms(2) by simp
  show ?thesis
    using PciIntervalFromScalarExpr_inv(1) [where env = env and pcr = pcr, OF dc assms(3,4,5,6,7)]
    by (simp add: expr_inv_def sandwiched_def)
qed

lemma sample_leaf:
  "PciIntervalFromScalarCmp sample_md (CExpression (CScalarCmp m) [col_expr, const_expr n]) sample_col
     = PciIntervalFromColConstCmp sample_col (md_Ecmpt (sample_md m)) (int4 n)"
  by (simp add: PciIntervalFromScalarCmp_def FCompareIdentToConst_def FScalarCmp_def FScalarIdent_def
      FScalarConst_def col_expr_def const_expr_def)

lemma sample_cmp_interval:
  "PciIntervalFromScalarExpr sample_ictx (CExpression (CScalarCmp m) [col_expr, const_expr n]) sample_col
     = Some (PciIntervalFromColConstCmp sample_col (md_Ecmpt (sample_md m)) (int4 n))"
  using sample_leaf [of m n] by (simp add: sample_ictx_def)

theorem PciIntervalFromScalarExpr_sound_witness:
  "\<exists>pci. PciIntervalFromScalarExpr sample_ictx (CExpression (CScalarBoolOp EboolopAnd)
        [CExpression (CScalarCmp 2) [col_expr, const_expr 5], CExpression (CScalarCmp 4) [col_expr, const_expr 1]])
        sample_col = Some (Some pci) \<and> ci_holds int_pcomp pci (int4 3)"
proof -
  let ?a = "CExpression (CScalarCmp 2) [col_expr, const_expr 5]"
  let ?b = "CExpression (CScalarCmp 4) [col_expr, const_expr 1]"
  let ?e = "CExpression (CScalarBoolOp EboolopAnd) [?a, ?b]"
  have ab: "PciIntervalFromScalarExpr sample_ictx ?a sample_col \<noteq> Some None"
    "PciIntervalFromScalarExpr sample_ictx ?b sample_col \<noteq> Some None"
    unfolding sample_cmp_interval
    by (simp_all add: sample_md_def PciIntervalFromColConstCmp_def PciRangeFromColConstCmp_def)
  obtain pci where p: "PciIntervalFromScalarExpr sample_ictx ?e sample_col = Some (Some pci)"
    using ab unfolding sample_cmp_interval by (auto simp: sample_cmp_interval simp del: PciIntervalFromScalarExpr.simps(1)
        simp: PciIntervalFromScalarExpr.simps(1) [of sample_ictx "CScalarBoolOp EboolopAnd"])
  have "truth sample_db (\<lambda>_. int4 3) ?e = Some True"
    by (simp add: sample_defs and3_def truth_def truth_of_def bool_datum_def arg_def canon_def)
  moreover have "wf_expr ?e" "one_column sample_md sample_col ?e"
    by (simp_all add: col_expr_def const_expr_def leaf_ok_def sample_md_def)
  moreover have "loses_none sample_ictx sample_col ?e" using ab by simp
  ultimately have "ci_holds int_pcomp pci (int4 3)"
    using PciIntervalFromScalarExpr_sound [of sample_ictx sample_db "\<lambda>_. int4 3" sample_col ?e pci]
      p builtin_ctx_ints sample_int_interp by (simp add: sample_ictx_def)
  then show ?thesis using p by blast
qed

text \<open>C40 Dropping conjuncts is not sound below a negation: for \<open>NOT (c < 5 AND f(c))\<close> the code drops the
  function call and complements the interval of \<open>c < 5\<close>; with \<open>f\<close> false, the expression is true
  for \<open>c = 3\<close> and the interval does not hold for it.\<close>

theorem PciIntervalFromScalarExpr_not_unsound:
  "\<exists>e pci. e = CExpression (CScalarBoolOp EboolopNot) [CExpression (CScalarBoolOp EboolopAnd)
        [CExpression (CScalarCmp 2) [col_expr, const_expr 5], CExpression (CScalarFunc 9) [col_expr]]]
     \<and> PciIntervalFromScalarExpr sample_ictx e sample_col = Some (Some pci)
     \<and> truth (sample_db\<lparr>i_fun := \<lambda>m ds. bool_datum (Some False)\<rparr>) (\<lambda>_. int4 3) e = Some True
     \<and> \<not> ci_holds int_pcomp pci (int4 3)"
proof -
  let ?a = "CExpression (CScalarCmp 2) [col_expr, const_expr 5]"
  let ?f = "CExpression (CScalarFunc 9) [col_expr]"
  let ?n = "CExpression (CScalarBoolOp EboolopNot) [CExpression (CScalarBoolOp EboolopAnd) [?a, ?f]]"
  obtain p where p: "PciIntervalFromColConstCmp sample_col EcmptL (int4 5) = Some p"
    by (simp add: PciIntervalFromColConstCmp_def PciRangeFromColConstCmp_def)
  have okp: "ci_ok int_datum stats_key p" "m_pcr p = sample_col" "ci_holds int_pcomp p (int4 3)"
    using datum_comparator.PciIntervalFromColConstCmp_holds [OF default_datum_comparator [OF builtin_ctx_ints] p, of "int4 3"]
    by (simp_all add: key_cmp_def) (simp add: stats_key_def int4_def)
  obtain c where c: "PciComplement builtin_ctx int_pcomp p = Some c"
    using okp(2) by (simp add: PciComplement_def PciUnbounded_def sample_col_def FConstrainableType_def FIntType_def)
  have "\<not> ci_holds int_pcomp c (int4 3)"
    using datum_comparator.PciComplement_holds(3) [OF default_datum_comparator [OF builtin_ctx_ints] c okp(1), of "int4 3"]
      okp(3) by simp
  moreover have "PciIntervalFromScalarExpr sample_ictx ?n sample_col = Some (Some c)"
    using p c sample_leaf [of 2 5] by (simp add: sample_ictx_def sample_md_def)
  moreover have "truth (sample_db\<lparr>i_fun := \<lambda>m ds. bool_datum (Some False)\<rparr>) (\<lambda>_. int4 3) ?n = Some True"
    by (simp add: sample_defs and3_def not3_def truth_def truth_of_def bool_datum_def arg_def canon_def)
  ultimately show ?thesis by blast
qed

text \<open>The quantifier of an array comparison is ignored: \<open>c <> ANY (1, 2)\<close> gets the interval of
  \<open>c NOT IN (1, 2)\<close>, which does not hold for \<open>c = 1\<close> although the comparison is true.\<close>

theorem PciIntervalFromScalarExpr_any_unsound:
  "\<exists>e pci. e = CExpression (CScalarArrayCmp EarrcmpAny 1)
        [col_expr, CExpression (CScalarArray []) [const_expr 1, const_expr 2]]
     \<and> PciIntervalFromScalarExpr sample_ictx e sample_col = Some (Some pci)
     \<and> truth sample_db (\<lambda>_. int4 1) e = Some True
     \<and> \<not> ci_holds int_pcomp pci (int4 1)"
proof -
  let ?arr = "CExpression (CScalarArray []) [const_expr 1, const_expr 2]"
  let ?e = "CExpression (CScalarArrayCmp EarrcmpAny 1) [col_expr, ?arr]"
  have cs: "array_consts ?arr = [int4 1, int4 2]"
    by (simp add: array_consts_def UlScalarArrayArity_def PScalarArrayConstChildAt_def FScalarArrayCollapsed_def
        const_expr_def upt_rec)
  have shape: "FCompareIdentToConstArray ?e" "PexprScalarArrayChild ?e = ?arr"
    by (simp_all add: FCompareIdentToConstArray_def FScalarArrayCmp_def FScalarArray_def FScalarIdent_def
        PexprScalarArrayChild_def FScalarArrayCoerce_def FScalarConstArray_def FScalarConst_def col_expr_def const_expr_def)
  obtain pci where p: "PcnstrIntervalFromScalarArrayCmp int_pcomp sample_col EcmptNEq [int4 1, int4 2] = Some (Some pci)"
    using array_fault_iff [of int_pcomp sample_col EcmptNEq "[int4 1, int4 2]"]
    by (auto simp: PcnstrIntervalFromScalarArrayCmp_def split: option.splits)
  have "\<not> ci_holds int_pcomp pci (int4 1)"
    using datum_comparator.PcnstrIntervalFromScalarArrayCmp_holds(5)
      [OF default_datum_comparator [OF builtin_ctx_ints] p, of "int4 1"] by simp
  moreover have "PciIntervalFromScalarExpr sample_ictx ?e sample_col = Some (Some pci)"
    using p cs shape by (simp add: sample_ictx_def PciIntervalFromArrayCmp_def sample_md_def)
  moreover have "truth sample_db (\<lambda>_. int4 1) ?e = Some True"
    by (simp add: sample_defs truth_def truth_of_def bool_datum_def arg_def canon_def quantified_def or3_def)
  ultimately show ?thesis by blast
qed

end
