(* ===== verification/IntervalExpr.thy ===== *)
theory IntervalExpr
  imports ScalarInterval
begin

text \<open>
  The way back from interval constraints to scalar expressions
  (\<^verbatim>\<open>libgpopt/src/base/CRange.cpp\<close>, \<^verbatim>\<open>CConstraintInterval.cpp\<close>) and the construction of
  comparisons in \<^verbatim>\<open>libgpopt/src/base/CUtils.cpp\<close>.  The constructed expression is true exactly on
  the values the interval holds for, except for array expressions of intervals that include null.
\<close>

section \<open>Building comparisons\<close>

text \<open>The exceptions of this part of the code, and a dereference of a null pointer.\<close>

datatype gpopt_error = ExmiUnexpectedOp | NullPointer

text \<open>
  What the metadata cache says of types: the comparison operator of two types, the cast function
  from one type to another (and whether it coerces an array), and the comparison operator of a
  type with itself.
\<close>

record md_types =
  mt_cmp :: "etypeinfo \<Rightarrow> etypeinfo \<Rightarrow> ecmptype \<Rightarrow> nat option"
  mt_cast :: "etypeinfo \<Rightarrow> etypeinfo \<Rightarrow> (bool \<times> nat) option"
  mt_type_cmp :: "etypeinfo \<Rightarrow> ecmptype \<Rightarrow> nat"

definition PexprScalarIdent :: "colref \<Rightarrow> cexpression" where
  "PexprScalarIdent pcr = CExpression (CScalarIdent pcr) []"

definition PexprIsNull :: "cexpression \<Rightarrow> cexpression" where
  "PexprIsNull e = CExpression CScalarNullTest [e]"

definition PexprNegate :: "cexpression \<Rightarrow> cexpression" where
  "PexprNegate e = CExpression (CScalarBoolOp EboolopNot) [e]"

definition PexprIsNotNull :: "cexpression \<Rightarrow> cexpression" where
  "PexprIsNotNull e = PexprNegate (PexprIsNull e)"

definition PexprCast :: "bool \<times> nat \<Rightarrow> cexpression \<Rightarrow> cexpression" where
  "PexprCast c e =
     (case c of (fArrayCoerce, f) \<Rightarrow>
        if fArrayCoerce then CExpression (CScalarArrayCoerceExpr f) [e] else CExpression (CScalarCast f) [e])"

text \<open>A comparison of two expressions of given types, with a cast of one side where there is no operator.\<close>

definition PexprScalarCmp ::
    "md_types \<Rightarrow> etypeinfo \<Rightarrow> etypeinfo \<Rightarrow> cexpression \<Rightarrow> cexpression \<Rightarrow> ecmptype \<Rightarrow> gpopt_error + cexpression" where
  "PexprScalarCmp T etiLeft etiRight pexprLeft pexprRight ecmpt =
     (case mt_cmp T etiLeft etiRight ecmpt of
        Some m \<Rightarrow> Inr (CExpression (CScalarCmp m) [pexprLeft, pexprRight])
      | None \<Rightarrow>
          (case (mt_cmp T etiLeft etiLeft ecmpt, mt_cast T etiRight etiLeft) of
             (Some m, Some c) \<Rightarrow> Inr (CExpression (CScalarCmp m) [pexprLeft, PexprCast c pexprRight])
           | _ \<Rightarrow>
               (case (mt_cmp T etiRight etiRight ecmpt, mt_cast T etiLeft etiRight) of
                  (Some m, Some c) \<Rightarrow> Inr (CExpression (CScalarCmp m) [PexprCast c pexprLeft, pexprRight])
                | _ \<Rightarrow> Inl ExmiUnexpectedOp)))"

definition PexprScalarCmpColConst ::
    "md_types \<Rightarrow> colref \<Rightarrow> idatum \<Rightarrow> ecmptype \<Rightarrow> gpopt_error + cexpression" where
  "PexprScalarCmpColConst T pcr d ecmpt =
     PexprScalarCmp T (m_eti pcr) (d_type d) (PexprScalarIdent pcr) (CExpression (CScalarConst d) []) ecmpt"

section \<open>Ranges\<close>

definition PexprScalarCompEnd ::
    "md_types \<Rightarrow> idatum option \<Rightarrow> ERangeInclusion \<Rightarrow> ecmptype \<Rightarrow> ecmptype \<Rightarrow> colref \<Rightarrow> gpopt_error + cexpression option" where
  "PexprScalarCompEnd T pdatum eri ecmptIncl ecmptExcl pcr =
     (case pdatum of
        None \<Rightarrow> Inr None
      | Some d \<Rightarrow> map_sum id Some
          (PexprScalarCmpColConst T pcr d (if eri = EriIncluded then ecmptIncl else ecmptExcl)))"

definition PexprEquality ::
    "md_types \<Rightarrow> idatum comparator \<Rightarrow> range \<Rightarrow> colref \<Rightarrow> gpopt_error + cexpression option" where
  "PexprEquality T pcomp this pcr =
     (case (m_pdatumLeft this, m_pdatumRight this) of
        (Some l, Some r) \<Rightarrow>
          if \<not> FEqual pcomp l r \<or> m_eriLeft this = EriExcluded \<or> m_eriRight this = EriExcluded then Inr None
          else map_sum id Some (PexprScalarCmpColConst T pcr l EcmptEq)
      | _ \<Rightarrow> Inr None)"

definition range_PexprScalar ::
    "md_types \<Rightarrow> idatum comparator \<Rightarrow> range \<Rightarrow> colref \<Rightarrow> gpopt_error + cexpression" where
  "range_PexprScalar T pcomp this pcr =
     (case PexprEquality T pcomp this pcr of
        Inl x \<Rightarrow> Inl x
      | Inr (Some e) \<Rightarrow> Inr e
      | Inr None \<Rightarrow>
          (case PexprScalarCompEnd T (m_pdatumLeft this) (m_eriLeft this) EcmptGEq EcmptG pcr of
             Inl x \<Rightarrow> Inl x
           | Inr left \<Rightarrow>
               (case PexprScalarCompEnd T (m_pdatumRight this) (m_eriRight this) EcmptLEq EcmptL pcr of
                  Inl x \<Rightarrow> Inl x
                | Inr right \<Rightarrow>
                    Inr (PexprConjunction ((case left of None \<Rightarrow> [] | Some e \<Rightarrow> [e])
                                           @ (case right of None \<Rightarrow> [] | Some e \<Rightarrow> [e]))))))"

section \<open>Intervals\<close>

fun range_exprs :: "md_types \<Rightarrow> idatum comparator \<Rightarrow> colref \<Rightarrow> range list \<Rightarrow> gpopt_error + cexpression list" where
  "range_exprs T pcomp pcr [] = Inr []"
| "range_exprs T pcomp pcr (r # rs) =
     (case range_PexprScalar T pcomp r pcr of
        Inl x \<Rightarrow> Inl x
      | Inr e \<Rightarrow> map_sum id ((#) e) (range_exprs T pcomp pcr rs))"

definition PexprConstructDisjunctionScalar ::
    "md_types \<Rightarrow> idatum comparator \<Rightarrow> constraint_interval \<Rightarrow> gpopt_error + cexpression" where
  "PexprConstructDisjunctionScalar T pcomp this =
     (case range_exprs T pcomp (m_pcr this) (m_pdrgprng this) of
        Inl x \<Rightarrow> Inl x
      | Inr es \<Rightarrow>
          Inr (if length es = 1 \<and> FScalarConstTrue (es ! 0)
               then if m_fIncludesNull this then PexprScalarConstBool True False
                    else PexprIsNotNull (PexprScalarIdent (m_pcr this))
               else PexprDisjunction
                      (es @ (if m_fIncludesNull this then [PexprIsNull (PexprScalarIdent (m_pcr this))] else []))))"

text \<open>The constants of an array expression: the right ends of the first ranges.\<close>

fun right_consts :: "range list \<Rightarrow> gpopt_error + cexpression list" where
  "right_consts [] = Inr []"
| "right_consts (r # rs) =
     (case m_pdatumRight r of
        None \<Rightarrow> Inl NullPointer
      | Some d \<Rightarrow> map_sum id ((#) (CExpression (CScalarConst d) [])) (right_consts rs))"

definition PexprScalarArrayCmp ::
    "md_types \<Rightarrow> earrcmptype \<Rightarrow> ecmptype \<Rightarrow> cexpression list \<Rightarrow> colref \<Rightarrow> cexpression" where
  "PexprScalarArrayCmp T earrcmpt ecmpt es pcr =
     CExpression (CScalarArrayCmp earrcmpt (mt_type_cmp T (m_eti pcr) ecmpt))
       [PexprScalarIdent pcr, CExpression (CScalarArray []) es]"

definition PexprConstructArrayScalarIn ::
    "md_types \<Rightarrow> constraint_interval \<Rightarrow> bool \<Rightarrow> gpopt_error + cexpression" where
  "PexprConstructArrayScalarIn T this fIn =
     (let ulRngs = (if fIn then length (m_pdrgprng this) else length (m_pdrgprng this) - 1);
          ecmptype = (if fIn then EcmptEq else EcmptNEq);
          earraycmptype = (if fIn then EarrcmpAny else EarrcmpAll)
      in case right_consts (take ulRngs (m_pdrgprng this)) of
           Inl x \<Rightarrow> Inl x
         | Inr es \<Rightarrow>
             if m_fIncludesNull this
             then (case m_pdatumRight (m_pdrgprng this ! 0) of
                     None \<Rightarrow> Inl NullPointer
                   | Some d \<Rightarrow>
                       Inr (PexprScalarArrayCmp T earraycmptype ecmptype
                              (es @ [CExpression (CScalarConst \<lparr>d_type = d_type d, d_null = True, d_lval = 0\<rparr>) []])
                              (m_pcr this)))
             else Inr (PexprScalarArrayCmp T earraycmptype ecmptype es (m_pcr this)))"

definition PexprConstructArrayScalar ::
    "md_types \<Rightarrow> idatum comparator \<Rightarrow> constraint_interval \<Rightarrow> gpopt_error + cexpression option" where
  "PexprConstructArrayScalar T pcomp this =
     (if 1 \<ge> length (m_pdrgprng this) then Inr None
      else case FConvertsToIn pcomp this of
          None \<Rightarrow> Inl NullPointer
        | Some True \<Rightarrow> map_sum id Some (PexprConstructArrayScalarIn T this True)
        | Some False \<Rightarrow>
            if FConvertsToNotIn pcomp this then map_sum id Some (PexprConstructArrayScalarIn T this False)
            else Inr None)"

definition PexprConstructScalar ::
    "md_types \<Rightarrow> idatum comparator \<Rightarrow> bool \<Rightarrow> constraint_interval \<Rightarrow> gpopt_error + cexpression" where
  "PexprConstructScalar T pcomp fArrayConstraints this =
     (if ci_FContradiction this then Inr (PexprScalarConstBool False False)
      else if fArrayConstraints
      then (case PexprConstructArrayScalar T pcomp this of
              Inl x \<Rightarrow> Inl x
            | Inr (Some e) \<Rightarrow> Inr e
            | Inr None \<Rightarrow> PexprConstructDisjunctionScalar T pcomp this)
      else PexprConstructDisjunctionScalar T pcomp this)"

section \<open>What the constructed expressions mean\<close>

text \<open>
  What the code relies on: the comparison operators found for two integer types compare as asked,
  and the casts between integer types keep the value.
\<close>

definition types_ok :: "md_types \<Rightarrow> md_accessor \<Rightarrow> interp \<Rightarrow> bool" where
  "types_ok T pmda I \<longleftrightarrow>
     (\<forall>a b t m. mt_cmp T a b t = Some m \<longrightarrow> md_Ecmpt (pmda m) = t)
   \<and> (\<forall>a t. FIntType a \<longrightarrow> t \<in> {EcmptEq, EcmptNEq} \<longrightarrow> md_Ecmpt (pmda (mt_type_cmp T a t)) = t)
   \<and> (\<forall>a b x f d. FIntType a \<longrightarrow> FIntType b \<longrightarrow> mt_cast T a b = Some (x, f) \<longrightarrow> d_type d = a \<longrightarrow>
        \<not> x \<and> d_type (i_cast I f d) = b \<and> d_null (i_cast I f d) = d_null d \<and> d_lval (i_cast I f d) = d_lval d)"

lemma int_interp_op:
  assumes "int_interp pmda I" "md_Ecmpt (pmda m) = t" "t \<notin> {EcmptIDF, EcmptOther}" "int_datum x" "int_datum y"
  shows "i_op I m x y = (if d_null x \<or> d_null y then None else Some (key_cmp t (stats_key x) (stats_key y)))"
  using assms unfolding int_interp_def by blast

lemma cast_int:
  assumes "types_ok T pmda I" "FIntType a" "FIntType b" "mt_cast T a b = Some c" "d_type d = a"
    "dat (ev I env e) = d"
  shows "int_datum (dat (ev I env (PexprCast c e))) \<and> d_null (dat (ev I env (PexprCast c e))) = d_null d
    \<and> stats_key (dat (ev I env (PexprCast c e))) = stats_key d"
proof -
  obtain x f where c: "c = (x, f)" by (cases c)
  from assms have "\<not> x \<and> d_type (i_cast I f d) = b \<and> d_null (i_cast I f d) = d_null d \<and> d_lval (i_cast I f d) = d_lval d"
    unfolding types_ok_def c by blast
  then show ?thesis using assms(3,6) by (simp add: PexprCast_def c arg_def int_datum_def stats_key_def)
qed

lemma PexprScalarCmpColConst_truth:
  assumes T: "types_ok T pmda I" and I: "int_interp pmda I" and t: "t \<notin> {EcmptIDF, EcmptOther}"
    and v: "int_datum (env pcr)" "d_type (env pcr) = m_eti pcr" and d: "int_datum d" "\<not> d_null d"
    and e: "PexprScalarCmpColConst T pcr d t = Inr e"
  shows "truth I env e = (if d_null (env pcr) then None else Some (key_cmp t (stats_key (env pcr)) (stats_key d)))"
    and "\<exists>m. m_pop e = CScalarCmp m"
proof -
  let ?l = "PexprScalarIdent pcr"
  let ?r = "CExpression (CScalarConst d) []"
  have ints: "FIntType (m_eti pcr)" "FIntType (d_type d)" using v d by (simp_all add: int_datum_def)
  have lr: "dat (ev I env ?l) = env pcr" "dat (ev I env ?r) = d" "canon d = d"
    using d(2) by (simp_all add: PexprScalarIdent_def)
  have op: "i_op I m x y = (if d_null x \<or> d_null y then None else Some (key_cmp t (stats_key x) (stats_key y)))"
    if "mt_cmp T a b t = Some m" "int_datum x" "int_datum y" for a b m x y
    using T that int_interp_op [OF I _ t] unfolding types_ok_def by blast
  have cr: "int_datum (dat (ev I env (PexprCast c ?r))) \<and> \<not> d_null (dat (ev I env (PexprCast c ?r)))
      \<and> stats_key (dat (ev I env (PexprCast c ?r))) = stats_key d" if "mt_cast T (d_type d) (m_eti pcr) = Some c" for c
    using cast_int [OF T ints(2,1) that refl lr(2)] d by simp
  have cl: "int_datum (dat (ev I env (PexprCast c ?l))) \<and> d_null (dat (ev I env (PexprCast c ?l))) = d_null (env pcr)
      \<and> stats_key (dat (ev I env (PexprCast c ?l))) = stats_key (env pcr)" if "mt_cast T (m_eti pcr) (d_type d) = Some c" for c
    using cast_int [OF T ints that v(2) lr(1)] by simp
  have "\<exists>m a b x y. e = CExpression (CScalarCmp m) [x, y] \<and> mt_cmp T a b t = Some m
      \<and> int_datum (dat (ev I env x)) \<and> int_datum (dat (ev I env y)) \<and> \<not> d_null (dat (ev I env y))
      \<and> d_null (dat (ev I env x)) = d_null (env pcr)
      \<and> stats_key (dat (ev I env x)) = stats_key (env pcr) \<and> stats_key (dat (ev I env y)) = stats_key d"
  proof (cases "mt_cmp T (m_eti pcr) (d_type d) t")
    case (Some m)
    then have "e = CExpression (CScalarCmp m) [?l, ?r]"
      using e by (simp add: PexprScalarCmpColConst_def PexprScalarCmp_def)
    then show ?thesis using Some lr v d by fastforce
  next
    case None
    note n = this
    show ?thesis
    proof (cases "\<exists>m c. mt_cmp T (m_eti pcr) (m_eti pcr) t = Some m \<and> mt_cast T (d_type d) (m_eti pcr) = Some c")
      case True
      then obtain m c where m: "mt_cmp T (m_eti pcr) (m_eti pcr) t = Some m" "mt_cast T (d_type d) (m_eti pcr) = Some c"
        by blast
      then have "e = CExpression (CScalarCmp m) [?l, PexprCast c ?r]"
        using e n by (simp add: PexprScalarCmpColConst_def PexprScalarCmp_def)
      then show ?thesis using m lr(1) v cr [OF m(2)] by fastforce
    next
      case False
      then obtain m c where m: "mt_cmp T (d_type d) (d_type d) t = Some m" "mt_cast T (m_eti pcr) (d_type d) = Some c"
        using e n by (auto simp: PexprScalarCmpColConst_def PexprScalarCmp_def split: option.splits)
      then have "e = CExpression (CScalarCmp m) [PexprCast c ?l, ?r]"
        using e n False by (auto simp: PexprScalarCmpColConst_def PexprScalarCmp_def split: option.splits)
      then show ?thesis using m lr(2,3) d cl [OF m(2)] by fastforce
    qed
  qed
  then obtain m a b x y where xy: "e = CExpression (CScalarCmp m) [x, y]" "mt_cmp T a b t = Some m"
      "int_datum (dat (ev I env x))" "int_datum (dat (ev I env y))" "\<not> d_null (dat (ev I env y))"
      "d_null (dat (ev I env x)) = d_null (env pcr)"
      "stats_key (dat (ev I env x)) = stats_key (env pcr)" "stats_key (dat (ev I env y)) = stats_key d"
    by blast
  show "truth I env e = (if d_null (env pcr) then None else Some (key_cmp t (stats_key (env pcr)) (stats_key d)))"
    using xy op [OF xy(2,3,4)] by (simp add: truth_def arg_def)
  show "\<exists>m. m_pop e = CScalarCmp m" using xy(1) by simp
qed

text \<open>The surroundings of the correctness statements: an integer column with a value of its type.\<close>

definition expr_env :: "md_types \<Rightarrow> md_accessor \<Rightarrow> interp \<Rightarrow> (colref \<Rightarrow> idatum) \<Rightarrow> colref \<Rightarrow> bool" where
  "expr_env T pmda I env pcr \<longleftrightarrow>
     types_ok T pmda I \<and> int_interp pmda I \<and> int_datum (env pcr) \<and> d_type (env pcr) = m_eti pcr"

lemma ColConst_truth:
  assumes "expr_env T pmda I env pcr" "t \<notin> {EcmptIDF, EcmptOther}" "int_datum d" "\<not> d_null d"
    "PexprScalarCmpColConst T pcr d t = Inr e"
  shows "truth I env e = (if d_null (env pcr) then None else Some (key_cmp t (stats_key (env pcr)) (stats_key d)))"
    and "\<exists>m. m_pop e = CScalarCmp m"
  using PexprScalarCmpColConst_truth [where env = env and pcr = pcr, OF _ _ assms(2) _ _ assms(3,4,5)] assms(1)
  unfolding expr_env_def by blast+

definition ends_not_null :: "range \<Rightarrow> bool" where
  "ends_not_null r \<longleftrightarrow> (\<forall>d \<in> set_option (m_pdatumLeft r) \<union> set_option (m_pdatumRight r). \<not> d_null d)"

lemma CompEnd_truth:
  assumes E: "expr_env T pmda I env pcr" and t: "incl \<notin> {EcmptIDF, EcmptOther}" "excl \<notin> {EcmptIDF, EcmptOther}"
    and p: "PexprScalarCompEnd T p eri incl excl pcr = Inr eo" and d: "\<forall>d \<in> set_option p. int_datum d \<and> \<not> d_null d"
  shows "(case p of None \<Rightarrow> eo = None
    | Some d \<Rightarrow> \<exists>e. eo = Some e \<and> (\<exists>m. m_pop e = CScalarCmp m) \<and> truth I env e =
        (if d_null (env pcr) then None
         else Some (key_cmp (if eri = EriIncluded then incl else excl) (stats_key (env pcr)) (stats_key d))))"
proof (cases p)
  case None
  then show ?thesis using p by (simp add: PexprScalarCompEnd_def)
next
  case (Some d)
  let ?t = "if eri = EriIncluded then incl else excl"
  obtain e where e: "PexprScalarCmpColConst T pcr d ?t = Inr e" "eo = Some e"
    using p Some by (cases "PexprScalarCmpColConst T pcr d ?t") (auto simp: PexprScalarCompEnd_def)
  have "?t \<notin> {EcmptIDF, EcmptOther}" using t by auto
  from ColConst_truth [OF E this _ _ e(1)] assms(5) Some e(2) show ?thesis by auto
qed

lemma in_range_int:
  assumes dc: "datum_comparator pcomp int_datum stats_key" and r: "range_ok int_datum stats_key r" and v: "int_datum v"
  shows "in_range pcomp r v \<longleftrightarrow>
     (case m_pdatumLeft r of None \<Rightarrow> True
      | Some l \<Rightarrow> key_cmp (if m_eriLeft r = EriIncluded then EcmptGEq else EcmptG) (stats_key v) (stats_key l))
   \<and> (case m_pdatumRight r of None \<Rightarrow> True
      | Some u \<Rightarrow> key_cmp (if m_eriRight r = EriIncluded then EcmptLEq else EcmptL) (stats_key v) (stats_key u))"
proof -
  have ic: "icomparator pcomp int_datum stats_key" using dc by (simp add: datum_comparator_def)
  have "\<forall>d \<in> set_option (m_pdatumLeft r) \<union> set_option (m_pdatumRight r). int_datum d"
    using r by (auto simp: range_ok_def end_ok_def split: option.splits)
  then show ?thesis using v icomparator.comparator_keys [OF ic]
    by (auto simp: in_range_def key_cmp_def split: option.split)
qed

lemma conj_disj_loop_cmps:
  "list_all (\<lambda>e. \<exists>m. m_pop e = CScalarCmp m) es \<Longrightarrow> conj_disj_loop c es final = Some (final @ es)"
proof (induction es arbitrary: final)
  case (Cons e es)
  then have "\<not> FSkippable e c" "\<not> FReducible e c"
    by (auto simp: FSkippable_def FReducible_def FScalarConstBool_def)
  then show ?case using Cons by simp
qed simp

lemma PexprConjunction_const:
  assumes "list_all (\<lambda>e. \<exists>m. m_pop e = CScalarCmp m) es"
  shows "FScalarConstTrue (PexprConjunction es) \<longleftrightarrow> es = []"
proof (cases es)
  case (Cons e rest)
  then show ?thesis using conj_disj_loop_cmps [OF assms, of True "[]"] assms
    by (auto simp: PexprConjDisj_def FScalarConstBool_def)
qed (simp add: PexprConjDisj_def FScalarConstBool_def PexprScalarConstBool_def)

lemma range_PexprScalar_truth:
  assumes dc: "datum_comparator pcomp int_datum stats_key" and E: "expr_env T pmda I env pcr"
    and r: "range_ok int_datum stats_key r" "ends_not_null r" and e: "range_PexprScalar T pcomp r pcr = Inr e"
  shows "truth I env e =
      (if m_pdatumLeft r = None \<and> m_pdatumRight r = None then Some True
       else if d_null (env pcr) then None else Some (in_range pcomp r (env pcr)))
    \<and> (FScalarConstTrue e \<longleftrightarrow> m_pdatumLeft r = None \<and> m_pdatumRight r = None)"
proof -
  have ends: "\<forall>d \<in> set_option (m_pdatumLeft r). int_datum d \<and> \<not> d_null d"
    "\<forall>d \<in> set_option (m_pdatumRight r). int_datum d \<and> \<not> d_null d"
    using r by (auto simp: range_ok_def end_ok_def ends_not_null_def split: option.splits)
  have v: "int_datum (env pcr)" using E by (simp add: expr_env_def)
  note ir = in_range_int [OF dc r(1) v]
  show ?thesis
  proof (cases "PexprEquality T pcomp r pcr")
    case (Inr eo)
    show ?thesis
    proof (cases eo)
      case (Some e')
      then obtain l u where lu: "m_pdatumLeft r = Some l" "m_pdatumRight r = Some u" "FEqual pcomp l u"
          "m_eriLeft r \<noteq> EriExcluded" "m_eriRight r \<noteq> EriExcluded"
          "PexprScalarCmpColConst T pcr l EcmptEq = Inr e'" "e' = e"
        using Inr e by (auto simp: PexprEquality_def range_PexprScalar_def split: option.splits if_splits sum.splits)
          (metis map_sum.simps(1,2) sum.inject(2) sum.distinct(1) option.inject sum.exhaust)
      have inc: "m_eriLeft r = EriIncluded" "m_eriRight r = EriIncluded"
        using lu(1,2,4,5) r(1) by (auto simp: range_ok_def end_ok_def) (metis eri_cases)+
      have keys: "stats_key l = stats_key u"
        using lu(1,2,3) ends icomparator.FEqual_key [of pcomp int_datum stats_key l u] dc
        by (simp add: datum_comparator_def)
      have "truth I env e = (if d_null (env pcr) then None else Some (stats_key (env pcr) = stats_key l))"
        "\<exists>m. m_pop e = CScalarCmp m"
        using ColConst_truth [OF E _ _ _ lu(6)] ends lu(1,7) by (simp_all add: key_cmp_def)
      moreover have "in_range pcomp r (env pcr) \<longleftrightarrow> stats_key (env pcr) = stats_key l"
        using lu(1,2) inc keys by (auto simp: ir key_cmp_def)
      ultimately show ?thesis using lu(1,2) by (auto simp: FScalarConstBool_def)
    next
      case None
      obtain lo ro where lr: "PexprScalarCompEnd T (m_pdatumLeft r) (m_eriLeft r) EcmptGEq EcmptG pcr = Inr lo"
          "PexprScalarCompEnd T (m_pdatumRight r) (m_eriRight r) EcmptLEq EcmptL pcr = Inr ro"
        and e': "e = PexprConjunction ((case lo of None \<Rightarrow> [] | Some e \<Rightarrow> [e]) @ (case ro of None \<Rightarrow> [] | Some e \<Rightarrow> [e]))"
        using e Inr None by (auto simp: range_PexprScalar_def split: sum.splits)
      note l = CompEnd_truth [OF E _ _ lr(1) ends(1), simplified]
      note u = CompEnd_truth [OF E _ _ lr(2) ends(2), simplified]
      let ?es = "(case lo of None \<Rightarrow> [] | Some e \<Rightarrow> [e]) @ (case ro of None \<Rightarrow> [] | Some e \<Rightarrow> [e])"
      have cmps: "list_all (\<lambda>e. \<exists>m. m_pop e = CScalarCmp m) ?es"
        using l u by (auto split: option.splits)
      have c: "FScalarConstTrue e \<longleftrightarrow> m_pdatumLeft r = None \<and> m_pdatumRight r = None"
        unfolding e' PexprConjunction_const [OF cmps] using l u by (auto split: option.splits)
      have t: "truth I env e = and3 (map (truth I env) ?es)"
        unfolding e' by (simp add: PexprConjDisj_truth conj_disj3_def)
      show ?thesis using c t l u ir
        by (cases "m_pdatumLeft r"; cases "m_pdatumRight r") (auto simp: and3_def)
    qed
  qed (use e in \<open>simp add: range_PexprScalar_def\<close>)
qed

lemma range_exprs_Cons:
  "range_exprs T pcomp pcr (r # rs) = Inr es \<longleftrightarrow>
     (\<exists>e es'. es = e # es' \<and> range_PexprScalar T pcomp r pcr = Inr e \<and> range_exprs T pcomp pcr rs = Inr es')"
  by (cases "range_exprs T pcomp pcr rs") (auto split: sum.splits)

lemma range_exprs_all2:
  "range_exprs T pcomp pcr rs = Inr es \<Longrightarrow> list_all2 (\<lambda>r e. range_PexprScalar T pcomp r pcr = Inr e) rs es"
  by (induction rs arbitrary: es) (auto simp: range_exprs_Cons simp del: range_exprs.simps(2))

text \<open>An unbounded range is the only one of a well-formed interval.\<close>

lemma unbounded_alone:
  assumes "ranges_ok int_datum stats_key rs" "r \<in> set rs" "m_pdatumLeft r = None" "m_pdatumRight r = None"
  shows "rs = [r]"
proof -
  obtain xs ys where rs: "rs = xs @ r # ys" using assms(2) by (meson split_list)
  have s: "span_of stats_key r = (NegInf, PosInf)" using assms(3,4) by (simp add: span_of_def lcut_def rcut_def)
  have "strict_chain (map (span_of stats_key) xs @ (NegInf, PosInf) # map (span_of stats_key) ys)"
    using assms(1) rs s by (simp add: ranges_ok_def)
  then have "xs = [] \<and> ys = []" by simp
  then show ?thesis using rs by simp
qed

lemma range_exprs_truths:
  assumes dc: "datum_comparator pcomp int_datum stats_key" and E: "expr_env T pmda I env pcr"
    and rs: "list_all (range_ok int_datum stats_key) rs" "list_all ends_not_null rs"
    and bounded: "\<forall>r \<in> set rs. \<not> (m_pdatumLeft r = None \<and> m_pdatumRight r = None)"
    and es: "range_exprs T pcomp pcr rs = Inr es"
  shows "map (truth I env) es = map (\<lambda>r. if d_null (env pcr) then None else Some (in_range pcomp r (env pcr))) rs
    \<and> length es = length rs \<and> (\<forall>e \<in> set es. \<not> FScalarConstTrue e)"
  using es rs bounded
proof (induction rs arbitrary: es)
  case (Cons r rs)
  from Cons.prems(1) obtain e es' where e: "es = e # es'" "range_PexprScalar T pcomp r pcr = Inr e"
    "range_exprs T pcomp pcr rs = Inr es'" unfolding range_exprs_Cons by blast
  then show ?case
    using range_PexprScalar_truth [OF dc E _ _ e(2)] Cons.IH [OF e(3)] Cons.prems(2-) by auto
qed simp

lemma or3_true: "or3 bs = Some True \<longleftrightarrow> Some True \<in> set bs"
  by (simp add: or3_def)

lemma IsNull_truth: "truth I env (PexprIsNull (PexprScalarIdent pcr)) = Some (d_null (env pcr))"
  by (simp add: PexprIsNull_def PexprScalarIdent_def truth_def arg_def)

lemma DisjunctionScalar_truth:
  assumes dc: "datum_comparator pcomp int_datum stats_key" and E: "expr_env T pmda I env (m_pcr pci)"
    and ok: "ci_ok int_datum stats_key pci" "list_all ends_not_null (m_pdrgprng pci)"
    and e: "PexprConstructDisjunctionScalar T pcomp pci = Inr e"
  shows "truth I env e = Some True \<longleftrightarrow> ci_holds pcomp pci (env (m_pcr pci))"
proof -
  let ?v = "env (m_pcr pci)"
  let ?rs = "m_pdrgprng pci"
  obtain es where es: "range_exprs T pcomp (m_pcr pci) ?rs = Inr es"
    using e by (auto simp: PexprConstructDisjunctionScalar_def split: sum.splits)
  have oks: "list_all (range_ok int_datum stats_key) ?rs" using ok(1) by (simp add: ci_ok_def ranges_ok_def)
  show ?thesis
  proof (cases "\<exists>r \<in> set ?rs. m_pdatumLeft r = None \<and> m_pdatumRight r = None")
    case True
    then obtain r where r: "?rs = [r]" "m_pdatumLeft r = None" "m_pdatumRight r = None"
      using unbounded_alone ok(1) by (metis ci_ok_def)
    then obtain x where "es = [x]" "range_PexprScalar T pcomp r (m_pcr pci) = Inr x"
      using es by (auto simp: range_exprs_Cons simp del: range_exprs.simps(2))
    then have "length es = 1 \<and> FScalarConstTrue (es ! 0)"
      using range_PexprScalar_truth [OF dc E] oks ok(2) r by auto
    then have "e = (if m_fIncludesNull pci then PexprScalarConstBool True False
        else PexprIsNotNull (PexprScalarIdent (m_pcr pci)))"
      using e es by (simp add: PexprConstructDisjunctionScalar_def)
    moreover have "in_range pcomp r ?v" using r by (simp add: in_range_def)
    ultimately show ?thesis using r(1) IsNull_truth [of I env "m_pcr pci"]
      by (simp add: ci_holds_def PexprIsNotNull_def PexprNegate_def not3_def)
  next
    case False
    then have t: "map (truth I env) es = map (\<lambda>r. if d_null ?v then None else Some (in_range pcomp r ?v)) ?rs"
      "\<forall>e \<in> set es. \<not> FScalarConstTrue e"
      using range_exprs_truths [OF dc E oks ok(2) _ es] by auto
    then have "e = PexprDisjunction
        (es @ (if m_fIncludesNull pci then [PexprIsNull (PexprScalarIdent (m_pcr pci))] else []))"
      using e es by (cases es) (auto simp: PexprConstructDisjunctionScalar_def)
    then have "truth I env e = Some True \<longleftrightarrow>
        Some True \<in> set (map (truth I env) es) \<or> m_fIncludesNull pci \<and> d_null ?v"
      by (auto simp: PexprConjDisj_truth conj_disj3_def or3_true IsNull_truth)
    then show ?thesis unfolding t(1) by (auto simp: ci_holds_def)
  qed
qed

section \<open>Array expressions\<close>

lemma right_consts_datums:
  "right_consts rs = Inr es \<Longrightarrow>
     list_all (\<lambda>r. m_pdatumRight r \<noteq> None) rs
     \<and> es = map (\<lambda>r. CExpression (CScalarConst (the (m_pdatumRight r))) []) rs"
  by (induction rs arbitrary: es) (auto split: option.splits sum.splits simp: map_sum_def)

lemma all_points_iff: "all_points pcomp rs = Some True \<longleftrightarrow> list_all (\<lambda>r. FPoint pcomp r = Some True) rs"
  by (induction rs) (auto split: option.splits)

lemma ArrayCmp_truth:
  assumes E: "expr_env T pmda I env pcr" and t: "t \<in> {EcmptEq, EcmptNEq}"
    and ds: "\<forall>d \<in> set ds. int_datum d \<and> canon d = d" "ds \<noteq> []"
  shows "truth I env (PexprScalarArrayCmp T q t (map (\<lambda>d. CExpression (CScalarConst d) []) ds) pcr)
      = quantified q (map (\<lambda>d. if d_null (env pcr) \<or> d_null d then None else Some (key_cmp t (stats_key (env pcr)) (stats_key d))) ds)"
proof -
  let ?m = "mt_type_cmp T (m_eti pcr) t"
  have "md_Ecmpt (pmda ?m) = t" using E t by (auto simp: expr_env_def types_ok_def int_datum_def)
  then have op: "i_op I ?m (env pcr) d
      = (if d_null (env pcr) \<or> d_null d then None else Some (key_cmp t (stats_key (env pcr)) (stats_key d)))"
    if "int_datum d" for d
    using int_interp_op [of pmda I ?m t "env pcr" d] that E t by (auto simp: expr_env_def)
  have "ev I env (CExpression (CScalarArray []) (map (\<lambda>d. CExpression (CScalarConst d) []) ds)) = Sa ds"
    using ds by (simp add: comp_def map_idI)
  then show ?thesis using op ds(1)
    by (auto simp: PexprScalarArrayCmp_def PexprScalarIdent_def truth_def arg_def intro!: arg_cong [of _ _ "quantified q"])
qed

text \<open>A point holds for its one key.\<close>

lemma point_in_range:
  assumes dc: "datum_comparator pcomp int_datum stats_key" and r: "range_ok int_datum stats_key r"
    and v: "int_datum v" and p: "FPoint pcomp r = Some True"
  shows "in_range pcomp r v \<longleftrightarrow> stats_key v = stats_key (the (m_pdatumRight r))"
proof -
  obtain k where k: "lcut stats_key r = At k False" "rcut stats_key r = At k True"
    using datum_comparator.FPoint_cut [OF dc r] p by auto
  then have "stats_key (the (m_pdatumRight r)) = k" by (auto simp: rcut_def split: option.splits)
  then show ?thesis
    using datum_comparator.in_range_span [OF dc r v] k by (auto simp: span_of_def in_span_def)
qed

lemma between_cuts: "At m False < c \<Longrightarrow> c < At m' b \<Longrightarrow> (m :: 'k::linorder) < m'"
  by (cases c) auto

text \<open>A chain of ranges that share their excluded ends leaves out exactly these ends.\<close>

lemma not_in_ranges_hold:
  assumes dc: "datum_comparator pcomp int_datum stats_key" and v: "int_datum v"
  shows "ranges_ok int_datum stats_key (left # rs) \<Longrightarrow> not_in_pattern pcomp left rs \<Longrightarrow>
      m_pdatumRight (last (left # rs)) = None \<Longrightarrow>
      (\<exists>r \<in> set (left # rs). in_range pcomp r v) \<longleftrightarrow>
      lcut stats_key left \<le> At (stats_key v) False
      \<and> (\<forall>r \<in> set (butlast (left # rs)). \<forall>d. m_pdatumRight r = Some d \<longrightarrow> stats_key v \<noteq> stats_key d)"
proof (induction rs arbitrary: left)
  case Nil
  then have "range_ok int_datum stats_key left" by (simp add: ranges_ok_def)
  then show ?case using Nil datum_comparator.in_range_span [OF dc _ v, of left]
    by (simp add: span_of_def in_span_iff rcut_def)
next
  case (Cons r rs)
  let ?k = "stats_key v"
  let ?Q = "\<forall>x \<in> set (butlast (r # rs)). \<forall>d. m_pdatumRight x = Some d \<longrightarrow> ?k \<noteq> stats_key d"
  have okl: "range_ok int_datum stats_key left" and okr: "ranges_ok int_datum stats_key (r # rs)"
    and gap: "\<forall>x \<in> set (r # rs). rcut stats_key left < lcut stats_key x"
    and lr: "lcut stats_key left < rcut stats_key left"
    using Cons.prems(1) by (auto simp: ranges_ok_def span_of_def)
  have pat: "m_eriRight left = EriExcluded" "m_eriLeft r = EriExcluded" "FUpperBoundEqualsLowerBound pcomp left r"
    "not_in_pattern pcomp r rs"
    using Cons.prems(2) by simp_all
  have "rcut stats_key left < lcut stats_key r" using gap by simp
  then obtain u l where ul: "m_pdatumRight left = Some u" "m_pdatumLeft r = Some l" "FEqual pcomp u l"
    using pat(3) by (auto simp: FUpperBoundEqualsLowerBound_def rcut_def lcut_def split: option.splits)
  have "int_datum u" "int_datum l"
    using okl okr ul by (auto simp: range_ok_def end_ok_def ranges_ok_def)
  then have m: "stats_key l = stats_key u"
    using ul(3) icomparator.FEqual_key [of pcomp int_datum stats_key u l] dc by (simp add: datum_comparator_def)
  let ?m = "stats_key u"
  have R: "rcut stats_key left = At ?m False" "lcut stats_key r = At ?m True"
    using ul pat m by (simp_all add: rcut_def lcut_def)
  have IH: "(\<exists>x \<in> set (r # rs). in_range pcomp x v) \<longleftrightarrow> ?m < ?k \<and> ?Q"
    using Cons.IH [OF okr pat(4)] Cons.prems(3) R(2) by auto
  have left: "in_range pcomp left v \<longleftrightarrow> lcut stats_key left \<le> At ?k False \<and> ?k < ?m"
    using datum_comparator.in_range_span [OF dc okl v] R by (simp add: span_of_def in_span_iff)
  have later: "?m < stats_key d" if "x \<in> set (r # rs)" "m_pdatumRight x = Some d" for x d
  proof -
    have "range_ok int_datum stats_key x" using okr that(1) by (auto simp: ranges_ok_def list_all_iff)
    then have "lcut stats_key x < rcut stats_key x" by (simp add: range_ok_def)
    then show ?thesis using gap that between_cuts [of ?m "lcut stats_key x"] R(1)
      by (auto simp: rcut_def)
  qed
  have Q: "?Q" if "?k < ?m"
    using later that by (auto dest!: in_set_butlastD) (metis less_asym list.set_intros(1,2))+
  have low: "lcut stats_key left \<le> At ?k False" if "?m < ?k"
  proof -
    have "lcut stats_key left < At ?m False" using lr R by simp
    also have "At ?m False < At ?k False" using that by simp
    finally show ?thesis by simp
  qed
  have "set (butlast (left # r # rs)) = insert left (set (butlast (r # rs)))" by simp
  then show ?case using IH left Q low ul(1) by (auto simp del: butlast.simps)
qed

text \<open>The constants of the first \<open>n\<close> ranges, and the comparison with them; a null constant, appended when the
  interval includes null, makes no \<open>IN\<close> list true and every \<open>NOT IN\<close> list not true.\<close>

lemma ArrayScalarIn_truth:
  assumes E: "expr_env T pmda I env (m_pcr pci)"
    and ok: "ci_ok int_datum stats_key pci" "list_all ends_not_null (m_pdrgprng pci)" and len: "1 < length (m_pdrgprng pci)"
    and e: "PexprConstructArrayScalarIn T pci fIn = Inr e"
  defines "rs \<equiv> (if fIn then m_pdrgprng pci else butlast (m_pdrgprng pci))"
  shows "list_all (\<lambda>r. m_pdatumRight r \<noteq> None) rs
    \<and> (truth I env e = Some True \<longleftrightarrow> \<not> d_null (env (m_pcr pci))
        \<and> (if fIn then \<exists>r \<in> set rs. stats_key (env (m_pcr pci)) = stats_key (the (m_pdatumRight r))
           else \<not> m_fIncludesNull pci \<and> (\<forall>r \<in> set rs. stats_key (env (m_pcr pci)) \<noteq> stats_key (the (m_pdatumRight r)))))"
proof -
  let ?ds = "map (\<lambda>r. the (m_pdatumRight r)) rs"
  have rs: "take (if fIn then length (m_pdrgprng pci) else length (m_pdrgprng pci) - 1) (m_pdrgprng pci) = rs"
    by (simp add: rs_def butlast_conv_take)
  have sub: "set rs \<subseteq> set (m_pdrgprng pci)" by (auto simp: rs_def dest: in_set_butlastD)
  have int: "int_datum d" if "r \<in> set (m_pdrgprng pci)" "m_pdatumRight r = Some d" for r d
    using ok(1) that by (auto simp: ci_ok_def ranges_ok_def list_all_iff range_ok_def end_ok_def)
  have "m_pdrgprng pci ! 0 \<in> set (m_pdrgprng pci)" using len by (intro nth_mem) linarith
  then obtain es ns where es: "right_consts rs = Inr es"
    "e = PexprScalarArrayCmp T (if fIn then EarrcmpAny else EarrcmpAll) (if fIn then EcmptEq else EcmptNEq)
       (es @ map (\<lambda>d. CExpression (CScalarConst d) []) ns) (m_pcr pci)"
    and ns: "\<forall>d \<in> set ns. int_datum d \<and> canon d = d \<and> d_null d" "ns \<noteq> [] \<longleftrightarrow> m_fIncludesNull pci"
  proof (cases "m_fIncludesNull pci")
    case False
    then show ?thesis using that [of _ "[]"] e rs by (auto simp: PexprConstructArrayScalarIn_def Let_def split: sum.splits)
  next
    case True
    then obtain d es where d: "m_pdatumRight (m_pdrgprng pci ! 0) = Some d" "right_consts rs = Inr es"
      "e = PexprScalarArrayCmp T (if fIn then EarrcmpAny else EarrcmpAll) (if fIn then EcmptEq else EcmptNEq)
         (es @ [CExpression (CScalarConst \<lparr>d_type = d_type d, d_null = True, d_lval = 0\<rparr>) []]) (m_pcr pci)"
      using e rs by (auto simp: PexprConstructArrayScalarIn_def Let_def split: sum.splits option.splits)
    moreover have "int_datum d" using int d(1) \<open>m_pdrgprng pci ! 0 \<in> set (m_pdrgprng pci)\<close> by blast
    ultimately show ?thesis
      using that [of es "[\<lparr>d_type = d_type d, d_null = True, d_lval = 0\<rparr>]"] True by (simp add: int_datum_def canon_def)
  qed
  note c = right_consts_datums [OF es(1)]
  have "int_datum (the (m_pdatumRight r)) \<and> \<not> d_null (the (m_pdatumRight r))" if "r \<in> set rs" for r
  proof -
    have "ends_not_null r" "m_pdatumRight r \<noteq> None"
      using that sub ok c by (auto simp: list_all_iff)
    then show ?thesis using int [of r] that sub by (auto simp: ends_not_null_def)
  qed
  then have ds: "\<forall>d \<in> set ?ds. int_datum d \<and> \<not> d_null d" by auto
  then have dn: "\<forall>d \<in> set (?ds @ ns). int_datum d \<and> canon d = d" using ns(1) by auto
  have ne: "?ds \<noteq> []" "?ds @ ns \<noteq> []" using len by (auto simp: rs_def dest: arg_cong [of _ _ length])
  have es': "es @ map (\<lambda>d. CExpression (CScalarConst d) []) ns = map (\<lambda>d. CExpression (CScalarConst d) []) (?ds @ ns)"
    using c by (simp add: comp_def)
  show ?thesis
  proof (cases fIn)
    case True
    have "truth I env e = Some True \<longleftrightarrow> \<not> d_null (env (m_pcr pci)) \<and> (\<exists>d \<in> set ?ds. stats_key (env (m_pcr pci)) = stats_key d)"
      unfolding es(2) es' using ArrayCmp_truth [OF E _ dn ne(2), of EcmptEq EarrcmpAny] True ds ns(1)
      by (auto simp: quantified_def or3_true key_cmp_def)
    then show ?thesis using True c by auto
  next
    case False
    have "truth I env e = Some True \<longleftrightarrow> \<not> d_null (env (m_pcr pci)) \<and> ns = []
        \<and> (\<forall>d \<in> set ?ds. stats_key (env (m_pcr pci)) \<noteq> stats_key d)"
      unfolding es(2) es' using ArrayCmp_truth [OF E _ dn ne(2), of EcmptNEq EarrcmpAll] False ds ns(1) ne(1)
      by (cases ns) (auto simp: quantified_def and3_true key_cmp_def)
    then show ?thesis using False c ns(2) by auto
  qed
qed

lemma ArrayScalar_truth:
  assumes dc: "datum_comparator pcomp int_datum stats_key" and E: "expr_env T pmda I env (m_pcr pci)"
    and ok: "ci_ok int_datum stats_key pci" "list_all ends_not_null (m_pdrgprng pci)"
    and e: "PexprConstructArrayScalar T pcomp pci = Inr (Some e)"
  shows "truth I env e = Some True \<longleftrightarrow> ci_holds pcomp pci (env (m_pcr pci))
    \<and> (m_fIncludesNull pci \<longrightarrow> FConvertsToIn pcomp pci = Some True \<and> \<not> d_null (env (m_pcr pci)))"
proof -
  let ?v = "env (m_pcr pci)"
  let ?rs = "m_pdrgprng pci"
  have v: "int_datum ?v" using E by (simp add: expr_env_def)
  have len: "1 < length ?rs" using e by (auto simp: PexprConstructArrayScalar_def split: if_splits)
  have oks: "list_all (range_ok int_datum stats_key) ?rs" using ok(1) by (simp add: ci_ok_def ranges_ok_def)
  show ?thesis
  proof (cases "FConvertsToIn pcomp pci = Some True")
    case True
    then have i: "PexprConstructArrayScalarIn T pci True = Inr e"
      using e len by (cases "PexprConstructArrayScalarIn T pci True") (simp_all add: PexprConstructArrayScalar_def)
    have p: "list_all (\<lambda>r. FPoint pcomp r = Some True) ?rs"
      using True len by (simp add: FConvertsToIn_def all_points_iff)
    have "in_range pcomp r ?v \<longleftrightarrow> stats_key ?v = stats_key (the (m_pdatumRight r))" if "r \<in> set ?rs" for r
      using point_in_range [OF dc _ v] oks p that by (auto simp: list_all_iff)
    then show ?thesis using ArrayScalarIn_truth [OF E ok len i] True by (auto simp: ci_holds_def)
  next
    case False
    then have i: "PexprConstructArrayScalarIn T pci False = Inr e" and p: "FConvertsToNotIn pcomp pci"
      using e len
      by (auto simp: PexprConstructArrayScalar_def map_sum_def split: sum.splits if_splits option.splits bool.splits)
    obtain l rest where rs: "?rs = l # rest" using len by (cases ?rs) auto
    have pat: "m_pdatumLeft l = None" "m_pdatumRight (last (l # rest)) = None" "not_in_pattern pcomp l rest"
      using p rs len by (auto simp: FConvertsToNotIn_def Let_def last_conv_nth nth_Cons' split: if_splits)
    have h: "(\<exists>r \<in> set ?rs. in_range pcomp r ?v) \<longleftrightarrow>
        (\<forall>r \<in> set (butlast ?rs). \<forall>d. m_pdatumRight r = Some d \<longrightarrow> stats_key ?v \<noteq> stats_key d)"
      using not_in_ranges_hold [OF dc v _ pat(3,2)] ok(1) pat(1) rs by (simp add: ci_ok_def lcut_def)
    show ?thesis using ArrayScalarIn_truth [OF E ok len i] h False
      by (auto simp: ci_holds_def list_all_iff)
  qed
qed

lemma PexprConstructScalar_truth:
  assumes dc: "datum_comparator pcomp int_datum stats_key" and E: "expr_env T pmda I env (m_pcr pci)"
    and ok: "ci_ok int_datum stats_key pci" "list_all ends_not_null (m_pdrgprng pci)"
    and e: "PexprConstructScalar T pcomp fArray pci = Inr e"
  shows "truth I env e = Some True \<longleftrightarrow> ci_holds pcomp pci (env (m_pcr pci))
    \<and> (fArray \<and> m_fIncludesNull pci \<and> PexprConstructArrayScalar T pcomp pci \<noteq> Inr None \<longrightarrow>
         FConvertsToIn pcomp pci = Some True \<and> \<not> d_null (env (m_pcr pci)))"
proof (cases "ci_FContradiction pci")
  case True
  then show ?thesis using e by (auto simp: PexprConstructScalar_def ci_FContradiction_def ci_holds_def)
next
  case False
  note f = this
  show ?thesis
  proof (cases "fArray \<and> PexprConstructArrayScalar T pcomp pci = Inr (Some e)")
    case True
    then show ?thesis using ArrayScalar_truth [OF dc E ok] by auto
  next
    case False
    then have "PexprConstructDisjunctionScalar T pcomp pci = Inr e \<and> (fArray \<longrightarrow> PexprConstructArrayScalar T pcomp pci = Inr None)"
      using e f by (auto simp: PexprConstructScalar_def split: if_splits sum.splits option.splits)
    then show ?thesis using DisjunctionScalar_truth [OF dc E ok] by blast
  qed
qed

section \<open>No fault\<close>

definition types_complete :: "md_types \<Rightarrow> bool" where
  "types_complete T \<longleftrightarrow> (\<forall>a b t. FIntType a \<longrightarrow> FIntType b \<longrightarrow> t \<notin> {EcmptIDF, EcmptOther} \<longrightarrow> mt_cmp T a b t \<noteq> None)"

lemma ColConst_total:
  "types_complete T \<Longrightarrow> FIntType (m_eti pcr) \<Longrightarrow> int_datum d \<Longrightarrow> t \<notin> {EcmptIDF, EcmptOther} \<Longrightarrow> \<exists>e. PexprScalarCmpColConst T pcr d t = Inr e"
  by (auto simp: types_complete_def PexprScalarCmpColConst_def PexprScalarCmp_def int_datum_def split: option.split)

lemma CompEnd_total:
  assumes "\<And>d t. p = Some d \<Longrightarrow> t \<in> {i, x} \<Longrightarrow> \<exists>e. PexprScalarCmpColConst T pcr d t = Inr e"
  shows "\<exists>eo. PexprScalarCompEnd T p eri i x pcr = Inr eo"
proof (cases p)
  case (Some d)
  then obtain e where "PexprScalarCmpColConst T pcr d (if eri = EriIncluded then i else x) = Inr e"
    using assms [OF Some, of "if eri = EriIncluded then i else x"] by (cases "eri = EriIncluded") auto
  then show ?thesis using Some by (simp add: PexprScalarCompEnd_def)
qed (simp add: PexprScalarCompEnd_def)

lemma range_PexprScalar_total:
  assumes "types_complete T" "FIntType (m_eti pcr)" "range_ok int_datum stats_key r"
  shows "\<exists>e. range_PexprScalar T pcomp r pcr = Inr e"
proof -
  have "\<forall>d \<in> set_option (m_pdatumLeft r) \<union> set_option (m_pdatumRight r). int_datum d"
    using assms(3) by (auto simp: range_ok_def end_ok_def split: option.splits)
  then have c: "\<exists>e. PexprScalarCmpColConst T pcr d t = Inr e"
    if "d \<in> set_option (m_pdatumLeft r) \<union> set_option (m_pdatumRight r)" "t \<notin> {EcmptIDF, EcmptOther}" for d t
    using ColConst_total [OF assms(1,2) _ that(2)] that(1) by blast
  have "\<exists>eo. PexprEquality T pcomp r pcr = Inr eo"
    using c [of _ EcmptEq] by (auto simp: PexprEquality_def split: option.split) (metis map_sum.simps(2))
  moreover have "\<exists>eo. PexprScalarCompEnd T (m_pdatumLeft r) (m_eriLeft r) EcmptGEq EcmptG pcr = Inr eo"
    by (rule CompEnd_total) (use c in auto)
  moreover have "\<exists>eo. PexprScalarCompEnd T (m_pdatumRight r) (m_eriRight r) EcmptLEq EcmptL pcr = Inr eo"
    by (rule CompEnd_total) (use c in auto)
  ultimately show ?thesis
    by (auto simp: range_PexprScalar_def split: sum.split option.split)
qed

lemma range_exprs_total:
  "types_complete T \<Longrightarrow> FIntType (m_eti pcr) \<Longrightarrow> list_all (range_ok int_datum stats_key) rs \<Longrightarrow>
     \<exists>es. range_exprs T pcomp pcr rs = Inr es"
proof (induction rs)
  case (Cons r rs)
  then show ?case using range_PexprScalar_total [of T pcr r pcomp] by auto
qed simp

lemma right_consts_total: "list_all (\<lambda>r. m_pdatumRight r \<noteq> None) rs \<Longrightarrow> \<exists>es. right_consts rs = Inr es"
  by (induction rs) auto

lemma ArrayScalarIn_total:
  assumes "list_all (\<lambda>r. m_pdatumRight r \<noteq> None) (if fIn then m_pdrgprng pci else butlast (m_pdrgprng pci))"
    "1 < length (m_pdrgprng pci)"
  shows "\<exists>e. PexprConstructArrayScalarIn T pci fIn = Inr e"
proof -
  let ?rs = "take (if fIn then length (m_pdrgprng pci) else length (m_pdrgprng pci) - 1) (m_pdrgprng pci)"
  have rs: "list_all (\<lambda>r. m_pdatumRight r \<noteq> None) ?rs" using assms(1) by (simp add: butlast_conv_take split: if_splits)
  have "0 < length ?rs" using assms(2) by auto
  then have "m_pdrgprng pci ! 0 \<in> set ?rs"
    using nth_mem [of 0 ?rs] by (simp add: nth_take)
  then have "m_pdatumRight (m_pdrgprng pci ! 0) \<noteq> None" using rs by (simp add: list_all_iff)
  then show ?thesis using right_consts_total [OF rs] by (auto simp: PexprConstructArrayScalarIn_def Let_def)
qed

lemma ranges_bounded_right:
  assumes "ranges_ok int_datum stats_key rs"
  shows "list_all (\<lambda>r. m_pdatumRight r \<noteq> None) (butlast rs)"
proof -
  have "m_pdatumRight r \<noteq> None" if "r \<in> set (butlast rs)" for r
  proof -
    have "rs = butlast rs @ [last rs]" using that by (cases rs) auto
    then have "strict_chain (map (span_of stats_key) (butlast rs) @ [span_of stats_key (last rs)])"
      using assms by (metis ranges_ok_def map_append list.simps(8,9))
    then have "rcut stats_key r < lcut stats_key (last rs)" using that by (auto simp: span_of_def)
    then show ?thesis by (cases "m_pdatumRight r") (auto simp: rcut_def)
  qed
  then show ?thesis by (simp add: list_all_iff)
qed

lemma PexprConstructScalar_total:
  assumes T: "types_complete T" "FIntType (m_eti (m_pcr pci))" and ok: "ci_ok int_datum stats_key pci"
  shows "\<exists>e. PexprConstructScalar T pcomp fArray pci = Inr e"
proof -
  let ?rs = "m_pdrgprng pci"
  have oks: "list_all (range_ok int_datum stats_key) ?rs" "ranges_ok int_datum stats_key ?rs"
    using ok by (simp_all add: ci_ok_def ranges_ok_def)
  have d: "\<exists>e. PexprConstructDisjunctionScalar T pcomp pci = Inr e"
    using range_exprs_total [OF T oks(1), of pcomp] by (auto simp: PexprConstructDisjunctionScalar_def)
  have pt: "FPoint pcomp r \<noteq> None \<and> (FPoint pcomp r = Some True \<longrightarrow> m_pdatumRight r \<noteq> None)" if "r \<in> set ?rs" for r
    using oks(1) that by (auto simp: list_all_iff range_ok_def end_ok_def FPoint_def split: option.splits)
  have ap: "all_points pcomp rs \<noteq> None" if "set rs \<subseteq> set ?rs" for rs
    using that pt by (induction rs) (auto split: option.split)
  have a: "\<exists>eo. PexprConstructArrayScalar T pcomp pci = Inr eo"
  proof (cases "1 < length ?rs")
    case True
    have "\<exists>e. PexprConstructArrayScalarIn T pci True = Inr e" if "FConvertsToIn pcomp pci = Some True"
      using that True pt by (intro ArrayScalarIn_total) (auto simp: FConvertsToIn_def all_points_iff list_all_iff)
    moreover have "\<exists>e. PexprConstructArrayScalarIn T pci False = Inr e"
      using True ranges_bounded_right [OF oks(2)] by (intro ArrayScalarIn_total) auto
    moreover have "FConvertsToIn pcomp pci \<noteq> None" using ap [of ?rs] by (auto simp: FConvertsToIn_def)
    ultimately show ?thesis
      by (auto simp: PexprConstructArrayScalar_def split: option.split bool.split)
  qed (simp add: PexprConstructArrayScalar_def)
  show ?thesis using a d by (auto simp: PexprConstructScalar_def split: option.split)
qed

section \<open>Properties\<close>

definition sample_types :: md_types where
  "sample_types = \<lparr>mt_cmp = (\<lambda>a b t. case t of EcmptEq \<Rightarrow> Some 0 | EcmptNEq \<Rightarrow> Some 1 | EcmptL \<Rightarrow> Some 2
        | EcmptGEq \<Rightarrow> Some 3 | EcmptG \<Rightarrow> Some 4 | EcmptLEq \<Rightarrow> Some 5 | _ \<Rightarrow> None),
     mt_cast = (\<lambda>a b. None),
     mt_type_cmp = (\<lambda>a t. case t of EcmptEq \<Rightarrow> 0 | EcmptNEq \<Rightarrow> 1 | _ \<Rightarrow> 2)\<rparr>"

text \<open>C38 From interval to expression: the scalar expression that \<open>CConstraintInterval::PexprScalar\<close> builds
  from a well-formed interval is true on a value of the column, null included, exactly if the
  interval holds for it; but when an array comparison is built from an interval that includes null,
  it is true on the non-null values of the interval only as an \<open>IN\<close> list, and on none as a \<open>NOT IN\<close> list.\<close>

theorem PexprConstructScalar_correct:
  assumes "FUseBuiltinIntEvaluators ctx" "pcomp = CDefaultComparator ctx" "expr_env T pmda I env (m_pcr pci)"
    "ci_ok int_datum stats_key pci" "list_all ends_not_null (m_pdrgprng pci)"
    "PexprConstructScalar T pcomp fArray pci = Inr e"
  shows "truth I env e = Some True \<longleftrightarrow> ci_holds pcomp pci (env (m_pcr pci))
    \<and> (fArray \<and> m_fIncludesNull pci \<and> PexprConstructArrayScalar T pcomp pci \<noteq> Inr None \<longrightarrow>
         FConvertsToIn pcomp pci = Some True \<and> \<not> d_null (env (m_pcr pci)))"
  using PexprConstructScalar_truth [OF default_datum_comparator [OF assms(1)] assms(3,4,5)] assms(2,6) by simp

lemma sample_types_ok: "types_ok sample_types sample_md sample_db" "types_complete sample_types"
  by (auto simp: types_ok_def types_complete_def sample_types_def sample_md_def split: ecmptype.splits)

lemma sample_expr_env: "int_datum v \<Longrightarrow> d_type v = EtiInt4 \<Longrightarrow> expr_env sample_types sample_md sample_db (\<lambda>_. v) sample_col"
  by (simp add: expr_env_def sample_types_ok sample_int_interp sample_col_def)

theorem PexprConstructScalar_correct_witness:
  "\<exists>e. PexprConstructScalar sample_types int_pcomp True (sample_ci 0 10 False) = Inr e
     \<and> truth sample_db (\<lambda>_. int4 3) e = Some True"
proof -
  obtain e where e: "PexprConstructScalar sample_types int_pcomp True (sample_ci 0 10 False) = Inr e"
    using PexprConstructScalar_total [OF sample_types_ok(2) _ sample_ci_ok [of 0 10 False]]
    by (auto simp: sample_ci_def sample_col_def FIntType_def)
  have "ends_not_null r" if "r \<in> set (m_pdrgprng (sample_ci 0 10 False))" for r
    using that by (simp add: sample_ci_def ends_not_null_def)
  then have "truth sample_db (\<lambda>_. int4 3) e = Some True"
    using PexprConstructScalar_correct [OF builtin_ctx_ints refl _ sample_ci_ok _ e, where env = "\<lambda>_. int4 3" and pmda = sample_md and I = sample_db]
      sample_expr_env [of "int4 3"] sample_ci_holds [of 0 10 False 3]
    by (simp add: list_all_iff) (simp add: sample_ci_def int4_def)
  then show ?thesis using e by blast
qed

text \<open>Building the expression of a well-formed interval on an integer column never fails: no null datum
  is dereferenced and no comparison is missing.\<close>

theorem PexprConstructScalar_no_fault:
  assumes "types_complete T" "FIntType (m_eti (m_pcr pci))" "ci_ok int_datum stats_key pci"
  shows "\<not> isl (PexprConstructScalar T pcomp fArray pci)"
  using PexprConstructScalar_total [OF assms, of pcomp fArray] by auto

theorem PexprConstructScalar_no_fault_witness:
  "\<not> isl (PexprConstructScalar sample_types int_pcomp True (sample_ci 0 10 True))"
  by (rule PexprConstructScalar_no_fault [OF sample_types_ok(2) _ sample_ci_ok])
    (simp_all add: sample_ci_def sample_col_def FIntType_def)

text \<open>Two intervals that include null.\<close>

definition sample_points :: constraint_interval where
  "sample_points = \<lparr>m_pcr = sample_col, m_pdrgprng = map (\<lambda>n. range_from_cmp EcmptEq (int4 n)) [1, 2], m_fIncludesNull = True\<rparr>"

definition sample_gap :: constraint_interval where
  "sample_gap = \<lparr>m_pcr = sample_col, m_pdrgprng = [range_from_cmp EcmptL (int4 1), range_from_cmp EcmptG (int4 1)],
     m_fIncludesNull = True\<rparr>"

text \<open>The loss of null occurs: with array constraints, the interval \<open>{1, 2, null}\<close> becomes
  \<open>c = ANY (1, 2, null)\<close>, which is not true on null, and the interval of all values but 1, null
  included, becomes \<open>c <> ALL (1, null)\<close>, which is true on no value.\<close>

theorem PexprConstructScalar_null_lost:
  "\<exists>e1 e2. PexprConstructScalar sample_types int_pcomp True sample_points = Inr e1
     \<and> PexprConstructScalar sample_types int_pcomp True sample_gap = Inr e2
     \<and> ci_holds int_pcomp sample_points int4_null \<and> truth sample_db (\<lambda>_. int4_null) e1 \<noteq> Some True
     \<and> ci_holds int_pcomp sample_gap (int4 5) \<and> truth sample_db (\<lambda>_. int4 5) e2 \<noteq> Some True"
  by (simp add: sample_points_def sample_gap_def PexprConstructScalar_def ci_FContradiction_def
      PexprConstructArrayScalar_def FConvertsToIn_def FConvertsToNotIn_def FPoint_def int_pcomp_eval
      FUpperBoundEqualsLowerBound_def PexprConstructArrayScalarIn_def PexprScalarArrayCmp_def PexprScalarIdent_def
      truth_def arg_def sample_types_def sample_col_def ci_holds_def in_range_def sample_db_def quantified_def
      or3_def and3_def truth_of_def canon_def bool_datum_def null_datum_def)

end
