(* ===== verification/PtrArray.thy ===== *)
theory PtrArray
  imports Prelude
begin

text \<open>
  Growing arrays of pointers (\<^verbatim>\<open>libgpos/include/gpos/common/CDynamicPtrArray.h\<close>) with their
  allocation, and the stacks built on them (\<^verbatim>\<open>CStack.h\<close>).  The arrays refine lists, which
  the other components use for them.  The proofs about stacks use the array through the contract
  \<open>sequence\<close> only.
\<close>

section \<open>The contract of a sequence\<close>

text \<open>\<open>None\<close> is an access outside the allocated memory.\<close>

locale sequence =
  fixes inv :: "'s \<Rightarrow> bool" and items :: "'s \<Rightarrow> 'a list" and room :: "'s \<Rightarrow> bool"
    and len :: "'s \<Rightarrow> nat" and get :: "'s \<Rightarrow> nat \<Rightarrow> 'a option" and put :: "'s \<Rightarrow> nat \<Rightarrow> 'a \<Rightarrow> 's option"
    and app :: "'s \<Rightarrow> 'a \<Rightarrow> 's option"
  assumes len: "inv s \<Longrightarrow> len s = length (items s)"
    and get: "inv s \<Longrightarrow> i < length (items s) \<Longrightarrow> get s i = Some (items s ! i)"
    and put: "inv s \<Longrightarrow> i < length (items s) \<Longrightarrow>
        \<exists>s'. put s i x = Some s' \<and> inv s' \<and> items s' = (items s)[i := x] \<and> room s' = room s"
    and app: "inv s \<Longrightarrow> room s \<Longrightarrow> \<exists>s'. app s x = Some s' \<and> inv s' \<and> items s' = items s @ [x]"
begin

text \<open>A stack keeps what it popped in the array and overwrites it later.\<close>

definition push :: "'s \<Rightarrow> nat \<Rightarrow> 'a \<Rightarrow> ('s \<times> nat) option" where
  "push s n x = map_option (\<lambda>s'. (s', n + 1)) (if n < len s then put s n x else app s x)"

lemma push_items:
  assumes "inv s" "room s" "n \<le> length (items s)"
  shows "\<exists>s'. push s n x = Some (s', n + 1) \<and> inv s' \<and> n + 1 \<le> length (items s')
    \<and> take (n + 1) (items s') = take n (items s) @ [x]"
proof (cases "n < length (items s)")
  case True
  from put [OF assms(1) True, of x] len [OF assms(1)] show ?thesis
    using True by (auto simp: push_def take_Suc_conv_app_nth)
next
  case False
  with app [OF assms(1,2), of x] len [OF assms(1)] assms(3) show ?thesis by (auto simp: push_def)
qed

lemma pop_items:
  assumes "inv s" "0 < n" "n \<le> length (items s)"
  shows "get s (n - 1) = Some (last (take n (items s)))" "take (n - 1) (items s) = butlast (take n (items s))"
proof -
  have n: "n - 1 < length (items s)" using assms by simp
  show "get s (n - 1) = Some (last (take n (items s)))"
    using get [OF assms(1) n] assms(2,3) by (cases n) (simp_all add: take_Suc_conv_app_nth)
  show "take (n - 1) (items s) = butlast (take n (items s))" using assms(3) by (simp add: butlast_take)
qed

end

section \<open>Arrays\<close>

text \<open>The allocated cells, \<open>None\<close> where nothing was written yet.\<close>

record 'a ptr_array =
  m_ulAllocated :: nat
  m_ulMinSize :: nat
  m_ulArraySize :: nat
  m_ulExp :: nat
  m_ppt :: "'a option list"

definition pa_new :: "nat \<Rightarrow> nat \<Rightarrow> 'a ptr_array" where
  "pa_new ulMinSize ulExp =
     \<lparr>m_ulAllocated = 0, m_ulMinSize = max 4 ulMinSize, m_ulArraySize = 0, m_ulExp = max 2 ulExp, m_ppt = []\<rparr>"

definition pa_Clear :: "'a ptr_array \<Rightarrow> 'a ptr_array" where
  "pa_Clear a = a\<lparr>m_ulArraySize := 0\<rparr>"

text \<open>\<open>None\<close>: the copy writes past the new cells.\<close>

definition pa_Resize :: "'a ptr_array \<Rightarrow> nat \<Rightarrow> 'a ptr_array option" where
  "pa_Resize a ulNewSize =
     (if m_ulArraySize a \<le> ulNewSize
      then Some (a\<lparr>m_ppt := take (m_ulArraySize a) (m_ppt a) @ replicate (ulNewSize - m_ulArraySize a) None,
                  m_ulAllocated := ulNewSize\<rparr>)
      else None)"

text \<open>\<open>grow\<close> is the product in double precision of the size and the expansion factor.\<close>

definition pa_Append :: "(nat \<Rightarrow> nat \<Rightarrow> ulong_w) \<Rightarrow> 'a ptr_array \<Rightarrow> 'a \<Rightarrow> 'a ptr_array option" where
  "pa_Append grow a pt =
     (let ulExpand = unat (grow (m_ulAllocated a) (m_ulExp a));
          ulMinExpand = ul_add (m_ulAllocated a) 4;
          a' = if m_ulArraySize a = m_ulAllocated a
               then pa_Resize a (max (max ulMinExpand ulExpand) (m_ulMinSize a)) else Some a
      in case a' of
           None \<Rightarrow> None
         | Some a \<Rightarrow>
             if m_ulArraySize a < m_ulAllocated a
             then Some (a\<lparr>m_ppt := (m_ppt a)[m_ulArraySize a := Some pt],
                         m_ulArraySize := ul_add (m_ulArraySize a) 1\<rparr>)
             else None)"

definition pa_AppendArray :: "'a ptr_array \<Rightarrow> 'a ptr_array \<Rightarrow> 'a ptr_array option" where
  "pa_AppendArray a pdrg =
     (let ulTotalSize = ul_add (m_ulArraySize a) (m_ulArraySize pdrg);
          a' = if ulTotalSize > m_ulAllocated a then pa_Resize a ulTotalSize else Some a
      in case a' of
           None \<Rightarrow> None
         | Some a \<Rightarrow>
             let n = m_ulArraySize a; k = m_ulArraySize pdrg
             in if k > 0 \<and> n + k > m_ulAllocated a then None
                else Some (a\<lparr>m_ppt := (if k > 0 then take n (m_ppt a) @ take k (m_ppt pdrg) @ drop (n + k) (m_ppt a)
                                     else m_ppt a),
                             m_ulArraySize := ulTotalSize\<rparr>))"

definition pa_UlLength :: "'a ptr_array \<Rightarrow> nat" where
  "pa_UlLength a = m_ulArraySize a"

text \<open>The pointers of two arrays are compared up to the first difference.\<close>

fun pa_equal_loop :: "'a option list \<Rightarrow> 'a option list \<Rightarrow> nat \<Rightarrow> nat \<Rightarrow> bool \<Rightarrow> bool" where
  "pa_equal_loop xs ys i 0 fEqual = fEqual"
| "pa_equal_loop xs ys i (Suc n) fEqual =
     (if fEqual then pa_equal_loop xs ys (i + 1) n (xs ! i = ys ! i) else fEqual)"

definition pa_FEqual :: "'a ptr_array \<Rightarrow> 'a ptr_array \<Rightarrow> bool" where
  "pa_FEqual a pdrg =
     pa_equal_loop (m_ppt a) (m_ppt pdrg) 0 (m_ulArraySize a) (pa_UlLength a = pa_UlLength pdrg)"

text \<open>Objects are compared by their operator \<open>==\<close>; the null pointer is \<open>None\<close>.\<close>

fun pa_find :: "('a \<Rightarrow> 'a \<Rightarrow> bool) \<Rightarrow> 'a option list \<Rightarrow> 'a \<Rightarrow> nat \<Rightarrow> nat \<Rightarrow> nat option" where
  "pa_find eq xs pt i 0 = None"
| "pa_find eq xs pt i (Suc n) = (if eq (the (xs ! i)) pt then Some i else pa_find eq xs pt (i + 1) n)"

definition pa_PtLookup :: "('a \<Rightarrow> 'a \<Rightarrow> bool) \<Rightarrow> 'a ptr_array \<Rightarrow> 'a \<Rightarrow> 'a option" where
  "pa_PtLookup eq a pt =
     (case pa_find eq (m_ppt a) pt 0 (m_ulArraySize a) of Some i \<Rightarrow> m_ppt a ! i | None \<Rightarrow> None)"

definition pa_UlPos :: "('a \<Rightarrow> 'a \<Rightarrow> bool) \<Rightarrow> 'a ptr_array \<Rightarrow> 'a \<Rightarrow> nat" where
  "pa_UlPos eq a pt =
     (case pa_find eq (m_ppt a) pt 0 (m_ulArraySize a) of Some ul \<Rightarrow> ul | None \<Rightarrow> ULONG_MAX)"

definition pa_nth :: "'a ptr_array \<Rightarrow> nat \<Rightarrow> 'a option" where
  "pa_nth a ulPos = (if ulPos < m_ulAllocated a then m_ppt a ! ulPos else None)"

definition pa_Replace :: "'a ptr_array \<Rightarrow> nat \<Rightarrow> 'a \<Rightarrow> 'a ptr_array option" where
  "pa_Replace a ulPos pt =
     (if ulPos < m_ulAllocated a then Some (a\<lparr>m_ppt := (m_ppt a)[ulPos := Some pt]\<rparr>) else None)"

text \<open>Where the elements of one array stand in another; \<open>None\<close> is the null result.\<close>

fun pa_index_of :: "'a option \<Rightarrow> 'a option list \<Rightarrow> nat \<Rightarrow> nat \<Rightarrow> nat option" where
  "pa_index_of pT ys ul2 0 = None"
| "pa_index_of pT ys ul2 (Suc n) = (if pT = ys ! ul2 then Some ul2 else pa_index_of pT ys (ul2 + 1) n)"

fun pa_index_loop :: "'a ptr_array \<Rightarrow> 'a ptr_array \<Rightarrow> nat \<Rightarrow> nat \<Rightarrow> nat list \<Rightarrow> nat list option" where
  "pa_index_loop a b ul1 0 pdrgpulIndexes = Some pdrgpulIndexes"
| "pa_index_loop a b ul1 (Suc n) pdrgpulIndexes =
     (case pa_index_of (m_ppt a ! ul1) (m_ppt b) 0 (m_ulArraySize b) of
        None \<Rightarrow> None
      | Some ul2 \<Rightarrow> pa_index_loop a b (ul1 + 1) n (pdrgpulIndexes @ [ul2]))"

definition PdrgpulSubsequenceIndexes :: "'a ptr_array \<Rightarrow> 'a ptr_array \<Rightarrow> nat list option" where
  "PdrgpulSubsequenceIndexes pdrgSubsequence pdrg =
     pa_index_loop pdrgSubsequence pdrg 0 (m_ulArraySize pdrgSubsequence) []"

section \<open>Arrays refine lists\<close>

definition pa_items :: "'a ptr_array \<Rightarrow> 'a list" where
  "pa_items a = map the (take (m_ulArraySize a) (m_ppt a))"

definition pa_ok :: "'a ptr_array \<Rightarrow> bool" where
  "pa_ok a \<longleftrightarrow> m_ulArraySize a \<le> m_ulAllocated a \<and> m_ulAllocated a = length (m_ppt a)
     \<and> m_ulAllocated a < ULONG_MOD \<and> None \<notin> set (take (m_ulArraySize a) (m_ppt a))"

text \<open>There is room for another element: the size that is asked for does not wrap.\<close>

definition pa_room :: "'a ptr_array \<Rightarrow> bool" where
  "pa_room a \<longleftrightarrow> m_ulAllocated a + 4 < ULONG_MOD \<and> m_ulMinSize a < ULONG_MOD"

lemma pa_okD:
  assumes "pa_ok a"
  shows "length (pa_items a) = m_ulArraySize a" "m_ulArraySize a < ULONG_MOD"
    "i < m_ulArraySize a \<Longrightarrow> m_ppt a ! i = Some (pa_items a ! i)"
  using assms by (auto simp: pa_ok_def pa_items_def in_set_conv_nth)

lemma pa_new_ok: "pa_ok (pa_new ulMinSize ulExp)" "pa_items (pa_new ulMinSize ulExp) = []"
  by (simp_all add: pa_ok_def pa_items_def pa_new_def)

lemma pa_Clear_ok: "pa_ok a \<Longrightarrow> pa_ok (pa_Clear a) \<and> pa_items (pa_Clear a) = []"
  by (simp add: pa_ok_def pa_items_def pa_Clear_def)

lemma pa_Resize_ok:
  assumes "pa_ok a" "m_ulArraySize a \<le> n" "n < ULONG_MOD"
  shows "\<exists>a'. pa_Resize a n = Some a' \<and> pa_ok a' \<and> pa_items a' = pa_items a
    \<and> m_ulAllocated a' = n \<and> m_ulArraySize a' = m_ulArraySize a"
  using assms by (auto simp: pa_Resize_def pa_ok_def pa_items_def nth_append)

lemma pa_store:
  fixes a :: "'a ptr_array" and pt :: 'a
  assumes "pa_ok a" "m_ulArraySize a < m_ulAllocated a"
  defines "a' \<equiv> a\<lparr>m_ppt := (m_ppt a)[m_ulArraySize a := Some pt], m_ulArraySize := ul_add (m_ulArraySize a) 1\<rparr>"
  shows "pa_ok a' \<and> pa_items a' = pa_items a @ [pt]"
proof -
  have "ul_add (m_ulArraySize a) 1 = m_ulArraySize a + 1"
    using assms(1,2) by (intro ul_add_exact) (simp add: pa_ok_def)
  then show ?thesis
    using assms by (auto simp: pa_ok_def pa_items_def take_Suc_conv_app_nth nth_list_update less_Suc_eq)
qed

lemma pa_Append_ok:
  assumes "pa_ok a" "pa_room a"
  shows "\<exists>a'. pa_Append grow a pt = Some a' \<and> pa_ok a' \<and> pa_items a' = pa_items a @ [pt]"
proof (cases "m_ulArraySize a = m_ulAllocated a")
  case True
  let ?n = "max (max (ul_add (m_ulAllocated a) 4) (unat (grow (m_ulAllocated a) (m_ulExp a)))) (m_ulMinSize a)"
  have "unat (grow (m_ulAllocated a) (m_ulExp a)) < ULONG_MOD"
    using unsigned_less [of "grow (m_ulAllocated a) (m_ulExp a)"] by simp
  then have n: "m_ulAllocated a + 4 \<le> ?n" "?n < ULONG_MOD"
    using assms(2) by (simp_all add: pa_room_def ul_add_exact)
  then obtain a' where a': "pa_Resize a ?n = Some a'" "pa_ok a'" "pa_items a' = pa_items a"
    "m_ulAllocated a' = ?n" "m_ulArraySize a' = m_ulArraySize a"
    using pa_Resize_ok [OF assms(1), of ?n] True by auto
  then have "m_ulArraySize a' < m_ulAllocated a'" using True n by simp
  from pa_store [OF a'(2) this, of pt] a' this True show ?thesis by (simp add: pa_Append_def Let_def)
next
  case False
  then have "m_ulArraySize a < m_ulAllocated a" using assms(1) by (simp add: pa_ok_def)
  from pa_store [OF assms(1) this, of pt] this False show ?thesis by (simp add: pa_Append_def Let_def)
qed

lemma pa_Replace_ok:
  assumes "pa_ok a" "i < length (pa_items a)"
  shows "\<exists>a'. pa_Replace a i pt = Some a' \<and> pa_ok a' \<and> pa_items a' = (pa_items a)[i := pt] \<and> pa_room a' = pa_room a"
  using assms pa_okD(1) [OF assms(1)]
  by (auto simp: pa_Replace_def pa_ok_def pa_items_def pa_room_def take_update_swap map_update
      dest!: set_update_subset_insert [THEN subsetD])

lemma pa_AppendArray_ok:
  assumes "pa_ok a" "pa_ok b" "m_ulArraySize a + m_ulArraySize b < ULONG_MOD"
  shows "\<exists>a'. pa_AppendArray a b = Some a' \<and> pa_ok a' \<and> pa_items a' = pa_items a @ pa_items b"
proof -
  let ?n = "m_ulArraySize a" and ?k = "m_ulArraySize b"
  have t: "ul_add ?n ?k = ?n + ?k" using assms(3) by (rule ul_add_exact)
  have "\<exists>a'. (if ?n + ?k > m_ulAllocated a then pa_Resize a (?n + ?k) else Some a) = Some a'
      \<and> pa_ok a' \<and> pa_items a' = pa_items a \<and> ?n + ?k \<le> m_ulAllocated a' \<and> m_ulArraySize a' = ?n"
  proof (cases "?n + ?k > m_ulAllocated a")
    case True
    then show ?thesis using pa_Resize_ok [OF assms(1) le_add1 assms(3)] by auto
  qed (use assms(1) in simp)
  then obtain a' where a': "(if ?n + ?k > m_ulAllocated a then pa_Resize a (?n + ?k) else Some a) = Some a'"
    "pa_ok a'" "pa_items a' = pa_items a" "?n + ?k \<le> m_ulAllocated a'" "m_ulArraySize a' = ?n"
    by blast
  let ?xs = "take ?n (m_ppt a') @ take ?k (m_ppt b) @ drop (?n + ?k) (m_ppt a')"
  define a'' where "a'' = a'\<lparr>m_ppt := (if ?k > 0 then ?xs else m_ppt a'), m_ulArraySize := ?n + ?k\<rparr>"
  have r: "pa_AppendArray a b = Some a''"
    unfolding pa_AppendArray_def Let_def t a'(1) using a'(4,5) by (simp add: a''_def)
  have len: "m_ulAllocated a' = length (m_ppt a')" "?k \<le> length (m_ppt b)"
    using a'(2) assms(2) by (auto simp: pa_ok_def)
  have tk: "take (?n + ?k) (m_ppt a'') = take ?n (m_ppt a') @ take ?k (m_ppt b)"
    using len a'(4) by (simp add: a''_def)
  then have items: "pa_items a'' = pa_items a @ pa_items b"
    using a'(3,5) by (simp add: pa_items_def a''_def)
  have "None \<notin> set (take (?n + ?k) (m_ppt a''))" unfolding tk using a'(2,5) assms(2) by (auto simp: pa_ok_def)
  then have "pa_ok a''" using a'(2,4) len by (auto simp: pa_ok_def a''_def)
  with r items show ?thesis by blast
qed

interpretation pa: sequence pa_ok pa_items pa_room pa_UlLength pa_nth pa_Replace "pa_Append grow" for grow
proof (unfold_locales, goal_cases)
  case (1 a)
  then show ?case by (simp add: pa_UlLength_def pa_okD(1))
next
  case (2 a i)
  then show ?case using pa_okD [OF 2(1)] by (simp add: pa_nth_def pa_ok_def)
next
  case (3 a i pt)
  then show ?case by (rule pa_Replace_ok)
next
  case (4 a pt)
  then show ?case by (rule pa_Append_ok)
qed

section \<open>Tests and searches\<close>

text \<open>The loops over the cells, as recursions over the elements not yet visited.\<close>

lemma pa_cells: "pa_ok a \<Longrightarrow> m_ppt a = map Some (pa_items a) @ drop (m_ulArraySize a) (m_ppt a)"
proof -
  assume "pa_ok a"
  then have "take (m_ulArraySize a) (m_ppt a) = map Some (pa_items a)"
    by (auto simp: pa_items_def pa_ok_def o_def intro!: map_idI [symmetric])
       (metis option.exhaust_sel)
  then show ?thesis by (metis append_take_drop_id)
qed

lemma pa_equal_loop_items:
  "length xs = length ys \<Longrightarrow> length ps = length qs \<Longrightarrow>
   pa_equal_loop (ps @ map Some xs @ us) (qs @ map Some ys @ vs) (length ps) (length xs) b \<longleftrightarrow> b \<and> xs = ys"
proof (induction xs ys arbitrary: ps qs b rule: list_induct2)
  case (Cons x xs y ys)
  then show ?case using Cons.IH [of "ps @ [Some x]" "qs @ [Some y]" "x = y"] by (simp add: nth_append)
qed simp

lemma pa_equal_loop_False: "pa_equal_loop xs ys i n False = False"
  by (cases n) simp_all

lemma pa_FEqual_iff:
  assumes "pa_ok a" "pa_ok b"
  shows "pa_FEqual a b \<longleftrightarrow> pa_items a = pa_items b"
proof (cases "m_ulArraySize a = m_ulArraySize b")
  case True
  with pa_equal_loop_items [of "pa_items a" "pa_items b" "[]" "[]"] show ?thesis
    using pa_okD(1) [OF assms(1)] pa_okD(1) [OF assms(2)]
    by (subst pa_FEqual_def, subst pa_cells [OF assms(1)], subst pa_cells [OF assms(2)])
       (simp add: pa_UlLength_def)
next
  case False
  then show ?thesis using pa_okD(1) [OF assms(1)] pa_okD(1) [OF assms(2)]
    by (auto simp: pa_FEqual_def pa_UlLength_def pa_equal_loop_False)
qed

lemma pa_find_items:
  "pa_find eq (ps @ map Some xs @ us) pt (length ps) (length xs) = (if \<exists>x \<in> set xs. eq x pt
     then Some (length ps + length (takeWhile (\<lambda>x. \<not> eq x pt) xs)) else None)"
proof (induction xs arbitrary: ps)
  case (Cons x xs)
  then show ?case using Cons.IH [of "ps @ [Some x]"] by (simp add: nth_append)
qed simp

lemma takeWhile_found: "\<exists>x \<in> set xs. P x \<Longrightarrow> length (takeWhile (\<lambda>x. \<not> P x) xs) < length xs"
  by (induction xs) auto

lemma pa_searches:
  assumes "pa_ok a"
  shows "pa_PtLookup eq a pt = List.find (\<lambda>x. eq x pt) (pa_items a)"
    and "pa_UlPos eq a pt = (if \<exists>x \<in> set (pa_items a). eq x pt
      then length (takeWhile (\<lambda>x. \<not> eq x pt) (pa_items a)) else ULONG_MAX)"
proof -
  let ?k = "length (takeWhile (\<lambda>x. \<not> eq x pt) (pa_items a))"
  have f: "pa_find eq (m_ppt a) pt 0 (m_ulArraySize a) = (if \<exists>x \<in> set (pa_items a). eq x pt then Some ?k else None)"
    using pa_find_items [of eq "[]" "pa_items a"] pa_okD(1) [OF assms] by (subst pa_cells [OF assms]) simp
  then show "pa_UlPos eq a pt = (if \<exists>x \<in> set (pa_items a). eq x pt then ?k else ULONG_MAX)"
    by (simp add: pa_UlPos_def)
  have "List.find P xs = (if \<exists>x \<in> set xs. P x then Some (xs ! length (takeWhile (\<lambda>x. \<not> P x) xs)) else None)"
    for P and xs :: "'a list" by (induction xs) auto
  moreover have "?k < length (pa_items a)" if "\<exists>x \<in> set (pa_items a). eq x pt"
    using takeWhile_found [OF that] .
  ultimately show "pa_PtLookup eq a pt = List.find (\<lambda>x. eq x pt) (pa_items a)"
    using f pa_okD [OF assms] by (auto simp: pa_PtLookup_def)
qed

lemma pa_index_of_items:
  "pa_index_of (Some x) (ps @ map Some ys @ us) (length ps) (length ys) = (if x \<in> set ys
     then Some (length ps + length (takeWhile (\<lambda>y. y \<noteq> x) ys)) else None)"
proof (induction ys arbitrary: ps)
  case (Cons y ys)
  then show ?case using Cons.IH [of "ps @ [Some y]"] by (auto simp: nth_append)
qed simp

lemma pa_index_loop_items:
  assumes "pa_ok b" "\<forall>i < n. m_ppt a ! (k + i) = Some (xs ! i)" "length xs = n"
  shows "pa_index_loop a b k n is = (if set xs \<subseteq> set (pa_items b)
     then Some (is @ map (\<lambda>x. length (takeWhile (\<lambda>y. y \<noteq> x) (pa_items b))) xs) else None)"
  using assms(2,3)
proof (induction n arbitrary: k xs "is")
  case (Suc n)
  then obtain x xs' where xs: "xs = x # xs'" by (cases xs) auto
  have "m_ppt a ! k = Some x" using Suc.prems(1) by (auto simp: xs dest: spec [of _ 0])
  moreover have "\<forall>i < n. m_ppt a ! (k + 1 + i) = Some (xs' ! i)"
    using Suc.prems(1) by (auto simp: xs dest: spec [of _ "Suc _"])
  moreover have "pa_index_of (Some x) (m_ppt b) 0 (m_ulArraySize b) = (if x \<in> set (pa_items b)
     then Some (length (takeWhile (\<lambda>y. y \<noteq> x) (pa_items b))) else None)"
    using pa_index_of_items [of x "[]" "pa_items b"] pa_okD(1) [OF assms(1)]
    by (subst pa_cells [OF assms(1)]) simp
  ultimately show ?case using Suc.IH [of "k + 1" xs'] Suc.prems(2) by (simp add: xs)
qed simp

lemma PdrgpulSubsequenceIndexes_items:
  assumes "pa_ok a" "pa_ok b"
  shows "PdrgpulSubsequenceIndexes a b = (if set (pa_items a) \<subseteq> set (pa_items b)
     then Some (map (\<lambda>x. length (takeWhile (\<lambda>y. y \<noteq> x) (pa_items b))) (pa_items a)) else None)"
  using pa_index_loop_items [OF assms(2), of "m_ulArraySize a" a 0 "pa_items a" "[]"] pa_okD [OF assms(1)]
  by (simp add: PdrgpulSubsequenceIndexes_def)

section \<open>Stacks\<close>

record 'a cstack =
  m_dpa :: "'a ptr_array"
  m_ulTop :: nat

definition CStack_new :: "nat \<Rightarrow> 'a cstack" where
  "CStack_new ulMinSize = \<lparr>m_dpa = pa_new ulMinSize 10, m_ulTop = 0\<rparr>"

definition Push :: "(nat \<Rightarrow> nat \<Rightarrow> ulong_w) \<Rightarrow> 'a cstack \<Rightarrow> 'a \<Rightarrow> 'a cstack option" where
  "Push grow s pt =
     (case (if m_ulTop s < pa_UlLength (m_dpa s) then pa_Replace (m_dpa s) (m_ulTop s) pt
            else pa_Append grow (m_dpa s) pt) of
        None \<Rightarrow> None
      | Some dpa \<Rightarrow> Some (s\<lparr>m_dpa := dpa, m_ulTop := ul_add (m_ulTop s) 1\<rparr>))"

definition Pop :: "'a cstack \<Rightarrow> 'a option \<times> 'a cstack" where
  "Pop s = (pa_nth (m_dpa s) (ul_sub (m_ulTop s) 1), s\<lparr>m_ulTop := ul_sub (m_ulTop s) 1\<rparr>)"

definition Peek :: "'a cstack \<Rightarrow> 'a option" where
  "Peek s = pa_nth (m_dpa s) (ul_sub (m_ulTop s) 1)"

definition FEmpty :: "'a cstack \<Rightarrow> bool" where
  "FEmpty s = (m_ulTop s = 0)"

definition st_ok :: "'a cstack \<Rightarrow> bool" where
  "st_ok s \<longleftrightarrow> pa_ok (m_dpa s) \<and> m_ulTop s \<le> length (pa_items (m_dpa s))"

text \<open>The stacked elements, the top first.\<close>

definition st_items :: "'a cstack \<Rightarrow> 'a list" where
  "st_items s = rev (take (m_ulTop s) (pa_items (m_dpa s)))"

lemma st_new: "st_ok (CStack_new n)" "st_items (CStack_new n) = []"
  by (simp_all add: st_ok_def st_items_def CStack_new_def pa_new_ok)

lemma st_Push:
  assumes "st_ok s" "pa_room (m_dpa s)"
  shows "\<exists>s'. Push grow s pt = Some s' \<and> st_ok s' \<and> st_items s' = pt # st_items s"
proof -
  have ok: "pa_ok (m_dpa s)" "m_ulTop s \<le> length (pa_items (m_dpa s))" using assms(1) by (simp_all add: st_ok_def)
  obtain a where a: "pa.push grow (m_dpa s) (m_ulTop s) pt = Some (a, m_ulTop s + 1)" "pa_ok a"
    "m_ulTop s + 1 \<le> length (pa_items a)"
    "take (m_ulTop s + 1) (pa_items a) = take (m_ulTop s) (pa_items (m_dpa s)) @ [pt]"
    using pa.push_items [OF ok(1) assms(2) ok(2), of grow pt] by blast
  have "m_ulTop s + 1 < ULONG_MOD" using a(3) pa_okD(1,2) [OF a(2)] by simp
  then have "Push grow s pt = Some (s\<lparr>m_dpa := a, m_ulTop := m_ulTop s + 1\<rparr>)"
    using a(1) by (auto simp: Push_def pa.push_def ul_add_exact split: option.splits if_splits)
  then show ?thesis using a(2-4) by (simp add: st_ok_def st_items_def)
qed

lemma st_Pop:
  assumes "st_ok s" "st_items s \<noteq> []"
  shows "fst (Pop s) = Some (hd (st_items s))" "Peek s = Some (hd (st_items s))"
    "st_ok (snd (Pop s))" "st_items (snd (Pop s)) = tl (st_items s)"
proof -
  let ?xs = "pa_items (m_dpa s)" and ?n = "m_ulTop s"
  have ok: "pa_ok (m_dpa s)" "?n \<le> length ?xs" "0 < ?n"
    using assms by (auto simp: st_ok_def st_items_def)
  have n: "ul_sub ?n 1 = ?n - 1" using ul_sub_one_mod [OF ok(3)] ok(2) pa_okD(1,2) [OF ok(1)] by simp
  note p = pa.pop_items [OF ok(1,3,2)]
  show "fst (Pop s) = Some (hd (st_items s))" "Peek s = Some (hd (st_items s))"
    unfolding Pop_def Peek_def n using p(1) by (simp_all add: st_items_def hd_rev)
  show "st_ok (snd (Pop s))" unfolding Pop_def n using ok by (simp add: st_ok_def)
  show "st_items (snd (Pop s)) = tl (st_items s)"
    unfolding Pop_def n using p(2) by (simp add: st_items_def) (metis butlast_rev rev_rev_ident)
qed

lemma st_FEmpty: "st_ok s \<Longrightarrow> FEmpty s \<longleftrightarrow> st_items s = []"
  by (auto simp: FEmpty_def st_items_def st_ok_def)

section \<open>Properties\<close>

text \<open>C33 A pointer array behaves as the list of its elements whatever it allocated: appending an element or
  an array, overwriting, comparing and searching are the list operations, for sizes that do not wrap.\<close>
theorem ptr_array_refines_lists:
  assumes "pa_ok a" "pa_ok b"
  shows "(pa_room a \<longrightarrow> (\<exists>a'. pa_Append grow a pt = Some a' \<and> pa_ok a' \<and> pa_items a' = pa_items a @ [pt]))
    \<and> (pa_UlLength a + pa_UlLength b < ULONG_MOD \<longrightarrow>
         (\<exists>a'. pa_AppendArray a b = Some a' \<and> pa_ok a' \<and> pa_items a' = pa_items a @ pa_items b))
    \<and> (i < pa_UlLength a \<longrightarrow> pa_nth a i = Some (pa_items a ! i)
         \<and> (\<exists>a'. pa_Replace a i pt = Some a' \<and> pa_ok a' \<and> pa_items a' = (pa_items a)[i := pt]))
    \<and> (pa_FEqual a b \<longleftrightarrow> pa_items a = pa_items b)
    \<and> pa_PtLookup eq a pt = List.find (\<lambda>x. eq x pt) (pa_items a)
    \<and> pa_UlPos eq a pt = (if \<exists>x \<in> set (pa_items a). eq x pt
        then length (takeWhile (\<lambda>x. \<not> eq x pt) (pa_items a)) else ULONG_MAX)
    \<and> PdrgpulSubsequenceIndexes a b = (if set (pa_items a) \<subseteq> set (pa_items b)
        then Some (map (\<lambda>x. length (takeWhile (\<lambda>y. y \<noteq> x) (pa_items b))) (pa_items a)) else None)"
  using pa_Append_ok [OF assms(1)] pa_AppendArray_ok [OF assms] pa.get [OF assms(1), of i]
    pa_Replace_ok [OF assms(1), of i pt] pa_okD(1) [OF assms(1)]
  by (auto simp: pa_UlLength_def pa_FEqual_iff [OF assms] pa_searches [OF assms(1)] PdrgpulSubsequenceIndexes_items [OF assms])

theorem ptr_array_refines_lists_witness:
  "\<exists>a'. pa_Append (\<lambda>_ _. 0) (pa_new 4 10) (7 :: nat) = Some a' \<and> pa_items a' = [7]"
  using ptr_array_refines_lists [OF pa_new_ok(1) pa_new_ok(1), of 4 10 "\<lambda>_ _. 0" 7 4 10 0 "(=)"] pa_new_ok(2) [of 4 10]
  by (auto simp: pa_room_def pa_new_def)

text \<open>A stack over a pointer array returns the elements in the reverse order of their insertion, also
  when it overwrites elements it popped before.\<close>
theorem cstack_refines_lists:
  assumes "st_ok s" "pa_room (m_dpa s)"
  shows "(\<exists>s'. Push grow s pt = Some s' \<and> st_ok s' \<and> st_items s' = pt # st_items s)
    \<and> (FEmpty s \<longleftrightarrow> st_items s = [])
    \<and> (\<not> FEmpty s \<longrightarrow> (case Pop s of (ptTop, s') \<Rightarrow>
         ptTop = Some (hd (st_items s)) \<and> Peek s = ptTop \<and> st_ok s' \<and> st_items s' = tl (st_items s)))"
  using st_Push [OF assms] st_FEmpty [OF assms(1)] st_Pop [OF assms(1)] by (auto simp: case_prod_unfold)

theorem cstack_refines_lists_witness:
  "\<exists>s'. Push (\<lambda>_ _. 0) (CStack_new 4) (7 :: nat) = Some s' \<and> st_items s' = [7]"
  using cstack_refines_lists [OF st_new(1), of 4 "\<lambda>_ _. 0" 7] st_new(2) [of 4]
  by (auto simp: pa_room_def pa_new_def CStack_new_def)

end
