(* ===== verification/HashMap.thy ===== *)
theory HashMap
  imports Prelude "HOL-Library.Multiset"
begin

text \<open>
  Hash maps, hash sets and their iterators (\<^verbatim>\<open>libgpos/include/gpos/common/CHashMap.h\<close>,
  \<^verbatim>\<open>CHashMapIter.h\<close>, \<^verbatim>\<open>CHashSet.h\<close>, \<^verbatim>\<open>CHashSetIter.h\<close>).
  Chains are lists of key/value pairs, and a chain that was never filled is the null pointer.
  The hash and equality functions are arguments, as they are of the templates.  The locale
  \<open>dictionary\<close> is what the clients use; destruction of elements is left out.
\<close>

section \<open>Hash maps\<close>

text \<open>A value is \<open>None\<close> if it is the null pointer.\<close>

record ('k, 't) hash_map =
  m_ulBuckets :: nat
  m_ulEntries :: nat
  m_ppdrgchain :: "('k \<times> 't option) list option list"
  m_pdrgKeys :: "'k list"
  m_pdrgPiFilledBuckets :: "nat list"

definition hm_new :: "nat \<Rightarrow> ('k, 't) hash_map" where
  "hm_new ulSize =
     \<lparr>m_ulBuckets = ulSize, m_ulEntries = 0, m_ppdrgchain = replicate ulSize None,
      m_pdrgKeys = [], m_pdrgPiFilledBuckets = []\<rparr>"

definition PpdrgChain :: "('k \<Rightarrow> nat) \<Rightarrow> ('k, 't) hash_map \<Rightarrow> 'k \<Rightarrow> nat" where
  "PpdrgChain hash m pk = hash pk mod m_ulBuckets m"

text \<open>The element of a key in its chain: the first one whose key is equal.\<close>

fun chain_lookup :: "('k \<Rightarrow> 'k \<Rightarrow> bool) \<Rightarrow> ('k \<times> 't option) list \<Rightarrow> 'k \<Rightarrow> ('k \<times> 't option) option" where
  "chain_lookup eq [] pk = None"
| "chain_lookup eq (hme # chain) pk = (if eq (fst hme) pk then Some hme else chain_lookup eq chain pk)"

definition hm_Lookup :: "('k \<Rightarrow> nat) \<Rightarrow> ('k \<Rightarrow> 'k \<Rightarrow> bool) \<Rightarrow> ('k, 't) hash_map \<Rightarrow> 'k \<Rightarrow> ('k \<times> 't option) option" where
  "hm_Lookup hash eq m pk =
     (case m_ppdrgchain m ! PpdrgChain hash m pk of
        None \<Rightarrow> None
      | Some chain \<Rightarrow> chain_lookup eq chain pk)"

definition hm_PtLookup :: "('k \<Rightarrow> nat) \<Rightarrow> ('k \<Rightarrow> 'k \<Rightarrow> bool) \<Rightarrow> ('k, 't) hash_map \<Rightarrow> 'k \<Rightarrow> 't option" where
  "hm_PtLookup hash eq m pk =
     (case hm_Lookup hash eq m pk of None \<Rightarrow> None | Some hme \<Rightarrow> snd hme)"

definition hm_FInsert ::
    "('k \<Rightarrow> nat) \<Rightarrow> ('k \<Rightarrow> 'k \<Rightarrow> bool) \<Rightarrow> ('k, 't) hash_map \<Rightarrow> 'k \<Rightarrow> 't option \<Rightarrow> bool \<times> ('k, 't) hash_map" where
  "hm_FInsert hash eq m pk pt =
     (if hm_PtLookup hash eq m pk \<noteq> None then (False, m)
      else
        let i = PpdrgChain hash m pk;
            m = (case m_ppdrgchain m ! i of
                   None \<Rightarrow> m\<lparr>m_ppdrgchain := (m_ppdrgchain m)[i := Some []],
                             m_pdrgPiFilledBuckets := m_pdrgPiFilledBuckets m @ [i]\<rparr>
                 | Some _ \<Rightarrow> m)
        in (True, m\<lparr>m_ppdrgchain := (m_ppdrgchain m)[i := Some (the (m_ppdrgchain m ! i) @ [(pk, pt)])],
                    m_ulEntries := ul_add (m_ulEntries m) 1,
                    m_pdrgKeys := m_pdrgKeys m @ [pk]\<rparr>))"

fun chain_replace :: "('k \<Rightarrow> 'k \<Rightarrow> bool) \<Rightarrow> ('k \<times> 't option) list \<Rightarrow> 'k \<Rightarrow> 't option \<Rightarrow> ('k \<times> 't option) list" where
  "chain_replace eq [] pk ptNew = []"
| "chain_replace eq (hme # chain) pk ptNew =
     (if eq (fst hme) pk then (fst hme, ptNew) # chain else hme # chain_replace eq chain pk ptNew)"

definition hm_FReplace ::
    "('k \<Rightarrow> nat) \<Rightarrow> ('k \<Rightarrow> 'k \<Rightarrow> bool) \<Rightarrow> ('k, 't) hash_map \<Rightarrow> 'k \<Rightarrow> 't option \<Rightarrow> bool \<times> ('k, 't) hash_map" where
  "hm_FReplace hash eq m pk ptNew =
     (case hm_Lookup hash eq m pk of
        None \<Rightarrow> (False, m)
      | Some _ \<Rightarrow>
          let i = PpdrgChain hash m pk
          in (True, m\<lparr>m_ppdrgchain := (m_ppdrgchain m)[i := Some (chain_replace eq (the (m_ppdrgchain m ! i)) pk ptNew)]\<rparr>))"

definition hm_UlEntries :: "('k, 't) hash_map \<Rightarrow> nat" where
  "hm_UlEntries m = m_ulEntries m"

text \<open>The chains that the destructor releases, in order.\<close>

definition hm_Clear :: "('k, 't) hash_map \<Rightarrow> ('k \<times> 't option) list option list \<times> ('k, 't) hash_map" where
  "hm_Clear m =
     (map (\<lambda>i. m_ppdrgchain m ! i) (m_pdrgPiFilledBuckets m),
      m\<lparr>m_ulEntries := 0, m_pdrgPiFilledBuckets := []\<rparr>)"

text \<open>Iterators: the number of keys passed so far.\<close>

definition hmi_FAdvance :: "('k, 't) hash_map \<Rightarrow> nat \<Rightarrow> bool \<times> nat" where
  "hmi_FAdvance m ulKey = (if ulKey < length (m_pdrgKeys m) then (True, ulKey + 1) else (False, ulKey))"

text \<open>Before the first advance the key array is read out of its bounds: \<open>None\<close>.\<close>

definition hmi_Phme :: "('k \<Rightarrow> nat) \<Rightarrow> ('k \<Rightarrow> 'k \<Rightarrow> bool) \<Rightarrow> ('k, 't) hash_map \<Rightarrow> nat \<Rightarrow> ('k \<times> 't option) option option" where
  "hmi_Phme hash eq m ulKey =
     (if ulKey = 0 \<or> length (m_pdrgKeys m) < ulKey then None
      else Some (hm_Lookup hash eq m (m_pdrgKeys m ! (ulKey - 1))))"

definition hmi_Pk :: "('k \<Rightarrow> nat) \<Rightarrow> ('k \<Rightarrow> 'k \<Rightarrow> bool) \<Rightarrow> ('k, 't) hash_map \<Rightarrow> nat \<Rightarrow> 'k option option" where
  "hmi_Pk hash eq m ulKey = map_option (map_option fst) (hmi_Phme hash eq m ulKey)"

definition hmi_Pt :: "('k \<Rightarrow> nat) \<Rightarrow> ('k \<Rightarrow> 'k \<Rightarrow> bool) \<Rightarrow> ('k, 't) hash_map \<Rightarrow> nat \<Rightarrow> 't option option" where
  "hmi_Pt hash eq m ulKey =
     map_option (\<lambda>phme. case phme of None \<Rightarrow> None | Some hme \<Rightarrow> snd hme) (hmi_Phme hash eq m ulKey)"

text \<open>The loop \<open>while (mi.FAdvance()) ... mi.Pk() ... mi.Pt()\<close>, over a number of advances.\<close>

fun hm_collect :: "('k \<Rightarrow> nat) \<Rightarrow> ('k \<Rightarrow> 'k \<Rightarrow> bool) \<Rightarrow> ('k, 't) hash_map \<Rightarrow> nat \<Rightarrow> nat \<Rightarrow>
    ('k option option \<times> 't option option) list" where
  "hm_collect hash eq m 0 ulKey = []"
| "hm_collect hash eq m (Suc n) ulKey =
     (let (fMore, ulKey') = hmi_FAdvance m ulKey
      in if fMore then (hmi_Pk hash eq m ulKey', hmi_Pt hash eq m ulKey') # hm_collect hash eq m n ulKey' else [])"

section \<open>The contract of a dictionary\<close>

locale dictionary =
  fixes same :: "'k \<Rightarrow> 'k \<Rightarrow> bool" and inv :: "'m \<Rightarrow> bool" and look :: "'m \<Rightarrow> 'k \<Rightarrow> 't option"
    and keys :: "'m \<Rightarrow> 'k list" and add :: "'m \<Rightarrow> 'k \<Rightarrow> 't \<Rightarrow> bool \<times> 'm"
  assumes same: "inv m \<Longrightarrow> equivp same"
    and look_same: "inv m \<Longrightarrow> same k k' \<Longrightarrow> look m k = look m k'"
    and add: "inv m \<Longrightarrow> add m k t = (b, m') \<Longrightarrow>
        inv m' \<and> b = (look m k = None) \<and> keys m' = keys m @ (if b then [k] else [])
      \<and> look m' k' = (if b \<and> same k k' then Some t else look m k')"
    and keys: "inv m \<Longrightarrow> look m k \<noteq> None \<longleftrightarrow> (\<exists>k' \<in> set (keys m). same k' k)"
    and keys_distinct: "inv m \<Longrightarrow> sorted_wrt (\<lambda>k k'. \<not> same k k') (keys m)"
begin

text \<open>Adding what is there already changes nothing, and what is added first is kept.\<close>

lemma add_twice:
  assumes "inv m" "add m k t = (b, m')" "add m' k t' = (b', m'')"
  shows "\<not> b' \<and> (\<forall>k'. look m'' k' = look m' k') \<and> keys m'' = keys m'"
proof -
  have 1: "inv m'" "look m' k \<noteq> None"
    using add [OF assms(1,2), of k] equivp_reflp [OF same [OF assms(1)], of k] by (auto split: if_splits)
  show ?thesis using add [OF 1(1) assms(3)] 1(2) by (auto simp: fun_eq_iff)
qed

text \<open>Adding a list of keys: each keeps the first value it was given.\<close>

lemma add_all:
  assumes "inv m"
  shows "inv (foldl (\<lambda>m (k, t). snd (add m k t)) m kts)
    \<and> look (foldl (\<lambda>m (k, t). snd (add m k t)) m kts) k =
      (case look m k of Some t \<Rightarrow> Some t | None \<Rightarrow> map_option snd (List.find (\<lambda>(k', t). same k' k) kts))"
  using assms
proof (induction kts arbitrary: m)
  case (Cons kt kts)
  obtain k0 t where kt: "kt = (k0, t)" by force
  obtain b m' where a: "add m k0 t = (b, m')" by force
  have s: "look m k0 = look m k" if "same k0 k" by (rule look_same [OF Cons.prems that])
  show ?case using add [OF Cons.prems a, of k] Cons.IH [of m'] s by (auto simp: kt a split: option.splits)
qed (simp split: option.split)

end

section \<open>The map of a hash map\<close>

definition hm_entries :: "('k, 't) hash_map \<Rightarrow> nat \<Rightarrow> ('k \<times> 't option) list" where
  "hm_entries m i = (case m_ppdrgchain m ! i of None \<Rightarrow> [] | Some chain \<Rightarrow> chain)"

text \<open>Every key is in the chain of its hash value; no two keys are equal; no value is null; the key
  array holds the keys of the chains; the filled buckets are those whose chain exists.\<close>

definition hm_ok :: "('k \<Rightarrow> nat) \<Rightarrow> ('k \<Rightarrow> 'k \<Rightarrow> bool) \<Rightarrow> ('k, 't) hash_map \<Rightarrow> bool" where
  "hm_ok hash eq m \<longleftrightarrow>
     0 < m_ulBuckets m \<and> length (m_ppdrgchain m) = m_ulBuckets m
   \<and> (\<forall>i < m_ulBuckets m. \<forall>e \<in> set (hm_entries m i). hash (fst e) mod m_ulBuckets m = i \<and> snd e \<noteq> None)
   \<and> (\<forall>i < m_ulBuckets m. sorted_wrt (\<lambda>a b. \<not> eq (fst a) (fst b)) (hm_entries m i))
   \<and> set (m_pdrgKeys m) = fst ` (\<Union>i < m_ulBuckets m. set (hm_entries m i))
   \<and> sorted_wrt (\<lambda>k k'. \<not> eq k k') (m_pdrgKeys m)
   \<and> m_ulEntries m = length (m_pdrgKeys m) mod ULONG_MOD
   \<and> distinct (m_pdrgPiFilledBuckets m)
   \<and> set (m_pdrgPiFilledBuckets m) = {i. i < m_ulBuckets m \<and> m_ppdrgchain m ! i \<noteq> None}"

text \<open>What the template arguments have to satisfy.\<close>

definition hash_eq :: "('k \<Rightarrow> nat) \<Rightarrow> ('k \<Rightarrow> 'k \<Rightarrow> bool) \<Rightarrow> bool" where
  "hash_eq hash eq \<longleftrightarrow> equivp eq \<and> (\<forall>k k'. eq k k' \<longrightarrow> hash k = hash k')"

lemma chain_lookup_find: "chain_lookup eq chain pk = List.find (\<lambda>hme. eq (fst hme) pk) chain"
  by (induction chain) auto

lemma hm_Lookup_entries: "hm_Lookup hash eq m pk = chain_lookup eq (hm_entries m (PpdrgChain hash m pk)) pk"
  by (simp add: hm_Lookup_def hm_entries_def split: option.split)

lemma find_eq_same:
  assumes "equivp eq" "eq k k'"
  shows "chain_lookup eq chain k = chain_lookup eq chain k'"
proof (induction chain)
  case (Cons x chain)
  have "eq (fst x) k = eq (fst x) k'" using assms by (metis equivp_symp equivp_transp)
  then show ?case using Cons by simp
qed simp

lemma hm_Lookup_same:
  assumes "hash_eq hash eq" "eq k k'"
  shows "hm_Lookup hash eq m k = hm_Lookup hash eq m k'"
proof -
  have "hash k = hash k'" "equivp eq" using assms by (auto simp: hash_eq_def)
  then show ?thesis using find_eq_same [of eq k k'] assms(2) by (simp add: hm_Lookup_entries PpdrgChain_def)
qed

lemma hm_PtLookup_same: "hash_eq hash eq \<Longrightarrow> eq k k' \<Longrightarrow> hm_PtLookup hash eq m k = hm_PtLookup hash eq m k'"
  by (simp add: hm_PtLookup_def hm_Lookup_same)

lemma hm_okD:
  assumes "hm_ok hash eq m"
  shows "PpdrgChain hash m k < m_ulBuckets m" "length (m_ppdrgchain m) = m_ulBuckets m" "0 < m_ulBuckets m"
    "i < m_ulBuckets m \<Longrightarrow> e \<in> set (hm_entries m i) \<Longrightarrow> hash (fst e) mod m_ulBuckets m = i \<and> snd e \<noteq> None"
  using assms by (auto simp: hm_ok_def PpdrgChain_def)

lemma hm_new_ok:
  fixes eq :: "'k \<Rightarrow> 'k \<Rightarrow> bool"
  defines "m \<equiv> (\<lambda>n. hm_new n :: ('k, 't) hash_map)"
  assumes "0 < n"
  shows "hm_ok hash eq (m n)" "hm_PtLookup hash eq (m n) k = None" "m_pdrgKeys (m n) = []"
proof -
  have e: "hm_entries (m n) i = []" if "i < n" for i using that by (simp add: hm_entries_def hm_new_def m_def)
  show "hm_ok hash eq (m n)" using assms e by (auto simp: hm_ok_def hm_new_def)
  have "hm_entries (m n) (PpdrgChain hash (m n) k) = []"
    by (rule e) (use assms in \<open>simp add: PpdrgChain_def hm_new_def\<close>)
  then show "hm_PtLookup hash eq (m n) k = None" by (simp add: hm_PtLookup_def hm_Lookup_entries)
qed (simp add: hm_new_def m_def)

text \<open>An element that is found has a value, and a key that is not found has no element.\<close>

lemma hm_Lookup_value:
  assumes "hm_ok hash eq m" "hm_Lookup hash eq m k = Some e"
  shows "snd e \<noteq> None" "eq (fst e) k" "fst e \<in> set (m_pdrgKeys m)"
proof -
  have e: "e \<in> set (hm_entries m (PpdrgChain hash m k))" "eq (fst e) k"
    using assms(2) by (auto simp: hm_Lookup_entries chain_lookup_find find_Some_iff)
  then show "snd e \<noteq> None" "eq (fst e) k" using hm_okD(1,4) [OF assms(1)] by blast+
  show "fst e \<in> set (m_pdrgKeys m)"
    using e(1) hm_okD(1) [OF assms(1), of k] assms(1) by (auto simp: hm_ok_def)
qed

lemma hm_PtLookup_None: "hm_ok hash eq m \<Longrightarrow> hm_PtLookup hash eq m k = None \<longleftrightarrow> hm_Lookup hash eq m k = None"
  by (auto simp: hm_PtLookup_def dest: hm_Lookup_value split: option.splits)

lemma hm_Lookup_key:
  assumes "hm_ok hash eq m" "hash_eq hash eq" "k' \<in> set (m_pdrgKeys m)" "eq k' k"
  shows "hm_Lookup hash eq m k \<noteq> None"
proof -
  obtain i e where e: "i < m_ulBuckets m" "e \<in> set (hm_entries m i)" "fst e = k'"
    using assms(1,3) by (auto simp: hm_ok_def)
  then have "PpdrgChain hash m k = i"
    using hm_okD(4) [OF assms(1) e(1,2)] assms(2,4) by (auto simp: hash_eq_def PpdrgChain_def)
  then show ?thesis using e(2,3) assms(4) by (metis chain_lookup_find find_None_iff hm_Lookup_entries)
qed

lemma hm_keys_iff:
  assumes "hm_ok hash eq m" "hash_eq hash eq"
  shows "hm_PtLookup hash eq m k \<noteq> None \<longleftrightarrow> (\<exists>k' \<in> set (m_pdrgKeys m). eq k' k)"
proof
  assume "hm_PtLookup hash eq m k \<noteq> None"
  then obtain e where e: "hm_Lookup hash eq m k = Some e" using hm_PtLookup_None [OF assms(1), of k] by (cases "hm_Lookup hash eq m k") auto
  show "\<exists>k' \<in> set (m_pdrgKeys m). eq k' k" using hm_Lookup_value(2,3) [OF assms(1) e] by blast
next
  assume "\<exists>k' \<in> set (m_pdrgKeys m). eq k' k"
  then show "hm_PtLookup hash eq m k \<noteq> None"
    using hm_Lookup_key [OF assms, of _ k] hm_PtLookup_None [OF assms(1), of k] by blast
qed

section \<open>Insertion and replacement\<close>

lemma hm_FInsert_present: "hm_PtLookup hash eq m pk \<noteq> None \<Longrightarrow> hm_FInsert hash eq m pk pt = (False, m)"
  by (simp add: hm_FInsert_def)

lemma hm_FInsert_fields:
  assumes "hm_ok hash eq m" "hm_PtLookup hash eq m pk = None" "hm_FInsert hash eq m pk pt = (b, m')"
  shows "b" "m_ulBuckets m' = m_ulBuckets m" "length (m_ppdrgchain m') = m_ulBuckets m"
    "m_pdrgKeys m' = m_pdrgKeys m @ [pk]" "m_ulEntries m' = ul_add (m_ulEntries m) 1"
    "\<And>j. hm_entries m' j = (if j = PpdrgChain hash m pk then hm_entries m j @ [(pk, pt)] else hm_entries m j)"
    "\<And>j. m_ppdrgchain m' ! j \<noteq> None \<longleftrightarrow> j = PpdrgChain hash m pk \<or> m_ppdrgchain m ! j \<noteq> None"
    "m_pdrgPiFilledBuckets m' = m_pdrgPiFilledBuckets m @
       (if m_ppdrgchain m ! PpdrgChain hash m pk = None then [PpdrgChain hash m pk] else [])"
proof -
  let ?i = "PpdrgChain hash m pk"
  have lt: "?i < length (m_ppdrgchain m)" using hm_okD [OF assms(1)] by simp
  have m': "b" "m' = m\<lparr>m_ppdrgchain := (m_ppdrgchain m)[?i := Some (hm_entries m ?i @ [(pk, pt)])],
      m_ulEntries := ul_add (m_ulEntries m) 1, m_pdrgKeys := m_pdrgKeys m @ [pk],
      m_pdrgPiFilledBuckets := m_pdrgPiFilledBuckets m @ (if m_ppdrgchain m ! ?i = None then [?i] else [])\<rparr>"
    using assms(2,3) lt by (auto simp: hm_FInsert_def hm_entries_def Let_def split: option.splits)
  show "b" "m_ulBuckets m' = m_ulBuckets m" "length (m_ppdrgchain m') = m_ulBuckets m"
    "m_pdrgKeys m' = m_pdrgKeys m @ [pk]" "m_ulEntries m' = ul_add (m_ulEntries m) 1"
    "m_pdrgPiFilledBuckets m' = m_pdrgPiFilledBuckets m @ (if m_ppdrgchain m ! ?i = None then [?i] else [])"
    using m' hm_okD(2) [OF assms(1)] by simp_all
  show "hm_entries m' j = (if j = ?i then hm_entries m j @ [(pk, pt)] else hm_entries m j)" for j
    using lt by (auto simp: m'(2) hm_entries_def nth_list_update)
  show "m_ppdrgchain m' ! j \<noteq> None \<longleftrightarrow> j = ?i \<or> m_ppdrgchain m ! j \<noteq> None" for j
    using lt by (auto simp: m'(2) nth_list_update)
qed

lemma hm_FInsert_ok:
  assumes ok: "hm_ok hash eq m" and he: "hash_eq hash eq" and new: "hm_PtLookup hash eq m pk = None"
    and ins: "hm_FInsert hash eq m pk (Some t) = (b, m')"
  shows "hm_ok hash eq m'"
proof -
  let ?i = "PpdrgChain hash m pk" and ?n = "m_ulBuckets m"
  note f = hm_FInsert_fields [OF ok new ins]
  have i: "?i < ?n" by (rule hm_okD(1) [OF ok])
  have fresh: "\<not> eq k pk" if "k \<in> set (m_pdrgKeys m)" for k
    using hm_keys_iff [OF ok he, of pk] new that by blast
  have fresh': "\<not> eq (fst e) pk" if "e \<in> set (hm_entries m ?i)" for e
    using fresh [of "fst e"] that i ok by (auto simp: hm_ok_def)
  note old = ok [unfolded hm_ok_def]
  have "\<forall>j < ?n. \<forall>e \<in> set (hm_entries m' j). hash (fst e) mod ?n = j \<and> snd e \<noteq> None"
    using old i by (auto simp: f(6) PpdrgChain_def split: if_splits)
  moreover have "\<forall>j < ?n. sorted_wrt (\<lambda>a b. \<not> eq (fst a) (fst b)) (hm_entries m' j)"
    using old fresh' by (auto simp: f(6) sorted_wrt_append)
  moreover have "set (m_pdrgKeys m') = fst ` (\<Union>j < ?n. set (hm_entries m' j))"
  proof -
    have "(\<Union>j < ?n. set (hm_entries m' j)) = insert (pk, Some t) (\<Union>j < ?n. set (hm_entries m j))"
      using i by (auto simp: f(6) split: if_splits)
    then show ?thesis using old by (simp add: f(4))
  qed
  moreover have "sorted_wrt (\<lambda>k k'. \<not> eq k k') (m_pdrgKeys m')"
    using old fresh by (auto simp: f(4) sorted_wrt_append)
  moreover have "m_ulEntries m' = length (m_pdrgKeys m') mod ULONG_MOD"
    using old by (simp add: f(4,5) ul_add_mod)
  moreover have "distinct (m_pdrgPiFilledBuckets m')" using old by (auto simp: f(8))
  moreover have "set (m_pdrgPiFilledBuckets m') = {i. i < ?n \<and> m_ppdrgchain m' ! i \<noteq> None}"
    using old i unfolding f(7) f(8) by auto
  ultimately show ?thesis using f(2,3) i unfolding hm_ok_def by simp
qed

lemma hm_FInsert_lookup:
  assumes ok: "hm_ok hash eq m" and he: "hash_eq hash eq" and new: "hm_PtLookup hash eq m pk = None"
    and ins: "hm_FInsert hash eq m pk (Some t) = (b, m')"
  shows "hm_PtLookup hash eq m' k = (if eq pk k then Some t else hm_PtLookup hash eq m k)"
proof -
  note f = hm_FInsert_fields [OF ok new ins]
  have ch: "PpdrgChain hash m' k = PpdrgChain hash m k" by (simp add: PpdrgChain_def f(2))
  have app: "chain_lookup eq (xs @ [(pk, Some t)]) k =
      (case chain_lookup eq xs k of None \<Rightarrow> if eq pk k then Some (pk, Some t) else None | Some e \<Rightarrow> Some e)" for xs
    by (induction xs) auto
  have "PpdrgChain hash m k = PpdrgChain hash m pk" "hm_Lookup hash eq m k = None" if "eq pk k"
  proof -
    show "PpdrgChain hash m k = PpdrgChain hash m pk" using that he by (auto simp: hash_eq_def PpdrgChain_def)
    show "hm_Lookup hash eq m k = None"
      using hm_PtLookup_None [OF ok, of pk] new hm_Lookup_same [OF he that, of m] by simp
  qed
  then show ?thesis
    unfolding hm_PtLookup_def [of _ _ m'] hm_PtLookup_def [of _ _ m] hm_Lookup_entries ch f(6)
    by (auto simp: app hm_Lookup_entries split: option.splits)
qed

lemma hm_FInsert_spec:
  assumes "hm_ok hash eq m" "hash_eq hash eq" "hm_FInsert hash eq m pk (Some t) = (b, m')"
  shows "hm_ok hash eq m' \<and> b = (hm_PtLookup hash eq m pk = None)
    \<and> m_pdrgKeys m' = m_pdrgKeys m @ (if b then [pk] else [])
    \<and> hm_PtLookup hash eq m' k = (if b \<and> eq pk k then Some t else hm_PtLookup hash eq m k)"
proof (cases "hm_PtLookup hash eq m pk = None")
  case True
  note f = hm_FInsert_fields [OF assms(1) True assms(3)]
  show ?thesis
    using True f(1,4) hm_FInsert_ok [OF assms(1,2) True assms(3)] hm_FInsert_lookup [OF assms(1,2) True assms(3)]
    by simp
next
  case False
  then show ?thesis using hm_FInsert_present [OF False, of "Some t"] assms(1,3) by simp
qed

lemma hm_keys_distinct: "hm_ok hash eq m \<Longrightarrow> sorted_wrt (\<lambda>k k'. \<not> eq k k') (m_pdrgKeys m)"
  by (simp add: hm_ok_def)

interpretation hm: dictionary eq "\<lambda>m. hash_eq hash eq \<and> hm_ok hash eq m" "hm_PtLookup hash eq" m_pdrgKeys
    "\<lambda>m k t. hm_FInsert hash eq m k (Some t)" for eq hash
proof (unfold_locales, goal_cases)
  case (1 m)
  then show ?case by (simp add: hash_eq_def)
next
  case (2 m k k')
  then show ?case using hm_PtLookup_same [of hash eq k k' m] by simp
next
  case (3 m k t b m' k')
  then show ?case using hm_FInsert_spec [of hash eq m k t b m' k'] by simp
next
  case (4 m k)
  then show ?case using hm_keys_iff [of hash eq m k] by simp
next
  case (5 m)
  then show ?case using hm_keys_distinct [of hash eq m] by simp
qed

text \<open>Replacing the value of a key.\<close>

lemma chain_replace_keys: "map fst (chain_replace eq chain pk ptNew) = map fst chain"
  by (induction chain) auto

lemma chain_replace_lookup:
  "equivp eq \<Longrightarrow> chain_lookup eq (chain_replace eq chain pk ptNew) k =
    (if eq pk k then map_option (\<lambda>hme. (fst hme, ptNew)) (chain_lookup eq chain pk) else chain_lookup eq chain k)"
  by (induction chain) (auto dest: equivp_symp equivp_transp)

lemma chain_replace_set: "e \<in> set (chain_replace eq chain pk ptNew) \<Longrightarrow>
    (\<exists>e' \<in> set chain. fst e = fst e' \<and> (snd e = ptNew \<or> snd e = snd e'))"
  by (induction chain) (auto split: if_splits)

lemma hm_FReplace_spec:
  assumes ok: "hm_ok hash eq m" and he: "hash_eq hash eq" and rep: "hm_FReplace hash eq m pk (Some t) = (b, m')"
  shows "hm_ok hash eq m' \<and> b = (hm_PtLookup hash eq m pk \<noteq> None) \<and> m_pdrgKeys m' = m_pdrgKeys m
    \<and> hm_PtLookup hash eq m' k = (if b \<and> eq pk k then Some t else hm_PtLookup hash eq m k)"
proof (cases "hm_Lookup hash eq m pk")
  case None
  then show ?thesis using rep ok hm_PtLookup_None [OF ok, of pk] by (simp add: hm_FReplace_def)
next
  case (Some e)
  let ?i = "PpdrgChain hash m pk" and ?n = "m_ulBuckets m"
  have eqv: "equivp eq" using he by (simp add: hash_eq_def)
  have i: "?i < ?n" "length (m_ppdrgchain m) = ?n" using hm_okD(1,2) [OF ok] by simp_all
  obtain chain where ch: "m_ppdrgchain m ! ?i = Some chain" "hm_entries m ?i = chain"
    using Some by (auto simp: hm_Lookup_def hm_entries_def split: option.splits)
  define m'' where "m'' = m\<lparr>m_ppdrgchain := (m_ppdrgchain m)[?i := Some (chain_replace eq chain pk (Some t))]\<rparr>"
  have r: "b" "m' = m''" using rep Some ch by (simp_all add: hm_FReplace_def m''_def)
  have ent: "hm_entries m'' j = (if j = ?i then chain_replace eq chain pk (Some t) else hm_entries m j)" for j
    using i by (auto simp: m''_def hm_entries_def nth_list_update)
  have fields: "m_ulBuckets m'' = ?n" "m_pdrgKeys m'' = m_pdrgKeys m" "m_ulEntries m'' = m_ulEntries m"
    "length (m_ppdrgchain m'') = ?n" "m_pdrgPiFilledBuckets m'' = m_pdrgPiFilledBuckets m"
    "\<And>j. m_ppdrgchain m'' ! j \<noteq> None \<longleftrightarrow> m_ppdrgchain m ! j \<noteq> None"
    using i ch by (auto simp: m''_def nth_list_update)
  have keys: "map fst (hm_entries m'' j) = map fst (hm_entries m j)" for j
    by (simp add: ent chain_replace_keys ch(2) [symmetric])
  note old = ok [unfolded hm_ok_def]
  have "\<forall>j < ?n. \<forall>e \<in> set (hm_entries m'' j). hash (fst e) mod ?n = j \<and> snd e \<noteq> None"
  proof (intro allI impI ballI)
    fix j e assume j: "j < ?n" "e \<in> set (hm_entries m'' j)"
    then obtain e' where "e' \<in> set (hm_entries m j)" "fst e = fst e'" "snd e = Some t \<or> snd e = snd e'"
      using chain_replace_set [of e eq chain pk "Some t"] ch(2) by (auto simp: ent split: if_splits)
    then show "hash (fst e) mod ?n = j \<and> snd e \<noteq> None" using hm_okD(4) [OF ok j(1), of e'] by auto
  qed
  moreover have "\<forall>j < ?n. sorted_wrt (\<lambda>a b. \<not> eq (fst a) (fst b)) (hm_entries m'' j)"
  proof (intro allI impI)
    fix j assume "j < ?n"
    then have "sorted_wrt (\<lambda>a b. \<not> eq a b) (map fst (hm_entries m'' j))" using old by (simp add: keys sorted_wrt_map)
    then show "sorted_wrt (\<lambda>a b. \<not> eq (fst a) (fst b)) (hm_entries m'' j)" by (simp add: sorted_wrt_map)
  qed
  moreover have "fst ` (\<Union>j < ?n. set (hm_entries m'' j)) = fst ` (\<Union>j < ?n. set (hm_entries m j))"
  proof -
    have "fst ` set (hm_entries m'' j) = fst ` set (hm_entries m j)" for j
      using arg_cong [OF keys [of j], of set] by simp
    then show ?thesis by (simp add: image_UN)
  qed
  moreover have "{i. i < ?n \<and> m_ppdrgchain m'' ! i \<noteq> None} = {i. i < ?n \<and> m_ppdrgchain m ! i \<noteq> None}"
    using fields(6) by blast
  ultimately have ok': "hm_ok hash eq m''" using old fields(1-5) unfolding hm_ok_def by simp
  have ch': "PpdrgChain hash m'' k = PpdrgChain hash m k" by (simp add: PpdrgChain_def fields)
  have "PpdrgChain hash m k = ?i" if "eq pk k" using that he by (auto simp: hash_eq_def PpdrgChain_def)
  then have "hm_PtLookup hash eq m'' k = (if eq pk k then Some t else hm_PtLookup hash eq m k)"
    using Some unfolding hm_PtLookup_def hm_Lookup_entries ch' ent
    by (auto simp: chain_replace_lookup [OF eqv] ch(2) split: option.splits)
  then show ?thesis using ok' r fields Some hm_PtLookup_None [OF ok, of pk] by simp
qed

section \<open>Iteration and destruction\<close>

lemma hm_Lookup_own_key:
  assumes "hm_ok hash eq m" "hash_eq hash eq" "k \<in> set (m_pdrgKeys m)"
  shows "\<exists>t. hm_Lookup hash eq m k = Some (k, Some t) \<and> hm_PtLookup hash eq m k = Some t"
proof -
  have eqv: "equivp eq" using assms(2) by (simp add: hash_eq_def)
  then obtain e where e: "hm_Lookup hash eq m k = Some e"
    using hm_Lookup_key [OF assms, of k] equivp_reflp [OF eqv, of k] by auto
  note v = hm_Lookup_value [OF assms(1) e]
  have "fst e = k"
  proof (rule ccontr)
    assume ne: "fst e \<noteq> k"
    obtain i j where ij: "i < length (m_pdrgKeys m)" "m_pdrgKeys m ! i = fst e" "j < length (m_pdrgKeys m)" "m_pdrgKeys m ! j = k"
      using v(3) assms(3) by (auto simp: in_set_conv_nth)
    note d = sorted_wrt_nth_less [OF hm_keys_distinct [OF assms(1)]]
    consider "i < j" | "j < i" using ij ne by (metis linorder_neqE_nat)
    then show False
      using d [of i j] d [of j i] ij v(2) equivp_symp [OF eqv v(2)] by cases simp_all
  qed
  then show ?thesis using e v(1) by (cases e) (auto simp: hm_PtLookup_def)
qed

lemma hm_collect_rest:
  assumes "hm_ok hash eq m" "hash_eq hash eq" "length (m_pdrgKeys m) - i < n"
  shows "hm_collect hash eq m n i = map (\<lambda>k. (Some (Some k), Some (hm_PtLookup hash eq m k))) (drop i (m_pdrgKeys m))"
  using assms(3)
proof (induction n arbitrary: i)
  case (Suc n)
  show ?case
  proof (cases "i < length (m_pdrgKeys m)")
    case True
    then obtain t where t: "hm_Lookup hash eq m (m_pdrgKeys m ! i) = Some (m_pdrgKeys m ! i, Some t)"
      "hm_PtLookup hash eq m (m_pdrgKeys m ! i) = Some t"
      using hm_Lookup_own_key [OF assms(1,2)] by (meson nth_mem)
    have "hm_collect hash eq m n (i + 1)
        = map (\<lambda>k. (Some (Some k), Some (hm_PtLookup hash eq m k))) (drop (i + 1) (m_pdrgKeys m))"
      by (rule Suc.IH) (use Suc.prems True in simp)
    then show ?thesis
      using True t by (simp add: hmi_FAdvance_def hmi_Pk_def hmi_Pt_def hmi_Phme_def Cons_nth_drop_Suc [symmetric])
  qed (simp add: hmi_FAdvance_def)
qed simp

text \<open>The destructor releases every chain once.\<close>

lemma hm_Clear_once:
  assumes "hm_ok hash eq m"
  shows "mset (fst (hm_Clear m)) = filter_mset (\<lambda>c. c \<noteq> None) (mset (m_ppdrgchain m))"
proof -
  let ?n = "m_ulBuckets m" and ?P = "\<lambda>i. m_ppdrgchain m ! i \<noteq> None"
  have "mset (m_pdrgPiFilledBuckets m) = mset (filter ?P [0..<?n])"
    using assms by (intro set_eq_iff_mset_eq_distinct [THEN iffD1]) (auto simp: hm_ok_def)
  then have "mset (fst (hm_Clear m)) = image_mset (\<lambda>i. m_ppdrgchain m ! i) (mset (filter ?P [0..<?n]))"
    by (simp add: hm_Clear_def)
  also have "\<dots> = mset (filter (\<lambda>c. c \<noteq> None) (map (\<lambda>i. m_ppdrgchain m ! i) [0..<?n]))"
    by (simp add: filter_map o_def)
  also have "map (\<lambda>i. m_ppdrgchain m ! i) [0..<?n] = m_ppdrgchain m"
    using hm_okD(2) [OF assms] by (simp add: map_nth flip: hm_okD(2) [OF assms])
  finally show ?thesis by simp
qed

section \<open>Hash sets\<close>

record 't hash_set =
  m_ulChains :: nat
  m_ulElemEntries :: nat
  m_ppdrgelemchain :: "'t list option list"
  m_pdrgElements :: "'t list"
  m_pdrgPiFilledChains :: "nat list"

definition hs_new :: "nat \<Rightarrow> 't hash_set" where
  "hs_new ulSize =
     \<lparr>m_ulChains = ulSize, m_ulElemEntries = 0, m_ppdrgelemchain = replicate ulSize None,
      m_pdrgElements = [], m_pdrgPiFilledChains = []\<rparr>"

fun elem_lookup :: "('t \<Rightarrow> 't \<Rightarrow> bool) \<Rightarrow> 't list \<Rightarrow> 't \<Rightarrow> 't option" where
  "elem_lookup eq [] pt = None"
| "elem_lookup eq (hse # chain) pt = (if eq hse pt then Some hse else elem_lookup eq chain pt)"

definition hs_Lookup :: "('t \<Rightarrow> nat) \<Rightarrow> ('t \<Rightarrow> 't \<Rightarrow> bool) \<Rightarrow> 't hash_set \<Rightarrow> 't \<Rightarrow> 't option" where
  "hs_Lookup hash eq s pt =
     (case m_ppdrgelemchain s ! (hash pt mod m_ulChains s) of
        None \<Rightarrow> None
      | Some chain \<Rightarrow> elem_lookup eq chain pt)"

definition hs_FExists :: "('t \<Rightarrow> nat) \<Rightarrow> ('t \<Rightarrow> 't \<Rightarrow> bool) \<Rightarrow> 't hash_set \<Rightarrow> 't \<Rightarrow> bool" where
  "hs_FExists hash eq s pt =
     (case m_ppdrgelemchain s ! (hash pt mod m_ulChains s) of
        None \<Rightarrow> False
      | Some chain \<Rightarrow> elem_lookup eq chain pt \<noteq> None)"

definition hs_FInsert :: "('t \<Rightarrow> nat) \<Rightarrow> ('t \<Rightarrow> 't \<Rightarrow> bool) \<Rightarrow> 't hash_set \<Rightarrow> 't \<Rightarrow> bool \<times> 't hash_set" where
  "hs_FInsert hash eq s pt =
     (if hs_FExists hash eq s pt then (False, s)
      else
        let i = hash pt mod m_ulChains s;
            s = (case m_ppdrgelemchain s ! i of
                   None \<Rightarrow> s\<lparr>m_ppdrgelemchain := (m_ppdrgelemchain s)[i := Some []],
                             m_pdrgPiFilledChains := m_pdrgPiFilledChains s @ [i]\<rparr>
                 | Some _ \<Rightarrow> s)
        in (True, s\<lparr>m_ppdrgelemchain := (m_ppdrgelemchain s)[i := Some (the (m_ppdrgelemchain s ! i) @ [pt])],
                    m_ulElemEntries := ul_add (m_ulElemEntries s) 1,
                    m_pdrgElements := m_pdrgElements s @ [pt]\<rparr>))"

definition hs_UlEntries :: "'t hash_set \<Rightarrow> nat" where
  "hs_UlEntries s = m_ulElemEntries s"

definition hsi_FAdvance :: "'t hash_set \<Rightarrow> nat \<Rightarrow> bool \<times> nat" where
  "hsi_FAdvance s ulElement =
     (if ulElement < length (m_pdrgElements s) then (True, ulElement + 1) else (False, ulElement))"

definition hsi_Pt :: "('t \<Rightarrow> nat) \<Rightarrow> ('t \<Rightarrow> 't \<Rightarrow> bool) \<Rightarrow> 't hash_set \<Rightarrow> nat \<Rightarrow> 't option option" where
  "hsi_Pt hash eq s ulElement =
     (if ulElement = 0 \<or> length (m_pdrgElements s) < ulElement then None
      else Some (hs_Lookup hash eq s (m_pdrgElements s ! (ulElement - 1))))"

text \<open>A hash set is a hash map from its elements to a value that says nothing.\<close>

definition hs_map :: "'t hash_set \<Rightarrow> ('t, unit) hash_map" where
  "hs_map s =
     \<lparr>m_ulBuckets = m_ulChains s, m_ulEntries = m_ulElemEntries s,
      m_ppdrgchain = map (map_option (map (\<lambda>x. (x, Some ())))) (m_ppdrgelemchain s),
      m_pdrgKeys = m_pdrgElements s, m_pdrgPiFilledBuckets = m_pdrgPiFilledChains s\<rparr>"

lemma hs_map_sel: "m_pdrgKeys (hs_map s) = m_pdrgElements s"
  by (simp add: hs_map_def)

definition hs_ok :: "('t \<Rightarrow> nat) \<Rightarrow> ('t \<Rightarrow> 't \<Rightarrow> bool) \<Rightarrow> 't hash_set \<Rightarrow> bool" where
  "hs_ok hash eq s \<longleftrightarrow> hm_ok hash eq (hs_map s)"

lemma elem_lookup_map: "chain_lookup eq (map (\<lambda>x. (x, Some ())) chain) pt
    = map_option (\<lambda>x. (x, Some ())) (elem_lookup eq chain pt)"
  by (induction chain) auto

lemma hs_okD: "hs_ok hash eq s \<Longrightarrow> hash pt mod m_ulChains s < length (m_ppdrgelemchain s)"
  using hm_okD(1) [of hash eq "hs_map s" pt] hm_okD(2) [of hash eq "hs_map s"] by (simp add: hs_ok_def hs_map_def PpdrgChain_def)

lemma hs_Lookup_map:
  assumes "hs_ok hash eq s"
  shows "hm_Lookup hash eq (hs_map s) pt = map_option (\<lambda>x. (x, Some ())) (hs_Lookup hash eq s pt)"
  using hs_okD [OF assms, of pt]
  by (auto simp: hm_Lookup_def hs_Lookup_def hs_map_def PpdrgChain_def elem_lookup_map split: option.split)

lemma hs_FExists_map:
  assumes "hs_ok hash eq s"
  shows "hs_FExists hash eq s pt \<longleftrightarrow> hm_PtLookup hash eq (hs_map s) pt \<noteq> None"
proof -
  have "hs_FExists hash eq s pt \<longleftrightarrow> hs_Lookup hash eq s pt \<noteq> None"
    by (auto simp: hs_FExists_def hs_Lookup_def split: option.splits)
  then show ?thesis using hs_Lookup_map [OF assms, of pt] by (auto simp: hm_PtLookup_def split: option.splits)
qed

lemma hs_FInsert_map:
  assumes "hs_ok hash eq s"
  shows "hm_FInsert hash eq (hs_map s) pt (Some ()) = map_prod id hs_map (hs_FInsert hash eq s pt)"
proof (cases "hs_FExists hash eq s pt")
  case True
  then show ?thesis using hs_FExists_map [OF assms, of pt] hm_FInsert_present [of hash eq "hs_map s" pt "Some ()"]
    by (simp add: hs_FInsert_def)
next
  case False
  then have "hm_PtLookup hash eq (hs_map s) pt = None" using hs_FExists_map [OF assms, of pt] by blast
  then show ?thesis using False hs_okD [OF assms, of pt]
    by (auto simp: hm_FInsert_def hs_FInsert_def hs_map_def PpdrgChain_def Let_def map_update split: option.splits)
qed

lemma hs_look: "hs_ok hash eq s \<Longrightarrow>
    (if hs_FExists hash eq s k then Some () else None) = hm_PtLookup hash eq (hs_map s) k"
  using hs_FExists_map [of hash eq s k] by (cases "hm_PtLookup hash eq (hs_map s) k") auto

interpretation hs: dictionary eq "\<lambda>s. hash_eq hash eq \<and> hs_ok hash eq s"
    "\<lambda>s k. if hs_FExists hash eq s k then Some () else None" m_pdrgElements
    "\<lambda>s k _. hs_FInsert hash eq s k" for eq hash
proof (unfold_locales, goal_cases)
  case (1 s)
  then show ?case by (simp add: hash_eq_def)
next
  case (2 s k k')
  then show ?case using hm.look_same [of hash eq "hs_map s" k k'] hs_look [of hash eq s] by (simp add: hs_ok_def)
next
  case (3 s k t b s' k')
  have "hm_FInsert hash eq (hs_map s) k (Some ()) = (b, hs_map s')"
    using hs_FInsert_map [of hash eq s k] 3 by simp
  with hm_FInsert_spec [of hash eq "hs_map s" k "()" b "hs_map s'" k'] 3(1)
  have r: "hs_ok hash eq s'" "b = (hm_PtLookup hash eq (hs_map s) k = None)"
    "m_pdrgElements s' = m_pdrgElements s @ (if b then [k] else [])"
    "hm_PtLookup hash eq (hs_map s') k' = (if b \<and> eq k k' then Some () else hm_PtLookup hash eq (hs_map s) k')"
    by (simp_all add: hs_ok_def hs_map_sel)
  then show ?case unfolding hs_look [OF r(1)] using 3(1) hs_look [of hash eq s] by simp
next
  case (4 s k)
  then show ?case using hm.keys [of hash eq "hs_map s" k] hs_look [of hash eq s k] by (simp add: hs_ok_def hs_map_sel)
next
  case (5 s)
  then show ?case using hm.keys_distinct [of hash eq "hs_map s"] by (simp add: hs_ok_def hs_map_sel)
qed

lemma hs_new_ok:
  assumes "0 < n"
  shows "hs_ok hash eq (hs_new n)" "\<not> hs_FExists hash eq (hs_new n) k"
proof -
  have m: "hs_map (hs_new n) = hm_new n" by (simp add: hs_map_def hs_new_def hm_new_def)
  show ok: "hs_ok hash eq (hs_new n)" using hm_new_ok(1) [OF assms] by (simp add: hs_ok_def m)
  show "\<not> hs_FExists hash eq (hs_new n) k"
    using hs_FExists_map [OF ok, of k] by (simp add: m hm_new_ok(2) [OF assms])
qed

lemma hsi_Pt_nth:
  assumes "hs_ok hash eq s" "hash_eq hash eq" "i < length (m_pdrgElements s)"
  shows "hsi_FAdvance s i = (True, i + 1)" "hsi_Pt hash eq s (i + 1) = Some (Some (m_pdrgElements s ! i))"
proof -
  have "m_pdrgElements s ! i \<in> set (m_pdrgKeys (hs_map s))" using assms(3) by (simp add: hs_map_def)
  then have "hs_Lookup hash eq s (m_pdrgElements s ! i) = Some (m_pdrgElements s ! i)"
    using hm_Lookup_own_key [OF assms(1) [unfolded hs_ok_def] assms(2)] hs_Lookup_map [OF assms(1)] by force
  then show "hsi_FAdvance s i = (True, i + 1)" "hsi_Pt hash eq s (i + 1) = Some (Some (m_pdrgElements s ! i))"
    using assms(3) by (simp_all add: hsi_FAdvance_def hsi_Pt_def)
qed

section \<open>Properties\<close>

text \<open>C32 A hash map behaves as a finite map on keys up to their equality: an insertion succeeds exactly if
  the key was not there, a replacement exactly if it was, and both change the value of this key only;
  iterating visits the keys in the order of their insertion, each once, with their values.\<close>
theorem hm_is_a_map:
  assumes "hash_eq hash eq" "hm_ok hash eq m"
  shows "(case hm_FInsert hash eq m pk (Some t) of (b, m') \<Rightarrow>
        hm_ok hash eq m' \<and> b = (hm_PtLookup hash eq m pk = None) \<and> m_pdrgKeys m' = m_pdrgKeys m @ (if b then [pk] else [])
      \<and> hm_PtLookup hash eq m' k = (if b \<and> eq pk k then Some t else hm_PtLookup hash eq m k))
    \<and> (case hm_FReplace hash eq m pk (Some t) of (b, m') \<Rightarrow>
        hm_ok hash eq m' \<and> b = (hm_PtLookup hash eq m pk \<noteq> None) \<and> m_pdrgKeys m' = m_pdrgKeys m
      \<and> hm_PtLookup hash eq m' k = (if b \<and> eq pk k then Some t else hm_PtLookup hash eq m k))
    \<and> hm_collect hash eq m (Suc (length (m_pdrgKeys m))) 0
        = map (\<lambda>k. (Some (Some k), Some (hm_PtLookup hash eq m k))) (m_pdrgKeys m)
    \<and> mset (fst (hm_Clear m)) = filter_mset (\<lambda>c. c \<noteq> None) (mset (m_ppdrgchain m))"
  using hm_FInsert_spec [OF assms(2,1), of pk t] hm_FReplace_spec [OF assms(2,1), of pk t]
    hm_collect_rest [OF assms(2,1), of 0 "Suc (length (m_pdrgKeys m))"] hm_Clear_once [OF assms(2)]
  by (simp add: case_prod_unfold prod_eq_iff)

lemma mod_hash_eq: "hash_eq (\<lambda>k :: nat. k) (=)"
  by (simp add: hash_eq_def identity_equivp)

theorem hm_is_a_map_witness:
  "hm_PtLookup (\<lambda>k. k) (=) (snd (hm_FInsert (\<lambda>k. k) (=) (hm_new 8) (3 :: nat) (Some True))) 3 = Some True"
  using hm_is_a_map [of "\<lambda>k. k" "(=)" "hm_new 8" 3 3 True]
  by (simp add: case_prod_unfold mod_hash_eq hm_new_ok)

text \<open>A key inserted with a null value counts as absent: it can be inserted again, the map then has two
  entries of this key, and a lookup still finds nothing.\<close>
theorem hm_null_value_inserted_twice:
  "let (b, m) = hm_FInsert (\<lambda>k. k) (=) (hm_new 1) (3 :: nat) None;
       (b', m') = hm_FInsert (\<lambda>k. k) (=) m 3 (Some (7 :: nat));
       (b'', m'') = hm_FInsert (\<lambda>k. k) (=) m' 3 (Some 8)
   in b \<and> b' \<and> b'' \<and> hm_PtLookup (\<lambda>k. k) (=) m'' 3 = None \<and> m_pdrgKeys m'' = [3, 3, 3] \<and> hm_UlEntries m'' = 3"
  by (simp add: hm_FInsert_def hm_PtLookup_def hm_Lookup_def PpdrgChain_def hm_new_def hm_UlEntries_def
      ul_add_def Let_def)

end
