(* ===== verification/TreeMap.thy ===== *)
theory TreeMap
  imports BitVector HashMap
begin

text \<open>
  Counting and unranking of the trees of a graph of alternatives
  (\<^verbatim>\<open>libgpopt/include/gpopt/search/CTreeMap.h\<close>): the structure from which the plans of the
  memo are enumerated.  The nodes are kept in a store, and a pointer to a node is its position;
  the universal root is at position 0.
\<close>

section \<open>Checked arithmetic\<close>

definition ULLONG_MAX :: nat where
  "ULLONG_MAX = 18446744073709551615"

datatype tm_error = ExmiOverflow | ExmiOutOfStack | Fault

definition UllAdd :: "nat \<Rightarrow> nat \<Rightarrow> tm_error + nat" where
  "UllAdd ullFst ullSnd =
     (if ullFst > ULLONG_MAX - ullSnd then Inl ExmiOverflow else Inr ((ullFst + ullSnd) mod 2 ^ 64))"

definition UllMultiply :: "nat \<Rightarrow> nat \<Rightarrow> tm_error + nat" where
  "UllMultiply ullFst ullSnd =
     (if 0 < ullSnd \<and> ullFst > ULLONG_MAX div ullSnd then Inl ExmiOverflow
      else Inr ((ullFst * ullSnd) mod 2 ^ 64))"

lemma UllAdd_exact:
  "a \<le> ULLONG_MAX \<Longrightarrow> b \<le> ULLONG_MAX \<Longrightarrow>
   UllAdd a b = (if a + b \<le> ULLONG_MAX then Inr (a + b) else Inl ExmiOverflow)"
  by (auto simp: UllAdd_def ULLONG_MAX_def)

lemma UllMultiply_exact:
  "UllMultiply a b = (if a * b \<le> ULLONG_MAX then Inr (a * b) else Inl ExmiOverflow)"
proof (cases "0 < b")
  case True
  then have "a * b \<le> ULLONG_MAX \<longleftrightarrow> a \<le> ULLONG_MAX div b" by (simp add: less_eq_div_iff_mult_less_eq)
  then show ?thesis using True by (auto simp: UllMultiply_def ULLONG_MAX_def)
qed (simp add: UllMultiply_def)

section \<open>Nodes\<close>

datatype ENodeState = EnsUncounted | EnsCounting | EnsCounted

record 't tree_node =
  m_ulNode :: nat
  m_pt :: "'t option"
  m_pdrgdrgptn :: "nat list list"
  m_ullCount :: nat
  m_ulIncoming :: nat
  m_ens :: ENodeState

type_synonym 't store = "'t tree_node list"

definition CTreeNode :: "nat \<Rightarrow> 't option \<Rightarrow> 't tree_node" where
  "CTreeNode ul pt =
     \<lparr>m_ulNode = ul, m_pt = pt, m_pdrgdrgptn = [], m_ullCount = ULLONG_MAX, m_ulIncoming = 0, m_ens = EnsUncounted\<rparr>"

definition FCounted :: "'t tree_node \<Rightarrow> bool" where
  "FCounted ptn = (m_ens ptn = EnsCounted)"

text \<open>Adding an alternative for the child at a position: the arrays up to it are created first.\<close>

definition tn_Add :: "nat \<Rightarrow> nat \<Rightarrow> nat \<Rightarrow> 't store \<Rightarrow> 't store" where
  "tn_Add this ulPos ptn st =
     (let ulLength = length (m_pdrgdrgptn (st ! this));
          st = st[this := (st ! this)\<lparr>m_pdrgdrgptn :=
                 m_pdrgdrgptn (st ! this) @ replicate (Suc ulPos - ulLength) []\<rparr>];
          st = st[ptn := (st ! ptn)\<lparr>m_ulIncoming := ul_add (m_ulIncoming (st ! ptn)) 1\<rparr>]
      in st[this := (st ! this)\<lparr>m_pdrgdrgptn :=
            (m_pdrgdrgptn (st ! this))[ulPos := m_pdrgdrgptn (st ! this) ! ulPos @ [ptn]]\<rparr>])"

text \<open>The number of trees for a child: the sum over its alternatives; \<open>cnt\<close> counts a node.\<close>

fun alternatives_loop ::
    "(nat \<Rightarrow> 't store \<Rightarrow> (tm_error + nat) \<times> 't store) \<Rightarrow> nat list \<Rightarrow> nat \<Rightarrow> 't store \<Rightarrow> (tm_error + nat) \<times> 't store" where
  "alternatives_loop cnt [] ull st = (Inr ull, st)"
| "alternatives_loop cnt (ptn # ptns) ull st =
     (case cnt ptn st of
        (Inl e, st) \<Rightarrow> (Inl e, st)
      | (Inr ullCount, st) \<Rightarrow>
          (case UllAdd ull ullCount of
             Inl e \<Rightarrow> (Inl e, st)
           | Inr ull \<Rightarrow> alternatives_loop cnt ptns ull st))"

text \<open>The number of trees of a node: the product over its children, zero at the first child without
  alternatives.\<close>

fun children_loop ::
    "(nat \<Rightarrow> 't store \<Rightarrow> (tm_error + nat) \<times> 't store) \<Rightarrow> nat list list \<Rightarrow> nat \<Rightarrow> 't store \<Rightarrow> (tm_error + nat) \<times> 't store" where
  "children_loop cnt [] ullCount st = (Inr ullCount, st)"
| "children_loop cnt (ptns # rest) ullCount st =
     (case alternatives_loop cnt ptns 0 st of
        (Inl e, st) \<Rightarrow> (Inl e, st)
      | (Inr ull, st) \<Rightarrow>
          if ull = 0 then (Inr 0, st)
          else (case UllMultiply ullCount ull of
                  Inl e \<Rightarrow> (Inl e, st)
                | Inr ullCount \<Rightarrow> children_loop cnt rest ullCount st))"

text \<open>The first argument is the stack that is left, in nested calls: \<open>GPOS_CHECK_STACK_SIZE\<close> raises an
  exception when it is used up.\<close>

fun tn_UllCount :: "nat \<Rightarrow> nat \<Rightarrow> 't store \<Rightarrow> (tm_error + nat) \<times> 't store" where
  "tn_UllCount 0 this st = (Inl ExmiOutOfStack, st)"
| "tn_UllCount (Suc stack) this st =
     (if FCounted (st ! this) then (Inr (m_ullCount (st ! this)), st)
      else
        (case children_loop (tn_UllCount stack) (m_pdrgdrgptn (st ! this)) 1
                (st[this := (st ! this)\<lparr>m_ens := EnsCounting\<rparr>]) of
           (Inl e, st) \<Rightarrow> (Inl e, st)
         | (Inr ullCount, st) \<Rightarrow>
             (Inr ullCount, st[this := (st ! this)\<lparr>m_ullCount := ullCount, m_ens := EnsCounted\<rparr>])))"

text \<open>The alternative that a rank falls into, with the rank inside it.\<close>

fun rank_loop ::
    "(nat \<Rightarrow> 't store \<Rightarrow> (tm_error + nat) \<times> 't store) \<Rightarrow> nat list \<Rightarrow> nat option \<Rightarrow> nat \<Rightarrow> 't store
      \<Rightarrow> (tm_error + nat option \<times> nat) \<times> 't store" where
  "rank_loop cnt [] ptn ullRank st = (Inr (ptn, ullRank), st)"
| "rank_loop cnt (p # ptns) ptn ullRank st =
     (case cnt p st of
        (Inl e, st) \<Rightarrow> (Inl e, st)
      | (Inr ullLocalCount, st) \<Rightarrow>
          if ullRank < ullLocalCount then (Inr (Some p, ullRank), st)
          else rank_loop cnt ptns (Some p) (ullRank - ullLocalCount) st)"

text \<open>A rank of a node is split over its children, the first one varying fastest; \<open>unrank\<close> unranks a
  node.  A child without trees divides by zero, and a child without alternatives is a null pointer.\<close>

definition child_unrank ::
    "(nat \<Rightarrow> 't store \<Rightarrow> (tm_error + nat) \<times> 't store) \<Rightarrow> (nat \<Rightarrow> nat \<Rightarrow> 't store \<Rightarrow> (tm_error + 'r) \<times> 't store)
      \<Rightarrow> nat list \<Rightarrow> nat \<Rightarrow> 't store \<Rightarrow> (tm_error + 'r) \<times> 't store" where
  "child_unrank cnt unrank ptns ullRank st =
     (case rank_loop cnt ptns None ullRank st of
        (Inl e, st) \<Rightarrow> (Inl e, st)
      | (Inr (None, _), st) \<Rightarrow> (Inl Fault, st)
      | (Inr (Some ptn, ullRank), st) \<Rightarrow> unrank ptn ullRank st)"

fun unrank_loop ::
    "(nat \<Rightarrow> 't store \<Rightarrow> (tm_error + nat) \<times> 't store) \<Rightarrow> (nat \<Rightarrow> nat \<Rightarrow> 't store \<Rightarrow> (tm_error + 'r) \<times> 't store)
      \<Rightarrow> nat list list \<Rightarrow> nat \<Rightarrow> 'r list \<Rightarrow> 't store \<Rightarrow> (tm_error + 'r list) \<times> 't store" where
  "unrank_loop cnt unrank [] ullRankRem pdrg st = (Inr pdrg, st)"
| "unrank_loop cnt unrank (ptns # rest) ullRankRem pdrg st =
     (case alternatives_loop cnt ptns 0 st of
        (Inl e, st) \<Rightarrow> (Inl e, st)
      | (Inr ullLocalCount, st) \<Rightarrow>
          if ullLocalCount = 0 then (Inl Fault, st)
          else
            (case child_unrank cnt unrank ptns (ullRankRem mod ullLocalCount) st of
               (Inl e, st) \<Rightarrow> (Inl e, st)
             | (Inr r, st) \<Rightarrow> unrank_loop cnt unrank rest (ullRankRem div ullLocalCount) (pdrg @ [r]) st))"

text \<open>\<open>prfn\<close> builds a result from an element, the results of its children and the context.\<close>

fun tn_PrUnrank ::
    "nat \<Rightarrow> ('u \<Rightarrow> 't option \<Rightarrow> 'r list \<Rightarrow> 'r) \<Rightarrow> 'u \<Rightarrow> nat \<Rightarrow> nat \<Rightarrow> 't store \<Rightarrow> (tm_error + 'r) \<times> 't store" where
  "tn_PrUnrank 0 prfn pU this ullRank st = (Inl ExmiOutOfStack, st)"
| "tn_PrUnrank (Suc stack) prfn pU this ullRank st =
     (let ch = m_pdrgdrgptn (st ! this)
      in if m_ulNode (st ! this) = 0
         then (if ch = [] then (Inl Fault, st)
               else child_unrank (tn_UllCount stack) (tn_PrUnrank stack prfn pU) (ch ! 0) ullRank st)
         else
           (case unrank_loop (tn_UllCount stack) (tn_PrUnrank stack prfn pU) ch ullRank [] st of
              (Inl e, st) \<Rightarrow> (Inl e, st)
            | (Inr pdrg, st) \<Rightarrow> (Inr (prfn pU (m_pt (st ! this)) pdrg), st)))"

section \<open>Tree maps\<close>

record 't tree_map =
  m_store :: "'t store"
  m_ulCountNodes :: nat
  m_ulCountLinks :: nat
  m_ptmap :: "('t, nat) hash_map"
  m_plinkmap :: "('t \<times> nat \<times> 't, bool) hash_map"

definition STreeLink_UlHash :: "('t \<Rightarrow> ulong_w) \<Rightarrow> 't \<times> nat \<times> 't \<Rightarrow> ulong_w" where
  "STreeLink_UlHash pfnHash ptlink =
     (case ptlink of (ptParent, ulChildIndex, ptChild) \<Rightarrow>
        UlCombineHashes (pfnHash ptParent)
          (UlCombineHashes (pfnHash ptChild) (UlHashByteArray (bytes_of_ulong (of_nat ulChildIndex)))))"

definition STreeLink_FEqual :: "('t \<Rightarrow> 't \<Rightarrow> bool) \<Rightarrow> 't \<times> nat \<times> 't \<Rightarrow> 't \<times> nat \<times> 't \<Rightarrow> bool" where
  "STreeLink_FEqual pfnEq ptlink1 ptlink2 =
     (case (ptlink1, ptlink2) of ((p1, i1, c1), (p2, i2, c2)) \<Rightarrow> pfnEq p1 p2 \<and> pfnEq c1 c2 \<and> i1 = i2)"

definition CTreeMap_new :: "'t tree_map" where
  "CTreeMap_new =
     \<lparr>m_store = [CTreeNode 0 None], m_ulCountNodes = 0, m_ulCountLinks = 0,
      m_ptmap = hm_new 128, m_plinkmap = hm_new 128\<rparr>"

definition Ptn :: "('t \<Rightarrow> ulong_w) \<Rightarrow> ('t \<Rightarrow> 't \<Rightarrow> bool) \<Rightarrow> 't tree_map \<Rightarrow> 't \<Rightarrow> nat \<times> 't tree_map" where
  "Ptn pfnHash pfnEq tm pt =
     (case hm_PtLookup (\<lambda>k. unat (pfnHash k)) pfnEq (m_ptmap tm) pt of
        Some ptn \<Rightarrow> (ptn, tm)
      | None \<Rightarrow>
          let ptn = length (m_store tm); ulCountNodes = ul_add (m_ulCountNodes tm) 1
          in (ptn, tm\<lparr>m_store := m_store tm @ [CTreeNode ulCountNodes (Some pt)], m_ulCountNodes := ulCountNodes,
                      m_ptmap := snd (hm_FInsert (\<lambda>k. unat (pfnHash k)) pfnEq (m_ptmap tm) pt (Some ptn))\<rparr>))"

definition tm_Insert :: "('t \<Rightarrow> ulong_w) \<Rightarrow> ('t \<Rightarrow> 't \<Rightarrow> bool) \<Rightarrow> 't tree_map \<Rightarrow> 't \<Rightarrow> nat \<Rightarrow> 't \<Rightarrow> 't tree_map" where
  "tm_Insert pfnHash pfnEq tm ptParent ulPos ptChild =
     (let ptlink = (ptParent, ulPos, ptChild);
          hash = (\<lambda>l. unat (STreeLink_UlHash pfnHash l)); eq = STreeLink_FEqual pfnEq
      in if hm_PtLookup hash eq (m_plinkmap tm) ptlink \<noteq> None then tm
         else
           let (ptnParent, tm) = Ptn pfnHash pfnEq tm ptParent;
               (ptnChild, tm) = Ptn pfnHash pfnEq tm ptChild
           in tm\<lparr>m_store := tn_Add ptnParent ulPos ptnChild (m_store tm),
                 m_ulCountLinks := ul_add (m_ulCountLinks tm) 1,
                 m_plinkmap := snd (hm_FInsert hash eq (m_plinkmap tm) ptlink (Some True))\<rparr>)"

definition tm_InsertRoot :: "('t \<Rightarrow> ulong_w) \<Rightarrow> ('t \<Rightarrow> 't \<Rightarrow> bool) \<Rightarrow> 't tree_map \<Rightarrow> 't \<Rightarrow> 't tree_map" where
  "tm_InsertRoot pfnHash pfnEq tm pt =
     (let (ptn, tm) = Ptn pfnHash pfnEq tm pt in tm\<lparr>m_store := tn_Add 0 0 ptn (m_store tm)\<rparr>)"

text \<open>The loop that adds the nodes without incoming edges to the root, over the iterator of the map;
  the result has the number of nodes it passed.\<close>

fun hook_loop :: "('t \<Rightarrow> nat) \<Rightarrow> ('t \<Rightarrow> 't \<Rightarrow> bool) \<Rightarrow> ('t, nat) hash_map \<Rightarrow> nat \<Rightarrow> nat \<Rightarrow> nat \<Rightarrow> 't store \<Rightarrow> nat \<times> 't store" where
  "hook_loop hash eq m 0 mi ulNodes st = (ulNodes, st)"
| "hook_loop hash eq m (Suc n) mi ulNodes st =
     (let (fMore, mi') = hmi_FAdvance m mi
      in if \<not> fMore then (ulNodes, st)
         else
           let ptn = the (the (hmi_Pt hash eq m mi'));
               st = (if m_ulIncoming (st ! ptn) = 0 then tn_Add 0 0 ptn st else st)
           in hook_loop hash eq m n mi' (ul_add ulNodes 1) st)"

definition tm_UllCount :: "nat \<Rightarrow> ('t \<Rightarrow> ulong_w) \<Rightarrow> ('t \<Rightarrow> 't \<Rightarrow> bool) \<Rightarrow> 't tree_map \<Rightarrow> (tm_error + nat) \<times> 't tree_map" where
  "tm_UllCount stack pfnHash pfnEq tm =
     (let m = m_ptmap tm;
          (ulNodes, st) = hook_loop (\<lambda>k. unat (pfnHash k)) pfnEq m (Suc (length (m_pdrgKeys m))) 0 0 (m_store tm);
          tm = tm\<lparr>m_store := st\<rparr>
      in if ulNodes = 0 then (Inr 0, tm)
         else (case tn_UllCount stack 0 st of (r, st) \<Rightarrow> (r, tm\<lparr>m_store := st\<rparr>)))"

definition tm_PrUnrank ::
    "nat \<Rightarrow> ('u \<Rightarrow> 't option \<Rightarrow> 'r list \<Rightarrow> 'r) \<Rightarrow> 'u \<Rightarrow> 't tree_map \<Rightarrow> nat \<Rightarrow> (tm_error + 'r) \<times> 't tree_map" where
  "tm_PrUnrank stack prfn pU tm ullRank =
     (case tn_PrUnrank stack prfn pU 0 ullRank (m_store tm) of (r, st) \<Rightarrow> (r, tm\<lparr>m_store := st\<rparr>))"

definition tm_UlNodes :: "'t tree_map \<Rightarrow> nat" where
  "tm_UlNodes tm = m_ulCountNodes tm"

definition tm_UlLinks :: "'t tree_map \<Rightarrow> nat" where
  "tm_UlLinks tm = m_ulCountLinks tm"

section \<open>The trees of a graph\<close>

datatype tree = Tree (root: nat) (subtrees: "tree list")

text \<open>All choices of one element per list, the first list varying fastest.\<close>

fun combos :: "'a list list \<Rightarrow> 'a list list" where
  "combos [] = [[]]"
| "combos (xs # xss) = concat (map (\<lambda>ys. map (\<lambda>x. x # ys) xs) (combos xss))"

type_synonym graph = "nat list list list"

fun trees :: "nat \<Rightarrow> graph \<Rightarrow> nat \<Rightarrow> tree list" where
  "trees 0 g p = []"
| "trees (Suc d) g p = map (Tree p) (combos (map (\<lambda>ptns. concat (map (trees d g) ptns)) (g ! p)))"

text \<open>A graph without cycles: \<open>h\<close> decreases along the edges.\<close>

definition graph_ok :: "graph \<Rightarrow> (nat \<Rightarrow> nat) \<Rightarrow> bool" where
  "graph_ok g h \<longleftrightarrow> (\<forall>p < length g. \<forall>ptns \<in> set (g ! p). \<forall>q \<in> set ptns. q < length g \<and> h q < h p)"

definition all_trees :: "graph \<Rightarrow> (nat \<Rightarrow> nat) \<Rightarrow> nat \<Rightarrow> tree list" where
  "all_trees g h p = trees (Suc (h p)) g p"

definition child_trees :: "graph \<Rightarrow> (nat \<Rightarrow> nat) \<Rightarrow> nat list \<Rightarrow> tree list" where
  "child_trees g h ptns = concat (map (all_trees g h) ptns)"

lemma graph_okD: "graph_ok g h \<Longrightarrow> p < length g \<Longrightarrow> ptns \<in> set (g ! p) \<Longrightarrow> q \<in> set ptns \<Longrightarrow> q < length g \<and> h q < h p"
  by (simp add: graph_ok_def)

lemma trees_stable:
  assumes "graph_ok g h"
  shows "p < length g \<Longrightarrow> h p < d \<Longrightarrow> h p < d' \<Longrightarrow> trees d g p = trees d' g p"
proof (induction d arbitrary: p d')
  case (Suc d)
  then obtain e where e: "d' = Suc e" by (cases d') auto
  have "concat (map (trees d g) ptns) = concat (map (trees e g) ptns)" if "ptns \<in> set (g ! p)" for ptns
    using Suc.IH [of _ e] Suc.prems graph_okD [OF assms Suc.prems(1) that]
    by (intro arg_cong [of _ _ concat] map_cong refl) (simp add: e, fastforce)
  then have "map (\<lambda>ptns. concat (map (trees d g) ptns)) (g ! p) = map (\<lambda>ptns. concat (map (trees e g) ptns)) (g ! p)"
    by simp
  then show ?case by (simp only: e trees.simps)
qed simp

lemma all_trees_rec:
  assumes "graph_ok g h" "p < length g"
  shows "all_trees g h p = map (Tree p) (combos (map (child_trees g h) (g ! p)))"
proof -
  have "concat (map (trees (h p) g) ptns) = child_trees g h ptns" if "ptns \<in> set (g ! p)" for ptns
    using trees_stable [OF assms(1), of _ "h p" "Suc (h _)"] graph_okD [OF assms that]
    unfolding child_trees_def all_trees_def
    by (intro arg_cong [of _ _ concat] map_cong refl) (simp del: trees.simps)
  then have "map (\<lambda>ptns. concat (map (trees (h p) g) ptns)) (g ! p) = map (child_trees g h) (g ! p)" by simp
  then show ?thesis by (simp only: all_trees_def trees.simps)
qed

text \<open>Choices: their number, their order, their elements.\<close>

lemma length_combos: "length (combos xss) = prod_list (map length xss)"
proof (induction xss)
  case (Cons xs xss)
  have "length (concat (map (\<lambda>ys. map (\<lambda>x. x # ys) xs) yss)) = length xs * length yss" for yss
    by (induction yss) (simp_all add: algebra_simps)
  then show ?case using Cons by simp
qed simp

lemma nth_concat_const:
  "\<forall>ys \<in> set yss. length (f ys) = n \<Longrightarrow> 0 < n \<Longrightarrow> r < n * length yss \<Longrightarrow>
   concat (map f yss) ! r = f (yss ! (r div n)) ! (r mod n)"
proof (induction yss arbitrary: r)
  case (Cons ys yss)
  show ?case
  proof (cases "r < n")
    case False
    then have "concat (map f (ys # yss)) ! r = concat (map f yss) ! (r - n)"
      using Cons.prems(1) by (simp add: nth_append)
    also have "\<dots> = f (yss ! ((r - n) div n)) ! ((r - n) mod n)"
      using Cons False by (intro Cons.IH) (auto simp: algebra_simps)
    also have "(r - n) div n = r div n - 1" "(r - n) mod n = r mod n"
      using False Cons.prems(2) by (simp_all add: le_div_geq le_mod_geq)
    moreover have "0 < r div n" using False Cons.prems(2) by (simp add: div_greater_zero_iff)
    ultimately show ?thesis by (cases "r div n") simp_all
  qed (use Cons.prems in \<open>simp add: nth_append\<close>)
qed simp

lemma combos_nth:
  assumes "r < length (combos (xs # xss))"
  shows "combos (xs # xss) ! r = xs ! (r mod length xs) # combos xss ! (r div length xs)"
    and "r mod length xs < length xs" "r div length xs < length (combos xss)"
proof -
  have r: "r < length xs * length (combos xss)" using assms by (simp add: length_combos del: combos.simps)
  then have xs: "0 < length xs" by (cases "length xs") auto
  then show m: "r mod length xs < length xs" by simp
  show "r div length xs < length (combos xss)" using r xs by (simp add: less_mult_imp_div_less mult.commute)
  have "combos (xs # xss) ! r = map (\<lambda>x. x # combos xss ! (r div length xs)) xs ! (r mod length xs)"
    using nth_concat_const [of "combos xss" "\<lambda>ys. map (\<lambda>x. x # ys) xs" "length xs" r] xs r by simp
  then show "combos (xs # xss) ! r = xs ! (r mod length xs) # combos xss ! (r div length xs)" using m by simp
qed

lemma set_combos: "set (combos xss) = {ys. list_all2 (\<lambda>y xs. y \<in> set xs) ys xss}"
proof (induction xss)
  case (Cons xs xss)
  have "zs \<in> set (combos (xs # xss)) \<longleftrightarrow> list_all2 (\<lambda>y xs. y \<in> set xs) zs (xs # xss)" for zs
    using Cons by (cases zs) auto
  then show ?case by blast
qed simp

lemma distinct_combos: "\<forall>xs \<in> set xss. distinct xs \<Longrightarrow> distinct (combos xss)"
proof (induction xss)
  case (Cons xs xss)
  then have d: "distinct (combos xss)" "distinct xs" by simp_all
  have "distinct (concat (map (\<lambda>ys. map (\<lambda>x. x # ys) xs) yss))" if "distinct yss" for yss
    using that by (induction yss) (use d(2) in \<open>auto simp: distinct_map inj_on_def\<close>)
  then show ?case using d(1) by simp
qed simp

text \<open>The trees that follow the edges of the graph.\<close>

inductive tree_in :: "graph \<Rightarrow> tree \<Rightarrow> bool" for g where
  tree_in: "list_all2 (\<lambda>t ptns. root t \<in> set ptns \<and> tree_in g t) ts (g ! p) \<Longrightarrow> tree_in g (Tree p ts)"
monos list_all2_mono

inductive_simps tree_in_simps: "tree_in g (Tree p ts)"

lemma all_trees_root:
  assumes "graph_ok g h" "p < length g" "t \<in> set (all_trees g h p)"
  shows "root t = p"
  using assms(3) by (auto simp: all_trees_rec [OF assms(1,2)])

lemma set_all_trees:
  assumes g: "graph_ok g h"
  shows "p < length g \<Longrightarrow> t \<in> set (all_trees g h p) \<longleftrightarrow> root t = p \<and> tree_in g t"
proof (induction "h p" arbitrary: p t rule: less_induct)
  case less
  have ch: "t \<in> set (child_trees g h ptns) \<longleftrightarrow> root t \<in> set ptns \<and> tree_in g t"
    if "ptns \<in> set (g ! p)" for t ptns
    using less.hyps graph_okD [OF g less.prems that] by (auto simp: child_trees_def)
  have "ts \<in> set (combos (map (child_trees g h) (g ! p)))
      \<longleftrightarrow> list_all2 (\<lambda>t ptns. root t \<in> set ptns \<and> tree_in g t) ts (g ! p)" for ts
    unfolding set_combos mem_Collect_eq list_all2_map2
    by (rule list.rel_cong [OF refl refl]) (use ch in blast)
  then show ?case by (cases t) (auto simp: all_trees_rec [OF g less.prems] tree_in_simps)
qed

lemma distinct_concat_map:
  "distinct ps \<Longrightarrow> \<forall>p \<in> set ps. distinct (f p) \<Longrightarrow>
   \<forall>p \<in> set ps. \<forall>q \<in> set ps. p \<noteq> q \<longrightarrow> set (f p) \<inter> set (f q) = {} \<Longrightarrow> distinct (concat (map f ps))"
  by (induction ps) auto

lemma distinct_all_trees:
  assumes g: "graph_ok g h" and d: "\<forall>p < length g. \<forall>ptns \<in> set (g ! p). distinct ptns"
  shows "p < length g \<Longrightarrow> distinct (all_trees g h p)"
proof (induction "h p" arbitrary: p rule: less_induct)
  case less
  have "distinct (child_trees g h ptns)" if "ptns \<in> set (g ! p)" for ptns
  proof -
    have q: "q < length g" "distinct (all_trees g h q)" if "q \<in> set ptns" for q
      using that less.hyps graph_okD [OF g less.prems \<open>ptns \<in> set (g ! p)\<close> that] by simp_all
    have "set (all_trees g h q) \<inter> set (all_trees g h q') = {}" if "q \<in> set ptns" "q' \<in> set ptns" "q \<noteq> q'" for q q'
      using all_trees_root [OF g q(1) [OF that(1)]] all_trees_root [OF g q(1) [OF that(2)]] that(3) by blast
    moreover have "distinct ptns" using d less.prems that by blast
    ultimately show ?thesis
      unfolding child_trees_def by (intro distinct_concat_map) (use q(2) in auto)
  qed
  then show ?case
    by (auto simp: all_trees_rec [OF g less.prems] distinct_map inj_on_def intro!: distinct_combos)
qed

section \<open>Counting\<close>

definition shape :: "'t store \<Rightarrow> graph" where
  "shape st = map m_pdrgdrgptn st"

text \<open>What counting does not change.\<close>

definition static :: "'t store \<Rightarrow> (nat list list \<times> nat \<times> 't option) list" where
  "static st = map (\<lambda>n. (m_pdrgdrgptn n, m_ulNode n, m_pt n)) st"

lemma static_shape: "static st = static st' \<Longrightarrow> shape st = shape st'"
proof -
  assume "static st = static st'"
  from arg_cong [OF this, of "map fst"] show ?thesis by (simp add: static_def shape_def o_def)
qed

lemma static_nth:
  assumes "static st = static st'"
  shows "length st = length st'" "p < length st \<Longrightarrow> m_pdrgdrgptn (st ! p) = m_pdrgdrgptn (st' ! p)"
    "p < length st \<Longrightarrow> m_ulNode (st ! p) = m_ulNode (st' ! p)" "p < length st \<Longrightarrow> m_pt (st ! p) = m_pt (st' ! p)"
proof -
  show l: "length st = length st'" using arg_cong [OF assms, of length] by (simp add: static_def)
  assume "p < length st"
  then show "m_pdrgdrgptn (st ! p) = m_pdrgdrgptn (st' ! p)" "m_ulNode (st ! p) = m_ulNode (st' ! p)"
    "m_pt (st ! p) = m_pt (st' ! p)"
    using arg_cong [OF assms, of "\<lambda>xs. xs ! p"] l by (simp_all add: static_def)
qed

lemma static_update:
  "m_pdrgdrgptn n = m_pdrgdrgptn (st ! p) \<Longrightarrow> m_ulNode n = m_ulNode (st ! p) \<Longrightarrow> m_pt n = m_pt (st ! p) \<Longrightarrow>
   static (st[p := n]) = static st"
  by (cases "p < length st") (auto simp: static_def map_update list_update_beyond intro!: nth_equalityI, auto simp: nth_list_update)

abbreviation n_trees :: "graph \<Rightarrow> (nat \<Rightarrow> nat) \<Rightarrow> nat \<Rightarrow> nat" where
  "n_trees g h p \<equiv> length (all_trees g h p)"

abbreviation n_child :: "graph \<Rightarrow> (nat \<Rightarrow> nat) \<Rightarrow> nat list \<Rightarrow> nat" where
  "n_child g h ptns \<equiv> length (child_trees g h ptns)"

text \<open>No sum over alternatives and no product over the first children passes \<open>ULLONG_MAX\<close>.\<close>

definition small :: "graph \<Rightarrow> (nat \<Rightarrow> nat) \<Rightarrow> bool" where
  "small g h \<longleftrightarrow> (\<forall>p < length g. (\<forall>ptns \<in> set (g ! p). n_child g h ptns \<le> ULLONG_MAX)
     \<and> (\<forall>k. prod_list (map (n_child g h) (take k (g ! p))) \<le> ULLONG_MAX))"

text \<open>The counts stored so far are right.\<close>

definition counts_ok :: "(nat \<Rightarrow> nat) \<Rightarrow> 't store \<Rightarrow> bool" where
  "counts_ok h st \<longleftrightarrow> (\<forall>p < length st. FCounted (st ! p) \<longrightarrow>
     m_ullCount (st ! p) = n_trees (shape st) h p \<and> n_trees (shape st) h p \<le> ULLONG_MAX)"

lemma n_trees_rec:
  "graph_ok g h \<Longrightarrow> p < length g \<Longrightarrow> n_trees g h p = prod_list (map (n_child g h) (g ! p))"
  by (simp add: all_trees_rec length_combos o_def)

text \<open>A count is exact, or it overflows although not everything is small.\<close>

definition good_count :: "bool \<Rightarrow> (tm_error + nat) \<Rightarrow> nat \<Rightarrow> bool" where
  "good_count sm r n \<longleftrightarrow> (r = Inr n \<and> n \<le> ULLONG_MAX) \<or> (r = Inl ExmiOverflow \<and> \<not> sm)"

definition counts :: "('s \<Rightarrow> bool) \<Rightarrow> bool \<Rightarrow> (nat \<Rightarrow> nat) \<Rightarrow> nat \<Rightarrow>
    (nat \<Rightarrow> 's \<Rightarrow> (tm_error + nat) \<times> 's) \<Rightarrow> bool" where
  "counts I sm N q cnt \<longleftrightarrow> (\<forall>st. I st \<longrightarrow> (case cnt q st of (r, st') \<Rightarrow> good_count sm r (N q) \<and> I st'))"

lemma alternatives_loop_counts:
  assumes "\<forall>q \<in> set ptns. counts I sm N q cnt" "sm \<longrightarrow> ull + sum_list (map N ptns) \<le> ULLONG_MAX" "ull \<le> ULLONG_MAX" "I st"
  shows "case alternatives_loop cnt ptns ull st of (r, st') \<Rightarrow> good_count sm r (ull + sum_list (map N ptns)) \<and> I st'"
  using assms
proof (induction ptns arbitrary: ull st)
  case (Cons q ptns)
  obtain r st1 where r: "cnt q st = (r, st1)" by force
  then have g: "good_count sm r (N q)" "I st1" using Cons.prems(1,4) by (auto simp: counts_def)
  show ?case
  proof (cases r)
    case (Inl e)
    then show ?thesis using g r by (auto simp: good_count_def)
  next
    case (Inr c)
    then have c: "c = N q" "c \<le> ULLONG_MAX" using g by (auto simp: good_count_def)
    note add = UllAdd_exact [OF Cons.prems(3) c(2), unfolded c(1)]
    show ?thesis
    proof (cases "ull + c \<le> ULLONG_MAX")
      case True
      then show ?thesis using Cons.IH [of "ull + c" st1] Cons.prems(1,2) g(2) r Inr c
        by (simp add: add add.assoc)
    next
      case False
      then have "\<not> sm" using Cons.prems(2) c(1) by auto
      then show ?thesis using False g(2) r Inr c(1) by (simp add: add good_count_def)
    qed
  qed
qed (simp add: good_count_def)

lemma children_loop_counts:
  assumes "\<forall>ptns \<in> set chs. \<forall>q \<in> set ptns. counts I sm N q cnt"
    and "sm \<longrightarrow> (\<forall>ptns \<in> set chs. sum_list (map N ptns) \<le> ULLONG_MAX)"
    and "sm \<longrightarrow> (\<forall>k. c * prod_list (map (\<lambda>ptns. sum_list (map N ptns)) (take k chs)) \<le> ULLONG_MAX)"
    and "c \<le> ULLONG_MAX" "I st"
  shows "case children_loop cnt chs c st of (r, st') \<Rightarrow>
    good_count sm r (c * prod_list (map (\<lambda>ptns. sum_list (map N ptns)) chs)) \<and> I st'"
  using assms
proof (induction chs arbitrary: c st)
  case (Cons ptns chs)
  let ?W = "\<lambda>ptns. sum_list (map N ptns)"
  obtain r st1 where r: "alternatives_loop cnt ptns 0 st = (r, st1)" by force
  have g: "good_count sm r (?W ptns)" "I st1"
    using alternatives_loop_counts [of ptns I sm N cnt 0 st] Cons.prems(1,2,5) r by auto
  show ?case
  proof (cases r)
    case (Inl e)
    then show ?thesis using g r by (auto simp: good_count_def)
  next
    case (Inr u)
    then have u: "u = ?W ptns" using g by (auto simp: good_count_def)
    consider "u = 0" | "u \<noteq> 0" "c * u \<le> ULLONG_MAX" | "u \<noteq> 0" "\<not> c * u \<le> ULLONG_MAX" by blast
    then show ?thesis
    proof cases
      case 1
      then have "?W ptns = 0" using u by simp
      then show ?thesis using g(2) r Inr 1 unfolding u by (simp add: good_count_def del: sum_list_eq_0_iff)
    next
      case 2
      have "sm \<longrightarrow> (\<forall>k. c * u * prod_list (map ?W (take k chs)) \<le> ULLONG_MAX)"
      proof (intro impI allI)
        fix k assume sm
        then show "c * u * prod_list (map ?W (take k chs)) \<le> ULLONG_MAX"
          using Cons.prems(3) spec [of _ "Suc k"] u by (simp add: mult.assoc) (metis list.simps(9) prod_list.Cons take_Suc_Cons)
      qed
      then show ?thesis using Cons.IH [of "c * u" st1] Cons.prems(1,2) g(2) r Inr u 2
        by (simp add: UllMultiply_exact mult.assoc del: sum_list_eq_0_iff)
    next
      case 3
      have "\<not> sm"
      proof
        assume sm
        then have "c * prod_list (map ?W (take 1 (ptns # chs))) \<le> ULLONG_MAX" using Cons.prems(3) by blast
        then show False using 3 u by simp
      qed
      then show ?thesis using 3 g(2) r Inr by (simp add: UllMultiply_exact good_count_def)
    qed
  qed
qed (simp add: good_count_def)

text \<open>The invariant of counting over a fixed graph.\<close>

definition st_inv :: "(nat list list \<times> nat \<times> 't option) list \<Rightarrow> (nat \<Rightarrow> nat) \<Rightarrow> 't store \<Rightarrow> bool" where
  "st_inv S h st \<longleftrightarrow> static st = S \<and> counts_ok h st"

lemma st_inv_shape: "st_inv S h st \<Longrightarrow> shape st = map fst S" "st_inv S h st \<Longrightarrow> length st = length S"
  by (auto simp: st_inv_def static_def shape_def)

lemma st_inv_children: "st_inv S h st \<Longrightarrow> p < length S \<Longrightarrow> m_pdrgdrgptn (st ! p) = map fst S ! p"
  by (auto simp: st_inv_def static_def)

lemma st_inv_mark:
  "st_inv S h st \<Longrightarrow> st_inv S h (st[p := (st ! p)\<lparr>m_ens := EnsCounting\<rparr>])"
proof -
  assume I: "st_inv S h st"
  have s: "static (st[p := (st ! p)\<lparr>m_ens := EnsCounting\<rparr>]) = static st" by (rule static_update) simp_all
  have "\<not> FCounted (st[p := (st ! p)\<lparr>m_ens := EnsCounting\<rparr>] ! q) \<or> st[p := (st ! p)\<lparr>m_ens := EnsCounting\<rparr>] ! q = st ! q"
    if "q < length st" for q
    using that by (cases "p = q") (auto simp: FCounted_def)
  then show ?thesis using I static_shape [OF s] s by (fastforce simp: st_inv_def counts_ok_def)
qed

lemma st_inv_store:
  assumes I: "st_inv S h st" and c: "c = n_trees (map fst S) h p" "c \<le> ULLONG_MAX"
  shows "st_inv S h (st[p := (st ! p)\<lparr>m_ullCount := c, m_ens := EnsCounted\<rparr>])"
proof -
  let ?st = "st[p := (st ! p)\<lparr>m_ullCount := c, m_ens := EnsCounted\<rparr>]"
  have s: "static ?st = static st" by (rule static_update) simp_all
  have sh: "shape ?st = map fst S" using static_shape [OF s] st_inv_shape(1) [OF I] by simp
  have "m_ullCount (?st ! q) = n_trees (map fst S) h q \<and> n_trees (map fst S) h q \<le> ULLONG_MAX"
    if "q < length st" "FCounted (?st ! q)" for q
    using that c I st_inv_shape(1) [OF I] by (cases "p = q") (auto simp: st_inv_def counts_ok_def)
  then show ?thesis using I s unfolding st_inv_def counts_ok_def sh by simp
qed

lemma tn_UllCount_counts:
  assumes g: "graph_ok (map fst S) h"
  shows "p < length S \<Longrightarrow> h p < d \<Longrightarrow>
    counts (st_inv S h) (small (map fst S) h) (n_trees (map fst S) h) p (tn_UllCount d)"
proof (induction d arbitrary: p)
  case (Suc d)
  let ?g = "map fst S" and ?I = "st_inv S h"
  let ?N = "n_trees ?g h"
  show ?case unfolding counts_def
  proof (intro allI impI)
    fix st assume I: "?I st"
    show "case tn_UllCount (Suc d) p st of (r, st') \<Rightarrow> good_count (small ?g h) r (?N p) \<and> ?I st'"
    proof (cases "FCounted (st ! p)")
      case True
      then show ?thesis using I Suc.prems(1) st_inv_shape [OF I] by (auto simp: good_count_def st_inv_def counts_ok_def)
    next
      case False
      let ?st = "st[p := (st ! p)\<lparr>m_ens := EnsCounting\<rparr>]"
      have ch: "m_pdrgdrgptn (st ! p) = ?g ! p" by (rule st_inv_children [OF I Suc.prems(1)])
      have q: "\<forall>ptns \<in> set (?g ! p). \<forall>q \<in> set ptns. counts ?I (small ?g h) ?N q (tn_UllCount d)"
        using Suc.IH graph_okD [OF g, of p] Suc.prems by fastforce
      have W: "sum_list (map ?N ptns) = n_child ?g h ptns" for ptns
        by (simp add: child_trees_def length_concat o_def)
      obtain r st' where r: "children_loop (tn_UllCount d) (?g ! p) 1 ?st = (r, st')" by force
      have "good_count (small ?g h) r (prod_list (map (n_child ?g h) (?g ! p))) \<and> ?I st'"
        using children_loop_counts [OF q, of 1 ?st] st_inv_mark [OF I, of p] r Suc.prems(1)
        by (simp add: W small_def ULLONG_MAX_def)
      then have gr: "good_count (small ?g h) r (?N p)" "?I st'"
        using n_trees_rec [OF g] Suc.prems(1) by simp_all
      show ?thesis
      proof (cases r)
        case (Inl e)
        then show ?thesis using gr r False ch by simp
      next
        case (Inr c)
        then have c: "c = ?N p" "c \<le> ULLONG_MAX" using gr(1) by (auto simp: good_count_def)
        show ?thesis using st_inv_store [OF gr(2) c] gr(1) Inr r False ch by simp
      qed
    qed
  qed
qed simp

section \<open>Unranking\<close>

text \<open>The result of a tree; the universal root stands for its subtree.\<close>

fun rehydrate :: "('u \<Rightarrow> 't option \<Rightarrow> 'r list \<Rightarrow> 'r) \<Rightarrow> 'u \<Rightarrow> (nat list list \<times> nat \<times> 't option) list \<Rightarrow> tree \<Rightarrow> 'r" where
  "rehydrate prfn pU S (Tree p ts) =
     (if fst (snd (S ! p)) = 0 then hd (map (rehydrate prfn pU S) ts)
      else prfn pU (snd (snd (S ! p))) (map (rehydrate prfn pU S) ts))"

text \<open>Unranking gives the tree at the rank, or overflows although not everything is small.\<close>

definition unranks :: "('s \<Rightarrow> bool) \<Rightarrow> bool \<Rightarrow> (tree \<Rightarrow> 'r) \<Rightarrow> tree list \<Rightarrow> (nat \<Rightarrow> 's \<Rightarrow> (tm_error + 'r) \<times> 's) \<Rightarrow> bool" where
  "unranks I sm hyd ts unrank \<longleftrightarrow> (\<forall>st r. I st \<longrightarrow> r < length ts \<longrightarrow>
     (case unrank r st of (x, st') \<Rightarrow> (x = Inr (hyd (ts ! r)) \<or> x = Inl ExmiOverflow \<and> \<not> sm) \<and> I st'))"

lemma rank_loop_ranks:
  assumes "\<forall>q \<in> set ptns. counts I sm (\<lambda>q. length (T q)) q cnt" "I st" "r < length (concat (map T ptns))"
  shows "case rank_loop cnt ptns p r st of (x, st') \<Rightarrow> I st' \<and>
    ((\<exists>q r'. x = Inr (Some q, r') \<and> q \<in> set ptns \<and> r' < length (T q) \<and> T q ! r' = concat (map T ptns) ! r)
     \<or> x = Inl ExmiOverflow \<and> \<not> sm)"
  using assms
proof (induction ptns arbitrary: r st p)
  case (Cons q ptns)
  obtain x st1 where x: "cnt q st = (x, st1)" by force
  then have g: "good_count sm x (length (T q))" "I st1" using Cons.prems(1,2) by (auto simp: counts_def)
  show ?case
  proof (cases x)
    case (Inl e)
    then show ?thesis using g x by (auto simp: good_count_def)
  next
    case (Inr c)
    then have c: "c = length (T q)" using g by (auto simp: good_count_def)
    show ?thesis
    proof (cases "r < c")
      case True
      then show ?thesis using x Inr g(2) c by (simp add: nth_append)
    next
      case False
      have *: "r - c < length (concat (map T ptns))" using Cons.prems(3) False c by simp
      show ?thesis using Cons.IH [OF _ g(2) *, of "Some q"] Cons.prems(1) x Inr c False
        by (auto simp: nth_append)
    qed
  qed
qed simp

lemma child_unrank_unranks:
  assumes "\<forall>q \<in> set ptns. counts I sm (\<lambda>q. length (T q)) q cnt"
    and "\<forall>q \<in> set ptns. unranks I sm hyd (T q) (unrank q)"
  shows "unranks I sm hyd (concat (map T ptns)) (child_unrank cnt unrank ptns)"
  unfolding unranks_def
proof (intro allI impI)
  fix st r assume *: "I st" "r < length (concat (map T ptns))"
  obtain x st1 where x: "rank_loop cnt ptns None r st = (x, st1)" by force
  from rank_loop_ranks [OF assms(1) *, of None] x
  consider q r' where "x = Inr (Some q, r')" "q \<in> set ptns" "r' < length (T q)" "T q ! r' = concat (map T ptns) ! r" "I st1"
    | "x = Inl ExmiOverflow" "\<not> sm" "I st1" by auto
  then show "case child_unrank cnt unrank ptns r st of (x, st') \<Rightarrow>
      (x = Inr (hyd (concat (map T ptns) ! r)) \<or> x = Inl ExmiOverflow \<and> \<not> sm) \<and> I st'"
  proof cases
    case 1
    have "unranks I sm hyd (T q) (unrank q)" using assms(2) 1(2) by blast
    then have "case unrank q r' st1 of (x, st') \<Rightarrow> (x = Inr (hyd (T q ! r')) \<or> x = Inl ExmiOverflow \<and> \<not> sm) \<and> I st'"
      using 1(3,5) by (simp add: unranks_def)
    then show ?thesis using 1 x by (simp add: child_unrank_def)
  qed (use x in \<open>simp add: child_unrank_def\<close>)
qed

text \<open>The loop over the children picks the choice at the rank.\<close>

lemma unrank_loop_unranks:
  assumes "\<forall>ptns \<in> set chs. \<forall>q \<in> set ptns. counts I sm (\<lambda>q. length (T q)) q cnt"
    and "\<forall>ptns \<in> set chs. \<forall>q \<in> set ptns. unranks I sm hyd (T q) (unrank q)"
    and "sm \<longrightarrow> (\<forall>ptns \<in> set chs. length (concat (map T ptns)) \<le> ULLONG_MAX)"
    and "I st" "r < length (combos (map (\<lambda>ptns. concat (map T ptns)) chs))"
  shows "case unrank_loop cnt unrank chs r acc st of (x, st') \<Rightarrow>
    (x = Inr (acc @ map hyd (combos (map (\<lambda>ptns. concat (map T ptns)) chs) ! r)) \<or> x = Inl ExmiOverflow \<and> \<not> sm) \<and> I st'"
  using assms
proof (induction chs arbitrary: r acc st)
  case (Cons ptns chs)
  let ?C = "\<lambda>ptns. concat (map T ptns)"
  have W: "sum_list (map (\<lambda>q. length (T q)) ptns) = length (?C ptns)" by (simp add: length_concat o_def)
  obtain x st1 where x: "alternatives_loop cnt ptns 0 st = (x, st1)" by force
  have g: "good_count sm x (length (?C ptns))" "I st1"
    using alternatives_loop_counts [of ptns I sm "\<lambda>q. length (T q)" cnt 0 st] Cons.prems(1,3,4) x by (simp_all add: W)
  show ?case
  proof (cases x)
    case (Inl e)
    then show ?thesis using g x by (auto simp: good_count_def)
  next
    case (Inr c)
    then have c: "c = length (?C ptns)" using g by (auto simp: good_count_def)
    have len: "r < length (combos (?C ptns # map ?C chs))" using Cons.prems(5) by simp
    note n = combos_nth [OF len]
    have c0: "c \<noteq> 0" using n(2) unfolding c by linarith
    obtain y st2 where y: "child_unrank cnt unrank ptns (r mod c) st1 = (y, st2)" by force
    have "unranks I sm hyd (?C ptns) (child_unrank cnt unrank ptns)"
      by (rule child_unrank_unranks) (use Cons.prems in auto)
    then have gy: "y = Inr (hyd (?C ptns ! (r mod c))) \<or> y = Inl ExmiOverflow \<and> \<not> sm" "I st2"
      using g(2) n(2) y unfolding unranks_def c by fastforce+
    show ?thesis
    proof (cases y)
      case (Inl e)
      then show ?thesis using gy x y Inr c0 by auto
    next
      case (Inr t)
      have "case unrank_loop cnt unrank chs (r div c) (acc @ [t]) st2 of (x, st') \<Rightarrow>
          (x = Inr ((acc @ [t]) @ map hyd (combos (map ?C chs) ! (r div c))) \<or> x = Inl ExmiOverflow \<and> \<not> sm) \<and> I st'"
        by (rule Cons.IH) (use Cons.prems gy(2) n(3) c in auto)
      moreover have "t = hyd (?C ptns ! (r mod c))" using gy(1) Inr by simp
      moreover have "combos (map ?C (ptns # chs)) ! r = ?C ptns ! (r mod c) # combos (map ?C chs) ! (r div c)"
        using n(1) c by simp
      ultimately show ?thesis using x \<open>x = Inr c\<close> y Inr c0 by (simp del: combos.simps)
    qed
  qed
qed simp

lemma tn_PrUnrank_unranks:
  assumes g: "graph_ok (map fst S) h" and root: "\<forall>p < length S. fst (snd (S ! p)) = 0 \<longrightarrow> length (fst (S ! p)) = 1"
  shows "p < length S \<Longrightarrow> h p < d \<Longrightarrow>
    unranks (st_inv S h) (small (map fst S) h) (rehydrate prfn pU S) (all_trees (map fst S) h p) (tn_PrUnrank d prfn pU p)"
proof (induction d arbitrary: p)
  case (Suc d)
  let ?g = "map fst S" and ?I = "st_inv S h" and ?hyd = "rehydrate prfn pU S"
  let ?T = "all_trees ?g h" and ?sm = "small ?g h"
  have q: "q < length S" "h q < d" if "ptns \<in> set (?g ! p)" "q \<in> set ptns" for ptns q
    using graph_okD [OF g _ that] Suc.prems by auto
  have cs: "\<forall>ptns \<in> set (?g ! p). \<forall>q \<in> set ptns. counts ?I ?sm (\<lambda>q. length (?T q)) q (tn_UllCount d)"
    using tn_UllCount_counts [OF g] q by blast
  have us: "\<forall>ptns \<in> set (?g ! p). \<forall>q \<in> set ptns. unranks ?I ?sm ?hyd (?T q) (tn_PrUnrank d prfn pU q)"
    using Suc.IH q by blast
  have T: "?T p = map (Tree p) (combos (map (\<lambda>ptns. concat (map ?T ptns)) (?g ! p)))"
    using all_trees_rec [OF g, of p] Suc.prems(1) by (simp add: child_trees_def [abs_def])
  have sm: "?sm \<longrightarrow> (\<forall>ptns \<in> set (?g ! p). length (concat (map ?T ptns)) \<le> ULLONG_MAX)"
    using Suc.prems(1) by (auto simp: small_def child_trees_def)
  show ?case unfolding unranks_def
  proof (intro allI impI)
    fix st r assume I: "?I st" and r: "r < length (?T p)"
    have st: "m_pdrgdrgptn (st ! p) = ?g ! p" "m_ulNode (st ! p) = fst (snd (S ! p))"
      using I Suc.prems(1) by (auto simp: st_inv_def static_def)
    have pt: "m_pt (st' ! p) = snd (snd (S ! p))" if "?I st'" for st'
      using that Suc.prems(1) by (auto simp: st_inv_def static_def)
    show "case tn_PrUnrank (Suc d) prfn pU p r st of (x, st') \<Rightarrow>
        (x = Inr (?hyd (?T p ! r)) \<or> x = Inl ExmiOverflow \<and> \<not> ?sm) \<and> ?I st'"
    proof (cases "fst (snd (S ! p)) = 0")
      case True
      then obtain ptns where ch: "?g ! p = [ptns]" using root Suc.prems(1) by (auto simp: length_Suc_conv)
      have one: "combos [xs] = map (\<lambda>x. [x]) xs" for xs :: "tree list" by simp
      have T1: "?T p = map (\<lambda>t. Tree p [t]) (concat (map ?T ptns))" by (simp only: T ch list.map one) simp
      have "unranks ?I ?sm ?hyd (concat (map ?T ptns)) (child_unrank (tn_UllCount d) (tn_PrUnrank d prfn pU) ptns)"
        by (rule child_unrank_unranks) (use cs us ch in auto)
      then show ?thesis using I r True st ch unfolding unranks_def T1 by simp
    next
      case False
      have "r < length (combos (map (\<lambda>ptns. concat (map ?T ptns)) (?g ! p)))" using r T by simp
      from unrank_loop_unranks [OF cs us sm I this, of "[]"] pt show ?thesis
        using False st \<open>r < length (combos _)\<close> unfolding T by (auto split: sum.splits prod.splits)
    qed
  qed
qed simp

end
