(* ===== verification/TreeMapGraph.thy ===== *)
theory TreeMapGraph
  imports TreeMap
begin

text \<open>
  Tree maps as their clients use them: the graph that the insertions of links and roots build, and the
  count and the unranking of its trees after the roots are hooked up to the universal root.
\<close>

section \<open>The graph that the insertions build\<close>

abbreviation tm_look :: "('t \<Rightarrow> ulong_w) \<Rightarrow> ('t \<Rightarrow> 't \<Rightarrow> bool) \<Rightarrow> 't tree_map \<Rightarrow> 't \<Rightarrow> nat option" where
  "tm_look pfnHash pfnEq tm \<equiv> hm_PtLookup (\<lambda>k. unat (pfnHash k)) pfnEq (m_ptmap tm)"

abbreviation link_hash :: "('t \<Rightarrow> ulong_w) \<Rightarrow> 't \<times> nat \<times> 't \<Rightarrow> nat" where
  "link_hash pfnHash \<equiv> \<lambda>l. unat (STreeLink_UlHash pfnHash l)"

definition linked :: "('t \<Rightarrow> ulong_w) \<Rightarrow> ('t \<Rightarrow> 't \<Rightarrow> bool) \<Rightarrow> 't tree_map \<Rightarrow> 't \<times> nat \<times> 't \<Rightarrow> bool" where
  "linked pfnHash pfnEq tm l \<longleftrightarrow>
     hm_PtLookup (link_hash pfnHash) (STreeLink_FEqual pfnEq) (m_plinkmap tm) l \<noteq> None"

definition alternative :: "'t store \<Rightarrow> nat \<Rightarrow> nat \<Rightarrow> nat \<Rightarrow> bool" where
  "alternative st p ul q \<longleftrightarrow> ul < length (m_pdrgdrgptn (st ! p)) \<and> q \<in> set (m_pdrgdrgptn (st ! p) ! ul)"

text \<open>Pointers are valid and alternatives distinct; the root has at most one child.\<close>

definition store_ok :: "'t store \<Rightarrow> bool" where
  "store_ok st \<longleftrightarrow>
     st \<noteq> [] \<and> (\<forall>i < length st. m_ulNode (st ! i) = i)
   \<and> (\<forall>p < length st. \<forall>ptns \<in> set (m_pdrgdrgptn (st ! p)). distinct ptns \<and> set ptns \<subseteq> {0<..<length st})
   \<and> length (m_pdrgdrgptn (st ! 0)) \<le> 1
   \<and> (\<forall>q. alternative st 0 0 q \<longrightarrow> 0 < m_ulIncoming (st ! q))"

text \<open>The node map and the store agree, and the alternatives are the links.\<close>

definition tm_ok :: "('t \<Rightarrow> ulong_w) \<Rightarrow> ('t \<Rightarrow> 't \<Rightarrow> bool) \<Rightarrow> 't tree_map \<Rightarrow> bool" where
  "tm_ok pfnHash pfnEq tm \<longleftrightarrow>
     hash_eq (\<lambda>k. unat (pfnHash k)) pfnEq
   \<and> hm_ok (\<lambda>k. unat (pfnHash k)) pfnEq (m_ptmap tm)
   \<and> hm_ok (link_hash pfnHash) (STreeLink_FEqual pfnEq) (m_plinkmap tm)
   \<and> store_ok (m_store tm) \<and> length (m_store tm) = Suc (m_ulCountNodes tm)
   \<and> m_pdrgKeys (m_ptmap tm) = map (the \<circ> m_pt) (tl (m_store tm))
   \<and> (\<forall>a i. tm_look pfnHash pfnEq tm a = Some i \<longleftrightarrow>
        0 < i \<and> i < length (m_store tm) \<and> (\<exists>t. m_pt (m_store tm ! i) = Some t \<and> pfnEq t a))
   \<and> (\<forall>i. 0 < i \<and> i < length (m_store tm) \<longrightarrow> m_pt (m_store tm ! i) \<noteq> None)
   \<and> (\<forall>a ul b. linked pfnHash pfnEq tm (a, ul, b) \<longleftrightarrow>
        (\<exists>p q. tm_look pfnHash pfnEq tm a = Some p \<and> tm_look pfnHash pfnEq tm b = Some q
             \<and> alternative (m_store tm) p ul q))"

lemma STreeLink_hash_eq:
  assumes "hash_eq (\<lambda>k. unat (pfnHash k)) pfnEq"
  shows "hash_eq (link_hash pfnHash) (STreeLink_FEqual pfnEq)"
proof -
  have e: "equivp pfnEq" and h: "pfnEq a b \<Longrightarrow> pfnHash a = pfnHash b" for a b
    using assms unfolding hash_eq_def by (blast intro: unsigned_word_eqI)+
  have "equivp (STreeLink_FEqual pfnEq)"
    by (rule equivpI)
       (auto simp: reflp_def symp_def transp_def STreeLink_FEqual_def equivp_reflp [OF e] dest: equivp_symp [OF e] equivp_transp [OF e])
  then show ?thesis by (auto simp: hash_eq_def STreeLink_FEqual_def STreeLink_UlHash_def dest!: h)
qed

lemma tm_okD:
  assumes "tm_ok pfnHash pfnEq tm"
  shows "hash_eq (\<lambda>k. unat (pfnHash k)) pfnEq" "hm_ok (\<lambda>k. unat (pfnHash k)) pfnEq (m_ptmap tm)"
    "hash_eq (link_hash pfnHash) (STreeLink_FEqual pfnEq)"
    "hm_ok (link_hash pfnHash) (STreeLink_FEqual pfnEq) (m_plinkmap tm)"
    "store_ok (m_store tm)" "length (m_store tm) = Suc (m_ulCountNodes tm)"
    "tm_look pfnHash pfnEq tm a = Some i \<longleftrightarrow>
        0 < i \<and> i < length (m_store tm) \<and> (\<exists>t. m_pt (m_store tm ! i) = Some t \<and> pfnEq t a)"
    "linked pfnHash pfnEq tm (a, ul, b) \<longleftrightarrow> (\<exists>p q. tm_look pfnHash pfnEq tm a = Some p
       \<and> tm_look pfnHash pfnEq tm b = Some q \<and> alternative (m_store tm) p ul q)"
  using assms STreeLink_hash_eq [of pfnHash pfnEq] by (simp_all add: tm_ok_def)

lemma tm_new_ok:
  assumes "hash_eq (\<lambda>k. unat (pfnHash k)) pfnEq"
  shows "tm_ok pfnHash pfnEq CTreeMap_new"
  using assms by (auto simp: tm_ok_def CTreeMap_new_def store_ok_def CTreeNode_def alternative_def linked_def hm_new_ok)

text \<open>A new node is put at the end of the store.\<close>

lemma alternative_lt: "store_ok st \<Longrightarrow> alternative st p ul q \<Longrightarrow> p < length st \<Longrightarrow> 0 < q \<and> q < length st"
  unfolding store_ok_def alternative_def by (meson greaterThanLessThan_iff nth_mem subsetD)

lemma store_ok_snoc:
  assumes ok: "store_ok st"
  shows "store_ok (st @ [CTreeNode (length st) pt])" (is "store_ok ?st")
proof -
  have n: "0 < length st" using ok by (simp add: store_ok_def)
  have ch: "m_pdrgdrgptn (?st ! p) = (if p < length st then m_pdrgdrgptn (st ! p) else [])"
    if "p < Suc (length st)" for p
    using that by (auto simp: nth_append CTreeNode_def less_Suc_eq)
  have "distinct ptns \<and> set ptns \<subseteq> {0<..<Suc (length st)}"
    if "p < Suc (length st)" "ptns \<in> set (m_pdrgdrgptn (?st ! p))" for p ptns
  proof -
    have "distinct ptns \<and> set ptns \<subseteq> {0<..<length st}"
      using that ok ch [OF that(1)] by (auto simp: store_ok_def split: if_splits)
    then show ?thesis by auto
  qed
  moreover have "0 < m_ulIncoming (?st ! q)" if "alternative ?st 0 0 q" for q
  proof -
    have a: "alternative st 0 0 q" using that n by (simp add: alternative_def nth_append)
    then have "q < length st" using alternative_lt [OF ok a n] by simp
    then show ?thesis using a ok by (simp add: store_ok_def nth_append)
  qed
  moreover have "m_ulNode (?st ! i) = i" if "i < Suc (length st)" for i
    using that ok by (auto simp: store_ok_def nth_append CTreeNode_def less_Suc_eq)
  ultimately show ?thesis using ok n ch [of 0] by (simp add: store_ok_def)
qed

lemma Ptn_spec:
  assumes ok: "tm_ok pfnHash pfnEq tm" and room: "length (m_store tm) < ULONG_MOD" and r: "Ptn pfnHash pfnEq tm pt = (p, tm')"
  shows "tm_ok pfnHash pfnEq tm' \<and> tm_look pfnHash pfnEq tm' pt = Some p
    \<and> m_plinkmap tm' = m_plinkmap tm \<and> length (m_store tm') \<le> Suc (length (m_store tm))
    \<and> (\<forall>i < length (m_store tm). m_store tm' ! i = m_store tm ! i)
    \<and> (\<forall>i. length (m_store tm) \<le> i \<and> i < length (m_store tm') \<longrightarrow> m_ulIncoming (m_store tm' ! i) = 0)
    \<and> (\<forall>a i. tm_look pfnHash pfnEq tm a = Some i \<longrightarrow> tm_look pfnHash pfnEq tm' a = Some i)"
proof (cases "tm_look pfnHash pfnEq tm pt")
  case (Some i)
  then show ?thesis using r ok by (auto simp: Ptn_def)
next
  case None
  note d = tm_okD [OF ok]
  let ?n = "length (m_store tm)"
  have n: "ul_add (m_ulCountNodes tm) 1 = ?n" using room d(6) by (simp add: ul_add_exact)
  obtain b m' where ins: "hm_FInsert (\<lambda>k. unat (pfnHash k)) pfnEq (m_ptmap tm) pt (Some ?n) = (b, m')" by force
  have m': "hm_ok (\<lambda>k. unat (pfnHash k)) pfnEq m'" "m_pdrgKeys m' = m_pdrgKeys (m_ptmap tm) @ [pt]"
    "\<And>k. hm_PtLookup (\<lambda>k. unat (pfnHash k)) pfnEq m' k = (if pfnEq pt k then Some ?n else tm_look pfnHash pfnEq tm k)"
    using hm_FInsert_spec [OF d(2,1) ins] None by simp_all
  have tm': "p = ?n" "tm' = tm\<lparr>m_store := m_store tm @ [CTreeNode ?n (Some pt)], m_ulCountNodes := ?n, m_ptmap := m'\<rparr>"
    using r None n ins by (simp_all add: Ptn_def Let_def)
  have st: "m_store tm' = m_store tm @ [CTreeNode ?n (Some pt)]" "m_ptmap tm' = m'" "m_plinkmap tm' = m_plinkmap tm"
    by (simp_all add: tm')
  have ne: "m_store tm \<noteq> []" using d(5) by (simp add: store_ok_def)
  have look: "tm_look pfnHash pfnEq tm' a = (if pfnEq pt a then Some ?n else tm_look pfnHash pfnEq tm a)" for a
    by (simp add: st m'(3))
  have fresh: "tm_look pfnHash pfnEq tm a = None" if "pfnEq pt a" for a
    using hm_PtLookup_same [OF d(1) that, of "m_ptmap tm"] None by simp
  have fresh': "\<not> pfnEq t pt" if "0 < i" "i < ?n" "m_pt (m_store tm ! i) = Some t" for i t
    using d(7) [of pt i] None that by auto
  have e: "equivp pfnEq" using d(1) by (simp add: hash_eq_def)
  have L: "tm_look pfnHash pfnEq tm' a = Some i \<longleftrightarrow>
      0 < i \<and> i < length (m_store tm') \<and> (\<exists>t. m_pt (m_store tm' ! i) = Some t \<and> pfnEq t a)" for a i
  proof (cases "pfnEq pt a")
    case True
    have "\<not> pfnEq t a" if "0 < i" "i < ?n" "m_pt (m_store tm ! i) = Some t" for i t
      using fresh' [OF that] True equivp_symp [OF e] equivp_transp [OF e] by metis
    then show ?thesis unfolding look using True ne by (auto simp: st(1) CTreeNode_def nth_append less_Suc_eq)
  next
    case False
    then show ?thesis unfolding look using ne by (auto simp: d(7) st(1) CTreeNode_def nth_append less_Suc_eq)
  qed
  have alt: "alternative (m_store tm') p ul q \<longleftrightarrow> p < ?n \<and> alternative (m_store tm) p ul q" if "p < length (m_store tm')" for p ul q
    using that by (auto simp: alternative_def st CTreeNode_def nth_append less_Suc_eq)
  have K: "linked pfnHash pfnEq tm' (a, ul, b) \<longleftrightarrow> (\<exists>p q. tm_look pfnHash pfnEq tm' a = Some p
       \<and> tm_look pfnHash pfnEq tm' b = Some q \<and> alternative (m_store tm') p ul q)" (is "?L \<longleftrightarrow> ?R") for a ul b
  proof -
    have "?L \<longleftrightarrow> linked pfnHash pfnEq tm (a, ul, b)" by (simp add: linked_def st)
    also have "\<dots> \<longleftrightarrow> (\<exists>p q. tm_look pfnHash pfnEq tm a = Some p \<and> tm_look pfnHash pfnEq tm b = Some q
        \<and> alternative (m_store tm) p ul q)" by (rule d(8))
    also have "\<dots> \<longleftrightarrow> ?R"
    proof
      assume ?R
      then obtain p q where pq: "tm_look pfnHash pfnEq tm' a = Some p" "tm_look pfnHash pfnEq tm' b = Some q"
        "alternative (m_store tm') p ul q" by blast
      then have "p < ?n" "alternative (m_store tm) p ul q" using alt L [of a p] by blast+
      moreover have "q < ?n" using alternative_lt [OF d(5)] calculation by blast
      ultimately show "\<exists>p q. tm_look pfnHash pfnEq tm a = Some p \<and> tm_look pfnHash pfnEq tm b = Some q
          \<and> alternative (m_store tm) p ul q"
        using pq(1,2) unfolding look by (auto split: if_splits)
    next
      assume "\<exists>p q. tm_look pfnHash pfnEq tm a = Some p \<and> tm_look pfnHash pfnEq tm b = Some q
          \<and> alternative (m_store tm) p ul q"
      then obtain p q where pq: "tm_look pfnHash pfnEq tm a = Some p" "tm_look pfnHash pfnEq tm b = Some q"
        "alternative (m_store tm) p ul q" by blast
      have "\<not> pfnEq pt a" "\<not> pfnEq pt b" using pq fresh by auto
      then show ?R unfolding look using pq d(7) [of a p] alt [of p ul q] by (auto simp: st(1))
    qed
    finally show ?thesis .
  qed
  have "tm_ok pfnHash pfnEq tm'"
    unfolding tm_ok_def
  proof (intro conjI allI)
    show "store_ok (m_store tm')" unfolding st by (rule store_ok_snoc [OF d(5)])
    show "m_pdrgKeys (m_ptmap tm') = map (the \<circ> m_pt) (tl (m_store tm'))"
      using ok ne by (simp add: st m'(2) tm_ok_def CTreeNode_def)
    show "0 < i \<and> i < length (m_store tm') \<longrightarrow> m_pt (m_store tm' ! i) \<noteq> None" for i
      using ok by (auto simp: st nth_append CTreeNode_def tm_ok_def less_Suc_eq)
  qed (use L K d m' in \<open>simp_all add: st\<close>, simp add: tm')
  moreover have "tm_look pfnHash pfnEq tm' pt = Some p" unfolding look using equivp_reflp [OF e] by (simp add: tm'(1))
  moreover have "tm_look pfnHash pfnEq tm' a = Some i" if "tm_look pfnHash pfnEq tm a = Some i" for a i
    unfolding look using that fresh by auto
  ultimately show ?thesis by (auto simp: st nth_append CTreeNode_def less_Suc_eq)
qed

text \<open>Adding an alternative.\<close>

lemma tn_Add_fields:
  assumes "p < length st" "q < length st"
  shows "length (tn_Add p ul q st) = length st"
    "m_pdrgdrgptn (tn_Add p ul q st ! i) = (if i = p then
       (let chs = m_pdrgdrgptn (st ! p) @ replicate (Suc ul - length (m_pdrgdrgptn (st ! p))) [] in chs[ul := chs ! ul @ [q]])
       else m_pdrgdrgptn (st ! i))"
    "m_ulIncoming (tn_Add p ul q st ! i) = (if i = q then ul_add (m_ulIncoming (st ! q)) 1 else m_ulIncoming (st ! i))"
    "m_ulNode (tn_Add p ul q st ! i) = m_ulNode (st ! i)" "m_pt (tn_Add p ul q st ! i) = m_pt (st ! i)"
    "m_ens (tn_Add p ul q st ! i) = m_ens (st ! i)"
  using assms by (cases "i < length st"; auto simp: tn_Add_def Let_def nth_list_update list_update_beyond)+

lemma tn_Add_alternative:
  assumes "p < length st" "q < length st"
  shows "alternative (tn_Add p ul q st) p' ul' q' \<longleftrightarrow> alternative st p' ul' q' \<or> (p' = p \<and> ul' = ul \<and> q' = q)"
  using assms by (auto simp: alternative_def tn_Add_fields Let_def nth_list_update nth_append)

lemma distinct_set_padded: "\<forall>x \<in> set xs. P x \<Longrightarrow> P [] \<Longrightarrow> \<forall>x \<in> set (xs @ replicate n []). P x"
  by auto

lemma tn_Add_ok:
  assumes ok: "store_ok st" and pq: "p < length st" "0 < q" "q < length st" "p = 0 \<longrightarrow> ul = 0"
    and new: "\<not> alternative st p ul q" and room: "m_ulIncoming (st ! q) < ULONG_MAX"
  shows "store_ok (tn_Add p ul q st)"
proof -
  let ?st = "tn_Add p ul q st"
  note f = tn_Add_fields [OF pq(1,3)]
  have "distinct ptns \<and> set ptns \<subseteq> {0<..<length st}" if i: "i < length st" "ptns \<in> set (m_pdrgdrgptn (?st ! i))" for i ptns
  proof (cases "i = p")
    case False
    then show ?thesis using i ok by (simp add: f store_ok_def)
  next
    case True
    let ?ch = "m_pdrgdrgptn (st ! p) @ replicate (Suc ul - length (m_pdrgdrgptn (st ! p))) []"
    let ?P = "\<lambda>ptns. distinct ptns \<and> set ptns \<subseteq> {0<..<length st}"
    have old: "\<forall>ptns \<in> set ?ch. ?P ptns"
      using ok pq(1) by (intro distinct_set_padded) (auto simp: store_ok_def)
    have u: "ul < length ?ch" by simp
    have "q \<notin> set (?ch ! ul)" using new by (auto simp: alternative_def nth_append)
    then have "?P (?ch ! ul @ [q])" using bspec [OF old nth_mem [OF u]] pq by auto
    moreover have "ptns \<in> set (?ch[ul := ?ch ! ul @ [q]])" using i(2) True by (simp add: f Let_def)
    ultimately show ?thesis using old set_update_subset_insert [of ?ch ul "?ch ! ul @ [q]"] by blast
  qed
  moreover have "length (m_pdrgdrgptn (?st ! 0)) \<le> 1"
    unfolding f(2) using ok pq(4) by (cases "p = 0") (auto simp: Let_def store_ok_def)
  moreover have "0 < m_ulIncoming (?st ! r)" if "alternative ?st 0 0 r" for r
  proof (cases "r = q")
    case True
    then show ?thesis using room by (simp add: f ul_add_exact ULONG_MAX_def)
  next
    case False
    then have "alternative st 0 0 r" using that tn_Add_alternative [OF pq(1,3)] by blast
    then show ?thesis using False ok by (simp add: f store_ok_def)
  qed
  moreover have "0 < length ?st" using f(1) [of ul] pq(1) by linarith
  then have "?st \<noteq> []" by simp
  ultimately show ?thesis using ok unfolding store_ok_def f(1,4) by blast
qed

text \<open>Inserting a link.\<close>

lemma tm_Insert_present:
  "linked pfnHash pfnEq tm (a, ul, b) \<Longrightarrow> tm_Insert pfnHash pfnEq tm a ul b = tm"
  by (auto simp: tm_Insert_def linked_def)

text \<open>There is room for two more nodes and another edge.\<close>

definition tm_room :: "'t tree_map \<Rightarrow> bool" where
  "tm_room tm \<longleftrightarrow> length (m_store tm) + 1 < ULONG_MOD \<and> (\<forall>i < length (m_store tm). m_ulIncoming (m_store tm ! i) < ULONG_MAX)"

lemma tm_Insert_spec:
  assumes ok: "tm_ok pfnHash pfnEq tm" and room: "tm_room tm"
  shows "tm_ok pfnHash pfnEq (tm_Insert pfnHash pfnEq tm a ul b)
    \<and> (\<forall>a' ul' b'. linked pfnHash pfnEq (tm_Insert pfnHash pfnEq tm a ul b) (a', ul', b')
        \<longleftrightarrow> linked pfnHash pfnEq tm (a', ul', b') \<or> pfnEq a a' \<and> ul = ul' \<and> pfnEq b b')"
proof (cases "linked pfnHash pfnEq tm (a, ul, b)")
  case True
  have "linked pfnHash pfnEq tm (a', ul', b')" if "pfnEq a a'" "ul = ul'" "pfnEq b b'" for a' ul' b'
    using True hm_PtLookup_same [OF tm_okD(3) [OF ok], of "(a, ul, b)" "(a', ul', b')" "m_plinkmap tm"] that
    by (simp add: linked_def STreeLink_FEqual_def)
  then show ?thesis using ok tm_Insert_present [OF True] by auto
next
  case False
  obtain p tm1 where P: "Ptn pfnHash pfnEq tm a = (p, tm1)" by force
  obtain q tm2 where Q: "Ptn pfnHash pfnEq tm1 b = (q, tm2)" by force
  have n: "length (m_store tm) < ULONG_MOD" using room by (simp add: tm_room_def)
  note p = Ptn_spec [OF ok n P]
  have ok1: "tm_ok pfnHash pfnEq tm1" and n1: "length (m_store tm1) < ULONG_MOD"
    using p room by (auto simp: tm_room_def)
  note q = Ptn_spec [OF ok1 n1 Q]
  have ok2: "tm_ok pfnHash pfnEq tm2" and lk: "tm_look pfnHash pfnEq tm2 a = Some p" "tm_look pfnHash pfnEq tm2 b = Some q"
    using p q by auto
  note d = tm_okD [OF ok2]
  have pm: "m_plinkmap tm2 = m_plinkmap tm" using p q by simp
  obtain c m' where ins: "hm_FInsert (link_hash pfnHash) (STreeLink_FEqual pfnEq) (m_plinkmap tm2) (a, ul, b) (Some True) = (c, m')"
    by force
  have new: "hm_PtLookup (link_hash pfnHash) (STreeLink_FEqual pfnEq) (m_plinkmap tm2) (a, ul, b) = None"
    using False by (simp add: linked_def pm)
  have m': "hm_ok (link_hash pfnHash) (STreeLink_FEqual pfnEq) m'"
    "\<And>l. hm_PtLookup (link_hash pfnHash) (STreeLink_FEqual pfnEq) m' l =
      (if STreeLink_FEqual pfnEq (a, ul, b) l then Some True
       else hm_PtLookup (link_hash pfnHash) (STreeLink_FEqual pfnEq) (m_plinkmap tm2) l)"
    using hm_FInsert_spec [OF d(4,3) ins] new by simp_all
  define tm' where "tm' = tm2\<lparr>m_store := tn_Add p ul q (m_store tm2),
      m_ulCountLinks := ul_add (m_ulCountLinks tm2) 1, m_plinkmap := m'\<rparr>"
  have r: "tm_Insert pfnHash pfnEq tm a ul b = tm'"
    using False P Q ins by (simp add: tm_Insert_def linked_def tm'_def Let_def pm)
  have s: "m_store tm' = tn_Add p ul q (m_store tm2)" "m_ptmap tm' = m_ptmap tm2" "m_plinkmap tm' = m'"
    "m_ulCountNodes tm' = m_ulCountNodes tm2"
    by (simp_all add: tm'_def)
  have v: "0 < p" "p < length (m_store tm2)" "0 < q" "q < length (m_store tm2)"
    using lk d(7) [of a p] d(7) [of b q] by auto
  note f = tn_Add_fields [OF v(2,4)]
  have link: "linked pfnHash pfnEq tm' (a', ul', b') \<longleftrightarrow>
      linked pfnHash pfnEq tm2 (a', ul', b') \<or> pfnEq a a' \<and> ul = ul' \<and> pfnEq b b'" for a' ul' b'
    by (auto simp: linked_def s m'(2) STreeLink_FEqual_def)
  have same: "pfnEq x y" if "tm_look pfnHash pfnEq tm2 x = Some i" "tm_look pfnHash pfnEq tm2 y = Some i" for x y i
  proof -
    have "equivp pfnEq" using d(1) by (simp add: hash_eq_def)
    then show ?thesis using that d(7) [of x i] d(7) [of y i] by (metis equivp_symp equivp_transp option.inject)
  qed
  have notalt: "\<not> alternative (m_store tm2) p ul q"
    using d(8) [of a ul b] lk False by (auto simp: linked_def pm)
  have inc: "m_ulIncoming (m_store tm2 ! q) < ULONG_MAX"
  proof -
    have "m_ulIncoming (m_store tm1 ! i) < ULONG_MAX" if "i < length (m_store tm1)" for i
      using that p room by (cases "i < length (m_store tm)") (auto simp: tm_room_def ULONG_MAX_def not_less)
    then show ?thesis using v(4) q by (cases "q < length (m_store tm1)") (auto simp: ULONG_MAX_def not_less)
  qed
  have look: "tm_look pfnHash pfnEq tm' x = tm_look pfnHash pfnEq tm2 x" for x by (simp add: s)
  have K: "linked pfnHash pfnEq tm' (a', ul', b') \<longleftrightarrow> (\<exists>p q. tm_look pfnHash pfnEq tm' a' = Some p
       \<and> tm_look pfnHash pfnEq tm' b' = Some q \<and> alternative (m_store tm') p ul' q)" (is "?L \<longleftrightarrow> ?R") for a' ul' b'
  proof -
    have "pfnEq a a' \<longleftrightarrow> tm_look pfnHash pfnEq tm2 a' = Some p" "pfnEq b b' \<longleftrightarrow> tm_look pfnHash pfnEq tm2 b' = Some q"
      using same lk hm_PtLookup_same [OF d(1), of a a' "m_ptmap tm2"] hm_PtLookup_same [OF d(1), of b b' "m_ptmap tm2"] by metis+
    then show ?thesis
      unfolding link d(8) look s(1) tn_Add_alternative [OF v(2,4)] by blast
  qed
  have "tm_ok pfnHash pfnEq tm'"
    unfolding tm_ok_def
  proof (intro conjI allI)
    show "store_ok (m_store tm')" unfolding s by (rule tn_Add_ok [OF d(5) v(2-4) _ notalt inc]) (use v in simp)
    show "m_pdrgKeys (m_ptmap tm') = map (the \<circ> m_pt) (tl (m_store tm'))"
    proof -
      have "map (the \<circ> m_pt) (tl (m_store tm')) = map (the \<circ> m_pt) (tl (m_store tm2))"
        by (intro nth_equalityI) (auto simp: s f nth_tl)
      then show ?thesis using ok2 by (simp add: s tm_ok_def)
    qed
    show "0 < i \<and> i < length (m_store tm') \<longrightarrow> m_pt (m_store tm' ! i) \<noteq> None" for i
      using ok2 by (simp add: s f tm_ok_def)
    show "tm_look pfnHash pfnEq tm' x = Some i \<longleftrightarrow>
        0 < i \<and> i < length (m_store tm') \<and> (\<exists>t. m_pt (m_store tm' ! i) = Some t \<and> pfnEq t x)" for x i
      unfolding look d(7) by (simp add: s f)
  qed (use K d m' s f in simp_all)
  moreover have "linked pfnHash pfnEq tm2 l = linked pfnHash pfnEq tm l" for l by (simp add: linked_def pm)
  ultimately show ?thesis unfolding r link by simp
qed

lemma tm_InsertRoot_spec:
  assumes ok: "tm_ok pfnHash pfnEq tm" and room: "tm_room tm"
    and new: "\<forall>p. tm_look pfnHash pfnEq tm a = Some p \<longrightarrow> \<not> alternative (m_store tm) 0 0 p"
  shows "tm_ok pfnHash pfnEq (tm_InsertRoot pfnHash pfnEq tm a)
    \<and> (\<forall>l. linked pfnHash pfnEq (tm_InsertRoot pfnHash pfnEq tm a) l \<longleftrightarrow> linked pfnHash pfnEq tm l)"
proof -
  obtain p tm1 where P: "Ptn pfnHash pfnEq tm a = (p, tm1)" by force
  have n: "length (m_store tm) < ULONG_MOD" using room by (simp add: tm_room_def)
  note p = Ptn_spec [OF ok n P]
  then have ok1: "tm_ok pfnHash pfnEq tm1" and lk: "tm_look pfnHash pfnEq tm1 a = Some p" by auto
  note d = tm_okD [OF ok1]
  have v: "0 < p" "p < length (m_store tm1)" "0 < length (m_store tm1)" using lk d(7) [of a p] by auto
  note f = tn_Add_fields [OF v(3,2)]
  define tm' where "tm' = tm1\<lparr>m_store := tn_Add 0 0 p (m_store tm1)\<rparr>"
  have r: "tm_InsertRoot pfnHash pfnEq tm a = tm'" using P by (simp add: tm_InsertRoot_def tm'_def)
  have s: "m_store tm' = tn_Add 0 0 p (m_store tm1)" "m_ptmap tm' = m_ptmap tm1" "m_plinkmap tm' = m_plinkmap tm1"
    "m_ulCountNodes tm' = m_ulCountNodes tm1"
    by (simp_all add: tm'_def)
  have notalt: "\<not> alternative (m_store tm1) 0 0 p"
  proof
    assume a: "alternative (m_store tm1) 0 0 p"
    have "store_ok (m_store tm)" using tm_okD(5) [OF ok] .
    then have "0 < length (m_store tm)" by (simp add: store_ok_def)
    then have a0: "alternative (m_store tm) 0 0 p" using a p by (simp add: alternative_def)
    then have "p < length (m_store tm)"
      using alternative_lt [OF \<open>store_ok (m_store tm)\<close>] \<open>0 < length (m_store tm)\<close> by blast
    then have "tm_look pfnHash pfnEq tm a = Some p"
      using tm_okD(7) [OF ok, of a p] d(7) [of a p] lk p v(1) by simp
    then show False using new a0 by blast
  qed
  have inc: "m_ulIncoming (m_store tm1 ! p) < ULONG_MAX"
    using p v room by (cases "p < length (m_store tm)") (auto simp: tm_room_def ULONG_MAX_def not_less)
  have look: "tm_look pfnHash pfnEq tm' x = tm_look pfnHash pfnEq tm1 x" for x by (simp add: s)
  have link: "linked pfnHash pfnEq tm' l = linked pfnHash pfnEq tm1 l" for l by (simp add: linked_def s)
  have K: "linked pfnHash pfnEq tm' (x, ul, y) \<longleftrightarrow> (\<exists>p q. tm_look pfnHash pfnEq tm' x = Some p
       \<and> tm_look pfnHash pfnEq tm' y = Some q \<and> alternative (m_store tm') p ul q)" for x ul y
    unfolding link d(8) look s(1) tn_Add_alternative [OF v(3,2)] using d(7) by blast
  have "tm_ok pfnHash pfnEq tm'"
    unfolding tm_ok_def
  proof (intro conjI allI)
    show "store_ok (m_store tm')" unfolding s by (rule tn_Add_ok [OF d(5) v(3,1,2) _ notalt inc]) simp
    show "m_pdrgKeys (m_ptmap tm') = map (the \<circ> m_pt) (tl (m_store tm'))"
    proof -
      have "map (the \<circ> m_pt) (tl (m_store tm')) = map (the \<circ> m_pt) (tl (m_store tm1))"
        by (intro nth_equalityI) (auto simp: s f nth_tl)
      then show ?thesis using ok1 by (simp add: s tm_ok_def)
    qed
    show "0 < i \<and> i < length (m_store tm') \<longrightarrow> m_pt (m_store tm' ! i) \<noteq> None" for i
      using ok1 by (simp add: s f tm_ok_def)
    show "tm_look pfnHash pfnEq tm' x = Some i \<longleftrightarrow>
        0 < i \<and> i < length (m_store tm') \<and> (\<exists>t. m_pt (m_store tm' ! i) = Some t \<and> pfnEq t x)" for x i
      unfolding look d(7) by (simp add: s f)
  qed (use K d s f in simp_all)
  moreover have "linked pfnHash pfnEq tm1 l = linked pfnHash pfnEq tm l" for l using p by (simp add: linked_def)
  ultimately show ?thesis unfolding r link by simp
qed

section \<open>Hooking up the roots\<close>

definition hook :: "'t store \<Rightarrow> nat \<Rightarrow> 't store" where
  "hook st ptn = (if m_ulIncoming (st ! ptn) = 0 then tn_Add 0 0 ptn st else st)"

lemma hook_loop_foldl:
  assumes "\<forall>i < length (m_pdrgKeys m). hmi_Pt hash eq m (i + 1) = Some (Some (i + 1))"
    and "length (m_pdrgKeys m) - mi < n" "mi \<le> length (m_pdrgKeys m)"
  shows "hook_loop hash eq m n mi (k mod ULONG_MOD) st =
    ((k + (length (m_pdrgKeys m) - mi)) mod ULONG_MOD, foldl hook st [mi + 1..<Suc (length (m_pdrgKeys m))])"
  using assms(2,3)
proof (induction n arbitrary: mi k st)
  case (Suc n)
  show ?case
  proof (cases "mi < length (m_pdrgKeys m)")
    case True
    have up: "[mi + 1..<Suc (length (m_pdrgKeys m))] = (mi + 1) # [mi + 1 + 1..<Suc (length (m_pdrgKeys m))]"
      using True by (simp add: upt_rec)
    have step: "hook_loop hash eq m (Suc n) mi (k mod ULONG_MOD) st
        = hook_loop hash eq m n (mi + 1) ((k + 1) mod ULONG_MOD) (hook st (mi + 1))"
      using True assms(1) by (simp add: hmi_FAdvance_def hook_def Let_def ul_add_def mod_simps)
    have "k + 1 + (length (m_pdrgKeys m) - (mi + 1)) = k + (length (m_pdrgKeys m) - mi)" using True by simp
    then show ?thesis
      using Suc.IH [of "mi + 1" "k + 1" "hook st (mi + 1)"] Suc.prems True unfolding step up by simp
  qed (use Suc.prems in \<open>simp add: hmi_FAdvance_def\<close>)
qed simp

text \<open>The nodes without incoming edges become alternatives of the root.\<close>

definition roots :: "'t store \<Rightarrow> nat list" where
  "roots st = filter (\<lambda>q. m_ulIncoming (st ! q) = 0) [1..<length st]"

lemma hook_foldl:
  assumes "distinct qs" "set qs \<subseteq> {0<..<length st}" "0 < length st"
  shows "foldl hook st qs = foldl (\<lambda>st q. tn_Add 0 0 q st) st (filter (\<lambda>q. m_ulIncoming (st ! q) = 0) qs)"
  using assms
proof (induction qs arbitrary: st)
  case (Cons q qs)
  let ?st = "tn_Add 0 0 q st"
  have q: "q < length st" "q \<notin> set qs" using Cons.prems by auto
  note f = tn_Add_fields [OF Cons.prems(3) q(1), of 0]
  have "filter (\<lambda>q. m_ulIncoming (?st ! q) = 0) qs = filter (\<lambda>q. m_ulIncoming (st ! q) = 0) qs"
    using q(2) by (intro filter_cong) (auto simp: f)
  moreover have "foldl hook ?st qs = foldl (\<lambda>st q. tn_Add 0 0 q st) ?st (filter (\<lambda>q. m_ulIncoming (?st ! q) = 0) qs)"
    by (rule Cons.IH) (use Cons.prems f(1) in auto)
  moreover have "foldl hook st qs = foldl (\<lambda>st q. tn_Add 0 0 q st) st (filter (\<lambda>q. m_ulIncoming (st ! q) = 0) qs)"
    by (rule Cons.IH) (use Cons.prems in auto)
  ultimately show ?case by (simp add: hook_def [of st q])
qed simp

text \<open>What adding a list of alternatives of the root gives.\<close>

lemma add_roots:
  assumes "store_ok st" "distinct qs" "\<forall>q \<in> set qs. 0 < q \<and> q < length st \<and> m_ulIncoming (st ! q) = 0"
  shows "store_ok (foldl (\<lambda>st q. tn_Add 0 0 q st) st qs)
    \<and> length (foldl (\<lambda>st q. tn_Add 0 0 q st) st qs) = length st
    \<and> (\<forall>i < length st. m_ens (foldl (\<lambda>st q. tn_Add 0 0 q st) st qs ! i) = m_ens (st ! i)
         \<and> m_pt (foldl (\<lambda>st q. tn_Add 0 0 q st) st qs ! i) = m_pt (st ! i))
    \<and> (\<forall>p ul q. alternative (foldl (\<lambda>st q. tn_Add 0 0 q st) st qs) p ul q
         \<longleftrightarrow> alternative st p ul q \<or> p = 0 \<and> ul = 0 \<and> q \<in> set qs)"
  using assms
proof (induction qs arbitrary: st)
  case (Cons q qs)
  let ?st = "tn_Add 0 0 q st"
  have n: "0 < length st" using Cons.prems(1) by (simp add: store_ok_def)
  have q: "0 < q" "q < length st" "m_ulIncoming (st ! q) = 0" "q \<notin> set qs" using Cons.prems by auto
  note f = tn_Add_fields [OF n q(2), of 0] and a = tn_Add_alternative [OF n q(2), of 0]
  have "\<not> alternative st 0 0 q" using Cons.prems(1) q(3) by (auto simp: store_ok_def)
  then have ok: "store_ok ?st"
    by (intro tn_Add_ok [OF Cons.prems(1) n q(1,2)]) (simp_all add: q(3) ULONG_MAX_def)
  have "\<forall>q' \<in> set qs. 0 < q' \<and> q' < length ?st \<and> m_ulIncoming (?st ! q') = 0"
    using Cons.prems(3) q(4) by (auto simp: f)
  with Cons.IH [OF ok] Cons.prems(2) show ?case using f a by auto
qed simp

section \<open>Properties\<close>

lemma tm_key_lookup:
  assumes ok: "tm_ok pfnHash pfnEq tm" and i: "i < length (m_pdrgKeys (m_ptmap tm))"
  shows "hmi_Pt (\<lambda>k. unat (pfnHash k)) pfnEq (m_ptmap tm) (i + 1) = Some (Some (i + 1))"
proof -
  let ?k = "m_pdrgKeys (m_ptmap tm) ! i"
  note d = tm_okD [OF ok]
  have keys: "m_pdrgKeys (m_ptmap tm) = map (the \<circ> m_pt) (tl (m_store tm))" using ok by (simp add: tm_ok_def)
  have n: "Suc i < length (m_store tm)" using i by (simp add: keys)
  then obtain t where t: "m_pt (m_store tm ! Suc i) = Some t" using ok by (auto simp: tm_ok_def)
  have "?k = t" using n t by (simp add: keys nth_tl)
  moreover have "equivp pfnEq" using d(1) by (simp add: hash_eq_def)
  ultimately have "tm_look pfnHash pfnEq tm ?k = Some (Suc i)"
    using d(7) [of ?k "Suc i"] n t by (simp add: equivp_reflp)
  then show ?thesis using i by (auto simp: hmi_Pt_def hmi_Phme_def hm_PtLookup_def split: option.splits)
qed

text \<open>The store after the roots are hooked up.\<close>

definition tm_hooked :: "'t tree_map \<Rightarrow> 't store" where
  "tm_hooked tm = foldl (\<lambda>st q. tn_Add 0 0 q st) (m_store tm) (roots (m_store tm))"

lemma tm_UllCount_hooked:
  assumes ok: "tm_ok pfnHash pfnEq tm" and n: "length (m_store tm) \<le> ULONG_MOD"
  shows "tm_UllCount stack pfnHash pfnEq tm = (if length (m_store tm) = 1 then (Inr 0, tm\<lparr>m_store := tm_hooked tm\<rparr>)
    else (case tn_UllCount stack 0 (tm_hooked tm) of (r, st) \<Rightarrow> (r, tm\<lparr>m_store := st\<rparr>)))"
proof -
  let ?m = "m_ptmap tm" and ?st = "m_store tm"
  have st: "store_ok ?st" by (rule tm_okD(5) [OF ok])
  then have ne: "?st \<noteq> []" by (simp add: store_ok_def)
  have keys: "Suc (length (m_pdrgKeys ?m)) = length ?st" using ok ne by (simp add: tm_ok_def)
  have "\<forall>i < length (m_pdrgKeys ?m). hmi_Pt (\<lambda>k. unat (pfnHash k)) pfnEq ?m (i + 1) = Some (Some (i + 1))"
    using tm_key_lookup [OF ok] by blast
  from hook_loop_foldl [OF this, of 0 "Suc (length (m_pdrgKeys ?m))" 0 ?st]
  have "hook_loop (\<lambda>k. unat (pfnHash k)) pfnEq ?m (Suc (length (m_pdrgKeys ?m))) 0 0 ?st
      = (length (m_pdrgKeys ?m) mod ULONG_MOD, foldl hook ?st [1..<Suc (length (m_pdrgKeys ?m))])"
    by (simp del: hook_loop.simps upt_Suc)
  then have "hook_loop (\<lambda>k. unat (pfnHash k)) pfnEq ?m (Suc (length (m_pdrgKeys ?m))) 0 0 ?st
      = (length (m_pdrgKeys ?m) mod ULONG_MOD, foldl hook ?st [1..<length ?st])"
    unfolding keys .
  moreover have "foldl hook ?st [1..<length ?st] = tm_hooked tm"
    unfolding tm_hooked_def roots_def using ne by (intro hook_foldl) auto
  moreover have "length (m_pdrgKeys ?m) mod ULONG_MOD = length ?st - 1" using keys n by simp
  ultimately show ?thesis using ne by (cases "length ?st") (simp_all add: tm_UllCount_def del: hook_loop.simps)
qed

lemma tm_hooked_ok:
  assumes "store_ok (m_store tm)"
  shows "store_ok (tm_hooked tm)" "length (tm_hooked tm) = length (m_store tm)"
    "\<And>i. i < length (m_store tm) \<Longrightarrow> m_ens (tm_hooked tm ! i) = m_ens (m_store tm ! i) \<and> m_pt (tm_hooked tm ! i) = m_pt (m_store tm ! i)"
    "\<And>p ul q. alternative (tm_hooked tm) p ul q \<longleftrightarrow>
       alternative (m_store tm) p ul q \<or> p = 0 \<and> ul = 0 \<and> q \<in> set (roots (m_store tm))"
proof -
  have "\<forall>q \<in> set (roots (m_store tm)). 0 < q \<and> q < length (m_store tm) \<and> m_ulIncoming (m_store tm ! q) = 0"
    "distinct (roots (m_store tm))"
    by (auto simp: roots_def)
  note r = add_roots [OF assms this(2,1), folded tm_hooked_def]
  show "store_ok (tm_hooked tm)" "length (tm_hooked tm) = length (m_store tm)" using r by blast+
  show "\<And>i. i < length (m_store tm) \<Longrightarrow> m_ens (tm_hooked tm ! i) = m_ens (m_store tm ! i) \<and> m_pt (tm_hooked tm ! i) = m_pt (m_store tm ! i)"
    using r by blast
  show "\<And>p ul q. alternative (tm_hooked tm) p ul q \<longleftrightarrow>
       alternative (m_store tm) p ul q \<or> p = 0 \<and> ul = 0 \<and> q \<in> set (roots (m_store tm))"
    using r by blast
qed

text \<open>C34 Inserting a link adds exactly this alternative to the graph, once, and keeps the node map, the
  link map and the store in agreement.\<close>
theorem tm_Insert_adds_link:
  fixes tm :: "'t tree_map" and a b :: 't and ul :: nat
  assumes "tm_ok pfnHash pfnEq tm" "tm_room tm"
  defines "tm' \<equiv> tm_Insert pfnHash pfnEq tm a ul b"
  shows "tm_ok pfnHash pfnEq tm'
    \<and> ((\<exists>p q. tm_look pfnHash pfnEq tm' a' = Some p \<and> tm_look pfnHash pfnEq tm' b' = Some q \<and> alternative (m_store tm') p ul' q)
       \<longleftrightarrow> (\<exists>p q. tm_look pfnHash pfnEq tm a' = Some p \<and> tm_look pfnHash pfnEq tm b' = Some q \<and> alternative (m_store tm) p ul' q)
         \<or> pfnEq a a' \<and> ul = ul' \<and> pfnEq b b')
    \<and> tm_Insert pfnHash pfnEq tm' a ul b = tm'"
proof -
  have s: "tm_ok pfnHash pfnEq tm'" "\<And>a' ul' b'. linked pfnHash pfnEq tm' (a', ul', b') \<longleftrightarrow>
      linked pfnHash pfnEq tm (a', ul', b') \<or> pfnEq a a' \<and> ul = ul' \<and> pfnEq b b'"
    using tm_Insert_spec [OF assms(1,2), of a ul b] by (simp_all add: tm'_def)
  have "linked pfnHash pfnEq tm' (a, ul, b)"
    using s(2) tm_okD(1) [OF assms(1)] by (auto simp: hash_eq_def equivp_reflp)
  then have "tm_Insert pfnHash pfnEq tm' a ul b = tm'" by (rule tm_Insert_present)
  then show ?thesis
    unfolding tm_okD(8) [OF s(1), symmetric] tm_okD(8) [OF assms(1), symmetric] using s by simp
qed

text \<open>C5 For a graph without cycles the count is the number of trees that follow its edges from a root,
  and unranking the numbers below it gives each of these trees exactly once.  If the count overflows,
  an exception is raised, and only then.\<close>
theorem unrank_enumerates_trees:
  assumes "tm_ok pfnHash pfnEq tm" "length (m_store tm) \<le> ULONG_MOD" "\<forall>n \<in> set (m_store tm). \<not> FCounted n"
    and "graph_ok (shape (tm_hooked tm)) h" "alternative (tm_hooked tm) 0 0 q" "h 0 < stack"
  shows "\<exists>ts. distinct ts \<and> set ts = {t. root t = 0 \<and> tree_in (shape (tm_hooked tm)) t}
    \<and> (case tm_UllCount stack pfnHash pfnEq tm of (r, tm') \<Rightarrow>
        (r = Inr (length ts) \<or> r = Inl ExmiOverflow \<and> \<not> small (shape (tm_hooked tm)) h)
      \<and> (small (shape (tm_hooked tm)) h \<longrightarrow> (\<forall>ullRank < length ts.
           fst (tm_PrUnrank stack prfn pU tm' ullRank) = Inr (rehydrate prfn pU (static (tm_hooked tm)) (ts ! ullRank)))))"
proof -
  let ?st = "tm_hooked tm" and ?S = "static (tm_hooked tm)"
  have ok: "store_ok (m_store tm)" by (rule tm_okD(5) [OF assms(1)])
  note hk = tm_hooked_ok [OF ok]
  have sh: "shape ?st = map fst ?S" "length ?S = length ?st" by (simp_all add: shape_def static_def)
  have g: "graph_ok (map fst ?S) h" using assms(4) sh by simp
  have n0: "0 < length ?st" using hk(1) by (simp add: store_ok_def)
  let ?ts = "all_trees (map fst ?S) h 0"
  have dist: "distinct ?ts"
    by (rule distinct_all_trees [OF g]) (use hk(1) n0 in \<open>auto simp: static_def store_ok_def\<close>)
  have set: "set ?ts = {t. root t = 0 \<and> tree_in (map fst ?S) t}"
    using set_all_trees [OF g] n0 by (auto simp: static_def)
  have "\<not> FCounted (?st ! p)" if "p < length ?st" for p
    using that assms(3) hk(2,3) by (auto simp: FCounted_def)
  then have I: "st_inv ?S h ?st" by (simp add: st_inv_def counts_ok_def)
  have "0 < q" "q < length (m_store tm)" using alternative_lt [OF hk(1) assms(5) n0] hk(2) by simp_all
  then have one: "length (m_store tm) \<noteq> 1" by simp
  have ne: "m_pdrgdrgptn (?st ! 0) \<noteq> []" using assms(5) by (auto simp: alternative_def)
  obtain r st' where c: "tn_UllCount stack 0 ?st = (r, st')" by force
  have gr: "good_count (small (map fst ?S) h) r (length ?ts)" "st_inv ?S h st'"
    using tn_UllCount_counts [OF g, of 0 stack] I c assms(6) n0 by (auto simp: counts_def static_def)
  have U: "tm_UllCount stack pfnHash pfnEq tm = (r, tm\<lparr>m_store := st'\<rparr>)"
    using tm_UllCount_hooked [OF assms(1,2)] one c by simp
  have root: "\<forall>p < length ?S. fst (snd (?S ! p)) = 0 \<longrightarrow> length (fst (?S ! p)) = 1"
    using hk(1) ne by (auto simp: static_def store_ok_def le_Suc_eq)
  have "fst (tm_PrUnrank stack prfn pU (tm\<lparr>m_store := st'\<rparr>) k) = Inr (rehydrate prfn pU ?S (?ts ! k))"
    if "small (map fst ?S) h" "k < length ?ts" for k
    using tn_PrUnrank_unranks [OF g root, of 0 stack prfn pU] assms(6) n0 gr(2) that
    unfolding unranks_def by (fastforce simp: tm_PrUnrank_def static_def split: prod.splits)
  then show ?thesis using dist set gr(1) U sh by (intro exI [of _ ?ts]) (auto simp: good_count_def)
qed

text \<open>A map with a node \<open>10\<close> whose only child is \<open>20\<close> or \<open>30\<close>.\<close>

definition sample_map :: "nat tree_map" where
  "sample_map = tm_Insert (\<lambda>_. 0) (=) (tm_Insert (\<lambda>_. 0) (=) CTreeMap_new 10 0 20) 10 0 30"

lemma sample_hash: "hash_eq (\<lambda>k :: nat. unat (0 :: ulong_w)) (=)"
  by (simp add: hash_eq_def identity_equivp)

lemma sample_new_room: "tm_room (CTreeMap_new :: nat tree_map)"
  by (simp add: tm_room_def CTreeMap_new_def CTreeNode_def ULONG_MAX_def)

abbreviation sample_link :: "nat tree_map" where
  "sample_link \<equiv> tm_Insert (\<lambda>_. 0) (=) CTreeMap_new 10 0 20"

theorem tm_Insert_adds_link_witness:
  "\<exists>p q. tm_look (\<lambda>_. 0) (=) sample_link 10 = Some p \<and> tm_look (\<lambda>_. 0) (=) sample_link 20 = Some q
     \<and> alternative (m_store sample_link) p 0 q"
  using tm_Insert_adds_link [OF tm_new_ok [OF sample_hash] sample_new_room, of 10 0 20 10 20 0] by simp

lemma sample_link_store:
  "m_store sample_link =
     [CTreeNode 0 None, (CTreeNode 1 (Some 10))\<lparr>m_pdrgdrgptn := [[2]]\<rparr>, (CTreeNode 2 (Some 20))\<lparr>m_ulIncoming := 1\<rparr>]"
  by (simp add: tm_Insert_def Ptn_def hm_PtLookup_def hm_Lookup_def hm_FInsert_def PpdrgChain_def
      CTreeMap_new_def hm_new_def Let_def tn_Add_def CTreeNode_def ul_add_def STreeLink_FEqual_def)

lemma sample_ok: "tm_ok (\<lambda>_. 0) (=) sample_map"
proof -
  have "tm_ok (\<lambda>_. 0) (=) sample_link" using tm_Insert_spec [OF tm_new_ok [OF sample_hash] sample_new_room] by blast
  moreover have "tm_room sample_link"
    by (auto simp: tm_room_def sample_link_store ULONG_MAX_def CTreeNode_def less_Suc_eq)
  ultimately show ?thesis using tm_Insert_spec [of "\<lambda>_. 0" "(=)" sample_link 10 0 30] by (simp add: sample_map_def)
qed

lemma sample_store:
  "m_store sample_map =
     [CTreeNode 0 None,
      (CTreeNode 1 (Some 10))\<lparr>m_pdrgdrgptn := [[2, 3]]\<rparr>,
      (CTreeNode 2 (Some 20))\<lparr>m_ulIncoming := 1\<rparr>,
      (CTreeNode 3 (Some 30))\<lparr>m_ulIncoming := 1\<rparr>]"
  by (simp add: sample_map_def tm_Insert_def Ptn_def hm_PtLookup_def hm_Lookup_def hm_FInsert_def PpdrgChain_def
      CTreeMap_new_def hm_new_def Let_def tn_Add_def CTreeNode_def ul_add_def STreeLink_FEqual_def nth_list_update)

lemma sample_hooked:
  "tm_hooked sample_map =
     [(CTreeNode 0 None)\<lparr>m_pdrgdrgptn := [[1]]\<rparr>,
      (CTreeNode 1 (Some 10))\<lparr>m_pdrgdrgptn := [[2, 3]], m_ulIncoming := 1\<rparr>,
      (CTreeNode 2 (Some 20))\<lparr>m_ulIncoming := 1\<rparr>,
      (CTreeNode 3 (Some 30))\<lparr>m_ulIncoming := 1\<rparr>]"
proof -
  have r: "roots (m_store sample_map) = [1]"
    by (simp add: roots_def sample_store upt_rec CTreeNode_def)
  show ?thesis unfolding tm_hooked_def r by (simp add: sample_store tn_Add_def CTreeNode_def Let_def ul_add_def)
qed

lemma sample_graph: "shape (tm_hooked sample_map) = [[[1]], [[2, 3]], [], []]"
  by (simp add: sample_hooked shape_def CTreeNode_def)

text \<open>Its two trees.\<close>

lemma sample_trees: "all_trees [[[1]], [[2, 3]], [], []] (\<lambda>p. 3 - p) 0 =
    [Tree 0 [Tree 1 [Tree 2 []]], Tree 0 [Tree 1 [Tree 3 []]]]"
  by (simp add: all_trees_def numeral_3_eq_3)

theorem unrank_enumerates_trees_witness:
  "case tm_UllCount 8 (\<lambda>_. 0) (=) sample_map of (r, tm') \<Rightarrow>
     r = Inr 2 \<and> fst (tm_PrUnrank 8 (\<lambda>_ pt rs. the pt + sum_list rs) () tm' 0) \<in> {Inr 30, Inr 40}"
proof -
  let ?g = "[[[1]], [[2, 3]], [], []] :: graph" and ?h = "\<lambda>p. 3 - p :: nat"
  have g: "graph_ok ?g ?h" by (auto simp: graph_ok_def less_Suc_eq numeral_eq_Suc)
  have sum: "n_child ?g ?h [1] = 2" "n_child ?g ?h [2, 3] = 2"
    by (simp_all add: child_trees_def all_trees_def numeral_3_eq_3)
  have sm: "small ?g ?h"
  proof -
    have "prod_list (map (n_child ?g ?h) (take k [xs])) \<le> ULLONG_MAX" if "n_child ?g ?h xs = 2" for k xs
      using that by (cases k) (simp_all add: ULLONG_MAX_def)
    then show ?thesis using sum by (simp add: small_def All_less_Suc) (simp add: ULLONG_MAX_def)
  qed
  have len: "length (m_store sample_map) \<le> ULONG_MOD" "\<forall>n \<in> set (m_store sample_map). \<not> FCounted n"
    by (simp_all add: sample_store FCounted_def CTreeNode_def)
  have alt: "alternative (tm_hooked sample_map) 0 0 1" by (simp add: sample_hooked alternative_def CTreeNode_def)
  let ?T = "all_trees ?g ?h 0"
  have T: "{t. root t = 0 \<and> tree_in ?g t} = set ?T" using set_all_trees [OF g, of 0] by auto
  let ?hyd = "rehydrate (\<lambda>_ pt rs. the pt + sum_list rs) () (static (tm_hooked sample_map))"
  obtain ts where ts: "distinct ts" "set ts = set ?T" and res: "case tm_UllCount 8 (\<lambda>_. 0) (=) sample_map of (r, tm') \<Rightarrow>
      r = Inr (length ts) \<and> (\<forall>k < length ts. fst (tm_PrUnrank 8 (\<lambda>_ pt rs. the pt + sum_list rs) () tm' k) = Inr (?hyd (ts ! k)))"
    using unrank_enumerates_trees [OF sample_ok len _ alt, of ?h 8 "\<lambda>_ pt rs. the pt + sum_list rs" "()"] g sm T
    by (auto simp: sample_graph case_prod_unfold)
  have "card (set ts) = 2" unfolding ts(2) sample_trees by simp
  then have n: "length ts = 2" using distinct_card [OF ts(1)] by simp
  then have "ts ! 0 \<in> set ?T" using ts(2) nth_mem [of 0 ts] by simp
  then have "?hyd (ts ! 0) \<in> {30, 40}"
    unfolding sample_trees by (auto simp: sample_hooked static_def CTreeNode_def)
  then show ?thesis using res n by (auto simp: case_prod_unfold)
qed

end
