(* ===== verification/Spec2Isabelle.thy ===== *)
theory Spec2Isabelle
  imports OptimizationJobs SchedulerTracking GroupDuplicates SyncPool ColRefSet SyncHashtableIter IntervalExpr PtrArray TreeMapGraph
begin

text \<open>
  A verification development beside the core of the ORCA query optimizer (GPORCA): the containers
  its memory management and search are built on, its reasoning about scalar predicates, and the
  jobs that drive the search.  Paths below are under \<^verbatim>\<open>src/\<close>; a definition has the name of
  the function it models, with a prefix for its class where several classes share a name.

  \<^bold>\<open>The program and the part of it that is modelled.\<close>  GPORCA takes a query in an XML form, translates it
  into expressions, and puts these into a memo of groups of equivalent expressions.  Jobs, run by a
  scheduler, explore and implement the groups by transformations and then optimize them: they
  choose for every set of required properties the cheapest plan.  The memo then counts and unranks
  the plans it holds.  The containers come from \<^verbatim>\<open>libgpos\<close> (\<open>CBitVector\<close>, \<open>CBitSet\<close>, \<open>CList\<close>,
  \<open>CSyncHashtable\<close>, \<open>CDynamicPtrArray\<close>, \<open>CHashMap\<close>); columns are objects of a factory that are
  collected in bit sets of their ids; predicates are simplified, compared and turned into interval
  constraints for partition elimination.

  \<^bold>\<open>Prelude.\<close>  \<open>ULONG\<close> is \<open>nat\<close> with the wrap-around written out: \<open>ul_add\<close>, \<open>ul_sub\<close> compute modulo
  \<open>ULONG_MOD\<close> (2 to the 32); words are kept where the code works bitwise (\<open>64 word\<close> in bit
  vectors, \<open>ulong_w\<close> in hash functions, \<open>ullong\<close> in tree maps).  Code that can throw or dereference
  null returns an option or a sum with an error.

  \<^bold>\<open>BitVector, BitSet\<close> (\<^verbatim>\<open>libgpos/src/common/CBitVector.cpp\<close>, \<^verbatim>\<open>CBitSet.cpp\<close>,
  \<^verbatim>\<open>CBitSetIter.cpp\<close>, \<^verbatim>\<open>utils.cpp\<close>).  A bit vector is its list of 64-bit units; a bit set is the
  sorted list of links, each with an offset and a bit vector, and the hash table of the links as a
  map.  The lemmas refine every operation to sets of numbers (\<open>bv_set\<close>, \<open>bs_set\<close>) under the
  invariants \<open>bv_wf\<close>, \<open>bs_wf\<close>: exact results of insertion, removal, union, intersection and
  difference, sound tests, an iterator that visits every element once.  Intersection keeps emptied
  links, on which the equality test fails.

  \<^bold>\<open>IntrusiveList, SyncHashtable, SyncHashtableIter\<close> (\<^verbatim>\<open>libgpos/include/gpos/common/CList.h\<close>,
  \<^verbatim>\<open>CSyncHashtable*.h\<close>).  Links are kept in an explicit store, so that aliasing is visible; a
  predicate \<open>clist_repr\<close> relates the store to the list it holds.  The locale \<open>keyed_table\<close> states what a
  client relies on; it is interpreted on the modelled table.  The iterator puts a placeholder into
  a bucket; since each use of an accessor holds the spinlock of the bucket, the interleaving with
  other clients is a sequence of whole steps (\<open>iter_step\<close>), over which the safety and the
  completeness of an iteration are proved, and the case in which it misses an element.

  \<^bold>\<open>PtrArray, HashMap\<close> (\<^verbatim>\<open>CDynamicPtrArray.h\<close>, \<^verbatim>\<open>CStack.h\<close>, \<^verbatim>\<open>CHashMap.h\<close>, \<^verbatim>\<open>CHashSet.h\<close> and their
  iterators).  Arrays keep their allocated cells beside their size; maps keep chains of buckets with
  the array of keys and of filled buckets.  The locales \<open>sequence\<close> and \<open>dictionary\<close> state the contracts; maps
  and sets both interpret \<open>dictionary\<close>.  A key with a null value counts as absent.

  \<^bold>\<open>TreeMap, TreeMapGraph\<close> (\<^verbatim>\<open>libgpopt/include/gpopt/search/CTreeMap.h\<close>).  Nodes live in a store;
  counting memoises in it and marks the nodes in progress.  Counting and unranking take the depth of
  stack that is left as an argument, as the code checks the stack; a graph without cycles needs no
  more than its number of nodes, which is the bound of the theorem.  Numbers are
  \<open>ullong\<close> with the overflow checks of \<open>clib\<close>.  Unranking enumerates the trees of the graph.

  \<^bold>\<open>ColumnFactory, ColRefSet\<close> (\<^verbatim>\<open>libgpopt/src/base/CColumnFactory.cpp\<close>, \<^verbatim>\<open>CColRefSet.cpp\<close>,
  \<^verbatim>\<open>CColRefSetIter.cpp\<close>).  Ids come from an atomic counter that wraps around; the factory is a
  client of \<open>keyed_table\<close>.  A column set is a bit set of ids (locale \<open>element_set\<close>), its iterator
  looks the columns up in the factory.

  \<^bold>\<open>Comparator, Cut, Range, ConstraintInterval\<close> (\<^verbatim>\<open>libgpopt/src/base/CDefaultComparator.cpp\<close>,
  \<^verbatim>\<open>CRange.cpp\<close>, \<^verbatim>\<open>CConstraintInterval.cpp\<close>).  The locale \<open>icomparator\<close> says that a comparator compares
  keys of a linear order; it is interpreted on the default comparator with integer datums.  The
  abstract specification is the theory \<open>Cut\<close>: an interval is a list of spans between cuts
  of the order.  Intersection, union, difference and complement of interval constraints refine the
  operations on spans and keep them sorted and apart.

  \<^bold>\<open>ScalarExpr, ExprMatch, PredicateUtils, ScalarInterval, IntervalExpr\<close>
  (\<^verbatim>\<open>libgpopt/src/operators/CScalar*.cpp\<close>, \<^verbatim>\<open>CPredicateUtils.cpp\<close>, \<^verbatim>\<open>libgpopt/src/base/CUtils.cpp\<close>).
  Expressions are trees of a datatype of scalar operators with a three-valued meaning \<open>ev\<close> over rows.  The
  boolean evaluation of the optimizer, its test for null-rejecting predicates, its equality,
  deduplication, conjunctions, disjunctions, expansions and prunings are related to this meaning,
  as are the interval computed from an expression and the expression built from an interval.

  \<^bold>\<open>StateMachine, JobStateMachine, SearchJobs, OptimizationJobs\<close>
  (\<^verbatim>\<open>libgpopt/include/gpopt/base/CStateMachine.h\<close>, \<^verbatim>\<open>libgpopt/include/gpopt/search/CJobStateMachine.h\<close>,
  \<^verbatim>\<open>libgpopt/src/search/CJobGroup*.cpp\<close>, \<^verbatim>\<open>CJobTransformation.cpp\<close>).  A machine is its table, its state and its
  history ring buffer.  The run of a job, \<open>FRun\<close>, is a partial function, since nothing in its code
  makes it end.  The locale \<open>job_actions\<close> states what it needs: an action of a state returns an
  event of the table, and when the event leads to another state, no child has been scheduled and a
  rank has become smaller.  From it follow that a run returns, and that a job that answers
  \<open>completed\<close> has scheduled no child in that run.  It is interpreted on the seven kinds of jobs.
  The state of a run is a record of the job, the memo, the children scheduled so far and the
  pools truncated; the memo is the part of its state that the jobs read and write.

  \<^bold>\<open>SyncList, SyncPool\<close> (\<^verbatim>\<open>libgpos/include/gpos/common/CSyncList.h\<close>, \<^verbatim>\<open>CSyncPool.h\<close>).  The two
  lock-free structures of the scheduler.  An operation is a small machine whose steps are its single
  reads, writes and compare and swaps; the configurations \<open>sl_reach\<close>, \<open>sp_reach\<close> are those that any
  number of threads can reach with all interleavings.  The list is a stack, step by step, when its
  clients do not push an element that a thread is still using, and is not when elements are merely
  recycled (the ABA problem).  The pool hands out an object at most once at a time; a retrieval
  alone needs at most 14 steps for each of its \<open>n\<close> objects when one of them is available, where
  \<open>2 n\<close> fits a \<open>ULONG\<close> and the clock index does not wrap.

  \<^bold>\<open>Scheduler, SchedulerRuns, SchedulerTracking\<close> (\<^verbatim>\<open>libgpopt/src/search/CScheduler.cpp\<close>,
  \<^verbatim>\<open>CJob.cpp\<close>, \<^verbatim>\<open>CJobQueue.cpp\<close>).  The workers are places in the code (\<open>wpc\<close>) over a shared state;
  \<open>wstep\<close> has a rule for each atomic operation, \<open>sched_step\<close> interleaves them and \<open>sched_reach\<close> collects what can be
  reached.  The invariant is a ledger: a reference counter is the number of references that workers, the
  queue and the children hold, and a job without references is in exactly one place.  It is kept
  by the step of one worker against arbitrary sums for the others (\<open>wstep_good\<close>), and holds of all workers
  with the sums of the real others (\<open>work_ok\<close>).  It gives mutual exclusion and that workers come to rest
  only when all jobs are completed or jobs wait for each other in a cycle.  \<open>SchedulerTracking\<close> adds what a
  debug build has, the states of the jobs and the mutex that then guards every operation on them, and
  proves the assertions: on the reference counters and the number of running jobs, on the queues (a queue is
  not completed when its main job comes back after the unlocked test of \<open>EjqrAdd\<close>, has no main
  job before the first caller, and is notified once and not empty), on the states of the jobs and
  the owner of the mutex.  Without tracking its runs are those of \<open>SchedulerRuns\<close>.  Left out are the
  debug lists of running and suspended jobs, the link pool (whose exhaustion throws), the
  counters that decide when a sleeping worker is signalled (here it may wake up at any time), statistics and the abort of
  a worker by an exception.

  \<^bold>\<open>GroupDuplicates\<close> (\<^verbatim>\<open>libgpopt/src/search/CGroup.cpp\<close>, \<^verbatim>\<open>CMemo.cpp\<close>).  The marks of duplicate groups as a
  union-find structure of links to groups with larger ids, changed by compare and swap.  Run one after
  the other the operations return and keep the equivalence that the marks generate; two threads that mark the
  same two groups can make a group its own duplicate, and then the search for its master does not end.

  \<^bold>\<open>Parameters.\<close>  What is not under \<^verbatim>\<open>src/\<close>, or is reached through a virtual interface that other
  programs implement, is an argument: the metadata cache (\<open>pmda\<close>), the operators, functions and casts
  of the database (\<open>interp\<close>, with \<open>strict_interp\<close>: what the metadata calls strict is null on null;
  \<open>comm_interp\<close>: what it calls commutative commutes; \<open>coercion_neutral\<close>: a coercion of an array that the
  expansion of a comparison drops does not change the comparison of its elements), the constant evaluator of a comparator, the hash and
  equality functions of containers (equal elements hash equally), the growth of arrays, the
  rehydrate function of tree maps.  For the jobs, the answers of the engine, of property derivation and of costing are
  arguments too (records \<open>opt_env\<close>, \<open>jxo_env\<close>, \<open>xform_sets\<close>), on which no theorem has a hypothesis but
  that sets of xforms are well formed and that expressions are not above the optimization level of
  their group.  Every hypothesis has a witness on a concrete instance, the sample database with
  integer operators or a concrete engine.

  \<^bold>\<open>Not modelled.\<close>  DXL parsing and serialisation and the translators between DXL and expressions
  (large tables over two object models with an XML library); the transformations
  (\<^verbatim>\<open>libgpopt/src/xforms\<close>) and the derivation of logical and physical properties, which need the whole operator
  hierarchy; statistics and costs (floating point); the memo's hash table of group expressions, its
  rehashing and the merging of duplicate groups into one (their marking is modelled), and the job factory; operating system services, memory pools, tasks and I/O.
  The jobs of \<open>Scheduler\<close> are abstract: that a
  completed run has added no child is what \<open>SearchJobs\<close> and \<open>OptimizationJobs\<close> prove of the real ones.
  Memory is freed implicitly except where the release of references is the subject
  (\<open>OptimizationJobs\<close>, destructors of containers).  Debug assertions do not change the
  model; what they demand appears as an invariant or a hypothesis, and those of the scheduler as a
  theorem.  The abort of a thread that waits (\<open>GPOS_CHECK_ABORT\<close>) is left out everywhere.
\<close>

end
